(* ===== verification/Prelude.thy ===== *)
theory Prelude
  imports Main "HOL-Library.Sublist"
begin

text \<open>
  The vocabulary shared by every component.  A Rust \<^verbatim>\<open>str\<close> is the list of its UTF-8 bytes, so
  \<open>length\<close> is \<^verbatim>\<open>str::len\<close>; \<open>Result\<close> is a sum with the error on the left; the functions of
  \<^verbatim>\<open>core::str\<close> and \<^verbatim>\<open>core::slice\<close> that the sources call are defined once here, with the generic
  lemmas the component proofs share.
\<close>

named_theorems str_simps "evaluation rules for the string functions of the standard library"
named_theorems wf_intros "operations that preserve a well-formedness invariant"

subsection \<open>Results\<close>

type_synonym str = string
type_synonym ('a, 'e) result = "'e + 'a"

abbreviation Ok :: "'a \<Rightarrow> ('a, 'e) result" where "Ok \<equiv> Inr"
abbreviation Err :: "'e \<Rightarrow> ('a, 'e) result" where "Err \<equiv> Inl"

text \<open>The \<^verbatim>\<open>?\<close> operator, and \<^verbatim>\<open>Result::ok\<close>.\<close>

fun and_then :: "('a, 'e) result \<Rightarrow> ('a \<Rightarrow> ('b, 'e) result) \<Rightarrow> ('b, 'e) result" where
  "and_then (Inl e) f = Err e"
| "and_then (Inr x) f = f x"

fun result_ok :: "('a, 'e) result \<Rightarrow> 'a option" where
  "result_ok (Inl e) = None"
| "result_ok (Inr x) = Some x"

definition is_ok :: "('a, 'e) result \<Rightarrow> bool" where
  "is_ok r \<longleftrightarrow> (case r of Inl _ \<Rightarrow> False | Inr _ \<Rightarrow> True)"

lemma is_ok_simps [simp]: "is_ok (Ok x)" "\<not> is_ok (Err e)"
  by (simp_all add: is_ok_def)

lemma and_then_Ok_iff: "and_then r f = Ok y \<longleftrightarrow> (\<exists>x. r = Ok x \<and> f x = Ok y)"
  by (cases r) auto

lemma result_ok_Some_iff [simp]: "result_ok r = Some x \<longleftrightarrow> r = Ok x"
  by (cases r) auto

lemma result_ok_None_iff: "result_ok r = None \<longleftrightarrow> (\<exists>e. r = Err e)"
  by (cases r) auto

subsection \<open>ASCII classes\<close>

definition is_ascii_alphabetic :: "char \<Rightarrow> bool" where
  "is_ascii_alphabetic c \<longleftrightarrow>
     (let n = (of_char c :: nat) in 65 \<le> n \<and> n \<le> 90 \<or> 97 \<le> n \<and> n \<le> 122)"

definition is_ascii_digit :: "char \<Rightarrow> bool" where
  "is_ascii_digit c \<longleftrightarrow> (let n = (of_char c :: nat) in 48 \<le> n \<and> n \<le> 57)"

definition is_ascii_alphanumeric :: "char \<Rightarrow> bool" where
  "is_ascii_alphanumeric c \<longleftrightarrow> is_ascii_alphabetic c \<or> is_ascii_digit c"

definition is_ascii_whitespace :: "char \<Rightarrow> bool" where
  "is_ascii_whitespace c \<longleftrightarrow> (of_char c :: nat) \<in> {32, 9, 10, 12, 13}"

text \<open>ASCII lower case, the comparison of \<^verbatim>\<open>eq_ignore_ascii_case\<close>.\<close>

definition to_lower :: "char \<Rightarrow> char" where
  "to_lower c = (let n = (of_char c :: nat) in if 65 \<le> n \<and> n \<le> 90 then char_of (n + 32) else c)"

definition to_ascii_lowercase :: "str \<Rightarrow> str" where
  "to_ascii_lowercase s = map to_lower s"

definition eq_ignore_ascii_case :: "str \<Rightarrow> str \<Rightarrow> bool" where
  "eq_ignore_ascii_case s t \<longleftrightarrow> map to_lower s = map to_lower t"

lemma eq_ignore_ascii_case_refl [simp]: "eq_ignore_ascii_case s s"
  by (simp add: eq_ignore_ascii_case_def)

lemma eq_ignore_ascii_case_sym: "eq_ignore_ascii_case s t \<Longrightarrow> eq_ignore_ascii_case t s"
  by (simp add: eq_ignore_ascii_case_def)

lemma eq_ignore_ascii_case_trans:
  "eq_ignore_ascii_case s t \<Longrightarrow> eq_ignore_ascii_case t u \<Longrightarrow> eq_ignore_ascii_case s u"
  by (simp add: eq_ignore_ascii_case_def)

lemma eq_ignore_ascii_case_length: "eq_ignore_ascii_case s t \<Longrightarrow> length s = length t"
  by (auto simp: eq_ignore_ascii_case_def dest: map_eq_imp_length_eq)

subsection \<open>Splitting and stripping\<close>

fun strip_prefix :: "'a list \<Rightarrow> 'a list \<Rightarrow> 'a list option" where
  "strip_prefix [] ys = Some ys"
| "strip_prefix (x # xs) [] = None"
| "strip_prefix (x # xs) (y # ys) = (if x = y then strip_prefix xs ys else None)"

definition strip_suffix :: "'a list \<Rightarrow> 'a list \<Rightarrow> 'a list option" where
  "strip_suffix s xs = map_option rev (strip_prefix (rev s) (rev xs))"

definition starts_with_str :: "'a list \<Rightarrow> 'a list \<Rightarrow> bool" where
  "starts_with_str xs p \<longleftrightarrow> strip_prefix p xs \<noteq> None"

definition ends_with_str :: "'a list \<Rightarrow> 'a list \<Rightarrow> bool" where
  "ends_with_str xs s \<longleftrightarrow> strip_suffix s xs \<noteq> None"

fun split_once :: "'a \<Rightarrow> 'a list \<Rightarrow> ('a list \<times> 'a list) option" where
  "split_once c [] = None"
| "split_once c (x # xs) =
     (if x = c then Some ([], xs) else map_option (\<lambda>(a, b). (x # a, b)) (split_once c xs))"

definition rsplit_once :: "'a \<Rightarrow> 'a list \<Rightarrow> ('a list \<times> 'a list) option" where
  "rsplit_once c xs = map_option (\<lambda>(a, b). (rev b, rev a)) (split_once c (rev xs))"

fun split_on :: "('a \<Rightarrow> bool) \<Rightarrow> 'a list \<Rightarrow> 'a list list" where
  "split_on P [] = [[]]"
| "split_on P (x # xs) =
     (if P x then [] # split_on P xs
      else (case split_on P xs of [] \<Rightarrow> [[x]] | y # ys \<Rightarrow> (x # y) # ys))"

fun join_with :: "'a list \<Rightarrow> 'a list list \<Rightarrow> 'a list" where
  "join_with sep [] = []"
| "join_with sep [x] = x"
| "join_with sep (x # y # ys) = x @ sep @ join_with sep (y # ys)"

definition trim_start_matches :: "('a \<Rightarrow> bool) \<Rightarrow> 'a list \<Rightarrow> 'a list" where
  "trim_start_matches P xs = dropWhile P xs"

definition trim_end_matches :: "('a \<Rightarrow> bool) \<Rightarrow> 'a list \<Rightarrow> 'a list" where
  "trim_end_matches P xs = rev (dropWhile P (rev xs))"

definition trim_ascii :: "str \<Rightarrow> str" where
  "trim_ascii xs = trim_end_matches is_ascii_whitespace (trim_start_matches is_ascii_whitespace xs)"

text \<open>The line breaks of the web standards: a line feed, a carriage return, or both in this order.  With
  them read as one line feed each; the flag tells that a carriage return has just been read.\<close>

fun newlines_after :: "bool \<Rightarrow> str \<Rightarrow> str" where
  "newlines_after cr [] = []"
| "newlines_after cr (c # s) =
     (if c = CHR 0x0A then (if cr then newlines_after False s else CHR 0x0A # newlines_after False s)
      else if c = CHR 0x0D then CHR 0x0A # newlines_after True s
      else c # newlines_after False s)"

definition normalize_newlines :: "str \<Rightarrow> str" where
  "normalize_newlines s = newlines_after False s"

lemma strip_prefix_Some_iff [str_simps]: "strip_prefix p xs = Some r \<longleftrightarrow> xs = p @ r"
  by (induction p xs rule: strip_prefix.induct) auto

lemma strip_prefix_None_iff: "strip_prefix p xs = None \<longleftrightarrow> \<not> prefix p xs"
  by (induction p xs rule: strip_prefix.induct) auto

lemma strip_prefix_append [simp]: "strip_prefix p (p @ r) = Some r"
  by (simp add: strip_prefix_Some_iff)

lemma strip_prefix_single [simp]:
  "strip_prefix [c] xs = (case xs of [] \<Rightarrow> None | y # ys \<Rightarrow> if c = y then Some ys else None)"
  by (cases xs) auto

lemma strip_suffix_Some_iff [str_simps]: "strip_suffix s xs = Some r \<longleftrightarrow> xs = r @ s"
  by (auto simp: strip_suffix_def strip_prefix_Some_iff) (metis rev_append rev_rev_ident)

lemma strip_suffix_append [simp]: "strip_suffix s (r @ s) = Some r"
  by (simp add: strip_suffix_Some_iff)

lemma starts_with_str_iff [str_simps]: "starts_with_str xs p \<longleftrightarrow> prefix p xs"
  by (auto simp: starts_with_str_def strip_prefix_None_iff)

lemma ends_with_str_iff [str_simps]: "ends_with_str xs s \<longleftrightarrow> suffix s xs"
  by (auto simp: ends_with_str_def suffix_def strip_suffix_Some_iff)

lemma split_once_None_iff: "split_once c xs = None \<longleftrightarrow> c \<notin> set xs"
  by (induction xs) auto

lemma split_once_Some_iff:
  "split_once c xs = Some (a, b) \<longleftrightarrow> xs = a @ c # b \<and> c \<notin> set a"
proof (induction xs arbitrary: a)
  case (Cons x xs)
  show ?case
  proof (cases "x = c")
    case True
    then show ?thesis by (cases a) auto
  next
    case False
    with Cons.IH show ?thesis by (cases a) (auto split: option.splits)
  qed
qed simp

lemma rsplit_once_Some_iff:
  "rsplit_once c xs = Some (a, b) \<longleftrightarrow> xs = a @ c # b \<and> c \<notin> set b"
proof
  assume "rsplit_once c xs = Some (a, b)"
  then have "split_once c (rev xs) = Some (rev b, rev a)" by (auto simp: rsplit_once_def)
  then have "rev xs = rev b @ c # rev a" and "c \<notin> set b" by (auto simp: split_once_Some_iff)
  then show "xs = a @ c # b \<and> c \<notin> set b" by (simp add: rev_swap)
next
  assume "xs = a @ c # b \<and> c \<notin> set b"
  then have "split_once c (rev xs) = Some (rev b, rev a)" by (simp add: split_once_Some_iff)
  then show "rsplit_once c xs = Some (a, b)" by (simp add: rsplit_once_def)
qed

lemma rsplit_once_None_iff: "rsplit_once c xs = None \<longleftrightarrow> c \<notin> set xs"
  by (simp add: rsplit_once_def split_once_None_iff)

lemma split_on_not_Nil [simp]: "split_on P xs \<noteq> []"
  by (induction xs) (auto split: list.splits)

lemma split_on_pieces: "s \<in> set (split_on P xs) \<Longrightarrow> x \<in> set s \<Longrightarrow> \<not> P x"
  by (induction xs arbitrary: s) (fastforce split: if_splits list.splits)+

lemma split_on_none [simp]: "(\<forall>x \<in> set xs. \<not> P x) \<Longrightarrow> split_on P xs = [xs]"
  by (induction xs) auto

lemma split_on_append:
  "P c \<Longrightarrow> (\<forall>x \<in> set a. \<not> P x) \<Longrightarrow> split_on P (a @ c # b) = a # split_on P b"
  by (induction a) auto

lemma split_on_split_once:
  "split_on (\<lambda>x. x = c) xs =
     (case split_once c xs of None \<Rightarrow> [xs] | Some (a, b) \<Rightarrow> a # split_on (\<lambda>x. x = c) b)"
proof (cases "split_once c xs")
  case None
  then have "\<forall>x \<in> set xs. x \<noteq> c" by (auto simp: split_once_None_iff)
  then have "split_on (\<lambda>x. x = c) xs = [xs]" by (intro split_on_none) simp
  with None show ?thesis by simp
next
  case (Some ab)
  then obtain a b where "ab = (a, b)" and "xs = a @ c # b" and "c \<notin> set a"
    by (cases ab) (auto simp: split_once_Some_iff)
  with Some show ?thesis by (auto intro!: split_on_append)
qed

lemma split_on_snoc:
  "P c \<Longrightarrow> (\<forall>x \<in> set b. \<not> P x) \<Longrightarrow> split_on P (a @ c # b) = split_on P a @ [b]"
  by (induction a) (auto split: list.splits)

lemma split_on_rsplit_once:
  "split_on (\<lambda>x. x = c) xs =
     (case rsplit_once c xs of None \<Rightarrow> [xs] | Some (a, b) \<Rightarrow> split_on (\<lambda>x. x = c) a @ [b])"
proof (cases "rsplit_once c xs")
  case None
  then have "\<forall>x \<in> set xs. x \<noteq> c" by (auto simp: rsplit_once_None_iff)
  then have "split_on (\<lambda>x. x = c) xs = [xs]" by (intro split_on_none) simp
  with None show ?thesis by simp
next
  case (Some ab)
  then obtain a b where "ab = (a, b)" and "xs = a @ c # b" and "c \<notin> set b"
    by (cases ab) (auto simp: rsplit_once_Some_iff)
  with Some show ?thesis by (auto intro!: split_on_snoc)
qed

lemma split_on_eq_singleton_Nil: "split_on P xs = [[]] \<longleftrightarrow> xs = []"
  by (cases xs) (auto split: list.splits if_splits)

lemma join_split_on: "join_with [c] (split_on (\<lambda>x. x = c) xs) = xs"
proof (induction xs)
  case Nil
  then show ?case by simp
next
  case (Cons x xs)
  obtain y ys where "split_on (\<lambda>x. x = c) xs = y # ys"
    by (metis split_on_not_Nil neq_Nil_conv)
  with Cons show ?case by (cases ys) auto
qed

lemma split_join_with:
  "xs \<noteq> [] \<Longrightarrow> (\<forall>x \<in> set xs. c \<notin> set x) \<Longrightarrow> split_on (\<lambda>x. x = c) (join_with [c] xs) = xs"
proof (induction "[c]" xs rule: join_with.induct)
  case (2 x)
  then show ?case by (auto intro!: split_on_none)
next
  case (3 x y ys)
  then have "split_on (\<lambda>x. x = c) (x @ c # join_with [c] (y # ys)) = x # (y # ys)"
    by (subst split_on_append) auto
  then show ?case by simp
qed simp

text \<open>\<^verbatim>\<open>str::find\<close> and \<^verbatim>\<open>str::split\<close> with a string pattern.\<close>

fun find_str :: "'a list \<Rightarrow> 'a list \<Rightarrow> nat option" where
  "find_str p [] = (if p = [] then Some 0 else None)"
| "find_str p (x # xs) = (if starts_with_str (x # xs) p then Some 0 else map_option Suc (find_str p xs))"

lemma find_str_Some: "find_str p s = Some i \<Longrightarrow> s = take i s @ p @ drop (i + length p) s \<and> i \<le> length s"
proof (induction s arbitrary: i)
  case (Cons x xs)
  show ?case
  proof (cases "starts_with_str (x # xs) p")
    case True
    with Cons.prems show ?thesis
      by (auto simp: starts_with_str_def strip_prefix_Some_iff)
  next
    case False
    with Cons.prems obtain j where j: "find_str p xs = Some j" "i = Suc j" by auto
    from Cons.IH [OF j(1)] j(2) show ?thesis by simp
  qed
qed (simp split: if_splits)

function split_str :: "'a list \<Rightarrow> 'a list \<Rightarrow> 'a list list" where
  "split_str p s =
     (case find_str p s of
        None \<Rightarrow> [s]
      | Some i \<Rightarrow> if p = [] then [s] else take i s # split_str p (drop (i + length p) s))"
  by pat_completeness auto
termination
proof (relation "measure (\<lambda>(p, s). length s)")
  fix p s :: "'a list" and i
  assume "find_str p s = Some i" "p \<noteq> []"
  with find_str_Some [of p s i] have "length s \<ge> i + length p"
    by (metis append_take_drop_id le_add1 length_append length_take min.absorb2 add.assoc)
  with \<open>p \<noteq> []\<close> show "((p, drop (i + length p) s), p, s) \<in> measure (\<lambda>(p, s). length s)"
    by (cases p) auto
qed simp

declare split_str.simps [simp del]

lemma split_str_not_Nil [simp]: "split_str p s \<noteq> []"
  by (subst split_str.simps) (simp split: option.splits)

lemma join_split_str: "join_with p (split_str p s) = s"
proof (induction p s rule: split_str.induct)
  case (1 p s)
  show ?case
  proof (cases "find_str p s")
    case (Some i)
    with find_str_Some [of p s i] 1 show ?thesis
      by (subst split_str.simps)
        (cases "split_str p (drop (i + length p) s)"; auto)
  qed (simp add: split_str.simps [of p s])
qed

text \<open>Options: the closure combinators of \<^verbatim>\<open>core::option\<close>.\<close>

definition is_some_and :: "('a \<Rightarrow> bool) \<Rightarrow> 'a option \<Rightarrow> bool" where
  "is_some_and P x \<longleftrightarrow> (case x of None \<Rightarrow> False | Some y \<Rightarrow> P y)"

definition is_none_or :: "('a \<Rightarrow> bool) \<Rightarrow> 'a option \<Rightarrow> bool" where
  "is_none_or P x \<longleftrightarrow> (case x of None \<Rightarrow> True | Some y \<Rightarrow> P y)"

definition unwrap_or :: "'a \<Rightarrow> 'a option \<Rightarrow> 'a" where
  "unwrap_or d x = (case x of None \<Rightarrow> d | Some y \<Rightarrow> y)"

lemma option_closure_simps [simp]:
  "is_some_and P None = False" "is_some_and P (Some x) = P x"
  "is_none_or P None = True" "is_none_or P (Some x) = P x"
  "unwrap_or d None = d" "unwrap_or d (Some x) = x"
  by (simp_all add: is_some_and_def is_none_or_def unwrap_or_def)

end
