(* ===== verification/Iterators.thy ===== *)
theory Iterators
  imports Prelude
begin

text \<open>
  The contract of \<^verbatim>\<open>DoubleEndedIterator + FusedIterator\<close>, which the path, parameter and
  catch-all iterators of the router implement by hand: an iterator stands for the list of
  items it has left, \<^verbatim>\<open>next\<close> takes from the front, \<^verbatim>\<open>next_back\<close> from the back, and an
  exhausted iterator stays exhausted.
\<close>

datatype iter_end = Front | Back

text \<open>A client reading from both ends, in any order: what it read from each end.\<close>

fun drain :: "('s \<Rightarrow> 'a option \<times> 's) \<Rightarrow> ('s \<Rightarrow> 'a option \<times> 's) \<Rightarrow> iter_end list \<Rightarrow> 's
    \<Rightarrow> 'a list \<times> 'a list \<times> 's" where
  "drain nxt bck [] s = ([], [], s)"
| "drain nxt bck (Front # es) s =
     (let (x, s') = nxt s; (fs, bs, t) = drain nxt bck es s'
      in (case x of None \<Rightarrow> fs | Some y \<Rightarrow> y # fs, bs, t))"
| "drain nxt bck (Back # es) s =
     (let (x, s') = bck s; (fs, bs, t) = drain nxt bck es s'
      in (fs, case x of None \<Rightarrow> bs | Some y \<Rightarrow> y # bs, t))"

locale double_ended =
  fixes inv :: "'s \<Rightarrow> bool"
    and nxt :: "'s \<Rightarrow> 'a option \<times> 's"
    and bck :: "'s \<Rightarrow> 'a option \<times> 's"
    and items :: "'s \<Rightarrow> 'a list"
  assumes inv_nxt: "inv s \<Longrightarrow> inv (snd (nxt s))"
    and inv_bck: "inv s \<Longrightarrow> inv (snd (bck s))"
    and nxt_Nil: "inv s \<Longrightarrow> items s = [] \<Longrightarrow> fst (nxt s) = None \<and> items (snd (nxt s)) = []"
    and nxt_Cons: "inv s \<Longrightarrow> items s = x # xs \<Longrightarrow> fst (nxt s) = Some x \<and> items (snd (nxt s)) = xs"
    and bck_Nil: "inv s \<Longrightarrow> items s = [] \<Longrightarrow> fst (bck s) = None \<and> items (snd (bck s)) = []"
    and bck_snoc: "inv s \<Longrightarrow> items s = xs @ [x] \<Longrightarrow> fst (bck s) = Some x \<and> items (snd (bck s)) = xs"
begin

lemma front_item:
  "inv s \<Longrightarrow> items s = (case fst (nxt s) of None \<Rightarrow> [] | Some x \<Rightarrow> [x]) @ items (snd (nxt s))"
  by (cases "items s") (use nxt_Nil [of s] nxt_Cons [of s] in auto)

lemma back_item:
  "inv s \<Longrightarrow> items s = items (snd (bck s)) @ (case fst (bck s) of None \<Rightarrow> [] | Some x \<Rightarrow> [x])"
  by (cases "items s" rule: rev_cases) (use bck_Nil [of s] bck_snoc [of s] in auto)

lemma fused: "inv s \<Longrightarrow> fst (nxt s) = None \<Longrightarrow> items s = []"
  by (cases "items s") (use nxt_Cons [of s] in auto)

text \<open>Whatever the order of reads, nothing is lost, repeated or reordered.\<close>

lemma drain_items:
  "inv s \<Longrightarrow> drain nxt bck es s = (fs, bs, t) \<Longrightarrow> items s = fs @ items t @ rev bs"
proof (induction es arbitrary: s fs bs t)
  case Nil
  then show ?case by simp
next
  case (Cons e es)
  show ?case
  proof (cases e)
    case Front
    obtain fs' bs' t' where d: "drain nxt bck es (snd (nxt s)) = (fs', bs', t')"
      by (metis prod_cases3)
    from front_item [OF Cons.prems(1)] Cons.IH [OF inv_nxt [OF Cons.prems(1)] d] Cons.prems(2) d Front
    show ?thesis by (cases "nxt s") (auto split: option.splits)
  next
    case Back
    obtain fs' bs' t' where d: "drain nxt bck es (snd (bck s)) = (fs', bs', t')"
      by (metis prod_cases3)
    from back_item [OF Cons.prems(1)] Cons.IH [OF inv_bck [OF Cons.prems(1)] d] Cons.prems(2) d Back
    show ?thesis by (cases "bck s") (auto split: option.splits)
  qed
qed

text \<open>Each read of a non-empty iterator removes an item, so enough reads exhaust it.\<close>

lemma length_nxt: "inv s \<Longrightarrow> length (items (snd (nxt s))) = length (items s) - 1"
  by (cases "items s") (use nxt_Nil [of s] nxt_Cons [of s] in auto)

lemma length_bck: "inv s \<Longrightarrow> length (items (snd (bck s))) = length (items s) - 1"
  by (cases "items s" rule: rev_cases) (use bck_Nil [of s] bck_snoc [of s] in auto)

lemma drain_exhausts:
  "inv s \<Longrightarrow> length (items s) \<le> length es \<Longrightarrow> items (snd (snd (drain nxt bck es s))) = []"
proof (induction es arbitrary: s)
  case Nil
  then show ?case by simp
next
  case (Cons e es)
  then have "items (snd (snd (drain nxt bck es (snd (nxt s))))) = []"
    "items (snd (snd (drain nxt bck es (snd (bck s))))) = []"
    by (intro Cons.IH; simp add: length_nxt length_bck inv_nxt inv_bck)+
  then show ?case
    by (cases e) (simp_all add: split_beta Let_def)
qed

end

end
