(* ===== verification/Route_Path.thy ===== *)
theory Route_Path
  imports Iterators
begin

text \<open>
  Route patterns: \<^verbatim>\<open>crates/topcoat-router/src/path.rs\<close>.  A \<^verbatim>\<open>Path\<close> or \<^verbatim>\<open>PathBuf\<close> is the string
  it wraps (the root is the empty string); its segments are read by the double-ended
  iterator \<^verbatim>\<open>PathSegments\<close>.  The index loops of the validator are kept as index loops, and
  proved equal to a validator that works segment by segment.
\<close>

subsection \<open>Segments and errors\<close>

datatype path_error =
    MissingLeadingSlash | EmptySegment | MissingClosingBrace | MissingClosingParen
  | UnexpectedBracket | EmptyName | InvalidNameStart | InvalidNameChar

fun path_error_message :: "path_error \<Rightarrow> str" where
  "path_error_message MissingLeadingSlash = ''invalid path: must be empty or start with `/`''"
| "path_error_message EmptySegment = ''invalid path: empty segment''"
| "path_error_message MissingClosingBrace = ''invalid path: missing closing `}`''"
| "path_error_message MissingClosingParen = ''invalid path: missing closing `)`''"
| "path_error_message UnexpectedBracket = ''invalid path: unexpected bracket in static segment''"
| "path_error_message EmptyName = ''invalid path: segment name must not be empty''"
| "path_error_message InvalidNameStart =
     ''invalid path: segment name must start with a letter or underscore''"
| "path_error_message InvalidNameChar =
     ''invalid path: segment name contains an invalid character''"

datatype path_segment = Static str | Group str | Param str | CatchAll str

fun is_static :: "path_segment \<Rightarrow> bool" where
  "is_static (Static _) = True" | "is_static _ = False"

fun is_group :: "path_segment \<Rightarrow> bool" where
  "is_group (Group _) = True" | "is_group _ = False"

fun is_param :: "path_segment \<Rightarrow> bool" where
  "is_param (Param _) = True" | "is_param _ = False"

fun is_catch_all :: "path_segment \<Rightarrow> bool" where
  "is_catch_all (CatchAll _) = True" | "is_catch_all _ = False"

fun as_static :: "path_segment \<Rightarrow> str option" where
  "as_static (Static v) = Some v" | "as_static _ = None"

fun as_group :: "path_segment \<Rightarrow> str option" where
  "as_group (Group v) = Some v" | "as_group _ = None"

fun as_param :: "path_segment \<Rightarrow> str option" where
  "as_param (Param v) = Some v" | "as_param _ = None"

fun as_catch_all :: "path_segment \<Rightarrow> str option" where
  "as_catch_all (CatchAll v) = Some v" | "as_catch_all _ = None"

fun param_name :: "path_segment \<Rightarrow> str option" where
  "param_name (Param name) = Some name"
| "param_name (CatchAll name) = Some name"
| "param_name (Static _) = None"
| "param_name (Group _) = None"

fun segment_display :: "path_segment \<Rightarrow> str" where
  "segment_display (Static inner) = inner"
| "segment_display (Param inner) = ''{'' @ inner @ ''}''"
| "segment_display (Group inner) = ''('' @ inner @ '')''"
| "segment_display (CatchAll inner) = ''{'' @ ''*'' @ inner @ ''}''"

definition new_unchecked :: "str \<Rightarrow> path_segment" where
  "new_unchecked s =
     (case strip_prefix ''{'' s of
        Some inner \<Rightarrow>
          (let inner = unwrap_or inner (strip_suffix ''}'' inner)
           in (case strip_prefix ''*'' inner of
                 Some name \<Rightarrow> CatchAll name
               | None \<Rightarrow> Param inner))
      | None \<Rightarrow>
          (case strip_prefix ''('' s of
             Some inner \<Rightarrow> Group (unwrap_or inner (strip_suffix '')'' inner))
           | None \<Rightarrow> Static s))"

subsection \<open>Validation\<close>

function ident_loop :: "str \<Rightarrow> nat \<Rightarrow> nat \<Rightarrow> (unit, path_error) result" where
  "ident_loop bytes i stop =
     (if i < stop then
        (let ch = bytes ! i
         in if \<not> is_ascii_alphanumeric ch \<and> ch \<noteq> CHR ''_'' then Err InvalidNameChar
            else ident_loop bytes (i + 1) stop)
      else Ok ())"
  by pat_completeness auto
termination
  by (relation "measure (\<lambda>(bytes, i, stop). stop - i)") auto

declare ident_loop.simps [simp del]

definition validate_ident :: "str \<Rightarrow> nat \<Rightarrow> nat \<Rightarrow> (unit, path_error) result" where
  "validate_ident bytes start stop =
     (if start \<ge> stop then Err EmptyName
      else (let first = bytes ! start
            in if \<not> is_ascii_alphabetic first \<and> first \<noteq> CHR ''_'' then Err InvalidNameStart
               else ident_loop bytes (start + 1) stop))"

function static_loop :: "str \<Rightarrow> nat \<Rightarrow> nat \<Rightarrow> (unit, path_error) result" where
  "static_loop bytes i stop =
     (if i < stop then
        (if bytes ! i \<in> {CHR ''{'', CHR ''}'', CHR ''('', CHR '')''} then Err UnexpectedBracket
         else static_loop bytes (i + 1) stop)
      else Ok ())"
  by pat_completeness auto
termination
  by (relation "measure (\<lambda>(bytes, i, stop). stop - i)") auto

declare static_loop.simps [simp del]

definition validate_segment :: "str \<Rightarrow> nat \<Rightarrow> nat \<Rightarrow> (unit, path_error) result" where
  "validate_segment bytes start stop =
     (if start \<ge> stop then Err EmptySegment
      else if bytes ! start = CHR ''{'' then
        (if bytes ! (stop - 1) \<noteq> CHR ''}'' then Err MissingClosingBrace
         else (let name_start = start + 1; name_end = stop - 1;
                   name_start = (if name_start < name_end \<and> bytes ! name_start = CHR ''*''
                                 then name_start + 1 else name_start)
               in validate_ident bytes name_start name_end))
      else if bytes ! start = CHR ''('' then
        (if bytes ! (stop - 1) \<noteq> CHR '')'' then Err MissingClosingParen
         else validate_ident bytes (start + 1) (stop - 1))
      else static_loop bytes start stop)"

definition segment_from_str :: "str \<Rightarrow> (path_segment, path_error) result" where
  "segment_from_str s = and_then (validate_segment s 0 (length s)) (\<lambda>_. Ok (new_unchecked s))"

type_synonym route_path = str

function from_str_loop :: "str \<Rightarrow> nat \<Rightarrow> nat \<Rightarrow> (unit, path_error) result" where
  "from_str_loop bytes start i =
     (let len = length bytes
      in if i \<le> len then
           (if i = len \<or> bytes ! i = CHR ''/'' then
              (let trailing_slash = (i = len \<and> start = len \<and> start > 1)
               in if \<not> trailing_slash
                  then and_then (validate_segment bytes start i)
                         (\<lambda>_. from_str_loop bytes (i + 1) (i + 1))
                  else from_str_loop bytes (i + 1) (i + 1))
            else from_str_loop bytes start (i + 1))
         else Ok ())"
  by pat_completeness auto
termination
  by (relation "measure (\<lambda>(bytes, start, i). Suc (length bytes) - i)") auto

declare from_str_loop.simps [simp del]

definition path_from_str :: "str \<Rightarrow> (route_path, path_error) result" where
  "path_from_str s =
     (let s = (if s = ''/'' then '''' else s)
      in if s = [] then Ok s
         else if s ! 0 \<noteq> CHR ''/'' then Err MissingLeadingSlash
         else and_then (from_str_loop s 1 1) (\<lambda>_. Ok s))"

subsection \<open>The segment iterator\<close>

record path_segments =
  ps_rest :: str
  ps_done :: bool

definition path_segments_new :: "route_path \<Rightarrow> path_segments" where
  "path_segments_new p =
     (case strip_prefix ''/'' p of
        Some rest \<Rightarrow> \<lparr>ps_rest = rest, ps_done = False\<rparr>
      | None \<Rightarrow> \<lparr>ps_rest = '''', ps_done = True\<rparr>)"

definition last_segment :: "path_segments \<Rightarrow> str \<times> path_segments" where
  "last_segment it = (ps_rest it, it\<lparr>ps_rest := '''', ps_done := True\<rparr>)"

definition segs_next :: "path_segments \<Rightarrow> path_segment option \<times> path_segments" where
  "segs_next it =
     (if ps_done it then (None, it)
      else (let (segment, it') =
              (case split_once CHR ''/'' (ps_rest it) of
                 Some (segment, rest) \<Rightarrow> (segment, it\<lparr>ps_rest := rest\<rparr>)
               | None \<Rightarrow> last_segment it)
            in (Some (new_unchecked segment), it')))"

definition segs_next_back :: "path_segments \<Rightarrow> path_segment option \<times> path_segments" where
  "segs_next_back it =
     (if ps_done it then (None, it)
      else (let (segment, it') =
              (case rsplit_once CHR ''/'' (ps_rest it) of
                 Some (rest, segment) \<Rightarrow> (segment, it\<lparr>ps_rest := rest\<rparr>)
               | None \<Rightarrow> last_segment it)
            in (Some (new_unchecked segment), it')))"

text \<open>What is left to yield, front to back: \<^verbatim>\<open>Iterator::collect\<close>.\<close>

definition segs_measure :: "path_segments \<Rightarrow> nat" where
  "segs_measure it = (if ps_done it then 0 else Suc (length (ps_rest it)))"

lemma segs_next_measure: "segs_next it = (Some s, it') \<Longrightarrow> segs_measure it' < segs_measure it"
  by (auto simp: segs_next_def segs_measure_def last_segment_def split_once_Some_iff
           split: if_splits option.splits prod.splits)

function segs_collect :: "path_segments \<Rightarrow> path_segment list" where
  "segs_collect it =
     (case segs_next it of (None, _) \<Rightarrow> [] | (Some s, it') \<Rightarrow> s # segs_collect it')"
  by pat_completeness auto
termination
  by (relation "measure segs_measure") (auto dest: segs_next_measure [OF sym])

declare segs_collect.simps [simp del]

definition segments :: "route_path \<Rightarrow> path_segment list" where
  "segments p = segs_collect (path_segments_new p)"

subsection \<open>Building paths\<close>

definition has_trailing_slash :: "route_path \<Rightarrow> bool" where
  "has_trailing_slash p = ends_with_str p ''/''"

definition pop_trailing_slash :: "route_path \<Rightarrow> route_path" where
  "pop_trailing_slash p = (if ends_with_str p ''/'' then butlast p else p)"

definition push_segment :: "route_path \<Rightarrow> path_segment \<Rightarrow> route_path" where
  "push_segment p seg = pop_trailing_slash p @ ''/'' @ segment_display seg"

definition push_path :: "route_path \<Rightarrow> route_path \<Rightarrow> route_path" where
  "push_path p rhs = (if rhs = [] then p else pop_trailing_slash p @ rhs)"

definition collect_path :: "path_segment list \<Rightarrow> route_path" where
  "collect_path ss = foldl push_segment [] ss"

definition path_join :: "route_path \<Rightarrow> route_path \<Rightarrow> route_path" where
  "path_join p other = push_path p other"

definition to_matchit_path :: "route_path \<Rightarrow> str" where
  "to_matchit_path p =
     (if p = [] then ''/''
      else (let stripped = collect_path (filter (\<lambda>s. \<not> is_group s) (segments p))
            in if stripped = [] then ''/'' else stripped))"

definition path_starts_with :: "route_path \<Rightarrow> route_path \<Rightarrow> bool" where
  "path_starts_with p other =
     (if length p < length other then False
      else list_all (\<lambda>(a, b). a = b) (zip (segments p) (segments other)))"

subsection \<open>Matching a URL\<close>

definition first_segment :: "str \<Rightarrow> str \<times> str option" where
  "first_segment rest =
     (case split_once CHR ''/'' rest of
        Some (head, tail) \<Rightarrow> (head, Some tail)
      | None \<Rightarrow> (rest, None))"

fun matches_loop :: "path_segment list \<Rightarrow> str option \<Rightarrow> bool" where
  "matches_loop [] rest \<longleftrightarrow> rest = None"
| "matches_loop (Group _ # segs) rest \<longleftrightarrow> matches_loop segs rest"
| "matches_loop (Static expected # segs) rest \<longleftrightarrow>
     (if expected = [] then rest = Some []
      else (case map_option first_segment rest of
              Some (head, tail) \<Rightarrow> if head = expected then matches_loop segs tail else False
            | None \<Rightarrow> False))"
| "matches_loop (Param _ # segs) rest \<longleftrightarrow>
     (case map_option first_segment rest of
        Some (head, tail) \<Rightarrow> if head \<noteq> [] then matches_loop segs tail else False
      | None \<Rightarrow> False)"
| "matches_loop (CatchAll _ # segs) rest \<longleftrightarrow> is_some_and (\<lambda>rest. rest \<noteq> []) rest"

definition path_matches :: "route_path \<Rightarrow> str \<Rightarrow> bool" where
  "path_matches p url =
     (let body = unwrap_or url (strip_prefix ''/'' url);
          rest = (if body \<noteq> [] then Some body else None)
      in matches_loop (segments p) rest)"


subsection \<open>The validator, segment by segment\<close>

definition slice :: "'a list \<Rightarrow> nat \<Rightarrow> nat \<Rightarrow> 'a list" where
  "slice bs s e = take (e - s) (drop s bs)"

lemma slice_empty [simp]: "e \<le> s \<Longrightarrow> slice bs s e = []"
  by (simp add: slice_def)

lemma slice_step: "s < e \<Longrightarrow> e \<le> length bs \<Longrightarrow> slice bs s e = bs ! s # slice bs (Suc s) e"
  by (simp add: slice_def Cons_nth_drop_Suc [symmetric] take_Cons')

lemma length_slice: "e \<le> length bs \<Longrightarrow> length (slice bs s e) = e - s"
  by (simp add: slice_def)

lemma slice_snoc:
  assumes "s < e" "e \<le> length bs"
  shows "slice bs s e = slice bs s (e - 1) @ [bs ! (e - 1)]"
proof -
  define k where "k = e - 1 - s"
  have e: "e - s = Suc k" "e - 1 - s = k" "s + k = e - 1" using assms by (auto simp: k_def)
  have "k < length (drop s bs)" using assms by (simp add: k_def)
  then have "take (Suc k) (drop s bs) = take k (drop s bs) @ [drop s bs ! k]"
    by (rule take_Suc_conv_app_nth)
  moreover have "drop s bs ! k = bs ! (e - 1)" using assms e(3) by simp
  ultimately show ?thesis by (simp only: slice_def e)
qed

lemma slice_all [simp]: "slice bs 0 (length bs) = bs"
  by (simp add: slice_def)

lemma slice_to_end: "slice bs s (length bs) = drop s bs"
  by (simp add: slice_def)

lemma ident_loop_slice:
  "stop \<le> length bs \<Longrightarrow>
   ident_loop bs i stop =
     (if \<exists>c \<in> set (slice bs i stop). \<not> is_ascii_alphanumeric c \<and> c \<noteq> CHR ''_''
      then Err InvalidNameChar else Ok ())"
proof (induction bs i stop rule: ident_loop.induct)
  case (1 bs i stop)
  then show ?case
    by (cases "i < stop") (auto simp: ident_loop.simps [of bs i stop] slice_step Let_def)
qed

lemma static_loop_slice:
  "stop \<le> length bs \<Longrightarrow>
   static_loop bs i stop =
     (if \<exists>c \<in> set (slice bs i stop). c \<in> {CHR ''{'', CHR ''}'', CHR ''('', CHR '')''}
      then Err UnexpectedBracket else Ok ())"
proof (induction bs i stop rule: static_loop.induct)
  case (1 bs i stop)
  then show ?case
    by (cases "i < stop") (auto simp: static_loop.simps [of bs i stop] slice_step)
qed

definition ident_spec :: "str \<Rightarrow> (unit, path_error) result" where
  "ident_spec n =
     (case n of [] \<Rightarrow> Err EmptyName
      | c # cs \<Rightarrow>
          if \<not> is_ascii_alphabetic c \<and> c \<noteq> CHR ''_'' then Err InvalidNameStart
          else if \<exists>c \<in> set cs. \<not> is_ascii_alphanumeric c \<and> c \<noteq> CHR ''_'' then Err InvalidNameChar
          else Ok ())"

definition drop_star :: "str \<Rightarrow> str" where
  "drop_star n = (case n of [] \<Rightarrow> [] | c # cs \<Rightarrow> if c = CHR ''*'' then cs else n)"

definition segment_spec :: "str \<Rightarrow> (unit, path_error) result" where
  "segment_spec s =
     (case s of [] \<Rightarrow> Err EmptySegment
      | c # cs \<Rightarrow>
          if c = CHR ''{'' then
            (if last s \<noteq> CHR ''}'' then Err MissingClosingBrace
             else ident_spec (drop_star (butlast cs)))
          else if c = CHR ''('' then
            (if last s \<noteq> CHR '')'' then Err MissingClosingParen else ident_spec (butlast cs))
          else if \<exists>c \<in> set s. c \<in> {CHR ''{'', CHR ''}'', CHR ''('', CHR '')''}
          then Err UnexpectedBracket else Ok ())"

lemma validate_ident_slice:
  assumes "stop \<le> length bs"
  shows "validate_ident bs start stop = ident_spec (slice bs start stop)"
proof (cases "start < stop")
  case True
  with assms show ?thesis
    by (simp add: validate_ident_def ident_spec_def ident_loop_slice slice_step Let_def)
qed (simp add: validate_ident_def ident_spec_def)


lemma validate_segment_slice:
  assumes "stop \<le> length bs"
  shows "validate_segment bs start stop = segment_spec (slice bs start stop)"
proof (cases "start < stop")
  case True
  let ?s = "slice bs start stop"
  have s: "?s = bs ! start # slice bs (Suc start) stop"
    using True assms by (rule slice_step)
  have last: "last ?s = bs ! (stop - 1)"
    using slice_snoc [OF True assms] by simp
  show ?thesis
  proof (cases "Suc start < stop")
    case lt: True
    have bl: "butlast (slice bs (Suc start) stop) = slice bs (Suc start) (stop - 1)"
      using slice_snoc [OF lt assms] by simp
    have star: "drop_star (slice bs (Suc start) (stop - 1)) =
        (let k = (if Suc start < stop - 1 \<and> bs ! Suc start = CHR ''*'' then Suc (Suc start) else Suc start)
         in slice bs k (stop - 1))"
      using assms lt
      by (cases "Suc start < stop - 1") (auto simp: slice_step drop_star_def)
    show ?thesis
      using True assms lt last bl star
      by (auto simp: validate_segment_def segment_spec_def s validate_ident_slice
          static_loop_slice Let_def)
  next
    case False
    with True have "stop = Suc start" by simp
    with assms s last show ?thesis
      by (auto simp: validate_segment_def segment_spec_def static_loop_slice
          validate_ident_slice)
  qed
qed (simp add: validate_segment_def segment_spec_def)

fun check_segments :: "bool \<Rightarrow> str list \<Rightarrow> (unit, path_error) result" where
  "check_segments inner [] = Ok ()"
| "check_segments inner [s] = (if s = [] \<and> inner then Ok () else segment_spec s)"
| "check_segments inner (s # t # ts) =
     and_then (segment_spec s) (\<lambda>_. check_segments True (t # ts))"

lemma check_segments_Cons:
  "ts \<noteq> [] \<Longrightarrow> check_segments inner (s # ts) =
     and_then (segment_spec s) (\<lambda>_. check_segments True ts)"
  by (cases ts) auto

abbreviation slashes :: "str \<Rightarrow> str list" where
  "slashes \<equiv> split_on (\<lambda>c. c = CHR ''/'')"

lemma from_str_loop_spec:
  assumes "1 \<le> start" "start \<le> i" "i \<le> length bs" "CHR ''/'' \<notin> set (slice bs start i)"
  shows "from_str_loop bs start i = check_segments (start > 1) (slashes (drop start bs))"
  using assms
proof (induction bs start i rule: from_str_loop.induct)
  case (1 bs start i)
  let ?n = "length bs"
  consider (fin) "i = ?n" | (slash) "i < ?n" "bs ! i = CHR ''/''" | (other) "i < ?n" "bs ! i \<noteq> CHR ''/''"
    using "1.prems"(3) by linarith
  then show ?case
  proof cases
    case fin
    have dr: "slashes (drop start bs) = [drop start bs]"
      using "1.prems"(4) fin by (intro split_on_none) (auto simp: slice_to_end)
    have stop: "from_str_loop bs (Suc ?n) (Suc ?n) = Ok ()"
      by (subst from_str_loop.simps) (simp add: Let_def)
    have seg: "validate_segment bs start ?n = segment_spec (drop start bs)"
      by (simp add: validate_segment_slice slice_to_end)
    show ?thesis
      using "1.prems" fin dr
      by (subst from_str_loop.simps) (auto simp: Let_def stop seg and_then.simps
          intro: sum.exhaust [of "segment_spec (drop start bs)"] split: if_splits)
  next
    case slash
    have seg: "validate_segment bs start i = segment_spec (slice bs start i)"
      using slash by (simp add: validate_segment_slice)
    have IH: "from_str_loop bs (Suc i) (Suc i) = check_segments True (slashes (drop (Suc i) bs))"
      using "1.IH"(2) "1.IH"(1) "1.prems" slash by (auto simp: Let_def)
    have "drop start bs = slice bs start i @ CHR ''/'' # drop (Suc i) bs"
      using slash "1.prems" by (metis Cons_nth_drop_Suc append_take_drop_id drop_drop
          le_add_diff_inverse2 slice_def)
    then have dr: "slashes (drop start bs) = slice bs start i # slashes (drop (Suc i) bs)"
      using "1.prems"(4) by (auto intro!: split_on_append)
    show ?thesis
      using slash "1.prems" IH
      by (subst from_str_loop.simps) (simp add: Let_def seg dr check_segments_Cons)
  next
    case other
    have "CHR ''/'' \<notin> set (slice bs start (Suc i))"
      using other "1.prems" slice_snoc [of start "Suc i" bs] by simp
    then have "from_str_loop bs start (Suc i) = check_segments (start > 1) (slashes (drop start bs))"
      using "1.IH"(3) "1.prems" other by (auto simp: Let_def)
    with other show ?thesis
      by (subst from_str_loop.simps) (simp add: Let_def)
  qed
qed

text \<open>The validator against its specification: the root, or slash-prefixed segments checked in order.\<close>

definition path_spec :: "str \<Rightarrow> (route_path, path_error) result" where
  "path_spec s =
     (case s of [] \<Rightarrow> Ok []
      | c # r \<Rightarrow>
          if s = ''/'' then Ok []
          else if c \<noteq> CHR ''/'' then Err MissingLeadingSlash
          else and_then (check_segments False (slashes r)) (\<lambda>_. Ok s))"

lemma path_from_str_eq_spec: "path_from_str s = path_spec s"
proof (cases s)
  case Nil
  then show ?thesis by (simp add: path_from_str_def path_spec_def)
next
  case (Cons c r)
  have "from_str_loop s 1 1 = check_segments False (slashes (drop 1 s))" if "s \<noteq> ''/''"
    using from_str_loop_spec [of 1 1 s] Cons by simp
  with Cons show ?thesis
    by (auto simp: path_from_str_def path_spec_def Let_def)
qed

subsection \<open>The iterator yields the slash-separated segments\<close>

lemma segs_collect_eq:
  "segs_collect it = (if ps_done it then [] else map new_unchecked (slashes (ps_rest it)))"
proof (induction it rule: measure_induct_rule [of segs_measure])
  case (less it)
  show ?case
  proof (cases "ps_done it")
    case True
    then show ?thesis by (simp add: segs_collect.simps [of it] segs_next_def)
  next
    case False
    show ?thesis
    proof (cases "split_once CHR ''/'' (ps_rest it)")
      case None
      with False show ?thesis
        by (simp add: segs_collect.simps [of it] segs_next_def last_segment_def
            segs_collect.simps [of "it\<lparr>ps_rest := [], ps_done := True\<rparr>"]
            split_on_split_once [of _ "ps_rest it"])
    next
      case (Some hr)
      obtain h r where hr: "hr = (h, r)" by (cases hr)
      have "segs_collect (it\<lparr>ps_rest := r\<rparr>) = map new_unchecked (slashes r)"
        using less [of "it\<lparr>ps_rest := r\<rparr>"] False Some hr
        by (simp add: segs_measure_def split_once_Some_iff)
      with False Some hr show ?thesis
        by (simp add: segs_collect.simps [of it] segs_next_def
            split_on_split_once [of _ "ps_rest it"])
    qed
  qed
qed

lemma segments_eq:
  "segments p = (case p of [] \<Rightarrow> []
     | c # r \<Rightarrow> if c = CHR ''/'' then map new_unchecked (slashes r) else [])"
  by (auto simp: segments_def path_segments_new_def segs_collect_eq split: list.splits)

lemma segments_Nil [simp]: "segments [] = []"
  by (simp add: segments_eq)

lemma segments_Cons [simp]: "segments (CHR ''/'' # r) = map new_unchecked (slashes r)"
  by (simp add: segments_eq)

lemma segs_next_Nil: "segs_collect it = [] \<Longrightarrow> segs_next it = (None, it)"
  by (auto simp: segs_collect_eq segs_next_def split: if_splits)

lemma segs_next_Cons:
  "segs_collect it = x # xs \<Longrightarrow> fst (segs_next it) = Some x \<and> segs_collect (snd (segs_next it)) = xs"
  by (subst (asm) segs_collect.simps) (auto split: prod.splits option.splits)

lemma segs_next_back_Nil: "segs_collect it = [] \<Longrightarrow> segs_next_back it = (None, it)"
  by (auto simp: segs_collect_eq segs_next_back_def split: if_splits)

lemma segs_next_back_snoc:
  assumes "segs_collect it = xs @ [x]"
  shows "fst (segs_next_back it) = Some x \<and> segs_collect (snd (segs_next_back it)) = xs"
proof (cases "ps_done it")
  case True
  with assms show ?thesis by (simp add: segs_collect_eq)
next
  case False
  with assms show ?thesis
    by (cases "rsplit_once CHR ''/'' (ps_rest it)")
      (auto simp: segs_collect_eq segs_next_back_def last_segment_def
        split_on_rsplit_once [of _ "ps_rest it"])
qed

interpretation path_iter: double_ended "\<lambda>_. True" segs_next segs_next_back segs_collect
  by unfold_locales (simp_all add: segs_next_Nil segs_next_Cons segs_next_back_Nil segs_next_back_snoc)

subsection \<open>Well-formed segment lists\<close>

definition valid_ident :: "str \<Rightarrow> bool" where
  "valid_ident n \<longleftrightarrow> ident_spec n = Ok ()"

fun valid_segment :: "path_segment \<Rightarrow> bool" where
  "valid_segment (Static s) \<longleftrightarrow>
     s \<noteq> [] \<and> (\<forall>c \<in> set s. c \<notin> {CHR ''/'', CHR ''{'', CHR ''}'', CHR ''('', CHR '')''})"
| "valid_segment (Group n) \<longleftrightarrow> valid_ident n"
| "valid_segment (Param n) \<longleftrightarrow> valid_ident n"
| "valid_segment (CatchAll n) \<longleftrightarrow> valid_ident n"

fun wf_tail :: "bool \<Rightarrow> path_segment list \<Rightarrow> bool" where
  "wf_tail inner [] = True"
| "wf_tail inner [s] \<longleftrightarrow> valid_segment s \<or> inner \<and> s = Static []"
| "wf_tail inner (s # t # ts) \<longleftrightarrow> valid_segment s \<and> wf_tail True (t # ts)"

definition wf_segments :: "path_segment list \<Rightarrow> bool" where
  "wf_segments ss \<longleftrightarrow> wf_tail False ss"

definition render :: "path_segment list \<Rightarrow> route_path" where
  "render ss = concat (map (\<lambda>s. CHR ''/'' # segment_display s) ss)"

definition valid_path :: "route_path \<Rightarrow> bool" where
  "valid_path p \<longleftrightarrow> path_from_str p = Ok p"

lemma valid_ident_chars:
  assumes "valid_ident n"
  shows "n \<noteq> [] \<and> (\<forall>c \<in> set n. is_ascii_alphanumeric c \<or> c = CHR ''_'')"
  using assms
  by (auto simp: valid_ident_def ident_spec_def is_ascii_alphanumeric_def split: list.splits if_splits)

lemma not_alnum: "c \<in> {CHR ''/'', CHR ''{'', CHR ''}'', CHR ''('', CHR '')'', CHR ''*''} \<Longrightarrow>
    \<not> (is_ascii_alphanumeric c \<or> c = CHR ''_'')"
  by (auto simp: is_ascii_alphanumeric_def is_ascii_alphabetic_def is_ascii_digit_def)

lemma valid_ident_no: "valid_ident n \<Longrightarrow> c \<in> {CHR ''/'', CHR ''{'', CHR ''}'', CHR ''('', CHR '')'', CHR ''*''}
    \<Longrightarrow> c \<notin> set n"
  using valid_ident_chars not_alnum by blast


lemma ident_spec_Ok: "ident_spec n = Ok u \<longleftrightarrow> valid_ident n"
  by (simp add: valid_ident_def)

lemma new_unchecked_brace:
  "new_unchecked (CHR ''{'' # n @ [CHR ''}'']) =
     (case n of [] \<Rightarrow> Param [] | c # cs \<Rightarrow> if c = CHR ''*'' then CatchAll cs else Param n)"
  by (auto simp: new_unchecked_def strip_suffix_append [of "''}''", simplified] split: list.splits)

lemma new_unchecked_paren: "new_unchecked (CHR ''('' # n @ [CHR '')'']) = Group n"
  by (simp add: new_unchecked_def strip_suffix_append [of "'')''", simplified])

lemma new_unchecked_static:
  "(\<forall>c \<in> set s. c \<notin> {CHR ''{'', CHR ''(''}) \<Longrightarrow> new_unchecked s = Static s"
  by (cases s) (auto simp: new_unchecked_def)

lemma segment_spec_brace:
  "segment_spec (CHR ''{'' # n @ [CHR ''}'']) = ident_spec (drop_star n)"
  by (simp add: segment_spec_def)

lemma segment_spec_paren: "segment_spec (CHR ''('' # n @ [CHR '')'']) = ident_spec n"
  by (simp add: segment_spec_def)

lemma segment_spec_static:
  "s \<noteq> [] \<Longrightarrow> (\<forall>c \<in> set s. c \<notin> {CHR ''{'', CHR ''}'', CHR ''('', CHR '')''}) \<Longrightarrow> segment_spec s = Ok ()"
  by (cases s) (auto simp: segment_spec_def)

lemma valid_ident_drop_star: "valid_ident n \<Longrightarrow> drop_star n = n"
  using valid_ident_no [of n "CHR ''*''"] by (cases n) (auto simp: drop_star_def)

text \<open>A segment text the validator accepts is one of the four shapes.\<close>

lemma segment_spec_cases:
  assumes "segment_spec s = Ok u"
  obtains (stat) "s \<noteq> []" "\<forall>c \<in> set s. c \<notin> {CHR ''{'', CHR ''}'', CHR ''('', CHR '')''}"
    | (grp) n where "s = CHR ''('' # n @ [CHR '')'']" "valid_ident n"
    | (prm) n where "s = CHR ''{'' # n @ [CHR ''}'']" "valid_ident n"
    | (cat) n where "s = CHR ''{'' # (CHR ''*'' # n) @ [CHR ''}'']" "valid_ident n"
proof (cases s)
  case Nil
  with assms show ?thesis by (simp add: segment_spec_def)
next
  case (Cons c cs)
  consider (brace) "c = CHR ''{''" | (paren) "c = CHR ''(''" | (plain) "c \<notin> {CHR ''{'', CHR ''(''}" by blast
  then show ?thesis
  proof cases
    case brace
    with assms Cons have l: "cs \<noteq> []" "last cs = CHR ''}''" and i: "valid_ident (drop_star (butlast cs))"
      by (auto simp: segment_spec_def ident_spec_Ok split: if_splits)
    then have cs: "cs = butlast cs @ [CHR ''}'']" by (metis append_butlast_last_id)
    show ?thesis
    proof (cases "\<exists>n. butlast cs = CHR ''*'' # n")
      case True
      then obtain n where "butlast cs = CHR ''*'' # n" by blast
      with i cs Cons brace show ?thesis by (intro cat [of n]) (auto simp: drop_star_def)
    next
      case False
      then have "drop_star (butlast cs) = butlast cs" by (cases "butlast cs") (auto simp: drop_star_def)
      with i cs Cons brace show ?thesis by (intro prm [of "butlast cs"]) auto
    qed
  next
    case paren
    with assms Cons have l: "cs \<noteq> []" "last cs = CHR '')''" and i: "valid_ident (butlast cs)"
      by (auto simp: segment_spec_def ident_spec_Ok split: if_splits)
    then have "cs = butlast cs @ [CHR '')'']" by (metis append_butlast_last_id)
    with i Cons paren show ?thesis by (intro grp [of "butlast cs"]) auto
  next
    case plain
    with assms Cons show ?thesis
      by (intro stat) (auto simp: segment_spec_def split: if_splits)
  qed
qed

lemma segment_read_valid:
  assumes "segment_spec s = Ok u" "CHR ''/'' \<notin> set s"
  shows "valid_segment (new_unchecked s)" "segment_display (new_unchecked s) = s"
proof -
  have "valid_segment (new_unchecked s) \<and> segment_display (new_unchecked s) = s"
    using assms(1)
  proof (cases rule: segment_spec_cases)
    case stat
    with assms(2) show ?thesis by (auto simp: new_unchecked_static)
  next
    case (grp n)
    then show ?thesis by (simp add: new_unchecked_paren)
  next
    case (prm n)
    with valid_ident_no [of n "CHR ''*''"] show ?thesis
      by (auto simp: new_unchecked_brace split: list.splits)
  next
    case (cat n)
    then show ?thesis by (simp only: new_unchecked_brace) simp
  qed
  then show "valid_segment (new_unchecked s)" "segment_display (new_unchecked s) = s" by auto
qed

lemma valid_segment_display:
  assumes "valid_segment g"
  shows "segment_spec (segment_display g) = Ok ()" "new_unchecked (segment_display g) = g"
    "CHR ''/'' \<notin> set (segment_display g)" "segment_display g \<noteq> []"
proof -
  have "segment_spec (segment_display g) = Ok () \<and> new_unchecked (segment_display g) = g \<and>
      CHR ''/'' \<notin> set (segment_display g) \<and> segment_display g \<noteq> []"
  proof (cases g)
    case (Static s)
    with assms show ?thesis by (auto simp: new_unchecked_static segment_spec_static)
  next
    case (Group n)
    with assms valid_ident_no [of n "CHR ''/''"] show ?thesis
      by (simp add: new_unchecked_paren segment_spec_paren valid_ident_def)
  next
    case (Param n)
    with assms valid_ident_no [of n "CHR ''/''"] valid_ident_no [of n "CHR ''*''"] show ?thesis
      by (auto simp: new_unchecked_brace segment_spec_brace valid_ident_drop_star valid_ident_def [symmetric]
          ident_spec_Ok split: list.splits)
  next
    case (CatchAll n)
    with assms valid_ident_no [of n "CHR ''/''"] new_unchecked_brace [of "CHR ''*'' # n"]
      segment_spec_brace [of "CHR ''*'' # n"]
    show ?thesis by (auto simp: drop_star_def ident_spec_Ok)
  qed
  then show "segment_spec (segment_display g) = Ok ()" "new_unchecked (segment_display g) = g"
    "CHR ''/'' \<notin> set (segment_display g)" "segment_display g \<noteq> []" by auto
qed


subsection \<open>Valid paths are exactly the rendered well-formed segment lists\<close>

lemma new_unchecked_Nil [simp]: "new_unchecked [] = Static []"
  by (simp add: new_unchecked_def)

lemma render_simps [simp]:
  "render [] = []" "render (s # ss) = CHR ''/'' # segment_display s @ render ss"
  "render (xs @ ys) = render xs @ render ys"
  by (simp_all add: render_def)

lemma render_join:
  "ss \<noteq> [] \<Longrightarrow> render ss = CHR ''/'' # join_with ''/'' (map segment_display ss)"
proof (induction ss rule: induct_list012)
  case (3 x y zs)
  then show ?case by simp
qed simp_all

lemma check_segments_read:
  "check_segments inner xs = Ok u \<Longrightarrow> (\<forall>x \<in> set xs. CHR ''/'' \<notin> set x) \<Longrightarrow>
   wf_tail inner (map new_unchecked xs) \<and> map segment_display (map new_unchecked xs) = xs"
proof (induction inner xs rule: check_segments.induct)
  case (2 inner s)
  then show ?case
    using segment_read_valid [of s u] by (auto split: if_splits)
next
  case (3 inner s t ts)
  then show ?case
    using segment_read_valid [of s "()"] by (auto simp: and_then_Ok_iff)
qed simp

lemma wf_tail_read:
  "wf_tail inner ss \<Longrightarrow>
   check_segments inner (map segment_display ss) = Ok () \<and>
   map new_unchecked (map segment_display ss) = ss \<and>
   (\<forall>x \<in> set (map segment_display ss). CHR ''/'' \<notin> set x)"
proof (induction inner ss rule: wf_tail.induct)
  case (2 inner s)
  then show ?case
    using valid_segment_display [of s] by (cases "segment_display s = []") auto
next
  case (3 inner s t ts)
  then show ?case
    using valid_segment_display [of s] by auto
qed simp

lemma slashes_no_slash: "x \<in> set (slashes r) \<Longrightarrow> CHR ''/'' \<notin> set x"
  using split_on_pieces [of x _ r "CHR ''/''"] by blast

lemma path_from_str_cases:
  assumes "path_from_str s = Ok p"
  obtains (root) "s = [] \<or> s = ''/''" "p = []"
    | (segs) r where "s = CHR ''/'' # r" "p = s" "r \<noteq> []" "check_segments False (slashes r) = Ok ()"
proof (cases s)
  case Nil
  with assms show ?thesis by (intro root) (auto simp: path_from_str_eq_spec path_spec_def)
next
  case (Cons c r)
  show ?thesis
  proof (cases "s = ''/''")
    case True
    with assms show ?thesis by (intro root) (auto simp: path_from_str_eq_spec path_spec_def)
  next
    case False
    with assms Cons show ?thesis
      by (intro segs [of r])
        (auto simp: path_from_str_eq_spec path_spec_def and_then_Ok_iff split: if_splits)
  qed
qed

lemma path_from_str_reads:
  assumes "path_from_str s = Ok p"
  shows "wf_segments (segments p)" "render (segments p) = p" "s = p \<or> s = ''/'' \<and> p = []"
proof -
  have "wf_segments (segments p) \<and> render (segments p) = p \<and> (s = p \<or> s = ''/'' \<and> p = [])"
    using assms
  proof (cases rule: path_from_str_cases)
    case root
    then show ?thesis by (auto simp: wf_segments_def)
  next
    case (segs r)
    then have "wf_tail False (map new_unchecked (slashes r))"
      and "map segment_display (map new_unchecked (slashes r)) = slashes r"
      using check_segments_read slashes_no_slash by blast+
    with segs show ?thesis by (simp add: wf_segments_def render_join join_split_on)
  qed
  then show "wf_segments (segments p)" "render (segments p) = p" "s = p \<or> s = ''/'' \<and> p = []" by auto
qed

lemma wf_segments_renders:
  assumes "wf_segments ss"
  shows "valid_path (render ss)" "segments (render ss) = ss"
proof -
  have "valid_path (render ss) \<and> segments (render ss) = ss"
  proof (cases "ss = []")
    case True
    then show ?thesis by (simp add: valid_path_def path_from_str_eq_spec path_spec_def)
  next
    case False
    let ?d = "map segment_display ss"
    have wf: "check_segments False ?d = Ok ()" "map new_unchecked ?d = ss"
      "\<forall>x \<in> set ?d. CHR ''/'' \<notin> set x"
      using wf_tail_read assms by (auto simp: wf_segments_def)
    have r: "render ss = CHR ''/'' # join_with ''/'' ?d"
      using False by (rule render_join)
    have sl: "slashes (join_with ''/'' ?d) = ?d"
      using False wf(3) by (intro split_join_with) auto
    have "join_with ''/'' ?d \<noteq> []"
      using wf(1) sl by (cases "join_with ''/'' ?d") (auto simp: segment_spec_def dest: sym)
    with r sl wf show ?thesis
      by (simp add: valid_path_def path_from_str_eq_spec path_spec_def)
  qed
  then show "valid_path (render ss)" "segments (render ss) = ss" by auto
qed

lemma valid_path_reads:
  assumes "valid_path p"
  shows "wf_segments (segments p)" "render (segments p) = p"
  using path_from_str_reads [of p p] assms by (auto simp: valid_path_def)

lemma path_from_str_valid: "path_from_str s = Ok p \<Longrightarrow> valid_path p"
  using path_from_str_reads wf_segments_renders by metis

lemma valid_path_segments_inject:
  "valid_path p \<Longrightarrow> valid_path q \<Longrightarrow> segments p = segments q \<longleftrightarrow> p = q"
  using valid_path_reads by metis


subsection \<open>Building paths out of segment lists\<close>

definition drop_trailing :: "path_segment list \<Rightarrow> path_segment list" where
  "drop_trailing ss = (if ss \<noteq> [] \<and> last ss = Static [] then butlast ss else ss)"

lemma valid_segment_not_empty [simp]: "valid_segment s \<Longrightarrow> s \<noteq> Static []"
  by auto

lemma wf_tail_iff:
  "wf_tail inner ss \<longleftrightarrow> list_all valid_segment (drop_trailing ss) \<and> (inner \<or> ss \<noteq> [Static []])"
  by (induction inner ss rule: wf_tail.induct) (auto simp: drop_trailing_def)

lemma wf_segments_iff:
  "wf_segments ss \<longleftrightarrow> list_all valid_segment (drop_trailing ss) \<and> ss \<noteq> [Static []]"
  by (simp add: wf_segments_def wf_tail_iff)

lemma drop_trailing_valid: "list_all valid_segment ss \<Longrightarrow> drop_trailing ss = ss"
  by (cases ss rule: rev_cases) (auto simp: drop_trailing_def)

lemma drop_trailing_simps [simp]: "drop_trailing [] = []" "drop_trailing (ss @ [Static []]) = ss"
  "s \<noteq> Static [] \<Longrightarrow> drop_trailing (ss @ [s]) = ss @ [s]"
  by (simp_all add: drop_trailing_def)

lemma wf_segments_valid: "list_all valid_segment ss \<Longrightarrow> wf_segments ss"
  by (auto simp: wf_segments_iff drop_trailing_valid)

lemma wf_segments_drop: "wf_segments ss \<Longrightarrow> wf_segments (drop_trailing ss)"
  by (intro wf_segments_valid) (simp add: wf_segments_iff)

lemma wf_segments_cases:
  assumes "wf_segments ss"
  obtains (plain) "list_all valid_segment ss"
    | (slashed) vs where "ss = vs @ [Static []]" "vs \<noteq> []" "list_all valid_segment vs"
  using assms by (cases ss rule: rev_cases) (auto simp: wf_segments_iff drop_trailing_def split: if_splits)

lemma wf_segments_append:
  assumes "list_all valid_segment xs" "wf_segments ys"
  shows "wf_segments (xs @ ys)"
  using assms(2)
proof (cases rule: wf_segments_cases)
  case plain
  with assms show ?thesis by (intro wf_segments_valid) simp
next
  case (slashed vs)
  with assms drop_trailing_simps(2) [of "xs @ vs"] show ?thesis by (auto simp: wf_segments_iff)
qed

lemma render_valid_end:
  assumes "list_all valid_segment ss"
  shows "pop_trailing_slash (render ss) = render ss" "\<not> has_trailing_slash (render ss)"
proof -
  have "\<not> ends_with_str (render ss) ''/''"
  proof (cases ss rule: rev_cases)
    case (snoc us u)
    with assms have v: "valid_segment u" by simp
    then obtain d e where d: "segment_display u = d @ [e]" and "e \<noteq> CHR ''/''"
      using valid_segment_display(3,4) [OF v] by (cases "segment_display u" rule: rev_cases) auto
    with snoc show ?thesis by (simp add: ends_with_str_iff suffix_def)
  qed (simp add: ends_with_str_iff)
  then show "pop_trailing_slash (render ss) = render ss" "\<not> has_trailing_slash (render ss)"
    by (simp_all add: pop_trailing_slash_def has_trailing_slash_def)
qed

lemma render_slashed_end:
  "pop_trailing_slash (render (vs @ [Static []])) = render vs" "has_trailing_slash (render (vs @ [Static []]))"
  by (simp_all add: pop_trailing_slash_def has_trailing_slash_def ends_with_str_iff butlast_append)

lemma pop_trailing_render: "wf_segments ss \<Longrightarrow> pop_trailing_slash (render ss) = render (drop_trailing ss)"
  by (erule wf_segments_cases) (simp_all add: render_valid_end drop_trailing_valid render_slashed_end
      del: render_simps)

lemma pop_trailing_valid [wf_intros]: "valid_path p \<Longrightarrow> valid_path (pop_trailing_slash p)"
  using pop_trailing_render [of "segments p"] valid_path_reads [of p]
    wf_segments_renders [OF wf_segments_drop] by metis

lemma has_trailing_iff:
  assumes "wf_segments ss"
  shows "has_trailing_slash (render ss) \<longleftrightarrow> ss \<noteq> [] \<and> last ss = Static []"
  using assms
proof (cases rule: wf_segments_cases)
  case plain
  then show ?thesis
    by (cases ss rule: rev_cases) (auto simp: render_valid_end(2) simp del: render_simps)
qed (simp add: render_slashed_end del: render_simps)

lemma push_segment_render:
  "wf_segments ss \<Longrightarrow> push_segment (render ss) g = render (drop_trailing ss @ [g])"
  by (simp add: push_segment_def pop_trailing_render)

lemma push_path_render:
  assumes "wf_segments ss" "wf_segments ts"
  shows "push_path (render ss) (render ts) = render (if ts = [] then ss else drop_trailing ss @ ts)"
  using assms by (cases ts) (simp_all add: push_path_def pop_trailing_render)

lemma collect_valid: "list_all valid_segment ss \<Longrightarrow> collect_path ss = render ss"
proof (induction ss rule: rev_induct)
  case (snoc s ss)
  then have "collect_path (ss @ [s]) = push_segment (render ss) s" by (simp add: collect_path_def)
  with snoc show ?case
    by (simp add: push_segment_render wf_segments_valid drop_trailing_valid)
qed (simp add: collect_path_def)

lemma collect_slashed:
  "list_all valid_segment ss \<Longrightarrow> collect_path (ss @ [Static []]) = render ss @ ''/''"
  using collect_valid [of ss] push_segment_render [OF wf_segments_valid, of ss "Static []"]
  by (simp add: collect_path_def drop_trailing_valid)

lemma collect_wf: "wf_segments ss \<Longrightarrow> collect_path ss = render ss"
  by (erule wf_segments_cases) (simp_all add: collect_valid collect_slashed)

text \<open>The text handed to the route matcher: the groups are gone, and the root is a slash.\<close>

lemma to_matchit_path_wf:
  assumes "wf_segments ss"
  shows "to_matchit_path (render ss) =
    (let ns = filter (\<lambda>s. \<not> is_group s) ss in if ns = [] then ''/'' else render ns)"
  using assms
proof (cases rule: wf_segments_cases)
  case plain
  then have "list_all valid_segment (filter (\<lambda>s. \<not> is_group s) ss)"
    by (auto simp: list_all_iff)
  with plain show ?thesis
    using wf_segments_renders(2) [OF assms] collect_valid
    by (cases "filter (\<lambda>s. \<not> is_group s) ss") (auto simp: to_matchit_path_def Let_def)
next
  case (slashed vs)
  let ?f = "filter (\<lambda>s. \<not> is_group s) vs"
  have f: "list_all valid_segment ?f" using slashed(3) by (auto simp: list_all_iff)
  have "render ss \<noteq> []" using slashed by (cases vs) auto
  with slashed collect_slashed [OF f] show ?thesis
    using wf_segments_renders(2) [OF assms] by (auto simp: to_matchit_path_def Let_def)
qed


subsection \<open>Prefixes\<close>

lemma render_length_le: "length (render ss) \<ge> length ss"
  by (induction ss) auto

lemma list_all_zip_prefix:
  "list_all (\<lambda>(a, b). a = b) (zip xs ys) \<longleftrightarrow> prefix ys xs \<or> prefix xs ys"
  by (induction xs ys rule: list_induct2') auto

lemma path_starts_with_segments:
  assumes "valid_path p" "valid_path q"
  shows "path_starts_with p q \<longleftrightarrow> prefix (segments q) (segments p)"
proof -
  have eq: "render (segments p) = p" "render (segments q) = q"
    using assms valid_path_reads(2) by blast+
  have "length p \<ge> length q" if "prefix (segments q) (segments p)"
    using that eq by (metis length_append nle_le not_add_less1 not_le prefix_def render_simps(3))
  moreover have "segments p = segments q" if "prefix (segments p) (segments q)" "length p \<ge> length q"
  proof -
    from that(1) obtain zs where z: "segments q = segments p @ zs" by (auto simp: prefix_def)
    then have "length q = length p + length (render zs)" using eq by (metis length_append render_simps(3))
    with that(2) have "zs = []" using render_length_le [of zs] by simp
    with z show ?thesis by simp
  qed
  ultimately show ?thesis
    by (auto simp: path_starts_with_def list_all_zip_prefix)
qed

lemma path_starts_with_refl: "valid_path p \<Longrightarrow> path_starts_with p p"
  by (simp add: path_starts_with_segments)

lemma path_starts_with_root: "valid_path p \<Longrightarrow> path_starts_with p []"
  by (simp add: path_starts_with_segments valid_path_def path_from_str_def)

lemma path_starts_with_trans:
  "valid_path p \<Longrightarrow> valid_path q \<Longrightarrow> valid_path r \<Longrightarrow>
   path_starts_with p q \<Longrightarrow> path_starts_with q r \<Longrightarrow> path_starts_with p r"
  by (auto simp: path_starts_with_segments)

lemma path_starts_with_antisym:
  "valid_path p \<Longrightarrow> valid_path q \<Longrightarrow> path_starts_with p q \<Longrightarrow> path_starts_with q p \<Longrightarrow> p = q"
  by (auto simp: path_starts_with_segments valid_path_segments_inject [symmetric])

subsection \<open>Matching, segment by segment\<close>

definition rest_segments :: "str option \<Rightarrow> str list" where
  "rest_segments rest = (case rest of None \<Rightarrow> [] | Some body \<Rightarrow> slashes body)"

definition url_segments :: "str \<Rightarrow> str list" where
  "url_segments url =
     (let body = unwrap_or url (strip_prefix ''/'' url) in if body = [] then [] else slashes body)"

fun seg_matches :: "path_segment list \<Rightarrow> str list \<Rightarrow> bool" where
  "seg_matches [] us \<longleftrightarrow> us = []"
| "seg_matches (Group _ # segs) us \<longleftrightarrow> seg_matches segs us"
| "seg_matches (Static e # segs) us \<longleftrightarrow>
     (if e = [] then us = [[]] else us \<noteq> [] \<and> hd us = e \<and> seg_matches segs (tl us))"
| "seg_matches (Param _ # segs) us \<longleftrightarrow> us \<noteq> [] \<and> hd us \<noteq> [] \<and> seg_matches segs (tl us)"
| "seg_matches (CatchAll _ # segs) us \<longleftrightarrow> us \<noteq> [] \<and> us \<noteq> [[]]"

lemma first_segment_slashes:
  "first_segment b = (h, t) \<Longrightarrow> slashes b = h # rest_segments t"
  by (subst split_on_split_once)
    (auto simp: first_segment_def rest_segments_def split: option.splits)

lemma rest_segments_None [simp]: "rest_segments r = [] \<longleftrightarrow> r = None"
  by (auto simp: rest_segments_def split: option.splits)

lemma rest_segments_empty [simp]: "rest_segments r = [[]] \<longleftrightarrow> r = Some []"
  by (auto simp: rest_segments_def split_on_eq_singleton_Nil split: option.splits)

lemma rest_segments_Some:
  "first_segment b = (h, t) \<Longrightarrow> rest_segments (Some b) = h # rest_segments t"
  by (simp add: rest_segments_def first_segment_slashes)

lemma matches_loop_seg_matches: "matches_loop segs rest \<longleftrightarrow> seg_matches segs (rest_segments rest)"
proof (induction segs rest rule: matches_loop.induct)
  case (3 expected segs rest)
  show ?case
  proof (cases "expected = []")
    case False
    with 3 show ?thesis
      by (cases rest; cases "first_segment (the rest)") (auto simp: rest_segments_Some)
  qed simp
next
  case (4 n segs rest)
  then show ?case
    by (cases rest; cases "first_segment (the rest)") (auto simp: rest_segments_Some)
qed (auto simp: is_some_and_def split: option.splits)

lemma path_matches_segments: "path_matches p url \<longleftrightarrow> seg_matches (segments p) (url_segments url)"
  by (simp add: path_matches_def url_segments_def matches_loop_seg_matches Let_def
      rest_segments_def)

lemma seg_matches_groups: "seg_matches (filter (\<lambda>s. \<not> is_group s) ss) us \<longleftrightarrow> seg_matches ss us"
  by (induction ss us rule: seg_matches.induct) auto

subsection \<open>Properties\<close>

lemma path_from_str_slash: "path_from_str ''/'' = Ok []"
  by (simp add: path_from_str_def)

text \<open>C21. A string parses as a route path exactly when it is the rendering of a well-formed
  list of segments: non-empty static, group, parameter and catch-all segments with valid
  names, an empty segment only as a trailing slash after another one; the root is written
  \<^verbatim>\<open>/\<close> or as the empty string, and is stored as the empty string.\<close>

theorem path_grammar:
  "path_from_str s = Ok p \<longleftrightarrow>
     (\<exists>ss. wf_segments ss \<and> p = render ss \<and> (s = p \<or> s = ''/'' \<and> p = []))"
proof
  assume "path_from_str s = Ok p"
  then show "\<exists>ss. wf_segments ss \<and> p = render ss \<and> (s = p \<or> s = ''/'' \<and> p = [])"
    using path_from_str_reads [of s p] by (intro exI [of _ "segments p"]) auto
next
  assume "\<exists>ss. wf_segments ss \<and> p = render ss \<and> (s = p \<or> s = ''/'' \<and> p = [])"
  then show "path_from_str s = Ok p"
    using wf_segments_renders(1) [unfolded valid_path_def] path_from_str_slash by auto
qed

text \<open>The index loops of the parser report the error of the leftmost offending segment:
  the whole validator equals the one that splits the text at its slashes and checks the
  pieces in order.\<close>

theorem path_parse_errors: "path_from_str s = path_spec s"
  by (rule path_from_str_eq_spec)

text \<open>Reading the segments of a valid path and collecting them rebuilds the path, and
  the segments of a collected well-formed list are that list.\<close>

theorem path_segments_roundtrip:
  assumes "valid_path p" "wf_segments ss"
  shows "collect_path (segments p) = p \<and> segments (collect_path ss) = ss \<and> valid_path (collect_path ss)"
  using valid_path_reads [OF assms(1)] wf_segments_renders [OF assms(2)] collect_wf assms(2) by simp

lemma path_segments_roundtrip_witness:
  "collect_path (segments ''/users/{id}'') = ''/users/{id}'' \<and>
   segments (collect_path [Static ''a'', Static '''']) = [Static ''a'', Static '''']"
proof -
  have "valid_path ''/users/{id}''" "wf_segments [Static ''a'', Static '''']"
    by code_simp+
  from path_segments_roundtrip [OF this] show ?thesis by blast
qed

text \<open>Joining valid paths keeps the grammar and concatenates the segment lists, the left
  path losing its trailing slash; joining the root changes nothing.\<close>

theorem path_join_segments:
  assumes "valid_path p" "valid_path q"
  shows "valid_path (path_join p q) \<and>
    segments (path_join p q) = (if q = [] then segments p else drop_trailing (segments p) @ segments q)"
proof -
  let ?ss = "segments p" and ?ts = "segments q"
  have wf: "wf_segments ?ss" "wf_segments ?ts" and r: "render ?ss = p" "render ?ts = q"
    using assms valid_path_reads by blast+
  have e: "?ts = [] \<longleftrightarrow> q = []" using r by (cases ?ts) auto
  have "path_join p q = render (if q = [] then ?ss else drop_trailing ?ss @ ?ts)"
    using push_path_render [OF wf] r e by (simp add: path_join_def)
  moreover have "wf_segments (if q = [] then ?ss else drop_trailing ?ss @ ?ts)"
    using wf by (auto intro: wf_segments_append simp: wf_segments_iff [of ?ss])
  ultimately show ?thesis using wf_segments_renders by simp
qed

lemma path_join_segments_witness:
  "segments (path_join ''/api/'' ''/users'') = [Static ''api'', Static ''users'']"
proof -
  have "valid_path ''/api/''" "valid_path ''/users''" by code_simp+
  from path_join_segments [OF this]
  have "segments (path_join ''/api/'' ''/users'') =
      drop_trailing (segments ''/api/'') @ segments ''/users''" by simp
  also have "\<dots> = [Static ''api'', Static ''users'']" by code_simp
  finally show ?thesis .
qed

text \<open>On valid paths, \<^verbatim>\<open>starts_with\<close> is the prefix order on segment lists, so it never
  matches half a segment.\<close>

theorem path_starts_with_prefix:
  assumes "valid_path p" "valid_path q"
  shows "path_starts_with p q \<longleftrightarrow> prefix (segments q) (segments p)"
  by (rule path_starts_with_segments [OF assms])

lemma path_starts_with_prefix_witness: "\<not> path_starts_with ''/a/bc'' ''/a/b''"
proof -
  have "valid_path ''/a/bc''" "valid_path ''/a/b''" by code_simp+
  from path_starts_with_prefix [OF this] show ?thesis by simp code_simp
qed

text \<open>Reading a path's segments from both ends, in any order, yields each segment once
  and in order.\<close>

theorem path_segments_double_ended:
  assumes "drain segs_next segs_next_back es (path_segments_new p) = (fs, bs, it)"
  shows "segments p = fs @ segs_collect it @ rev bs"
  unfolding segments_def using path_iter.drain_items [OF _ assms] by simp

lemma path_segments_double_ended_witness:
  "segments ''/a/{b}/c'' = [Static ''a''] @ [Param ''b''] @ rev [Static ''c'']"
proof -
  have d: "drain segs_next segs_next_back [Front, Back] (path_segments_new ''/a/{b}/c'') =
      ([Static ''a''], [Static ''c''], \<lparr>ps_rest = ''{b}'', ps_done = False\<rparr>)"
    by code_simp
  have "segs_collect \<lparr>ps_rest = ''{b}'', ps_done = False\<rparr> = [Param ''b'']" by code_simp
  with path_segments_double_ended [OF d] show ?thesis by simp
qed

text \<open>Matching a URL compares its slash-separated segments with the pattern's segments one
  by one, and the groups of the pattern take no part in it.\<close>

theorem path_matches_by_segments:
  "path_matches p url \<longleftrightarrow>
     seg_matches (filter (\<lambda>s. \<not> is_group s) (segments p)) (url_segments url)"
  by (simp add: path_matches_segments seg_matches_groups)

end
