(* ===== verification/Path_Params.thy ===== *)
theory Path_Params
  imports Route_Path
begin

text \<open>
  Path parameters: \<^verbatim>\<open>crates/topcoat-router/src/path_param.rs\<close>.  A match yields one value per
  capturing segment of the endpoint's path; the values are decoded when they are captured and
  paired with the names again when they are read, from either end.  Percent decoding is the
  \<^verbatim>\<open>percent_encoding\<close> crate's, an argument \<open>dec\<close>.
\<close>

datatype raw_path_param_value = Segment str | CatchAllValue str "str list"

fun value_as_str :: "raw_path_param_value \<Rightarrow> str" where
  "value_as_str (Segment v) = v"
| "value_as_str (CatchAllValue tail _) = tail"

record raw_path_params =
  rp_values :: "str list"
  rp_catch_all :: "str list"

definition raw_path_params_default :: raw_path_params where
  "raw_path_params_default = \<lparr>rp_values = [], rp_catch_all = []\<rparr>"

subsection \<open>Capturing segments\<close>

text \<open>\<^verbatim>\<open>ParamSegments\<close>: \<^verbatim>\<open>find\<close> and \<^verbatim>\<open>rfind\<close> over the path's segments.\<close>

type_synonym param_segments = path_segments

definition param_segments_new :: "route_path \<Rightarrow> param_segments" where
  "param_segments_new p = path_segments_new p"

function param_next :: "param_segments \<Rightarrow> path_segment option \<times> param_segments" where
  "param_next it =
     (case segs_next it of
        (None, it') \<Rightarrow> (None, it')
      | (Some s, it') \<Rightarrow> if param_name s \<noteq> None then (Some s, it') else param_next it')"
  by pat_completeness auto
termination
  by (relation "measure segs_measure") (auto dest: segs_next_measure [OF sym])

lemma segs_next_back_measure:
  "segs_next_back it = (Some s, it') \<Longrightarrow> segs_measure it' < segs_measure it"
  by (auto simp: segs_next_back_def segs_measure_def last_segment_def rsplit_once_Some_iff
           split: if_splits option.splits prod.splits)

function param_next_back :: "param_segments \<Rightarrow> path_segment option \<times> param_segments" where
  "param_next_back it =
     (case segs_next_back it of
        (None, it') \<Rightarrow> (None, it')
      | (Some s, it') \<Rightarrow> if param_name s \<noteq> None then (Some s, it') else param_next_back it')"
  by pat_completeness auto
termination
  by (relation "measure segs_measure") (auto dest: segs_next_back_measure [OF sym])

declare param_next.simps [simp del] param_next_back.simps [simp del]

definition param_items :: "param_segments \<Rightarrow> path_segment list" where
  "param_items it = filter (\<lambda>s. param_name s \<noteq> None) (segs_collect it)"

definition param_segments :: "route_path \<Rightarrow> path_segment list" where
  "param_segments p = filter (\<lambda>s. param_name s \<noteq> None) (segments p)"

lemma param_next_items:
  "(case param_items it of
      [] \<Rightarrow> fst (param_next it) = None \<and> param_items (snd (param_next it)) = []
    | x # xs \<Rightarrow> fst (param_next it) = Some x \<and> param_items (snd (param_next it)) = xs)"
proof (induction it rule: param_next.induct)
  case (1 it)
  show ?case
  proof (cases "segs_collect it")
    case Nil
    then show ?thesis
      by (simp add: param_next.simps [of it] segs_next_Nil param_items_def)
  next
    case (Cons x xs)
    then obtain it' where n: "segs_next it = (Some x, it')" and c: "segs_collect it' = xs"
      using segs_next_Cons [OF Cons] by (cases "segs_next it") auto
    show ?thesis
    proof (cases "param_name x")
      case None
      with "1" [of "Some x" it' x] n have
        "(case param_items it' of
            [] \<Rightarrow> fst (param_next it') = None \<and> param_items (snd (param_next it')) = []
          | x # xs \<Rightarrow> fst (param_next it') = Some x \<and> param_items (snd (param_next it')) = xs)"
        by simp
      moreover have "param_items it = param_items it'"
        using Cons c None by (simp add: param_items_def)
      moreover have "param_next it = param_next it'"
        using n None by (simp add: param_next.simps [of it])
      ultimately show ?thesis by (simp only:)
    next
      case (Some nm)
      with n c Cons show ?thesis
        by (simp add: param_next.simps [of it] param_items_def)
    qed
  qed
qed

lemma param_next_back_items:
  "(case rev (param_items it) of
      [] \<Rightarrow> fst (param_next_back it) = None \<and> param_items (snd (param_next_back it)) = []
    | x # xs \<Rightarrow> fst (param_next_back it) = Some x \<and> param_items (snd (param_next_back it)) = rev xs)"
proof (induction it rule: param_next_back.induct)
  case (1 it)
  show ?case
  proof (cases "segs_collect it" rule: rev_cases)
    case Nil
    then show ?thesis
      by (simp add: param_next_back.simps [of it] segs_next_back_Nil param_items_def)
  next
    case (snoc xs x)
    then obtain it' where n: "segs_next_back it = (Some x, it')" and c: "segs_collect it' = xs"
      using segs_next_back_snoc [OF snoc] by (cases "segs_next_back it") auto
    show ?thesis
    proof (cases "param_name x")
      case None
      with "1" [of "Some x" it' x] n have
        "(case rev (param_items it') of
            [] \<Rightarrow> fst (param_next_back it') = None \<and> param_items (snd (param_next_back it')) = []
          | x # xs \<Rightarrow> fst (param_next_back it') = Some x \<and> param_items (snd (param_next_back it')) = rev xs)"
        by simp
      moreover have "param_items it = param_items it'"
        using snoc c None by (simp add: param_items_def)
      moreover have "param_next_back it = param_next_back it'"
        using n None by (simp add: param_next_back.simps [of it])
      ultimately show ?thesis by (simp only:)
    next
      case (Some nm)
      with n c snoc show ?thesis
        by (simp add: param_next_back.simps [of it] param_items_def)
    qed
  qed
qed

interpretation param_iter: double_ended "\<lambda>_. True" param_next param_next_back param_items
proof
  fix it :: param_segments and x xs
  show "param_items it = [] \<Longrightarrow> fst (param_next it) = None \<and> param_items (snd (param_next it)) = []"
    using param_next_items [of it] by simp
  show "param_items it = x # xs \<Longrightarrow> fst (param_next it) = Some x \<and> param_items (snd (param_next it)) = xs"
    using param_next_items [of it] by simp
  show "param_items it = [] \<Longrightarrow> fst (param_next_back it) = None \<and> param_items (snd (param_next_back it)) = []"
    using param_next_back_items [of it] by simp
  show "param_items it = xs @ [x] \<Longrightarrow> fst (param_next_back it) = Some x \<and> param_items (snd (param_next_back it)) = xs"
    using param_next_back_items [of it] by simp
qed

lemma param_items_new [simp]: "param_items (param_segments_new p) = param_segments p"
  by (simp add: param_items_def param_segments_def param_segments_new_def segments_def)

subsection \<open>Capturing and reading the values\<close>

fun capture_loop :: "(str \<Rightarrow> str) \<Rightarrow> (path_segment \<times> str) list \<Rightarrow> raw_path_params \<Rightarrow> raw_path_params" where
  "capture_loop dec [] params = params"
| "capture_loop dec ((segment, value) # rest) params =
     capture_loop dec rest
       (case segment of
          CatchAll _ \<Rightarrow>
            params\<lparr>rp_catch_all := map dec (slashes value), rp_values := rp_values params @ [value]\<rparr>
        | _ \<Rightarrow> params\<lparr>rp_values := rp_values params @ [dec value]\<rparr>)"

text \<open>The \<^verbatim>\<open>debug_assert\<close> that the match captured no further value is the caller's contract; it
  has no effect on the result.\<close>

definition from_match :: "(str \<Rightarrow> str) \<Rightarrow> route_path \<Rightarrow> str list \<Rightarrow> raw_path_params" where
  "from_match dec p values =
     capture_loop dec (zip (param_items (param_segments_new p)) values) raw_path_params_default"

record raw_path_params_iter =
  ri_segments :: param_segments
  ri_values :: "str list"
  ri_catch_all :: "str list"

definition raw_path_params_iter_new :: "route_path \<Rightarrow> raw_path_params \<Rightarrow> raw_path_params_iter" where
  "raw_path_params_iter_new p params =
     \<lparr>ri_segments = param_segments_new p, ri_values = rp_values params,
      ri_catch_all = rp_catch_all params\<rparr>"

definition param_pair :: "raw_path_params_iter \<Rightarrow> path_segment \<Rightarrow> str \<Rightarrow> (str \<times> raw_path_param_value) option" where
  "param_pair it segment value =
     (case param_name segment of
        None \<Rightarrow> None
      | Some name \<Rightarrow>
          Some (name, case segment of CatchAll _ \<Rightarrow> CatchAllValue value (ri_catch_all it) | _ \<Rightarrow> Segment value))"

text \<open>A segment taken while no value is left is consumed, as in the source.\<close>

definition ri_next :: "raw_path_params_iter \<Rightarrow> (str \<times> raw_path_param_value) option \<times> raw_path_params_iter" where
  "ri_next it =
     (case param_next (ri_segments it) of
        (None, segs) \<Rightarrow> (None, it\<lparr>ri_segments := segs\<rparr>)
      | (Some segment, segs) \<Rightarrow>
          (let it = it\<lparr>ri_segments := segs\<rparr>
           in case ri_values it of
                [] \<Rightarrow> (None, it)
              | value # vs \<Rightarrow>
                  (let it = it\<lparr>ri_values := vs\<rparr> in (param_pair it segment value, it))))"

definition ri_next_back :: "raw_path_params_iter \<Rightarrow> (str \<times> raw_path_param_value) option \<times> raw_path_params_iter" where
  "ri_next_back it =
     (case param_next_back (ri_segments it) of
        (None, segs) \<Rightarrow> (None, it\<lparr>ri_segments := segs\<rparr>)
      | (Some segment, segs) \<Rightarrow>
          (let it = it\<lparr>ri_segments := segs\<rparr>
           in if ri_values it = [] then (None, it)
              else (let value = last (ri_values it); it = it\<lparr>ri_values := butlast (ri_values it)\<rparr>
                    in (param_pair it segment value, it))))"

lemma ri_next_step:
  "ri_next it = (Some x, it') \<Longrightarrow> length (ri_values it') < length (ri_values it)"
  by (auto simp: ri_next_def Let_def split: prod.splits option.splits list.splits)

function ri_collect :: "raw_path_params_iter \<Rightarrow> (str \<times> raw_path_param_value) list" where
  "ri_collect it = (case ri_next it of (None, _) \<Rightarrow> [] | (Some x, it') \<Rightarrow> x # ri_collect it')"
  by pat_completeness auto
termination
  by (relation "measure (\<lambda>it. length (ri_values it))") (auto dest: ri_next_step [OF sym])

declare ri_collect.simps [simp del]

text \<open>\<^verbatim>\<open>find\<close>: the first pair of that name.\<close>

definition find_param :: "route_path \<Rightarrow> raw_path_params \<Rightarrow> str \<Rightarrow> raw_path_param_value option" where
  "find_param p params name = map_of (ri_collect (raw_path_params_iter_new p params)) name"

datatype param_panic = CapturedMultiple str | CapturedOne str | ParamNotFound str

definition path_param_segment :: "route_path \<Rightarrow> raw_path_params \<Rightarrow> str \<Rightarrow> (str, param_panic) result" where
  "path_param_segment p params name =
     (case find_param p params name of
        Some (Segment value) \<Rightarrow> Ok value
      | Some (CatchAllValue _ _) \<Rightarrow> Err (CapturedMultiple name)
      | None \<Rightarrow> Err (ParamNotFound name))"

definition path_param_segments :: "route_path \<Rightarrow> raw_path_params \<Rightarrow> str \<Rightarrow> (str list, param_panic) result" where
  "path_param_segments p params name =
     (case find_param p params name of
        Some (CatchAllValue _ segs) \<Rightarrow> Ok segs
      | Some (Segment _) \<Rightarrow> Err (CapturedOne name)
      | None \<Rightarrow> Err (ParamNotFound name))"

subsection \<open>What a match yields\<close>

fun captured :: "(str \<Rightarrow> str) \<Rightarrow> path_segment \<Rightarrow> str \<Rightarrow> str" where
  "captured dec (CatchAll _) v = v"
| "captured dec _ v = dec v"

fun captured_value :: "(str \<Rightarrow> str) \<Rightarrow> path_segment \<Rightarrow> str \<Rightarrow> raw_path_param_value" where
  "captured_value dec (CatchAll _) v = CatchAllValue v (map dec (slashes v))"
| "captured_value dec _ v = Segment (dec v)"

definition seg_name :: "path_segment \<Rightarrow> str" where
  "seg_name s = unwrap_or [] (param_name s)"

lemma capture_loop_values:
  "rp_values (capture_loop dec sv params) = rp_values params @ map (\<lambda>(s, v). captured dec s v) sv"
proof (induction dec sv params rule: capture_loop.induct)
  case (2 dec s v rest params)
  then show ?case by (cases s) auto
qed simp

lemma capture_loop_no_catch_all:
  "(\<forall>s \<in> fst ` set sv. \<not> is_catch_all s) \<Longrightarrow> rp_catch_all (capture_loop dec sv params) = rp_catch_all params"
proof (induction dec sv params rule: capture_loop.induct)
  case (2 dec s v rest params)
  then show ?case by (cases s) auto
qed simp

lemma capture_loop_append:
  "capture_loop dec (xs @ ys) params = capture_loop dec ys (capture_loop dec xs params)"
  by (induction dec xs params rule: capture_loop.induct) auto

lemma capture_loop_catch_all:
  "rp_catch_all (capture_loop dec (xs @ [(CatchAll n, v)]) params) = map dec (slashes v)"
  by (simp add: capture_loop_append)

definition ri_inv :: "raw_path_params_iter \<Rightarrow> bool" where
  "ri_inv it \<longleftrightarrow> length (ri_values it) = length (param_items (ri_segments it))"

fun pair_of :: "str list \<Rightarrow> path_segment \<times> str \<Rightarrow> str \<times> raw_path_param_value" where
  "pair_of ca (s, v) = (seg_name s, case s of CatchAll _ \<Rightarrow> CatchAllValue v ca | _ \<Rightarrow> Segment v)"

definition ri_items :: "raw_path_params_iter \<Rightarrow> (str \<times> raw_path_param_value) list" where
  "ri_items it = map (pair_of (ri_catch_all it)) (zip (param_items (ri_segments it)) (ri_values it))"

lemma param_pair_of: "param_name s \<noteq> None \<Longrightarrow> param_pair it s v = Some (pair_of (ri_catch_all it) (s, v))"
  by (cases s) (auto simp: param_pair_def seg_name_def)

lemma param_items_named: "s \<in> set (param_items it) \<Longrightarrow> param_name s \<noteq> None"
  by (simp add: param_items_def)

lemma ri_next_Nil:
  assumes "ri_inv it" "ri_items it = []"
  shows "fst (ri_next it) = None \<and> ri_items (snd (ri_next it)) = [] \<and> ri_inv (snd (ri_next it))"
proof -
  have "param_items (ri_segments it) = []" "ri_values it = []"
    using assms by (auto simp: ri_inv_def ri_items_def zip_eq_Nil_iff)
  then show ?thesis
    using param_next_items [of "ri_segments it"]
    by (auto simp: ri_next_def ri_items_def ri_inv_def split: prod.splits)
qed

lemma ri_next_Cons:
  assumes "ri_inv it" "ri_items it = x # xs"
  shows "fst (ri_next it) = Some x \<and> ri_items (snd (ri_next it)) = xs \<and> ri_inv (snd (ri_next it))"
proof -
  obtain s ss v vs where i: "param_items (ri_segments it) = s # ss" "ri_values it = v # vs"
    using assms(2) by (cases "param_items (ri_segments it)"; cases "ri_values it") (auto simp: ri_items_def)
  obtain segs where n: "param_next (ri_segments it) = (Some s, segs)" "param_items segs = ss"
    using param_next_items [of "ri_segments it"] i by (cases "param_next (ri_segments it)") auto
  have "param_name s \<noteq> None" using i param_items_named [of s "ri_segments it"] by simp
  with i n assms show ?thesis
    by (auto simp: ri_next_def ri_items_def ri_inv_def param_pair_of Let_def split: path_segment.splits)
qed

lemma ri_next_back_Nil:
  assumes "ri_inv it" "ri_items it = []"
  shows "fst (ri_next_back it) = None \<and> ri_items (snd (ri_next_back it)) = [] \<and> ri_inv (snd (ri_next_back it))"
proof -
  have "param_items (ri_segments it) = []" "ri_values it = []"
    using assms by (auto simp: ri_inv_def ri_items_def zip_eq_Nil_iff)
  then show ?thesis
    using param_next_back_items [of "ri_segments it"]
    by (auto simp: ri_next_back_def ri_items_def ri_inv_def split: prod.splits)
qed

lemma ri_next_back_snoc:
  assumes "ri_inv it" "ri_items it = xs @ [x]"
  shows "fst (ri_next_back it) = Some x \<and> ri_items (snd (ri_next_back it)) = xs \<and>
    ri_inv (snd (ri_next_back it))"
proof -
  have "param_items (ri_segments it) \<noteq> []" "ri_values it \<noteq> []"
    using assms(2) by (auto simp: ri_items_def)
  then obtain s ss v vs where i: "param_items (ri_segments it) = ss @ [s]" "ri_values it = vs @ [v]"
    by (metis rev_exhaust)
  then have l: "length ss = length vs" using assms(1) by (simp add: ri_inv_def)
  obtain segs where n: "param_next_back (ri_segments it) = (Some s, segs)" "param_items segs = ss"
    using param_next_back_items [of "ri_segments it"] i by (cases "param_next_back (ri_segments it)") auto
  have "param_name s \<noteq> None" using i param_items_named [of s "ri_segments it"] by simp
  with i n l assms show ?thesis
    by (auto simp: ri_next_back_def ri_items_def ri_inv_def param_pair_of Let_def split: path_segment.splits)
qed

lemma ri_inv_steps:
  assumes "ri_inv it"
  shows "ri_inv (snd (ri_next it))" "ri_inv (snd (ri_next_back it))"
proof -
  show "ri_inv (snd (ri_next it))"
    using assms ri_next_Nil ri_next_Cons by (cases "ri_items it") blast+
  show "ri_inv (snd (ri_next_back it))"
    using assms ri_next_back_Nil ri_next_back_snoc by (cases "ri_items it" rule: rev_cases) blast+
qed

interpretation ri_iter: double_ended ri_inv ri_next ri_next_back ri_items
  by unfold_locales (use ri_inv_steps ri_next_Nil ri_next_Cons ri_next_back_Nil ri_next_back_snoc in blast)+

lemma ri_collect_items: "ri_inv it \<Longrightarrow> ri_collect it = ri_items it"
proof (induction it rule: ri_collect.induct)
  case (1 it)
  show ?case
  proof (cases "ri_next it")
    case (Pair x it')
    with "1" ri_iter.front_item [of it] ri_iter.fused [of it] ri_inv_steps [of it]
    show ?thesis by (subst ri_collect.simps) (auto split: option.splits)
  qed
qed

lemma ri_items_from_match:
  assumes len: "length vs = length (param_segments p)"
    and last: "\<forall>s \<in> set (butlast (param_segments p)). \<not> is_catch_all s"
  shows "ri_inv (raw_path_params_iter_new p (from_match dec p vs))"
    and "ri_items (raw_path_params_iter_new p (from_match dec p vs)) =
      map (\<lambda>(s, v). (seg_name s, captured_value dec s v)) (zip (param_segments p) vs)"
proof -
  let ?sv = "zip (param_segments p) vs" and ?params = "from_match dec p vs"
  have vals: "rp_values ?params = map (\<lambda>(s, v). captured dec s v) ?sv"
    by (simp add: from_match_def capture_loop_values raw_path_params_default_def)
  show "ri_inv (raw_path_params_iter_new p ?params)"
    by (simp add: ri_inv_def raw_path_params_iter_new_def vals len)
  have ca: "rp_catch_all ?params = map dec (slashes v)" if "(CatchAll n, v) \<in> set ?sv" for n v
  proof -
    have "param_segments p \<noteq> []" "vs \<noteq> []" using that by auto
    then obtain ss s ws w where sw: "param_segments p = ss @ [s]" "vs = ws @ [w]"
      by (metis rev_exhaust)
    with len have bl: "?sv = zip (butlast (param_segments p)) (butlast vs) @ [(s, w)]" by simp
    have "fst ` set (zip (butlast (param_segments p)) (butlast vs)) \<subseteq> set (butlast (param_segments p))"
      by (auto dest: set_zip_leftD)
    with last have "(CatchAll n, v) \<notin> set (zip (butlast (param_segments p)) (butlast vs))"
      by force
    with that bl have "(CatchAll n, v) = (s, w)" by (metis Un_iff empty_iff set_ConsD list.set(1) set_append)
    with bl show ?thesis
      using capture_loop_catch_all [of dec _ n w] by (auto simp: from_match_def)
  qed
  have "map (pair_of (rp_catch_all ?params)) (zip (param_segments p) (rp_values ?params)) =
      map (\<lambda>(s, v). (seg_name s, captured_value dec s v)) ?sv"
  proof (rule nth_equalityI)
    fix i
    assume "i < length (map (pair_of (rp_catch_all ?params)) (zip (param_segments p) (rp_values ?params)))"
    then have i: "i < length (param_segments p)" "i < length vs" by (simp_all add: vals len)
    then have "(param_segments p ! i, vs ! i) \<in> set ?sv" by (auto simp: in_set_zip)
    with ca i show "map (pair_of (rp_catch_all ?params)) (zip (param_segments p) (rp_values ?params)) ! i =
        map (\<lambda>(s, v). (seg_name s, captured_value dec s v)) ?sv ! i"
      by (cases "param_segments p ! i") (auto simp: vals)
  qed (simp add: vals)
  then show "ri_items (raw_path_params_iter_new p ?params) =
      map (\<lambda>(s, v). (seg_name s, captured_value dec s v)) ?sv"
    by (simp add: ri_items_def raw_path_params_iter_new_def)
qed

text \<open>Reading a match's parameters yields, for every capturing segment of the endpoint's
  path in order, its name with the decoded value it captured, and for a final catch-all the
  tail as the URL spelled it with its segments decoded one by one.\<close>

theorem params_roundtrip:
  assumes "length vs = length (param_segments p)"
    and "\<forall>s \<in> set (butlast (param_segments p)). \<not> is_catch_all s"
  shows "ri_collect (raw_path_params_iter_new p (from_match dec p vs)) =
    map (\<lambda>(s, v). (seg_name s, captured_value dec s v)) (zip (param_segments p) vs)"
  using ri_items_from_match [OF assms] by (simp add: ri_collect_items)

lemma params_roundtrip_witness:
  "ri_collect (raw_path_params_iter_new ''/u/{id}/f/{*rest}''
      (from_match (\<lambda>s. s) ''/u/{id}/f/{*rest}'' [''7'', ''a/b''])) =
    [(''id'', Segment ''7''), (''rest'', CatchAllValue ''a/b'' [''a'', ''b''])]"
proof -
  let ?p = "''/u/{id}/f/{*rest}''"
  have s: "param_segments ?p = [Param ''id'', CatchAll ''rest'']" by code_simp
  then have "length [''7'', ''a/b''] = length (param_segments ?p)"
    "\<forall>s \<in> set (butlast (param_segments ?p)). \<not> is_catch_all s" by simp_all
  from params_roundtrip [OF this, of "\<lambda>s. s"] show ?thesis by (simp add: s seg_name_def)
qed

text \<open>Whatever mixture of reads from the front and from the back, the parameters come out
  once each and in order, names and values staying paired.\<close>

theorem params_double_ended:
  assumes "length vs = length (param_segments p)"
    and "\<forall>s \<in> set (butlast (param_segments p)). \<not> is_catch_all s"
    and "drain ri_next ri_next_back es (raw_path_params_iter_new p (from_match dec p vs)) = (fs, bs, it)"
  shows "fs @ ri_items it @ rev bs =
    map (\<lambda>(s, v). (seg_name s, captured_value dec s v)) (zip (param_segments p) vs)"
  using ri_items_from_match [OF assms(1,2)] ri_iter.drain_items [OF _ assms(3)] by simp

lemma params_double_ended_witness:
  "[] @ [(''a'', Segment ''1'')] @ rev [(''b'', Segment ''2'')] = [(''a'', Segment ''1''), (''b'', Segment ''2'')]"
proof -
  let ?p = "''/{a}/{b}''"
  let ?it = "raw_path_params_iter_new ?p (from_match (\<lambda>s. s) ?p [''1'', ''2''])"
  have s: "param_segments ?p = [Param ''a'', Param ''b'']" by code_simp
  obtain it where d: "drain ri_next ri_next_back [Back] ?it = ([], [(''b'', Segment ''2'')], it)"
    and i: "ri_items it = [(''a'', Segment ''1'')]"
  proof -
    have "fst (ri_next_back ?it) = Some (''b'', Segment ''2'') \<and>
        ri_items (snd (ri_next_back ?it)) = [(''a'', Segment ''1'')]" by code_simp
    then show ?thesis by (intro that [of "snd (ri_next_back ?it)"]) (auto simp: split_beta Let_def)
  qed
  have "length [''1'', ''2''] = length (param_segments ?p)"
    "\<forall>s \<in> set (butlast (param_segments ?p)). \<not> is_catch_all s" using s by simp_all
  from params_double_ended [OF this d] i show ?thesis by (simp add: s seg_name_def)
qed

end
