(* ===== verification/Endpoints.thy ===== *)
theory Endpoints
  imports Route_Path "HOL-Library.AList" "HOL-Library.Word"
begin

text \<open>
  Method tables: \<^verbatim>\<open>methods.rs\<close>, \<^verbatim>\<open>endpoint.rs\<close> and the \<^verbatim>\<open>RouteIndex\<close> of \<^verbatim>\<open>route.rs\<close> in
  \<^verbatim>\<open>crates/topcoat-router/src\<close>.  An \<^verbatim>\<open>http::Method\<close> is its name, the \<^verbatim>\<open>HashMap\<close> of extension
  methods an association list without repeated keys (the code promises no order for its
  keys).  The endpoint table keeps its URL matcher abstract: \<^verbatim>\<open>matchit\<close> is third-party code,
  so its \<^verbatim>\<open>insert\<close> and \<^verbatim>\<open>at\<close> are arguments.
\<close>

type_synonym http_method = str
type_synonym route_index = nat
type_synonym endpoint_index = nat

datatype methods = AnyMethod | Only "http_method list"

datatype owned_methods = One http_method | MethodSet "http_method list" | OwnedAny

fun as_methods :: "owned_methods \<Rightarrow> methods" where
  "as_methods (One m) = Only [m]"
| "as_methods (MethodSet ms) = Only ms"
| "as_methods OwnedAny = AnyMethod"

fun owned_of_methods :: "methods \<Rightarrow> owned_methods" where
  "owned_of_methods AnyMethod = OwnedAny"
| "owned_of_methods (Only ms) = MethodSet ms"

lemma as_methods_owned [simp]: "as_methods (owned_of_methods ms) = ms"
  by (cases ms) auto

subsection \<open>Route positions\<close>

definition route_index_new :: "64 word \<Rightarrow> 64 word option" where
  "route_index_new i = (let n = i + 1 in if n = 0 then None else Some n)"

definition route_index_get :: "64 word \<Rightarrow> 64 word" where
  "route_index_get n = n - 1"

lemma route_index_roundtrip: "route_index_new i = Some n \<Longrightarrow> route_index_get n = i \<and> n \<noteq> 0"
  by (auto simp: route_index_new_def route_index_get_def Let_def split: if_splits)

lemma route_index_overflow: "route_index_new i = None \<longleftrightarrow> i = -1"
  by (auto simp: route_index_new_def Let_def eq_neg_iff_add_eq_0)

subsection \<open>Endpoints\<close>

definition STANDARD_METHODS :: "http_method list" where
  "STANDARD_METHODS = [''GET'', ''POST'', ''PUT'', ''DELETE'', ''PATCH'', ''HEAD'', ''OPTIONS'',
     ''TRACE'', ''CONNECT'']"

definition standard_slot :: "http_method \<Rightarrow> nat option" where
  "standard_slot m =
     (if m = ''GET'' then Some 0 else if m = ''POST'' then Some 1 else if m = ''PUT'' then Some 2
      else if m = ''DELETE'' then Some 3 else if m = ''PATCH'' then Some 4
      else if m = ''HEAD'' then Some 5 else if m = ''OPTIONS'' then Some 6
      else if m = ''TRACE'' then Some 7 else if m = ''CONNECT'' then Some 8 else None)"

record endpoint =
  ep_standard :: "route_index option list"
  ep_other :: "(http_method \<times> route_index) list"
  ep_any :: "route_index option"
  ep_path :: route_path

definition endpoint_new :: "route_path \<Rightarrow> endpoint" where
  "endpoint_new p = \<lparr>ep_standard = replicate 9 None, ep_other = [], ep_any = None, ep_path = p\<rparr>"

definition with_path :: "endpoint \<Rightarrow> route_path \<Rightarrow> endpoint" where
  "with_path e p = e\<lparr>ep_path := p\<rparr>"

definition endpoint_get :: "endpoint \<Rightarrow> http_method \<Rightarrow> route_index option" where
  "endpoint_get e m =
     (case standard_slot m of
        Some slot \<Rightarrow> ep_standard e ! slot
      | None \<Rightarrow> map_of (ep_other e) m)"

definition endpoint_insert :: "endpoint \<Rightarrow> http_method \<Rightarrow> route_index \<Rightarrow> endpoint" where
  "endpoint_insert e m i =
     (case standard_slot m of
        Some slot \<Rightarrow> e\<lparr>ep_standard := (ep_standard e)[slot := Some i]\<rparr>
      | None \<Rightarrow> e\<lparr>ep_other := AList.update m i (ep_other e)\<rparr>)"

definition insert_any :: "endpoint \<Rightarrow> route_index \<Rightarrow> endpoint" where
  "insert_any e i = e\<lparr>ep_any := Some i\<rparr>"

definition alias_head_to_get :: "endpoint \<Rightarrow> endpoint" where
  "alias_head_to_get e =
     (if ep_standard e ! 5 = None then e\<lparr>ep_standard := (ep_standard e)[5 := ep_standard e ! 0]\<rparr>
      else e)"

definition endpoint_methods :: "endpoint \<Rightarrow> http_method list" where
  "endpoint_methods e =
     map snd (filter (\<lambda>(slot, _). ep_standard e ! slot \<noteq> None) (enumerate 0 STANDARD_METHODS))
     @ map fst (ep_other e)"

text \<open>Nine standard slots, and the extension methods outside them, once each.\<close>

definition wf_endpoint :: "endpoint \<Rightarrow> bool" where
  "wf_endpoint e \<longleftrightarrow>
     length (ep_standard e) = 9 \<and> distinct (map fst (ep_other e)) \<and>
     (\<forall>m \<in> set (map fst (ep_other e)). standard_slot m = None)"

lemma standard_slot_map: "standard_slot m = map_of (zip STANDARD_METHODS [0..<9]) m"
  by (simp add: standard_slot_def STANDARD_METHODS_def upt_rec)

lemma length_STANDARD_METHODS [simp]: "length STANDARD_METHODS = 9"
  by (simp add: STANDARD_METHODS_def)

lemma distinct_STANDARD_METHODS: "distinct STANDARD_METHODS"
  by (simp add: STANDARD_METHODS_def)

lemma standard_slot_iff: "standard_slot m = Some k \<longleftrightarrow> k < 9 \<and> STANDARD_METHODS ! k = m"
proof -
  have d: "distinct (map fst (zip STANDARD_METHODS [0..<9]))"
    by (simp add: distinct_STANDARD_METHODS)
  show ?thesis
    unfolding standard_slot_map map_of_eq_Some_iff [OF d] by (auto simp: in_set_zip)
qed

lemma standard_slot_None_iff: "standard_slot m = None \<longleftrightarrow> m \<notin> set STANDARD_METHODS"
  unfolding standard_slot_map by (simp add: map_of_zip_is_None)

lemma standard_slot_inject: "standard_slot m = Some k \<Longrightarrow> standard_slot n = Some k \<Longrightarrow> m = n"
  by (auto simp: standard_slot_iff)

text \<open>The contract the router and its builder use: a finite map from methods to routes.\<close>

locale method_table =
  fixes wf :: "'t \<Rightarrow> bool"
    and lookup :: "'t \<Rightarrow> http_method \<Rightarrow> 'r option"
    and ins :: "'t \<Rightarrow> http_method \<Rightarrow> 'r \<Rightarrow> 't"
    and keys :: "'t \<Rightarrow> http_method list"
  assumes wf_ins: "wf t \<Longrightarrow> wf (ins t m r)"
    and lookup_ins: "wf t \<Longrightarrow> lookup (ins t m r) n = (if n = m then Some r else lookup t n)"
    and keys_lookup: "wf t \<Longrightarrow> set (keys t) = {m. lookup t m \<noteq> None}"
    and distinct_keys: "wf t \<Longrightarrow> distinct (keys t)"
begin

lemma fold_ins:
  "wf t \<Longrightarrow> wf (foldl (\<lambda>t m. ins t m r) t ms) \<and>
    lookup (foldl (\<lambda>t m. ins t m r) t ms) n = (if n \<in> set ms then Some r else lookup t n)"
  by (induction ms arbitrary: t) (auto simp: wf_ins lookup_ins)

lemma keys_ins: "wf t \<Longrightarrow> set (keys (ins t m r)) = insert m (set (keys t))"
  by (auto simp: keys_lookup wf_ins lookup_ins)

lemma ins_overwrites: "wf t \<Longrightarrow> lookup (ins (ins t m r) m r') n = lookup (ins t m r') n"
  by (simp add: lookup_ins wf_ins)

end

lemma standard_methods_registered:
  "set (map snd (filter (\<lambda>(slot, _). ep_standard e ! slot \<noteq> None) (enumerate 0 STANDARD_METHODS))) =
    {m. \<exists>k. standard_slot m = Some k \<and> ep_standard e ! k \<noteq> None}"
  unfolding standard_slot_iff by (force simp: in_set_enumerate_eq image_iff)

lemma endpoint_methods_set:
  assumes "wf_endpoint e"
  shows "set (endpoint_methods e) = {m. endpoint_get e m \<noteq> None}"
proof -
  have "set (map fst (ep_other e)) = {m. standard_slot m = None \<and> map_of (ep_other e) m \<noteq> None}"
    using assms by (auto simp: wf_endpoint_def map_of_eq_None_iff)
  then show ?thesis
    unfolding endpoint_methods_def set_append standard_methods_registered
    by (auto simp: endpoint_get_def split: option.splits)
qed

lemma endpoint_methods_distinct:
  assumes "wf_endpoint e"
  shows "distinct (endpoint_methods e)"
proof -
  have "distinct (map snd (filter (\<lambda>(slot, _). ep_standard e ! slot \<noteq> None) (enumerate 0 STANDARD_METHODS)))"
    by (simp add: distinct_map_filter distinct_STANDARD_METHODS)
  moreover have "set (map snd (filter (\<lambda>(slot, _). ep_standard e ! slot \<noteq> None) (enumerate 0 STANDARD_METHODS)))
      \<inter> set (map fst (ep_other e)) = {}"
    unfolding standard_methods_registered using assms by (auto simp: wf_endpoint_def)
  ultimately show ?thesis
    using assms by (simp add: endpoint_methods_def wf_endpoint_def del: set_map set_filter)
qed

lemma wf_endpoint_new [simp]: "wf_endpoint (endpoint_new p)"
  by (simp add: wf_endpoint_def endpoint_new_def)

lemma wf_endpoint_insert [wf_intros]:
  assumes "wf_endpoint e"
  shows "wf_endpoint (endpoint_insert e m i)"
proof (cases "standard_slot m")
  case None
  have "set (map fst (AList.update m i (ep_other e))) = {m} \<union> set (map fst (ep_other e))"
    by (simp add: dom_update)
  with None assms show ?thesis
    by (simp add: wf_endpoint_def endpoint_insert_def distinct_update del: set_map)
next
  case (Some k)
  with assms show ?thesis by (simp add: wf_endpoint_def endpoint_insert_def)
qed

lemma endpoint_get_insert:
  assumes "wf_endpoint e"
  shows "endpoint_get (endpoint_insert e m i) n = (if n = m then Some i else endpoint_get e n)"
proof (cases "standard_slot m")
  case None
  then show ?thesis
    by (cases "standard_slot n")
      (auto simp: endpoint_get_def endpoint_insert_def update_conv')
next
  case (Some k)
  then have k: "k < length (ep_standard e)"
    using assms by (simp add: wf_endpoint_def standard_slot_iff)
  show ?thesis
  proof (cases "n = m")
    case True
    with Some k show ?thesis by (simp add: endpoint_get_def endpoint_insert_def)
  next
    case False
    then have "standard_slot n \<noteq> Some k" using Some standard_slot_inject by blast
    with Some False show ?thesis
      by (cases "standard_slot n") (simp_all add: endpoint_get_def endpoint_insert_def)
  qed
qed

interpretation ep: method_table wf_endpoint endpoint_get endpoint_insert endpoint_methods
  by unfold_locales
    (erule wf_endpoint_insert endpoint_get_insert endpoint_methods_set endpoint_methods_distinct)+

lemma wf_endpoint_any [wf_intros]: "wf_endpoint e \<Longrightarrow> wf_endpoint (insert_any e i)"
  by (simp add: wf_endpoint_def insert_any_def)

lemma wf_endpoint_with_path [wf_intros]: "wf_endpoint e \<Longrightarrow> wf_endpoint (with_path e p)"
  by (simp add: wf_endpoint_def with_path_def)

lemma wf_endpoint_alias [wf_intros]: "wf_endpoint e \<Longrightarrow> wf_endpoint (alias_head_to_get e)"
  by (simp add: wf_endpoint_def alias_head_to_get_def)

lemma endpoint_get_new [simp]: "endpoint_get (endpoint_new p) m = None"
  by (auto simp: endpoint_get_def endpoint_new_def standard_slot_iff split: option.splits)

lemma endpoint_simps [simp]:
  "ep_any (endpoint_new p) = None" "ep_path (endpoint_new p) = p"
  "endpoint_get (insert_any e i) m = endpoint_get e m" "ep_any (insert_any e i) = Some i"
  "ep_path (insert_any e i) = ep_path e"
  "endpoint_get (with_path e p) m = endpoint_get e m" "ep_any (with_path e p) = ep_any e"
  "ep_path (with_path e p) = p"
  "ep_any (endpoint_insert e m i) = ep_any e" "ep_path (endpoint_insert e m i) = ep_path e"
  "ep_any (alias_head_to_get e) = ep_any e" "ep_path (alias_head_to_get e) = ep_path e"
  by (simp_all add: endpoint_get_def endpoint_new_def insert_any_def with_path_def
      endpoint_insert_def alias_head_to_get_def split: option.splits)

lemma endpoint_get_alias:
  assumes "wf_endpoint e"
  shows "endpoint_get (alias_head_to_get e) m =
    (if m = ''HEAD'' \<and> endpoint_get e ''HEAD'' = None then endpoint_get e ''GET'' else endpoint_get e m)"
proof -
  have s: "standard_slot ''HEAD'' = Some 5" "standard_slot ''GET'' = Some 0"
    by (simp_all add: standard_slot_def)
  have l: "5 < length (ep_standard e)" using assms by (simp add: wf_endpoint_def)
  show ?thesis
  proof (cases "m = ''HEAD''")
    case True
    with s l show ?thesis by (simp only: endpoint_get_def alias_head_to_get_def) simp
  next
    case False
    then have "standard_slot m \<noteq> Some 5" using s standard_slot_inject by blast
    with False show ?thesis
      by (cases "standard_slot m") (simp_all add: endpoint_get_def alias_head_to_get_def nth_list_update)
  qed
qed

end
