(* ===== verification/Http_Types.thy ===== *)
theory Http_Types
  imports Endpoints
begin

text \<open>
  What the router's components exchange: header maps, requests, responses, the request
  context, and the pending response headers of
  \<^verbatim>\<open>crates/topcoat-router/src/response/headers.rs\<close>.  The types of the \<^verbatim>\<open>http\<close> crate are modelled
  as far as the sources use them: a URI is its four parts, header names are lower case, a
  header map is the list of its entries.  A handler's panic is the outcome \<open>Panic\<close>.
\<close>

subsection \<open>Panics\<close>

datatype 'a outcome = Done 'a | Panic

fun bind_outcome :: "'a outcome \<Rightarrow> ('a \<Rightarrow> 'b outcome) \<Rightarrow> 'b outcome" where
  "bind_outcome (Done x) f = f x"
| "bind_outcome Panic f = Panic"

lemma bind_outcome_assoc: "bind_outcome (bind_outcome m f) g = bind_outcome m (\<lambda>x. bind_outcome (f x) g)"
  by (cases m) auto

lemma bind_outcome_Done: "bind_outcome m f = Done y \<longleftrightarrow> (\<exists>x. m = Done x \<and> f x = Done y)"
  by (cases m) auto

subsection \<open>Header maps\<close>

type_synonym header_map = "(str \<times> str) list"

definition hm_get_all :: "header_map \<Rightarrow> str \<Rightarrow> str list" where
  "hm_get_all h n = map snd (filter (\<lambda>e. fst e = n) h)"

definition hm_get :: "header_map \<Rightarrow> str \<Rightarrow> str option" where
  "hm_get h n = map_of h n"

definition hm_append :: "header_map \<Rightarrow> str \<Rightarrow> str \<Rightarrow> header_map" where
  "hm_append h n v = h @ [(n, v)]"

definition hm_insert :: "header_map \<Rightarrow> str \<Rightarrow> str \<Rightarrow> header_map" where
  "hm_insert h n v = filter (\<lambda>e. fst e \<noteq> n) h @ [(n, v)]"

definition hm_names :: "header_map \<Rightarrow> str list" where
  "hm_names h = rev (remdups (rev (map fst h)))"

text \<open>Iterating by value: a name on its first value, none on the values that follow.\<close>

fun name_first :: "str \<Rightarrow> str list \<Rightarrow> (str option \<times> str) list" where
  "name_first n [] = []"
| "name_first n (v # vs) = (Some n, v) # map (Pair None) vs"

definition hm_into_iter :: "header_map \<Rightarrow> (str option \<times> str) list" where
  "hm_into_iter h = concat (map (\<lambda>n. name_first n (hm_get_all h n)) (hm_names h))"

lemma hm_get_all_simps [simp]:
  "hm_get_all [] n = []"
  "hm_get_all (h @ g) n = hm_get_all h n @ hm_get_all g n"
  "hm_get_all (hm_append h m v) n = hm_get_all h n @ (if m = n then [v] else [])"
  "hm_get_all (hm_insert h m v) n = (if m = n then [v] else hm_get_all h n)"
  by (auto simp: hm_get_all_def hm_append_def hm_insert_def filter_empty_conv intro!: arg_cong [where f = "map snd"] filter_cong)

lemma hm_get_eq: "hm_get h n = (case hm_get_all h n of [] \<Rightarrow> None | v # _ \<Rightarrow> Some v)"
  by (induction h) (auto simp: hm_get_def hm_get_all_def)

lemma set_hm_names [simp]: "set (hm_names h) = fst ` set h"
  by (simp add: hm_names_def)

lemma distinct_hm_names: "distinct (hm_names h)"
  by (simp add: hm_names_def)

lemma hm_get_all_empty_iff: "hm_get_all h n = [] \<longleftrightarrow> n \<notin> fst ` set h"
  by (auto simp: hm_get_all_def filter_empty_conv)

subsection \<open>The pending headers of a request\<close>

text \<open>The loop of \<^verbatim>\<open>append_all\<close> over the entries taken by value, with \<^verbatim>\<open>current\<close> the last name
  seen; \<open>None\<close> is the \<^verbatim>\<open>expect\<close> failing.\<close>

fun append_loop :: "header_map \<Rightarrow> str option \<Rightarrow> (str option \<times> str) list \<Rightarrow> header_map option" where
  "append_loop into current [] = Some into"
| "append_loop into current ((name, v) # es) =
     (let current = (case name of Some n \<Rightarrow> Some n | None \<Rightarrow> current)
      in (case current of
            None \<Rightarrow> None
          | Some n \<Rightarrow> append_loop (hm_append into n v) current es))"

definition append_all :: "header_map \<Rightarrow> header_map \<Rightarrow> header_map option" where
  "append_all into fr = append_loop into None (hm_into_iter fr)"

record response_headers =
  rh_pending :: header_map

definition rh_new :: response_headers where
  "rh_new = \<lparr>rh_pending = []\<rparr>"

definition rh_append :: "response_headers \<Rightarrow> str \<Rightarrow> str \<Rightarrow> response_headers" where
  "rh_append r n v = r\<lparr>rh_pending := hm_append (rh_pending r) n v\<rparr>"

definition rh_extend :: "response_headers \<Rightarrow> header_map \<Rightarrow> response_headers option" where
  "rh_extend r h = map_option (\<lambda>p. r\<lparr>rh_pending := p\<rparr>) (append_all (rh_pending r) h)"

definition rh_apply :: "response_headers \<Rightarrow> header_map \<Rightarrow> (response_headers \<times> header_map) option" where
  "rh_apply r h = map_option (\<lambda>h'. (r\<lparr>rh_pending := []\<rparr>, h')) (append_all h (rh_pending r))"

lemma append_loop_nameless: "append_loop into (Some n) (map (Pair None) vs @ es) =
    append_loop (into @ map (Pair n) vs) (Some n) es"
  by (induction vs arbitrary: into) (auto simp: hm_append_def)

lemma append_loop_group:
  "vs \<noteq> [] \<Longrightarrow> append_loop into cur (name_first n vs @ es) = append_loop (into @ map (Pair n) vs) (Some n) es"
  by (cases vs) (auto simp: append_loop_nameless hm_append_def)

lemma append_loop_groups:
  "(\<forall>n \<in> set ns. g n \<noteq> []) \<Longrightarrow>
   append_loop into cur (concat (map (\<lambda>n. name_first n (g n)) ns)) =
     Some (into @ concat (map (\<lambda>n. map (Pair n) (g n)) ns))"
  by (induction ns arbitrary: into cur) (auto simp: append_loop_group)

lemma append_all_eq:
  "append_all into fr = Some (into @ concat (map (\<lambda>n. map (Pair n) (hm_get_all fr n)) (hm_names fr)))"
  unfolding append_all_def hm_into_iter_def
  by (rule append_loop_groups) (simp add: hm_get_all_empty_iff)

lemma hm_get_all_grouped:
  "distinct ns \<Longrightarrow> hm_get_all (concat (map (\<lambda>n. map (Pair n) (g n)) ns)) m = (if m \<in> set ns then g m else [])"
proof (induction ns)
  case (Cons n ns)
  have "hm_get_all (map (Pair n) vs) m = (if n = m then vs else [])" for vs
    by (induction vs) (auto simp: hm_get_all_def)
  with Cons show ?case by auto
qed simp

lemma append_all_get_all:
  "\<exists>h. append_all into fr = Some h \<and> (\<forall>n. hm_get_all h n = hm_get_all into n @ hm_get_all fr n)"
  by (auto simp: append_all_eq hm_get_all_grouped distinct_hm_names)
    (metis hm_get_all_empty_iff list.set_map)

text \<open>Applying the pending headers appends, under every name, the queued values after the
  values the response already carries, in the order they were queued, never panics, and
  leaves the slot empty.\<close>

theorem rh_apply_appends:
  "\<exists>h'. rh_apply r h = Some (rh_new, h') \<and>
     (\<forall>n. hm_get_all h' n = hm_get_all h n @ hm_get_all (rh_pending r) n)"
  using append_all_get_all [of h "rh_pending r"] by (auto simp: rh_apply_def rh_new_def)

subsection \<open>Requests, responses and the request context\<close>

record uri =
  uri_scheme :: "str option"
  uri_authority :: "str option"
  uri_path :: str
  uri_query :: "str option"

datatype ip_addr = V4 "32 word" | V6 "128 word"

text \<open>Of the extensions of a request only \<^verbatim>\<open>RemoteAddr\<close> is read: the address of the connection.\<close>

record parts =
  p_method :: http_method
  p_uri :: uri
  p_headers :: header_map
  p_remote :: "ip_addr option"

record 'b request =
  rq_parts :: parts
  rq_body :: 'b

record 'b response =
  rs_status :: nat
  rs_headers :: header_map
  rs_body :: 'b

definition response_new :: "'b \<Rightarrow> 'b response" where
  "response_new b = \<lparr>rs_status = 200, rs_headers = [], rs_body = b\<rparr>"

definition path_and_query :: "uri \<Rightarrow> str" where
  "path_and_query u = uri_path u @ (case uri_query u of None \<Rightarrow> [] | Some q \<Rightarrow> ''?'' @ q)"

end
