(* ===== verification/Http_Errors.thy ===== *)
theory Http_Errors
  imports Http_Types Path_Params
begin

text \<open>
  Errors and the responses they become: \<^verbatim>\<open>crates/topcoat-router/src/error.rs\<close> and
  \<^verbatim>\<open>error/*.rs\<close>.  The dynamically typed \<^verbatim>\<open>Error\<close> is a datatype with one constructor per
  framework error, a rewrite, and \<open>OtherError\<close> for every other type; \<^verbatim>\<open>downcast\<close> is matching.
  The percent encoding of redirect targets (\<^verbatim>\<open>percent_encoding\<close>) is the argument \<open>enc\<close>.  Bodies
  have type \<open>'b\<close> and the values of the request context type \<open>'c\<close>; \<open>text\<close> makes a body of a
  string and \<open>empty\<close> is \<^verbatim>\<open>Body::empty\<close>, both from the \<^verbatim>\<open>body_ops\<close> record.
\<close>

record 'b body_ops =
  body_text :: "str \<Rightarrow> 'b"
  body_empty :: 'b

type_synonym 'c context_values = "nat \<rightharpoonup> 'c"

record ('b, 'c) rewrite =
  rw_path :: str
  rw_query :: "str option"
  rw_body :: 'b
  rw_method :: "http_method option"
  rw_headers :: "header_map option"
  rw_context :: "'c context_values"

datatype ('b, 'c) error =
    ForbiddenError
  | BadRequestError "str option" str
  | ContentTooLargeError
  | InternalServerError
  | NotFoundError
  | MethodNotAllowedError str
  | RedirectError nat str
  | SeeOther str
  | UnauthorizedError
  | ServiceUnavailableError nat
  | TooManyRequestsError nat
  | RewriteError "('b, 'c) rewrite"
  | RewriteLoopError str
  | OtherError str

subsection \<open>Constructors\<close>

definition not_found :: "('b, 'c) error" where "not_found = NotFoundError"
definition forbidden :: "('b, 'c) error" where "forbidden = ForbiddenError"
definition unauthorized :: "('b, 'c) error" where "unauthorized = UnauthorizedError"
definition content_too_large :: "('b, 'c) error" where "content_too_large = ContentTooLargeError"

definition bad_request :: "str \<Rightarrow> ('b, 'c) error" where
  "bad_request description = BadRequestError None description"

definition bad_request_at :: "str \<Rightarrow> str \<Rightarrow> ('b, 'c) error" where
  "bad_request_at path description = BadRequestError (Some path) description"

definition service_unavailable :: "nat \<Rightarrow> ('b, 'c) error" where
  "service_unavailable secs = ServiceUnavailableError secs"

definition too_many_requests :: "nat \<Rightarrow> ('b, 'c) error" where
  "too_many_requests secs = TooManyRequestsError secs"

definition internal_server_error :: "('b, 'c) error \<Rightarrow> ('b, 'c) error" where
  "internal_server_error inner = InternalServerError"

definition method_not_allowed :: "http_method list \<Rightarrow> ('b, 'c) error" where
  "method_not_allowed ms = MethodNotAllowedError (join_with '', '' ms)"

text \<open>What \<^verbatim>\<open>http::HeaderValue\<close> accepts: visible characters, spaces, tabs and bytes above 127.\<close>

definition header_value_ok :: "str \<Rightarrow> bool" where
  "header_value_ok s \<longleftrightarrow>
     list_all (\<lambda>c. let n = (of_char c :: nat) in (32 \<le> n \<and> n \<noteq> 127) \<or> n = 9) s"

definition redirect_target :: "(str \<Rightarrow> str) \<Rightarrow> str \<Rightarrow> str outcome" where
  "redirect_target enc uri = (let u = enc uri in if header_value_ok u then Done u else Panic)"

definition redirect :: "(str \<Rightarrow> str) \<Rightarrow> str \<Rightarrow> ('b, 'c) error outcome" where
  "redirect enc uri = bind_outcome (redirect_target enc uri) (\<lambda>l. Done (RedirectError 307 l))"

definition redirect_permanent :: "(str \<Rightarrow> str) \<Rightarrow> str \<Rightarrow> ('b, 'c) error outcome" where
  "redirect_permanent enc uri = bind_outcome (redirect_target enc uri) (\<lambda>l. Done (RedirectError 308 l))"

definition see_other :: "(str \<Rightarrow> str) \<Rightarrow> str \<Rightarrow> ('b, 'c) error outcome" where
  "see_other enc uri = bind_outcome (redirect_target enc uri) (\<lambda>l. Done (SeeOther l))"

fun redirect_location :: "('b, 'c) error \<Rightarrow> (str, ('b, 'c) error) result" where
  "redirect_location (RedirectError s l) = Ok l"
| "redirect_location (SeeOther l) = Ok l"
| "redirect_location e = Err e"

definition ok_or :: "('b, 'c) error \<Rightarrow> 'a option \<Rightarrow> ('a, ('b, 'c) error) result" where
  "ok_or e v = (case v of Some x \<Rightarrow> Ok x | None \<Rightarrow> Err e)"

definition result_or :: "('b, 'c) error \<Rightarrow> ('a, 'e) result \<Rightarrow> ('a, ('b, 'c) error) result" where
  "result_or e v = (case v of Inr x \<Rightarrow> Ok x | Inl _ \<Rightarrow> Err e)"

lemma ok_or_result: "result_or e v = ok_or e (result_ok v)"
  by (cases v) (simp_all add: result_or_def ok_or_def)

subsection \<open>Responses\<close>

fun decimal :: "nat \<Rightarrow> str" where
  "decimal n = (if n < 10 then [char_of (48 + n)] else decimal (n div 10) @ [char_of (48 + n mod 10)])"

declare decimal.simps [simp del]

definition with_header :: "str \<Rightarrow> str \<Rightarrow> 'b response \<Rightarrow> 'b response" where
  "with_header n v r = r\<lparr>rs_headers := hm_insert (rs_headers r) n v\<rparr>"

definition content_response :: "str \<Rightarrow> 'b \<Rightarrow> 'b response" where
  "content_response content_type b = with_header ''content-type'' content_type (response_new b)"

definition text_response :: "'b body_ops \<Rightarrow> nat \<Rightarrow> str \<Rightarrow> 'b response" where
  "text_response ops status s =
     (content_response ''text/plain; charset=utf-8'' (body_text ops s))\<lparr>rs_status := status\<rparr>"

definition located_response :: "'b body_ops \<Rightarrow> nat \<Rightarrow> str \<Rightarrow> 'b response" where
  "located_response ops status l =
     with_header ''location'' l ((response_new (body_empty ops))\<lparr>rs_status := status\<rparr>)"

definition retry_response :: "'b body_ops \<Rightarrow> nat \<Rightarrow> str \<Rightarrow> nat \<Rightarrow> 'b response" where
  "retry_response ops status s secs =
     (let r = text_response ops status s
      in if header_value_ok (decimal secs) then with_header ''retry-after'' (decimal secs) r else r)"

definition method_not_allowed_response :: "'b body_ops \<Rightarrow> str \<Rightarrow> 'b response" where
  "method_not_allowed_response ops allow =
     (let r = (response_new (body_empty ops))\<lparr>rs_status := 405\<rparr>
      in if header_value_ok allow then with_header ''allow'' allow r else r)"

definition bad_request_text :: "str option \<Rightarrow> str \<Rightarrow> str" where
  "bad_request_text path description =
     (case path of
        Some p \<Rightarrow> ''bad request: '' @ description @ '' (at `'' @ p @ ''`)''
      | None \<Rightarrow> ''bad request: '' @ description)"

definition internal_server_response :: "'b body_ops \<Rightarrow> 'b response" where
  "internal_server_response ops =
     (response_new (body_text ops ''internal server error''))\<lparr>rs_status := 500\<rparr>"

text \<open>The cascade of \<^verbatim>\<open>try_downcast!\<close>; none of the framework's responses fails to build.\<close>

fun error_into_response :: "'b body_ops \<Rightarrow> ('b, 'c) error \<Rightarrow> 'b response" where
  "error_into_response ops ForbiddenError = text_response ops 403 ''forbidden''"
| "error_into_response ops (BadRequestError path d) = text_response ops 400 (bad_request_text path d)"
| "error_into_response ops ContentTooLargeError = text_response ops 413 ''content too large''"
| "error_into_response ops InternalServerError = text_response ops 500 ''internal server error''"
| "error_into_response ops NotFoundError = text_response ops 404 ''not found''"
| "error_into_response ops (MethodNotAllowedError allow) = method_not_allowed_response ops allow"
| "error_into_response ops (RedirectError status l) = located_response ops status l"
| "error_into_response ops (SeeOther l) = located_response ops 303 l"
| "error_into_response ops UnauthorizedError = text_response ops 401 ''unauthorized''"
| "error_into_response ops (ServiceUnavailableError secs) = retry_response ops 503 ''service unavailable'' secs"
| "error_into_response ops (TooManyRequestsError secs) = retry_response ops 429 ''too many requests'' secs"
| "error_into_response ops (RewriteError rw) = text_response ops 500 ''internal server error''"
| "error_into_response ops (RewriteLoopError m) = text_response ops 500 ''internal server error''"
| "error_into_response ops (OtherError m) = text_response ops 500 ''internal server error''"

definition respond :: "'b body_ops \<Rightarrow> ('b response, ('b, 'c) error) result \<Rightarrow> 'b response" where
  "respond ops r = (case r of Inr resp \<Rightarrow> resp | Inl e \<Rightarrow> error_into_response ops e)"

lemma decimal_digits: "list_all is_ascii_digit (decimal n)"
proof (induction n rule: decimal.induct)
  case (1 n)
  have digit: "is_ascii_digit (char_of (48 + k))" if "k < 10" for k :: nat
    using that by (simp add: is_ascii_digit_def)
  show ?case
    using 1 digit [of n] digit [of "n mod 10"] by (subst decimal.simps) auto
qed

lemma decimal_header: "header_value_ok (decimal n)"
  using decimal_digits [of n]
  by (auto simp: header_value_ok_def is_ascii_digit_def list_all_iff Let_def)

lemma rs_status_simps [simp]:
  "rs_status (with_header n v r) = rs_status r" "rs_status (text_response ops s t) = s"
  "rs_status (located_response ops s l) = s" "rs_status (retry_response ops s t k) = s"
  "rs_status (method_not_allowed_response ops a) = 405"
  by (simp_all add: with_header_def text_response_def located_response_def retry_response_def
      method_not_allowed_response_def Let_def)

lemma hm_get_insert [simp]: "hm_get (hm_insert h n v) m = (if m = n then Some v else hm_get h m)"
  by (auto simp: hm_get_eq)

lemma rs_headers_with [simp]: "rs_headers (with_header n v r) = hm_insert (rs_headers r) n v"
  by (simp add: with_header_def)

end
