(* ===== verification/Identity_Hash.thy ===== *)
theory Identity_Hash
  imports Prelude "HOL-Library.Word"
begin

unbundle bit_operations_syntax

text \<open>
  Stable identities: \<^verbatim>\<open>fnv1a.rs\<close>, \<^verbatim>\<open>identity.rs\<close>, \<^verbatim>\<open>identity/key.rs\<close> and
  \<^verbatim>\<open>identity/site.rs\<close> of \<^verbatim>\<open>crates/topcoat-core/src\<close>.  Hash states are machine words of their
  width, bytes \<open>8 word\<close>s.  A key writes itself into the running hash as the source does; the
  lemmas show that this is hashing one byte string, and that the byte strings of different
  keys never run into each other.
\<close>

type_synonym byte = "8 word"

subsection \<open>FNV-1a\<close>

definition fnv64_offset :: "64 word" where "fnv64_offset = 0xcbf29ce484222325"
definition fnv64_prime :: "64 word" where "fnv64_prime = 0x00000100000001b3"
definition fnv128_offset :: "128 word" where "fnv128_offset = 0x6c62272e07bb014262b821756295c58d"
definition fnv128_prime :: "128 word" where "fnv128_prime = 0x0000000001000000000000000000013b"

definition fnv64_step :: "64 word \<Rightarrow> byte \<Rightarrow> 64 word" where
  "fnv64_step h b = (h XOR ucast b) * fnv64_prime"

definition fnv64_write :: "64 word \<Rightarrow> byte list \<Rightarrow> 64 word" where
  "fnv64_write h bytes = foldl fnv64_step h bytes"

definition fnv128_step :: "128 word \<Rightarrow> byte \<Rightarrow> 128 word" where
  "fnv128_step h b = (h XOR ucast b) * fnv128_prime"

definition fnv128_write :: "128 word \<Rightarrow> byte list \<Rightarrow> 128 word" where
  "fnv128_write h bytes = foldl fnv128_step h bytes"

lemma fnv64_write_append: "fnv64_write h (a @ b) = fnv64_write (fnv64_write h a) b"
  by (simp add: fnv64_write_def)

lemma fnv128_write_append: "fnv128_write h (a @ b) = fnv128_write (fnv128_write h a) b"
  by (simp add: fnv128_write_def)

lemma fnv128_write_Nil [simp]: "fnv128_write h [] = h"
  by (simp add: fnv128_write_def)

text \<open>A step is injective in the state and in the byte, since the prime is odd.\<close>

definition fnv64_inverse :: "64 word" where "fnv64_inverse = 0xce965057aff6957b"
definition fnv128_inverse :: "128 word" where "fnv128_inverse = 0xb1041ad2562ff2ff2ff2ff2ff2ff2ff3"

lemma fnv64_inverse: "fnv64_prime * fnv64_inverse = 1"
  by (simp add: fnv64_prime_def fnv64_inverse_def)

lemma fnv128_inverse: "fnv128_prime * fnv128_inverse = 1"
  by (simp add: fnv128_prime_def fnv128_inverse_def)

lemma fnv128_step_inject:
  "fnv128_step h b = fnv128_step h' b' \<longleftrightarrow> h XOR ucast b = h' XOR ucast b'"
proof
  assume "fnv128_step h b = fnv128_step h' b'"
  then have "(h XOR ucast b) * (fnv128_prime * fnv128_inverse) = (h' XOR ucast b') * (fnv128_prime * fnv128_inverse)"
    unfolding mult.assoc [symmetric] by (simp add: fnv128_step_def)
  then show "h XOR ucast b = h' XOR ucast b'" by (simp add: fnv128_inverse)
qed (simp add: fnv128_step_def)

lemma fnv64_step_inject:
  "fnv64_step h b = fnv64_step h' b' \<longleftrightarrow> h XOR ucast b = h' XOR ucast b'"
proof
  assume "fnv64_step h b = fnv64_step h' b'"
  then have "(h XOR ucast b) * (fnv64_prime * fnv64_inverse) = (h' XOR ucast b') * (fnv64_prime * fnv64_inverse)"
    unfolding mult.assoc [symmetric] by (simp add: fnv64_step_def)
  then show "h XOR ucast b = h' XOR ucast b'" by (simp add: fnv64_inverse)
qed (simp add: fnv64_step_def)

lemma xor_cancel_left: "a XOR b = a XOR c \<longleftrightarrow> b = c" for a :: "'a::len word"
  by (metis xor.assoc xor.left_neutral xor_self_eq)

lemma xor_cancel_right: "b XOR a = c XOR a \<longleftrightarrow> b = c" for a :: "'a::len word"
  by (metis xor_cancel_left xor.commute)

lemma ucast_byte_inject:
  assumes "(ucast (a :: byte) :: 'a::len word) = ucast b" "8 \<le> LENGTH('a)"
  shows "a = b"
proof (rule bit_word_eqI)
  fix n
  assume n: "n < LENGTH(8)"
  have "bit (ucast a :: 'a word) n = bit (ucast b :: 'a word) n" by (simp add: assms(1))
  with n assms(2) show "bit a n = bit b n" by (simp add: bit_simps)
qed

lemma fnv128_write_inject: "fnv128_write h s = fnv128_write h' s \<longleftrightarrow> h = h'"
proof (induction s arbitrary: h h')
  case (Cons b s)
  then show ?case
    by (simp add: fnv128_write_def fnv128_step_inject xor_cancel_right)
qed simp

text \<open>Byte strings that differ in one byte only never collide, whatever surrounds it, at
  either width.\<close>

theorem fnv_one_byte:
  "(fnv128_write h (p @ [a] @ s) = fnv128_write h (p @ [b] @ s) \<longleftrightarrow> a = b) \<and>
   (fnv64_write g (p @ [a] @ s) = fnv64_write g (p @ [b] @ s) \<longleftrightarrow> a = b)"
proof -
  have inj: "fnv64_write g s = fnv64_write g' s \<longleftrightarrow> g = g'" for g g' s
  proof (induction s arbitrary: g g')
    case (Cons b s)
    then show ?case by (simp add: fnv64_write_def fnv64_step_inject xor_cancel_right)
  qed (simp add: fnv64_write_def)
  have "fnv128_write h [a] = fnv128_write h [b] \<longleftrightarrow> a = b" for h
    using ucast_byte_inject [of a b, where 'a = 128]
    by (auto simp: fnv128_write_def fnv128_step_inject xor_cancel_left)
  moreover have "fnv64_write g [a] = fnv64_write g [b] \<longleftrightarrow> a = b" for g
    using ucast_byte_inject [of a b, where 'a = 64]
    by (auto simp: fnv64_write_def fnv64_step_inject xor_cancel_left)
  ultimately show ?thesis
    unfolding fnv128_write_append fnv64_write_append fnv128_write_inject inj by blast
qed

subsection \<open>Keys\<close>

definition le_bytes :: "nat \<Rightarrow> 'a::len word \<Rightarrow> byte list" where
  "le_bytes n w = map (\<lambda>i. ucast (drop_bit (8 * i) w)) [0..<n]"

definition TAG_UNSIGNED :: byte where "TAG_UNSIGNED = 117"
definition TAG_NEGATIVE :: byte where "TAG_NEGATIVE = 105"
definition TAG_BOOL :: byte where "TAG_BOOL = 98"
definition TAG_CHAR :: byte where "TAG_CHAR = 99"
definition TAG_STR :: byte where "TAG_STR = 115"
definition TAG_BYTES :: byte where "TAG_BYTES = 120"
definition TAG_TUPLE :: byte where "TAG_TUPLE = 40"
definition TAG_LOCATION :: byte where "TAG_LOCATION = 108"
definition STR_END :: byte where "STR_END = 255"

lemmas tag_defs = TAG_UNSIGNED_def TAG_NEGATIVE_def TAG_BOOL_def TAG_CHAR_def TAG_STR_def
  TAG_BYTES_def TAG_TUPLE_def TAG_LOCATION_def

type_synonym key_hasher = "128 word"

definition write_u128 :: "key_hasher \<Rightarrow> 128 word \<Rightarrow> key_hasher" where
  "write_u128 h v = fnv128_write (fnv128_write h [TAG_UNSIGNED]) (le_bytes 16 v)"

definition write_i128 :: "key_hasher \<Rightarrow> 128 word \<Rightarrow> key_hasher" where
  "write_i128 h v =
     (if 0 \<le> sint v then write_u128 h v
      else fnv128_write (fnv128_write h [TAG_NEGATIVE]) (le_bytes 16 v))"

definition write_bool :: "key_hasher \<Rightarrow> bool \<Rightarrow> key_hasher" where
  "write_bool h v = fnv128_write h [TAG_BOOL, if v then 1 else 0]"

definition write_char :: "key_hasher \<Rightarrow> 32 word \<Rightarrow> key_hasher" where
  "write_char h v = fnv128_write (fnv128_write h [TAG_CHAR]) (le_bytes 4 v)"

definition write_str :: "key_hasher \<Rightarrow> byte list \<Rightarrow> key_hasher" where
  "write_str h v = fnv128_write (fnv128_write (fnv128_write h [TAG_STR]) v) [STR_END]"

definition write_bytes :: "key_hasher \<Rightarrow> byte list \<Rightarrow> key_hasher" where
  "write_bytes h v =
     fnv128_write (fnv128_write (fnv128_write h [TAG_BYTES]) (le_bytes 8 (of_nat (length v) :: 64 word))) v"

definition write_tuple :: "key_hasher \<Rightarrow> nat \<Rightarrow> key_hasher" where
  "write_tuple h n = fnv128_write h [TAG_TUPLE, of_nat n]"

text \<open>The keys that implement \<^verbatim>\<open>IdentityKey\<close>; a signed key holds its two's complement.\<close>

datatype identity_key =
    KUnsigned "128 word"
  | KSigned "128 word"
  | KBool bool
  | KChar "32 word"
  | KStr "byte list"
  | KBytes "byte list"
  | KTuple "identity_key list"
  | KLocation "byte list" "32 word" "32 word"

fun write_key :: "identity_key \<Rightarrow> key_hasher \<Rightarrow> key_hasher"
  and write_keys :: "identity_key list \<Rightarrow> key_hasher \<Rightarrow> key_hasher" where
  "write_key (KUnsigned v) h = write_u128 h v"
| "write_key (KSigned v) h = write_i128 h v"
| "write_key (KBool v) h = write_bool h v"
| "write_key (KChar v) h = write_char h v"
| "write_key (KStr v) h = write_str h v"
| "write_key (KBytes v) h = write_bytes h v"
| "write_key (KTuple ks) h = write_keys ks (write_tuple h (length ks))"
| "write_key (KLocation file line column) h =
     (let h = write_tuple (fnv128_write h [TAG_LOCATION]) 3;
          h = write_str h file;
          h = write_u128 h (ucast line)
      in write_u128 h (ucast column))"
| "write_keys [] h = h"
| "write_keys (k # ks) h = write_keys ks (write_key k h)"

subsection \<open>The bytes of a key\<close>

definition u128_bytes :: "128 word \<Rightarrow> byte list" where
  "u128_bytes v = TAG_UNSIGNED # le_bytes 16 v"

definition str_bytes :: "byte list \<Rightarrow> byte list" where
  "str_bytes v = TAG_STR # v @ [STR_END]"

fun key_bytes :: "identity_key \<Rightarrow> byte list"
  and keys_bytes :: "identity_key list \<Rightarrow> byte list" where
  "key_bytes (KUnsigned v) = u128_bytes v"
| "key_bytes (KSigned v) = (if 0 \<le> sint v then u128_bytes v else TAG_NEGATIVE # le_bytes 16 v)"
| "key_bytes (KBool v) = [TAG_BOOL, if v then 1 else 0]"
| "key_bytes (KChar v) = TAG_CHAR # le_bytes 4 v"
| "key_bytes (KStr v) = str_bytes v"
| "key_bytes (KBytes v) = TAG_BYTES # le_bytes 8 (of_nat (length v) :: 64 word) @ v"
| "key_bytes (KTuple ks) = TAG_TUPLE # of_nat (length ks) # keys_bytes ks"
| "key_bytes (KLocation file line column) =
     TAG_LOCATION # TAG_TUPLE # 3 # str_bytes file @ u128_bytes (ucast line) @ u128_bytes (ucast column)"
| "keys_bytes [] = []"
| "keys_bytes (k # ks) = key_bytes k @ keys_bytes ks"

lemma write_u128_bytes: "write_u128 h v = fnv128_write h (u128_bytes v)"
  by (simp add: write_u128_def u128_bytes_def fnv128_write_append [symmetric])

lemma write_str_bytes: "write_str h v = fnv128_write h (str_bytes v)"
  by (simp add: write_str_def str_bytes_def fnv128_write_append [symmetric])

lemma write_key_bytes:
  "write_key k h = fnv128_write h (key_bytes k)"
  "write_keys ks h = fnv128_write h (keys_bytes ks)"
proof (induction k h and ks h rule: write_key_write_keys.induct)
  case (7 ks h)
  then show ?case
    by (simp add: write_tuple_def fnv128_write_append [symmetric])
next
  case (8 f l c h)
  then show ?case
    by (simp add: write_tuple_def write_u128_bytes write_str_bytes fnv128_write_append [symmetric])
qed (simp_all add: write_u128_bytes write_str_bytes write_i128_def write_bool_def write_char_def
    write_bytes_def fnv128_write_append [symmetric])

subsection \<open>Keys never run into each other\<close>

text \<open>An encoding whose end can be told from its bytes: two encodings that start two byte
  strings in the same way are of the same value.\<close>

locale self_delimiting =
  fixes valid :: "'a \<Rightarrow> bool"
    and enc :: "'a \<Rightarrow> 'b list"
    and norm :: "'a \<Rightarrow> 'c"
  assumes delimits: "valid a \<Longrightarrow> valid b \<Longrightarrow> enc a @ x = enc b @ y \<Longrightarrow> norm a = norm b \<and> x = y"
begin

lemma encoding_inject: "valid a \<Longrightarrow> valid b \<Longrightarrow> enc a = enc b \<Longrightarrow> norm a = norm b"
  using delimits [of a b "[]" "[]"] by simp

lemma sequence_delimits:
  "list_all valid as \<Longrightarrow> list_all valid bs \<Longrightarrow> length as = length bs \<Longrightarrow>
   concat (map enc as) @ x = concat (map enc bs) @ y \<Longrightarrow> map norm as = map norm bs \<and> x = y"
proof (induction as arbitrary: bs)
  case (Cons a as)
  then obtain b cs where bs: "bs = b # cs" by (cases bs) auto
  with Cons.prems have "enc a @ (concat (map enc as) @ x) = enc b @ (concat (map enc cs) @ y)" by simp
  with Cons.prems bs delimits [of a b] have "norm a = norm b" "concat (map enc as) @ x = concat (map enc cs) @ y"
    by simp_all
  with Cons.IH [of cs] Cons.prems bs show ?case by simp
qed simp

end

fun normal_key :: "identity_key \<Rightarrow> identity_key" where
  "normal_key (KSigned v) = (if 0 \<le> sint v then KUnsigned v else KSigned v)"
| "normal_key (KTuple ks) = KTuple (map normal_key ks)"
| "normal_key k = k"

fun valid_key :: "identity_key \<Rightarrow> bool" where
  "valid_key (KStr v) \<longleftrightarrow> STR_END \<notin> set v"
| "valid_key (KBytes v) \<longleftrightarrow> length v < 2 ^ 64"
| "valid_key (KTuple ks) \<longleftrightarrow> length ks < 256 \<and> list_all valid_key ks"
| "valid_key (KLocation file line column) \<longleftrightarrow> STR_END \<notin> set file"
| "valid_key _ \<longleftrightarrow> True"

lemma length_le_bytes [simp]: "length (le_bytes n w) = n"
  by (simp add: le_bytes_def)

lemma le_bytes_inject:
  fixes v w :: "'a::len word"
  assumes "le_bytes n v = le_bytes n w" "LENGTH('a) \<le> 8 * n"
  shows "v = w"
proof (rule bit_word_eqI)
  fix i
  assume i: "i < LENGTH('a)"
  then have "i div 8 < n" using assms(2) by auto
  then have "(ucast (drop_bit (8 * (i div 8)) v) :: byte) = ucast (drop_bit (8 * (i div 8)) w)"
    using arg_cong [OF assms(1), of "\<lambda>xs. xs ! (i div 8)"] by (simp add: le_bytes_def)
  then have "bit (ucast (drop_bit (8 * (i div 8)) v) :: byte) (i mod 8) =
      bit (ucast (drop_bit (8 * (i div 8)) w) :: byte) (i mod 8)" by (rule arg_cong)
  then show "bit v i = bit w i" using i by (simp add: bit_simps)
qed

lemma le_bytes_append:
  fixes v w :: "'a::len word"
  assumes "le_bytes n v @ x = le_bytes n w @ y" "LENGTH('a) \<le> 8 * n"
  shows "v = w \<and> x = y"
  using assms le_bytes_inject by (metis append_eq_append_conv length_le_bytes)

lemma u128_bytes_append: "u128_bytes v @ x = u128_bytes w @ y \<Longrightarrow> v = w \<and> x = y"
  using le_bytes_append [of 16 v x w y] by (simp add: u128_bytes_def)

lemma str_bytes_append:
  assumes "str_bytes v @ x = str_bytes w @ y" "STR_END \<notin> set v" "STR_END \<notin> set w"
  shows "v = w \<and> x = y"
proof -
  have "split_once STR_END (v @ STR_END # x) = Some (v, x)" "split_once STR_END (w @ STR_END # y) = Some (w, y)"
    using assms(2,3) by (simp_all add: split_once_Some_iff)
  moreover have "v @ STR_END # x = w @ STR_END # y"
    using assms(1) by (simp only: str_bytes_def append_Cons append_Nil append_assoc list.inject simp_thms)
  ultimately have "Some (v, x) = Some (w, y)" by metis
  then show ?thesis by simp
qed

lemma counted_append:
  assumes "le_bytes 8 (of_nat (length v) :: 64 word) @ v @ x = le_bytes 8 (of_nat (length w) :: 64 word) @ w @ y"
    and "length v < 2 ^ 64" "length w < 2 ^ 64"
  shows "v = w \<and> x = y"
proof -
  have "(of_nat (length v) :: 64 word) = of_nat (length w) \<and> v @ x = w @ y"
    using le_bytes_append [OF assms(1)] by simp
  then have "length v = length w" "v @ x = w @ y"
    using assms(2,3) by (auto simp: word_of_nat_eq_iff take_bit_nat_eq_self)
  then show ?thesis by simp
qed

lemma ucast_32_128_inject: "(ucast (a :: 32 word) :: 128 word) = ucast b \<Longrightarrow> a = b"
proof (rule bit_word_eqI)
  fix n
  assume e: "(ucast a :: 128 word) = ucast b" and n: "n < LENGTH(32)"
  from e have "bit (ucast a :: 128 word) n = bit (ucast b :: 128 word) n" by simp
  with n show "bit a n = bit b n" by (simp add: bit_simps)
qed

lemma tuple_length_inject: "(of_nat m :: byte) = of_nat n \<Longrightarrow> m < 256 \<Longrightarrow> n < 256 \<Longrightarrow> m = n"
  by (auto simp: word_of_nat_eq_iff take_bit_nat_eq_self)

lemmas key_delimits = u128_bytes_append str_bytes_append counted_append le_bytes_append

lemma key_bytes_tag:
  "key_bytes (KUnsigned v) = TAG_UNSIGNED # le_bytes 16 v"
  "0 \<le> sint v \<Longrightarrow> key_bytes (KSigned v) = TAG_UNSIGNED # le_bytes 16 v"
  "\<not> 0 \<le> sint v \<Longrightarrow> key_bytes (KSigned v) = TAG_NEGATIVE # le_bytes 16 v"
  "key_bytes (KStr s) = TAG_STR # s @ [STR_END]"
  by (simp_all add: u128_bytes_def str_bytes_def)

lemma tags_distinct: "distinct [TAG_UNSIGNED, TAG_NEGATIVE, TAG_BOOL, TAG_CHAR, TAG_STR, TAG_BYTES, TAG_TUPLE, TAG_LOCATION]"
  by (simp add: tag_defs)

lemmas tag_neq [simp] = tags_distinct [simplified distinct.simps list.set insert_iff empty_iff simp_thms de_Morgan_disj]

lemma tags_distinct_rev: "distinct [TAG_LOCATION, TAG_TUPLE, TAG_BYTES, TAG_STR, TAG_CHAR, TAG_BOOL, TAG_NEGATIVE, TAG_UNSIGNED]"
  by (simp add: tag_defs)

lemmas tag_neq_rev [simp] =
  tags_distinct_rev [simplified distinct.simps list.set insert_iff empty_iff simp_thms de_Morgan_disj]

lemma le16_append: "le_bytes 16 (v :: 128 word) @ x = le_bytes 16 w @ y \<Longrightarrow> v = w \<and> x = y"
  using le_bytes_append [of 16 v x w y] by simp

lemma le16_inject: "le_bytes 16 (v :: 128 word) = le_bytes 16 w \<Longrightarrow> v = w"
  using le_bytes_inject [of 16 v w] by simp

lemma le4_inject: "le_bytes 4 (v :: 32 word) = le_bytes 4 w \<Longrightarrow> v = w"
  using le_bytes_inject [of 4 v w] by simp

lemma le4_append: "le_bytes 4 (v :: 32 word) @ x = le_bytes 4 w @ y \<Longrightarrow> v = w \<and> x = y"
  using le_bytes_append [of 4 v x w y] by simp

lemma location_append:
  assumes "str_bytes f @ u128_bytes (ucast (l :: 32 word)) @ u128_bytes (ucast (c :: 32 word)) @ x =
      str_bytes f' @ u128_bytes (ucast (l' :: 32 word)) @ u128_bytes (ucast (c' :: 32 word)) @ y"
    and "STR_END \<notin> set f" "STR_END \<notin> set f'"
  shows "f = f' \<and> l = l' \<and> c = c' \<and> x = y"
  using str_bytes_append [OF assms] u128_bytes_append ucast_32_128_inject by metis

lemma key_delimits_mutual:
  "valid_key a \<Longrightarrow> valid_key b \<Longrightarrow> key_bytes a @ x = key_bytes b @ y \<Longrightarrow>
     normal_key a = normal_key b \<and> x = y"
  "list_all valid_key as \<Longrightarrow> list_all valid_key bs \<Longrightarrow> length as = length bs \<Longrightarrow>
     keys_bytes as @ x = keys_bytes bs @ y \<Longrightarrow> map normal_key as = map normal_key bs \<and> x = y"
proof (induction a and as arbitrary: b x y and bs x y rule: key_bytes_keys_bytes.induct)
  case (1 v)
  then show ?case
    by (cases b) (auto simp: key_bytes_tag u128_bytes_def str_bytes_def dest: le16_append le16_inject split: if_splits)
next
  case (2 v)
  then show ?case
    by (cases b) (auto simp: key_bytes_tag u128_bytes_def str_bytes_def dest: le16_append le16_inject split: if_splits)
next
  case (3 v)
  then show ?case
    by (cases b) (auto simp: u128_bytes_def str_bytes_def split: if_splits)
next
  case (4 v)
  then show ?case
    by (cases b) (auto simp: u128_bytes_def str_bytes_def dest: le4_append le4_inject split: if_splits)
next
  case (5 v)
  show ?case
  proof (cases b)
    case (KStr w)
    with 5 str_bytes_append [of v x w y] show ?thesis by simp
  qed (use 5 in \<open>auto simp: u128_bytes_def str_bytes_def split: if_splits\<close>)
next
  case (6 v)
  show ?case
  proof (cases b)
    case (KBytes w)
    with 6 have "length v < 2 ^ 64" "length w < 2 ^ 64" by (simp_all only: valid_key.simps)
    moreover have "le_bytes 8 (of_nat (length v) :: 64 word) @ v @ x = le_bytes 8 (of_nat (length w) :: 64 word) @ w @ y"
      using 6(3) KBytes by (simp only: key_bytes.simps append_Cons append_assoc list.inject simp_thms)
    ultimately show ?thesis using counted_append KBytes by (metis normal_key.simps(6))
  qed (use 6 in \<open>auto simp: u128_bytes_def str_bytes_def split: if_splits\<close>)
next
  case (7 ks)
  show ?case
  proof (cases b)
    case (KTuple ls)
    have v: "list_all valid_key ks" "list_all valid_key ls" "length ks < 256" "length ls < 256"
      using "7.prems"(1,2) KTuple by (simp_all only: valid_key.simps)
    have "(of_nat (length ks) :: byte) = of_nat (length ls)" "keys_bytes ks @ x = keys_bytes ls @ y"
      using "7.prems"(3) KTuple by (simp_all only: key_bytes.simps append_Cons list.inject simp_thms)
    with v tuple_length_inject "7.IH" [of ls x y] have "map normal_key ks = map normal_key ls" "x = y"
      by blast+
    then show ?thesis using KTuple by (simp only: normal_key.simps)
  qed (use 7 in \<open>auto simp: u128_bytes_def str_bytes_def split: if_splits\<close>)
next
  case (8 f l c)
  show ?case
  proof (cases b)
    case (KLocation f' l' c')
    have "str_bytes f @ u128_bytes (ucast l) @ u128_bytes (ucast c) @ x =
        str_bytes f' @ u128_bytes (ucast l') @ u128_bytes (ucast c') @ y"
      using 8(3) KLocation by (simp only: key_bytes.simps append_Cons append_assoc list.inject simp_thms)
    moreover have "STR_END \<notin> set f" "STR_END \<notin> set f'"
      using 8(1,2) KLocation by (simp_all only: valid_key.simps simp_thms)
    ultimately show ?thesis using location_append KLocation by (metis normal_key.simps(8))
  qed (use 8 in \<open>auto simp: u128_bytes_def str_bytes_def split: if_splits\<close>)
next
  case 9
  then show ?case by simp
next
  case (10 k ks)
  then obtain l ls where bs: "bs = l # ls" by (cases bs) auto
  with 10 have "key_bytes k @ (keys_bytes ks @ x) = key_bytes l @ (keys_bytes ls @ y)" by simp
  moreover have "valid_key k" "valid_key l" using "10.prems" bs by simp_all
  ultimately have "normal_key k = normal_key l" "keys_bytes ks @ x = keys_bytes ls @ y"
    using "10.IH"(1) [of l "keys_bytes ks @ x" "keys_bytes ls @ y"] by blast+
  with "10.IH"(2) [of ls] "10.prems" bs show ?case by simp
qed

lemma keys_bytes_normal:
  "key_bytes (normal_key k) = key_bytes k"
  "keys_bytes (map normal_key ks) = keys_bytes ks"
  by (induction k and ks rule: key_bytes_keys_bytes.induct) auto

interpretation key_enc: self_delimiting valid_key key_bytes normal_key
  by unfold_locales (rule key_delimits_mutual(1))

interpretation str_enc: self_delimiting "\<lambda>v. STR_END \<notin> set v" str_bytes "\<lambda>v. v"
  by unfold_locales (rule str_bytes_append)

text \<open>Writing a sequence of keys into the hash is hashing one byte string, and that byte
  string determines the keys: two sequences of as many valid keys with the same bytes have the
  same normal forms (a non-negative signed integer and the equal unsigned one are the same
  key).  So different keys only meet in a collision of the hash, never in their encoding.\<close>

theorem keys_never_run_together:
  assumes "list_all valid_key ks" "list_all valid_key ls" "length ks = length ls"
  shows "write_keys ks h = fnv128_write h (keys_bytes ks) \<and>
         (keys_bytes ks = keys_bytes ls \<longleftrightarrow> map normal_key ks = map normal_key ls)"
proof -
  have "keys_bytes ks = keys_bytes (map normal_key ks)" for ks
    by (rule keys_bytes_normal(2) [symmetric])
  then have "keys_bytes ks = keys_bytes ls \<longleftrightarrow> map normal_key ks = map normal_key ls"
    using key_delimits_mutual(2) [OF assms, of "[]" "[]"] by (metis append_Nil2)
  with write_key_bytes(2) show ?thesis by simp
qed

theorem keys_never_run_together_witness:
  "keys_bytes [KSigned 5, KStr [97], KTuple []] = keys_bytes [KUnsigned 5, KStr [97], KTuple []]
   \<and> keys_bytes [KStr [97, 98], KStr [99]] \<noteq> keys_bytes [KStr [97], KStr [98, 99]]"
proof -
  have "keys_bytes [KSigned 5, KStr [97], KTuple []] = keys_bytes [KUnsigned 5, KStr [97], KTuple []]"
    using keys_never_run_together [of "[KSigned 5, KStr [97], KTuple []]" "[KUnsigned 5, KStr [97], KTuple []]"]
    by (simp add: STR_END_def)
  moreover have "keys_bytes [KStr [97, 98], KStr [99]] \<noteq> keys_bytes [KStr [97], KStr [98, 99]]"
    using keys_never_run_together [of "[KStr [97, 98], KStr [99]]" "[KStr [97], KStr [98, 99]]"]
    by (simp add: STR_END_def)
  ultimately show ?thesis ..
qed

subsection \<open>Sites and identities\<close>

definition TAG_SITE :: byte where "TAG_SITE = 0"
definition TAG_KEYED :: byte where "TAG_KEYED = 1"

type_synonym site_key = "64 word"

definition site_key_new :: "byte list \<Rightarrow> 32 word \<Rightarrow> 32 word \<Rightarrow> 32 word \<Rightarrow> site_key" where
  "site_key_new file_name line column ordinal =
     (let h = fnv64_write fnv64_offset file_name;
          h = fnv64_write h [0];
          h = fnv64_write h (le_bytes 4 line);
          h = fnv64_write h (le_bytes 4 column)
      in fnv64_write h (le_bytes 4 ordinal))"

text \<open>A source location: its file, line and column.\<close>

definition site_key_from_location :: "byte list \<times> 32 word \<times> 32 word \<Rightarrow> site_key" where
  "site_key_from_location location =
     (case location of (file_name, line, column) \<Rightarrow> site_key_new file_name line column 0)"

record identity =
  id_hash :: "128 word"
  id_ambiguity :: "string option"

definition identity_root :: identity where
  "identity_root = \<lparr>id_hash = 0, id_ambiguity = None\<rparr>"

text \<open>\<open>Inl\<close> is the error, with the label of the ambiguous scope.\<close>

definition checked :: "identity \<Rightarrow> string + identity" where
  "checked i = (case id_ambiguity i of None \<Rightarrow> Inr i | Some label \<Rightarrow> Inl label)"

definition derive :: "identity \<Rightarrow> byte \<Rightarrow> site_key \<Rightarrow> 128 word" where
  "derive i tag site =
     fnv128_write (fnv128_write (fnv128_write fnv128_offset (le_bytes 16 (id_hash i))) [tag]) (le_bytes 8 site)"

definition child :: "identity \<Rightarrow> site_key \<Rightarrow> identity" where
  "child i site = \<lparr>id_hash = derive i TAG_SITE site, id_ambiguity = id_ambiguity i\<rparr>"

definition keyed_child :: "identity \<Rightarrow> site_key \<Rightarrow> identity_key \<Rightarrow> identity" where
  "keyed_child i site key =
     \<lparr>id_hash = write_key key (derive i TAG_KEYED site), id_ambiguity = id_ambiguity i\<rparr>"

definition ambiguous_child :: "identity \<Rightarrow> site_key \<Rightarrow> string \<Rightarrow> identity" where
  "ambiguous_child i site label =
     \<lparr>id_hash = derive i TAG_SITE site,
      id_ambiguity = (case id_ambiguity i of Some existing \<Rightarrow> Some existing | None \<Rightarrow> Some label)\<rparr>"

definition be_bytes :: "nat \<Rightarrow> 'a::len word \<Rightarrow> byte list" where
  "be_bytes n v = rev (le_bytes n v)"

text \<open>The bytes of a state, least significant first, read back.\<close>

fun from_le_bytes :: "byte list \<Rightarrow> 128 word" where
  "from_le_bytes [] = 0"
| "from_le_bytes (b # bs) = ucast b OR push_bit 8 (from_le_bytes bs)"

definition from_be_bytes :: "byte list \<Rightarrow> 128 word" where
  "from_be_bytes bs = from_le_bytes (rev bs)"

text \<open>\<open>URL_SAFE_NO_PAD\<close> of the crate \<^verbatim>\<open>base64\<close>: its \<open>encode\<close> and \<open>decode\<close> are parameters.\<close>

definition identity_to_string :: "(byte list \<Rightarrow> string) \<Rightarrow> identity \<Rightarrow> string" where
  "identity_to_string encode i = encode (be_bytes 16 (id_hash i))"

definition identity_from_str :: "(string \<Rightarrow> byte list option) \<Rightarrow> string \<Rightarrow> identity option" where
  "identity_from_str decode s =
     (case decode s of
        None \<Rightarrow> None
      | Some bytes \<Rightarrow>
          if length bytes = 16 then Some \<lparr>id_hash = from_be_bytes bytes, id_ambiguity = None\<rparr> else None)"

lemma from_le_bytes_bit:
  "bit (from_le_bytes bs) i \<longleftrightarrow> i < 128 \<and> i < 8 * length bs \<and> bit (bs ! (i div 8)) (i mod 8)"
proof (induction bs arbitrary: i)
  case (Cons b bs)
  show ?case
  proof (cases "i < 8")
    case True
    then show ?thesis by (simp add: bit_simps)
  next
    case False
    then obtain j where i: "i = j + 8" by (metis add.commute le_Suc_ex not_less)
    then have "\<not> bit (ucast b :: 128 word) i" using bit_imp_le_length [of b i] by (auto simp: bit_simps)
    moreover have "bit (push_bit 8 (from_le_bytes bs)) i \<longleftrightarrow> i < 128 \<and> bit (from_le_bytes bs) j"
      using i by (simp add: bit_simps)
    moreover have "i div 8 = Suc (j div 8)" "i mod 8 = j mod 8" using i by simp_all
    ultimately show ?thesis using i by (auto simp: bit_or_iff Cons.IH)
  qed
qed simp

lemma from_be_bytes [simp]: "from_be_bytes (be_bytes 16 v) = v"
proof (rule bit_word_eqI)
  fix i
  assume i: "i < LENGTH(128)"
  then have "i div 8 < 16" by simp
  then show "bit (from_be_bytes (be_bytes 16 v)) i = bit v i"
    using i by (simp add: from_be_bytes_def be_bytes_def from_le_bytes_bit le_bytes_def bit_simps)
qed

lemma length_be_bytes [simp]: "length (be_bytes n v) = n"
  by (simp add: be_bytes_def)

text \<open>An identity survives the wire: with a base64 codec that decodes what it encodes,
  parsing the text of an identity gives back its hash, free of ambiguity, and so exactly the
  identity whenever it could be consumed at all.\<close>

theorem identity_wire_roundtrip:
  assumes "\<And>bytes. length bytes = 16 \<Longrightarrow> decode (encode bytes) = Some bytes"
  shows "identity_from_str decode (identity_to_string encode i) = Some (i\<lparr>id_ambiguity := None\<rparr>) \<and>
         (checked i = Inr j \<longrightarrow> identity_from_str decode (identity_to_string encode i) = Some j)"
proof -
  have "identity_from_str decode (identity_to_string encode i) = Some (i\<lparr>id_ambiguity := None\<rparr>)"
    using assms [of "be_bytes 16 (id_hash i)"] by (simp add: identity_from_str_def identity_to_string_def)
  then show ?thesis by (cases i) (auto simp: checked_def split: option.splits)
qed

text \<open>One character per byte stands in for base64 in the witness.\<close>

definition demo_encode :: "byte list \<Rightarrow> string" where
  "demo_encode bytes = map (\<lambda>b. char_of (unat b)) bytes"

definition demo_decode :: "string \<Rightarrow> byte list option" where
  "demo_decode s = Some (map (\<lambda>c. of_nat (of_char c)) s)"

theorem identity_wire_roundtrip_witness:
  "identity_from_str demo_decode (identity_to_string demo_encode (child identity_root 7)) =
     Some (child identity_root 7)"
proof -
  have "demo_decode (demo_encode bytes) = Some bytes" for bytes
  proof -
    have "of_nat (of_char (char_of (unat b) :: char)) = b" for b :: byte
      using unsigned_less [where 'a = nat, of b] by (simp add: of_char_of)
    then show ?thesis by (simp add: demo_decode_def demo_encode_def o_def map_idI)
  qed
  then show ?thesis
    using identity_wire_roundtrip [of demo_decode demo_encode "child identity_root 7" "child identity_root 7"]
    by (simp add: checked_def child_def identity_root_def)
qed

subsection \<open>Chains of scopes\<close>

text \<open>How one scope of a page derives its identity from the scope around it.\<close>

datatype scope =
    Plain site_key
  | Keyed site_key identity_key
  | Repeated site_key string

fun enter :: "identity \<Rightarrow> scope \<Rightarrow> identity" where
  "enter i (Plain site) = child i site"
| "enter i (Keyed site key) = keyed_child i site key"
| "enter i (Repeated site label) = ambiguous_child i site label"

fun label_of :: "scope \<Rightarrow> string option" where
  "label_of (Repeated _ label) = Some label"
| "label_of _ = None"

lemma enter_ambiguity:
  "id_ambiguity (enter i s) = (case id_ambiguity i of Some l \<Rightarrow> Some l | None \<Rightarrow> label_of s)"
  by (cases s) (auto simp: child_def keyed_child_def ambiguous_child_def split: option.splits)

lemma foldl_ambiguity:
  "id_ambiguity (foldl enter i ss) =
     (case id_ambiguity i of Some l \<Rightarrow> Some l | None \<Rightarrow> map_option (the \<circ> label_of) (find (\<lambda>s. label_of s \<noteq> None) ss))"
  by (induction ss arbitrary: i) (auto simp: enter_ambiguity split: option.splits)

text \<open>An identity can be consumed exactly when no scope on the chain from the root repeats
  without a key; otherwise the error names the outermost such scope, whatever keys the scopes
  under it carry.\<close>

theorem outermost_ambiguity:
  "checked (foldl enter identity_root ss) =
     (case find (\<lambda>s. label_of s \<noteq> None) ss of
        None \<Rightarrow> Inr (foldl enter identity_root ss)
      | Some s \<Rightarrow> Inl (the (label_of s)))"
  by (auto simp: checked_def foldl_ambiguity identity_root_def split: option.splits)

subsection \<open>What a derivation hashes\<close>

definition derivation_bytes :: "128 word \<Rightarrow> site_key \<Rightarrow> identity_key option \<Rightarrow> byte list" where
  "derivation_bytes h site key =
     le_bytes 16 h @ (case key of None \<Rightarrow> TAG_SITE | Some _ \<Rightarrow> TAG_KEYED) # le_bytes 8 site @
     (case key of None \<Rightarrow> [] | Some k \<Rightarrow> key_bytes k)"

lemma child_bytes: "id_hash (child i site) = fnv128_write fnv128_offset (derivation_bytes (id_hash i) site None)"
  by (simp add: child_def derive_def derivation_bytes_def fnv128_write_append [symmetric])

lemma keyed_child_bytes:
  "id_hash (keyed_child i site k) = fnv128_write fnv128_offset (derivation_bytes (id_hash i) site (Some k))"
  by (simp add: keyed_child_def derive_def derivation_bytes_def write_key_bytes fnv128_write_append [symmetric])

text \<open>The hash of a derived identity is the FNV-1a hash of one byte string, and that string
  tells the parent's hash, the site, whether the child is keyed, and the key up to its normal
  form: so a keyed and an unkeyed child, or two children with different keys, never hash the
  same bytes.\<close>

theorem derivation_hashes_once:
  assumes "pred_option valid_key a" "pred_option valid_key b"
  shows "id_hash (case a of None \<Rightarrow> child i site | Some k \<Rightarrow> keyed_child i site k) =
           fnv128_write fnv128_offset (derivation_bytes (id_hash i) site a) \<and>
         (derivation_bytes h s a = derivation_bytes h' s' b \<longrightarrow>
           h = h' \<and> s = s' \<and> map_option normal_key a = map_option normal_key b)"
proof -
  have "h = h' \<and> s = s' \<and> map_option normal_key a = map_option normal_key b"
    if eq: "derivation_bytes h s a = derivation_bytes h' s' b"
  proof -
    let ?tag = "\<lambda>key. case key of None \<Rightarrow> TAG_SITE | Some _ \<Rightarrow> TAG_KEYED"
    let ?key = "\<lambda>key. case key of None \<Rightarrow> [] | Some k \<Rightarrow> key_bytes k"
    have h: "h = h'" and r: "?tag a # le_bytes 8 s @ ?key a = ?tag b # le_bytes 8 s' @ ?key b"
      using le16_append [OF eq [unfolded derivation_bytes_def]] by simp_all
    from r have t: "?tag a = ?tag b" and "le_bytes 8 s @ ?key a = le_bytes 8 s' @ ?key b" by simp_all
    from le_bytes_append [OF this(2)] have s: "s = s'" and k: "?key a = ?key b" by simp_all
    have "map_option normal_key a = map_option normal_key b"
    proof (cases a)
      case None
      with t show ?thesis by (cases b) (simp_all add: TAG_SITE_def TAG_KEYED_def)
    next
      case (Some k)
      with t obtain l where l: "b = Some l" by (cases b) (simp_all add: TAG_SITE_def TAG_KEYED_def)
      have "normal_key k = normal_key l"
        by (rule key_enc.encoding_inject) (use Some l k assms in simp_all)
      with Some l show ?thesis by simp
    qed
    with h s show ?thesis by simp
  qed
  then show ?thesis by (auto simp: child_bytes keyed_child_bytes split: option.splits)
qed

theorem derivation_hashes_once_witness:
  "derivation_bytes 0 7 None \<noteq> derivation_bytes 0 7 (Some (KStr [])) \<and>
   derivation_bytes 0 7 (Some (KUnsigned 1)) \<noteq> derivation_bytes 0 7 (Some (KUnsigned 2))"
proof -
  have "derivation_bytes 0 7 None = derivation_bytes 0 7 (Some (KStr [])) \<longrightarrow>
      map_option normal_key None = map_option normal_key (Some (KStr []))"
    by (rule impI, rule derivation_hashes_once [THEN conjunct2, rule_format, THEN conjunct2, THEN conjunct2])
      simp_all
  moreover have "derivation_bytes 0 7 (Some (KUnsigned 1)) = derivation_bytes 0 7 (Some (KUnsigned 2)) \<longrightarrow>
      map_option normal_key (Some (KUnsigned 1)) = map_option normal_key (Some (KUnsigned 2))"
    by (rule impI, rule derivation_hashes_once [THEN conjunct2, rule_format, THEN conjunct2, THEN conjunct2])
      simp_all
  ultimately show ?thesis by auto
qed

end
