(* ===== verification/Layers.thy ===== *)
theory Layers
  imports Http_Errors Identity_Hash
begin

text \<open>
  Layers and the chain that runs them: \<^verbatim>\<open>layer.rs\<close>, \<^verbatim>\<open>layer/strip_prefix.rs\<close> and
  \<^verbatim>\<open>body_limit.rs\<close> of \<^verbatim>\<open>crates/topcoat-router/src\<close>.  A handler takes the request context, the
  body and the request's pending headers, and returns its result with the headers as it left
  them, or panics; a layer is a function from the rest of the chain to a handler.  The values
  of the request context that only the router installs are fields of the record, every other
  value is in \<open>cx_values\<close> under its type's number.
\<close>

datatype body_limit_kind = Disable | Limit nat

record 'c cx =
  cx_values :: "'c context_values"
  cx_parts :: parts
  cx_original :: parts
  cx_client_ip :: "ip_addr option"
  cx_matched :: "(endpoint_index \<times> route_index option) option"
  cx_params :: raw_path_params
  cx_body_limit :: "body_limit_kind option"
  cx_identity :: identity

type_synonym ('b, 'c) handled =
  "(('b response, ('b, 'c) error) result \<times> response_headers) outcome"

type_synonym ('b, 'c) handler = "'c cx \<Rightarrow> 'b \<Rightarrow> response_headers \<Rightarrow> ('b, 'c) handled"

definition fail_with :: "('b, 'c) error \<Rightarrow> ('b, 'c) handler" where
  "fail_with e cx body hs = Done (Err e, hs)"

record ('b, 'c) route =
  rt_id :: nat
  rt_methods :: methods
  rt_path :: route_path
  rt_handle :: "('b, 'c) handler"

record ('b, 'c) layer =
  l_path :: "route_path option"
  l_handle :: "('b, 'c) handler \<Rightarrow> ('b, 'c) handler"

subsection \<open>Selecting the layers of a route\<close>

definition layer_key :: "('b, 'c) layer \<Rightarrow> nat" where
  "layer_key l = (case l_path l of None \<Rightarrow> 0 | Some p \<Rightarrow> length p + 1)"

definition layer_applies :: "route_path \<Rightarrow> ('b, 'c) layer \<Rightarrow> bool" where
  "layer_applies path l \<longleftrightarrow> is_none_or (\<lambda>prefix. path_starts_with path prefix) (l_path l)"

definition layers_for_path :: "('b, 'c) layer list \<Rightarrow> route_path \<Rightarrow> ('b, 'c) layer list" where
  "layers_for_path layers path = sort_key layer_key (rev (filter (layer_applies path) layers))"

subsection \<open>Running the chain\<close>

datatype ('b, 'c) terminal =
    TRoute "('b, 'c) handler"
  | TMethodNotAllowed endpoint
  | TNotFound

fun next_run :: "('b, 'c) layer list \<Rightarrow> ('b, 'c) terminal \<Rightarrow> ('b, 'c) handler" where
  "next_run (layer # rest) t = l_handle layer (next_run rest t)"
| "next_run [] (TRoute handle) = handle"
| "next_run [] (TMethodNotAllowed e) = fail_with (method_not_allowed (endpoint_methods e))"
| "next_run [] TNotFound = fail_with not_found"

definition terminal_run :: "('b, 'c) terminal \<Rightarrow> ('b, 'c) handler" where
  "terminal_run t = next_run [] t"

lemma next_run_foldr: "next_run ls t = foldr l_handle ls (terminal_run t)"
  by (induction ls) (auto simp: terminal_run_def)

lemma set_layers_for_path: "set (layers_for_path ls p) = {l \<in> set ls. layer_applies p l}"
  by (auto simp: layers_for_path_def)

lemma filter_sort_key_stable:
  "(\<forall>x \<in> set xs. \<forall>y \<in> set xs. P x \<longrightarrow> P y \<longrightarrow> f x = f y) \<Longrightarrow> filter P (sort_key f xs) = filter P xs"
proof -
  assume same: "\<forall>x \<in> set xs. \<forall>y \<in> set xs. P x \<longrightarrow> P y \<longrightarrow> f x = f y"
  show ?thesis
  proof (cases "\<exists>x \<in> set xs. P x")
    case False
    then show ?thesis by (auto simp: filter_empty_conv)
  next
    case True
    then obtain x where x: "x \<in> set xs" "P x" by blast
    have eq: "P y = (f y = f x \<and> P y)" if "y \<in> set xs" for y using same x that by blast
    have "filter P (sort_key f xs) = filter P (filter (\<lambda>y. f y = f x) (sort_key f xs))"
      unfolding filter_filter by (rule filter_cong [OF refl]) (simp add: eq [symmetric])
    also have "filter (\<lambda>y. f y = f x) (sort_key f xs) = filter (\<lambda>y. f y = f x) xs"
      by (rule sort_key_stable)
    also have "filter P (filter (\<lambda>y. f y = f x) xs) = filter P xs"
      unfolding filter_filter by (rule filter_cong [OF refl]) (simp add: eq [symmetric])
    finally show ?thesis .
  qed
qed

lemma layers_same_path:
  "filter (\<lambda>l. l_path l = q) (layers_for_path ls p) =
     rev (filter (\<lambda>l. l_path l = q) (filter (layer_applies p) ls))"
  unfolding layers_for_path_def
  by (subst filter_sort_key_stable) (auto simp: layer_key_def rev_filter)

text \<open>Every layer of a route sits inside the less specific ones.\<close>

definition nested_in :: "('b, 'c) layer \<Rightarrow> ('b, 'c) layer \<Rightarrow> bool" where
  "nested_in inner outer \<longleftrightarrow>
     (case l_path outer of
        None \<Rightarrow> True
      | Some o_path \<Rightarrow> (case l_path inner of None \<Rightarrow> False | Some i_path \<Rightarrow> path_starts_with i_path o_path))"

definition valid_layer :: "('b, 'c) layer \<Rightarrow> bool" where
  "valid_layer l \<longleftrightarrow> is_none_or valid_path (l_path l)"

lemma prefix_render_length:
  "valid_path p \<Longrightarrow> valid_path q \<Longrightarrow> valid_path r \<Longrightarrow> path_starts_with p q \<Longrightarrow> path_starts_with p r \<Longrightarrow>
   length q \<le> length r \<Longrightarrow> path_starts_with r q"
proof -
  assume v: "valid_path p" "valid_path q" "valid_path r"
    and s: "path_starts_with p q" "path_starts_with p r" and l: "length q \<le> length r"
  then have "prefix (segments q) (segments r) \<or> prefix (segments r) (segments q)"
    using prefix_same_cases by (metis path_starts_with_segments)
  moreover have "segments q = segments r" if "prefix (segments r) (segments q)"
  proof -
    from that have "path_starts_with q r" using v path_starts_with_segments by blast
    then have "length r \<le> length q" by (auto simp: path_starts_with_def split: if_splits)
    with l have "length q = length r" by simp
    from that obtain zs where "segments q = segments r @ zs" by (auto simp: prefix_def)
    then have "q = r @ render zs" using v valid_path_reads(2) by (metis render_simps(3))
    with \<open>length q = length r\<close> show ?thesis by simp
  qed
  ultimately show ?thesis using v path_starts_with_segments by auto
qed

lemma layers_nested:
  assumes "valid_path p" "\<forall>l \<in> set ls. valid_layer l"
  shows "sorted_wrt (\<lambda>outer inner. nested_in inner outer) (layers_for_path ls p)"
proof -
  let ?r = "layers_for_path ls p"
  have "sorted_wrt (\<lambda>a b. layer_key a \<le> layer_key b) ?r"
    using sorted_sort_key [of layer_key] by (simp add: layers_for_path_def sorted_map)
  then show ?thesis
  proof (rule sorted_wrt_mono_rel [rotated])
    fix outer inner
    assume m: "outer \<in> set ?r" "inner \<in> set ?r" and k: "layer_key outer \<le> layer_key inner"
    from m have a: "layer_applies p outer" "layer_applies p inner" "valid_layer outer" "valid_layer inner"
      using assms(2) by (auto simp: set_layers_for_path)
    show "nested_in inner outer"
    proof (cases "l_path outer")
      case (Some q)
      with k obtain r where r: "l_path inner = Some r" "length q \<le> length r"
        by (cases "l_path inner") (auto simp: layer_key_def)
      with Some a have "valid_path q" "valid_path r" "path_starts_with p q" "path_starts_with p r"
        by (simp_all add: layer_applies_def valid_layer_def)
      then have "path_starts_with r q" using prefix_render_length assms(1) r(2) by blast
      with Some r show ?thesis by (simp add: nested_in_def)
    qed (simp add: nested_in_def)
  qed
qed

text \<open>The layers of a route are the pathless ones and those whose path is a prefix of the
  route's; they run from least to most specific, each inside all the less specific ones, and
  among layers at one path the last registered is the outermost.\<close>

theorem layers_for_path_nest:
  assumes "valid_path p" "\<forall>l \<in> set ls. valid_layer l"
  shows "set (layers_for_path ls p) = {l \<in> set ls. layer_applies p l} \<and>
    sorted_wrt (\<lambda>outer inner. nested_in inner outer) (layers_for_path ls p) \<and>
    (\<forall>q. filter (\<lambda>l. l_path l = q) (layers_for_path ls p) =
      rev (filter (\<lambda>l. l_path l = q) (filter (layer_applies p) ls))) \<and>
    next_run (layers_for_path ls p) t = foldr l_handle (layers_for_path ls p) (terminal_run t)"
proof (intro conjI)
  show "set (layers_for_path ls p) = {l \<in> set ls. layer_applies p l}"
    by (rule set_layers_for_path)
  show "sorted_wrt (\<lambda>outer inner. nested_in inner outer) (layers_for_path ls p)"
    by (rule layers_nested [OF assms])
  show "\<forall>q. filter (\<lambda>l. l_path l = q) (layers_for_path ls p) =
      rev (filter (\<lambda>l. l_path l = q) (filter (layer_applies p) ls))"
    by (rule allI) (rule layers_same_path)
  show "next_run (layers_for_path ls p) t = foldr l_handle (layers_for_path ls p) (terminal_run t)"
    by (rule next_run_foldr)
qed

lemma layers_for_path_nest_witness:
  "set (layers_for_path
      [\<lparr>l_path = Some ''/a'', l_handle = id\<rparr>, \<lparr>l_path = None, l_handle = id\<rparr>,
       \<lparr>l_path = Some ''/b'', l_handle = id\<rparr> :: (unit, unit) layer] ''/a/x'') =
    {\<lparr>l_path = Some ''/a'', l_handle = id\<rparr>, \<lparr>l_path = None, l_handle = id\<rparr>}"
proof -
  have v: "valid_path ''/a/x''" "valid_path ''/a''" "valid_path ''/b''" by code_simp+
  have s: "path_starts_with ''/a/x'' ''/a''" "\<not> path_starts_with ''/a/x'' ''/b''" by code_simp+
  let ?ls = "[\<lparr>l_path = Some ''/a'', l_handle = id\<rparr>, \<lparr>l_path = None, l_handle = id\<rparr>,
       \<lparr>l_path = Some ''/b'', l_handle = id\<rparr> :: (unit, unit) layer]"
  have "\<forall>l \<in> set ?ls. valid_layer l" using v by (simp add: valid_layer_def)
  from conjunct1 [OF layers_for_path_nest [OF v(1) this]]
  show ?thesis by (rule trans) (use s in \<open>auto simp: layer_applies_def\<close>)
qed

end
