(* ===== verification/Strip_Prefix.thy ===== *)
theory Strip_Prefix
  imports Layers
begin

text \<open>
  Two layers of the router: the prefix stripper of \<^verbatim>\<open>layer/strip_prefix.rs\<close> and the body limit of
  \<^verbatim>\<open>body_limit.rs\<close>.  The prefix is compared with the request path segment by segment; the
  lemmas show that a match consumes whole URI segments that the prefix matches, and nothing
  else.
\<close>

subsection \<open>Stripping a prefix\<close>

fun strip_loop :: "path_segment list \<Rightarrow> str \<Rightarrow> str option" where
  "strip_loop [] rest = Some (if rest = [] then ''/'' else rest)"
| "strip_loop (Group _ # segs) rest = strip_loop segs rest"
| "strip_loop (Static expected # segs) rest =
     (if expected = [] then (if rest = ''/'' then Some ''/'' else None)
      else (case strip_prefix ''/'' rest of
              None \<Rightarrow> None
            | Some body \<Rightarrow>
                (case strip_prefix expected body of
                   None \<Rightarrow> None
                 | Some rest \<Rightarrow>
                     if rest \<noteq> [] \<and> \<not> starts_with_str rest ''/'' then None
                     else strip_loop segs rest)))"
| "strip_loop (Param _ # segs) rest =
     (case strip_prefix ''/'' rest of
        None \<Rightarrow> None
      | Some body \<Rightarrow>
          (let stop = length (takeWhile (\<lambda>c. c \<noteq> CHR ''/'') body)
           in if stop = 0 then None else strip_loop segs (drop stop body)))"
| "strip_loop (CatchAll _ # segs) rest =
     (case strip_prefix ''/'' rest of
        None \<Rightarrow> None
      | Some body \<Rightarrow> if body \<noteq> [] then Some ''/'' else None)"

definition strip_path_prefix :: "str \<Rightarrow> route_path \<Rightarrow> str option" where
  "strip_path_prefix path pre = strip_loop (segments pre) path"

definition rewrite_path :: "uri \<Rightarrow> str \<Rightarrow> uri" where
  "rewrite_path u path = u\<lparr>uri_path := path\<rparr>"

record strip_prefix_layer =
  sp_path :: route_path
  sp_prefix :: route_path

definition strip_prefix_new :: "route_path \<Rightarrow> strip_prefix_layer" where
  "strip_prefix_new pre = \<lparr>sp_path = pre, sp_prefix = pre\<rparr>"

definition strip_prefix_at :: "strip_prefix_layer \<Rightarrow> route_path \<Rightarrow> strip_prefix_layer" where
  "strip_prefix_at l path = l\<lparr>sp_path := path\<rparr>"

definition strip_prefix_handle :: "strip_prefix_layer \<Rightarrow> ('b, 'c) handler \<Rightarrow> ('b, 'c) handler" where
  "strip_prefix_handle l next_h cx body hs =
     (case strip_path_prefix (uri_path (p_uri (cx_parts cx))) (sp_prefix l) of
        None \<Rightarrow> next_h cx body hs
      | Some stripped \<Rightarrow>
          (let ps = cx_parts cx; ps = ps\<lparr>p_uri := rewrite_path (p_uri ps) stripped\<rparr>
           in next_h (cx\<lparr>cx_parts := ps\<rparr>) body hs))"

definition strip_layer :: "strip_prefix_layer \<Rightarrow> ('b, 'c) layer" where
  "strip_layer l = \<lparr>l_path = Some (sp_path l), l_handle = strip_prefix_handle l\<rparr>"

subsection \<open>The URI segments a prefix consumes\<close>

definition slashed :: "str list \<Rightarrow> str" where
  "slashed us = concat (map (\<lambda>u. CHR ''/'' # u) us)"

lemma slashed_simps [simp]: "slashed [] = []" "slashed (u # us) = CHR ''/'' # u @ slashed us"
  by (simp_all add: slashed_def)

text \<open>A segment that consumes one URI segment at most: no catch-all, no trailing slash.\<close>

fun plain_segment :: "path_segment \<Rightarrow> bool" where
  "plain_segment (CatchAll _) \<longleftrightarrow> False"
| "plain_segment (Static e) \<longleftrightarrow> e \<noteq> [] \<and> CHR ''/'' \<notin> set e"
| "plain_segment _ \<longleftrightarrow> True"

definition boundary :: "str \<Rightarrow> bool" where
  "boundary tail \<longleftrightarrow> tail = [] \<or> hd tail = CHR ''/''"

lemma boundary_dropWhile: "boundary (dropWhile (\<lambda>c. c \<noteq> CHR ''/'') s)"
  using hd_dropWhile [of "\<lambda>c. c \<noteq> CHR ''/''" s] by (auto simp: boundary_def)

lemma starts_slash: "starts_with_str r ''/'' \<longleftrightarrow> r \<noteq> [] \<and> hd r = CHR ''/''"
  by (cases r) (auto simp: starts_with_str_def)

lemma boundary_starts: "(rest \<noteq> [] \<and> \<not> starts_with_str rest ''/'') \<longleftrightarrow> \<not> boundary rest"
  by (auto simp: boundary_def starts_slash)

definition or_root :: "str \<Rightarrow> str" where
  "or_root tail = (if tail = [] then ''/'' else tail)"

lemma strip_loop_sound:
  "strip_loop segs rest = Some r \<Longrightarrow> list_all plain_segment segs \<Longrightarrow> boundary rest \<Longrightarrow>
   \<exists>us tail. rest = slashed us @ tail \<and> boundary tail \<and> seg_matches segs us \<and>
     (\<forall>u \<in> set us. CHR ''/'' \<notin> set u) \<and> r = or_root tail"
proof (induction segs rest rule: strip_loop.induct)
  case (1 rest)
  then show ?case by (intro exI [of _ "[]"] exI [of _ rest]) (auto simp: or_root_def)
next
  case (3 e segs rest)
  from "3.prems" obtain body rest' where b: "rest = CHR ''/'' # body" "body = e @ rest'" "boundary rest'"
    and r: "strip_loop segs rest' = Some r"
    by (auto simp: strip_prefix_Some_iff boundary_starts split: if_splits option.splits list.splits)
  have "strip_prefix ''/'' rest = Some body" "strip_prefix e body = Some rest'"
    using b by auto
  moreover have "boundary rest' \<longleftrightarrow> \<not> (rest' \<noteq> [] \<and> \<not> starts_with_str rest' ''/'')"
    by (simp add: boundary_starts)
  ultimately have "\<exists>us tail. rest' = slashed us @ tail \<and> boundary tail \<and> seg_matches segs us \<and>
      (\<forall>u \<in> set us. CHR ''/'' \<notin> set u) \<and> r = or_root tail"
    using "3.IH" [of body rest'] "3.prems"(2) r b(3) by auto
  then obtain us tail where
    "rest' = slashed us @ tail" "boundary tail" "seg_matches segs us"
    "\<forall>u \<in> set us. CHR ''/'' \<notin> set u" "r = or_root tail" by blast
  with "3.prems" b show ?case
    by (intro exI [of _ "e # us"] exI [of _ tail]) auto
next
  case (4 n segs rest)
  from "4.prems" obtain body where b: "rest = CHR ''/'' # body"
    by (auto split: option.splits list.splits if_splits)
  define h where "h = takeWhile (\<lambda>c. c \<noteq> CHR ''/'') body"
  define t where "t = dropWhile (\<lambda>c. c \<noteq> CHR ''/'') body"
  have ht: "body = h @ t" "CHR ''/'' \<notin> set h" "boundary t"
    by (auto simp: h_def t_def boundary_dropWhile dest: set_takeWhileD)
  have d: "drop (length h) body = t" using ht(1) by simp
  have r: "strip_loop segs t = Some r" "h \<noteq> []"
    using "4.prems"(1) b by (auto simp: Let_def h_def t_def dropWhile_eq_drop split: if_splits)
  have "\<exists>us tail. t = slashed us @ tail \<and> boundary tail \<and> seg_matches segs us \<and>
      (\<forall>u \<in> set us. CHR ''/'' \<notin> set u) \<and> r = or_root tail"
  proof (rule "4.IH" [of body "length h", unfolded d])
    show "strip_prefix ''/'' rest = Some body" using b by simp
    show "length h = length (takeWhile (\<lambda>c. c \<noteq> CHR ''/'') body)" by (simp add: h_def)
    show "length h \<noteq> 0" using r(2) by simp
    show "strip_loop segs t = Some r" by (rule r(1))
    show "list_all plain_segment segs" using "4.prems"(2) by simp
    show "boundary t" by (rule ht(3))
  qed
  then obtain us tail where
    "t = slashed us @ tail" "boundary tail" "seg_matches segs us"
    "\<forall>u \<in> set us. CHR ''/'' \<notin> set u" "r = or_root tail" by blast
  with b r ht show ?case
    by (intro exI [of _ "h # us"] exI [of _ tail]) auto
qed auto

lemma strip_loop_complete:
  "seg_matches segs us \<Longrightarrow> list_all plain_segment segs \<Longrightarrow> boundary tail \<Longrightarrow>
   (\<forall>u \<in> set us. CHR ''/'' \<notin> set u) \<Longrightarrow> strip_loop segs (slashed us @ tail) = Some (or_root tail)"
proof (induction segs us rule: seg_matches.induct)
  case (3 e segs us)
  then obtain ws where us: "us = e # ws" by (cases us) auto
  have "boundary (slashed ws @ tail)" using 3 by (cases ws) (auto simp: boundary_def)
  with 3 us show ?case by (auto simp: boundary_def starts_slash)
next
  case (4 n segs us)
  then obtain u ws where us: "us = u # ws" "u \<noteq> []" by (cases us) auto
  have "boundary (slashed ws @ tail)" using 4 by (cases ws) (auto simp: boundary_def)
  then have "takeWhile (\<lambda>c. c \<noteq> CHR ''/'') (u @ slashed ws @ tail) = u"
    using 4 us by (cases "slashed ws @ tail") (auto simp: boundary_def takeWhile_append)
  with 4 us show ?case by (simp add: Let_def)
qed (auto simp: or_root_def)

text \<open>A prefix without trailing slash or catch-all is stripped from a request path exactly
  when the path starts with whole segments the prefix matches, and what is left is the path
  after them, the root when nothing is.\<close>

theorem strip_prefix_whole_segments:
  assumes "list_all plain_segment (segments pre)" "boundary path"
  shows "strip_path_prefix path pre = Some r \<longleftrightarrow>
    (\<exists>us tail. path = slashed us @ tail \<and> boundary tail \<and> seg_matches (segments pre) us \<and>
      (\<forall>u \<in> set us. CHR ''/'' \<notin> set u) \<and> r = or_root tail)"
  using strip_loop_sound [OF _ assms, of r] strip_loop_complete [OF _ assms(1)]
  by (auto simp: strip_path_prefix_def)

lemma strip_prefix_whole_segments_witness:
  "strip_path_prefix ''/tenants/42/x'' ''/tenants/{id}'' = Some ''/x''"
proof -
  have s: "segments ''/tenants/{id}'' = [Static ''tenants'', Param ''id'']" by code_simp
  have "list_all plain_segment (segments ''/tenants/{id}'')" "boundary ''/tenants/42/x''"
    using s by (simp_all add: boundary_def)
  from strip_prefix_whole_segments [OF this, of "''/x''"] show ?thesis
    by (rule iffD2) (intro exI [of _ "[''tenants'', ''42'']"] exI [of _ "''/x''"],
      simp add: s boundary_def or_root_def del: segments_Cons)
qed

subsection \<open>The body limit\<close>

definition DEFAULT_BODY_LIMIT :: nat where
  "DEFAULT_BODY_LIMIT = 2 * 1024 * 1024"

definition USIZE_MAX :: nat where
  "USIZE_MAX = 2 ^ 64 - 1"

record body_limit_layer =
  bl_path :: route_path
  bl_kind :: body_limit_kind

definition body_limit_max :: "nat \<Rightarrow> body_limit_layer" where
  "body_limit_max n = \<lparr>bl_path = [], bl_kind = Limit n\<rparr>"

definition body_limit_disable :: body_limit_layer where
  "body_limit_disable = \<lparr>bl_path = [], bl_kind = Disable\<rparr>"

definition body_limit_at :: "body_limit_layer \<Rightarrow> route_path \<Rightarrow> body_limit_layer" where
  "body_limit_at l p = l\<lparr>bl_path := p\<rparr>"

definition body_limit_handle :: "body_limit_layer \<Rightarrow> ('b, 'c) handler \<Rightarrow> ('b, 'c) handler" where
  "body_limit_handle l next_h cx body hs = next_h (cx\<lparr>cx_body_limit := Some (bl_kind l)\<rparr>) body hs"

definition limit_layer :: "body_limit_layer \<Rightarrow> ('b, 'c) layer" where
  "limit_layer l = \<lparr>l_path = Some (bl_path l), l_handle = body_limit_handle l\<rparr>"

definition body_limit :: "'c cx \<Rightarrow> nat" where
  "body_limit cx =
     (case cx_body_limit cx of
        Some (Limit n) \<Rightarrow> n
      | Some Disable \<Rightarrow> USIZE_MAX
      | None \<Rightarrow> DEFAULT_BODY_LIMIT)"

text \<open>The innermost limit wins: what the handler of a chain of limits sees.\<close>

lemma body_limit_chain:
  "next_run (map limit_layer bs) (TRoute h) cx body hs =
     h (cx\<lparr>cx_body_limit := (if bs = [] then cx_body_limit cx else Some (bl_kind (last bs)))\<rparr>) body hs"
  by (induction bs arbitrary: cx) (auto simp: limit_layer_def body_limit_handle_def)

end
