(* ===== verification/Tables.thy ===== *)
theory Tables
  imports Layers
begin

text \<open>
  The router's tables: \<^verbatim>\<open>Endpoints\<close> of \<^verbatim>\<open>endpoint.rs\<close> and \<^verbatim>\<open>Routes\<close> of \<^verbatim>\<open>route.rs\<close>
  (\<^verbatim>\<open>crates/topcoat-router/src\<close>).  The URL matcher inside \<^verbatim>\<open>Endpoints\<close> is \<^verbatim>\<open>matchit::Router\<close>,
  third-party code: its operations are the record \<open>'m matchit\<close>, an argument of everything
  that uses it, and \<open>matcher_ok\<close> states what the code relies on.
\<close>

subsection \<open>The URL matcher\<close>

datatype insert_error = Conflict str | OtherInsertError str

record 'm matchit =
  mi_empty :: 'm
  mi_insert :: "'m \<Rightarrow> str \<Rightarrow> endpoint_index \<Rightarrow> ('m, insert_error) result"
  mi_at :: "'m \<Rightarrow> str \<Rightarrow> (endpoint_index \<times> (str \<times> str) list) option"

text \<open>The documented behaviour of the matcher: it holds the patterns inserted, refuses one it
  holds already as a conflict, and answers a lookup with the value of a pattern it holds.\<close>

definition matcher_ok :: "'m matchit \<Rightarrow> ('m \<Rightarrow> (str \<times> endpoint_index) set) \<Rightarrow> bool" where
  "matcher_ok M contents \<longleftrightarrow>
     contents (mi_empty M) = {} \<and>
     (\<forall>m p v m'. mi_insert M m p v = Ok m' \<longrightarrow> contents m' = insert (p, v) (contents m)) \<and>
     (\<forall>m p v w. (p, w) \<in> contents m \<longrightarrow> (\<exists>c. mi_insert M m p v = Err (Conflict c))) \<and>
     (\<forall>m url v ps. mi_at M m url = Some (v, ps) \<longrightarrow> v \<in> snd ` contents m)"

lemma matcher_empty: "matcher_ok M c \<Longrightarrow> c (mi_empty M) = {}"
  and matcher_insert: "matcher_ok M c \<Longrightarrow> mi_insert M m p v = Ok m' \<Longrightarrow> c m' = insert (p, v) (c m)"
  and matcher_conflict: "matcher_ok M c \<Longrightarrow> (p, w) \<in> c m \<Longrightarrow> \<exists>x. mi_insert M m p v = Err (Conflict x)"
  and matcher_at: "matcher_ok M c \<Longrightarrow> mi_at M m url = Some (v, ps) \<Longrightarrow> v \<in> snd ` c m"
  unfolding matcher_ok_def by blast+

text \<open>A concrete matcher, for the witnesses: the patterns in insertion order, the first that
  matches the URL wins; it reports no captured values.\<close>

definition list_matcher :: "(str \<times> endpoint_index) list matchit" where
  "list_matcher =
     \<lparr>mi_empty = [],
      mi_insert = (\<lambda>m p v. if p \<in> fst ` set m then Err (Conflict p) else Ok (m @ [(p, v)])),
      mi_at = (\<lambda>m url. map_option (\<lambda>e. (snd e, []))
        (find (\<lambda>e. path_matches (if fst e = ''/'' then '''' else fst e) url) m))\<rparr>"

lemma find_in_set: "find P xs = Some x \<Longrightarrow> x \<in> set xs"
  by (induction xs) (auto split: if_splits)

lemma list_matcher_ok: "matcher_ok list_matcher set"
  unfolding matcher_ok_def
proof (intro conjI allI impI)
  fix m :: "(str \<times> endpoint_index) list" and url v ps
  assume "mi_at list_matcher m url = Some (v, ps)"
  then show "v \<in> snd ` set m" by (force simp: list_matcher_def dest!: find_in_set)
qed (force simp: list_matcher_def split: if_splits)+

subsection \<open>Endpoints\<close>

datatype build_panic =
    RouteConflict str
  | MatcherFailed str
  | BadEndpointPath path_error
  | DuplicateAny str
  | NoMethods route_path
  | DuplicateRoute http_method str
  | UnusedLayer route_path

record 'm endpoints =
  es_endpoints :: "endpoint list"
  es_matcher :: 'm

definition endpoints_default :: "'m matchit \<Rightarrow> 'm endpoints" where
  "endpoints_default M = \<lparr>es_endpoints = [], es_matcher = mi_empty M\<rparr>"

text \<open>\<^verbatim>\<open>try_push\<close>: a conflict is its error, any other refusal panics.\<close>

definition try_push :: "'m matchit \<Rightarrow> 'm endpoints \<Rightarrow> str \<Rightarrow> endpoint
    \<Rightarrow> ((endpoint_index \<times> 'm endpoints, str) result, build_panic) result" where
  "try_push M es path e =
     (let index = length (es_endpoints es)
      in case mi_insert M (es_matcher es) path index of
           Inr m \<Rightarrow> Ok (Ok (index, es\<lparr>es_endpoints := es_endpoints es @ [e], es_matcher := m\<rparr>))
         | Inl (Conflict w) \<Rightarrow> Ok (Err w)
         | Inl (OtherInsertError err) \<Rightarrow> Err (MatcherFailed err))"

definition push_endpoint :: "'m matchit \<Rightarrow> 'm endpoints \<Rightarrow> str \<Rightarrow> endpoint
    \<Rightarrow> (endpoint_index \<times> 'm endpoints, build_panic) result" where
  "push_endpoint M es path e =
     and_then (try_push M es path e)
       (\<lambda>r. case r of Inr x \<Rightarrow> Ok x | Inl w \<Rightarrow> Err (RouteConflict w))"

definition endpoint_indices :: "'m endpoints \<Rightarrow> endpoint_index list" where
  "endpoint_indices es = [0..<length (es_endpoints es)]"

definition endpoints_at :: "'m matchit \<Rightarrow> 'm endpoints \<Rightarrow> str
    \<Rightarrow> (endpoint_index \<times> endpoint \<times> (str \<times> str) list) option" where
  "endpoints_at M es url =
     (case mi_at M (es_matcher es) url of
        None \<Rightarrow> None
      | Some (index, params) \<Rightarrow> Some (index, es_endpoints es ! index, params))"

definition update_endpoint :: "'m endpoints \<Rightarrow> endpoint_index \<Rightarrow> (endpoint \<Rightarrow> endpoint) \<Rightarrow> 'm endpoints" where
  "update_endpoint es i f = es\<lparr>es_endpoints := (es_endpoints es)[i := f (es_endpoints es ! i)]\<rparr>"

text \<open>Every value the matcher holds is the index of an endpoint, each of its own.\<close>

definition endpoints_inv :: "('m \<Rightarrow> (str \<times> endpoint_index) set) \<Rightarrow> 'm endpoints \<Rightarrow> bool" where
  "endpoints_inv contents es \<longleftrightarrow>
     snd ` contents (es_matcher es) = {..<length (es_endpoints es)} \<and>
     inj_on fst (contents (es_matcher es)) \<and> inj_on snd (contents (es_matcher es)) \<and>
     list_all wf_endpoint (es_endpoints es)"

lemma endpoints_inv_unique:
  assumes "endpoints_inv c es" "(k, i) \<in> c (es_matcher es)"
  shows "(k', i) \<in> c (es_matcher es) \<Longrightarrow> k' = k" "(k, j) \<in> c (es_matcher es) \<Longrightarrow> j = i"
    "i < length (es_endpoints es)"
proof -
  have i: "inj_on fst (c (es_matcher es))" "inj_on snd (c (es_matcher es))"
    "snd ` c (es_matcher es) = {..<length (es_endpoints es)}"
    using assms(1) by (auto simp: endpoints_inv_def)
  show "(k', i) \<in> c (es_matcher es) \<Longrightarrow> k' = k" using inj_onD [OF i(2), of "(k', i)" "(k, i)"] assms(2) by simp
  show "(k, j) \<in> c (es_matcher es) \<Longrightarrow> j = i" using inj_onD [OF i(1), of "(k, j)" "(k, i)"] assms(2) by simp
  from assms(2) have "i \<in> snd ` c (es_matcher es)" by force
  then show "i < length (es_endpoints es)" by (simp add: i(3))
qed

lemma push_endpoint_Ok: "push_endpoint M es p e = Ok x \<longleftrightarrow> try_push M es p e = Ok (Ok x)"
  by (cases "try_push M es p e") (auto simp: push_endpoint_def split: sum.splits)

lemma endpoints_inv_default: "matcher_ok M c \<Longrightarrow> endpoints_inv c (endpoints_default M)"
  by (simp add: endpoints_inv_def endpoints_default_def matcher_empty)

lemma try_push_Ok:
  assumes "try_push M es p e = Ok (Ok (i, es'))"
  shows "i = length (es_endpoints es)" "es_endpoints es' = es_endpoints es @ [e]"
    "mi_insert M (es_matcher es) p i = Ok (es_matcher es')"
  using assms by (auto simp: try_push_def Let_def split: sum.splits insert_error.splits)

lemma endpoints_inv_push:
  assumes "matcher_ok M c" "endpoints_inv c es" "wf_endpoint e" "try_push M es p e = Ok (Ok (i, es'))"
  shows "endpoints_inv c es'" "c (es_matcher es') = insert (p, i) (c (es_matcher es))"
    "p \<notin> fst ` c (es_matcher es)"
proof -
  note o = try_push_Ok [OF assms(4)]
  show ins: "c (es_matcher es') = insert (p, i) (c (es_matcher es))"
    using matcher_insert [OF assms(1) o(3)] .
  show new: "p \<notin> fst ` c (es_matcher es)"
  proof
    assume "p \<in> fst ` c (es_matcher es)"
    then obtain w where "(p, w) \<in> c (es_matcher es)" by auto
    from matcher_conflict [OF assms(1) this, of i] o(3) show False by auto
  qed
  have "i \<notin> snd ` c (es_matcher es)" using assms(2) o(1) by (simp add: endpoints_inv_def)
  with new ins assms(2,3) o(1,2) show "endpoints_inv c es'"
    by (auto simp: endpoints_inv_def inj_on_insert lessThan_Suc)
qed

lemma endpoints_inv_update:
  "endpoints_inv c es \<Longrightarrow> (\<And>e. wf_endpoint e \<Longrightarrow> wf_endpoint (f e)) \<Longrightarrow> endpoints_inv c (update_endpoint es i f)"
  by (cases "i < length (es_endpoints es)")
    (auto simp: endpoints_inv_def update_endpoint_def list_all_length nth_list_update)

lemma endpoints_at_index:
  assumes "matcher_ok M c" "endpoints_inv c es" "endpoints_at M es url = Some (i, e, ps)"
  shows "i < length (es_endpoints es)" "e = es_endpoints es ! i"
  using assms matcher_at [OF assms(1)] by (force simp: endpoints_at_def endpoints_inv_def split: option.splits)+

subsection \<open>Routes\<close>

record ('b, 'c) routes =
  rr_routes :: "(('b, 'c) route \<times> ('b, 'c) layer list) list"
  rr_lookup :: "nat \<rightharpoonup> endpoint_index"

definition routes_default :: "('b, 'c) routes" where
  "routes_default = \<lparr>rr_routes = [], rr_lookup = Map.empty\<rparr>"

definition routes_push :: "('b, 'c) routes \<Rightarrow> ('b, 'c) route \<Rightarrow> endpoint_index \<Rightarrow> ('b, 'c) layer list
    \<Rightarrow> route_index \<times> ('b, 'c) routes" where
  "routes_push rs r endpoint layers =
     (length (rr_routes rs),
      rs\<lparr>rr_lookup := (rr_lookup rs)(rt_id r \<mapsto> endpoint), rr_routes := rr_routes rs @ [(r, layers)]\<rparr>)"

definition route_endpoint_index :: "('b, 'c) routes \<Rightarrow> nat \<Rightarrow> endpoint_index option" where
  "route_endpoint_index rs i = rr_lookup rs i"

text \<open>\<^verbatim>\<open>RouteWithLayers::handle\<close>.\<close>

definition route_with_layers :: "('b, 'c) route \<times> ('b, 'c) layer list \<Rightarrow> ('b, 'c) handler" where
  "route_with_layers rl = next_run (snd rl) (TRoute (rt_handle (fst rl)))"

end
