(* ===== verification/Trailing_Slash.thy ===== *)
theory Trailing_Slash
  imports Tables
begin

text \<open>
  Trailing slashes: \<^verbatim>\<open>crates/topcoat-router/src/trailing_slash.rs\<close>.  Once every route is
  registered, each endpoint's path gets its other trailing-slash form as an endpoint of its
  own, serving the same routes or redirecting; a form some route claims is left alone.  The
  process-wide counter behind \<^verbatim>\<open>RouteId::new\<close> is passed along as the next id.
\<close>

datatype trailing_slash = Redirect | Serve | Strict

definition trailing_slash_default :: trailing_slash where
  "trailing_slash_default = Redirect"

definition twin :: "route_path \<Rightarrow> route_path option" where
  "twin path =
     (case segs_next_back (path_segments_new path) of
        (None, _) \<Rightarrow> None
      | (Some segment, it) \<Rightarrow>
          (case segment of
             CatchAll _ \<Rightarrow> None
           | Static e \<Rightarrow> if e = [] then Some (collect_path (segs_collect it))
                         else Some (push_segment path (Static []))
           | _ \<Rightarrow> Some (push_segment path (Static []))))"

definition toggled :: "route_path \<Rightarrow> str \<Rightarrow> str" where
  "toggled own request_path =
     (if has_trailing_slash own then butlast request_path else request_path @ ''/'')"

definition redirect_route_target :: "route_path \<Rightarrow> uri \<Rightarrow> str" where
  "redirect_route_target own request =
     (let target = toggled own (uri_path request)
      in case uri_query request of
           Some query \<Rightarrow> target @ ''?'' @ query
         | None \<Rightarrow> target)"

definition redirect_route_handle :: "(str \<Rightarrow> str) \<Rightarrow> route_path \<Rightarrow> ('b, 'c) handler" where
  "redirect_route_handle enc own cx body hs =
     bind_outcome (redirect_permanent enc (redirect_route_target own (p_uri (cx_parts cx))))
       (\<lambda>e. Done (Err e, hs))"

definition redirect_route :: "(str \<Rightarrow> str) \<Rightarrow> nat \<Rightarrow> route_path \<Rightarrow> ('b, 'c) route" where
  "redirect_route enc i path =
     \<lparr>rt_id = i, rt_methods = AnyMethod, rt_path = path, rt_handle = redirect_route_handle enc path\<rparr>"

type_synonym ('b, 'c, 'm) twin_state = "'m endpoints \<times> ('b, 'c) routes \<times> nat"

definition register_twin :: "trailing_slash \<Rightarrow> (str \<Rightarrow> str) \<Rightarrow> 'm matchit \<Rightarrow> ('b, 'c) layer list
    \<Rightarrow> endpoint_index \<Rightarrow> ('b, 'c, 'm) twin_state \<Rightarrow> (('b, 'c, 'm) twin_state, build_panic) result" where
  "register_twin policy enc M always index st =
     (let (es, rs, nid) = st; endpoint = es_endpoints es ! index
      in case twin (ep_path endpoint) of
           None \<Rightarrow> Ok st
         | Some path \<Rightarrow>
             and_then (try_push M es (to_matchit_path path)
                 (if policy = Serve then with_path endpoint path else endpoint_new path))
               (\<lambda>r. case r of
                  Inl _ \<Rightarrow> Ok st
                | Inr (twin_index, es) \<Rightarrow>
                    if policy = Redirect then
                      (let (route, rs) = routes_push rs (redirect_route enc nid path) twin_index always
                       in Ok (update_endpoint es twin_index (\<lambda>e. insert_any e route), rs, nid + 1))
                    else Ok (es, rs, nid)))"

fun twins_loop :: "trailing_slash \<Rightarrow> (str \<Rightarrow> str) \<Rightarrow> 'm matchit \<Rightarrow> ('b, 'c) layer list
    \<Rightarrow> endpoint_index list \<Rightarrow> ('b, 'c, 'm) twin_state \<Rightarrow> (('b, 'c, 'm) twin_state, build_panic) result" where
  "twins_loop policy enc M always [] st = Ok st"
| "twins_loop policy enc M always (i # is) st =
     and_then (register_twin policy enc M always i st) (twins_loop policy enc M always is)"

definition register_twins :: "trailing_slash \<Rightarrow> (str \<Rightarrow> str) \<Rightarrow> 'm matchit \<Rightarrow> ('b, 'c) layer list
    \<Rightarrow> ('b, 'c, 'm) twin_state \<Rightarrow> (('b, 'c, 'm) twin_state, build_panic) result" where
  "register_twins policy enc M always st =
     (if policy = Strict then Ok st
      else twins_loop policy enc M always (endpoint_indices (fst st)) st)"

subsection \<open>The other form of a path\<close>

lemma twin_segments:
  "twin p = (case rev (segments p) of
      [] \<Rightarrow> None
    | s # ss \<Rightarrow>
        (case s of CatchAll _ \<Rightarrow> None
         | Static e \<Rightarrow> if e = [] then Some (collect_path (rev ss)) else Some (push_segment p (Static []))
         | _ \<Rightarrow> Some (push_segment p (Static []))))"
proof (cases "segments p" rule: rev_cases)
  case Nil
  then show ?thesis by (simp add: twin_def segs_next_back_Nil segments_def)
next
  case (snoc ss s)
  with segs_next_back_snoc [of "path_segments_new p" ss s] show ?thesis
    by (cases "segs_next_back (path_segments_new p)") (auto simp: twin_def segments_def split: path_segment.splits)
qed

text \<open>The twin adds or removes one empty final segment.\<close>

lemma twin_cases:
  assumes "valid_path p" "twin p = Some q"
  obtains (add) "segments q = segments p @ [Static []]" "list_all valid_segment (segments p)" "segments p \<noteq> []"
      "valid_path q"
    | (drop) "segments p = segments q @ [Static []]" "list_all valid_segment (segments q)" "segments q \<noteq> []"
      "valid_path q"
proof -
  let ?ss = "segments p"
  have wf: "wf_segments ?ss" and r: "render ?ss = p" using valid_path_reads [OF assms(1)] by auto
  from wf show thesis
  proof (cases rule: wf_segments_cases)
    case plain
    with assms(2) have q: "q = push_segment p (Static [])" and ne: "?ss \<noteq> []"
      by (cases ?ss rule: rev_cases; force simp: twin_segments split: path_segment.splits if_splits)+
    then have "q = render (?ss @ [Static []])"
      using push_segment_render [OF wf, of "Static []"] r plain by (simp add: drop_trailing_valid)
    moreover have "wf_segments (?ss @ [Static []])" using plain ne by (simp add: wf_segments_iff)
    ultimately have "segments q = ?ss @ [Static []]" "valid_path q"
      using wf_segments_renders by blast+
    with plain ne show thesis using add by blast
  next
    case (slashed vs)
    with assms(2) have "q = collect_path vs" by (simp add: twin_segments)
    then have "q = render vs" using collect_valid slashed(3) by simp
    then have "segments q = vs" "valid_path q"
      using wf_segments_renders [OF wf_segments_valid [OF slashed(3)]] by auto
    with slashed show thesis using drop by blast
  qed
qed

lemma twin_valid: "valid_path p \<Longrightarrow> twin p = Some q \<Longrightarrow> valid_path q"
  by (erule twin_cases)

text \<open>Taking the other form twice gives the path back, unless dropping the slash uncovers a
  catch-all, which has no other form.\<close>

theorem twin_involution:
  assumes "valid_path p" "twin p = Some q"
  shows "valid_path q \<and> p \<noteq> q \<and> has_trailing_slash q = (\<not> has_trailing_slash p) \<and>
    (twin q = Some p \<or> (\<exists>n. last (segments q) = CatchAll n \<and> has_trailing_slash p))"
proof -
  have p: "render (segments p) = p" "wf_segments (segments p)" using valid_path_reads assms(1) by auto
  from assms show ?thesis
  proof (cases rule: twin_cases)
    case add
    have q: "render (segments q) = q" "wf_segments (segments q)" using valid_path_reads add(4) by auto
    have "twin q = Some p"
      using add p by (simp add: twin_segments collect_valid)
    with add p q show ?thesis
      using has_trailing_iff [OF p(2)] has_trailing_iff [OF q(2)]
      by (cases "segments p" rule: rev_cases) auto
  next
    case drop
    have q: "render (segments q) = q" "wf_segments (segments q)" using valid_path_reads drop(4) by auto
    obtain ss s where s: "segments q = ss @ [s]" using drop(3) by (metis rev_exhaust)
    then have "valid_segment s" using drop(2) by simp
    have "push_segment q (Static []) = p"
      using push_segment_render [OF q(2), of "Static []"] drop(1,2) p q by (simp add: drop_trailing_valid)
    then have "twin q = Some p \<or> (\<exists>n. s = CatchAll n)"
      using s \<open>valid_segment s\<close> by (cases s) (auto simp: twin_segments)
    with drop p q s \<open>valid_segment s\<close> show ?thesis
      using has_trailing_iff [OF p(2)] has_trailing_iff [OF q(2)] by auto
  qed
qed

lemma twin_involution_witness: "twin ''/users'' = Some ''/users/'' \<and> twin ''/users/'' = Some ''/users''"
proof -
  have t: "valid_path ''/users''" "twin ''/users'' = Some ''/users/''" by code_simp+
  have "segments ''/users/'' = [Static ''users'', Static '''']" by code_simp
  with twin_involution [OF t] t(2) show ?thesis by (simp del: segments_Cons)
qed

subsection \<open>The redirect leads to the declared form\<close>

definition plain_pattern :: "route_path \<Rightarrow> bool" where
  "plain_pattern p \<longleftrightarrow> list_all (\<lambda>s. \<not> is_group s \<and> \<not> is_catch_all s) (segments p)"

definition plain_seg :: "path_segment \<Rightarrow> bool" where
  "plain_seg s \<longleftrightarrow> valid_segment s \<and> \<not> is_group s \<and> \<not> is_catch_all s"

fun seg_one :: "path_segment \<Rightarrow> str \<Rightarrow> bool" where
  "seg_one (Static e) u \<longleftrightarrow> u = e"
| "seg_one _ u \<longleftrightarrow> u \<noteq> []"

lemma seg_matches_plain:
  "plain_seg s \<Longrightarrow> seg_matches (s # ss) us \<longleftrightarrow> us \<noteq> [] \<and> seg_one s (hd us) \<and> seg_matches ss (tl us)"
  by (cases s) (auto simp: plain_seg_def)

lemma seg_one_not_empty: "plain_seg s \<Longrightarrow> seg_one s u \<Longrightarrow> u \<noteq> []"
  by (cases s) (auto simp: plain_seg_def)

lemma seg_matches_snoc:
  "list_all plain_seg ss \<Longrightarrow>
   seg_matches (ss @ [Static []]) us \<longleftrightarrow> (\<exists>ws. us = ws @ [[]] \<and> seg_matches ss ws)"
proof (induction ss arbitrary: us)
  case (Cons s ss)
  then have s: "plain_seg s" by simp
  show ?case
  proof (cases us)
    case Nil
    with s show ?thesis by (simp add: seg_matches_plain)
  next
    case us: (Cons u vs)
    have "(\<exists>ws. us = ws @ [[]] \<and> seg_matches (s # ss) ws) \<longleftrightarrow>
        seg_one s u \<and> (\<exists>ws. vs = ws @ [[]] \<and> seg_matches ss ws)"
      using us s by (auto simp: seg_matches_plain Cons_eq_append_conv intro: exI [of _ "u # _"])
    with us s Cons show ?thesis by (simp add: seg_matches_plain)
  qed
qed simp

lemma seg_matches_length:
  "list_all plain_seg ss \<Longrightarrow> seg_matches ss us \<Longrightarrow> length us = length ss \<and> [] \<notin> set us"
proof (induction ss arbitrary: us)
  case (Cons s ss)
  then obtain u vs where us: "us = u # vs" "seg_one s u" "seg_matches ss vs"
    by (cases us) (auto simp: seg_matches_plain)
  moreover have "u \<noteq> []" using Cons.prems us seg_one_not_empty by auto
  ultimately show ?case using Cons by auto
qed simp

lemma url_segments_slash: "url_segments (CHR ''/'' # body) = (if body = [] then [] else slashes body)"
  by (simp add: url_segments_def)

lemma slashes_slash_end: "slashes (b @ ''/'') = slashes b @ [[]]"
  by (subst split_on_snoc) auto

lemma toggled_segments:
  assumes "list_all plain_seg ss" "ss \<noteq> []"
  shows "seg_matches (ss @ [Static []]) (url_segments (CHR ''/'' # body)) \<Longrightarrow>
      seg_matches ss (url_segments (butlast (CHR ''/'' # body)))"
    and "seg_matches ss (url_segments (CHR ''/'' # body)) \<Longrightarrow>
      seg_matches (ss @ [Static []]) (url_segments ((CHR ''/'' # body) @ ''/''))"
proof -
  assume "seg_matches (ss @ [Static []]) (url_segments (CHR ''/'' # body))"
  then obtain ws where ws: "url_segments (CHR ''/'' # body) = ws @ [[]]" "seg_matches ss ws"
    using seg_matches_snoc [OF assms(1)] by blast
  then have b: "body \<noteq> []" "slashes body = ws @ [[]]" by (auto simp: url_segments_slash split: if_splits)
  have ne: "ws \<noteq> []" "[] \<notin> set ws" using seg_matches_length [OF assms(1) ws(2)] assms(2) by auto
  have "\<not> (CHR ''/'' \<notin> set body)"
  proof
    assume "CHR ''/'' \<notin> set body"
    then have "slashes body = [body]" by (intro split_on_none) auto
    with b ne show False by simp
  qed
  then obtain c d where cd: "rsplit_once CHR ''/'' body = Some (c, d)"
    by (cases "rsplit_once CHR ''/'' body") (auto simp: rsplit_once_None_iff)
  then have "slashes body = slashes c @ [d]"
    by (subst split_on_rsplit_once) simp
  with b have d: "d = []" "slashes c = ws" by auto
  then have body: "body = c @ ''/''" using cd by (simp add: rsplit_once_Some_iff)
  have "c \<noteq> []" using d ne by auto
  with body d ws show "seg_matches ss (url_segments (butlast (CHR ''/'' # body)))"
    by (simp add: url_segments_slash butlast_append)
next
  assume m: "seg_matches ss (url_segments (CHR ''/'' # body))"
  then have "url_segments (CHR ''/'' # body) \<noteq> []"
    using seg_matches_length [OF assms(1)] assms(2) by force
  then have "body \<noteq> []" by (auto simp: url_segments_slash)
  with m show "seg_matches (ss @ [Static []]) (url_segments ((CHR ''/'' # body) @ ''/''))"
    using seg_matches_snoc [OF assms(1)] by (simp add: url_segments_slash slashes_slash_end)
qed

text \<open>A request whose path matches the other form of a pattern is redirected to a path the
  declared form matches.\<close>

theorem redirect_reaches_declared:
  assumes "valid_path p" "plain_pattern p" "twin p = Some q"
    and "path_matches q (CHR ''/'' # body)"
  shows "path_matches p (toggled q (CHR ''/'' # body))"
  using assms(1,3)
proof (cases rule: twin_cases)
  case add
  have q: "has_trailing_slash q"
    using has_trailing_iff [of "segments q"] valid_path_reads [OF add(4)] add(1) by simp
  have pl: "list_all plain_seg (segments p)"
    using add(2) assms(2) by (auto simp: plain_pattern_def plain_seg_def list_all_iff)
  show ?thesis
    using toggled_segments(1) [OF pl add(3), of body] assms(4) add(1) q
    by (simp add: path_matches_segments toggled_def)
next
  case drop
  obtain ss s where s: "segments q = ss @ [s]" using drop(3) by (metis rev_exhaust)
  have q: "\<not> has_trailing_slash q"
    using has_trailing_iff [of "segments q"] valid_path_reads [OF drop(4)] s drop(2) by auto
  have pl: "list_all plain_seg (segments q)"
    using drop(1,2) assms(2) by (auto simp: plain_pattern_def plain_seg_def list_all_iff)
  show ?thesis
    using toggled_segments(2) [OF pl drop(3), of body] assms(4) drop(1) q
    by (simp add: path_matches_segments toggled_def)
qed

lemma redirect_reaches_declared_witness: "path_matches ''/users/{id}'' ''/users/7''"
proof -
  have a: "valid_path ''/users/{id}''" "plain_pattern ''/users/{id}''"
    "twin ''/users/{id}'' = Some ''/users/{id}/''" "path_matches ''/users/{id}/'' (CHR ''/'' # ''users/7/'')"
    by code_simp+
  have "toggled ''/users/{id}/'' (CHR ''/'' # ''users/7/'') = ''/users/7''" by code_simp
  with redirect_reaches_declared [OF a] show ?thesis by simp
qed

subsection \<open>Registering the twins\<close>

text \<open>An endpoint that is the other form of one of \<open>eps\<close>: it serves the same routes, or a
  redirect inside the pathless layers.\<close>

definition twin_endpoint :: "trailing_slash \<Rightarrow> (str \<Rightarrow> str) \<Rightarrow> ('b, 'c) layer list \<Rightarrow> endpoint list
    \<Rightarrow> (('b, 'c) route \<times> ('b, 'c) layer list) list \<Rightarrow> endpoint \<Rightarrow> bool" where
  "twin_endpoint policy enc always eps routes e \<longleftrightarrow>
     (\<exists>d \<in> set eps. twin (ep_path d) = Some (ep_path e) \<and>
        (if policy = Serve then (\<forall>m. endpoint_get e m = endpoint_get d m) \<and> ep_any e = ep_any d
         else policy = Redirect \<and> (\<forall>m. endpoint_get e m = None) \<and>
           (\<exists>r i. ep_any e = Some r \<and> r < length routes \<and>
              routes ! r = (redirect_route enc i (ep_path e), always))))"

definition twin_inv :: "trailing_slash \<Rightarrow> (str \<Rightarrow> str) \<Rightarrow> ('m \<Rightarrow> (str \<times> endpoint_index) set)
    \<Rightarrow> ('b, 'c) layer list \<Rightarrow> ('b, 'c, 'm) twin_state \<Rightarrow> ('b, 'c, 'm) twin_state \<Rightarrow> bool" where
  "twin_inv policy enc c always st0 st \<longleftrightarrow>
     (\<exists>extra others. es_endpoints (fst st) = es_endpoints (fst st0) @ extra \<and>
        rr_routes (fst (snd st)) = rr_routes (fst (snd st0)) @ others \<and>
        c (es_matcher (fst st0)) \<subseteq> c (es_matcher (fst st)) \<and>
        endpoints_inv c (fst st) \<and>
        (\<forall>e \<in> set extra. twin_endpoint policy enc always (es_endpoints (fst st0)) (rr_routes (fst (snd st))) e))"

lemma twin_endpoint_mono:
  "twin_endpoint policy enc always eps routes e \<Longrightarrow> twin_endpoint policy enc always eps (routes @ others) e"
  unfolding twin_endpoint_def by (force simp: nth_append)

lemma register_twin_inv:
  assumes M: "matcher_ok M c" and inv: "twin_inv policy enc c always st0 st"
    and i: "i < length (es_endpoints (fst st0))" and pol: "policy \<noteq> Strict"
    and ok: "register_twin policy enc M always i st = Ok st'"
  shows "twin_inv policy enc c always st0 st'"
proof -
  obtain es rs nid where st: "st = (es, rs, nid)" by (cases st)
  obtain extra others where e: "es_endpoints es = es_endpoints (fst st0) @ extra"
    "rr_routes rs = rr_routes (fst (snd st0)) @ others" "c (es_matcher (fst st0)) \<subseteq> c (es_matcher es)"
    "endpoints_inv c es"
    "\<forall>e \<in> set extra. twin_endpoint policy enc always (es_endpoints (fst st0)) (rr_routes rs) e"
    using inv by (auto simp: twin_inv_def st)
  let ?d = "es_endpoints (fst st0) ! i"
  have d: "es_endpoints es ! i = ?d" "?d \<in> set (es_endpoints (fst st0))" using e(1) i by (simp_all add: nth_append)
  show ?thesis
  proof (cases "twin (ep_path ?d)")
    case None
    with ok inv st d show ?thesis by (simp add: register_twin_def)
  next
    case (Some path)
    let ?new = "if policy = Serve then with_path ?d path else endpoint_new path"
    have wf: "wf_endpoint ?new"
      using e(1,4) d(2) by (auto simp: endpoints_inv_def list_all_iff intro: wf_endpoint_with_path)
    show ?thesis
    proof (cases "try_push M es (to_matchit_path path) ?new")
      case (Inl p)
      with ok Some st d show ?thesis by (simp add: register_twin_def)
    next
      case (Inr r)
      show ?thesis
      proof (cases r)
        case (Inl w)
        with ok Inr Some st d inv show ?thesis by (simp add: register_twin_def)
      next
        case (Inr tw)
        obtain ti es' where tw: "tw = (ti, es')" by (cases tw)
        have push: "try_push M es (to_matchit_path path) ?new = Ok (Ok (ti, es'))"
          using \<open>try_push M es (to_matchit_path path) ?new = Inr r\<close> Inr tw by simp
        note o = try_push_Ok [OF push] and inv' = endpoints_inv_push [OF M e(4) wf push]
        show ?thesis
        proof (cases "policy = Serve")
          case True
          then have st': "st' = (es', rs, nid)"
            using ok Some st d push by (simp add: register_twin_def)
          have "twin_endpoint policy enc always (es_endpoints (fst st0)) (rr_routes rs) (with_path ?d path)"
            using True Some d(2) by (auto simp: twin_endpoint_def)
          with True st' o e inv' show ?thesis
            by (auto simp: twin_inv_def intro!: exI [of _ "extra @ [with_path ?d path]"])
        next
          case False
          let ?r = "(redirect_route enc nid path, always)"
          let ?rs = "snd (routes_push rs (redirect_route enc nid path) ti always)"
          let ?e = "insert_any (endpoint_new path) (length (rr_routes rs))"
          have R: "policy = Redirect" using False pol by (cases policy) auto
          then have st': "st' = (update_endpoint es' ti (\<lambda>e. insert_any e (length (rr_routes rs))), ?rs, nid + 1)"
            using ok Some st d push False by (simp add: register_twin_def routes_push_def)
          have rs': "rr_routes ?rs = rr_routes rs @ [?r]" by (simp add: routes_push_def)
          have es'': "es_endpoints (fst st') = es_endpoints (fst st0) @ extra @ [?e]"
            using st' o(1,2) e(1) False
              list_update_length [of "es_endpoints (fst st0) @ extra" "endpoint_new path" "[]" ?e]
            by (simp add: update_endpoint_def)
          have inv'': "endpoints_inv c (fst st')"
            using st' inv'(1) wf_endpoint_any by (simp add: endpoints_inv_update)
          have "twin_endpoint policy enc always (es_endpoints (fst st0)) (rr_routes rs @ [?r]) ?e"
            using R Some d(2) by (auto simp: twin_endpoint_def nth_append)
          moreover have "\<forall>e \<in> set extra. twin_endpoint policy enc always (es_endpoints (fst st0)) (rr_routes rs @ [?r]) e"
            using e(5) twin_endpoint_mono by blast
          ultimately show ?thesis
            using es'' inv'' st' rs' e(2,3) inv'(2)
            unfolding twin_inv_def
            by (intro exI [of _ "extra @ [?e]"] exI [of _ "others @ [?r]"])
              (auto simp: update_endpoint_def)
        qed
      qed
    qed
  qed
qed

lemma twins_loop_inv:
  assumes "matcher_ok M c" "policy \<noteq> Strict"
  shows "twins_loop policy enc M always is st = Ok st' \<Longrightarrow> twin_inv policy enc c always st0 st \<Longrightarrow>
    (\<forall>i \<in> set is. i < length (es_endpoints (fst st0))) \<Longrightarrow> twin_inv policy enc c always st0 st'"
proof (induction "is" arbitrary: st)
  case (Cons i js)
  then obtain st1 where "register_twin policy enc M always i st = Ok st1"
    and "twins_loop policy enc M always js st1 = Ok st'"
    by (auto simp: and_then_Ok_iff)
  moreover from this have "twin_inv policy enc c always st0 st1"
    using Cons.prems(3) by (intro register_twin_inv [OF assms(1) Cons.prems(2) _ assms(2)]) auto
  ultimately show ?case using Cons.IH Cons.prems(3) by simp
qed simp

lemma twin_inv_refl: "endpoints_inv c (fst st) \<Longrightarrow> twin_inv policy enc c always st st"
  by (simp add: twin_inv_def)

lemma register_twins_inv:
  assumes "matcher_ok M c" "endpoints_inv c (fst st)" "register_twins policy enc M always st = Ok st'"
  shows "twin_inv policy enc c always st st'"
proof (cases "policy = Strict")
  case True
  with assms show ?thesis by (auto simp: register_twins_def intro: twin_inv_refl)
next
  case False
  with assms show ?thesis
    by (intro twins_loop_inv [OF assms(1) False _ twin_inv_refl [OF assms(2)]])
      (auto simp: register_twins_def endpoint_indices_def)
qed

text \<open>Every path with another form got it, or the matcher refused that form as taken.\<close>

definition twin_settled :: "'m matchit \<Rightarrow> ('m \<Rightarrow> (str \<times> endpoint_index) set) \<Rightarrow> 'm endpoints
    \<Rightarrow> 'm endpoints \<Rightarrow> route_path \<Rightarrow> bool" where
  "twin_settled M c es0 es q \<longleftrightarrow>
     (\<exists>j \<ge> length (es_endpoints es0). j < length (es_endpoints es) \<and> ep_path (es_endpoints es ! j) = q) \<or>
     (\<exists>m k w. c m \<subseteq> c (es_matcher es) \<and> mi_insert M m (to_matchit_path q) k = Err (Conflict w))"

lemma twin_inv_trans:
  "twin_inv policy enc c always st0 st \<Longrightarrow> length (es_endpoints (fst st0)) \<le> length (es_endpoints (fst st))"
  by (auto simp: twin_inv_def)

text \<open>What a step keeps: the paths of the endpoints there are, and the matcher's contents.\<close>

lemma register_twin_keeps:
  assumes "matcher_ok M c" "register_twin policy enc M always i st = Ok st'"
  shows "map ep_path (es_endpoints (fst st)) =
      take (length (es_endpoints (fst st))) (map ep_path (es_endpoints (fst st')))"
    and "c (es_matcher (fst st)) \<subseteq> c (es_matcher (fst st'))"
    and "twin (ep_path (es_endpoints (fst st) ! i)) = Some q \<Longrightarrow> twin_settled M c (fst st) (fst st') q"
proof -
  obtain es rs nid where st: "st = (es, rs, nid)" by (cases st)
  let ?d = "es_endpoints es ! i"
  have "map ep_path (es_endpoints es) = take (length (es_endpoints es)) (map ep_path (es_endpoints (fst st'))) \<and>
      c (es_matcher es) \<subseteq> c (es_matcher (fst st')) \<and>
      (twin (ep_path ?d) = Some q \<longrightarrow> twin_settled M c es (fst st') q)"
  proof (cases "twin (ep_path ?d)")
    case None
    with assms(2) st show ?thesis by (auto simp: register_twin_def)
  next
    case (Some path)
    let ?new = "if policy = Serve then with_path ?d path else endpoint_new path"
    obtain r where r: "try_push M es (to_matchit_path path) ?new = Ok r"
      using assms(2) Some st by (auto simp: register_twin_def Let_def and_then_Ok_iff)
    show ?thesis
    proof (cases r)
      case (Inl w)
      then have "st' = st" using assms(2) Some st r by (simp add: register_twin_def)
      moreover have "mi_insert M (es_matcher es) (to_matchit_path path) (length (es_endpoints es)) = Err (Conflict w)"
        using r Inl by (auto simp: try_push_def Let_def split: sum.splits insert_error.splits)
      ultimately show ?thesis using Some st by (auto simp: twin_settled_def)
    next
      case (Inr tw)
      obtain ti es' where tw: "tw = (ti, es')" by (cases tw)
      note o = try_push_Ok [OF r [unfolded Inr tw]]
      have path_new: "ep_path ?new = path" by simp
      have s: "map ep_path (es_endpoints (fst st')) = map ep_path (es_endpoints es) @ [path]"
        and m: "es_matcher (fst st') = es_matcher es'"
        using assms(2) Some st r Inr tw o path_new
        by (auto simp: register_twin_def routes_push_def update_endpoint_def map_update
            list_update_append split: if_splits)
      have l: "length (es_endpoints (fst st')) = Suc (length (es_endpoints es))"
        using arg_cong [OF s, of length] by simp
      have "ep_path (es_endpoints (fst st') ! length (es_endpoints es)) = path"
        using arg_cong [OF s, of "\<lambda>xs. xs ! length (es_endpoints es)"] l by (simp add: nth_append)
      moreover have "c (es_matcher es) \<subseteq> c (es_matcher es')"
        using matcher_insert [OF assms(1) o(3)] by blast
      ultimately show ?thesis using s m l Some by (auto simp: twin_settled_def)
    qed
  qed
  then show "map ep_path (es_endpoints (fst st)) =
      take (length (es_endpoints (fst st))) (map ep_path (es_endpoints (fst st')))"
    "c (es_matcher (fst st)) \<subseteq> c (es_matcher (fst st'))"
    "twin (ep_path (es_endpoints (fst st) ! i)) = Some q \<Longrightarrow> twin_settled M c (fst st) (fst st') q"
    using st by auto
qed

lemma twin_settled_mono:
  assumes "twin_settled M c es0 es q" "c (es_matcher es) \<subseteq> c (es_matcher es')"
    and "map ep_path (es_endpoints es) = take (length (es_endpoints es)) (map ep_path (es_endpoints es'))"
  shows "twin_settled M c es0 es' q"
proof -
  have l: "length (es_endpoints es) \<le> length (es_endpoints es')"
    using arg_cong [OF assms(3), of length] by simp
  have "ep_path (es_endpoints es' ! j) = ep_path (es_endpoints es ! j)" if "j < length (es_endpoints es)" for j
    using arg_cong [OF assms(3), of "\<lambda>xs. xs ! j"] that l by simp
  with assms(1,2) l show ?thesis unfolding twin_settled_def by (metis order_less_le_trans subset_trans)
qed

lemma twin_settled_start:
  assumes "twin_settled M c es1 es q" "length (es_endpoints es0) \<le> length (es_endpoints es1)"
  shows "twin_settled M c es0 es q"
  using assms(1) unfolding twin_settled_def
proof (elim disjE exE conjE)
  fix j
  assume "length (es_endpoints es1) \<le> j" "j < length (es_endpoints es)" "ep_path (es_endpoints es ! j) = q"
  with assms(2) show "(\<exists>j \<ge> length (es_endpoints es0). j < length (es_endpoints es) \<and>
      ep_path (es_endpoints es ! j) = q) \<or>
     (\<exists>m k w. c m \<subseteq> c (es_matcher es) \<and> mi_insert M m (to_matchit_path q) k = Err (Conflict w))"
    by (intro disjI1 exI [of _ j]) simp
qed blast

lemma twin_settled_added:
  assumes "twin_settled M c es0 es q" "es_endpoints es = es_endpoints es0 @ extra"
  shows "q \<in> set (map ep_path extra) \<or>
    (\<exists>m k w. c m \<subseteq> c (es_matcher es) \<and> mi_insert M m (to_matchit_path q) k = Err (Conflict w))"
  using assms(1) unfolding twin_settled_def
proof (elim disjE exE conjE)
  fix j
  assume "length (es_endpoints es0) \<le> j" "j < length (es_endpoints es)" "ep_path (es_endpoints es ! j) = q"
  then have "j - length (es_endpoints es0) < length extra"
    "ep_path (extra ! (j - length (es_endpoints es0))) = q"
    using assms(2) by (auto simp: nth_append)
  then have "q \<in> set (map ep_path extra)" by (metis length_map nth_map nth_mem)
  then show ?thesis ..
qed blast

lemma twins_loop_keeps:
  "matcher_ok M c \<Longrightarrow> twins_loop policy enc M always is st = Ok st' \<Longrightarrow>
   twin_settled M c es0 (fst st) q \<Longrightarrow> twin_settled M c es0 (fst st') q"
proof (induction "is" arbitrary: st)
  case (Cons i js)
  then obtain st1 where s: "register_twin policy enc M always i st = Ok st1"
    "twins_loop policy enc M always js st1 = Ok st'"
    by (auto simp: and_then_Ok_iff)
  from twin_settled_mono [OF Cons.prems(3) register_twin_keeps(2,1) [OF Cons.prems(1) s(1)]]
  show ?case using Cons.IH [OF Cons.prems(1) s(2)] by blast
qed simp

lemma twins_loop_settled:
  assumes "matcher_ok M c" "policy \<noteq> Strict"
  shows "twins_loop policy enc M always is st = Ok st' \<Longrightarrow> twin_inv policy enc c always st0 st \<Longrightarrow>
    (\<forall>i \<in> set is. i < length (es_endpoints (fst st0))) \<Longrightarrow>
    i \<in> set is \<Longrightarrow> twin (ep_path (es_endpoints (fst st0) ! i)) = Some q \<Longrightarrow>
    twin_settled M c (fst st0) (fst st') q"
proof (induction "is" arbitrary: st)
  case (Cons k js)
  then obtain st1 where s: "register_twin policy enc M always k st = Ok st1"
    "twins_loop policy enc M always js st1 = Ok st'"
    by (auto simp: and_then_Ok_iff)
  have inv1: "twin_inv policy enc c always st0 st1"
    using Cons.prems(3) by (intro register_twin_inv [OF assms(1) Cons.prems(2) _ assms(2) s(1)]) auto
  show ?case
  proof (cases "i = k")
    case True
    have "es_endpoints (fst st) ! i = es_endpoints (fst st0) ! i"
      using Cons.prems(2,3) True by (auto simp: twin_inv_def nth_append)
    then have "twin_settled M c (fst st) (fst st1) q"
      using register_twin_keeps(3) [OF assms(1) s(1), of q] Cons.prems(5) True by simp
    then have "twin_settled M c (fst st0) (fst st1) q"
      by (rule twin_settled_start) (rule twin_inv_trans [OF Cons.prems(2)])
    with twins_loop_keeps [OF assms(1) s(2)] show ?thesis by blast
  next
    case False
    with Cons.IH [OF s(2) inv1] Cons.prems(3,4,5) show ?thesis by simp
  qed
qed simp

text \<open>Registering the twins leaves the registered endpoints and routes as they are; under
  the strict policy it adds nothing, and otherwise every endpoint it adds is the other form of
  a registered one, serving the same routes or redirecting inside the pathless layers, and
  every registered path with another form has it unless the matcher refused the form as
  taken.\<close>

theorem register_twins_policy:
  assumes "matcher_ok M c" "endpoints_inv c (fst st)" "register_twins policy enc M always st = Ok st'"
  shows "\<exists>extra others. es_endpoints (fst st') = es_endpoints (fst st) @ extra \<and>
    rr_routes (fst (snd st')) = rr_routes (fst (snd st)) @ others \<and>
    (policy = Strict \<longrightarrow> st' = st) \<and>
    (\<forall>e \<in> set extra. twin_endpoint policy enc always (es_endpoints (fst st)) (rr_routes (fst (snd st'))) e) \<and>
    (policy \<noteq> Strict \<longrightarrow> (\<forall>e \<in> set (es_endpoints (fst st)). \<forall>q. twin (ep_path e) = Some q \<longrightarrow>
      q \<in> set (map ep_path extra) \<or>
      (\<exists>m k w. c m \<subseteq> c (es_matcher (fst st')) \<and> mi_insert M m (to_matchit_path q) k = Err (Conflict w))))"
proof -
  obtain extra others where e: "es_endpoints (fst st') = es_endpoints (fst st) @ extra"
    "rr_routes (fst (snd st')) = rr_routes (fst (snd st)) @ others"
    "\<forall>e \<in> set extra. twin_endpoint policy enc always (es_endpoints (fst st)) (rr_routes (fst (snd st'))) e"
    using register_twins_inv [OF assms] by (auto simp: twin_inv_def)
  have settled: "q \<in> set (map ep_path extra) \<or>
      (\<exists>m k w. c m \<subseteq> c (es_matcher (fst st')) \<and> mi_insert M m (to_matchit_path q) k = Err (Conflict w))"
    if "policy \<noteq> Strict" "d \<in> set (es_endpoints (fst st))" "twin (ep_path d) = Some q" for d q
  proof -
    from that(2) obtain i where i: "i < length (es_endpoints (fst st))" "es_endpoints (fst st) ! i = d"
      by (auto simp: in_set_conv_nth)
    have "twins_loop policy enc M always (endpoint_indices (fst st)) st = Ok st'"
      using assms(3) that(1) by (simp add: register_twins_def)
    then have "twin_settled M c (fst st) (fst st') q"
      using i that(3)
      by (intro twins_loop_settled [OF assms(1) that(1) _ twin_inv_refl [OF assms(2)], where i = i])
        (auto simp: endpoint_indices_def)
    then show ?thesis using e(1) by (rule twin_settled_added)
  qed
  have strict: "policy = Strict \<longrightarrow> st' = st" using assms(3) by (auto simp: register_twins_def)
  show ?thesis
    by (rule exI [of _ extra], rule exI [of _ others])
      (rule conjI, rule e(1), rule conjI, rule e(2), rule conjI, rule strict, rule conjI, rule e(3),
       intro impI ballI allI, rule settled)
qed

lemma register_twins_policy_witness:
  "\<exists>st' extra. register_twins Redirect (\<lambda>s. s) list_matcher []
      (\<lparr>es_endpoints = [endpoint_new ''/users''], es_matcher = [(''/users'', 0)]\<rparr>,
       routes_default :: (unit, unit) routes, 0) = Ok st' \<and>
    es_endpoints (fst st') = [endpoint_new ''/users''] @ extra"
proof -
  let ?es = "\<lparr>es_endpoints = [endpoint_new ''/users''], es_matcher = [(''/users'', 0)]\<rparr>"
  let ?st = "(?es, routes_default :: (unit, unit) routes, 0)"
  have inv: "endpoints_inv set (fst ?st)" by (auto simp: endpoints_inv_def)
  have t: "twin ''/users'' = Some ''/users/''" "to_matchit_path ''/users/'' = ''/users/''" by code_simp+
  obtain st' where st': "register_twins Redirect (\<lambda>s. s) list_matcher [] ?st = Ok st'"
    by (simp add: register_twins_def endpoint_indices_def register_twin_def t try_push_def
        list_matcher_def routes_push_def)
  from register_twins_policy [OF list_matcher_ok inv st'] st' show ?thesis by auto
qed

end
