(* ===== verification/Origin.thy ===== *)
theory Origin
  imports Layers
begin

text \<open>
  The origin policy: \<^verbatim>\<open>crates/topcoat-router/src/origin.rs\<close>.  The check is the cascade of early
  returns of \<^verbatim>\<open>OriginPolicy::check\<close>; the layer runs the rest of the chain or answers
  \<^verbatim>\<open>forbidden\<close>.
\<close>

datatype origin_policy =
    Verify "str list" "route_path list"
  | Disabled

definition origin_policy_new :: origin_policy where
  "origin_policy_new = Verify [] []"

fun trust_origins :: "origin_policy \<Rightarrow> str list \<Rightarrow> origin_policy" where
  "trust_origins (Verify trusted exempt) origins = Verify (trusted @ origins) exempt"
| "trust_origins Disabled origins = Disabled"

fun exempt_paths :: "origin_policy \<Rightarrow> route_path list \<Rightarrow> origin_policy" where
  "exempt_paths (Verify trusted exempt) paths = Verify trusted (exempt @ paths)"
| "exempt_paths Disabled paths = Disabled"

datatype origin_verdict = Allow | Deny

text \<open>\<^verbatim>\<open>HeaderValue::to_str\<close>: only visible ASCII, spaces and tabs read as a string.\<close>

definition header_to_str :: "str \<Rightarrow> str option" where
  "header_to_str v =
     (if list_all (\<lambda>c. let n = (of_char c :: nat) in (32 \<le> n \<and> n < 127) \<or> n = 9) v then Some v else None)"

definition header_str :: "'c cx \<Rightarrow> str \<Rightarrow> str option" where
  "header_str cx name = Option.bind (hm_get (p_headers (cx_parts cx)) name) header_to_str"

definition upgrades_to_websocket :: "'c cx \<Rightarrow> bool" where
  "upgrades_to_websocket cx \<longleftrightarrow>
     is_some_and (\<lambda>v. eq_ignore_ascii_case (trim_ascii v) ''websocket'') (header_str cx ''upgrade'')"

definition request_host :: "'c cx \<Rightarrow> str option" where
  "request_host cx =
     (case header_str cx ''host'' of
        Some h \<Rightarrow> Some h
      | None \<Rightarrow> uri_authority (p_uri (cx_parts cx)))"

text \<open>\<^verbatim>\<open>split_once("://")\<close>: what follows the first occurrence of the separator.\<close>

fun after_scheme :: "str \<Rightarrow> str option" where
  "after_scheme [] = None"
| "after_scheme (c # cs) =
     (case strip_prefix ''://'' (c # cs) of Some host \<Rightarrow> Some host | None \<Rightarrow> after_scheme cs)"

fun origin_check :: "origin_policy \<Rightarrow> 'c cx \<Rightarrow> origin_verdict" where
  "origin_check Disabled cx = Allow"
| "origin_check (Verify trusted exempt) cx =
     (if \<not> upgrades_to_websocket cx \<and> p_method (cx_parts cx) \<in> {''GET'', ''HEAD'', ''OPTIONS''} then Allow
      else if list_ex (\<lambda>path. path_matches path (uri_path (p_uri (cx_parts cx)))) exempt then Allow
      else (let origin = header_str cx ''origin''
            in if is_some_and (\<lambda>o'. list_ex (\<lambda>t. eq_ignore_ascii_case t o') trusted) origin then Allow
               else (case header_str cx ''sec-fetch-site'' of
                       Some site \<Rightarrow> if site \<in> {''same-origin'', ''none''} then Allow else Deny
                     | None \<Rightarrow>
                         (case origin of
                            Some o' \<Rightarrow>
                              (case request_host cx of
                                 Some host \<Rightarrow>
                                   (case after_scheme o' of
                                      Some o_host \<Rightarrow> if eq_ignore_ascii_case o_host host then Allow else Deny
                                    | None \<Rightarrow> Deny)
                               | None \<Rightarrow> Deny)
                          | None \<Rightarrow> Allow))))"

definition origin_handle :: "origin_policy \<Rightarrow> ('b, 'c) handler \<Rightarrow> ('b, 'c) handler" where
  "origin_handle policy next_h cx body hs =
     (case origin_check policy cx of
        Allow \<Rightarrow> next_h cx body hs
      | Deny \<Rightarrow> fail_with forbidden cx body hs)"

definition origin_layer :: "origin_policy \<Rightarrow> ('b, 'c) layer" where
  "origin_layer policy = \<lparr>l_path = None, l_handle = origin_handle policy\<rparr>"

subsection \<open>What the policy guarantees\<close>

definition state_changing :: "'c cx \<Rightarrow> bool" where
  "state_changing cx \<longleftrightarrow>
     p_method (cx_parts cx) \<notin> {''GET'', ''HEAD'', ''OPTIONS''} \<or> upgrades_to_websocket cx"

definition same_host :: "'c cx \<Rightarrow> str \<Rightarrow> bool" where
  "same_host cx o' \<longleftrightarrow>
     (\<exists>h scheme host. request_host cx = Some h \<and> o' = scheme @ ''://'' @ host \<and>
        after_scheme o' = Some host \<and> eq_ignore_ascii_case host h)"

text \<open>A request a browser marks as cross-origin, by either header.\<close>

definition cross_origin :: "'c cx \<Rightarrow> bool" where
  "cross_origin cx \<longleftrightarrow>
     (case header_str cx ''sec-fetch-site'' of
        Some site \<Rightarrow> site \<notin> {''same-origin'', ''none''}
      | None \<Rightarrow> (case header_str cx ''origin'' of Some o' \<Rightarrow> \<not> same_host cx o' | None \<Rightarrow> False))"

definition excused :: "str list \<Rightarrow> route_path list \<Rightarrow> 'c cx \<Rightarrow> bool" where
  "excused trusted exempt cx \<longleftrightarrow>
     (\<exists>p \<in> set exempt. path_matches p (uri_path (p_uri (cx_parts cx)))) \<or>
     (\<exists>t \<in> set trusted. \<exists>o'. header_str cx ''origin'' = Some o' \<and> eq_ignore_ascii_case t o')"

lemma after_scheme_Some: "after_scheme s = Some host \<Longrightarrow> \<exists>scheme. s = scheme @ ''://'' @ host"
proof (induction s)
  case (Cons c cs)
  show ?case
  proof (cases "strip_prefix ''://'' (c # cs)")
    case None
    with Cons obtain scheme where "cs = scheme @ ''://'' @ host" by auto
    then show ?thesis by (intro exI [of _ "c # scheme"]) simp
  next
    case (Some h)
    with Cons.prems have "h = host" by simp
    from Some have "c # cs = ''://'' @ h" unfolding strip_prefix_Some_iff .
    with \<open>h = host\<close> show ?thesis by (intro exI [of _ "[]"]) simp
  qed
qed simp

lemma same_host_iff:
  "same_host cx o' \<longleftrightarrow>
     (case request_host cx of Some h \<Rightarrow>
        (case after_scheme o' of Some host \<Rightarrow> eq_ignore_ascii_case host h | None \<Rightarrow> False)
      | None \<Rightarrow> False)"
  using after_scheme_Some [of o'] by (auto simp: same_host_def split: option.splits)

lemma origin_check_Deny:
  "origin_check (Verify trusted exempt) cx = Deny \<longleftrightarrow>
     state_changing cx \<and> \<not> excused trusted exempt cx \<and> cross_origin cx"
proof (cases "state_changing cx")
  case False
  then show ?thesis by (auto simp: state_changing_def)
next
  case sc: True
  show ?thesis
  proof (cases "excused trusted exempt cx")
    case True
    then show ?thesis
      by (auto simp: excused_def list_ex_iff Let_def is_some_and_def)
  next
    case False
    then have e: "\<not> list_ex (\<lambda>path. path_matches path (uri_path (p_uri (cx_parts cx)))) exempt"
      "\<not> is_some_and (\<lambda>o'. list_ex (\<lambda>t. eq_ignore_ascii_case t o') trusted) (header_str cx ''origin'')"
      by (auto simp: excused_def list_ex_iff is_some_and_def split: option.splits)
    have "\<not> (\<not> upgrades_to_websocket cx \<and> p_method (cx_parts cx) \<in> {''GET'', ''HEAD'', ''OPTIONS''})"
      using sc by (auto simp: state_changing_def)
    with sc False e show ?thesis
      by (simp only: origin_check.simps if_False Let_def cross_origin_def same_host_iff)
        (simp split: option.splits)
  qed
qed

text \<open>C9. Under a verifying policy a state-changing request or WebSocket handshake that the
  browser marks as cross-origin reaches nothing behind the layer, unless its route is exempt
  or its origin trusted: it is answered with forbidden; every other request is passed on
  unchanged.\<close>

theorem origin_forbids_cross_origin:
  "origin_handle (Verify trusted exempt) next_h cx body hs =
     (if state_changing cx \<and> \<not> excused trusted exempt cx \<and> cross_origin cx
      then Done (Err ForbiddenError, hs) else next_h cx body hs)"
  using origin_check_Deny [of trusted exempt cx]
  by (cases "origin_check (Verify trusted exempt) cx")
    (auto simp: origin_handle_def fail_with_def forbidden_def simp del: origin_check.simps)

end
