(* ===== verification/Compression.thy ===== *)
theory Compression
  imports Http_Types "HOL-Library.Word"
begin

text \<open>
  The compression of responses: \<^verbatim>\<open>crates/topcoat-router/src/compression.rs\<close>.  The setting of a router
  and the call of the third-party middleware, which is the argument \<open>tower\<close>: what it makes of a
  configuration, the values the request has for \<^verbatim>\<open>Accept-Encoding\<close> and a response.
\<close>

datatype compression_level = LevelFastest | LevelBalanced | LevelBest | LevelPrecise "32 word"

datatype tower_level = TowerFastest | TowerBest | TowerPrecise "32 word"

definition into_tower :: "compression_level \<Rightarrow> tower_level" where
  "into_tower l =
     (case l of
        LevelFastest \<Rightarrow> TowerFastest
      | LevelBalanced \<Rightarrow> TowerPrecise 4
      | LevelBest \<Rightarrow> TowerBest
      | LevelPrecise quality \<Rightarrow> TowerPrecise quality)"

record compression =
  cm_gzip :: bool
  cm_brotli :: bool
  cm_level :: compression_level
  cm_min_size :: "64 word"

definition compression_new :: compression where
  "compression_new = \<lparr>cm_gzip = True, cm_brotli = True, cm_level = LevelBalanced, cm_min_size = 32\<rparr>"

definition compression_off :: compression where
  "compression_off = compression_new\<lparr>cm_gzip := False, cm_brotli := False\<rparr>"

definition compression_gzip :: "bool \<Rightarrow> compression \<Rightarrow> compression" where
  "compression_gzip enabled c = c\<lparr>cm_gzip := enabled\<rparr>"

definition compression_brotli :: "bool \<Rightarrow> compression \<Rightarrow> compression" where
  "compression_brotli enabled c = c\<lparr>cm_brotli := enabled\<rparr>"

definition compression_level_set :: "compression_level \<Rightarrow> compression \<Rightarrow> compression" where
  "compression_level_set l c = c\<lparr>cm_level := l\<rparr>"

definition compression_min_size :: "64 word \<Rightarrow> compression \<Rightarrow> compression" where
  "compression_min_size bytes c = c\<lparr>cm_min_size := bytes\<rparr>"

text \<open>The responses the middleware is told to leave alone.\<close>

datatype content_kind = GrpcContent | ImageContent | SseContent

datatype predicate = SizeAbove "64 word" | NotForContentType content_kind | PredicateAnd predicate predicate

record tower_setting =
  tw_gzip :: bool
  tw_br :: bool
  tw_quality :: tower_level
  tw_when :: predicate

type_synonym 'b tower = "tower_setting \<Rightarrow> str list \<Rightarrow> 'b response \<Rightarrow> 'b response"

definition tower_of :: "compression \<Rightarrow> tower_setting" where
  "tower_of c =
     \<lparr>tw_gzip = cm_gzip c, tw_br = cm_brotli c, tw_quality = into_tower (cm_level c),
      tw_when = PredicateAnd (PredicateAnd (PredicateAnd (SizeAbove (cm_min_size c)) (NotForContentType GrpcContent))
        (NotForContentType ImageContent)) (NotForContentType SseContent)\<rparr>"

definition compress :: "'b tower \<Rightarrow> compression \<Rightarrow> header_map \<Rightarrow> 'b response \<Rightarrow> 'b response" where
  "compress tower c request_headers response =
     (if \<not> cm_gzip c \<and> \<not> cm_brotli c then response
      else tower (tower_of c) (hm_get_all request_headers ''accept-encoding'') response)"

lemma compress_off [simp]: "compress tower compression_off h r = r"
  by (simp add: compress_def compression_off_def)

text \<open>What the middleware sees of the request is its \<^verbatim>\<open>Accept-Encoding\<close> values, in order.\<close>

lemma compress_cong:
  "hm_get_all h ''accept-encoding'' = hm_get_all k ''accept-encoding'' \<Longrightarrow> compress tower c h r = compress tower c k r"
  by (simp add: compress_def)

end
