(* ===== verification/Proxies.thy ===== *)
theory Proxies
  imports Http_Types
begin

text \<open>
  The client's address behind reverse proxies: \<^verbatim>\<open>crates/topcoat-router/src/proxy.rs\<close>.  What the
  standard library and the \<^verbatim>\<open>ipnet\<close> crate decide about texts and networks is the record
  \<open>ip_ops\<close>: parsing the two address families, UTF-8 validity, \<^verbatim>\<open>str::trim\<close>, and whether a
  network contains an address.  Header lists are split as bytes and walked from the hop
  nearest to the application outward, as in the source.
\<close>

datatype ip_net = Net4 "32 word" nat | Net6 "128 word" nat

record ip_ops =
  parse_v4 :: "str \<Rightarrow> 32 word option"
  parse_v6 :: "str \<Rightarrow> 128 word option"
  utf8_ok :: "str \<Rightarrow> bool"
  str_trim :: "str \<Rightarrow> str"
  net_contains :: "ip_net \<Rightarrow> ip_addr \<Rightarrow> bool"

text \<open>\<^verbatim>\<open>IpAddr::to_canonical\<close>: an IPv4-mapped IPv6 address is the IPv4 address it maps to.\<close>

fun to_canonical :: "ip_addr \<Rightarrow> ip_addr" where
  "to_canonical (V4 a) = V4 a"
| "to_canonical (V6 a) = (if drop_bit 32 a = 0xffff then V4 (ucast a) else V6 a)"

datatype forwarded_header = XForwardedFor | Forwarded | Single str

fun header_name :: "forwarded_header \<Rightarrow> str" where
  "header_name XForwardedFor = ''x-forwarded-for''"
| "header_name Forwarded = ''forwarded''"
| "header_name (Single name) = name"

record trusted_proxies =
  tp_networks :: "ip_net list"
  tp_nearest :: nat
  tp_header :: forwarded_header

definition trusted_proxies_new :: trusted_proxies where
  "trusted_proxies_new = \<lparr>tp_networks = [], tp_nearest = 0, tp_header = XForwardedFor\<rparr>"

text \<open>A network of mapped addresses is stored as the IPv4 network it maps to.\<close>

fun normal_net :: "ip_net \<Rightarrow> ip_net" where
  "normal_net (Net6 a n) =
     (if n \<ge> 96
      then (case to_canonical (V6 a) of
              V4 b \<Rightarrow> if n - 96 \<le> 32 then Net4 b (n - 96) else Net6 a n
            | V6 _ \<Rightarrow> Net6 a n)
      else Net6 a n)"
| "normal_net (Net4 a n) = Net4 a n"

definition trust_networks :: "trusted_proxies \<Rightarrow> ip_net list \<Rightarrow> trusted_proxies" where
  "trust_networks t ns = t\<lparr>tp_networks := tp_networks t @ map normal_net ns\<rparr>"

definition trust_nearest :: "trusted_proxies \<Rightarrow> nat \<Rightarrow> trusted_proxies" where
  "trust_nearest t n = t\<lparr>tp_nearest := n\<rparr>"

definition trust_header :: "trusted_proxies \<Rightarrow> forwarded_header \<Rightarrow> trusted_proxies" where
  "trust_header t h = t\<lparr>tp_header := h\<rparr>"

definition is_trusted :: "ip_ops \<Rightarrow> trusted_proxies \<Rightarrow> ip_addr option \<Rightarrow> nat \<Rightarrow> bool" where
  "is_trusted ops t addr hop \<longleftrightarrow>
     hop < tp_nearest t \<or>
     is_some_and (\<lambda>ip. list_ex (\<lambda>n. net_contains ops n ip) (tp_networks t)) addr"

subsection \<open>Nodes\<close>

definition is_node_port :: "str \<Rightarrow> bool" where
  "is_node_port v \<longleftrightarrow>
     (case strip_prefix ''_'' v of
        Some obf \<Rightarrow> obf \<noteq> [] \<and>
          list_all (\<lambda>c. is_ascii_alphanumeric c \<or> c \<in> {CHR ''.'', CHR ''_'', CHR ''-''}) obf
      | None \<Rightarrow> 1 \<le> length v \<and> length v \<le> 5 \<and> list_all is_ascii_digit v)"

definition parse_ip :: "ip_ops \<Rightarrow> str \<Rightarrow> ip_addr option" where
  "parse_ip ops v = (case parse_v4 ops v of Some a \<Rightarrow> Some (V4 a) | None \<Rightarrow> map_option V6 (parse_v6 ops v))"

definition parse_node :: "ip_ops \<Rightarrow> str \<Rightarrow> ip_addr option" where
  "parse_node ops v =
     (case parse_ip ops v of
        Some ip \<Rightarrow> Some (to_canonical ip)
      | None \<Rightarrow>
          (case strip_prefix ''['' v of
             Some rest \<Rightarrow>
               (case split_once CHR '']'' rest of
                  None \<Rightarrow> None
                | Some (ip, rest) \<Rightarrow>
                    (case parse_v6 ops ip of
                       None \<Rightarrow> None
                     | Some a \<Rightarrow>
                         if rest = [] then Some (to_canonical (V6 a))
                         else (case strip_prefix '':'' rest of
                                 None \<Rightarrow> None
                               | Some port \<Rightarrow>
                                   if is_node_port port then Some (to_canonical (V6 a)) else None)))
           | None \<Rightarrow>
               (case rsplit_once CHR '':'' v of
                  None \<Rightarrow> None
                | Some (ip, port) \<Rightarrow>
                    (case parse_v4 ops ip of
                       None \<Rightarrow> None
                     | Some a \<Rightarrow> if is_node_port port then Some (to_canonical (V4 a)) else None))))"

subsection \<open>Quoted lists\<close>

record quote_state =
  qs_quoted :: bool
  qs_escaped :: bool

definition quote_start :: quote_state where
  "quote_start = \<lparr>qs_quoted = False, qs_escaped = False\<rparr>"

text \<open>\<^verbatim>\<open>feed\<close>: the state after a byte, and whether the byte stands outside quotes.\<close>

definition feed :: "quote_state \<Rightarrow> char \<Rightarrow> bool \<times> quote_state" where
  "feed st b =
     (if qs_escaped st then (False, st\<lparr>qs_escaped := False\<rparr>)
      else if qs_quoted st then
        (False, if b = CHR 0x5C then st\<lparr>qs_escaped := True\<rparr>
                else if b = CHR 0x22 then st\<lparr>qs_quoted := False\<rparr> else st)
      else if b = CHR 0x22 then (False, st\<lparr>qs_quoted := True\<rparr>)
      else (True, st))"

definition is_closed :: "quote_state \<Rightarrow> bool" where
  "is_closed st \<longleftrightarrow> \<not> qs_quoted st \<and> \<not> qs_escaped st"

definition feed_all :: "quote_state \<Rightarrow> str \<Rightarrow> quote_state" where
  "feed_all st v = foldl (\<lambda>st b. snd (feed st b)) st v"

definition is_well_quoted :: "str \<Rightarrow> bool" where
  "is_well_quoted v \<longleftrightarrow> is_closed (feed_all quote_start v)"

fun split_quoted_from :: "quote_state \<Rightarrow> char \<Rightarrow> str \<Rightarrow> str list" where
  "split_quoted_from st d [] = [[]]"
| "split_quoted_from st d (b # bs) =
     (let (plain, st') = feed st b
      in if plain \<and> b = d then [] # split_quoted_from st' d bs
         else (case split_quoted_from st' d bs of
                 [] \<Rightarrow> [[b]]
               | p # ps \<Rightarrow> (b # p) # ps))"

definition split_quoted :: "str \<Rightarrow> char \<Rightarrow> str list" where
  "split_quoted v d = split_quoted_from quote_start d v"

fun unescape :: "str \<Rightarrow> str option" where
  "unescape [] = Some []"
| "unescape (c # cs) =
     (if c = CHR 0x5C
      then (case cs of [] \<Rightarrow> None | x # xs \<Rightarrow> map_option (Cons x) (unescape xs))
      else map_option (Cons c) (unescape cs))"

definition unquote :: "str \<Rightarrow> str option" where
  "unquote v =
     (case strip_prefix [CHR 0x22] v of
        None \<Rightarrow> Some v
      | Some rest \<Rightarrow>
          (case strip_suffix [CHR 0x22] rest of
             None \<Rightarrow> None
           | Some inner \<Rightarrow> if CHR 0x5C \<notin> set inner then Some inner else unescape inner))"

fun forwarded_loop :: "ip_ops \<Rightarrow> str list \<Rightarrow> str option \<Rightarrow> str option" where
  "forwarded_loop ops [] found = found"
| "forwarded_loop ops (pair # pairs) found =
     (if \<not> utf8_ok ops pair then None
      else if str_trim ops pair = [] then forwarded_loop ops pairs found
      else (case split_once CHR ''='' pair of
              None \<Rightarrow> None
            | Some (name, value) \<Rightarrow>
                if eq_ignore_ascii_case (str_trim ops name) ''for''
                then (if found \<noteq> None then None
                      else (case unquote (str_trim ops value) of
                              None \<Rightarrow> None
                            | Some v \<Rightarrow> forwarded_loop ops pairs (Some v)))
                else forwarded_loop ops pairs found))"

definition forwarded_for :: "ip_ops \<Rightarrow> str \<Rightarrow> str option" where
  "forwarded_for ops element = forwarded_loop ops (split_quoted element CHR '';'') None"

subsection \<open>The walk\<close>

fun walk_loop :: "ip_ops \<Rightarrow> trusted_proxies \<Rightarrow> nat \<Rightarrow> ip_addr option \<Rightarrow> ip_addr option list \<Rightarrow> ip_addr option" where
  "walk_loop ops t hop farthest [] = farthest"
| "walk_loop ops t hop farthest (address # rest) =
     (let hop = hop + 1
      in if hop \<ge> tp_nearest t then
           (case address of
              None \<Rightarrow> None
            | Some ip \<Rightarrow>
                if \<not> is_trusted ops t (Some ip) hop then Some ip else walk_loop ops t hop address rest)
         else walk_loop ops t hop address rest)"

definition walk :: "ip_ops \<Rightarrow> trusted_proxies \<Rightarrow> ip_addr option \<Rightarrow> ip_addr option list \<Rightarrow> ip_addr option" where
  "walk ops t remote addresses = walk_loop ops t 0 remote addresses"

definition is_blank :: "str \<Rightarrow> bool" where
  "is_blank s \<longleftrightarrow> trim_ascii s = []"

text \<open>The entries of all fields, from the one nearest to the application outward.\<close>

definition xff_entries :: "str list \<Rightarrow> str list" where
  "xff_entries values =
     concat (map (\<lambda>v. rev (filter (\<lambda>e. e \<noteq> []) (map trim_ascii (split_on (\<lambda>c. c = CHR '','') v)))) (rev values))"

definition xff_address :: "ip_ops \<Rightarrow> str \<Rightarrow> ip_addr option" where
  "xff_address ops entry = (if utf8_ok ops entry then parse_node ops entry else None)"

definition forwarded_addresses :: "ip_ops \<Rightarrow> str list \<Rightarrow> ip_addr option list" where
  "forwarded_addresses ops flds =
     concat (map (\<lambda>f. map (\<lambda>e. Option.bind (forwarded_for ops e) (parse_node ops))
       (filter (\<lambda>e. \<not> is_blank e) (split_quoted f CHR '',''))) flds)"

definition visible_str :: "str \<Rightarrow> str option" where
  "visible_str v =
     (if list_all (\<lambda>c. let n = (of_char c :: nat) in (32 \<le> n \<and> n < 127) \<or> n = 9) v then Some v else None)"

definition client_ip :: "ip_ops \<Rightarrow> trusted_proxies \<Rightarrow> ip_addr option \<Rightarrow> header_map \<Rightarrow> ip_addr option" where
  "client_ip ops t remote headers =
     (let remote = map_option to_canonical remote
      in if \<not> is_trusted ops t remote 0 then remote
         else (let values = hm_get_all headers (header_name (tp_header t))
               in (case tp_header t of
                     Single _ \<Rightarrow>
                       (case values of
                          [v] \<Rightarrow> Option.bind (visible_str v) (\<lambda>s. parse_node ops (str_trim ops s))
                        | _ \<Rightarrow> None)
                   | Forwarded \<Rightarrow>
                       if list_all is_well_quoted values
                       then walk ops t remote (rev (forwarded_addresses ops values))
                       else None
                   | XForwardedFor \<Rightarrow>
                       walk ops t remote (map (xff_address ops) (xff_entries values)))))"

subsection \<open>What the walk answers\<close>

text \<open>A hop the walk passes: trusted by position, or its address by its network.\<close>

definition hop_trusted :: "ip_ops \<Rightarrow> trusted_proxies \<Rightarrow> nat \<times> ip_addr option \<Rightarrow> bool" where
  "hop_trusted ops t = (\<lambda>(hop, address).
     hop < tp_nearest t \<or> (\<exists>ip. address = Some ip \<and> is_trusted ops t (Some ip) hop))"

definition passed :: "ip_ops \<Rightarrow> trusted_proxies \<Rightarrow> nat \<Rightarrow> ip_addr option list \<Rightarrow> nat" where
  "passed ops t hop addresses = length (takeWhile (hop_trusted ops t) (enumerate (Suc hop) addresses))"

lemma passed_simps [simp]:
  "passed ops t hop [] = 0"
  "passed ops t hop (a # as) = (if hop_trusted ops t (Suc hop, a) then Suc (passed ops t (Suc hop) as) else 0)"
  by (simp_all add: passed_def)

lemma passed_le: "passed ops t hop as \<le> length as"
  unfolding passed_def by (metis length_enumerate length_takeWhile_le)

lemma walk_loop_spec:
  "walk_loop ops t hop farthest as =
     (if passed ops t hop as < length as then as ! passed ops t hop as
      else last (farthest # as))"
proof (induction as arbitrary: hop farthest)
  case (Cons a as)
  show ?case
    using Cons.IH [of "Suc hop" a]
    by (cases a) (auto simp: hop_trusted_def Let_def last_ConsL)
qed simp

lemma passed_append:
  "passed ops t hop as < length as \<Longrightarrow> passed ops t hop (as @ bs) = passed ops t hop as"
  by (induction as arbitrary: hop) (auto split: if_splits)

lemma xff_entries_append: "xff_entries (vs @ ws) = xff_entries ws @ xff_entries vs"
  by (simp add: xff_entries_def)

text \<open>C31. The walk answers the first hop, counted from the application, that is neither
  trusted by its position nor named with an address of a trusted network; when every hop is
  trusted it answers the farthest one.\<close>

theorem walk_first_untrusted:
  "walk ops t remote addresses =
     (if passed ops t 0 addresses < length addresses then addresses ! passed ops t 0 addresses
      else last (remote # addresses)) \<and>
   (\<forall>k < passed ops t 0 addresses. hop_trusted ops t (Suc k, addresses ! k)) \<and>
   (passed ops t 0 addresses < length addresses \<longrightarrow>
      \<not> hop_trusted ops t (Suc (passed ops t 0 addresses), addresses ! passed ops t 0 addresses))"
proof -
  let ?P = "hop_trusted ops t" and ?e = "enumerate (Suc 0) addresses"
  have n: "?e ! k = (Suc k, addresses ! k)" if "k < length addresses" for k
    using that by (simp add: nth_enumerate_eq)
  have "?P (Suc k, addresses ! k)" if "k < passed ops t 0 addresses" for k
    using that n [of k] nth_mem [of k "takeWhile ?P ?e"] passed_le [of ops t 0 addresses]
    by (auto simp: passed_def takeWhile_nth dest!: set_takeWhileD)
  moreover have "\<not> ?P (Suc (passed ops t 0 addresses), addresses ! passed ops t 0 addresses)"
    if "passed ops t 0 addresses < length addresses"
    using that n nth_length_takeWhile [of ?P ?e] by (simp add: passed_def)
  ultimately show ?thesis by (simp add: walk_def walk_loop_spec)
qed

lemma walk_first_untrusted_witness:
  "walk \<lparr>parse_v4 = Map.empty, parse_v6 = Map.empty, utf8_ok = (\<lambda>_. True), str_trim = id, net_contains = (\<lambda>_ _. False)\<rparr>
     \<lparr>tp_networks = [], tp_nearest = 2, tp_header = XForwardedFor\<rparr> (Some (V4 1)) [Some (V4 2), Some (V4 3), Some (V4 4)]
   = Some (V4 3)"
  using conjunct1 [OF walk_first_untrusted [of
    "\<lparr>parse_v4 = Map.empty, parse_v6 = Map.empty, utf8_ok = (\<lambda>_. True), str_trim = id, net_contains = (\<lambda>_ _. False)\<rparr>"
    "\<lparr>tp_networks = [], tp_nearest = 2, tp_header = XForwardedFor\<rparr>" "Some (V4 1)" "[Some (V4 2), Some (V4 3), Some (V4 4)]"]]
  by (simp add: hop_trusted_def is_trusted_def)

definition demo_ops :: ip_ops where
  "demo_ops = \<lparr>parse_v4 = (\<lambda>s. if s = ''1.1.1.1'' then Some 0x01010101 else None), parse_v6 = Map.empty,
     utf8_ok = (\<lambda>_. True), str_trim = id, net_contains = (\<lambda>_ _. False)\<rparr>"

lemma is_closed_start: "is_closed st \<longleftrightarrow> st = quote_start"
  by (cases st) (auto simp: is_closed_def quote_start_def)

lemma split_quoted_from_not_Nil [simp]: "split_quoted_from st d v \<noteq> []"
  by (induction v arbitrary: st) (auto simp: Let_def split: prod.splits list.splits)

lemma split_quoted_from_append:
  assumes "d \<notin> {CHR 0x22, CHR 0x5C}"
  shows "is_closed (feed_all st a) \<Longrightarrow>
    split_quoted_from st d (a @ d # b) = split_quoted_from st d a @ split_quoted_from quote_start d b"
proof (induction a arbitrary: st)
  case Nil
  then have "st = quote_start" by (simp add: feed_all_def is_closed_start)
  with assms show ?case by (simp add: feed_def quote_start_def)
next
  case (Cons x a)
  obtain plain st' where f: "feed st x = (plain, st')" by (cases "feed st x")
  with Cons have "split_quoted_from st' d (a @ d # b) = split_quoted_from st' d a @ split_quoted_from quote_start d b"
    by (simp add: feed_all_def)
  with f show ?case
    by (cases "split_quoted_from st' d a") auto
qed

lemma join_split_quoted_from: "join_with [d] (split_quoted_from st d v) = v"
proof (induction v arbitrary: st)
  case (Cons b bs)
  obtain plain st' where f: "feed st b = (plain, st')" by (cases "feed st b")
  obtain p ps where p: "split_quoted_from st' d bs = p # ps" by (metis split_quoted_from_not_Nil neq_Nil_conv)
  with Cons.IH [of st'] f show ?case by (cases ps) auto
qed simp

text \<open>Splitting a quoted list loses no byte, and an element a proxy appends after a
  well-quoted list stands on its own: no quote left open can swallow it.\<close>

theorem quoted_append:
  "join_with [d] (split_quoted v d) = v \<and>
   (is_well_quoted v \<and> d \<notin> {CHR 0x22, CHR 0x5C} \<longrightarrow>
      split_quoted (v @ d # w) d = split_quoted v d @ split_quoted w d)"
  using join_split_quoted_from split_quoted_from_append
  by (auto simp: split_quoted_def is_well_quoted_def)

lemma quoted_append_witness:
  "split_quoted (''for='' @ [CHR 0x22] @ ''a,b'' @ [CHR 0x22] @ CHR '','' # ''for=c'') CHR '','' =
     split_quoted (''for='' @ [CHR 0x22] @ ''a,b'' @ [CHR 0x22]) CHR '','' @ split_quoted ''for=c'' CHR '',''"
proof -
  have "is_well_quoted (''for='' @ [CHR 0x22] @ ''a,b'' @ [CHR 0x22])" by code_simp
  with quoted_append [of "CHR '',''" "''for='' @ [CHR 0x22] @ ''a,b'' @ [CHR 0x22]" "''for=c''"]
  show ?thesis by simp
qed

subsection \<open>Forged entries\<close>

text \<open>What arrives when the proxies put their fields behind the ones a client sent: as fields of their own, or the
  first of them in the client's last field, after a comma.\<close>

inductive arrives :: "str list \<Rightarrow> str list \<Rightarrow> bool" where
  own_field: "arrives honest (forged @ honest)"
| same_field: "arrives (e # es) (forged @ (f @ CHR '','' # e) # es)"

definition listed :: "ip_ops \<Rightarrow> trusted_proxies \<Rightarrow> str list \<Rightarrow> ip_addr option list" where
  "listed ops t values =
     (case tp_header t of
        XForwardedFor \<Rightarrow> map (xff_address ops) (xff_entries values)
      | Forwarded \<Rightarrow> rev (forwarded_addresses ops values)
      | Single _ \<Rightarrow> [])"

lemma split_on_middle: "P c \<Longrightarrow> split_on P (a @ c # b) = split_on P a @ split_on P b"
proof (induction a)
  case (Cons x a)
  moreover have "split_on P a \<noteq> []" by (cases a) (auto split: list.splits)
  ultimately show ?case by (cases "split_on P a") auto
qed simp

lemma feed_all_append: "feed_all st (a @ b) = feed_all (feed_all st a) b"
  by (simp add: feed_all_def)

lemma feed_all_Cons: "feed_all st (c # b) = feed_all (snd (feed st c)) b"
  by (simp add: feed_all_def)

text \<open>A quote left open flips the quotes of what follows, which stays open if it was closed on its own.\<close>

lemma quote_states:
  assumes "\<not> qs_escaped st \<or> qs_quoted st"
  shows "\<not> qs_escaped (feed_all st v) \<or> qs_quoted (feed_all st v)"
  using assms by (induction v arbitrary: st) (auto simp: feed_all_def feed_def)

lemma open_stays_open:
  assumes "CHR 0x5C \<notin> set v"
  shows "qs_quoted (feed_all \<lparr>qs_quoted = True, qs_escaped = False\<rparr> v) = (\<not> qs_quoted (feed_all quote_start v))"
proof -
  have "feed_all \<lparr>qs_quoted = q, qs_escaped = False\<rparr> v = \<lparr>qs_quoted = (q \<noteq> odd (count_list v CHR 0x22)), qs_escaped = False\<rparr>" for q
    using assms by (induction v arbitrary: q) (auto simp: feed_all_Cons feed_def, simp add: feed_all_def)
  then show ?thesis by (simp add: quote_start_def)
qed

lemma ill_quoted_joined:
  assumes "\<not> is_well_quoted f" "is_well_quoted e" "CHR 0x5C \<notin> set e"
  shows "\<not> is_well_quoted (f @ CHR '','' # e)"
proof -
  let ?st = "feed_all quote_start f"
  have "qs_quoted ?st"
    using assms(1) quote_states [of quote_start f] by (auto simp: is_well_quoted_def is_closed_def quote_start_def)
  then have "snd (feed ?st CHR '','') = \<lparr>qs_quoted = True, qs_escaped = False\<rparr>"
    by (cases ?st) (simp add: feed_def)
  with assms(2) open_stays_open [OF assms(3)] show ?thesis
    by (simp add: is_well_quoted_def is_closed_def feed_all_append feed_all_Cons)
qed

text \<open>The entries of the proxies stay the nearest ones, read as they would be alone.\<close>

lemma forwarded_addresses_append: "forwarded_addresses ops (vs @ ws) = forwarded_addresses ops vs @ forwarded_addresses ops ws"
  by (simp add: forwarded_addresses_def)

lemma listed_arrives:
  assumes "arrives honest values" and
    "tp_header t = Forwarded \<Longrightarrow> list_all is_well_quoted values \<and> list_all (\<lambda>e. is_well_quoted e \<and> CHR 0x5C \<notin> set e) honest"
  obtains forged where "listed ops t values = listed ops t honest @ forged"
  using assms
proof (induction arbitrary: thesis)
  case (own_field honest forged)
  have "\<exists>more. listed ops t (forged @ honest) = listed ops t honest @ more"
    by (auto simp: listed_def xff_entries_append forwarded_addresses_append split: forwarded_header.splits)
  then show ?case using own_field.prems(1) by blast
next
  case (same_field e es forged f)
  have xff: "xff_entries ((f @ CHR '','' # e) # es) = xff_entries (e # es) @ xff_entries [f]"
    by (simp add: xff_entries_def split_on_middle)
  have fwd: "forwarded_addresses ops ((f @ CHR '','' # e) # es) = forwarded_addresses ops [f] @ forwarded_addresses ops (e # es)"
    if "tp_header t = Forwarded"
  proof -
    have "is_well_quoted f" using same_field.prems(2) [OF that] ill_quoted_joined [of f e] by auto
    with split_quoted_from_append [of "CHR '',''" quote_start f e] show ?thesis
      by (simp add: forwarded_addresses_def split_quoted_def is_well_quoted_def)
  qed
  have "\<exists>more. listed ops t (forged @ (f @ CHR '','' # e) # es) = listed ops t (e # es) @ more"
    using fwd by (auto simp: listed_def xff_entries_append xff forwarded_addresses_append split: forwarded_header.splits)
  then show ?case using same_field.prems(1) by blast
qed

lemma client_ip_listed:
  assumes "tp_header t = XForwardedFor \<or> tp_header t = Forwarded"
  shows "client_ip ops t remote h =
    (if \<not> is_trusted ops t (map_option to_canonical remote) 0 then map_option to_canonical remote
     else if tp_header t = Forwarded \<and> \<not> list_all is_well_quoted (hm_get_all h (header_name (tp_header t))) then None
     else walk ops t (map_option to_canonical remote) (listed ops t (hm_get_all h (header_name (tp_header t)))))"
  using assms by (auto simp: client_ip_def listed_def Let_def)



end
