(* ===== verification/Builder.thy ===== *)
theory Builder
  imports Trailing_Slash Origin Proxies Compression
begin

text \<open>
  Building a router: \<^verbatim>\<open>crates/topcoat-router/src/builder.rs\<close>, and the page composition of
  \<^verbatim>\<open>page.rs\<close>.  A panic of the builder is an error value; a view is an abstract \<open>'v\<close>, turned
  into a response by the argument \<open>vr\<close>.  A base URL, parsed by a third-party type, is registered as one more
  value of the application context.
\<close>

subsection \<open>Pages and layouts\<close>

record ('b, 'c, 'v) page =
  pg_id :: nat
  pg_methods :: methods
  pg_path :: route_path
  pg_render :: "'c cx \<Rightarrow> 'b \<Rightarrow> 'v"

record ('c, 'v) layout =
  ly_path :: route_path
  ly_render :: "'c cx \<Rightarrow> 'v \<Rightarrow> 'v"

definition render_page :: "('b, 'c, 'v) page \<Rightarrow> ('c, 'v) layout list \<Rightarrow> 'c cx \<Rightarrow> 'b \<Rightarrow> 'v" where
  "render_page p layouts cx body = foldl (\<lambda>view l. ly_render l cx view) (pg_render p cx body) (rev layouts)"

type_synonym ('b, 'c, 'v) view_response = "'v \<Rightarrow> 'c cx \<Rightarrow> response_headers \<Rightarrow> ('b, 'c) handled"

definition page_with_layouts :: "('b, 'c, 'v) view_response \<Rightarrow> ('b, 'c, 'v) page \<Rightarrow> ('c, 'v) layout list
    \<Rightarrow> ('b, 'c) route" where
  "page_with_layouts vr p layouts =
     \<lparr>rt_id = pg_id p, rt_methods = pg_methods p, rt_path = pg_path p,
      rt_handle = (\<lambda>cx body hs. vr (render_page p layouts cx body) cx hs)\<rparr>"

definition layouts_for_page :: "('c, 'v) layout list \<Rightarrow> ('b, 'c, 'v) page \<Rightarrow> ('c, 'v) layout list" where
  "layouts_for_page layouts p =
     sort_key (\<lambda>l. length (ly_path l)) (filter (\<lambda>l. path_starts_with (pg_path p) (ly_path l)) layouts)"

subsection \<open>The builder\<close>

record ('b, 'c, 'v) builder =
  bd_routes :: "('b, 'c) route list"
  bd_pages :: "('b, 'c, 'v) page list"
  bd_layouts :: "('c, 'v) layout list"
  bd_layers :: "('b, 'c) layer list"
  bd_context :: "nat \<rightharpoonup> 'c"
  bd_origin :: origin_policy
  bd_trailing :: trailing_slash
  bd_proxies :: trusted_proxies
  bd_compression :: compression

text \<open>The unit value is registered under its own type, the number \<open>0\<close>.\<close>

definition builder_new :: "'c \<Rightarrow> ('b, 'c, 'v) builder" where
  "builder_new unit_value =
     \<lparr>bd_routes = [], bd_pages = [], bd_layouts = [], bd_layers = [], bd_context = [0 \<mapsto> unit_value],
      bd_origin = origin_policy_new, bd_trailing = trailing_slash_default,
      bd_proxies = trusted_proxies_new, bd_compression = compression_new\<rparr>"

definition builder_is_empty :: "('b, 'c, 'v) builder \<Rightarrow> bool" where
  "builder_is_empty b \<longleftrightarrow> bd_routes b = [] \<and> bd_pages b = [] \<and> bd_layouts b = []"

definition add_route :: "('b, 'c) route \<Rightarrow> ('b, 'c, 'v) builder \<Rightarrow> ('b, 'c, 'v) builder" where
  "add_route r b = b\<lparr>bd_routes := bd_routes b @ [r]\<rparr>"

definition add_page :: "('b, 'c, 'v) page \<Rightarrow> ('b, 'c, 'v) builder \<Rightarrow> ('b, 'c, 'v) builder" where
  "add_page p b = b\<lparr>bd_pages := bd_pages b @ [p]\<rparr>"

definition add_layout :: "('c, 'v) layout \<Rightarrow> ('b, 'c, 'v) builder \<Rightarrow> ('b, 'c, 'v) builder" where
  "add_layout l b = b\<lparr>bd_layouts := bd_layouts b @ [l]\<rparr>"

definition add_layer :: "('b, 'c) layer \<Rightarrow> ('b, 'c, 'v) builder \<Rightarrow> ('b, 'c, 'v) builder" where
  "add_layer l b = b\<lparr>bd_layers := bd_layers b @ [l]\<rparr>"

definition set_origin_policy :: "origin_policy \<Rightarrow> ('b, 'c, 'v) builder \<Rightarrow> ('b, 'c, 'v) builder" where
  "set_origin_policy p b = b\<lparr>bd_origin := p\<rparr>"

definition set_trailing_slash :: "trailing_slash \<Rightarrow> ('b, 'c, 'v) builder \<Rightarrow> ('b, 'c, 'v) builder" where
  "set_trailing_slash p b = b\<lparr>bd_trailing := p\<rparr>"

definition set_trusted_proxies :: "trusted_proxies \<Rightarrow> ('b, 'c, 'v) builder \<Rightarrow> ('b, 'c, 'v) builder" where
  "set_trusted_proxies p b = b\<lparr>bd_proxies := p\<rparr>"

definition set_compression :: "compression \<Rightarrow> ('b, 'c, 'v) builder \<Rightarrow> ('b, 'c, 'v) builder" where
  "set_compression c b = b\<lparr>bd_compression := c\<rparr>"

text \<open>\<^verbatim>\<open>app_context\<close> panics on a second value of a type.\<close>

definition add_app_context :: "nat \<Rightarrow> 'c \<Rightarrow> ('b, 'c, 'v) builder \<Rightarrow> ('b, 'c, 'v) builder option" where
  "add_app_context t v b =
     (if bd_context b t \<noteq> None then None else Some (b\<lparr>bd_context := (bd_context b)(t \<mapsto> v)\<rparr>))"

text \<open>Discovery, given what the linker collected: a path discovered twice panics.\<close>

fun discover_layouts :: "('c, 'v) layout list \<Rightarrow> route_path set \<Rightarrow> ('b, 'c, 'v) builder
    \<Rightarrow> ('b, 'c, 'v) builder option" where
  "discover_layouts [] seen b = Some b"
| "discover_layouts (l # ls) seen b =
     (if ly_path l \<in> seen then None else discover_layouts ls (insert (ly_path l) seen) (add_layout l b))"

fun discover_layers :: "('b, 'c) layer list \<Rightarrow> route_path option set \<Rightarrow> ('b, 'c, 'v) builder
    \<Rightarrow> ('b, 'c, 'v) builder option" where
  "discover_layers [] seen b = Some b"
| "discover_layers (l # ls) seen b =
     (if l_path l \<in> seen then None else discover_layers ls (insert (l_path l) seen) (add_layer l b))"

subsection \<open>Registering one route\<close>

record ('b, 'c, 'm) tables =
  tb_routes :: "('b, 'c) routes"
  tb_endpoints :: "'m endpoints"
  tb_grouped :: "(str \<times> endpoint_index) list"
  tb_used :: "bool list"

fun insert_methods :: "str \<Rightarrow> route_index \<Rightarrow> endpoint \<Rightarrow> http_method list \<Rightarrow> (endpoint, build_panic) result" where
  "insert_methods key i e [] = Ok e"
| "insert_methods key i e (m # ms) =
     (if endpoint_get e m \<noteq> None then Err (DuplicateRoute m key)
      else insert_methods key i (endpoint_insert e m i) ms)"

fun record_methods :: "str \<Rightarrow> route_path \<Rightarrow> route_index \<Rightarrow> endpoint \<Rightarrow> methods \<Rightarrow> (endpoint, build_panic) result" where
  "record_methods key path i e AnyMethod =
     (if ep_any e \<noteq> None then Err (DuplicateAny key) else Ok (insert_any e i))"
| "record_methods key path i e (Only ms) =
     (if ms = [] then Err (NoMethods path) else insert_methods key i e ms)"

definition group_endpoint :: "'m matchit \<Rightarrow> str \<Rightarrow> ('b, 'c, 'm) tables
    \<Rightarrow> (endpoint_index \<times> 'm endpoints \<times> (str \<times> endpoint_index) list, build_panic) result" where
  "group_endpoint M key tb =
     (case map_of (tb_grouped tb) key of
        Some i \<Rightarrow> Ok (i, tb_endpoints tb, tb_grouped tb)
      | None \<Rightarrow>
          (case path_from_str key of
             Inl err \<Rightarrow> Err (BadEndpointPath err)
           | Inr p \<Rightarrow>
               and_then (push_endpoint M (tb_endpoints tb) key (endpoint_new p))
                 (\<lambda>(i, es). Ok (i, es, (key, i) # tb_grouped tb))))"

definition register_route :: "'m matchit \<Rightarrow> ('b, 'c) layer list \<Rightarrow> ('b, 'c) route \<Rightarrow> ('b, 'c, 'm) tables
    \<Rightarrow> (('b, 'c, 'm) tables, build_panic) result" where
  "register_route M layers route tb =
     (let path = rt_path route;
          stack = layers_for_path layers path;
          used = map (\<lambda>(l, u). u \<or> layer_applies path l) (zip layers (tb_used tb));
          key = to_matchit_path path
      in and_then (group_endpoint M key tb) (\<lambda>(i, es, grouped).
           (let (ri, rs) = routes_push (tb_routes tb) route i stack
            in and_then (record_methods key path ri (es_endpoints es ! i) (rt_methods route)) (\<lambda>e.
                 Ok \<lparr>tb_routes = rs, tb_endpoints = update_endpoint es i (\<lambda>_. e),
                     tb_grouped = grouped, tb_used = used\<rparr>))))"

fun register_routes :: "'m matchit \<Rightarrow> ('b, 'c) layer list \<Rightarrow> ('b, 'c) route list \<Rightarrow> ('b, 'c, 'm) tables
    \<Rightarrow> (('b, 'c, 'm) tables, build_panic) result" where
  "register_routes M layers [] tb = Ok tb"
| "register_routes M layers (r # rs) tb =
     and_then (register_route M layers r tb) (register_routes M layers rs)"

subsection \<open>The build\<close>

fun check_used :: "(('b, 'c) layer \<times> bool) list \<Rightarrow> (unit, build_panic) result" where
  "check_used [] = Ok ()"
| "check_used ((l, used) # ls) =
     (case l_path l of
        Some path \<Rightarrow> if used \<or> path = [] then check_used ls else Err (UnusedLayer path)
      | None \<Rightarrow> check_used ls)"

record ('b, 'c, 'm) router =
  ro_routes :: "('b, 'c) routes"
  ro_endpoints :: "'m endpoints"
  ro_always :: "('b, 'c) layer list"
  ro_origin :: origin_policy
  ro_context :: "nat \<rightharpoonup> 'c"
  ro_proxies :: trusted_proxies
  ro_compression :: compression

definition registrations :: "('b, 'c, 'v) view_response \<Rightarrow> ('b, 'c, 'v) builder \<Rightarrow> ('b, 'c) route list" where
  "registrations vr b =
     bd_routes b @ map (\<lambda>p. page_with_layouts vr p (layouts_for_page (bd_layouts b) p)) (bd_pages b)"

definition always_layers :: "('b, 'c) layer list \<Rightarrow> ('b, 'c) layer list" where
  "always_layers layers = rev (filter (\<lambda>l. l_path l = None) layers)"

definition tables_init :: "'m matchit \<Rightarrow> ('b, 'c) layer list \<Rightarrow> ('b, 'c, 'm) tables" where
  "tables_init M layers =
     \<lparr>tb_routes = routes_default, tb_endpoints = endpoints_default M, tb_grouped = [],
      tb_used = replicate (length layers) False\<rparr>"

definition alias_heads :: "(str \<times> endpoint_index) list \<Rightarrow> 'm endpoints \<Rightarrow> 'm endpoints" where
  "alias_heads grouped es = foldl (\<lambda>es i. update_endpoint es i alias_head_to_get) es (map snd grouped)"

definition build :: "'m matchit \<Rightarrow> (str \<Rightarrow> str) \<Rightarrow> ('b, 'c, 'v) view_response \<Rightarrow> nat
    \<Rightarrow> ('b, 'c, 'v) builder \<Rightarrow> (('b, 'c, 'm) router, build_panic) result" where
  "build M enc vr next_id b =
     and_then (register_routes M (bd_layers b) (registrations vr b) (tables_init M (bd_layers b))) (\<lambda>tb.
     and_then (check_used (zip (bd_layers b) (tb_used tb))) (\<lambda>_.
       (let es = alias_heads (tb_grouped tb) (tb_endpoints tb);
            always = always_layers (bd_layers b)
        in and_then (register_twins (bd_trailing b) enc M always (es, tb_routes tb, next_id)) (\<lambda>(es, rs, _).
             Ok \<lparr>ro_routes = rs, ro_endpoints = es, ro_always = always, ro_origin = bd_origin b,
                 ro_context = bd_context b, ro_proxies = bd_proxies b,
                 ro_compression = bd_compression b\<rparr>))))"

subsection \<open>What registration establishes\<close>

definition route_key :: "('b, 'c) route \<Rightarrow> str" where
  "route_key r = to_matchit_path (rt_path r)"

fun accepts :: "methods \<Rightarrow> http_method \<Rightarrow> bool" where
  "accepts AnyMethod m = False"
| "accepts (Only ms) m \<longleftrightarrow> m \<in> set ms"

text \<open>The endpoint of a key, after the routes \<open>rgs\<close>: its method table is exactly theirs.\<close>

definition ep_for :: "('b, 'c) route list \<Rightarrow> str \<Rightarrow> endpoint \<Rightarrow> bool" where
  "ep_for rgs k e \<longleftrightarrow>
     ep_path e = (if k = ''/'' then [] else k) \<and>
     (\<forall>m r. endpoint_get e m = Some r \<longleftrightarrow>
        r < length rgs \<and> route_key (rgs ! r) = k \<and> accepts (rt_methods (rgs ! r)) m) \<and>
     (\<forall>r. ep_any e = Some r \<longleftrightarrow>
        r < length rgs \<and> route_key (rgs ! r) = k \<and> rt_methods (rgs ! r) = AnyMethod)"

lemma insert_methods_Ok:
  assumes "insert_methods key i e ms = Ok e'" "wf_endpoint e"
  shows "e' = foldl (\<lambda>e m. endpoint_insert e m i) e ms" "\<forall>m \<in> set ms. endpoint_get e m = None"
  using assms
proof (induction ms arbitrary: e)
  case (Cons m ms)
  {
    case 1
    with Cons.IH(1) [of "endpoint_insert e m i"] wf_endpoint_insert show ?case by (auto split: if_splits)
  next
    case 2
    with Cons.IH(2) [of "endpoint_insert e m i"] wf_endpoint_insert [of e m i] show ?case
      by (auto simp: endpoint_get_insert split: if_splits)
  }
qed auto

lemma endpoint_insert_fold_simps [simp]:
  "ep_any (foldl (\<lambda>e m. endpoint_insert e m i) e ms) = ep_any e"
  "ep_path (foldl (\<lambda>e m. endpoint_insert e m i) e ms) = ep_path e"
  by (induction ms arbitrary: e) auto

lemma record_methods_Ok:
  assumes "record_methods key path i e ms = Ok e'" "wf_endpoint e"
  shows "wf_endpoint e'" "ep_path e' = ep_path e"
    "endpoint_get e' m = (if accepts ms m then Some i else endpoint_get e m)"
    "accepts ms m \<Longrightarrow> endpoint_get e m = None"
    "ep_any e' = (if ms = AnyMethod then Some i else ep_any e)"
    "ms = AnyMethod \<Longrightarrow> ep_any e = None" "ms \<noteq> Only []"
proof -
  have "wf_endpoint e' \<and> ep_path e' = ep_path e \<and>
      endpoint_get e' m = (if accepts ms m then Some i else endpoint_get e m) \<and>
      (accepts ms m \<longrightarrow> endpoint_get e m = None) \<and>
      ep_any e' = (if ms = AnyMethod then Some i else ep_any e) \<and>
      (ms = AnyMethod \<longrightarrow> ep_any e = None) \<and> ms \<noteq> Only []"
  proof (cases ms)
    case AnyMethod
    with assms wf_endpoint_any show ?thesis by (auto split: if_splits)
  next
    case (Only xs)
    with assms(1) have "insert_methods key i e xs = Ok e'" "xs \<noteq> []" by (auto split: if_splits)
    note r = insert_methods_Ok [OF this(1) assms(2)]
    from ep.fold_ins [OF assms(2), of i xs m] r Only \<open>xs \<noteq> []\<close> show ?thesis by auto
  qed
  then show "wf_endpoint e'" "ep_path e' = ep_path e"
    "endpoint_get e' m = (if accepts ms m then Some i else endpoint_get e m)"
    "accepts ms m \<Longrightarrow> endpoint_get e m = None"
    "ep_any e' = (if ms = AnyMethod then Some i else ep_any e)"
    "ms = AnyMethod \<Longrightarrow> ep_any e = None" "ms \<noteq> Only []" by auto
qed

lemma ep_for_other: "ep_for rgs k e \<Longrightarrow> route_key r \<noteq> k \<Longrightarrow> ep_for (rgs @ [r]) k e"
  unfolding ep_for_def by (auto simp: nth_append less_Suc_eq)

lemma ep_for_new: "k \<notin> route_key ` set rgs \<Longrightarrow> p = (if k = ''/'' then [] else k) \<Longrightarrow> ep_for rgs k (endpoint_new p)"
  unfolding ep_for_def by (auto dest: nth_mem)

lemma ep_for_record:
  assumes "ep_for rgs (route_key r) e" "wf_endpoint e"
    and "record_methods key path (length rgs) e (rt_methods r) = Ok e'"
  shows "ep_for (rgs @ [r]) (route_key r) e'"
proof -
  note rec = record_methods_Ok [OF assms(3,2)]
  have "endpoint_get e' m = Some k \<longleftrightarrow> k < length (rgs @ [r]) \<and> route_key ((rgs @ [r]) ! k) = route_key r \<and>
      accepts (rt_methods ((rgs @ [r]) ! k)) m" for m k
  proof -
    have "endpoint_get e m = Some k \<longleftrightarrow> k < length rgs \<and> route_key (rgs ! k) = route_key r \<and> accepts (rt_methods (rgs ! k)) m"
      using assms(1) by (simp add: ep_for_def)
    with rec(3,4) [of m] show ?thesis
      by (cases "k = length rgs"; cases "accepts (rt_methods r) m") (auto simp: nth_append less_Suc_eq)
  qed
  moreover have "ep_any e' = Some k \<longleftrightarrow> k < length (rgs @ [r]) \<and> route_key ((rgs @ [r]) ! k) = route_key r \<and>
      rt_methods ((rgs @ [r]) ! k) = AnyMethod" for k
  proof -
    have "ep_any e = Some k \<longleftrightarrow> k < length rgs \<and> route_key (rgs ! k) = route_key r \<and> rt_methods (rgs ! k) = AnyMethod"
      using assms(1) by (simp add: ep_for_def)
    with rec(5,6) show ?thesis
      by (cases "k = length rgs"; cases "rt_methods r = AnyMethod") (auto simp: nth_append less_Suc_eq)
  qed
  moreover have "ep_path e' = (if route_key r = ''/'' then [] else route_key r)"
    using assms(1) rec(2) by (simp add: ep_for_def)
  ultimately show ?thesis unfolding ep_for_def by (intro conjI allI)
qed

definition reg_inv :: "('m \<Rightarrow> (str \<times> endpoint_index) set) \<Rightarrow> ('b, 'c) layer list \<Rightarrow> ('b, 'c) route list
    \<Rightarrow> ('b, 'c, 'm) tables \<Rightarrow> bool" where
  "reg_inv c layers rgs tb \<longleftrightarrow>
     rr_routes (tb_routes tb) = map (\<lambda>r. (r, layers_for_path layers (rt_path r))) rgs \<and>
     endpoints_inv c (tb_endpoints tb) \<and>
     set (tb_grouped tb) = c (es_matcher (tb_endpoints tb)) \<and>
     fst ` c (es_matcher (tb_endpoints tb)) = route_key ` set rgs \<and>
     (\<forall>(k, i) \<in> c (es_matcher (tb_endpoints tb)). ep_for rgs k (es_endpoints (tb_endpoints tb) ! i)) \<and>
     (\<forall>r \<in> set rgs. rt_methods r \<noteq> Only []) \<and>
     length (tb_used tb) = length layers \<and>
     (\<forall>j < length layers. tb_used tb ! j \<longleftrightarrow> (\<exists>r \<in> set rgs. layer_applies (rt_path r) (layers ! j)))"

lemma reg_invD:
  assumes "reg_inv c layers rgs tb"
  shows "rr_routes (tb_routes tb) = map (\<lambda>r. (r, layers_for_path layers (rt_path r))) rgs"
    "endpoints_inv c (tb_endpoints tb)"
    "set (tb_grouped tb) = c (es_matcher (tb_endpoints tb))"
    "fst ` c (es_matcher (tb_endpoints tb)) = route_key ` set rgs"
    "\<forall>(k, i) \<in> c (es_matcher (tb_endpoints tb)). ep_for rgs k (es_endpoints (tb_endpoints tb) ! i)"
    "\<forall>r \<in> set rgs. rt_methods r \<noteq> Only []"
    "length (tb_used tb) = length layers"
    "\<forall>j < length layers. tb_used tb ! j \<longleftrightarrow> (\<exists>r \<in> set rgs. layer_applies (rt_path r) (layers ! j))"
  using assms by (simp_all add: reg_inv_def)

lemma reg_inv_init: "matcher_ok M c \<Longrightarrow> reg_inv c layers [] (tables_init M layers)"
  using endpoints_inv_default [of M c]
  by (simp add: reg_inv_def tables_init_def routes_default_def endpoints_default_def matcher_empty)

lemma group_endpoint_Ok:
  assumes M: "matcher_ok M c" and ok: "group_endpoint M key tb = Ok (i, es, grouped)"
    and inv: "reg_inv c layers rgs tb"
  shows "endpoints_inv c es \<and> set grouped = c (es_matcher es) \<and>
    c (es_matcher es) = insert (key, i) (c (es_matcher (tb_endpoints tb))) \<and>
    i < length (es_endpoints es) \<and>
    (\<forall>(k, j) \<in> c (es_matcher es). ep_for rgs k (es_endpoints es ! j))"
proof -
  let ?es = "tb_endpoints tb"
  have i: "endpoints_inv c ?es" "set (tb_grouped tb) = c (es_matcher ?es)"
    "fst ` c (es_matcher ?es) = route_key ` set rgs"
    "\<forall>(k, i) \<in> c (es_matcher ?es). ep_for rgs k (es_endpoints ?es ! i)"
    using inv by (simp_all add: reg_inv_def)
  show ?thesis
  proof (cases "map_of (tb_grouped tb) key")
    case (Some j)
    with ok have e: "i = j" "es = ?es" "grouped = tb_grouped tb" by (auto simp: group_endpoint_def)
    have "(key, j) \<in> c (es_matcher ?es)" using Some i(2) by (auto dest: map_of_SomeD)
    moreover from this have "j < length (es_endpoints ?es)"
      using endpoints_inv_unique(3) [OF i(1)] by blast
    ultimately show ?thesis using e i by (auto simp: insert_absorb)
  next
    case None
    with ok obtain p where p: "path_from_str key = Ok p"
      and push: "try_push M ?es key (endpoint_new p) = Ok (Ok (i, es))" and g: "grouped = (key, i) # tb_grouped tb"
      by (auto simp: group_endpoint_def push_endpoint_Ok and_then_Ok_iff split: sum.splits)
    note o = try_push_Ok [OF push] and inv' = endpoints_inv_push [OF M i(1) wf_endpoint_new push]
    have pk: "p = (if key = ''/'' then [] else key)"
      using p path_from_str_reads(3) [OF p] path_from_str_slash by auto
    have new: "key \<notin> route_key ` set rgs" using inv'(3) i(3) by simp
    have "\<forall>(k, j) \<in> c (es_matcher es). ep_for rgs k (es_endpoints es ! j)"
    proof (clarify)
      fix k j
      assume kj: "(k, j) \<in> c (es_matcher es)"
      show "ep_for rgs k (es_endpoints es ! j)"
      proof (cases "(k, j) \<in> c (es_matcher ?es)")
        case True
        then have "j < length (es_endpoints ?es)" using endpoints_inv_unique(3) [OF i(1)] by blast
        with True i(4) o(2) show ?thesis by (auto simp: nth_append)
      next
        case False
        with kj inv'(2) have "k = key" "j = i" by auto
        with o(1,2) ep_for_new [OF new pk] show ?thesis by simp
      qed
    qed
    with inv' g i(2) o(1,2) show ?thesis by auto
  qed
qed

lemma register_route_inv:
  assumes M: "matcher_ok M c" and inv: "reg_inv c layers rgs tb"
    and ok: "register_route M layers r tb = Ok tb'"
  shows "reg_inv c layers (rgs @ [r]) tb'"
proof -
  let ?key = "route_key r"
  obtain i es grouped e where g: "group_endpoint M ?key tb = Ok (i, es, grouped)"
    and rec: "record_methods ?key (rt_path r) (length (rr_routes (tb_routes tb))) (es_endpoints es ! i) (rt_methods r) = Ok e"
    and tb': "tb' = \<lparr>tb_routes = snd (routes_push (tb_routes tb) r i (layers_for_path layers (rt_path r))),
        tb_endpoints = update_endpoint es i (\<lambda>_. e), tb_grouped = grouped,
        tb_used = map (\<lambda>(l, u). u \<or> layer_applies (rt_path r) l) (zip layers (tb_used tb))\<rparr>"
    using ok by (auto simp: register_route_def Let_def and_then_Ok_iff routes_push_def route_key_def)
  from group_endpoint_Ok [OF M g inv] have es: "endpoints_inv c es" "set grouped = c (es_matcher es)"
    "c (es_matcher es) = insert (?key, i) (c (es_matcher (tb_endpoints tb)))" "i < length (es_endpoints es)"
    "\<And>k j. (k, j) \<in> c (es_matcher es) \<Longrightarrow> ep_for rgs k (es_endpoints es ! j)" by auto
  have len: "length (rr_routes (tb_routes tb)) = length rgs" using inv by (simp add: reg_inv_def)
  have wf: "wf_endpoint (es_endpoints es ! i)" using es(1,4) by (simp add: endpoints_inv_def list_all_length)
  note rm = record_methods_Ok [OF rec wf]
  have ki: "(?key, i) \<in> c (es_matcher es)" using es(3) by simp
  have eps: "ep_for (rgs @ [r]) k (es_endpoints (update_endpoint es i (\<lambda>_. e)) ! j)"
    if kj: "(k, j) \<in> c (es_matcher es)" for k j
  proof (cases "j = i")
    case True
    then have "k = ?key" using endpoints_inv_unique(1) [OF es(1) ki] kj by simp
    with True es(4) ep_for_record [OF es(5) [OF ki] wf rec [unfolded len]] show ?thesis
      by (simp add: update_endpoint_def)
  next
    case False
    then have "k \<noteq> ?key" using endpoints_inv_unique(2) [OF es(1) ki] kj by auto
    with False ep_for_other [OF es(5) [OF kj], of r] show ?thesis by (simp add: update_endpoint_def)
  qed
  have m: "es_matcher (update_endpoint es i (\<lambda>_. e)) = es_matcher es" by (simp add: update_endpoint_def)
  have "endpoints_inv c (update_endpoint es i (\<lambda>_. e))"
    by (rule endpoints_inv_update [OF es(1)]) (rule rm(1))
  moreover have "rr_routes (tb_routes tb') = map (\<lambda>r. (r, layers_for_path layers (rt_path r))) (rgs @ [r])"
    using inv by (simp add: tb' routes_push_def reg_inv_def)
  moreover have "fst ` c (es_matcher es) = route_key ` set (rgs @ [r])"
    using inv es(3) by (simp add: reg_inv_def)
  moreover have "\<forall>r \<in> set (rgs @ [r]). rt_methods r \<noteq> Only []"
    using inv rm(7) by (auto simp: reg_inv_def)
  moreover have "length (tb_used tb') = length layers \<and>
      (\<forall>j < length layers. tb_used tb' ! j \<longleftrightarrow> (\<exists>r \<in> set (rgs @ [r]). layer_applies (rt_path r) (layers ! j)))"
    using inv by (auto simp: tb' reg_inv_def)
  ultimately show ?thesis
    using es(2) eps m by (auto simp: reg_inv_def tb')
qed

lemma register_routes_inv:
  "matcher_ok M c \<Longrightarrow> reg_inv c layers done_rgs tb \<Longrightarrow> register_routes M layers rs tb = Ok tb' \<Longrightarrow>
   reg_inv c layers (done_rgs @ rs) tb'"
proof (induction rs arbitrary: done_rgs tb)
  case (Cons r rs)
  then obtain tb1 where "register_route M layers r tb = Ok tb1" "register_routes M layers rs tb1 = Ok tb'"
    by (auto simp: and_then_Ok_iff)
  with Cons.IH [of "done_rgs @ [r]" tb1] Cons.prems register_route_inv show ?case by fastforce
qed simp

subsection \<open>The finished tables\<close>

lemma alias_idem: "wf_endpoint e \<Longrightarrow> alias_head_to_get (alias_head_to_get e) = alias_head_to_get e"
  by (auto simp: alias_head_to_get_def wf_endpoint_def)

lemma alias_heads_eq:
  assumes "endpoints_inv c es" "\<forall>i \<in> snd ` set grouped. i < length (es_endpoints es)"
  shows "es_matcher (alias_heads grouped es) = es_matcher es \<and>
    length (es_endpoints (alias_heads grouped es)) = length (es_endpoints es) \<and>
    endpoints_inv c (alias_heads grouped es) \<and>
    (\<forall>i < length (es_endpoints es). es_endpoints (alias_heads grouped es) ! i =
       (if i \<in> snd ` set grouped then alias_head_to_get (es_endpoints es ! i) else es_endpoints es ! i))"
  using assms
proof (induction grouped arbitrary: es)
  case (Cons g gs)
  let ?es = "update_endpoint es (snd g) alias_head_to_get"
  have step: "alias_heads (g # gs) es = alias_heads gs ?es" by (simp add: alias_heads_def)
  have u: "es_matcher ?es = es_matcher es" "length (es_endpoints ?es) = length (es_endpoints es)"
    "es_endpoints ?es = (es_endpoints es)[snd g := alias_head_to_get (es_endpoints es ! snd g)]"
    by (simp_all add: update_endpoint_def)
  have inv: "endpoints_inv c ?es" using endpoints_inv_update [OF Cons.prems(1)] wf_endpoint_alias by blast
  have wf: "wf_endpoint (es_endpoints es ! i)" if "i < length (es_endpoints es)" for i
    using Cons.prems(1) that by (simp add: endpoints_inv_def list_all_length)
  have "\<forall>i \<in> snd ` set gs. i < length (es_endpoints ?es)" using Cons.prems(2) u(2) by simp
  from Cons.IH [OF inv this] step u alias_idem [OF wf] Cons.prems(2)
  show ?case by (auto simp: nth_list_update)
qed (simp add: alias_heads_def)

text \<open>Which route serves a method at a key: one registered for it, or for \<^verbatim>\<open>HEAD\<close> the \<^verbatim>\<open>GET\<close> route
  when none is registered for \<^verbatim>\<open>HEAD\<close>.\<close>

definition serves :: "('b, 'c) route list \<Rightarrow> str \<Rightarrow> http_method \<Rightarrow> route_index \<Rightarrow> bool" where
  "serves rgs k m r \<longleftrightarrow> r < length rgs \<and> route_key (rgs ! r) = k \<and>
     (accepts (rt_methods (rgs ! r)) m \<or>
      m = ''HEAD'' \<and> accepts (rt_methods (rgs ! r)) ''GET'' \<and>
        \<not> (\<exists>q \<in> set rgs. route_key q = k \<and> accepts (rt_methods q) ''HEAD''))"

definition ep_done :: "('b, 'c) route list \<Rightarrow> str \<Rightarrow> endpoint \<Rightarrow> bool" where
  "ep_done rgs k e \<longleftrightarrow>
     ep_path e = (if k = ''/'' then [] else k) \<and>
     (\<forall>m r. endpoint_get e m = Some r \<longleftrightarrow> serves rgs k m r) \<and>
     (\<forall>r. ep_any e = Some r \<longleftrightarrow>
        r < length rgs \<and> route_key (rgs ! r) = k \<and> rt_methods (rgs ! r) = AnyMethod)"

lemma ep_done_alias:
  assumes "ep_for rgs k e" "wf_endpoint e"
  shows "ep_done rgs k (alias_head_to_get e)"
proof -
  have g: "endpoint_get e m = Some r \<longleftrightarrow>
      r < length rgs \<and> route_key (rgs ! r) = k \<and> accepts (rt_methods (rgs ! r)) m" for m r
    using assms(1) by (simp add: ep_for_def)
  have none: "endpoint_get e ''HEAD'' = None \<longleftrightarrow> \<not> (\<exists>q \<in> set rgs. route_key q = k \<and> accepts (rt_methods q) ''HEAD'')"
    using g [of "''HEAD''"] by (cases "endpoint_get e ''HEAD''") (auto simp: in_set_conv_nth, metis nth_mem)
  have "endpoint_get (alias_head_to_get e) m = Some r \<longleftrightarrow> serves rgs k m r" for m r
  proof (cases "m = ''HEAD'' \<and> endpoint_get e ''HEAD'' = None")
    case True
    then have "\<not> (r < length rgs \<and> route_key (rgs ! r) = k \<and> accepts (rt_methods (rgs ! r)) ''HEAD'')"
      using g [of "''HEAD''" r] by auto
    with True none show ?thesis
      using g [of "''GET''" r] by (auto simp: endpoint_get_alias [OF assms(2)] serves_def)
  next
    case False
    with none show ?thesis
      using g [of m r] by (auto simp: endpoint_get_alias [OF assms(2)] serves_def)
  qed
  with assms(1) show ?thesis by (simp add: ep_done_def ep_for_def)
qed

lemma build_stages:
  assumes "build M enc vr nid b = Ok ro"
  obtains tb es rs n where
    "register_routes M (bd_layers b) (registrations vr b) (tables_init M (bd_layers b)) = Ok tb"
    "check_used (zip (bd_layers b) (tb_used tb)) = Ok ()"
    "register_twins (bd_trailing b) enc M (always_layers (bd_layers b))
       (alias_heads (tb_grouped tb) (tb_endpoints tb), tb_routes tb, nid) = Ok (es, rs, n)"
    "ro = \<lparr>ro_routes = rs, ro_endpoints = es, ro_always = always_layers (bd_layers b),
       ro_origin = bd_origin b, ro_context = bd_context b, ro_proxies = bd_proxies b,
                 ro_compression = bd_compression b\<rparr>"
  using assms by (auto simp: build_def and_then_Ok_iff Let_def)

lemma build_regs:
  "matcher_ok M c \<Longrightarrow> register_routes M layers rgs (tables_init M layers) = Ok tb \<Longrightarrow> reg_inv c layers rgs tb"
  using register_routes_inv [of M c layers "[]" "tables_init M layers" rgs tb] reg_inv_init by fastforce

lemma built_router:
  assumes M: "matcher_ok M c" and ok: "build M enc vr nid b = Ok ro"
  shows "(\<forall>r < length (registrations vr b). rr_routes (ro_routes ro) ! r =
        (registrations vr b ! r, layers_for_path (bd_layers b) (rt_path (registrations vr b ! r)))) \<and>
    (\<forall>r < length (registrations vr b). \<exists>i < length (es_endpoints (ro_endpoints ro)).
        (route_key (registrations vr b ! r), i) \<in> c (es_matcher (ro_endpoints ro)) \<and>
        ep_done (registrations vr b) (route_key (registrations vr b ! r)) (es_endpoints (ro_endpoints ro) ! i)) \<and>
    endpoints_inv c (ro_endpoints ro) \<and>
    length (registrations vr b) \<le> length (rr_routes (ro_routes ro)) \<and>
    ro_always ro = always_layers (bd_layers b) \<and> ro_origin ro = bd_origin b"
proof -
  let ?rgs = "registrations vr b"
  from ok obtain tb es rs n where s:
    "register_routes M (bd_layers b) ?rgs (tables_init M (bd_layers b)) = Ok tb"
    "register_twins (bd_trailing b) enc M (always_layers (bd_layers b))
       (alias_heads (tb_grouped tb) (tb_endpoints tb), tb_routes tb, nid) = Ok (es, rs, n)"
    "ro_routes ro = rs" "ro_endpoints ro = es"
    "ro_always ro = always_layers (bd_layers b)" "ro_origin ro = bd_origin b"
    by (elim build_stages) auto
  note inv = reg_invD [OF build_regs [OF M s(1)]]
  have g: "\<forall>i \<in> snd ` set (tb_grouped tb). i < length (es_endpoints (tb_endpoints tb))"
    using inv(2,3) by (auto simp: endpoints_inv_def)
  note al = alias_heads_eq [OF inv(2) g]
  obtain extra others where tw: "es_endpoints es = es_endpoints (alias_heads (tb_grouped tb) (tb_endpoints tb)) @ extra"
    "rr_routes rs = rr_routes (tb_routes tb) @ others"
    "c (es_matcher (alias_heads (tb_grouped tb) (tb_endpoints tb))) \<subseteq> c (es_matcher es)"
    "endpoints_inv c es"
    using register_twins_inv [OF M _ s(2), of] al by (auto simp: twin_inv_def)
  have routes: "rr_routes (ro_routes ro) ! r = (?rgs ! r, layers_for_path (bd_layers b) (rt_path (?rgs ! r)))"
    if "r < length ?rgs" for r
    using that inv(1) tw(2) s(3) by (simp add: nth_append)
  have eps: "\<exists>i < length (es_endpoints (ro_endpoints ro)).
      (route_key (?rgs ! r), i) \<in> c (es_matcher (ro_endpoints ro)) \<and>
      ep_done ?rgs (route_key (?rgs ! r)) (es_endpoints (ro_endpoints ro) ! i)"
    if r: "r < length ?rgs" for r
  proof -
    have "route_key (?rgs ! r) \<in> fst ` c (es_matcher (tb_endpoints tb))" using inv(4) r by simp
    then obtain i where i: "(route_key (?rgs ! r), i) \<in> c (es_matcher (tb_endpoints tb))" by auto
    then have il: "i < length (es_endpoints (tb_endpoints tb))"
      using endpoints_inv_unique(3) [OF inv(2)] by blast
    have ig: "i \<in> snd ` set (tb_grouped tb)" using i unfolding inv(3) by force
    have "wf_endpoint (es_endpoints (tb_endpoints tb) ! i)"
      using inv(2) il by (simp add: endpoints_inv_def list_all_length)
    moreover have "ep_for ?rgs (route_key (?rgs ! r)) (es_endpoints (tb_endpoints tb) ! i)" using inv(5) i by auto
    ultimately have "ep_done ?rgs (route_key (?rgs ! r)) (es_endpoints es ! i)"
      using ep_done_alias al il ig tw(1) by (simp add: nth_append)
    moreover have "i < length (es_endpoints es)" using il al tw(1) by simp
    moreover have "(route_key (?rgs ! r), i) \<in> c (es_matcher es)" using i al tw(3) by auto
    ultimately show ?thesis unfolding s(4) by blast
  qed
  have "length ?rgs \<le> length (rr_routes (ro_routes ro))" using inv(1) tw(2) s(3) by simp
  with routes eps tw(4) s(4-6) show ?thesis by blast
qed

text \<open>C3. After a build, the routes are the registrations in order, each with the layers selected
  by its own path, and for every registration's URL the matcher holds an endpoint whose method
  table is exactly the registrations of that URL, \<^verbatim>\<open>HEAD\<close> falling back to \<^verbatim>\<open>GET\<close>, with the
  any-method route apart.\<close>

theorem build_tables:
  assumes M: "matcher_ok M c" and ok: "build M enc vr nid b = Ok ro"
  shows "(\<forall>r < length (registrations vr b). rr_routes (ro_routes ro) ! r =
        (registrations vr b ! r, layers_for_path (bd_layers b) (rt_path (registrations vr b ! r)))) \<and>
    (\<forall>r < length (registrations vr b). \<exists>i < length (es_endpoints (ro_endpoints ro)).
        (route_key (registrations vr b ! r), i) \<in> c (es_matcher (ro_endpoints ro)) \<and>
        ep_done (registrations vr b) (route_key (registrations vr b ! r)) (es_endpoints (ro_endpoints ro) ! i))"
  using built_router [OF assms] by blast

text \<open>Two routes on one path, for the witnesses.\<close>

definition demo_builder :: "(unit, unit, unit) builder" where
  "demo_builder =
     add_route \<lparr>rt_id = 1, rt_methods = Only [''POST''], rt_path = ''/users/{id}'', rt_handle = fail_with NotFoundError\<rparr>
       (add_route \<lparr>rt_id = 0, rt_methods = Only [''GET''], rt_path = ''/(app)/users/{id}'', rt_handle = fail_with NotFoundError\<rparr>
          (builder_new ()))"

definition demo_build :: "((unit, unit, (str \<times> endpoint_index) list) router, build_panic) result" where
  "demo_build = build list_matcher (\<lambda>s. s) (\<lambda>v cx hs. Panic) 2 demo_builder"

lemma demo_build_ok: "is_ok demo_build"
  by code_simp

lemma build_tables_witness:
  "\<exists>ro. demo_build = Ok ro \<and>
     (\<exists>i < length (es_endpoints (ro_endpoints ro)). (''/users/{id}'', i) \<in> set (es_matcher (ro_endpoints ro)))"
proof -
  obtain ro where ro: "demo_build = Ok ro" using demo_build_ok by (auto simp: is_ok_def split: sum.splits)
  have r: "registrations (\<lambda>v cx hs. Panic) demo_builder =
      [\<lparr>rt_id = 0, rt_methods = Only [''GET''], rt_path = ''/(app)/users/{id}'', rt_handle = fail_with NotFoundError\<rparr>,
       \<lparr>rt_id = 1, rt_methods = Only [''POST''], rt_path = ''/users/{id}'', rt_handle = fail_with NotFoundError\<rparr>]"
    by (simp add: registrations_def demo_builder_def add_route_def builder_new_def)
  have k: "to_matchit_path ''/(app)/users/{id}'' = ''/users/{id}''" by code_simp
  from build_tables [OF list_matcher_ok ro [unfolded demo_build_def]] ro r k show ?thesis
    by (intro exI [of _ ro]) (auto simp: route_key_def dest!: spec [of _ 0])
qed

text \<open>C12. A build never leaves two registrations competing: no two share a URL and a method, no
  two answer every method at one URL, every route accepts some method, and every layer below
  the root wraps some route.  Anything else panics.\<close>

theorem build_unambiguous:
  assumes "matcher_ok M c" "build M enc vr nid b = Ok ro"
    and "r < length (registrations vr b)" "q < length (registrations vr b)"
    and "route_key (registrations vr b ! r) = route_key (registrations vr b ! q)"
  shows "(accepts (rt_methods (registrations vr b ! r)) m \<and> accepts (rt_methods (registrations vr b ! q)) m \<longrightarrow> r = q) \<and>
    (rt_methods (registrations vr b ! r) = AnyMethod \<and> rt_methods (registrations vr b ! q) = AnyMethod \<longrightarrow> r = q) \<and>
    rt_methods (registrations vr b ! r) \<noteq> Only [] \<and>
    (\<forall>l \<in> set (bd_layers b). \<forall>p. l_path l = Some p \<longrightarrow> p \<noteq> [] \<longrightarrow>
       (\<exists>route \<in> set (registrations vr b). path_starts_with (rt_path route) p))"
proof -
  let ?rgs = "registrations vr b"
  from assms(2) obtain tb where s:
    "register_routes M (bd_layers b) ?rgs (tables_init M (bd_layers b)) = Ok tb"
    "check_used (zip (bd_layers b) (tb_used tb)) = Ok ()"
    by (elim build_stages)
  note inv = reg_invD [OF build_regs [OF assms(1) s(1)]]
  have "route_key (?rgs ! r) \<in> fst ` c (es_matcher (tb_endpoints tb))" using inv(4) assms(3) by simp
  then obtain i where i: "(route_key (?rgs ! r), i) \<in> c (es_matcher (tb_endpoints tb))" by auto
  with inv(5) have ep: "ep_for ?rgs (route_key (?rgs ! r)) (es_endpoints (tb_endpoints tb) ! i)" by auto
  have m: "endpoint_get (es_endpoints (tb_endpoints tb) ! i) m = Some k \<longleftrightarrow>
      k < length ?rgs \<and> route_key (?rgs ! k) = route_key (?rgs ! r) \<and> accepts (rt_methods (?rgs ! k)) m"
    "ep_any (es_endpoints (tb_endpoints tb) ! i) = Some k \<longleftrightarrow>
      k < length ?rgs \<and> route_key (?rgs ! k) = route_key (?rgs ! r) \<and> rt_methods (?rgs ! k) = AnyMethod" for k
    using ep by (simp_all add: ep_for_def)
  have u: "check_used (zip ls us) = Ok () \<Longrightarrow> length ls = length us \<Longrightarrow> j < length ls \<Longrightarrow> l_path (ls ! j) = Some p \<Longrightarrow>
      us ! j \<or> p = []" for ls us j p
    by (induction ls us arbitrary: j rule: list_induct2')
      (auto simp: nth_Cons' split: option.splits if_splits)
  have "\<exists>route \<in> set ?rgs. path_starts_with (rt_path route) p"
    if l: "l \<in> set (bd_layers b)" "l_path l = Some p" "p \<noteq> []" for l p
  proof -
    from l(1) obtain j where j: "j < length (bd_layers b)" "bd_layers b ! j = l" by (auto simp: in_set_conv_nth)
    with u [OF s(2) inv(7) [symmetric], of j p] l have "tb_used tb ! j" by simp
    with inv(8) j l show ?thesis by (auto simp: layer_applies_def)
  qed
  moreover have "accepts (rt_methods (?rgs ! r)) m \<and> accepts (rt_methods (?rgs ! q)) m \<longrightarrow> r = q"
    using m(1) [of r] m(1) [of q] assms(3-5) by auto
  moreover have "rt_methods (?rgs ! r) = AnyMethod \<and> rt_methods (?rgs ! q) = AnyMethod \<longrightarrow> r = q"
    using m(2) [of r] m(2) [of q] assms(3-5) by auto
  moreover have "rt_methods (?rgs ! r) \<noteq> Only []" using inv(6) assms(3) by simp
  ultimately show ?thesis by blast
qed

lemma build_unambiguous_witness:
  "rt_methods (registrations (\<lambda>v cx hs. Panic) demo_builder ! 0) \<noteq> Only []"
proof -
  obtain ro where ro: "demo_build = Ok ro" using demo_build_ok by (auto simp: is_ok_def split: sum.splits)
  have l: "0 < length (registrations (\<lambda>v cx hs. Panic) demo_builder)"
    by (simp add: registrations_def demo_builder_def add_route_def)
  from build_unambiguous [OF list_matcher_ok ro [unfolded demo_build_def] l l refl] show ?thesis by blast
qed

end
