(* ===== verification/Rewrites.thy ===== *)
theory Rewrites
  imports Layers
begin

text \<open>
  Internal rewrites: \<^verbatim>\<open>crates/topcoat-router/src/error/rewrite.rs\<close>.  A rewrite is an error that
  carries the request to handle next; a chain records the dispatches a request went through
  and the context values carried along.  A method, a path and a query name a dispatch, and a
  chain never holds one twice.
\<close>

subsection \<open>Building a rewrite\<close>

text \<open>\<^verbatim>\<open>PathAndQuery::try_from\<close> of the \<^verbatim>\<open>http\<close> crate is the argument \<open>parse\<close>.\<close>

definition rewrite_to :: "(str \<Rightarrow> (str \<times> str option) option) \<Rightarrow> str \<Rightarrow> 'b \<Rightarrow> ('b, 'c) rewrite outcome" where
  "rewrite_to parse path body =
     (case parse path of
        None \<Rightarrow> Panic
      | Some (p, q) \<Rightarrow>
          Done \<lparr>rw_path = p, rw_query = q, rw_body = body, rw_method = None, rw_headers = None,
                rw_context = Map.empty\<rparr>)"

definition rewrite_method :: "('b, 'c) rewrite \<Rightarrow> http_method \<Rightarrow> ('b, 'c) rewrite" where
  "rewrite_method rw m = rw\<lparr>rw_method := Some m\<rparr>"

definition rewrite_headers :: "('b, 'c) rewrite \<Rightarrow> header_map \<Rightarrow> ('b, 'c) rewrite" where
  "rewrite_headers rw h = rw\<lparr>rw_headers := Some h\<rparr>"

text \<open>\<^verbatim>\<open>with\<close>: the value under the number of its type.\<close>

definition rewrite_with :: "('b, 'c) rewrite \<Rightarrow> nat \<Rightarrow> 'c \<Rightarrow> ('b, 'c) rewrite" where
  "rewrite_with rw t v = rw\<lparr>rw_context := (rw_context rw)(t \<mapsto> v)\<rparr>"

subsection \<open>Dispatches and chains\<close>

definition REWRITE_LIMIT :: nat where "REWRITE_LIMIT = 8"

record dispatch =
  d_method :: http_method
  d_path :: str
  d_query :: "str option"

definition dispatch_of :: "parts \<Rightarrow> dispatch" where
  "dispatch_of ps =
     \<lparr>d_method = p_method ps, d_path = uri_path (p_uri ps), d_query = uri_query (p_uri ps)\<rparr>"

definition dispatch_text :: "dispatch \<Rightarrow> str" where
  "dispatch_text d =
     d_method d @ '' '' @ d_path d @ (case d_query d of None \<Rightarrow> [] | Some q \<Rightarrow> ''?'' @ q)"

record 'c rewrite_chain =
  rc_visited :: "dispatch list"
  rc_context :: "'c context_values"

definition chain_carrying :: "'c context_values \<Rightarrow> 'c rewrite_chain" where
  "chain_carrying values = \<lparr>rc_visited = [], rc_context = values\<rparr>"

definition chain_text :: "dispatch list \<Rightarrow> str" where
  "chain_text visited = join_with '' -> '' (map dispatch_text visited)"

definition rewrite_cycle :: "dispatch list \<Rightarrow> dispatch \<Rightarrow> ('b, 'c) error" where
  "rewrite_cycle visited target =
     RewriteLoopError (''the rewrite to '' @ dispatch_text target @ '' creates a cycle: '' @
       chain_text visited @ '' -> '' @ dispatch_text target)"

definition rewrite_limit :: "dispatch list \<Rightarrow> dispatch \<Rightarrow> ('b, 'c) error" where
  "rewrite_limit visited target =
     RewriteLoopError (''the request was rewritten more than '' @ decimal REWRITE_LIMIT @ '' times: '' @
       chain_text visited @ '' -> '' @ dispatch_text target)"

text \<open>\<^verbatim>\<open>Uri::from_parts\<close> of the \<^verbatim>\<open>http\<close> crate is the argument \<open>uri_ok\<close>: whether the parts make a URI.\<close>

definition follow :: "(uri \<Rightarrow> bool) \<Rightarrow> 'c rewrite_chain \<Rightarrow> parts \<Rightarrow> ('b, 'c) rewrite
    \<Rightarrow> ('c rewrite_chain \<times> ('b request, ('b, 'c) error) result) outcome" where
  "follow uri_ok chain previous rw =
     (let visited = rc_visited chain @ [dispatch_of previous];
          chain = chain\<lparr>rc_visited := visited\<rparr>;
          target = \<lparr>d_method = unwrap_or (p_method previous) (rw_method rw),
                    d_path = rw_path rw, d_query = rw_query rw\<rparr>
      in if target \<in> set visited then Done (chain, Err (rewrite_cycle visited target))
         else if REWRITE_LIMIT < length visited then Done (chain, Err (rewrite_limit visited target))
         else (let u = (p_uri previous)\<lparr>uri_path := d_path target, uri_query := d_query target\<rparr>
               in if \<not> uri_ok u then Panic
                  else (let ps = previous\<lparr>p_uri := u, p_method := d_method target,
                                          p_headers := unwrap_or (p_headers previous) (rw_headers rw)\<rparr>
                        in Done (chain\<lparr>rc_context := rc_context chain ++ rw_context rw\<rparr>,
                                 Ok \<lparr>rq_parts = ps, rq_body = rw_body rw\<rparr>))))"

subsection \<open>What a chain allows\<close>

lemma follow_Ok:
  assumes "follow uri_ok chain previous rw = Done (chain', Ok req)"
  shows "rc_visited chain' = rc_visited chain @ [dispatch_of previous]"
    and "rc_context chain' = rc_context chain ++ rw_context rw"
    and "length (rc_visited chain') \<le> REWRITE_LIMIT"
    and "dispatch_of (rq_parts req) \<notin> set (rc_visited chain')"
    and "dispatch_of (rq_parts req) =
      \<lparr>d_method = unwrap_or (p_method previous) (rw_method rw), d_path = rw_path rw, d_query = rw_query rw\<rparr>"
    and "p_headers (rq_parts req) = unwrap_or (p_headers previous) (rw_headers rw)"
    and "p_remote (rq_parts req) = p_remote previous" and "rq_body req = rw_body rw"
    and "uri_scheme (p_uri (rq_parts req)) = uri_scheme (p_uri previous)"
    and "uri_authority (p_uri (rq_parts req)) = uri_authority (p_uri previous)"
  using assms by (auto simp: follow_def dispatch_of_def Let_def split: if_splits)

lemma follow_cases:
  "follow uri_ok chain previous rw = Panic \<or>
   (\<exists>chain' req. follow uri_ok chain previous rw = Done (chain', Ok req)) \<or>
   (\<exists>chain' m. follow uri_ok chain previous rw = Done (chain', Err (RewriteLoopError m)))"
  by (auto simp: follow_def rewrite_cycle_def rewrite_limit_def Let_def)

text \<open>A rewrite is refused exactly when its target repeats a dispatch of the chain, the
  current one included, or when the chain has used up its eight rewrites; a followed rewrite
  keeps the method and the headers it does not replace, the authority and the connection, and
  lets its context values replace those carried before.\<close>

theorem follow_refuses:
  assumes "\<And>u. uri_ok u"
  shows "((\<exists>m. follow uri_ok chain previous rw = Done (chain\<lparr>rc_visited := rc_visited chain @ [dispatch_of previous]\<rparr>,
            Err (RewriteLoopError m))) \<longleftrightarrow>
      \<lparr>d_method = unwrap_or (p_method previous) (rw_method rw), d_path = rw_path rw, d_query = rw_query rw\<rparr>
        \<in> set (rc_visited chain @ [dispatch_of previous]) \<or> 8 \<le> length (rc_visited chain)) \<and>
    (follow uri_ok chain previous rw = Done (chain', Ok req) \<longrightarrow>
      rc_visited chain' = rc_visited chain @ [dispatch_of previous] \<and>
      rc_context chain' = rc_context chain ++ rw_context rw \<and>
      rq_body req = rw_body rw \<and>
      p_method (rq_parts req) = unwrap_or (p_method previous) (rw_method rw) \<and>
      p_headers (rq_parts req) = unwrap_or (p_headers previous) (rw_headers rw) \<and>
      p_remote (rq_parts req) = p_remote previous \<and>
      p_uri (rq_parts req) = (p_uri previous)\<lparr>uri_path := rw_path rw, uri_query := rw_query rw\<rparr>)"
  using assms by (auto simp: follow_def REWRITE_LIMIT_def rewrite_cycle_def rewrite_limit_def Let_def split: if_splits)

lemma follow_refuses_witness:
  "\<exists>m. follow (\<lambda>u. True) (chain_carrying (Map.empty :: unit context_values))
      \<lparr>p_method = ''GET'', p_uri = \<lparr>uri_scheme = None, uri_authority = None, uri_path = ''/a'', uri_query = None\<rparr>,
       p_headers = [], p_remote = None\<rparr>
      \<lparr>rw_path = ''/a'', rw_query = None, rw_body = (), rw_method = None, rw_headers = None, rw_context = Map.empty\<rparr> =
    Done (\<lparr>rc_visited = [\<lparr>d_method = ''GET'', d_path = ''/a'', d_query = None\<rparr>], rc_context = Map.empty\<rparr>,
      Err (RewriteLoopError m))"
  using follow_refuses [of "\<lambda>u. True" "chain_carrying (Map.empty :: unit context_values)"
      "\<lparr>p_method = ''GET'', p_uri = \<lparr>uri_scheme = None, uri_authority = None, uri_path = ''/a'', uri_query = None\<rparr>,
       p_headers = [], p_remote = None\<rparr>"
      "\<lparr>rw_path = ''/a'', rw_query = None, rw_body = (), rw_method = None, rw_headers = None, rw_context = Map.empty\<rparr>"]
  by (simp add: chain_carrying_def dispatch_of_def unwrap_or_def)

end
