(* ===== verification/Dispatch.thy ===== *)
theory Dispatch
  imports Builder Rewrites
begin

text \<open>
  Handling a request: \<^verbatim>\<open>crates/topcoat-router/src/router.rs\<close> and the identity header of
  \<^verbatim>\<open>request.rs\<close>.  The router matches the URL, picks the route for the method, runs the origin
  check and the layers, and goes around again for a rewrite.  Third-party operations are the
  record \<open>env\<close>: the URL matcher, percent decoding, the address parsers, the base64 decoder,
  body construction, URI assembly and the middleware that compresses responses.
\<close>

record ('m, 'b) env =
  ev_matcher :: "'m matchit"
  ev_percent_decode :: "str \<Rightarrow> str"
  ev_ip :: ip_ops
  ev_base64_decode :: "str \<Rightarrow> byte list option"
  ev_body :: "'b body_ops"
  ev_uri_ok :: "uri \<Rightarrow> bool"
  ev_tower :: "'b tower"

subsection \<open>The identity a request starts at\<close>

definition IDENTITY_HEADER :: str where "IDENTITY_HEADER = ''x-topcoat-identity''"

definition initial_identity :: "('m, 'b) env \<Rightarrow> 'c cx \<Rightarrow> (identity, ('b, 'c) error) result" where
  "initial_identity E cx =
     (case hm_get (p_headers (cx_parts cx)) IDENTITY_HEADER of
        None \<Rightarrow> Ok identity_root
      | Some header \<Rightarrow>
          ok_or (bad_request (''expected `'' @ IDENTITY_HEADER @ ''` to be an identity''))
            (Option.bind (header_to_str header) (identity_from_str (ev_base64_decode E))))"

subsection \<open>One dispatch\<close>

definition select_route :: "endpoint \<Rightarrow> http_method \<Rightarrow> route_index option" where
  "select_route e m = (case endpoint_get e m of Some i \<Rightarrow> Some i | None \<Rightarrow> ep_any e)"

text \<open>\<^verbatim>\<open>&inner.routes[index]\<close> panics out of range.\<close>

definition route_terminal :: "('b, 'c) routes \<Rightarrow> route_index \<Rightarrow> ('b, 'c) handler" where
  "route_terminal rs i =
     (if i < length (rr_routes rs) then route_with_layers (rr_routes rs ! i) else (\<lambda>_ _ _. Panic))"

definition dispatch_target :: "('m, 'b) env \<Rightarrow> ('b, 'c, 'm) router \<Rightarrow> 'c cx \<Rightarrow> 'c cx \<times> ('b, 'c) handler" where
  "dispatch_target E ro cx =
     (let ps = cx_parts cx
      in (case endpoints_at (ev_matcher E) (ro_endpoints ro) (uri_path (p_uri ps)) of
            Some (i, e, params) \<Rightarrow>
              (let path_params = from_match (ev_percent_decode E) (ep_path e) (map snd params);
                   r = select_route e (p_method ps);
                   next_h = (case r of
                       Some index \<Rightarrow> next_run [] (TRoute (route_terminal (ro_routes ro) index))
                     | None \<Rightarrow> next_run (ro_always ro) (TMethodNotAllowed e))
               in (cx\<lparr>cx_matched := Some (i, r), cx_params := path_params\<rparr>, next_h))
          | None \<Rightarrow> (cx, next_run (ro_always ro) TNotFound)))"

definition dispatch_request :: "('m, 'b) env \<Rightarrow> ('b, 'c, 'm) router \<Rightarrow> 'c cx \<Rightarrow> 'b \<Rightarrow> response_headers
    \<Rightarrow> 'c cx \<times> ('b, 'c) handled" where
  "dispatch_request E ro cx body hs =
     (let (cx, next_h) = dispatch_target E ro cx
      in (cx, origin_handle (ro_origin ro) next_h cx body hs))"

subsection \<open>The rewrite loop\<close>

text \<open>\<^verbatim>\<open>error.downcast::<RewriteError>()\<close>.\<close>

fun rewrite_of :: "('b, 'c) error \<Rightarrow> ('b, 'c) rewrite option" where
  "rewrite_of (RewriteError rw) = Some rw"
| "rewrite_of _ = None"

definition fresh_cx :: "'c context_values \<Rightarrow> parts \<Rightarrow> ip_addr option \<Rightarrow> parts \<Rightarrow> 'c cx" where
  "fresh_cx values original client ps =
     \<lparr>cx_values = values, cx_parts = ps, cx_original = original, cx_client_ip = client, cx_matched = None,
      cx_params = raw_path_params_default, cx_body_limit = None, cx_identity = identity_root\<rparr>"

definition with_identity :: "'c cx \<Rightarrow> identity \<Rightarrow> 'c cx" where
  "with_identity cx i = cx\<lparr>cx_identity := i\<rparr>"

text \<open>One turn of the loop: the answer with the context and pending headers it leaves, or the
  chain and the request to go around with.\<close>

datatype ('b, 'c) turn =
    Answer "'c cx" "('b response, ('b, 'c) error) result" response_headers
  | Again "'c rewrite_chain" "'b request"

definition handle_turn :: "('m, 'b) env \<Rightarrow> ('b, 'c, 'm) router \<Rightarrow> parts \<Rightarrow> ip_addr option
    \<Rightarrow> 'c rewrite_chain \<Rightarrow> 'b request \<Rightarrow> ('b, 'c) turn outcome" where
  "handle_turn E ro original client chain rq =
     (let cx = fresh_cx (rc_context chain) original client (rq_parts rq)
      in (case initial_identity E cx of
            Inl e \<Rightarrow> Done (Answer cx (Err e) rh_new)
          | Inr i \<Rightarrow>
              (case dispatch_request E ro (with_identity cx i) (rq_body rq) rh_new of
                 (cx, Panic) \<Rightarrow> Panic
               | (cx, Done (Inr resp, hs)) \<Rightarrow> Done (Answer cx (Ok resp) hs)
               | (cx, Done (Inl e, hs)) \<Rightarrow>
                   (case rewrite_of e of
                      None \<Rightarrow> Done (Answer cx (Err e) hs)
                    | Some rw \<Rightarrow>
                        bind_outcome (follow (ev_uri_ok E) chain (cx_parts cx) rw)
                          (\<lambda>(chain, r). case r of
                             Inl e \<Rightarrow> Done (Answer cx (Err e) hs)
                           | Inr rq \<Rightarrow> Done (Again chain rq))))))"

lemma handle_turn_Again:
  assumes "handle_turn E ro original client chain rq = Done (Again chain' rq')"
  shows "\<exists>rw. follow (ev_uri_ok E) chain (rq_parts rq) rw = Done (chain', Ok rq')"
proof -
  have "cx_parts (fst (dispatch_request E ro cx b hs)) = cx_parts cx" for cx b hs
    by (auto simp: dispatch_request_def dispatch_target_def Let_def split: option.splits prod.splits)
  then have parts: "dispatch_request E ro cx b hs = (cx', h) \<Longrightarrow> cx_parts cx' = cx_parts cx" for cx b hs cx' h
    by (metis fst_conv)
  from assms show ?thesis
    by (auto simp: handle_turn_def Let_def with_identity_def fresh_cx_def dest!: parts
        split: sum.splits prod.splits outcome.splits option.splits elim!: bind_outcome.elims)
qed

function handle_loop :: "('m, 'b) env \<Rightarrow> ('b, 'c, 'm) router \<Rightarrow> parts \<Rightarrow> ip_addr option
    \<Rightarrow> 'c rewrite_chain \<Rightarrow> 'b request
    \<Rightarrow> ('c cx \<times> ('b response, ('b, 'c) error) result \<times> response_headers) outcome" where
  "handle_loop E ro original client chain rq =
     (case handle_turn E ro original client chain rq of
        Panic \<Rightarrow> Panic
      | Done (Answer cx r hs) \<Rightarrow> Done (cx, r, hs)
      | Done (Again chain rq) \<Rightarrow> handle_loop E ro original client chain rq)"
  by pat_completeness auto

termination
proof (relation "measure (\<lambda>(E, ro, original, client, chain, rq). Suc REWRITE_LIMIT - length (rc_visited chain))")
  fix E ro original client chain rq t chain' rq'
  assume "handle_turn (E :: ('m, 'b) env) (ro :: ('b, 'c, 'm) router) original client chain rq = Done t" "t = Again chain' rq'"
  then obtain rw where "follow (ev_uri_ok E) chain (rq_parts rq) rw = Done (chain', Ok rq')"
    using handle_turn_Again by blast
  from follow_Ok(1,3) [OF this]
  show "((E, ro, original, client, chain', rq'), E, ro, original, client, chain, rq)
      \<in> measure (\<lambda>(E, ro, original, client, chain, rq). Suc REWRITE_LIMIT - length (rc_visited chain))"
    by simp
qed simp

declare handle_loop.simps [simp del]

definition handle_inner :: "('m, 'b) env \<Rightarrow> ('b, 'c, 'm) router \<Rightarrow> 'b request \<Rightarrow> 'c rewrite_chain
    \<Rightarrow> 'b response outcome" where
  "handle_inner E ro rq chain =
     (let ps = rq_parts rq;
          client = client_ip (ev_ip E) (ro_proxies ro) (p_remote ps) (p_headers ps)
      in bind_outcome (handle_loop E ro ps client chain rq)
           (\<lambda>(cx, result, hs).
             (let response = respond (ev_body E) result
              in (case rh_apply hs (rs_headers response) of
                    None \<Rightarrow> Panic
                  | Some (_, headers) \<Rightarrow>
                      Done (compress (ev_tower E) (ro_compression ro) (p_headers (cx_parts cx))
                        (response\<lparr>rs_headers := headers\<rparr>))))))"

definition handle_with :: "('m, 'b) env \<Rightarrow> ('b, 'c, 'm) router \<Rightarrow> 'b request \<Rightarrow> 'c context_values
    \<Rightarrow> 'b response" where
  "handle_with E ro rq values =
     (case handle_inner E ro rq (chain_carrying values) of
        Done response \<Rightarrow> response
      | Panic \<Rightarrow> internal_server_response (ev_body E))"

definition handle_request :: "('m, 'b) env \<Rightarrow> ('b, 'c, 'm) router \<Rightarrow> 'b request \<Rightarrow> 'b response" where
  "handle_request E ro rq = handle_with E ro rq Map.empty"

subsection \<open>Reading the match back\<close>

definition try_endpoint :: "('b, 'c, 'm) router \<Rightarrow> 'c cx \<Rightarrow> endpoint option" where
  "try_endpoint ro cx = map_option (\<lambda>(i, r). es_endpoints (ro_endpoints ro) ! i) (cx_matched cx)"

definition try_route :: "('b, 'c, 'm) router \<Rightarrow> 'c cx \<Rightarrow> ('b, 'c) route option" where
  "try_route ro cx =
     Option.bind (cx_matched cx) (\<lambda>(i, r). map_option (\<lambda>j. fst (rr_routes (ro_routes ro) ! j)) r)"

definition route_endpoint :: "('b, 'c, 'm) router \<Rightarrow> nat \<Rightarrow> endpoint option" where
  "route_endpoint ro i =
     map_option (\<lambda>j. es_endpoints (ro_endpoints ro) ! j) (route_endpoint_index (ro_routes ro) i)"

subsection \<open>Which handler a request reaches\<close>

lemma dispatch_target_None:
  "mi_at (ev_matcher E) (es_matcher (ro_endpoints ro)) (uri_path (p_uri (cx_parts cx))) = None \<Longrightarrow>
   dispatch_target E ro cx = (cx, next_run (ro_always ro) TNotFound)"
  by (simp add: dispatch_target_def endpoints_at_def)

lemma dispatch_target_Some:
  assumes "mi_at (ev_matcher E) (es_matcher (ro_endpoints ro)) (uri_path (p_uri (cx_parts cx))) = Some (i, ps)"
    and "e = es_endpoints (ro_endpoints ro) ! i" "r = select_route e (p_method (cx_parts cx))"
  shows "dispatch_target E ro cx =
    (cx\<lparr>cx_matched := Some (i, r), cx_params := from_match (ev_percent_decode E) (ep_path e) (map snd ps)\<rparr>,
     case r of Some index \<Rightarrow> route_terminal (ro_routes ro) index
     | None \<Rightarrow> next_run (ro_always ro) (TMethodNotAllowed e))"
  using assms by (auto simp: dispatch_target_def endpoints_at_def Let_def split: option.splits)

lemma select_route_cases:
  assumes "ep_done rgs k e"
  shows "serves rgs k m r \<Longrightarrow> select_route e m = Some r"
    and "(\<And>r. \<not> serves rgs k m r) \<Longrightarrow> r < length rgs \<Longrightarrow> route_key (rgs ! r) = k \<Longrightarrow>
         rt_methods (rgs ! r) = AnyMethod \<Longrightarrow> select_route e m = Some r"
    and "(\<And>r. \<not> serves rgs k m r) \<Longrightarrow> (\<And>r. r < length rgs \<Longrightarrow> route_key (rgs ! r) = k \<Longrightarrow>
         rt_methods (rgs ! r) \<noteq> AnyMethod) \<Longrightarrow> select_route e m = None"
proof -
  have g: "endpoint_get e m = Some r \<longleftrightarrow> serves rgs k m r"
    "ep_any e = Some r \<longleftrightarrow> r < length rgs \<and> route_key (rgs ! r) = k \<and> rt_methods (rgs ! r) = AnyMethod" for m r
    using assms by (simp_all add: ep_done_def)
  show "serves rgs k m r \<Longrightarrow> select_route e m = Some r"
    using g(1) [of m r] by (simp add: select_route_def)
  have n: "(\<And>r. \<not> serves rgs k m r) \<Longrightarrow> endpoint_get e m = None"
    using g(1) [of m] by (cases "endpoint_get e m") auto
  show "(\<And>r. \<not> serves rgs k m r) \<Longrightarrow> r < length rgs \<Longrightarrow> route_key (rgs ! r) = k \<Longrightarrow>
      rt_methods (rgs ! r) = AnyMethod \<Longrightarrow> select_route e m = Some r"
    using n g(2) [of r] by (simp add: select_route_def)
  show "(\<And>r. \<not> serves rgs k m r) \<Longrightarrow> (\<And>r. r < length rgs \<Longrightarrow> route_key (rgs ! r) = k \<Longrightarrow>
      rt_methods (rgs ! r) \<noteq> AnyMethod) \<Longrightarrow> select_route e m = None"
    using n g(2) by (cases "ep_any e") (auto simp: select_route_def)
qed

text \<open>C1. A built router sends a request whose URL matched the endpoint of a registration's URL
  through the origin check to the registration that serves the method there, else to the
  any-method registration, inside exactly the layers of that registration's path; when there
  is neither, the layers without a path run around a \<^verbatim>\<open>405\<close>.  In each case the context carries
  the match.\<close>

theorem dispatch_selects:
  assumes M: "matcher_ok M c" and b: "build M enc vr nid b = Ok ro" and E: "ev_matcher E = M"
    and at: "mi_at M (es_matcher (ro_endpoints ro)) (uri_path (p_uri (cx_parts cx))) = Some (i, ps)"
    and k: "(k, i) \<in> c (es_matcher (ro_endpoints ro))" "k \<in> route_key ` set (registrations vr b)"
  shows "\<exists>r. fst (dispatch_request E ro cx body hs) =
        cx\<lparr>cx_matched := Some (i, r),
           cx_params := from_match (ev_percent_decode E) (if k = ''/'' then [] else k) (map snd ps)\<rparr> \<and>
      (case r of
         Some j \<Rightarrow>
           (serves (registrations vr b) k (p_method (cx_parts cx)) j \<or>
              (\<forall>j'. \<not> serves (registrations vr b) k (p_method (cx_parts cx)) j') \<and>
              route_key (registrations vr b ! j) = k \<and> rt_methods (registrations vr b ! j) = AnyMethod) \<and>
           j < length (registrations vr b) \<and>
           snd (dispatch_request E ro cx body hs) =
             origin_handle (bd_origin b)
               (next_run (layers_for_path (bd_layers b) (rt_path (registrations vr b ! j)))
                 (TRoute (rt_handle (registrations vr b ! j)))) (fst (dispatch_request E ro cx body hs)) body hs
       | None \<Rightarrow>
           (\<forall>j. \<not> serves (registrations vr b) k (p_method (cx_parts cx)) j) \<and>
           (\<forall>j < length (registrations vr b). route_key (registrations vr b ! j) = k \<longrightarrow>
              rt_methods (registrations vr b ! j) \<noteq> AnyMethod) \<and>
           snd (dispatch_request E ro cx body hs) =
             origin_handle (bd_origin b)
               (next_run (always_layers (bd_layers b)) (TMethodNotAllowed (es_endpoints (ro_endpoints ro) ! i)))
               (fst (dispatch_request E ro cx body hs)) body hs)"
proof -
  let ?rgs = "registrations vr b" and ?m = "p_method (cx_parts cx)"
  define e where "e = es_endpoints (ro_endpoints ro) ! i"
  note br = built_router [OF M b]
  from k(2) obtain j0 where j0: "j0 < length ?rgs" "route_key (?rgs ! j0) = k" by (auto simp: in_set_conv_nth)
  with br obtain i' where "(k, i') \<in> c (es_matcher (ro_endpoints ro))"
    "ep_done ?rgs k (es_endpoints (ro_endpoints ro) ! i')" by blast
  moreover from this have "i' = i" using br k(1) endpoints_inv_unique(2) by blast
  ultimately have d: "ep_done ?rgs k e" by (simp add: e_def)
  then have path: "ep_path e = (if k = ''/'' then [] else k)" by (simp add: ep_done_def)
  define r where "r = select_route e ?m"
  have run: "j < length ?rgs \<Longrightarrow> route_terminal (ro_routes ro) j =
      next_run (layers_for_path (bd_layers b) (rt_path (?rgs ! j))) (TRoute (rt_handle (?rgs ! j)))" for j
    using br by (simp add: route_terminal_def route_with_layers_def)
  note t = dispatch_target_Some [of E ro cx i ps e r, OF at [folded E] e_def r_def]
  have "dispatch_request E ro cx body hs =
      (let (cx, next_h) = dispatch_target E ro cx in (cx, origin_handle (bd_origin b) next_h cx body hs))"
    using br by (simp add: dispatch_request_def)
  note dr = this [unfolded t Let_def prod.case path]
  note sc = select_route_cases [OF d, of ?m, folded r_def]
  have eps: "endpoint_get e ?m = Some j \<longleftrightarrow> serves ?rgs k ?m j"
    "ep_any e = Some j \<longleftrightarrow> j < length ?rgs \<and> route_key (?rgs ! j) = k \<and> rt_methods (?rgs ! j) = AnyMethod" for j
    using d by (simp_all add: ep_done_def)
  show ?thesis
  proof (cases r)
    case None
    then have n: "\<not> serves ?rgs k ?m j" for j using sc(1) by fastforce
    moreover have "j < length ?rgs \<Longrightarrow> route_key (?rgs ! j) = k \<Longrightarrow> rt_methods (?rgs ! j) \<noteq> AnyMethod" for j
      using sc(2) [OF n] None by fastforce
    ultimately show ?thesis
      using None br by (intro exI [of _ r]) (auto simp: dr e_def)
  next
    case (Some j)
    have s: "serves ?rgs k ?m j \<or> (\<forall>j'. \<not> serves ?rgs k ?m j') \<and> route_key (?rgs ! j) = k \<and>
        rt_methods (?rgs ! j) = AnyMethod" and l: "j < length ?rgs"
      using Some eps by (auto simp: r_def select_route_def serves_def split: option.splits)
    then show ?thesis
      using Some by (intro exI [of _ r]) (auto simp: dr run)
  qed
qed

text \<open>An environment for the witnesses.\<close>

definition demo_env :: "((str \<times> endpoint_index) list, unit) env" where
  "demo_env =
     \<lparr>ev_matcher = list_matcher, ev_percent_decode = (\<lambda>s. s),
      ev_ip = \<lparr>parse_v4 = (\<lambda>_. None), parse_v6 = (\<lambda>_. None), utf8_ok = (\<lambda>_. True), str_trim = (\<lambda>s. s),
               net_contains = (\<lambda>_ _. False)\<rparr>,
      ev_base64_decode = demo_decode, ev_body = \<lparr>body_text = (\<lambda>_. ()), body_empty = ()\<rparr>,
      ev_uri_ok = (\<lambda>_. True), ev_tower = (\<lambda>_ _ r. r)\<rparr>"

definition demo_parts :: "http_method \<Rightarrow> str \<Rightarrow> parts" where
  "demo_parts m path =
     \<lparr>p_method = m, p_uri = \<lparr>uri_scheme = None, uri_authority = None, uri_path = path, uri_query = None\<rparr>,
      p_headers = [], p_remote = None\<rparr>"

lemma demo_matches:
  "(case demo_build of
      Inr ro \<Rightarrow> mi_at list_matcher (es_matcher (ro_endpoints ro)) ''/users/42'' = Some (0, []) \<and>
        (''/users/{id}'', 0) \<in> set (es_matcher (ro_endpoints ro))
    | Inl _ \<Rightarrow> False)"
  by code_simp

theorem dispatch_selects_witness:
  "\<exists>ro r. demo_build = Ok ro \<and>
     cx_matched (fst (dispatch_request demo_env ro
       (fresh_cx Map.empty (demo_parts ''POST'' ''/users/42'') None (demo_parts ''POST'' ''/users/42'')) () rh_new))
     = Some (0, r)"
proof -
  let ?cx = "fresh_cx Map.empty (demo_parts ''POST'' ''/users/42'') None (demo_parts ''POST'' ''/users/42'') :: unit cx"
  from demo_matches obtain ro where ro: "demo_build = Ok ro"
    "mi_at list_matcher (es_matcher (ro_endpoints ro)) ''/users/42'' = Some (0, [])"
    "(''/users/{id}'', 0) \<in> set (es_matcher (ro_endpoints ro))"
    by (auto split: sum.splits)
  have p: "uri_path (p_uri (cx_parts ?cx)) = ''/users/42''" by (simp add: fresh_cx_def demo_parts_def)
  have "registrations (\<lambda>v cx hs. Panic) demo_builder ! 1 \<in> set (registrations (\<lambda>v cx hs. Panic) demo_builder)"
    "route_key (registrations (\<lambda>v cx hs. Panic) demo_builder ! 1) = ''/users/{id}''"
    by (simp_all add: registrations_def demo_builder_def add_route_def builder_new_def route_key_def) code_simp
  then have k: "''/users/{id}'' \<in> route_key ` set (registrations (\<lambda>v cx hs. Panic) demo_builder)" by force
  have E: "ev_matcher demo_env = list_matcher" by (simp add: demo_env_def)
  have at: "mi_at list_matcher (es_matcher (ro_endpoints ro)) (uri_path (p_uri (cx_parts ?cx))) = Some (0, [])"
    unfolding p by (rule ro(2))
  from dispatch_selects [OF list_matcher_ok ro(1) [unfolded demo_build_def] E at ro(3) k, of "()" rh_new]
  obtain r ps where "fst (dispatch_request demo_env ro ?cx () rh_new) = ?cx\<lparr>cx_matched := Some (0, r), cx_params := ps\<rparr>"
    by (elim exE conjE)
  with ro(1) show ?thesis by (intro exI [of _ ro] exI [of _ r]) simp
qed

subsection \<open>The rewrite loop ends\<close>

text \<open>One rewrite followed, as a step between the chain and request before and after it.\<close>

inductive hop :: "('m, 'b) env \<Rightarrow> ('b, 'c, 'm) router \<Rightarrow> parts \<Rightarrow> ip_addr option
    \<Rightarrow> 'c rewrite_chain \<times> 'b request \<Rightarrow> 'c rewrite_chain \<times> 'b request \<Rightarrow> bool"
  for E :: "('m, 'b) env" and ro :: "('b, 'c, 'm) router" and original client where
  "handle_turn E ro original client chain rq = Done (Again chain' rq') \<Longrightarrow>
   hop E ro original client (chain, rq) (chain', rq')"

inductive_simps hop_iff: "hop E ro original client (chain, rq) (chain', rq')"

lemma hop_grows:
  assumes "hop E ro original client (chain, rq) (chain', rq')"
  shows "rc_visited chain' = rc_visited chain @ [dispatch_of (rq_parts rq)]"
    and "length (rc_visited chain') \<le> REWRITE_LIMIT"
    and "dispatch_of (rq_parts rq') \<notin> set (rc_visited chain')"
  using assms handle_turn_Again follow_Ok(1,3,4) unfolding hop_iff by metis+

lemma hops_visited:
  "(hop E ro original client ^^ n) (chain_carrying v, rq) (chain, rq') \<Longrightarrow>
   length (rc_visited chain) = n \<and> n \<le> REWRITE_LIMIT \<and>
   distinct (rc_visited chain @ [dispatch_of (rq_parts rq')])"
proof (induction n arbitrary: chain rq')
  case 0
  then show ?case by (auto simp: chain_carrying_def)
next
  case (Suc n)
  then obtain mid mrq where "(hop E ro original client ^^ n) (chain_carrying v, rq) (mid, mrq)"
    "hop E ro original client (mid, mrq) (chain, rq')" by auto
  with Suc.IH hop_grows [of E ro original client mid mrq chain rq'] show ?case by fastforce
qed

text \<open>C6. However its handlers rewrite, a request runs through at most eight rewrites, and no two
  of its dispatches have the same method, path and query.\<close>

theorem rewrites_bounded:
  assumes "(hop E ro original client ^^ n) (chain_carrying v, rq) (chain, rq')"
  shows "n \<le> 8 \<and> length (rc_visited chain) = n \<and> distinct (rc_visited chain @ [dispatch_of (rq_parts rq')])"
  using hops_visited [OF assms] by (simp add: REWRITE_LIMIT_def)

text \<open>A router without routes whose only layer rewrites every request, for the witnesses.\<close>

definition demo_rewriter :: "(unit, unit) layer" where
  "demo_rewriter =
     \<lparr>l_path = None,
      l_handle = (\<lambda>next_h. fail_with (RewriteError
        \<lparr>rw_path = ''/next'', rw_query = None, rw_body = (), rw_method = None, rw_headers = None,
         rw_context = Map.empty\<rparr>))\<rparr>"

definition demo_router :: "(unit, unit, (str \<times> endpoint_index) list) router" where
  "demo_router =
     \<lparr>ro_routes = routes_default, ro_endpoints = endpoints_default list_matcher, ro_always = [demo_rewriter],
      ro_origin = origin_policy_new, ro_context = Map.empty, ro_proxies = trusted_proxies_new,
      ro_compression = compression_off\<rparr>"

lemma demo_hop:
  "hop demo_env demo_router original None
     (chain_carrying Map.empty, \<lparr>rq_parts = demo_parts ''GET'' ''/'', rq_body = ()\<rparr>)
     (\<lparr>rc_visited = [dispatch_of (demo_parts ''GET'' ''/'')], rc_context = Map.empty ++ Map.empty\<rparr>,
      \<lparr>rq_parts = demo_parts ''GET'' ''/next'', rq_body = ()\<rparr>)"
  unfolding hop_iff
  by (simp add: handle_turn_def initial_identity_def fresh_cx_def demo_parts_def hm_get_def ok_or_def
      dispatch_request_def dispatch_target_def demo_router_def endpoints_default_def endpoints_at_def
      list_matcher_def demo_env_def origin_handle_def demo_rewriter_def fail_with_def origin_policy_new_def
      upgrades_to_websocket_def header_str_def is_some_and_def with_identity_def follow_def chain_carrying_def
      dispatch_of_def unwrap_or_def REWRITE_LIMIT_def Let_def)

theorem rewrites_bounded_witness:
  "distinct [dispatch_of (demo_parts ''GET'' ''/''), dispatch_of (demo_parts ''GET'' ''/next'')]"
proof -
  have "(hop demo_env demo_router (demo_parts ''GET'' ''/'') None ^^ 1)
      (chain_carrying Map.empty, \<lparr>rq_parts = demo_parts ''GET'' ''/'', rq_body = ()\<rparr>)
      (\<lparr>rc_visited = [dispatch_of (demo_parts ''GET'' ''/'')], rc_context = Map.empty ++ Map.empty\<rparr>,
       \<lparr>rq_parts = demo_parts ''GET'' ''/next'', rq_body = ()\<rparr>)"
    unfolding relpowp_1 by (rule demo_hop)
  from rewrites_bounded [OF this] show ?thesis by simp
qed

lemma handle_loop_hops:
  "\<exists>n chain' rq'. (hop E ro original client ^^ n) (chain, rq) (chain', rq') \<and>
     (case handle_loop E ro original client chain rq of
        Done (cx, r, hs) \<Rightarrow> handle_turn E ro original client chain' rq' = Done (Answer cx r hs)
      | Panic \<Rightarrow> handle_turn E ro original client chain' rq' = Panic)"
proof (induction E ro original client chain rq rule: handle_loop.induct)
  case (1 E ro original client chain rq)
  note step = handle_loop.simps [of E ro original client chain rq]
  show ?case
  proof (cases "handle_turn E ro original client chain rq")
    case (Done t)
    show ?thesis
    proof (cases t)
      case (Answer cx r hs)
      with Done show ?thesis by (intro exI [of _ 0]) (auto simp: step)
    next
      case (Again chain1 rq1)
      have "handle_loop E ro original client chain rq = handle_loop E ro original client chain1 rq1"
        using Done Again by (simp add: step)
      with "1.IH" [OF Done Again] obtain n chain' rq' where
        n: "(hop E ro original client ^^ n) (chain1, rq1) (chain', rq')" and
        t: "case handle_loop E ro original client chain rq of
          Done (cx, r, hs) \<Rightarrow> handle_turn E ro original client chain' rq' = Done (Answer cx r hs)
        | Panic \<Rightarrow> handle_turn E ro original client chain' rq' = Panic" by metis
      have "hop E ro original client (chain, rq) (chain1, rq1)" using Done Again by (simp add: hop_iff)
      with n have "(hop E ro original client ^^ Suc n) (chain, rq) (chain', rq')" by (meson relpowp_Suc_I2)
      with t show ?thesis by blast
    qed
  next
    case Panic
    then show ?thesis by (intro exI [of _ 0]) (auto simp: step)
  qed
qed

text \<open>The dispatch of a turn, where the identity header lets it come to one: the context its handlers
  get and what they made of it; and how the turn goes on from there.\<close>

definition turn_dispatch :: "('m, 'b) env \<Rightarrow> ('b, 'c, 'm) router \<Rightarrow> parts \<Rightarrow> ip_addr option
    \<Rightarrow> 'c rewrite_chain \<Rightarrow> 'b request \<Rightarrow> ('c cx \<times> ('b, 'c) handled) option" where
  "turn_dispatch E ro original client chain rq =
     (let cx = fresh_cx (rc_context chain) original client (rq_parts rq)
      in (case initial_identity E cx of
            Inl _ \<Rightarrow> None
          | Inr i \<Rightarrow> Some (dispatch_request E ro (with_identity cx i) (rq_body rq) rh_new)))"

definition turn_end :: "('m, 'b) env \<Rightarrow> 'c rewrite_chain \<Rightarrow> 'c cx \<Rightarrow> ('b, 'c) handled \<Rightarrow> ('b, 'c) turn outcome" where
  "turn_end E chain cx h =
     bind_outcome h (\<lambda>(r, hs).
       case Option.bind (case r of Inl e \<Rightarrow> Some e | Inr _ \<Rightarrow> None) rewrite_of of
         None \<Rightarrow> Done (Answer cx r hs)
       | Some rw \<Rightarrow> bind_outcome (follow (ev_uri_ok E) chain (cx_parts cx) rw)
           (\<lambda>(chain, r). case r of Inl e \<Rightarrow> Done (Answer cx (Err e) hs) | Inr rq \<Rightarrow> Done (Again chain rq)))"

lemma handle_turn_dispatch:
  assumes "turn_dispatch E ro original client chain rq = Some (cx, h)"
  shows "handle_turn E ro original client chain rq = turn_end E chain cx h"
  using assms by (auto simp: turn_dispatch_def handle_turn_def turn_end_def Let_def
      split: sum.splits outcome.splits option.splits)

lemma turn_dispatch_cx:
  assumes "turn_dispatch E ro original client chain rq = Some (cx, h)"
  shows "cx_original cx = original" "cx_client_ip cx = client" "cx_parts cx = rq_parts rq"
    "cx_values cx = rc_context chain" "h = origin_handle (ro_origin ro) (snd (dispatch_target E ro cx)) cx (rq_body rq) rh_new"
  using assms by (auto simp: turn_dispatch_def dispatch_request_def dispatch_target_def with_identity_def fresh_cx_def Let_def
      split: sum.splits prod.splits option.splits)

lemma handle_turn_Answer:
  "handle_turn E ro original client chain rq = Done (Answer cx r hs) \<Longrightarrow> r \<noteq> Err (RewriteError rw)"
proof -
  assume a: "handle_turn E ro original client chain rq = Done (Answer cx r hs)"
  have "follow u ch ps w \<noteq> Done (ch', Err (RewriteError rw))" for u ch ps w ch'
    using follow_cases [of u ch ps w] by (auto simp: follow_def rewrite_cycle_def rewrite_limit_def Let_def)
  with a show ?thesis
    by (auto simp: handle_turn_def initial_identity_def ok_or_def bad_request_def Let_def
        split: sum.splits prod.splits outcome.splits option.splits elim!: bind_outcome.elims)
qed

text \<open>C2. The rewrite loop always ends, with what one of the at most nine turns came to: it answers
  what that turn answered, never a rewrite, and panics only where that turn panics.  In every turn, also
  those that end in a rewrite, the handlers run in a context that holds the client address and
  the original parts the loop was started with, the parts of that turn's request, and the values
  carried by the rewrites before it.\<close>

theorem handle_loop_answers:
  "(\<exists>n \<le> 8. \<exists>chain rq'. (hop E ro original client ^^ n) (chain_carrying v, rq) (chain, rq') \<and>
     (case handle_loop E ro original client (chain_carrying v) rq of
        Done (cx, r, hs) \<Rightarrow> handle_turn E ro original client chain rq' = Done (Answer cx r hs) \<and>
          (\<forall>rw. r \<noteq> Err (RewriteError rw))
      | Panic \<Rightarrow> handle_turn E ro original client chain rq' = Panic)) \<and>
   (\<forall>n chain rq' cx h. (hop E ro original client ^^ n) (chain_carrying v, rq) (chain, rq') \<longrightarrow>
      turn_dispatch E ro original client chain rq' = Some (cx, h) \<longrightarrow>
      handle_turn E ro original client chain rq' = turn_end E chain cx h \<and>
      h = origin_handle (ro_origin ro) (snd (dispatch_target E ro cx)) cx (rq_body rq') rh_new \<and>
      cx_original cx = original \<and> cx_client_ip cx = client \<and>
      cx_parts cx = rq_parts rq' \<and> cx_values cx = rc_context chain)"
proof -
  obtain n chain rq' where
    n: "(hop E ro original client ^^ n) (chain_carrying v, rq) (chain, rq')" and
    t: "case handle_loop E ro original client (chain_carrying v) rq of
        Done (cx, r, hs) \<Rightarrow> handle_turn E ro original client chain rq' = Done (Answer cx r hs)
      | Panic \<Rightarrow> handle_turn E ro original client chain rq' = Panic"
    using handle_loop_hops by blast
  have "n \<le> 8" using hops_visited [OF n] by (simp add: REWRITE_LIMIT_def)
  moreover have "case handle_loop E ro original client (chain_carrying v) rq of
        Done (cx, r, hs) \<Rightarrow> handle_turn E ro original client chain rq' = Done (Answer cx r hs) \<and>
          (\<forall>rw. r \<noteq> Err (RewriteError rw))
      | Panic \<Rightarrow> handle_turn E ro original client chain rq' = Panic"
    using t handle_turn_Answer [of E ro original client chain rq'] by (auto split: outcome.splits)
  ultimately show ?thesis using n
    by (intro conjI allI impI) (blast, simp_all add: handle_turn_dispatch, simp_all only: turn_dispatch_cx)
qed

lemma is_loop_error:
  "(case e of RewriteLoopError m \<Rightarrow> True | _ \<Rightarrow> False) \<Longrightarrow> \<exists>m. e = RewriteLoopError m"
  by (cases e) simp_all

lemma demo_loop_answers:
  "(case handle_loop demo_env demo_router (demo_parts ''GET'' ''/'') None (chain_carrying Map.empty)
        \<lparr>rq_parts = demo_parts ''GET'' ''/'', rq_body = ()\<rparr> of
      Done (cx, r, hs) \<Rightarrow> (case r of Inl (RewriteLoopError m) \<Rightarrow> True | _ \<Rightarrow> False)
    | Panic \<Rightarrow> False)"
  by code_simp

theorem handle_loop_answers_witness:
  "(let original = demo_parts ''GET'' ''/'' in
    \<exists>cx. fst (the (turn_dispatch demo_env demo_router original None
       \<lparr>rc_visited = [dispatch_of original], rc_context = Map.empty ++ Map.empty\<rparr>
       \<lparr>rq_parts = demo_parts ''GET'' ''/next'', rq_body = ()\<rparr>)) = cx \<and>
     cx_original cx = original \<and> cx_parts cx = demo_parts ''GET'' ''/next'')"
proof -
  let ?o = "demo_parts ''GET'' ''/''" and ?rq = "\<lambda>p. \<lparr>rq_parts = demo_parts ''GET'' p, rq_body = ()\<rparr>"
  let ?chain = "\<lparr>rc_visited = [dispatch_of ?o], rc_context = Map.empty ++ Map.empty\<rparr>"
  have hop: "(hop demo_env demo_router ?o None ^^ 1) (chain_carrying Map.empty, ?rq ''/'') (?chain, ?rq ''/next'')"
    unfolding relpowp_1 by (rule demo_hop)
  have "turn_dispatch demo_env demo_router ?o None ?chain (?rq ''/next'') \<noteq> None"
    by (simp add: turn_dispatch_def initial_identity_def fresh_cx_def demo_parts_def hm_get_def Let_def)
  then obtain cx h where d: "turn_dispatch demo_env demo_router ?o None ?chain (?rq ''/next'') = Some (cx, h)" by auto
  from conjunct2 [OF handle_loop_answers, rule_format, OF hop d] d show ?thesis by simp
qed

subsection \<open>What the client receives\<close>

lemma origin_check_parts:
  assumes "cx_parts a = cx_parts b"
  shows "origin_check p a = origin_check p b"
proof -
  have "header_str a = header_str b" "upgrades_to_websocket a = upgrades_to_websocket b" "request_host a = request_host b"
    unfolding fun_eq_iff upgrades_to_websocket_def header_str_def request_host_def assms by (rule refl | rule allI)+
  with assms show ?thesis by (cases p) (simp_all only: origin_check.simps)
qed

lemma handle_with_Done:
  assumes "handle_loop E ro (rq_parts rq)
      (client_ip (ev_ip E) (ro_proxies ro) (p_remote (rq_parts rq)) (p_headers (rq_parts rq))) (chain_carrying v) rq =
    Done (cx, r, hs)"
  obtains headers where
    "handle_with E ro rq v = compress (ev_tower E) (ro_compression ro) (p_headers (cx_parts cx)) ((respond (ev_body E) r)\<lparr>rs_headers := headers\<rparr>)"
    "\<And>n. hm_get_all headers n = hm_get_all (rs_headers (respond (ev_body E) r)) n @ hm_get_all (rh_pending hs) n"
proof -
  from append_all_get_all [of "rs_headers (respond (ev_body E) r)" "rh_pending hs"] obtain headers where
    h: "append_all (rs_headers (respond (ev_body E) r)) (rh_pending hs) = Some headers"
    "\<forall>n. hm_get_all headers n = hm_get_all (rs_headers (respond (ev_body E) r)) n @ hm_get_all (rh_pending hs) n"
    by blast
  with assms have "handle_with E ro rq v =
      compress (ev_tower E) (ro_compression ro) (p_headers (cx_parts cx)) ((respond (ev_body E) r)\<lparr>rs_headers := headers\<rparr>)"
    by (simp add: handle_with_def handle_inner_def rh_apply_def Let_def)
  with h(2) that show thesis by blast
qed

lemma handle_with_no_pending:
  assumes "handle_loop E ro (rq_parts rq)
      (client_ip (ev_ip E) (ro_proxies ro) (p_remote (rq_parts rq)) (p_headers (rq_parts rq))) (chain_carrying v) rq =
    Done (cx, r, rh_new)" "\<And>h r. compress (ev_tower E) (ro_compression ro) h r = r"
  shows "handle_with E ro rq v = respond (ev_body E) r"
  using assms by (simp add: handle_with_def handle_inner_def rh_apply_def rh_new_def append_all_eq hm_names_def Let_def)

text \<open>C23. What the router hands to the compression is the answer of the loop with the headers the
  handlers and layers queued appended to it, in order, and the headers the layers left the request
  with; what comes out of it is what the client receives, and where compression is off it comes
  out as it went in.  A panic anywhere is a \<^verbatim>\<open>500\<close> that drops the queued headers.\<close>

theorem handle_appends_pending:
  assumes client: "client = client_ip (ev_ip E) (ro_proxies ro) (p_remote (rq_parts rq)) (p_headers (rq_parts rq))"
  shows "(case handle_loop E ro (rq_parts rq) client (chain_carrying v) rq of
      Panic \<Rightarrow> handle_with E ro rq v = internal_server_response (ev_body E) \<and>
        rs_status (handle_with E ro rq v) = 500 \<and> rs_headers (handle_with E ro rq v) = []
    | Done (cx, r, hs) \<Rightarrow>
        (\<exists>headers.
           (\<forall>n. hm_get_all headers n =
             hm_get_all (rs_headers (respond (ev_body E) r)) n @ hm_get_all (rh_pending hs) n) \<and>
           handle_with E ro rq v = compress (ev_tower E) (ro_compression ro) (p_headers (cx_parts cx))
             ((respond (ev_body E) r)\<lparr>rs_headers := headers\<rparr>) \<and>
           (\<not> cm_gzip (ro_compression ro) \<and> \<not> cm_brotli (ro_compression ro) \<longrightarrow>
             handle_with E ro rq v = (respond (ev_body E) r)\<lparr>rs_headers := headers\<rparr>)))"
proof (cases "handle_loop E ro (rq_parts rq) client (chain_carrying v) rq")
  case (Done x)
  obtain cx r hs where x: "x = (cx, r, hs)" by (cases x)
  with Done client have "handle_loop E ro (rq_parts rq)
      (client_ip (ev_ip E) (ro_proxies ro) (p_remote (rq_parts rq)) (p_headers (rq_parts rq))) (chain_carrying v) rq =
    Done (cx, r, hs)" by simp
  from handle_with_Done [OF this] obtain headers where
    "handle_with E ro rq v = compress (ev_tower E) (ro_compression ro) (p_headers (cx_parts cx))
       ((respond (ev_body E) r)\<lparr>rs_headers := headers\<rparr>)"
    "\<And>n. hm_get_all headers n = hm_get_all (rs_headers (respond (ev_body E) r)) n @ hm_get_all (rh_pending hs) n"
    by blast
  with Done x show ?thesis by (auto simp: compress_def)
next
  case Panic
  with client show ?thesis
    by (simp add: handle_with_def handle_inner_def internal_server_response_def response_new_def Let_def)
qed

theorem handle_appends_pending_witness:
  "rs_status (handle_with demo_env demo_router \<lparr>rq_parts = demo_parts ''GET'' ''/'', rq_body = ()\<rparr> Map.empty) = 500"
proof -
  let ?rq = "\<lparr>rq_parts = demo_parts ''GET'' ''/'', rq_body = ()\<rparr>"
  have client: "None = client_ip (ev_ip demo_env) (ro_proxies demo_router) (p_remote (rq_parts ?rq)) (p_headers (rq_parts ?rq))"
    by (simp add: client_ip_def demo_env_def demo_router_def demo_parts_def trusted_proxies_new_def is_trusted_def)
  from demo_loop_answers obtain cx m hs where
    "handle_loop demo_env demo_router (rq_parts ?rq) None (chain_carrying Map.empty) ?rq = Done (cx, Err (RewriteLoopError m), hs)"
    using is_loop_error by (fastforce simp: demo_parts_def split: outcome.splits sum.splits)
  with handle_appends_pending [OF client, of Map.empty] obtain headers where
    "handle_with demo_env demo_router ?rq Map.empty =
      (respond (ev_body demo_env) (Err (RewriteLoopError m :: (unit, unit) error)))\<lparr>rs_headers := headers\<rparr>"
    by (auto simp: demo_router_def)
  then show ?thesis by (simp add: respond_def)
qed

text \<open>C8. The answers of the router itself, for a request that no layer without a path touches, on a
  router whose compression leaves responses alone: a
  malformed identity header is a \<^verbatim>\<open>400\<close>, a request the origin policy denies a \<^verbatim>\<open>403\<close>, each
  before any handler runs; a URL that matches no endpoint is a \<^verbatim>\<open>404\<close>, and one that matches an
  endpoint without a route for the method a \<^verbatim>\<open>405\<close> whose \<^verbatim>\<open>Allow\<close> header lists the methods of
  that endpoint.\<close>

theorem handle_router_answers:
  assumes "\<And>h r. compress (ev_tower E) (ro_compression ro) h r = r"
    and "ps = rq_parts rq" "url = uri_path (p_uri ps)"
    and "client = client_ip (ev_ip E) (ro_proxies ro) (p_remote ps) (p_headers ps)"
    and "cx = fresh_cx v ps client ps"
    and "answer = handle_with E ro rq v"
  shows "(is_ok (initial_identity E cx) \<or> rs_status answer = 400) \<and>
    (is_ok (initial_identity E cx) \<longrightarrow>
      (origin_check (ro_origin ro) cx = Deny \<longrightarrow> answer = text_response (ev_body E) 403 ''forbidden'') \<and>
      (origin_check (ro_origin ro) cx = Allow \<longrightarrow> ro_always ro = [] \<longrightarrow>
        (case mi_at (ev_matcher E) (es_matcher (ro_endpoints ro)) url of
           None \<Rightarrow> answer = text_response (ev_body E) 404 ''not found''
         | Some (i, params) \<Rightarrow>
             (let e = es_endpoints (ro_endpoints ro) ! i
              in select_route e (p_method ps) = None \<longrightarrow>
                 rs_status answer = 405 \<and>
                 (let allow = join_with '', '' (endpoint_methods e)
                  in header_value_ok allow \<longrightarrow> hm_get (rs_headers answer) ''allow'' = Some allow)))))"
proof -
  have loop: "handle_loop E ro ps client (chain_carrying v) rq = Done (cx', r, hs)"
    if "handle_turn E ro ps client (chain_carrying v) rq = Done (Answer cx' r hs)" for cx' r hs
    using that by (subst handle_loop.simps) simp
  have ans: "answer = respond (ev_body E) r"
    if "handle_turn E ro ps client (chain_carrying v) rq = Done (Answer cx' r rh_new)" for cx' r
    using handle_with_no_pending [of E ro rq v cx' r] loop [OF that] assms by simp
  have fresh: "fresh_cx (rc_context (chain_carrying v)) ps client (rq_parts rq) = cx"
    using assms by (simp add: chain_carrying_def)
  have origin: "origin_check p ((with_identity cx i)\<lparr>cx_matched := m, cx_params := q\<rparr>) = origin_check p cx"
    "origin_check p (with_identity cx i) = origin_check p cx" for p m q i
    by (rule origin_check_parts, simp add: with_identity_def)+
  have turn: "handle_turn E ro ps client (chain_carrying v) rq =
      (case initial_identity E cx of
         Inl e \<Rightarrow> Done (Answer cx (Err e) rh_new)
       | Inr i \<Rightarrow> (case dispatch_request E ro (with_identity cx i) (rq_body rq) rh_new of
           (cx, Panic) \<Rightarrow> Panic
         | (cx, Done (Inr resp, hs)) \<Rightarrow> Done (Answer cx (Ok resp) hs)
         | (cx, Done (Inl e, hs)) \<Rightarrow>
             (case rewrite_of e of
                None \<Rightarrow> Done (Answer cx (Err e) hs)
              | Some rw \<Rightarrow> bind_outcome (follow (ev_uri_ok E) (chain_carrying v) (cx_parts cx) rw)
                  (\<lambda>(chain, r). case r of
                     Inl e \<Rightarrow> Done (Answer cx (Err e) hs)
                   | Inr rq \<Rightarrow> Done (Again chain rq)))))"
    unfolding handle_turn_def fresh Let_def by (rule refl)
  show ?thesis
  proof (cases "initial_identity E cx")
    case (Inl e)
    then have "e = BadRequestError None (''expected `'' @ IDENTITY_HEADER @ ''` to be an identity'')"
      by (auto simp: initial_identity_def ok_or_def bad_request_def split: option.splits)
    with Inl ans turn have "rs_status answer = 400" by (simp add: respond_def)
    then show ?thesis using Inl by (simp add: is_ok_def)
  next
    case (Inr i)
    let ?cx = "with_identity cx i"
    have p: "cx_parts ?cx = ps" using assms by (simp add: fresh_cx_def with_identity_def)
    have err: "answer = error_into_response (ev_body E) e"
      if "snd (dispatch_request E ro ?cx (rq_body rq) rh_new) = Done (Err e, rh_new)" "rewrite_of e = None" for e
      using that ans turn Inr by (cases "dispatch_request E ro ?cx (rq_body rq) rh_new") (simp add: respond_def)
    have deny: "origin_check (ro_origin ro) cx = Deny \<Longrightarrow> answer = text_response (ev_body E) 403 ''forbidden''"
      by (subst err [of ForbiddenError])
        (simp_all add: dispatch_request_def dispatch_target_def origin_handle_def origin Let_def fail_with_def
          forbidden_def split: option.splits prod.splits)
    note dr = dispatch_request_def origin_handle_def origin Let_def fail_with_def not_found_def method_not_allowed_def
    have none: "answer = text_response (ev_body E) 404 ''not found''"
      if "origin_check (ro_origin ro) cx = Allow" "ro_always ro = []"
        "mi_at (ev_matcher E) (es_matcher (ro_endpoints ro)) url = None"
      by (subst err [of NotFoundError])
        (use that assms(3) p in \<open>simp_all add: dr dispatch_target_None\<close>)
    have some: "answer = method_not_allowed_response (ev_body E) (join_with '', '' (endpoint_methods e))"
      if "origin_check (ro_origin ro) cx = Allow" "ro_always ro = []"
        "mi_at (ev_matcher E) (es_matcher (ro_endpoints ro)) url = Some (j, params)"
        "e = es_endpoints (ro_endpoints ro) ! j" "select_route e (p_method ps) = None" for j params e
      by (subst err [of "MethodNotAllowedError (join_with '', '' (endpoint_methods e))"])
        (use that assms(3) p in \<open>simp_all add: dr dispatch_target_Some [of _ _ _ j params e None]\<close>)
    from Inr deny none some show ?thesis
      by (auto simp: is_ok_def method_not_allowed_response_def Let_def split: option.splits)
  qed
qed

theorem handle_router_answers_witness:
  "handle_with demo_env (demo_router\<lparr>ro_always := []\<rparr>) \<lparr>rq_parts = demo_parts ''GET'' ''/'', rq_body = ()\<rparr> Map.empty =
     text_response (ev_body demo_env) 404 ''not found''"
proof -
  let ?rq = "\<lparr>rq_parts = demo_parts ''GET'' ''/'', rq_body = ()\<rparr>" and ?ro = "demo_router\<lparr>ro_always := []\<rparr>"
  have client: "None = client_ip (ev_ip demo_env) (ro_proxies ?ro) (p_remote (rq_parts ?rq)) (p_headers (rq_parts ?rq))"
    by (simp add: client_ip_def demo_env_def demo_router_def demo_parts_def trusted_proxies_new_def is_trusted_def)
  let ?cx = "fresh_cx Map.empty (rq_parts ?rq) None (rq_parts ?rq)"
  have off: "compress (ev_tower demo_env) (ro_compression ?ro) h r = r" for h r by (simp add: demo_router_def)
  have ok: "is_ok (initial_identity demo_env ?cx)"
    by (simp add: initial_identity_def fresh_cx_def demo_parts_def hm_get_def is_ok_def)
  have allow: "origin_check (ro_origin ?ro) ?cx = Allow"
    by (simp add: demo_router_def origin_policy_new_def fresh_cx_def demo_parts_def upgrades_to_websocket_def
        header_str_def hm_get_def is_some_and_def)
  have none: "mi_at (ev_matcher demo_env) (es_matcher (ro_endpoints ?ro)) (uri_path (p_uri (rq_parts ?rq))) = None"
    by (simp add: demo_env_def list_matcher_def demo_router_def endpoints_default_def)
  have "ro_always ?ro = []" by simp
  with handle_router_answers [OF off refl refl client refl refl, of Map.empty] ok allow none
  show ?thesis by (simp only: option.case simp_thms) blast
qed

end
