(* ===== verification/Cookie_Jars.thy ===== *)
theory Cookie_Jars
  imports Origin
begin

text \<open>
  Cookies: \<^verbatim>\<open>crates/topcoat-cookie/src\<close>.  The jar of the \<^verbatim>\<open>cookie\<close> crate is third-party code: its
  operations are the record \<open>('j, 'k) raw_jar\<close>, with \<open>'k\<close> the keys, and \<open>raw_jar_ok\<close> states the
  documented behaviour the code relies on.  The trait \<^verbatim>\<open>Cookies\<close> is the record \<open>'s jar_ops\<close> of
  its three methods over the state \<open>'s\<close> of the request; an adapter maps one such record to
  another.  The locale \<open>cookies\<close> is the trait's contract, and every adapter keeps it.
\<close>

subsection \<open>Cookies\<close>

datatype same_site = SameSiteStrict | SameSiteLax | SameSiteNone

record cookie =
  ck_name :: str
  ck_value :: str
  ck_secure :: "bool option"
  ck_http_only :: "bool option"
  ck_same_site :: "same_site option"
  ck_path :: "str option"
  ck_domain :: "str option"
  ck_max_age :: "int option"

definition cookie_new :: "str \<Rightarrow> str \<Rightarrow> cookie" where
  "cookie_new name v =
     \<lparr>ck_name = name, ck_value = v, ck_secure = None, ck_http_only = None, ck_same_site = None,
      ck_path = None, ck_domain = None, ck_max_age = None\<rparr>"

record ('j, 'k) raw_jar =
  rj_new :: 'j
  rj_add_original :: "'j \<Rightarrow> cookie \<Rightarrow> 'j"
  rj_get :: "'j \<Rightarrow> str \<Rightarrow> cookie option"
  rj_add :: "'j \<Rightarrow> cookie \<Rightarrow> 'j"
  rj_remove :: "'j \<Rightarrow> cookie \<Rightarrow> 'j"
  rj_delta :: "'j \<Rightarrow> cookie list"
  rj_signed_add :: "'k \<Rightarrow> 'j \<Rightarrow> cookie \<Rightarrow> 'j"
  rj_signed_get :: "'k \<Rightarrow> 'j \<Rightarrow> str \<Rightarrow> cookie option"
  rj_private_add :: "'k \<Rightarrow> 'j \<Rightarrow> cookie \<Rightarrow> 'j"
  rj_private_get :: "'k \<Rightarrow> 'j \<Rightarrow> str \<Rightarrow> cookie option"

subsection \<open>The jars of a request\<close>

record 's jar_ops =
  jo_get :: "'s \<Rightarrow> str \<Rightarrow> cookie option"
  jo_add :: "'s \<Rightarrow> cookie \<Rightarrow> 's outcome"
  jo_remove :: "'s \<Rightarrow> cookie \<Rightarrow> 's outcome"

record 'j cookie_jar =
  cj_jar :: 'j
  cj_sealed :: bool

text \<open>\<open>parse\<close> is \<^verbatim>\<open>Cookie::split_parse_encoded\<close>: the cookies of one header value that parse.\<close>

definition jar_from_request :: "('j, 'k) raw_jar \<Rightarrow> (str \<Rightarrow> cookie list) \<Rightarrow> header_map \<Rightarrow> 'j cookie_jar" where
  "jar_from_request R parse headers =
     \<lparr>cj_jar =
        foldl (\<lambda>jar v. case header_to_str v of
                 None \<Rightarrow> jar
               | Some raw \<Rightarrow> foldl (rj_add_original R) jar (parse raw))
          (rj_new R) (hm_get_all headers ''cookie''),
      cj_sealed = False\<rparr>"

definition root_jar :: "('j, 'k) raw_jar \<Rightarrow> 'j cookie_jar jar_ops" where
  "root_jar R =
     \<lparr>jo_get = (\<lambda>s name. rj_get R (cj_jar s) name),
      jo_add = (\<lambda>s c. if cj_sealed s then Panic else Done (s\<lparr>cj_jar := rj_add R (cj_jar s) c\<rparr>)),
      jo_remove = (\<lambda>s c. if cj_sealed s then Panic else Done (s\<lparr>cj_jar := rj_remove R (cj_jar s) c\<rparr>))\<rparr>"

text \<open>\<open>encode\<close> is \<^verbatim>\<open>encoded().to_string()\<close>; a value no header can carry is dropped.\<close>

definition delta_headers :: "('j, 'k) raw_jar \<Rightarrow> (cookie \<Rightarrow> str) \<Rightarrow> 'j cookie_jar \<Rightarrow> str list" where
  "delta_headers R encode s = filter header_value_ok (map encode (rj_delta R (cj_jar s)))"

definition seal_jar :: "'j cookie_jar \<Rightarrow> 'j cookie_jar" where
  "seal_jar s = s\<lparr>cj_sealed := True\<rparr>"

subsection \<open>Adapters\<close>

definition map_jar :: "'s jar_ops \<Rightarrow> (cookie \<Rightarrow> cookie) \<Rightarrow> 's jar_ops" where
  "map_jar J f =
     \<lparr>jo_get = jo_get J, jo_add = (\<lambda>s c. jo_add J s (f c)), jo_remove = (\<lambda>s c. jo_remove J s (f c))\<rparr>"

datatype name_prefix = HostPrefix | SecurePrefix

fun prefix_str :: "name_prefix \<Rightarrow> str" where
  "prefix_str HostPrefix = ''__Host-''"
| "prefix_str SecurePrefix = ''__Secure-''"

definition apply_name :: "name_prefix \<Rightarrow> cookie \<Rightarrow> cookie" where
  "apply_name p c =
     (if \<not> starts_with_str (ck_name c) (prefix_str p) then c\<lparr>ck_name := prefix_str p @ ck_name c\<rparr> else c)"

definition strip_name :: "name_prefix \<Rightarrow> cookie \<Rightarrow> cookie" where
  "strip_name p c =
     (case strip_prefix (prefix_str p) (ck_name c) of
        Some stripped \<Rightarrow> c\<lparr>ck_name := stripped\<rparr>
      | None \<Rightarrow> c)"

datatype conform_mode = ConformDefault | ConformOverride

definition conform :: "name_prefix \<Rightarrow> conform_mode \<Rightarrow> cookie \<Rightarrow> cookie" where
  "conform p mode c =
     (let force = mode = ConformOverride;
          c = (if force \<or> ck_secure c = None then c\<lparr>ck_secure := Some True\<rparr> else c)
      in if p = HostPrefix then
           (let c = (if force \<or> ck_path c = None then c\<lparr>ck_path := Some ''/''\<rparr> else c)
            in if force then c\<lparr>ck_domain := None\<rparr> else c)
         else c)"

definition prepare :: "name_prefix \<Rightarrow> conform_mode \<Rightarrow> cookie \<Rightarrow> cookie" where
  "prepare p mode c = conform p mode (apply_name p c)"

definition prefixed_jar :: "'s jar_ops \<Rightarrow> name_prefix \<Rightarrow> conform_mode \<Rightarrow> 's jar_ops" where
  "prefixed_jar J p mode =
     \<lparr>jo_get = (\<lambda>s name. map_option (strip_name p) (jo_get J s (prefix_str p @ name))),
      jo_add = (\<lambda>s c. jo_add J s (prepare p mode c)),
      jo_remove = (\<lambda>s c. jo_remove J s (prepare p ConformOverride c))\<rparr>"

definition signed_jar :: "('j, 'k) raw_jar \<Rightarrow> 's jar_ops \<Rightarrow> 'k \<Rightarrow> 's jar_ops" where
  "signed_jar R J k =
     \<lparr>jo_get = (\<lambda>s name. case jo_get J s name of
          None \<Rightarrow> None
        | Some raw \<Rightarrow> rj_signed_get R k (rj_add_original R (rj_new R) raw) (ck_name raw)),
      jo_add = (\<lambda>s c. case rj_get R (rj_signed_add R k (rj_new R) c) (ck_name c) of
          Some d \<Rightarrow> jo_add J s d
        | None \<Rightarrow> Done s),
      jo_remove = jo_remove J\<rparr>"

definition private_jar :: "('j, 'k) raw_jar \<Rightarrow> 's jar_ops \<Rightarrow> 'k \<Rightarrow> 's jar_ops" where
  "private_jar R J k =
     \<lparr>jo_get = (\<lambda>s name. case jo_get J s name of
          None \<Rightarrow> None
        | Some raw \<Rightarrow> rj_private_get R k (rj_add_original R (rj_new R) raw) (ck_name raw)),
      jo_add = (\<lambda>s c. case rj_get R (rj_private_add R k (rj_new R) c) (ck_name c) of
          Some d \<Rightarrow> jo_add J s d
        | None \<Rightarrow> Done s),
      jo_remove = jo_remove J\<rparr>"

subsection \<open>The combinators of the trait\<close>

definition override_prefix_host :: "'s jar_ops \<Rightarrow> 's jar_ops" where
  "override_prefix_host J = prefixed_jar J HostPrefix ConformOverride"

definition default_prefix_host :: "'s jar_ops \<Rightarrow> 's jar_ops" where
  "default_prefix_host J = prefixed_jar J HostPrefix ConformDefault"

definition override_prefix_secure :: "'s jar_ops \<Rightarrow> 's jar_ops" where
  "override_prefix_secure J = prefixed_jar J SecurePrefix ConformOverride"

definition default_prefix_secure :: "'s jar_ops \<Rightarrow> 's jar_ops" where
  "default_prefix_secure J = prefixed_jar J SecurePrefix ConformDefault"

definition override_secure :: "'s jar_ops \<Rightarrow> bool \<Rightarrow> 's jar_ops" where
  "override_secure J v = map_jar J (\<lambda>c. c\<lparr>ck_secure := Some v\<rparr>)"

definition default_secure :: "'s jar_ops \<Rightarrow> bool \<Rightarrow> 's jar_ops" where
  "default_secure J v = map_jar J (\<lambda>c. if ck_secure c = None then c\<lparr>ck_secure := Some v\<rparr> else c)"

definition override_http_only :: "'s jar_ops \<Rightarrow> bool \<Rightarrow> 's jar_ops" where
  "override_http_only J v = map_jar J (\<lambda>c. c\<lparr>ck_http_only := Some v\<rparr>)"

definition default_http_only :: "'s jar_ops \<Rightarrow> bool \<Rightarrow> 's jar_ops" where
  "default_http_only J v = map_jar J (\<lambda>c. if ck_http_only c = None then c\<lparr>ck_http_only := Some v\<rparr> else c)"

definition override_same_site :: "'s jar_ops \<Rightarrow> same_site \<Rightarrow> 's jar_ops" where
  "override_same_site J v = map_jar J (\<lambda>c. c\<lparr>ck_same_site := Some v\<rparr>)"

definition default_same_site :: "'s jar_ops \<Rightarrow> same_site \<Rightarrow> 's jar_ops" where
  "default_same_site J v = map_jar J (\<lambda>c. if ck_same_site c = None then c\<lparr>ck_same_site := Some v\<rparr> else c)"

definition override_path :: "'s jar_ops \<Rightarrow> str \<Rightarrow> 's jar_ops" where
  "override_path J v = map_jar J (\<lambda>c. c\<lparr>ck_path := Some v\<rparr>)"

definition default_path :: "'s jar_ops \<Rightarrow> str \<Rightarrow> 's jar_ops" where
  "default_path J v = map_jar J (\<lambda>c. if ck_path c = None then c\<lparr>ck_path := Some v\<rparr> else c)"

definition override_domain :: "'s jar_ops \<Rightarrow> str \<Rightarrow> 's jar_ops" where
  "override_domain J v = map_jar J (\<lambda>c. c\<lparr>ck_domain := Some v\<rparr>)"

definition default_domain :: "'s jar_ops \<Rightarrow> str \<Rightarrow> 's jar_ops" where
  "default_domain J v = map_jar J (\<lambda>c. if ck_domain c = None then c\<lparr>ck_domain := Some v\<rparr> else c)"

definition override_max_age :: "'s jar_ops \<Rightarrow> int \<Rightarrow> 's jar_ops" where
  "override_max_age J v = map_jar J (\<lambda>c. c\<lparr>ck_max_age := Some v\<rparr>)"

definition default_max_age :: "'s jar_ops \<Rightarrow> int \<Rightarrow> 's jar_ops" where
  "default_max_age J v = map_jar J (\<lambda>c. if ck_max_age c = None then c\<lparr>ck_max_age := Some v\<rparr> else c)"

subsection \<open>What the raw jar promises\<close>

definition removal :: "cookie \<Rightarrow> cookie" where
  "removal c = c\<lparr>ck_value := [], ck_max_age := Some 0\<rparr>"

text \<open>Reading back what a keyed view wrote, whatever attributes the cookie has by then.\<close>

definition opens :: "('j, 'k) raw_jar \<Rightarrow> ('k \<Rightarrow> 'j \<Rightarrow> cookie \<Rightarrow> 'j) \<Rightarrow> ('k \<Rightarrow> 'j \<Rightarrow> str \<Rightarrow> cookie option) \<Rightarrow> bool" where
  "opens R seal_add seal_get \<longleftrightarrow>
     (\<forall>k c. \<exists>w. rj_get R (seal_add k (rj_new R) c) (ck_name c) = Some (c\<lparr>ck_value := w\<rparr>) \<and>
       (\<forall>d. ck_name d = ck_name c \<longrightarrow>
         seal_get k (rj_add_original R (rj_new R) (d\<lparr>ck_value := w\<rparr>)) (ck_name d) = Some (d\<lparr>ck_value := ck_value c\<rparr>)))"

definition raw_jar_ok :: "('j, 'k) raw_jar \<Rightarrow> ('j \<Rightarrow> str set) \<Rightarrow> bool" where
  "raw_jar_ok R originals \<longleftrightarrow>
     originals (rj_new R) = {} \<and> rj_delta R (rj_new R) = [] \<and> (\<forall>n. rj_get R (rj_new R) n = None) \<and>
     (\<forall>j c. originals (rj_add_original R j c) = insert (ck_name c) (originals j) \<and>
        rj_delta R (rj_add_original R j c) = rj_delta R j \<and>
        (rj_delta R j = [] \<longrightarrow>
          (\<forall>n. rj_get R (rj_add_original R j c) n = (if n = ck_name c then Some c else rj_get R j n)))) \<and>
     (\<forall>j c. originals (rj_add R j c) = originals j \<and>
        (\<forall>n. rj_get R (rj_add R j c) n = (if n = ck_name c then Some c else rj_get R j n)) \<and>
        set (rj_delta R (rj_add R j c)) = insert c {d \<in> set (rj_delta R j). ck_name d \<noteq> ck_name c}) \<and>
     (\<forall>j c. originals (rj_remove R j c) = originals j \<and>
        (\<forall>n. rj_get R (rj_remove R j c) n = (if n = ck_name c then None else rj_get R j n)) \<and>
        set (rj_delta R (rj_remove R j c)) =
          (if ck_name c \<in> originals j then {removal c} else {}) \<union> {d \<in> set (rj_delta R j). ck_name d \<noteq> ck_name c}) \<and>
     opens R (rj_signed_add R) (rj_signed_get R) \<and> opens R (rj_private_add R) (rj_private_get R)"

lemma raw_jar_add:
  assumes "raw_jar_ok R originals"
  shows "rj_get R (rj_add R j c) n = (if n = ck_name c then Some c else rj_get R j n)"
    and "set (rj_delta R (rj_add R j c)) = insert c {d \<in> set (rj_delta R j). ck_name d \<noteq> ck_name c}"
    and "rj_get R (rj_remove R j c) n = (if n = ck_name c then None else rj_get R j n)"
    and "set (rj_delta R (rj_remove R j c)) =
          (if ck_name c \<in> originals j then {removal c} else {}) \<union> {d \<in> set (rj_delta R j). ck_name d \<noteq> ck_name c}"
    and "opens R (rj_signed_add R) (rj_signed_get R)" "opens R (rj_private_add R) (rj_private_get R)"
  using assms unfolding raw_jar_ok_def by blast+

subsection \<open>The contract of the trait\<close>

text \<open>Changes made one after the other, and what the last one of a name leaves to read.\<close>

datatype jar_change = AddCookie (changed: cookie) | RemoveCookie (changed: cookie)

fun change_all :: "'s jar_ops \<Rightarrow> 's \<Rightarrow> jar_change list \<Rightarrow> 's outcome" where
  "change_all J s [] = Done s"
| "change_all J s (AddCookie c # cs) = bind_outcome (jo_add J s c) (\<lambda>s. change_all J s cs)"
| "change_all J s (RemoveCookie c # cs) = bind_outcome (jo_remove J s c) (\<lambda>s. change_all J s cs)"

fun after_change :: "(cookie \<Rightarrow> cookie) \<Rightarrow> jar_change option \<Rightarrow> cookie option \<Rightarrow> cookie option" where
  "after_change shown None before = before"
| "after_change shown (Some (AddCookie c)) before = Some (shown c)"
| "after_change shown (Some (RemoveCookie c)) before = None"

text \<open>\<open>ok\<close> are the names the jar is used with, \<open>shown\<close> how a written cookie reads back.\<close>

locale cookies =
  fixes J :: "'s jar_ops" and ok :: "str \<Rightarrow> bool" and shown :: "cookie \<Rightarrow> cookie" and is_open :: "'s \<Rightarrow> bool"
  assumes add: "is_open s \<Longrightarrow> ok (ck_name c) \<Longrightarrow>
      \<exists>s'. jo_add J s c = Done s' \<and> is_open s' \<and>
        (\<forall>n. ok n \<longrightarrow> jo_get J s' n = (if n = ck_name c then Some (shown c) else jo_get J s n))"
    and remove: "is_open s \<Longrightarrow> ok (ck_name c) \<Longrightarrow>
      \<exists>s'. jo_remove J s c = Done s' \<and> is_open s' \<and>
        (\<forall>n. ok n \<longrightarrow> jo_get J s' n = (if n = ck_name c then None else jo_get J s n))"
    and closed: "\<not> is_open s \<Longrightarrow> jo_add J s c = Panic \<and> jo_remove J s c = Panic"
    and shown_name: "ok (ck_name c) \<Longrightarrow> ck_name (shown c) = ck_name c"
    and shown_value: "ck_value (shown c) = ck_value c"
    and shown_commute: "shown (c\<lparr>ck_value := v\<rparr>) = (shown c)\<lparr>ck_value := v\<rparr>"
begin

lemma change_all_reads:
  "is_open s \<Longrightarrow> list_all (\<lambda>x. ok (ck_name (changed x))) cs \<Longrightarrow>
   \<exists>s'. change_all J s cs = Done s' \<and> is_open s' \<and>
     (\<forall>n. ok n \<longrightarrow> jo_get J s' n =
        after_change shown (find (\<lambda>x. ck_name (changed x) = n) (rev cs)) (jo_get J s n))"
proof (induction cs arbitrary: s)
  case (Cons x cs)
  have "\<exists>s1. change_all J s (x # cs) = change_all J s1 cs \<and> is_open s1 \<and>
    (\<forall>n. ok n \<longrightarrow> jo_get J s1 n =
      (if n = ck_name (changed x) then after_change shown (Some x) (jo_get J s n) else jo_get J s n))"
  proof (cases x)
    case (AddCookie c)
    then show ?thesis using add [of s c] Cons.prems by fastforce
  next
    case (RemoveCookie c)
    then show ?thesis using remove [of s c] Cons.prems by fastforce
  qed
  then obtain s1 where s1: "change_all J s (x # cs) = change_all J s1 cs" "is_open s1"
    "\<And>n. ok n \<Longrightarrow> jo_get J s1 n =
      (if n = ck_name (changed x) then after_change shown (Some x) (jo_get J s n) else jo_get J s n)" by blast
  with Cons.IH [of s1] Cons.prems obtain s2 where s2: "change_all J s1 cs = Done s2" "is_open s2"
    "\<And>n. ok n \<Longrightarrow> jo_get J s2 n = after_change shown (find (\<lambda>x. ck_name (changed x) = n) (rev cs)) (jo_get J s1 n)" by auto
  have f: "find P (xs @ [y]) = (case find P xs of Some z \<Rightarrow> Some z | None \<Rightarrow> if P y then Some y else None)"
    for P :: "jar_change \<Rightarrow> bool" and xs y by (induction xs) auto
  have same: "after_change shown (Some y) a = after_change shown (Some y) b" for y a b by (cases y) simp_all
  have "jo_get J s2 n = after_change shown (find (\<lambda>x. ck_name (changed x) = n) (rev (x # cs))) (jo_get J s n)" if "ok n" for n
    using s1(3) [OF that] s2(3) [OF that] same by (auto simp: f split: option.split)
  with s1(1) s2(1,2) show ?case by (intro exI [of _ s2]) simp
qed simp

end

text \<open>A change of attributes: name and value stay, and the value plays no part in it.\<close>

definition attribute_map :: "(cookie \<Rightarrow> cookie) \<Rightarrow> bool" where
  "attribute_map f \<longleftrightarrow> (\<forall>c. ck_name (f c) = ck_name c \<and> ck_value (f c) = ck_value c \<and>
     (\<forall>v. f (c\<lparr>ck_value := v\<rparr>) = (f c)\<lparr>ck_value := v\<rparr>))"

lemma attribute_map_overrides:
  "attribute_map (\<lambda>c. c\<lparr>ck_secure := s\<rparr>)" "attribute_map (\<lambda>c. c\<lparr>ck_http_only := s\<rparr>)"
  "attribute_map (\<lambda>c. c\<lparr>ck_same_site := t\<rparr>)" "attribute_map (\<lambda>c. c\<lparr>ck_path := p\<rparr>)"
  "attribute_map (\<lambda>c. c\<lparr>ck_domain := p\<rparr>)" "attribute_map (\<lambda>c. c\<lparr>ck_max_age := m\<rparr>)"
  by (simp_all add: attribute_map_def)

lemma attribute_map_defaults:
  "attribute_map (\<lambda>c. if ck_secure c = None then c\<lparr>ck_secure := s\<rparr> else c)"
  "attribute_map (\<lambda>c. if ck_http_only c = None then c\<lparr>ck_http_only := s\<rparr> else c)"
  "attribute_map (\<lambda>c. if ck_same_site c = None then c\<lparr>ck_same_site := t\<rparr> else c)"
  "attribute_map (\<lambda>c. if ck_path c = None then c\<lparr>ck_path := p\<rparr> else c)"
  "attribute_map (\<lambda>c. if ck_domain c = None then c\<lparr>ck_domain := p\<rparr> else c)"
  "attribute_map (\<lambda>c. if ck_max_age c = None then c\<lparr>ck_max_age := m\<rparr> else c)"
  by (simp_all add: attribute_map_def)

lemma conform_simps [simp]:
  "ck_name (conform p m c) = ck_name c" "ck_value (conform p m c) = ck_value c"
  "conform p m (c\<lparr>ck_value := v\<rparr>) = (conform p m c)\<lparr>ck_value := v\<rparr>"
  by (simp_all add: conform_def Let_def)

lemma name_simps [simp]:
  "ck_value (apply_name p c) = ck_value c" "ck_value (strip_name p c) = ck_value c"
  "apply_name p (c\<lparr>ck_value := v\<rparr>) = (apply_name p c)\<lparr>ck_value := v\<rparr>"
  "strip_name p (c\<lparr>ck_value := v\<rparr>) = (strip_name p c)\<lparr>ck_value := v\<rparr>"
  "\<not> starts_with_str (ck_name c) (prefix_str p) \<Longrightarrow> ck_name (apply_name p c) = prefix_str p @ ck_name c"
  by (simp_all add: apply_name_def strip_name_def split: option.splits)

lemma prepare_simps [simp]:
  "ck_value (prepare p m c) = ck_value c" "prepare p m (c\<lparr>ck_value := v\<rparr>) = (prepare p m c)\<lparr>ck_value := v\<rparr>"
  "\<not> starts_with_str (ck_name c) (prefix_str p) \<Longrightarrow> ck_name (prepare p m c) = prefix_str p @ ck_name c"
  by (simp_all add: prepare_def)

lemma cookies_root:
  assumes "raw_jar_ok R originals"
  shows "cookies (root_jar R) (\<lambda>_. True) (\<lambda>c. c) (\<lambda>s. \<not> cj_sealed s)"
  by unfold_locales (auto simp: root_jar_def raw_jar_add [OF assms])

lemma cookies_map:
  assumes "cookies J ok shown is_open" "attribute_map f"
  shows "cookies (map_jar J f) ok (\<lambda>c. shown (f c)) is_open"
proof -
  have c: "ck_name (f c) = ck_name c" "ck_value (f c) = ck_value c"
    "f (c\<lparr>ck_value := v\<rparr>) = (f c)\<lparr>ck_value := v\<rparr>" for c v
    using assms(2) by (simp_all add: attribute_map_def)
  show ?thesis
  proof (unfold_locales, goal_cases)
    case (1 s c) then show ?case using cookies.add [OF assms(1), of s "f c"] c by (auto simp: map_jar_def)
  next
    case (2 s c) then show ?case using cookies.remove [OF assms(1), of s "f c"] c by (auto simp: map_jar_def)
  next
    case (3 s c) then show ?case using cookies.closed [OF assms(1)] by (simp add: map_jar_def)
  qed (use c cookies.shown_name [OF assms(1)] cookies.shown_value [OF assms(1)]
      cookies.shown_commute [OF assms(1)] in simp_all)
qed

definition unprefixed :: "name_prefix \<Rightarrow> (str \<Rightarrow> bool) \<Rightarrow> str \<Rightarrow> bool" where
  "unprefixed p ok n \<longleftrightarrow> ok (prefix_str p @ n) \<and> \<not> starts_with_str n (prefix_str p)"

lemma cookies_prefixed:
  assumes J: "cookies J ok shown is_open"
  shows "cookies (prefixed_jar J p m) (unprefixed p ok) (\<lambda>c. strip_name p (shown (prepare p m c))) is_open"
proof (unfold_locales, goal_cases)
  case (1 s c)
  then have n: "ck_name (prepare p m c) = prefix_str p @ ck_name c" "ok (ck_name (prepare p m c))"
    by (simp_all add: unprefixed_def)
  from cookies.add [OF J 1(1) n(2)] show ?case
    by (auto simp: prefixed_jar_def n(1) unprefixed_def)
next
  case (2 s c)
  then have n: "ck_name (prepare p ConformOverride c) = prefix_str p @ ck_name c" "ok (ck_name (prepare p ConformOverride c))"
    by (simp_all add: unprefixed_def)
  from cookies.remove [OF J 2(1) n(2)] show ?case
    by (auto simp: prefixed_jar_def n(1) unprefixed_def)
next
  case (3 s c) then show ?case using cookies.closed [OF J] by (simp add: prefixed_jar_def)
next
  case (4 c)
  then have n: "ck_name (prepare p m c) = prefix_str p @ ck_name c" "ok (ck_name (prepare p m c))"
    by (simp_all add: unprefixed_def)
  then show ?case
    using cookies.shown_name [OF J n(2)] by (simp add: strip_name_def)
qed (use cookies.shown_value [OF J] cookies.shown_commute [OF J] in simp_all)

definition sealing_jar :: "('j, 'k) raw_jar \<Rightarrow> ('k \<Rightarrow> 'j \<Rightarrow> cookie \<Rightarrow> 'j) \<Rightarrow> ('k \<Rightarrow> 'j \<Rightarrow> str \<Rightarrow> cookie option)
    \<Rightarrow> 's jar_ops \<Rightarrow> 'k \<Rightarrow> 's jar_ops" where
  "sealing_jar R seal_add seal_get J k =
     \<lparr>jo_get = (\<lambda>s name. case jo_get J s name of
          None \<Rightarrow> None
        | Some raw \<Rightarrow> seal_get k (rj_add_original R (rj_new R) raw) (ck_name raw)),
      jo_add = (\<lambda>s c. case rj_get R (seal_add k (rj_new R) c) (ck_name c) of
          Some d \<Rightarrow> jo_add J s d
        | None \<Rightarrow> Done s),
      jo_remove = jo_remove J\<rparr>"

lemma keyed_jars:
  "signed_jar R J k = sealing_jar R (rj_signed_add R) (rj_signed_get R) J k"
  "private_jar R J k = sealing_jar R (rj_private_add R) (rj_private_get R) J k"
  by (simp_all add: signed_jar_def private_jar_def sealing_jar_def)

lemma cookies_sealing:
  assumes J: "cookies J ok shown is_open" and o: "opens R seal_add seal_get"
  shows "cookies (sealing_jar R seal_add seal_get J k) ok shown is_open"
proof (unfold_locales, goal_cases)
  case (1 s c)
  from o obtain w where w: "rj_get R (seal_add k (rj_new R) c) (ck_name c) = Some (c\<lparr>ck_value := w\<rparr>)"
    "\<forall>d. ck_name d = ck_name c \<longrightarrow>
       seal_get k (rj_add_original R (rj_new R) (d\<lparr>ck_value := w\<rparr>)) (ck_name d) = Some (d\<lparr>ck_value := ck_value c\<rparr>)"
    unfolding opens_def by blast
  have "ok (ck_name (c\<lparr>ck_value := w\<rparr>))" using 1(2) by simp
  from cookies.add [OF J 1(1) this] obtain s' where s': "jo_add J s (c\<lparr>ck_value := w\<rparr>) = Done s'" "is_open s'"
    "\<forall>n. ok n \<longrightarrow> jo_get J s' n = (if n = ck_name c then Some (shown (c\<lparr>ck_value := w\<rparr>)) else jo_get J s n)"
    by auto
  have "shown (c\<lparr>ck_value := w\<rparr>) = (shown c)\<lparr>ck_value := w\<rparr>" by (rule cookies.shown_commute [OF J])
  moreover have "(shown c)\<lparr>ck_value := ck_value c\<rparr> = shown c"
    using cookies.shown_value [OF J, of c] by (cases "shown c") simp
  moreover have "ck_name (shown c) = ck_name c" by (rule cookies.shown_name [OF J 1(2)])
  ultimately show ?case
    using s' w by (intro exI [of _ s']) (auto simp: sealing_jar_def)
next
  case (2 s c)
  from cookies.remove [OF J 2] obtain s' where "jo_remove J s c = Done s'" "is_open s'"
    "\<forall>n. ok n \<longrightarrow> jo_get J s' n = (if n = ck_name c then None else jo_get J s n)" by blast
  then show ?case by (intro exI [of _ s']) (auto simp: sealing_jar_def)
next
  case (3 s c)
  from o obtain w where "rj_get R (seal_add k (rj_new R) c) (ck_name c) = Some (c\<lparr>ck_value := w\<rparr>)"
    unfolding opens_def by blast
  with cookies.closed [OF J 3] show ?case by (simp add: sealing_jar_def)
qed (use cookies.shown_name [OF J] cookies.shown_value [OF J] cookies.shown_commute [OF J] in simp_all)

subsection \<open>Stacks of adapters\<close>

text \<open>The jars an application can build from a root jar by the combinators of the trait, with the
  names it may use and the cookie that reads back for one written.\<close>

inductive adapted :: "('j, 'k) raw_jar \<Rightarrow> 's jar_ops \<Rightarrow> 's jar_ops \<Rightarrow> (str \<Rightarrow> bool) \<Rightarrow> (cookie \<Rightarrow> cookie) \<Rightarrow> bool"
  for R :: "('j, 'k) raw_jar" and root :: "'s jar_ops" where
  adapted_root: "adapted R root root (\<lambda>_. True) (\<lambda>c. c)"
| adapted_map: "adapted R root J ok shown \<Longrightarrow> attribute_map f \<Longrightarrow> adapted R root (map_jar J f) ok (\<lambda>c. shown (f c))"
| adapted_prefixed: "adapted R root J ok shown \<Longrightarrow>
    adapted R root (prefixed_jar J p m) (unprefixed p ok) (\<lambda>c. strip_name p (shown (prepare p m c)))"
| adapted_signed: "adapted R root J ok shown \<Longrightarrow> adapted R root (signed_jar R J k) ok shown"
| adapted_private: "adapted R root J ok shown \<Longrightarrow> adapted R root (private_jar R J k) ok shown"

lemma adapted_contract:
  assumes R: "raw_jar_ok R originals" and root: "cookies root (\<lambda>_. True) (\<lambda>c. c) is_open"
  shows "adapted R root J ok shown \<Longrightarrow> cookies J ok shown is_open"
proof (induction rule: adapted.induct)
  case (adapted_signed J ok shown k)
  then show ?case unfolding keyed_jars by (intro cookies_sealing raw_jar_add(5) [OF R])
next
  case (adapted_private J ok shown k)
  then show ?case unfolding keyed_jars by (intro cookies_sealing raw_jar_add(6) [OF R])
qed (auto intro: root cookies_map cookies_prefixed)

text \<open>C36. Whatever adapters an application stacks on the request's jar, it reads its own changes.  After any
  additions and removals of cookies whose names do not carry the prefixes of the stack already, a name reads
  back the cookie of its last change with the value unchanged if that added it, nothing if that removed
  it, and what it read before if there was none.\<close>

theorem adapters_read_back:
  assumes "raw_jar_ok R originals" "adapted R (root_jar R) J ok shown"
    and "\<not> cj_sealed s" "list_all (\<lambda>x. ok (ck_name (changed x))) cs"
  shows "\<exists>s'. change_all J s cs = Done s' \<and> \<not> cj_sealed s' \<and>
    (\<forall>n. ok n \<longrightarrow> jo_get J s' n =
      after_change shown (find (\<lambda>x. ck_name (changed x) = n) (rev cs)) (jo_get J s n)) \<and>
    (\<forall>c. ck_value (shown c) = ck_value c \<and> (ok (ck_name c) \<longrightarrow> ck_name (shown c) = ck_name c))"
proof -
  have J: "cookies J ok shown (\<lambda>s. \<not> cj_sealed s)"
    by (rule adapted_contract [OF assms(1) cookies_root [OF assms(1)] assms(2)])
  show ?thesis
    using cookies.change_all_reads [OF J assms(3,4)] cookies.shown_value [OF J] cookies.shown_name [OF J] by blast
qed

subsection \<open>A concrete jar\<close>

text \<open>Originals and changes as lists, a change with whether it removes; keyed views append a key
  mark to the value.\<close>

type_synonym list_jar = "cookie list \<times> (cookie \<times> bool) list"

definition lj_get :: "list_jar \<Rightarrow> str \<Rightarrow> cookie option" where
  "lj_get j n =
     (case find (\<lambda>e. ck_name (fst e) = n) (snd j) of
        Some (c, removed) \<Rightarrow> if removed then None else Some c
      | None \<Rightarrow> find (\<lambda>c. ck_name c = n) (fst j))"

definition lj_change :: "list_jar \<Rightarrow> cookie \<Rightarrow> (cookie \<times> bool) \<Rightarrow> list_jar" where
  "lj_change j c e = (fst j, e # filter (\<lambda>e. ck_name (fst e) \<noteq> ck_name c) (snd j))"

definition lj_seal :: "bool list \<Rightarrow> list_jar \<Rightarrow> cookie \<Rightarrow> list_jar" where
  "lj_seal k j c = lj_change j c (c\<lparr>ck_value := ck_value c @ map (\<lambda>b. if b then CHR ''1'' else CHR ''0'') k\<rparr>, False)"

definition lj_open :: "bool list \<Rightarrow> list_jar \<Rightarrow> str \<Rightarrow> cookie option" where
  "lj_open k j n = Option.bind (lj_get j n) (\<lambda>c.
     map_option (\<lambda>v. c\<lparr>ck_value := v\<rparr>)
       (strip_suffix (map (\<lambda>b. if b then CHR ''1'' else CHR ''0'') k) (ck_value c)))"

definition list_raw_jar :: "(list_jar, bool list) raw_jar" where
  "list_raw_jar =
     \<lparr>rj_new = ([], []), rj_add_original = (\<lambda>j c. (c # fst j, snd j)), rj_get = lj_get,
      rj_add = (\<lambda>j c. lj_change j c (c, False)),
      rj_remove = (\<lambda>j c. if ck_name c \<in> ck_name ` set (fst j) then lj_change j c (removal c, True)
         else (fst j, filter (\<lambda>e. ck_name (fst e) \<noteq> ck_name c) (snd j))),
      rj_delta = (\<lambda>j. map fst (snd j)),
      rj_signed_add = lj_seal, rj_signed_get = lj_open, rj_private_add = lj_seal, rj_private_get = lj_open\<rparr>"

lemma lj_get_change:
  "ck_name (fst e) = ck_name c \<Longrightarrow>
   lj_get (lj_change j c e) n = (if n = ck_name c then (if snd e then None else Some (fst e)) else lj_get j n)"
proof -
  assume e: "ck_name (fst e) = ck_name c"
  have "find (\<lambda>e. ck_name (fst e) = n) (filter (\<lambda>e. ck_name (fst e) \<noteq> m) xs) =
      (if n = m then None else find (\<lambda>e. ck_name (fst e) = n) xs)" for xs :: "(cookie \<times> bool) list" and m
    by (induction xs) auto
  with e show ?thesis unfolding lj_get_def lj_change_def fst_conv snd_conv by (auto split: prod.splits)
qed

lemma list_raw_jar_ok: "raw_jar_ok list_raw_jar (\<lambda>j. ck_name ` set (fst j))"
proof -
  have o: "opens list_raw_jar lj_seal lj_open"
    unfolding opens_def list_raw_jar_def lj_seal_def lj_open_def
    by (auto simp: lj_get_change) (auto simp: lj_get_def strip_suffix_def)
  have f: "find (\<lambda>e. ck_name (fst e) = n) (filter (\<lambda>e. ck_name (fst e) \<noteq> m) xs) =
      (if n = m then None else find (\<lambda>e. ck_name (fst e) = n) xs)" for xs :: "(cookie \<times> bool) list" and m n
    by (induction xs) auto
  have g: "find (\<lambda>c. ck_name c = n) xs = None \<longleftrightarrow> n \<notin> ck_name ` set xs" for xs :: "cookie list" and n
    by (induction xs) auto
  show ?thesis
    unfolding raw_jar_ok_def
    by (intro conjI allI) (use o g in \<open>auto simp: list_raw_jar_def lj_get_change removal_def lj_change_def
        lj_get_def f split: option.splits prod.splits\<close>)
qed

interpretation request_jar: cookies "root_jar list_raw_jar" "\<lambda>_. True" "\<lambda>c. c" "\<lambda>s. \<not> cj_sealed s"
  by (rule cookies_root [OF list_raw_jar_ok])

theorem adapters_read_back_witness:
  "\<exists>s'. change_all (signed_jar list_raw_jar (override_prefix_host (root_jar list_raw_jar)) [True])
      (jar_from_request list_raw_jar (\<lambda>_. []) [])
      [AddCookie (cookie_new ''id'' ''1''), AddCookie (cookie_new ''a'' ''2''), RemoveCookie (cookie_new ''a'' [])] = Done s' \<and>
    map_option ck_value (jo_get (signed_jar list_raw_jar (override_prefix_host (root_jar list_raw_jar)) [True])
      s' ''id'') = Some ''1'' \<and>
    jo_get (signed_jar list_raw_jar (override_prefix_host (root_jar list_raw_jar)) [True]) s' ''a'' = None"
proof -
  let ?J = "signed_jar list_raw_jar (override_prefix_host (root_jar list_raw_jar)) [True]"
  let ?shown = "\<lambda>c. strip_name HostPrefix (prepare HostPrefix ConformOverride c)"
  have a: "adapted list_raw_jar (root_jar list_raw_jar) ?J (unprefixed HostPrefix (\<lambda>_. True)) ?shown"
    unfolding override_prefix_host_def by (intro adapted_signed adapted_prefixed adapted_root)
  have u: "unprefixed HostPrefix (\<lambda>_. True) ''id''" "unprefixed HostPrefix (\<lambda>_. True) ''a''" by code_simp+
  have s: "\<not> cj_sealed (jar_from_request list_raw_jar (\<lambda>_. []) [])" by (simp add: jar_from_request_def)
  from adapters_read_back [OF list_raw_jar_ok a s, of
      "[AddCookie (cookie_new ''id'' ''1''), AddCookie (cookie_new ''a'' ''2''), RemoveCookie (cookie_new ''a'' [])]"] u
  show ?thesis by (fastforce simp: cookie_new_def)
qed

subsection \<open>The request's cell\<close>

record 'j jar_cell =
  cc_jar :: "'j cookie_jar option"
  cc_sealed :: bool

definition jar_cell_new :: "'j jar_cell" where
  "jar_cell_new = \<lparr>cc_jar = None, cc_sealed = False\<rparr>"

text \<open>\<open>initial\<close> is what \<^verbatim>\<open>CookieJar::from_request\<close> builds for the request.\<close>

definition cell_get_or_init :: "'j cookie_jar \<Rightarrow> 'j jar_cell \<Rightarrow> 'j cookie_jar \<times> 'j jar_cell" where
  "cell_get_or_init initial cell =
     (let jar = (case cc_jar cell of Some j \<Rightarrow> j | None \<Rightarrow> initial);
          jar = (if cc_sealed cell then seal_jar jar else jar)
      in (jar, cell\<lparr>cc_jar := Some jar\<rparr>))"

definition cell_seal :: "'j jar_cell \<Rightarrow> 'j jar_cell" where
  "cell_seal cell = cell\<lparr>cc_sealed := True, cc_jar := map_option seal_jar (cc_jar cell)\<rparr>"

text \<open>\<^verbatim>\<open>cookies(cx)\<close>: the root jar behind the cell.\<close>

definition cell_ops :: "('j, 'k) raw_jar \<Rightarrow> 'j cookie_jar \<Rightarrow> 'j jar_cell jar_ops" where
  "cell_ops R initial =
     \<lparr>jo_get = (\<lambda>s name. jo_get (root_jar R) (fst (cell_get_or_init initial s)) name),
      jo_add = (\<lambda>s c. bind_outcome (jo_add (root_jar R) (fst (cell_get_or_init initial s)) c)
        (\<lambda>j. Done (s\<lparr>cc_jar := Some j\<rparr>))),
      jo_remove = (\<lambda>s c. bind_outcome (jo_remove (root_jar R) (fst (cell_get_or_init initial s)) c)
        (\<lambda>j. Done (s\<lparr>cc_jar := Some j\<rparr>)))\<rparr>"

definition write_cookies :: "('j, 'k) raw_jar \<Rightarrow> (cookie \<Rightarrow> str) \<Rightarrow> 'j jar_cell \<Rightarrow> header_map
    \<Rightarrow> header_map \<times> 'j jar_cell" where
  "write_cookies R encode cell headers =
     (let headers = (case cc_jar cell of
            Some jar \<Rightarrow> foldl (\<lambda>h v. hm_append h ''set-cookie'' v) headers (delta_headers R encode jar)
          | None \<Rightarrow> headers)
      in (headers, cell_seal cell))"

text \<open>What \<^verbatim>\<open>CookieLayer::handle\<close> does once the rest of the chain has answered \<open>r\<close>, leaving the
  cell and the pending headers as they are now.\<close>

definition cookie_layer_finish :: "('j, 'k) raw_jar \<Rightarrow> (cookie \<Rightarrow> str) \<Rightarrow> 'j jar_cell
    \<Rightarrow> ('b response, ('b, 'c) error) result \<Rightarrow> response_headers
    \<Rightarrow> (('b response, ('b, 'c) error) result \<times> response_headers \<times> 'j jar_cell) outcome" where
  "cookie_layer_finish R encode cell r hs =
     (case r of
        Inr response \<Rightarrow>
          (let (headers, cell) = write_cookies R encode cell (rs_headers response)
           in Done (Ok (response\<lparr>rs_headers := headers\<rparr>), hs, cell))
      | Inl e \<Rightarrow>
          (let (headers, cell) = write_cookies R encode cell []
           in (case rh_extend hs headers of
                 None \<Rightarrow> Panic
               | Some hs \<Rightarrow> Done (Err e, hs, cell))))"

lemma append_all_values:
  "hm_get_all (foldl (\<lambda>h v. hm_append h m v) headers vs) n = hm_get_all headers n @ (if n = m then vs else [])"
  by (induction vs arbitrary: headers) auto

lemma cookies_cell:
  assumes "raw_jar_ok R originals"
  shows "cookies (cell_ops R initial) (\<lambda>_. True) (\<lambda>c. c) (\<lambda>s. \<not> cj_sealed (fst (cell_get_or_init initial s)))"
proof -
  have g: "fst (cell_get_or_init initial (s\<lparr>cc_jar := Some j\<rparr>)) = j"
    if "\<not> cj_sealed (fst (cell_get_or_init initial s))" for s j
    using that by (auto simp: cell_get_or_init_def seal_jar_def Let_def)
  show ?thesis
    by unfold_locales (auto simp: cell_ops_def root_jar_def raw_jar_add [OF assms] g)
qed

definition pending_cookies :: "('j, 'k) raw_jar \<Rightarrow> (cookie \<Rightarrow> str) \<Rightarrow> 'j jar_cell \<Rightarrow> str list" where
  "pending_cookies R encode cell =
     (case cc_jar cell of None \<Rightarrow> [] | Some jar \<Rightarrow> delta_headers R encode jar)"

lemma write_cookies_effect:
  "hm_get_all (fst (write_cookies R encode cell headers)) n =
     hm_get_all headers n @ (if n = ''set-cookie'' then pending_cookies R encode cell else [])"
  "snd (write_cookies R encode cell headers) = cell_seal cell"
  by (auto simp: write_cookies_def pending_cookies_def append_all_values Let_def split: option.splits)

lemma sealed_cell:
  "cj_sealed (fst (cell_get_or_init initial (cell_seal cell)))"
  "pending_cookies R encode (cell_seal cell) = pending_cookies R encode cell"
  by (auto simp: cell_get_or_init_def cell_seal_def seal_jar_def pending_cookies_def delta_headers_def Let_def
      split: option.splits)


interpretation request_cell: cookies "cell_ops list_raw_jar initial" "\<lambda>_. True" "\<lambda>c. c"
    "\<lambda>s. \<not> cj_sealed (fst (cell_get_or_init initial s))" for initial
  by (rule cookies_cell [OF list_raw_jar_ok])


subsection \<open>Typed values in a cookie\<close>

text \<open>\<^verbatim>\<open>serde_json\<close> is a parameter: \<open>ser\<close> and \<open>de\<close>, with the serializer's error \<open>'e\<close>.\<close>

record ('s, 'v) cookie_store =
  st_jar :: "'s jar_ops"
  st_key :: str
  st_value :: 'v

record 's unparsed_store =
  us_jar :: "'s jar_ops"
  us_key :: str

definition store_new :: "'s jar_ops \<Rightarrow> str \<Rightarrow> 'v \<Rightarrow> ('s, 'v) cookie_store" where
  "store_new J key v = \<lparr>st_jar = J, st_key = key, st_value = v\<rparr>"

definition store_set :: "('s, 'v) cookie_store \<Rightarrow> 'v \<Rightarrow> ('s, 'v) cookie_store" where
  "store_set st v = st\<lparr>st_value := v\<rparr>"

definition store_update :: "('s, 'v) cookie_store \<Rightarrow> ('v \<Rightarrow> 'v) \<Rightarrow> ('s, 'v) cookie_store" where
  "store_update st f = st\<lparr>st_value := f (st_value st)\<rparr>"

definition store_commit :: "('v \<Rightarrow> (str, 'e) result) \<Rightarrow> ('s, 'v) cookie_store \<Rightarrow> 's \<Rightarrow> (('v, 'e) result \<times> 's) outcome" where
  "store_commit ser st s =
     (case ser (st_value st) of
        Inl e \<Rightarrow> Done (Err e, s)
      | Inr serialized \<Rightarrow>
          bind_outcome (jo_add (st_jar st) s (cookie_new (st_key st) serialized))
            (\<lambda>s. Done (Ok (st_value st), s)))"

definition store_remove :: "('s, 'v) cookie_store \<Rightarrow> 's \<Rightarrow> 's outcome" where
  "store_remove st s = jo_remove (st_jar st) s (cookie_new (st_key st) [])"

definition unparsed_new :: "'s jar_ops \<Rightarrow> str \<Rightarrow> 's unparsed_store" where
  "unparsed_new J key = \<lparr>us_jar = J, us_key = key\<rparr>"

definition unparsed_set :: "'s unparsed_store \<Rightarrow> 'v \<Rightarrow> ('s, 'v) cookie_store" where
  "unparsed_set u v = store_new (us_jar u) (us_key u) v"

definition unparsed_remove :: "'s unparsed_store \<Rightarrow> 's \<Rightarrow> 's outcome" where
  "unparsed_remove u s = jo_remove (us_jar u) s (cookie_new (us_key u) [])"

definition store_parse :: "(str \<Rightarrow> ('v, 'e) result) \<Rightarrow> 's unparsed_store \<Rightarrow> 's
    \<Rightarrow> (('s, 'v) cookie_store option, 'e) result" where
  "store_parse de u s =
     (case jo_get (us_jar u) s (us_key u) of
        Some c \<Rightarrow>
          (case de (ck_value c) of
             Inl e \<Rightarrow> Err e
           | Inr v \<Rightarrow> Ok (Some (store_new (us_jar u) (us_key u) v)))
      | None \<Rightarrow> Ok None)"

definition store_parse_or_else :: "(str \<Rightarrow> ('v, 'e) result) \<Rightarrow> 's unparsed_store \<Rightarrow> (unit \<Rightarrow> 'v) \<Rightarrow> 's
    \<Rightarrow> ('s, 'v) cookie_store" where
  "store_parse_or_else de u f s =
     (let v = (case jo_get (us_jar u) s (us_key u) of
          Some c \<Rightarrow> (case de (ck_value c) of Inr v \<Rightarrow> v | Inl _ \<Rightarrow> f ())
        | None \<Rightarrow> f ())
      in store_new (us_jar u) (us_key u) v)"

definition store_parse_or :: "(str \<Rightarrow> ('v, 'e) result) \<Rightarrow> 's unparsed_store \<Rightarrow> 'v \<Rightarrow> 's
    \<Rightarrow> ('s, 'v) cookie_store" where
  "store_parse_or de u v s = store_parse_or_else de u (\<lambda>_. v) s"

context cookies
begin

lemma commit_reads_back:
  assumes "is_open s" "ok (st_key st)" "st_jar st = J" "ser (st_value st) = Ok text" "de text = Ok (st_value st)"
  shows "\<exists>s'. store_commit ser st s = Done (Ok (st_value st), s') \<and> is_open s' \<and>
    store_parse de (unparsed_new J (st_key st)) s' = Ok (Some st) \<and>
    (\<exists>s''. store_remove st s' = Done s'' \<and> store_parse de (unparsed_new J (st_key st)) s'' = Ok None)"
proof -
  have n: "ck_name (cookie_new k v) = k" "ck_value (cookie_new k v) = v" for k v
    by (simp_all add: cookie_new_def)
  from add [of s "cookie_new (st_key st) text"] assms(1,2) obtain s' where
    s': "jo_add J s (cookie_new (st_key st) text) = Done s'" "is_open s'"
    "jo_get J s' (st_key st) = Some (shown (cookie_new (st_key st) text))" by (auto simp: n)
  from remove [of s' "cookie_new (st_key st) []"] s'(2) assms(2) obtain s'' where
    s'': "jo_remove J s' (cookie_new (st_key st) []) = Done s''" "jo_get J s'' (st_key st) = None" by (auto simp: n)
  have "store_parse de (unparsed_new J (st_key st)) s' = Ok (Some st)"
    using s'(3) assms(3,5) by (cases st) (simp add: store_parse_def unparsed_new_def store_new_def shown_value n)
  with s' s'' assms show ?thesis
    by (simp add: store_commit_def store_remove_def store_parse_def unparsed_new_def)
qed

end

text \<open>A typed value committed through any stack of adapters reads back as it was, until it is
  removed, when the cookie is gone; a value that does not serialize writes nothing.\<close>

theorem store_roundtrip:
  assumes "raw_jar_ok R originals" "adapted R (root_jar R) J ok shown" "\<not> cj_sealed s" "ok key"
  shows "case ser v of
      Inl e \<Rightarrow> store_commit ser (store_new J key v) s = Done (Err e, s)
    | Inr text \<Rightarrow> de text = Ok v \<longrightarrow>
        (\<exists>s'. store_commit ser (store_new J key v) s = Done (Ok v, s') \<and>
          store_parse de (unparsed_new J key) s' = Ok (Some (store_new J key v)) \<and>
          (\<exists>s''. store_remove (store_new J key v) s' = Done s'' \<and> store_parse de (unparsed_new J key) s'' = Ok None))"
proof (cases "ser v")
  case (Inl e)
  then show ?thesis by (simp add: store_commit_def store_new_def)
next
  case (Inr t)
  have J: "cookies J ok shown (\<lambda>s. \<not> cj_sealed s)"
    by (rule adapted_contract [OF assms(1) cookies_root [OF assms(1)] assms(2)])
  from cookies.commit_reads_back [OF J assms(3), of "store_new J key v" ser t de] assms(4) Inr
  show ?thesis by (auto simp: store_new_def)
qed

theorem store_roundtrip_witness:
  "\<exists>s'. store_commit Ok (store_new (root_jar list_raw_jar) ''cart'' ''x'') \<lparr>cj_jar = ([], []), cj_sealed = False\<rparr> =
     Done (Ok ''x'' :: (str, unit) result, s')"
  using store_roundtrip [OF list_raw_jar_ok adapted_root, where s = "\<lparr>cj_jar = ([], []), cj_sealed = False\<rparr>"
      and key = "''cart''" and ser = "Ok :: str \<Rightarrow> (str, unit) result" and v = "''x''"
      and de = "Ok :: str \<Rightarrow> (str, unit) result"]
  by auto

end
