(* ===== verification/Sessions.thy ===== *)
theory Sessions
  imports Cookie_Jars Identity_Hash
begin

text \<open>
  Sessions: \<^verbatim>\<open>crates/topcoat-session/src\<close>.  A session is a random token the client keeps; the
  token store is a trait, the record \<open>('w, 'e) token_store\<close> over the state \<open>'w\<close> of the request,
  and the cookie store is its implementation on the jars of \<open>Cookie_Jars\<close>.  Fresh tokens, the
  clock, SHA-256 and base64 are parameters.
\<close>

subsection \<open>Tokens\<close>

type_synonym token = "byte list"
type_synonym token_hash = "byte list"

datatype 'd decode_error = Base64Error 'd | WrongLength
datatype 'd slice_error = OutputSliceTooSmall | SliceDecodeError 'd

text \<open>\<open>b64\<close> is \<^verbatim>\<open>URL_SAFE.decode_slice\<close> into 32 bytes: the bytes written.\<close>

definition token_decode :: "(str \<Rightarrow> (byte list, 'd slice_error) result) \<Rightarrow> str \<Rightarrow> (token, 'd decode_error) result" where
  "token_decode b64 s =
     (case b64 s of
        Inl OutputSliceTooSmall \<Rightarrow> Err WrongLength
      | Inl (SliceDecodeError e) \<Rightarrow> Err (Base64Error e)
      | Inr bytes \<Rightarrow> if length bytes \<noteq> 32 then Err WrongLength else Ok bytes)"

definition token_hash_of :: "(byte list \<Rightarrow> byte list) \<Rightarrow> token \<Rightarrow> token_hash" where
  "token_hash_of sha256 t = sha256 t"

subsection \<open>The state of a request\<close>

record ('w, 'e) token_store =
  ts_read :: "'w \<Rightarrow> ((token option, 'e) result \<times> 'w) outcome"
  ts_write :: "'w \<Rightarrow> token \<Rightarrow> nat \<Rightarrow> ((unit, 'e) result \<times> 'w) outcome"
  ts_delete :: "'w \<Rightarrow> ((unit, 'e) result \<times> 'w) outcome"

datatype load = Unloaded | Loaded "token option"

record 'w session_state =
  ss_load :: load
  ss_world :: 'w

definition session_state_new :: "'w \<Rightarrow> 'w session_state" where
  "session_state_new w = \<lparr>ss_load = Unloaded, ss_world = w\<rparr>"

definition state_token :: "('w, 'e) token_store \<Rightarrow> 'w session_state
    \<Rightarrow> ((token option, 'e) result \<times> 'w session_state) outcome" where
  "state_token T st =
     (case ss_load st of
        Loaded t \<Rightarrow> Done (Ok t, st)
      | Unloaded \<Rightarrow>
          bind_outcome (ts_read T (ss_world st)) (\<lambda>(r, w).
            (case r of
               Inl e \<Rightarrow> Done (Err e, st\<lparr>ss_world := w\<rparr>)
             | Inr t \<Rightarrow> Done (Ok t, \<lparr>ss_load = Loaded t, ss_world = w\<rparr>))))"

definition state_set :: "token option \<Rightarrow> 'w session_state \<Rightarrow> 'w session_state" where
  "state_set t st = st\<lparr>ss_load := Loaded t\<rparr>"

subsection \<open>Session operations\<close>

text \<open>The settings a session operation reads: the hash, the expiry of a session started now (none
  where the clock overflows, which panics), and the lifetime.\<close>

record 't session_env =
  se_hash :: "token \<Rightarrow> token_hash"
  se_expires :: "'t option"
  se_lifetime :: nat

record 't session =
  sn_token_hash :: token_hash
  sn_expires_at :: 't

record 't rotation =
  ro_revoked :: token_hash
  ro_session :: "'t session"

definition session_of :: "'t session_env \<Rightarrow> token \<Rightarrow> 't session outcome" where
  "session_of E t =
     (case se_expires E of
        None \<Rightarrow> Panic
      | Some at \<Rightarrow> Done \<lparr>sn_token_hash = se_hash E t, sn_expires_at = at\<rparr>)"

text \<open>Writing the token, then going on in the world the write leaves unless it failed.\<close>

definition write_then :: "('w, 'e) token_store \<Rightarrow> 't session_env \<Rightarrow> token \<Rightarrow> 'w session_state
    \<Rightarrow> ('w session_state \<Rightarrow> (('r, 'e) result \<times> 'w session_state) outcome)
    \<Rightarrow> (('r, 'e) result \<times> 'w session_state) outcome" where
  "write_then T E t st k =
     bind_outcome (ts_write T (ss_world st) t (se_lifetime E)) (\<lambda>(r, w).
       (case r of
          Inl e \<Rightarrow> Done (Err e, st\<lparr>ss_world := w\<rparr>)
        | Inr _ \<Rightarrow> k (st\<lparr>ss_world := w\<rparr>)))"

definition session_start :: "('w, 'e) token_store \<Rightarrow> 't session_env \<Rightarrow> token \<Rightarrow> 'w session_state
    \<Rightarrow> (('t session, 'e) result \<times> 'w session_state) outcome" where
  "session_start T E fresh st =
     bind_outcome (session_of E fresh) (\<lambda>session.
       write_then T E fresh st (\<lambda>st. Done (Ok session, state_set (Some fresh) st)))"

definition session_stop :: "('w, 'e) token_store \<Rightarrow> 't session_env \<Rightarrow> 'w session_state
    \<Rightarrow> ((token_hash option, 'e) result \<times> 'w session_state) outcome" where
  "session_stop T E st =
     bind_outcome (state_token T st) (\<lambda>(r, st).
       (case r of
          Inl e \<Rightarrow> Done (Err e, st)
        | Inr t \<Rightarrow>
            bind_outcome (ts_delete T (ss_world st)) (\<lambda>(d, w).
              (case d of
                 Inl e \<Rightarrow> Done (Err e, st\<lparr>ss_world := w\<rparr>)
               | Inr _ \<Rightarrow> Done (Ok (map_option (se_hash E) t), state_set None (st\<lparr>ss_world := w\<rparr>))))))"

definition session_refresh :: "('w, 'e) token_store \<Rightarrow> 't session_env \<Rightarrow> 'w session_state
    \<Rightarrow> (('t session option, 'e) result \<times> 'w session_state) outcome" where
  "session_refresh T E st =
     bind_outcome (state_token T st) (\<lambda>(r, st).
       (case r of
          Inl e \<Rightarrow> Done (Err e, st)
        | Inr None \<Rightarrow> Done (Ok None, st)
        | Inr (Some t) \<Rightarrow>
            bind_outcome (session_of E t) (\<lambda>session.
              write_then T E t st (\<lambda>st. Done (Ok (Some session), st)))))"

definition session_rotate :: "('w, 'e) token_store \<Rightarrow> 't session_env \<Rightarrow> token \<Rightarrow> 'w session_state
    \<Rightarrow> (('t rotation option, 'e) result \<times> 'w session_state) outcome" where
  "session_rotate T E fresh st =
     bind_outcome (state_token T st) (\<lambda>(r, st).
       (case r of
          Inl e \<Rightarrow> Done (Err e, st)
        | Inr None \<Rightarrow> Done (Ok None, st)
        | Inr (Some old) \<Rightarrow>
            bind_outcome (session_of E fresh) (\<lambda>session.
              write_then T E fresh st (\<lambda>st.
                Done (Ok (Some \<lparr>ro_revoked = se_hash E old, ro_session = session\<rparr>), state_set (Some fresh) st)))))"

definition session_token_hash :: "('w, 'e) token_store \<Rightarrow> 't session_env \<Rightarrow> 'w session_state
    \<Rightarrow> ((token_hash option, 'e) result \<times> 'w session_state) outcome" where
  "session_token_hash T E st =
     bind_outcome (state_token T st) (\<lambda>(r, st).
       (case r of
          Inl e \<Rightarrow> Done (Err e, st)
        | Inr t \<Rightarrow> Done (Ok (map_option (se_hash E) t), st)))"

subsection \<open>The cookie token store\<close>

definition SESSION_COOKIE_NAME :: str where "SESSION_COOKIE_NAME = ''session''"

definition session_cookies :: "'s jar_ops \<Rightarrow> 's jar_ops" where
  "session_cookies J =
     override_prefix_host (override_path (override_secure
       (override_http_only (override_same_site J SameSiteLax) True) True) ''/'')"

record ('d, 'e) token_codec =
  tc_encode :: "token \<Rightarrow> str"
  tc_decode_slice :: "str \<Rightarrow> (byte list, 'd slice_error) result"
  tc_trimmed :: "str \<Rightarrow> str"
  tc_duration :: "nat \<Rightarrow> (int, 'e) result"

definition cookie_token_store :: "('d, 'e) token_codec \<Rightarrow> 's jar_ops \<Rightarrow> str \<Rightarrow> ('s, 'e) token_store" where
  "cookie_token_store C J name =
     \<lparr>ts_read = (\<lambda>s. Done (Ok (case jo_get (session_cookies J) s name of
          None \<Rightarrow> None
        | Some c \<Rightarrow> result_ok (token_decode (tc_decode_slice C) (tc_trimmed C (ck_value c)))), s)),
      ts_write = (\<lambda>s t age. case tc_duration C age of
          Inl e \<Rightarrow> Done (Err e, s)
        | Inr secs \<Rightarrow>
            bind_outcome (jo_add (override_max_age (session_cookies J) secs) s (cookie_new name (tc_encode C t)))
              (\<lambda>s. Done (Ok (), s))),
      ts_delete = (\<lambda>s. bind_outcome (jo_remove (session_cookies J) s (cookie_new name [])) (\<lambda>s. Done (Ok (), s)))\<rparr>"

subsection \<open>Configuration\<close>

record ('w, 'e) session_config =
  sc_token_store :: "('w, 'e) token_store"
  sc_lifetime :: nat

definition DEFAULT_LIFETIME :: nat where "DEFAULT_LIFETIME = 24 * 30 * 3600"

record ('w, 'e) session_config_builder =
  scb_token_store :: "('w, 'e) token_store option"
  scb_lifetime :: nat

definition session_config_builder :: "('w, 'e) session_config_builder" where
  "session_config_builder = \<lparr>scb_token_store = None, scb_lifetime = DEFAULT_LIFETIME\<rparr>"

definition with_token_store :: "('w, 'e) session_config_builder \<Rightarrow> ('w, 'e) token_store \<Rightarrow> ('w, 'e) session_config_builder" where
  "with_token_store B T = B\<lparr>scb_token_store := Some T\<rparr>"

definition with_lifetime :: "('w, 'e) session_config_builder \<Rightarrow> nat \<Rightarrow> ('w, 'e) session_config_builder" where
  "with_lifetime B n = B\<lparr>scb_lifetime := n\<rparr>"

text \<open>Built with the feature \<^verbatim>\<open>cookie\<close>: the default store is the cookie store.\<close>

definition default_token_store :: "('d, 'e) token_codec \<Rightarrow> 's jar_ops \<Rightarrow> ('s, 'e) token_store" where
  "default_token_store C J = cookie_token_store C J SESSION_COOKIE_NAME"

definition build_session_config :: "('d, 'e) token_codec \<Rightarrow> 's jar_ops \<Rightarrow> ('s, 'e) session_config_builder
    \<Rightarrow> ('s, 'e) session_config" where
  "build_session_config C J B =
     \<lparr>sc_token_store = (case scb_token_store B of Some T \<Rightarrow> T | None \<Rightarrow> default_token_store C J),
      sc_lifetime = scb_lifetime B\<rparr>"

subsection \<open>Sequences of operations\<close>

datatype session_op = OpStart token | OpStop | OpRefresh | OpRotate token | OpTokenHash

text \<open>Running one operation: whether it succeeded.\<close>

definition succeeds :: "(('r, 'e) result \<times> 'w session_state) outcome \<Rightarrow> (bool \<times> 'w session_state) outcome" where
  "succeeds x = bind_outcome x (\<lambda>(r, st). Done (is_ok r, st))"

fun run_op :: "('w, 'e) token_store \<Rightarrow> 't session_env \<Rightarrow> session_op \<Rightarrow> 'w session_state
    \<Rightarrow> (bool \<times> 'w session_state) outcome" where
  "run_op T E (OpStart fresh) st = succeeds (session_start T E fresh st)"
| "run_op T E OpStop st = succeeds (session_stop T E st)"
| "run_op T E OpRefresh st = succeeds (session_refresh T E st)"
| "run_op T E (OpRotate fresh) st = succeeds (session_rotate T E fresh st)"
| "run_op T E OpTokenHash st = succeeds (session_token_hash T E st)"

fun run_ops :: "('w, 'e) token_store \<Rightarrow> 't session_env \<Rightarrow> session_op list \<Rightarrow> 'w session_state
    \<Rightarrow> (bool \<times> 'w session_state) outcome" where
  "run_ops T E [] st = Done (True, st)"
| "run_ops T E (p # ps) st =
     bind_outcome (run_op T E p st) (\<lambda>(ok, st). if ok then run_ops T E ps st else Done (False, st))"

text \<open>The abstract session: the client's token, if it has one.\<close>

fun op_effect :: "session_op \<Rightarrow> token option \<Rightarrow> token option" where
  "op_effect (OpStart fresh) _ = Some fresh"
| "op_effect OpStop _ = None"
| "op_effect OpRefresh t = t"
| "op_effect (OpRotate fresh) t = (if t = None then None else Some fresh)"
| "op_effect OpTokenHash t = t"

fun op_token :: "session_op \<Rightarrow> token option" where
  "op_token (OpStart fresh) = Some fresh"
| "op_token (OpRotate fresh) = Some fresh"
| "op_token _ = None"

subsection \<open>The contract of a token store\<close>

text \<open>\<open>holds\<close> is the token a store would read, \<open>good\<close> the states in which it takes writes.\<close>

locale session_store =
  fixes T :: "('w, 'e) token_store" and holds :: "'w \<Rightarrow> token option" and good :: "'w \<Rightarrow> bool"
    and valid :: "token \<Rightarrow> bool" and lifetime :: nat
  assumes reads: "\<exists>w'. ts_read T w = Done (Ok (holds w), w') \<and> holds w' = holds w \<and> good w' = good w"
    and writes: "good w \<Longrightarrow> valid t \<Longrightarrow>
      \<exists>w'. ts_write T w t lifetime = Done (Ok (), w') \<and> good w' \<and> holds w' = Some t"
    and deletes: "good w \<Longrightarrow> \<exists>w'. ts_delete T w = Done (Ok (), w') \<and> good w' \<and> holds w' = None"
    and holds_valid: "pred_option valid (holds w)"
begin

text \<open>What the request has loaded is what the store holds.\<close>

definition consistent :: "'w session_state \<Rightarrow> bool" where
  "consistent st \<longleftrightarrow> good (ss_world st) \<and> (ss_load st = Unloaded \<or> ss_load st = Loaded (holds (ss_world st)))"

lemma consistent_new: "good w \<Longrightarrow> consistent (session_state_new w)"
  by (simp add: consistent_def session_state_new_def)

lemma token_reads:
  assumes "consistent st"
  obtains st' where "state_token T st = Done (Ok (holds (ss_world st)), st')" "consistent st'"
    "holds (ss_world st') = holds (ss_world st)"
proof -
  obtain w' where "ts_read T (ss_world st) = Done (Ok (holds (ss_world st)), w')"
    "holds w' = holds (ss_world st)" "good w' = good (ss_world st)" using reads by blast
  note r = this
  show thesis
  proof (cases "ss_load st")
    case Unloaded
    with r have "state_token T st = Done (Ok (holds (ss_world st)), \<lparr>ss_load = Loaded (holds (ss_world st)), ss_world = w'\<rparr>)"
      by (simp add: state_token_def)
    then show thesis by (rule that) (use r assms in \<open>simp_all add: consistent_def\<close>)
  next
    case (Loaded t)
    with assms have "state_token T st = Done (Ok (holds (ss_world st)), st)"
      by (simp add: state_token_def consistent_def)
    then show thesis by (rule that) (use assms in simp_all)
  qed
qed

lemma write_then_runs:
  assumes "consistent st" "valid t" "se_lifetime E = lifetime"
  obtains w where "write_then T E t st k = k (st\<lparr>ss_world := w\<rparr>)" "good w" "holds w = Some t"
proof -
  obtain w where "ts_write T (ss_world st) t lifetime = Done (Ok (), w)" "good w" "holds w = Some t"
    using assms writes by (auto simp: consistent_def)
  with assms that show thesis by (simp add: write_then_def)
qed

lemma start_runs:
  assumes "consistent st" "valid fresh" "se_lifetime E = lifetime" "se_expires E = Some at"
  shows "\<exists>st'. session_start T E fresh st = Done (Ok \<lparr>sn_token_hash = se_hash E fresh, sn_expires_at = at\<rparr>, st') \<and>
    consistent st' \<and> holds (ss_world st') = Some fresh"
proof -
  from write_then_runs [OF assms(1-3), of "\<lambda>st. Done (Ok \<lparr>sn_token_hash = se_hash E fresh, sn_expires_at = at\<rparr>, state_set (Some fresh) st)"]
  obtain w where w: "write_then T E fresh st (\<lambda>st. Done (Ok \<lparr>sn_token_hash = se_hash E fresh, sn_expires_at = at\<rparr>,
      state_set (Some fresh) st)) = Done (Ok \<lparr>sn_token_hash = se_hash E fresh, sn_expires_at = at\<rparr>,
      state_set (Some fresh) (st\<lparr>ss_world := w\<rparr>))" "good w" "holds w = Some fresh" .
  with assms(4) show ?thesis by (simp add: session_start_def session_of_def state_set_def consistent_def)
qed

lemma stop_runs:
  assumes "consistent st"
  shows "\<exists>st'. session_stop T E st = Done (Ok (map_option (se_hash E) (holds (ss_world st))), st') \<and>
    consistent st' \<and> holds (ss_world st') = None"
proof -
  from token_reads [OF assms] obtain st1 where s: "state_token T st = Done (Ok (holds (ss_world st)), st1)" "consistent st1" .
  moreover from s(2) deletes obtain w where "ts_delete T (ss_world st1) = Done (Ok (), w)" "good w" "holds w = None"
    by (auto simp: consistent_def)
  ultimately show ?thesis by (simp add: session_stop_def state_set_def consistent_def)
qed

lemma token_hash_runs:
  assumes "consistent st"
  shows "\<exists>st'. session_token_hash T E st = Done (Ok (map_option (se_hash E) (holds (ss_world st))), st') \<and>
    consistent st' \<and> holds (ss_world st') = holds (ss_world st)"
proof -
  from token_reads [OF assms] obtain st1 where "state_token T st = Done (Ok (holds (ss_world st)), st1)"
    "consistent st1" "holds (ss_world st1) = holds (ss_world st)" .
  then show ?thesis by (simp add: session_token_hash_def)
qed

lemma refresh_runs:
  assumes "consistent st" "se_lifetime E = lifetime" "se_expires E = Some at"
  shows "\<exists>st'. session_refresh T E st =
      Done (Ok (map_option (\<lambda>t. \<lparr>sn_token_hash = se_hash E t, sn_expires_at = at\<rparr>) (holds (ss_world st))), st') \<and>
    consistent st' \<and> holds (ss_world st') = holds (ss_world st)"
proof -
  from token_reads [OF assms(1)] obtain st1 where s: "state_token T st = Done (Ok (holds (ss_world st)), st1)"
    "consistent st1" "holds (ss_world st1) = holds (ss_world st)" .
  show ?thesis
  proof (cases "holds (ss_world st)")
    case None
    with s show ?thesis by (simp add: session_refresh_def)
  next
    case (Some t)
    with holds_valid [of "ss_world st"] have v: "valid t" by simp
    let ?k = "\<lambda>st. Done (Ok (Some \<lparr>sn_token_hash = se_hash E t, sn_expires_at = at\<rparr>), st)"
    from write_then_runs [OF s(2) v assms(2), of ?k] obtain w where
      w: "write_then T E t st1 ?k = ?k (st1\<lparr>ss_world := w\<rparr>)" "good w" "holds w = Some t" .
    with s Some assms(3) show ?thesis
      by (auto simp: session_refresh_def session_of_def consistent_def)
  qed
qed

lemma rotate_runs:
  assumes "consistent st" "valid fresh" "se_lifetime E = lifetime" "se_expires E = Some at"
  shows "\<exists>st'. session_rotate T E fresh st =
      Done (Ok (map_option (\<lambda>old. \<lparr>ro_revoked = se_hash E old,
        ro_session = \<lparr>sn_token_hash = se_hash E fresh, sn_expires_at = at\<rparr>\<rparr>) (holds (ss_world st))), st') \<and>
    consistent st' \<and> holds (ss_world st') = (if holds (ss_world st) = None then None else Some fresh)"
proof -
  from token_reads [OF assms(1)] obtain st1 where s: "state_token T st = Done (Ok (holds (ss_world st)), st1)"
    "consistent st1" "holds (ss_world st1) = holds (ss_world st)" .
  show ?thesis
  proof (cases "holds (ss_world st)")
    case None
    with s show ?thesis by (simp add: session_rotate_def)
  next
    case (Some old)
    let ?k = "\<lambda>st. Done (Ok (Some \<lparr>ro_revoked = se_hash E old,
      ro_session = \<lparr>sn_token_hash = se_hash E fresh, sn_expires_at = at\<rparr>\<rparr>), state_set (Some fresh) st)"
    from write_then_runs [OF s(2) assms(2,3), of ?k] obtain w where
      w: "write_then T E fresh st1 ?k = ?k (st1\<lparr>ss_world := w\<rparr>)" "good w" "holds w = Some fresh" .
    with s Some assms(4) show ?thesis
      by (auto simp: session_rotate_def session_of_def state_set_def consistent_def)
  qed
qed

lemma run_op_refines:
  assumes "consistent st" "pred_option valid (op_token p)" "se_lifetime E = lifetime" "se_expires E = Some at"
  shows "\<exists>st'. run_op T E p st = Done (True, st') \<and> consistent st' \<and>
    holds (ss_world st') = op_effect p (holds (ss_world st))"
proof (cases p)
  case (OpStart fresh)
  with assms start_runs [of st fresh E at] show ?thesis by (auto simp: succeeds_def is_ok_def)
next
  case OpStop
  with assms stop_runs [of st E] show ?thesis by (auto simp: succeeds_def is_ok_def)
next
  case OpRefresh
  with assms refresh_runs [of st E at] show ?thesis by (auto simp: succeeds_def is_ok_def)
next
  case (OpRotate fresh)
  with assms rotate_runs [of st fresh E at] show ?thesis by (auto simp: succeeds_def is_ok_def)
next
  case OpTokenHash
  with assms token_hash_runs [of st E] show ?thesis by (auto simp: succeeds_def is_ok_def)
qed

lemma run_ops_refine:
  assumes "se_lifetime E = lifetime" "se_expires E = Some at"
  shows "consistent st \<Longrightarrow> list_all (\<lambda>p. pred_option valid (op_token p)) ps \<Longrightarrow>
    \<exists>st'. run_ops T E ps st = Done (True, st') \<and> consistent st' \<and>
      holds (ss_world st') = fold op_effect ps (holds (ss_world st))"
proof (induction ps arbitrary: st)
  case (Cons p ps)
  then obtain st1 where "run_op T E p st = Done (True, st1)" "consistent st1"
    "holds (ss_world st1) = op_effect p (holds (ss_world st))"
    using run_op_refines [OF _ _ assms, of st p] by auto
  with Cons.IH [of st1] Cons.prems show ?case by simp
qed simp

end

subsection \<open>The cookie store keeps the contract\<close>

definition cookie_token :: "('d, 'e) token_codec \<Rightarrow> 's jar_ops \<Rightarrow> str \<Rightarrow> 's \<Rightarrow> token option" where
  "cookie_token C J name s =
     (case jo_get (session_cookies J) s name of
        None \<Rightarrow> None
      | Some c \<Rightarrow> result_ok (token_decode (tc_decode_slice C) (tc_trimmed C (ck_value c))))"

text \<open>Base64 decodes what it encodes, and its text has no quotes to trim.\<close>

definition codec_ok :: "('d, 'e) token_codec \<Rightarrow> bool" where
  "codec_ok C \<longleftrightarrow> (\<forall>t. length t = 32 \<longrightarrow>
     tc_decode_slice C (tc_encode C t) = Ok t \<and> tc_trimmed C (tc_encode C t) = tc_encode C t)"

definition session_shown :: "cookie \<Rightarrow> cookie" where
  "session_shown c = strip_name HostPrefix ((prepare HostPrefix ConformOverride c)
     \<lparr>ck_path := Some ''/'', ck_secure := Some True, ck_http_only := Some True, ck_same_site := Some SameSiteLax\<rparr>)"

lemma cookies_session:
  assumes "cookies J (\<lambda>_. True) (\<lambda>c. c) is_open"
  shows "cookies (session_cookies J) (unprefixed HostPrefix (\<lambda>_. True)) session_shown is_open"
proof -
  note m = attribute_map_overrides
  have "cookies (session_cookies J) (unprefixed HostPrefix (\<lambda>_. True))
      (\<lambda>c. strip_name HostPrefix ((prepare HostPrefix ConformOverride c)
        \<lparr>ck_path := Some ''/'', ck_secure := Some True, ck_http_only := Some True, ck_same_site := Some SameSiteLax\<rparr>)) is_open"
    unfolding session_cookies_def override_prefix_host_def override_path_def override_secure_def
      override_http_only_def override_same_site_def
    by (rule cookies_prefixed, rule cookies_map [OF _ m(4)], rule cookies_map [OF _ m(1)],
        rule cookies_map [OF _ m(2)], rule cookies_map [OF assms m(3)])
  then show ?thesis by (simp add: session_shown_def [abs_def])
qed

lemma cookie_store_contract:
  assumes J: "cookies J (\<lambda>_. True) (\<lambda>c. c) is_open" and C: "codec_ok C" "tc_duration C lifetime = Ok secs"
    and name: "\<not> starts_with_str name ''__Host-''"
  shows "session_store (cookie_token_store C J name) (cookie_token C J name) is_open (\<lambda>t. length t = 32) lifetime"
proof -
  have ok: "unprefixed HostPrefix (\<lambda>_. True) name" using name by (simp add: unprefixed_def)
  note S = cookies_session [OF J]
  have A: "cookies (override_max_age (session_cookies J) secs) (unprefixed HostPrefix (\<lambda>_. True))
      (\<lambda>c. session_shown (c\<lparr>ck_max_age := Some secs\<rparr>)) is_open"
    unfolding override_max_age_def by (rule cookies_map [OF S attribute_map_overrides(6)])
  have get: "jo_get (override_max_age (session_cookies J) secs) = jo_get (session_cookies J)"
    by (simp add: override_max_age_def map_jar_def)
  have n: "ck_name (cookie_new name v) = name" "ck_value (cookie_new name v) = v" for v by (simp_all add: cookie_new_def)
  show ?thesis
  proof (unfold_locales, goal_cases)
    case (1 w) then show ?case by (simp add: cookie_token_store_def cookie_token_def)
  next
    case (2 w t)
    from cookies.add [OF A 2(1), of "cookie_new name (tc_encode C t)"] ok obtain w' where
      w: "jo_add (override_max_age (session_cookies J) secs) w (cookie_new name (tc_encode C t)) = Done w'" "is_open w'"
      "jo_get (session_cookies J) w' name = Some (session_shown ((cookie_new name (tc_encode C t))\<lparr>ck_max_age := Some secs\<rparr>))"
      by (auto simp: n get)
    with 2(2) C cookies.shown_value [OF A, of "cookie_new name (tc_encode C t)"] show ?case
      by (auto simp: cookie_token_store_def cookie_token_def codec_ok_def token_decode_def n)
  next
    case (3 w)
    from cookies.remove [OF S 3, of "cookie_new name []"] ok show ?case
      by (auto simp: cookie_token_store_def cookie_token_def n)
  next
    case (4 w)
    show ?case by (auto simp: cookie_token_def token_decode_def split: option.splits sum.splits slice_error.splits)
  qed
qed

definition demo_codec :: "(unit, unit) token_codec" where
  "demo_codec =
     \<lparr>tc_encode = demo_encode, tc_decode_slice = (\<lambda>s. Ok (map (\<lambda>c. of_nat (of_char c)) s)), tc_trimmed = (\<lambda>s. s),
      tc_duration = (\<lambda>n. Ok (int n))\<rparr>"

lemma demo_codec_ok: "codec_ok demo_codec"
proof -
  have "of_nat (of_char (char_of (unat b) :: char)) = b" for b :: byte
    using unsigned_less [where 'a = nat, of b] by (simp add: of_char_of)
  then show ?thesis by (simp add: codec_ok_def demo_codec_def demo_encode_def o_def map_idI)
qed

lemma session_name_ok: "\<not> starts_with_str SESSION_COOKIE_NAME ''__Host-''"
  by code_simp

interpretation cookie_sessions: session_store
    "cookie_token_store demo_codec (cell_ops list_raw_jar initial) SESSION_COOKIE_NAME"
    "cookie_token demo_codec (cell_ops list_raw_jar initial) SESSION_COOKIE_NAME"
    "\<lambda>s. \<not> cj_sealed (fst (cell_get_or_init initial s))" "\<lambda>t. length t = 32" lifetime
  for initial lifetime
  by (rule cookie_store_contract [OF cookies_cell [OF list_raw_jar_ok] demo_codec_ok _ session_name_ok, where secs = "int lifetime"])
    (simp add: demo_codec_def)

text \<open>C11. On the request's cookies, session operations behave as an abstract cell that holds the
  client's token: until the response is sent, any sequence of starting, stopping, refreshing,
  rotating and asking succeeds, and afterwards the request sees exactly the token that the
  operations leave in the cell, whether it was loaded before or not.\<close>

theorem sessions_refine:
  assumes R: "raw_jar_ok R originals" and C: "codec_ok C" "tc_duration C (se_lifetime E) = Ok secs"
    and name: "\<not> starts_with_str name ''__Host-''" and at: "se_expires E = Some at"
    and ops: "list_all (\<lambda>p. pred_option (\<lambda>t. length t = 32) (op_token p)) ps"
    and cell: "\<not> cj_sealed (fst (cell_get_or_init initial cell))"
    and T: "T = cookie_token_store C (cell_ops R initial) name"
  shows "\<exists>st'. run_ops T E ps (session_state_new cell) = Done (True, st') \<and>
    cookie_token C (cell_ops R initial) name (ss_world st') =
      fold op_effect ps (cookie_token C (cell_ops R initial) name cell) \<and>
    (\<exists>st''. session_token_hash T E st' =
      Done (Ok (map_option (se_hash E) (fold op_effect ps (cookie_token C (cell_ops R initial) name cell))), st''))"
proof -
  let ?holds = "cookie_token C (cell_ops R initial) name"
  have S: "session_store T ?holds (\<lambda>s. \<not> cj_sealed (fst (cell_get_or_init initial s))) (\<lambda>t. length t = 32) (se_lifetime E)"
    unfolding T by (rule cookie_store_contract [OF cookies_cell [OF R] C name])
  have "session_store.consistent ?holds (\<lambda>s. \<not> cj_sealed (fst (cell_get_or_init initial s))) (session_state_new cell)"
    by (rule session_store.consistent_new [OF S cell])
  from session_store.run_ops_refine [OF S refl at this ops] obtain st' where st':
    "run_ops T E ps (session_state_new cell) = Done (True, st')"
    "session_store.consistent ?holds (\<lambda>s. \<not> cj_sealed (fst (cell_get_or_init initial s))) st'"
    "?holds (ss_world st') = fold op_effect ps (?holds cell)"
    by (auto simp: session_state_new_def)
  with session_store.token_hash_runs [OF S st'(2), of E] show ?thesis by auto
qed

theorem sessions_refine_witness:
  "\<exists>st'. run_ops (cookie_token_store demo_codec
        (cell_ops list_raw_jar \<lparr>cj_jar = ([], []), cj_sealed = False\<rparr>) SESSION_COOKIE_NAME)
      \<lparr>se_hash = id, se_expires = Some (0 :: nat), se_lifetime = 5\<rparr>
      [OpStart (replicate 32 1), OpRotate (replicate 32 2), OpTokenHash] (session_state_new jar_cell_new) = Done (True, st') \<and>
    cookie_token demo_codec (cell_ops list_raw_jar \<lparr>cj_jar = ([], []), cj_sealed = False\<rparr>) SESSION_COOKIE_NAME (ss_world st') =
      Some (replicate 32 2)"
proof -
  let ?E = "\<lparr>se_hash = id, se_expires = Some (0 :: nat), se_lifetime = 5\<rparr> :: nat session_env"
  have d: "tc_duration demo_codec (se_lifetime ?E) = Ok 5" by (simp add: demo_codec_def)
  have c: "\<not> cj_sealed (fst (cell_get_or_init \<lparr>cj_jar = (([], []) :: list_jar), cj_sealed = False\<rparr> jar_cell_new))"
    by (simp add: cell_get_or_init_def jar_cell_new_def Let_def)
  have at: "se_expires ?E = Some 0" by simp
  have ops: "list_all (\<lambda>p. pred_option (\<lambda>t. length t = 32) (op_token p))
      [OpStart (replicate 32 1), OpRotate (replicate 32 2), OpTokenHash]" by simp
  from sessions_refine [OF list_raw_jar_ok demo_codec_ok d session_name_ok at ops c refl]
  show ?thesis by auto
qed

lemma raw_jar_original:
  "raw_jar_ok R originals \<Longrightarrow> rj_get R (rj_add_original R (rj_new R) c) n = (if n = ck_name c then Some c else None)"
  by (simp add: raw_jar_ok_def)

text \<open>C22. The cookie a session is written in can only be sent back over a secure connection to this
  host, is out of reach of scripts and of cross-site subrequests, and lives as long as the
  session; sent back on a later request it reads as the token.\<close>

theorem session_cookie_confined:
  assumes R: "raw_jar_ok R originals" and C: "codec_ok C" "tc_duration C age = Ok secs"
    and name: "\<not> starts_with_str name ''__Host-''" and t: "length t = 32" and s: "\<not> cj_sealed s"
  shows "\<exists>s' c. ts_write (cookie_token_store C (root_jar R) name) s t age = Done (Ok (), s') \<and>
    {d \<in> set (rj_delta R (cj_jar s')). ck_name d = ''__Host-'' @ name} = {c} \<and>
    ck_secure c = Some True \<and> ck_http_only c = Some True \<and> ck_same_site c = Some SameSiteLax \<and>
    ck_path c = Some ''/'' \<and> ck_domain c = None \<and> ck_max_age c = Some secs \<and>
    cookie_token C (root_jar R) name \<lparr>cj_jar = rj_add_original R (rj_new R) c, cj_sealed = False\<rparr> = Some t"
proof -
  define c where "c = \<lparr>ck_name = ''__Host-'' @ name, ck_value = tc_encode C t, ck_secure = Some True,
    ck_http_only = Some True, ck_same_site = Some SameSiteLax, ck_path = Some ''/'', ck_domain = None,
    ck_max_age = Some secs\<rparr>"
  have add: "jo_add (override_max_age (session_cookies (root_jar R)) secs) s (cookie_new name (tc_encode C t)) =
      Done (s\<lparr>cj_jar := rj_add R (cj_jar s) c\<rparr>)"
    using s name by (simp add: override_max_age_def session_cookies_def override_prefix_host_def override_path_def
        override_secure_def override_http_only_def override_same_site_def map_jar_def prefixed_jar_def prepare_def
        conform_def apply_name_def root_jar_def cookie_new_def c_def Let_def)
  then have w: "ts_write (cookie_token_store C (root_jar R) name) s t age = Done (Ok (), s\<lparr>cj_jar := rj_add R (cj_jar s) c\<rparr>)"
    using C(2) by (simp add: cookie_token_store_def)
  have n: "ck_name c = ''__Host-'' @ name" by (simp add: c_def)
  have delta: "{d \<in> set (rj_delta R (rj_add R (cj_jar s) c)). ck_name d = ''__Host-'' @ name} = {c}"
    using raw_jar_add(2) [OF R, of "cj_jar s" c] unfolding n by (auto simp: n)
  have "cookie_token C (root_jar R) name \<lparr>cj_jar = rj_add_original R (rj_new R) c, cj_sealed = False\<rparr> = Some t"
    using C(1) t by (simp add: cookie_token_def session_cookies_def override_prefix_host_def override_path_def
        override_secure_def override_http_only_def override_same_site_def map_jar_def prefixed_jar_def root_jar_def
        raw_jar_original [OF R] n c_def strip_name_def codec_ok_def token_decode_def split: option.splits)
  with w delta show ?thesis
    by (intro exI [of _ "s\<lparr>cj_jar := rj_add R (cj_jar s) c\<rparr>"] exI [of _ c]) (simp add: c_def)
qed

theorem session_cookie_confined_witness:
  "\<exists>s' c. ts_write (cookie_token_store demo_codec (root_jar list_raw_jar) SESSION_COOKIE_NAME)
      \<lparr>cj_jar = ([], []), cj_sealed = False\<rparr> (replicate 32 7) 60 = Done (Ok (), s') \<and> c \<in> set (rj_delta list_raw_jar (cj_jar s')) \<and>
    ck_http_only c = Some True"
proof -
  have d: "tc_duration demo_codec 60 = Ok 60" by (simp add: demo_codec_def)
  have "length (replicate 32 (7 :: byte)) = 32" "\<not> cj_sealed \<lparr>cj_jar = (([], []) :: list_jar), cj_sealed = False\<rparr>" by simp_all
  from session_cookie_confined [OF list_raw_jar_ok demo_codec_ok d session_name_ok this] show ?thesis by blast
qed

end
