(* ===== verification/Html_Escape.thy ===== *)
theory Html_Escape
  imports Http_Errors
begin

text \<open>
  Output of a view: \<^verbatim>\<open>crates/topcoat-view/src/format.rs\<close> and
  \<^verbatim>\<open>crates/topcoat-view/src/html/escape.rs\<close>.  A formatter holds the text written so far and the
  response metadata recorded on the way; a writer makes what it writes safe for its position in
  the document.  A Rust \<^verbatim>\<open>char\<close> is its code point.
\<close>

subsection \<open>The formatter\<close>

record formatter =
  fm_buf :: str
  fm_status_code :: "nat option"
  fm_headers :: header_map

definition formatter_new :: "str \<Rightarrow> formatter" where
  "formatter_new buf = \<lparr>fm_buf = buf, fm_status_code = None, fm_headers = []\<rparr>"

definition fmt_str :: "str \<Rightarrow> formatter \<Rightarrow> formatter" where
  "fmt_str s f = f\<lparr>fm_buf := fm_buf f @ s\<rparr>"

definition encode_utf8 :: "nat \<Rightarrow> str" where
  "encode_utf8 c = map char_of
     (if c < 128 then [c]
      else if c < 2048 then [192 + c div 64, 128 + c mod 64]
      else if c < 65536 then [224 + c div 4096, 128 + c div 64 mod 64, 128 + c mod 64]
      else [240 + c div 262144, 128 + c div 4096 mod 64, 128 + c div 64 mod 64, 128 + c mod 64])"

definition fmt_char :: "nat \<Rightarrow> formatter \<Rightarrow> formatter" where
  "fmt_char c f = f\<lparr>fm_buf := fm_buf f @ encode_utf8 c\<rparr>"

definition record_status_code :: "nat \<Rightarrow> formatter \<Rightarrow> formatter" where
  "record_status_code code f =
     f\<lparr>fm_status_code := (case fm_status_code f of None \<Rightarrow> Some code | Some c \<Rightarrow> Some c)\<rparr>"

fun record_names :: "header_map \<Rightarrow> str list \<Rightarrow> header_map \<Rightarrow> header_map" where
  "record_names hs [] recorded = recorded"
| "record_names hs (n # ns) recorded =
     record_names hs ns
       (if hm_get recorded n = None then foldl (\<lambda>r v. hm_append r n v) recorded (hm_get_all hs n) else recorded)"

definition record_headers :: "header_map \<Rightarrow> formatter \<Rightarrow> formatter" where
  "record_headers hs f =
     (if fm_headers f = [] then f\<lparr>fm_headers := hs\<rparr>
      else f\<lparr>fm_headers := record_names hs (hm_names hs) (fm_headers f)\<rparr>)"

subsection \<open>Contexts and escape tables\<close>

datatype html_context = CxUnescaped | CxText | CxAttributeValue | CxComment | CxAttributeKey | CxElementName

definition forbidden_in_ident :: "char \<Rightarrow> bool" where
  "forbidden_in_ident b \<longleftrightarrow> (of_char b :: nat) \<le> 32 \<or> (of_char b :: nat) = 127 \<or>
     b \<in> {CHR 0x22, CHR 0x27, CHR ''/'', CHR ''<'', CHR ''='', CHR ''>''}"

type_synonym table = "char \<Rightarrow> str option"

definition escape_table :: "(char \<times> str) list \<Rightarrow> table" where
  "escape_table escapes = foldl (\<lambda>t (b, s). t(b := Some s)) (\<lambda>_. None) escapes"

definition TEXT_ESCAPES :: table where
  "TEXT_ESCAPES = escape_table [(CHR ''&'', ''&amp;''), (CHR ''<'', ''&lt;''), (CHR ''>'', ''&gt;'')]"

definition ATTRIBUTE_VALUE_ESCAPES :: table where
  "ATTRIBUTE_VALUE_ESCAPES = escape_table [(CHR ''&'', ''&amp;''), (CHR 0x22, ''&quot;'')]"

definition COMMENT_ESCAPES :: table where
  "COMMENT_ESCAPES = escape_table [(CHR ''&'', ''&amp;''), (CHR ''>'', ''&gt;''), (CHR 0x22, ''&quot;'')]"

subsection \<open>The specialised write methods\<close>

text \<open>The run of consecutive escapable bytes from \<open>stop\<close>: what it writes and where it ends.\<close>

function escape_run :: "table \<Rightarrow> str \<Rightarrow> nat \<Rightarrow> formatter \<Rightarrow> formatter \<times> nat" where
  "escape_run table bytes stop f =
     (if stop < length bytes then
        (case table (bytes ! stop) of
           Some escape \<Rightarrow> escape_run table bytes (stop + 1) (fmt_str escape f)
         | None \<Rightarrow> (f, stop))
      else (f, stop))"
  by pat_completeness auto
termination by (relation "measure (\<lambda>(t, bytes, stop, f). length bytes - stop)") auto

declare escape_run.simps [simp del]

fun memchr :: "char list \<Rightarrow> str \<Rightarrow> nat option" where
  "memchr needles [] = None"
| "memchr needles (b # bs) = (if b \<in> set needles then Some 0 else map_option Suc (memchr needles bs))"

text \<open>The loop of the macro.  It makes progress only where the table has an entry for every byte
  searched for, so whether it returns is proved for each of the three methods.\<close>

partial_function (option) write_escaped_loop :: "char list \<Rightarrow> table \<Rightarrow> str \<Rightarrow> nat \<Rightarrow> formatter \<Rightarrow> formatter option" where
  "write_escaped_loop needles table s start f =
     (case memchr needles (drop start s) of
        None \<Rightarrow> Some (fmt_str (drop start s) f)
      | Some offset \<Rightarrow>
          (case escape_run table s (start + offset) (fmt_str (take offset (drop start s)) f) of
             (f, stop) \<Rightarrow> write_escaped_loop needles table s stop f))"

definition write_text_escaped :: "str \<Rightarrow> formatter \<Rightarrow> formatter option" where
  "write_text_escaped s = write_escaped_loop [CHR ''&'', CHR ''<'', CHR ''>''] TEXT_ESCAPES s 0"

definition write_attribute_value_escaped :: "str \<Rightarrow> formatter \<Rightarrow> formatter option" where
  "write_attribute_value_escaped s = write_escaped_loop [CHR ''&'', CHR 0x22] ATTRIBUTE_VALUE_ESCAPES s 0"

definition write_comment_escaped :: "str \<Rightarrow> formatter \<Rightarrow> formatter option" where
  "write_comment_escaped s = write_escaped_loop [CHR ''&'', CHR ''>'', CHR 0x22] COMMENT_ESCAPES s 0"

definition write_ident :: "str \<Rightarrow> formatter \<Rightarrow> formatter outcome" where
  "write_ident s f =
     (if foldl (\<lambda>invalid b. invalid \<or> forbidden_in_ident b) False s then Panic else Done (fmt_str s f))"

text \<open>\<^verbatim>\<open>HtmlWriter::write_str\<close> and \<^verbatim>\<open>write_char\<close>; none where a call does not return.\<close>

fun html_write_str :: "html_context \<Rightarrow> str \<Rightarrow> formatter \<Rightarrow> formatter outcome option" where
  "html_write_str CxUnescaped s f = Some (Done (fmt_str s f))"
| "html_write_str CxText s f = map_option Done (write_text_escaped s f)"
| "html_write_str CxAttributeValue s f = map_option Done (write_attribute_value_escaped s f)"
| "html_write_str CxComment s f = map_option Done (write_comment_escaped s f)"
| "html_write_str CxAttributeKey s f = Some (write_ident s f)"
| "html_write_str CxElementName s f = Some (write_ident s f)"

definition table_get :: "table \<Rightarrow> nat \<Rightarrow> str option" where
  "table_get table c = (if c < 256 then table (char_of c) else None)"

definition write_char_table :: "table \<Rightarrow> nat \<Rightarrow> formatter \<Rightarrow> formatter" where
  "write_char_table table c f = (case table_get table c of Some escape \<Rightarrow> fmt_str escape f | None \<Rightarrow> fmt_char c f)"

definition write_char_ident :: "nat \<Rightarrow> formatter \<Rightarrow> formatter outcome" where
  "write_char_ident c f = (if c < 256 \<and> forbidden_in_ident (char_of c) then Panic else Done (fmt_char c f))"

fun html_write_char :: "html_context \<Rightarrow> nat \<Rightarrow> formatter \<Rightarrow> formatter outcome" where
  "html_write_char CxUnescaped c f = Done (fmt_char c f)"
| "html_write_char CxText c f = Done (write_char_table TEXT_ESCAPES c f)"
| "html_write_char CxAttributeValue c f = Done (write_char_table ATTRIBUTE_VALUE_ESCAPES c f)"
| "html_write_char CxComment c f = Done (write_char_table COMMENT_ESCAPES c f)"
| "html_write_char CxAttributeKey c f = write_char_ident c f"
| "html_write_char CxElementName c f = write_char_ident c f"

subsection \<open>What the methods write\<close>

definition escape_bytes :: "table \<Rightarrow> str \<Rightarrow> str" where
  "escape_bytes table s = concat (map (\<lambda>b. case table b of Some e \<Rightarrow> e | None \<Rightarrow> [b]) s)"

definition no_escapes :: table where "no_escapes = (\<lambda>_. None)"

fun table_of :: "html_context \<Rightarrow> table" where
  "table_of CxText = TEXT_ESCAPES"
| "table_of CxAttributeValue = ATTRIBUTE_VALUE_ESCAPES"
| "table_of CxComment = COMMENT_ESCAPES"
| "table_of _ = no_escapes"

fun is_ident_context :: "html_context \<Rightarrow> bool" where
  "is_ident_context c \<longleftrightarrow> c = CxAttributeKey \<or> c = CxElementName"

text \<open>The text a value is in a context, where the context takes it.\<close>

definition escaped :: "html_context \<Rightarrow> str \<Rightarrow> str" where
  "escaped c s = escape_bytes (table_of c) s"

definition accepts :: "html_context \<Rightarrow> str \<Rightarrow> bool" where
  "accepts c s \<longleftrightarrow> is_ident_context c \<longrightarrow> list_all (\<lambda>b. \<not> forbidden_in_ident b) s"

lemma fmt_str_simps [simp]:
  "fmt_str [] f = f" "fmt_str t (fmt_str s f) = fmt_str (s @ t) f" "fm_buf (fmt_str s f) = fm_buf f @ s"
  by (simp_all add: fmt_str_def)

lemma fmt_char_eq: "fmt_char c = fmt_str (encode_utf8 c)"
  by (rule ext) (simp add: fmt_char_def fmt_str_def)

lemma escape_bytes_simps [simp]:
  "escape_bytes t [] = []" "escape_bytes t (b # s) = (case t b of Some e \<Rightarrow> e | None \<Rightarrow> [b]) @ escape_bytes t s"
  "escape_bytes t (s @ r) = escape_bytes t s @ escape_bytes t r"
  by (simp_all add: escape_bytes_def)

lemma escape_bytes_plain: "(\<And>b. b \<in> set s \<Longrightarrow> t b = None) \<Longrightarrow> escape_bytes t s = s"
  by (induction s) auto

lemma tables:
  "TEXT_ESCAPES b = (if b = CHR ''&'' then Some ''&amp;'' else if b = CHR ''<'' then Some ''&lt;''
     else if b = CHR ''>'' then Some ''&gt;'' else None)"
  "ATTRIBUTE_VALUE_ESCAPES b = (if b = CHR ''&'' then Some ''&amp;'' else if b = CHR 0x22 then Some ''&quot;'' else None)"
  "COMMENT_ESCAPES b = (if b = CHR ''&'' then Some ''&amp;'' else if b = CHR ''>'' then Some ''&gt;''
     else if b = CHR 0x22 then Some ''&quot;'' else None)"
  by (auto simp: TEXT_ESCAPES_def ATTRIBUTE_VALUE_ESCAPES_def COMMENT_ESCAPES_def escape_table_def)

lemma memchr_None: "memchr needles s = None \<longleftrightarrow> set s \<inter> set needles = {}"
  by (induction s) auto

lemma memchr_Some:
  "memchr needles s = Some n \<Longrightarrow> n < length s \<and> s ! n \<in> set needles \<and> set (take n s) \<inter> set needles = {}"
  by (induction s arbitrary: n) (auto split: if_splits)

lemma escape_run_eq:
  "escape_run t s stop f =
     (let run = takeWhile (\<lambda>b. t b \<noteq> None) (drop stop s) in (fmt_str (escape_bytes t run) f, stop + length run))"
proof (induction t s stop f rule: escape_run.induct)
  case (1 t s stop f)
  show ?case
  proof (cases "stop < length s")
    case True
    then have d: "drop stop s = s ! stop # drop (Suc stop) s" by (simp add: Cons_nth_drop_Suc)
    show ?thesis
    proof (cases "t (s ! stop)")
      case None
      then show ?thesis using True by (subst escape_run.simps) (simp add: d Let_def)
    next
      case (Some e)
      with "1.IH" [OF True Some] show ?thesis using True by (subst escape_run.simps) (simp add: d Let_def)
    qed
  next
    case False
    then show ?thesis by (subst escape_run.simps) simp
  qed
qed

lemma write_escaped_loop_eq:
  assumes t: "\<And>b. t b \<noteq> None \<longleftrightarrow> b \<in> set needles"
  shows "write_escaped_loop needles t s start f = Some (fmt_str (escape_bytes t (drop start s)) f)"
proof (induction "length s - start" arbitrary: start f rule: less_induct)
  case less
  have plain: "t b = None" if "b \<notin> set needles" for b using t [of b] that by simp
  show ?case
  proof (cases "memchr needles (drop start s)")
    case None
    then have "escape_bytes t (drop start s) = drop start s"
      by (intro escape_bytes_plain plain) (auto simp: memchr_None)
    with None show ?thesis by (simp add: write_escaped_loop.simps)
  next
    case (Some n)
    note m = memchr_Some [OF Some]
    let ?run = "takeWhile (\<lambda>b. t b \<noteq> None) (drop (start + n) s)"
    have before: "escape_bytes t (take n (drop start s)) = take n (drop start s)"
      using m by (intro escape_bytes_plain plain) auto
    from m have "n < length (drop start s)" by blast
    then have len: "start + n < length s" by (simp add: less_diff_conv add.commute)
    then have "drop start s ! n = s ! (start + n)" by (intro nth_drop) simp
    with m have "t (s ! (start + n)) \<noteq> None" using t [of "s ! (start + n)"] by metis
    moreover have "drop (start + n) s = s ! (start + n) # drop (Suc (start + n)) s"
      using len by (simp add: Cons_nth_drop_Suc)
    ultimately have "length ?run > 0" by simp
    then have "length s - (start + n + length ?run) < length s - start" using len by linarith
    note IH = less [OF this]
    have "drop start s = take n (drop start s) @ ?run @ drop (start + n + length ?run) s"
      by (metis append_take_drop_id drop_drop add.commute takeWhile_eq_take length_takeWhile_le)
    then have "escape_bytes t (drop start s) =
        take n (drop start s) @ escape_bytes t ?run @ escape_bytes t (drop (start + n + length ?run) s)"
      using before by (metis escape_bytes_simps(3))
    with Some IH show ?thesis
      by (subst write_escaped_loop.simps) (simp add: escape_run_eq Let_def)
  qed
qed

lemma html_write_str_eq:
  "html_write_str c s f = Some (if accepts c s then Done (fmt_str (escaped c s) f) else Panic)"
proof -
  have fold: "foldl (\<lambda>invalid b. invalid \<or> forbidden_in_ident b) i s \<longleftrightarrow> i \<or> \<not> list_all (\<lambda>b. \<not> forbidden_in_ident b) s" for i
    by (induction s arbitrary: i) auto
  have id: "escape_bytes no_escapes s = s" by (rule escape_bytes_plain) (simp add: no_escapes_def)
  show ?thesis
    by (cases c) (simp_all add: escaped_def accepts_def write_text_escaped_def write_attribute_value_escaped_def
        write_comment_escaped_def write_escaped_loop_eq tables write_ident_def fold id)
qed

lemma encode_utf8_ascii: "c < 128 \<Longrightarrow> encode_utf8 c = [char_of c]"
  by (simp add: encode_utf8_def)

lemma of_char_encode_utf8:
  assumes "128 \<le> c" "c < 1114112" "b \<in> set (encode_utf8 c)"
  shows "128 \<le> (of_char b :: nat)"
proof -
  have m: "(of_char (char_of n :: char) :: nat) = n mod 256" for n by simp
  have "n mod 256 = n" if "n < 256" for n :: nat using that by simp
  moreover have "c div 64 < 32" if "c < 2048" using that by (simp add: less_mult_imp_div_less)
  moreover have "c div 4096 < 16" if "c < 65536" using that by (simp add: less_mult_imp_div_less)
  moreover have "c div 262144 < 8" using assms(2) by (simp add: less_mult_imp_div_less)
  ultimately show ?thesis using assms by (auto simp: encode_utf8_def m simp del: of_char_of split: if_splits)
qed

lemma escaped_utf8:
  assumes "128 \<le> c" "c < 1114112"
  shows "escaped k (encode_utf8 c) = encode_utf8 c" "accepts k (encode_utf8 c)"
proof -
  have big: "table_of k b = None" "\<not> forbidden_in_ident b" if "b \<in> set (encode_utf8 c)" for b
  proof -
    have "128 \<le> (of_char b :: nat)" by (rule of_char_encode_utf8 [OF assms that])
    then have "b \<notin> {CHR ''&'', CHR ''<'', CHR ''>'', CHR 0x22, CHR 0x27, CHR ''/'', CHR ''=''}"
      "(of_char b :: nat) \<noteq> 127" "\<not> (of_char b :: nat) \<le> 32" by auto
    then show "table_of k b = None" "\<not> forbidden_in_ident b"
      by (cases k; simp add: tables no_escapes_def forbidden_in_ident_def)+
  qed
  then show "escaped k (encode_utf8 c) = encode_utf8 c" "accepts k (encode_utf8 c)"
    by (simp_all add: escaped_def accepts_def escape_bytes_plain list_all_iff)
qed

lemma char_of_big:
  fixes c :: nat
  assumes "128 \<le> c" "c < 256"
  shows "(char_of c :: char) \<notin> {CHR ''&'', CHR ''<'', CHR ''>'', CHR 0x22, CHR 0x27, CHR ''/'', CHR ''=''}"
proof
  assume "(char_of c :: char) \<in> {CHR ''&'', CHR ''<'', CHR ''>'', CHR 0x22, CHR 0x27, CHR ''/'', CHR ''=''}"
  then have "(of_char (char_of c :: char) :: nat) < 128" by (elim insertE) (simp_all del: of_char_of)
  with assms show False by simp
qed

lemma table_get_big: "128 \<le> c \<Longrightarrow> table_get (table_of k) c = None"
proof -
  assume "128 \<le> c"
  then have "(char_of c :: char) \<notin> {CHR ''&'', CHR ''<'', CHR ''>'', CHR 0x22}" if "c < 256"
    using char_of_big [of c] that by blast
  then show ?thesis by (cases k) (auto simp: table_get_def tables no_escapes_def)
qed

text \<open>Writing a character is writing its encoding.\<close>

lemma html_write_char_eq:
  assumes "c < 1114112"
  shows "html_write_char k c f =
    (if accepts k (encode_utf8 c) then Done (fmt_str (escaped k (encode_utf8 c)) f) else Panic)"
proof (cases "c < 128")
  case True
  from True show ?thesis
    by (cases k) (simp_all add: write_char_table_def write_char_ident_def table_get_def fmt_char_eq encode_utf8_ascii
        escaped_def accepts_def no_escapes_def split: option.splits)
next
  case False
  have ident: "\<not> forbidden_in_ident (char_of c)" if "c < 256"
    using that False char_of_big [of c] by (auto simp: forbidden_in_ident_def)
  from False assms escaped_utf8 [of c k] table_get_big [of c k] ident show ?thesis
    by (cases k) (auto simp: write_char_table_def write_char_ident_def fmt_char_eq)
qed

subsection \<open>Reading the output back\<close>

text \<open>The character references a browser decodes in text and attribute values, as far as the
  tables write them.\<close>

definition reference_chars :: "(str \<times> char) list" where
  "reference_chars = [(''&amp;'', CHR ''&''), (''&lt;'', CHR ''<''), (''&gt;'', CHR ''>''), (''&quot;'', CHR 0x22)]"

fun leading_reference :: "(str \<times> char) list \<Rightarrow> str \<Rightarrow> (char \<times> str) option" where
  "leading_reference [] s = None"
| "leading_reference ((name, c) # rs) s =
     (case strip_prefix name s of Some rest \<Rightarrow> Some (c, rest) | None \<Rightarrow> leading_reference rs s)"

lemma leading_reference_shorter:
  "leading_reference rs s = Some (c, rest) \<Longrightarrow> list_all (\<lambda>(name, _). name \<noteq> []) rs \<Longrightarrow> length rest < length s"
proof (induction rs s rule: leading_reference.induct)
  case (2 name d rs s)
  then show ?case by (auto split: option.splits simp: strip_prefix_Some_iff)
qed simp

lemma leading_reference_char_shorter:
  "leading_reference reference_chars s = Some (c, rest) \<Longrightarrow> length rest < length s"
  by (erule leading_reference_shorter) (simp add: reference_chars_def)

function decode_references :: "str \<Rightarrow> str" where
  "decode_references [] = []"
| "decode_references (b # s) =
     (case leading_reference reference_chars (b # s) of
        Some (c, rest) \<Rightarrow> c # decode_references rest
      | None \<Rightarrow> b # decode_references s)"
  by pat_completeness auto
termination
  by (relation "measure length") (auto dest: leading_reference_char_shorter)

declare decode_references.simps [simp del]

lemma decode_plain:
  assumes "b \<noteq> CHR ''&''"
  shows "decode_references (b # s) = b # decode_references s"
  using assms by (simp add: decode_references.simps reference_chars_def)

lemma decode_reference:
  assumes "(name, c) \<in> set reference_chars"
  shows "decode_references (name @ s) = c # decode_references s"
  using assms by (auto simp: reference_chars_def decode_references.simps)

lemma decode_escaped:
  assumes "c \<in> {CxText, CxAttributeValue, CxComment}"
  shows "decode_references (escaped c s) = s"
proof (induction s)
  case Nil
  show ?case by (simp add: escaped_def decode_references.simps)
next
  case (Cons b s)
  show ?case
  proof (cases "table_of c b")
    case None
    with assms have "b \<noteq> CHR ''&''" by (auto simp: tables split: if_splits)
    with None Cons.IH show ?thesis by (simp add: escaped_def decode_plain)
  next
    case (Some e)
    with assms have "(e, b) \<in> set reference_chars"
      by (auto simp: tables reference_chars_def split: if_splits)
    with decode_reference [of e b "escape_bytes (table_of c) s"] Some Cons.IH show ?thesis
      by (simp add: escaped_def)
  qed
qed

lemma set_escape_bytes:
  "b \<in> set (escape_bytes t s) \<Longrightarrow> (\<exists>a e. t a = Some e \<and> b \<in> set e) \<or> (t b = None \<and> b \<in> set s)"
  by (induction s) (auto split: option.splits)

lemma escaped_chars:
  "b \<in> set (escaped CxText s) \<Longrightarrow> b \<notin> {CHR ''<'', CHR ''>''}"
  "b \<in> set (escaped CxAttributeValue s) \<Longrightarrow> b \<noteq> CHR 0x22"
  "b \<in> set (escaped CxComment s) \<Longrightarrow> b \<notin> {CHR ''>'', CHR 0x22}"
  unfolding escaped_def by (auto dest!: set_escape_bytes simp: tables split: if_splits)

text \<open>C24. Writing a string in any context always returns.  It panics exactly in the name contexts
  for a string with a character that could end the name, and otherwise appends the string with
  each byte replaced by its escape, the run-skipping search notwithstanding; writing a
  character is writing its UTF-8 encoding.\<close>

theorem html_writer_escapes:
  "html_write_str c s f = Some (if accepts c s then Done (fmt_str (escaped c s) f) else Panic) \<and>
   (ch < 1114112 \<longrightarrow> html_write_str c (encode_utf8 ch) f = Some (html_write_char c ch f))"
  by (simp add: html_write_str_eq html_write_char_eq)

theorem html_writer_escapes_witness:
  "html_write_str CxText (encode_utf8 8364) (formatter_new []) = Some (html_write_char CxText 8364 (formatter_new []))"
  using html_writer_escapes [of CxText "[]" "formatter_new []" 8364] by simp

end
