(* ===== verification/Html_Tokenizer.thy ===== *)
theory Html_Tokenizer
  imports Html_Escape
begin

text \<open>
  The reader of a view's output: the tokenizer of the HTML standard, state by state, as far as it
  reads tags, attributes, text, comments and declarations of ordinary content.  It is the specification
  the escaping of \<open>Html_Escape\<close> is measured by and models no code.  A character reference is
  decoded after its token has been read, since what it stands for is never read as markup; the states of
  raw text elements, which the tree construction turns on, are left out.
\<close>

subsection \<open>Tokens and states\<close>

datatype html_token =
    StartTag str "(str \<times> str) list" bool
  | EndTag str
  | TextChar char
  | CommentToken str
  | DoctypeToken

record html_tag =
  tg_end :: bool
  tg_name :: str
  tg_attrs :: "(str \<times> str) list"

datatype html_state =
    DataState
  | TagOpen
  | EndTagOpen
  | TagName html_tag
  | BeforeAttrName html_tag
  | AttrName html_tag str
  | AfterAttrName html_tag str
  | BeforeAttrValue html_tag str
  | AttrValueQuoted char html_tag str str
  | AttrValueUnquoted html_tag str str
  | AfterAttrValue html_tag
  | SelfClosing html_tag
  | MarkupDeclaration str
  | BogusComment str
  | InDoctype
  | CommentStart
  | CommentStartDash
  | InComment str
  | CommentLt str
  | CommentLtBang str
  | CommentLtBangDash str
  | CommentLtBangDashDash str
  | CommentEndDash str
  | CommentEnd str
  | CommentEndBang str

text \<open>White space, after line breaks have been normalised; the null character stands for the
  replacement character in names, values and comments.\<close>

definition html_space :: "char \<Rightarrow> bool" where
  "html_space c \<longleftrightarrow> c \<in> {CHR 0x09, CHR 0x0A, CHR 0x0C, CHR '' ''}"

definition no_nul :: "char \<Rightarrow> str" where
  "no_nul c = (if c = CHR 0x00 then [CHR 0xEF, CHR 0xBF, CHR 0xBD] else [c])"

definition replace_nul :: "str \<Rightarrow> str" where
  "replace_nul s = concat (map no_nul s)"

text \<open>Of attributes with the same name the first one counts; an end tag has none.\<close>

fun keep_firsts :: "str set \<Rightarrow> (str \<times> str) list \<Rightarrow> (str \<times> str) list" where
  "keep_firsts seen [] = []"
| "keep_firsts seen ((k, v) # rest) =
     (if k \<in> seen then keep_firsts seen rest else (k, v) # keep_firsts (insert k seen) rest)"

definition emit_tag :: "html_tag \<Rightarrow> bool \<Rightarrow> html_token list" where
  "emit_tag t self =
     [if tg_end t then EndTag (tg_name t) else StartTag (tg_name t) (keep_firsts {} (tg_attrs t)) self]"

definition add_attr :: "html_tag \<Rightarrow> str \<Rightarrow> str \<Rightarrow> html_tag" where
  "add_attr t n v = t\<lparr>tg_attrs := tg_attrs t @ [(n, v)]\<rparr>"

subsection \<open>The states of tags\<close>

type_synonym html_next = "html_token list \<times> html_state"

definition data_step :: "char \<Rightarrow> html_next" where
  "data_step c = (if c = CHR ''<'' then ([], TagOpen) else ([TextChar c], DataState))"

definition bogus_step :: "str \<Rightarrow> char \<Rightarrow> html_next" where
  "bogus_step d c = (if c = CHR ''>'' then ([CommentToken d], DataState) else ([], BogusComment (d @ no_nul c)))"

definition tag_name_step :: "html_tag \<Rightarrow> char \<Rightarrow> html_next" where
  "tag_name_step t c =
     (if html_space c then ([], BeforeAttrName t)
      else if c = CHR ''/'' then ([], SelfClosing t)
      else if c = CHR ''>'' then (emit_tag t False, DataState)
      else ([], TagName (t\<lparr>tg_name := tg_name t @ map to_lower (no_nul c)\<rparr>)))"

definition tag_open_step :: "char \<Rightarrow> html_next" where
  "tag_open_step c =
     (if c = CHR ''!'' then ([], MarkupDeclaration [])
      else if c = CHR ''/'' then ([], EndTagOpen)
      else if is_ascii_alphabetic c then tag_name_step \<lparr>tg_end = False, tg_name = [], tg_attrs = []\<rparr> c
      else if c = CHR ''?'' then bogus_step [] c
      else (let (ts, st) = data_step c in (TextChar CHR ''<'' # ts, st)))"

definition end_tag_open_step :: "char \<Rightarrow> html_next" where
  "end_tag_open_step c =
     (if is_ascii_alphabetic c then tag_name_step \<lparr>tg_end = True, tg_name = [], tg_attrs = []\<rparr> c
      else if c = CHR ''>'' then ([], DataState)
      else bogus_step [] c)"

definition attr_name_step :: "html_tag \<Rightarrow> str \<Rightarrow> char \<Rightarrow> html_next" where
  "attr_name_step t n c =
     (if html_space c then ([], AfterAttrName t n)
      else if c = CHR ''/'' then ([], SelfClosing (add_attr t n []))
      else if c = CHR ''>'' then (emit_tag (add_attr t n []) False, DataState)
      else if c = CHR ''='' then ([], BeforeAttrValue t n)
      else ([], AttrName t (n @ map to_lower (no_nul c))))"

definition before_attr_name_step :: "html_tag \<Rightarrow> char \<Rightarrow> html_next" where
  "before_attr_name_step t c =
     (if html_space c then ([], BeforeAttrName t)
      else if c = CHR ''/'' then ([], SelfClosing t)
      else if c = CHR ''>'' then (emit_tag t False, DataState)
      else if c = CHR ''='' then ([], AttrName t [c])
      else attr_name_step t [] c)"

definition after_attr_name_step :: "html_tag \<Rightarrow> str \<Rightarrow> char \<Rightarrow> html_next" where
  "after_attr_name_step t n c =
     (if html_space c then ([], AfterAttrName t n)
      else if c = CHR ''/'' then ([], SelfClosing (add_attr t n []))
      else if c = CHR ''>'' then (emit_tag (add_attr t n []) False, DataState)
      else if c = CHR ''='' then ([], BeforeAttrValue t n)
      else attr_name_step (add_attr t n []) [] c)"

definition unquoted_step :: "html_tag \<Rightarrow> str \<Rightarrow> str \<Rightarrow> char \<Rightarrow> html_next" where
  "unquoted_step t n v c =
     (if html_space c then ([], BeforeAttrName (add_attr t n v))
      else if c = CHR ''>'' then (emit_tag (add_attr t n v) False, DataState)
      else ([], AttrValueUnquoted t n (v @ no_nul c)))"

definition before_attr_value_step :: "html_tag \<Rightarrow> str \<Rightarrow> char \<Rightarrow> html_next" where
  "before_attr_value_step t n c =
     (if html_space c then ([], BeforeAttrValue t n)
      else if c = CHR 0x22 \<or> c = CHR 0x27 then ([], AttrValueQuoted c t n [])
      else if c = CHR ''>'' then (emit_tag (add_attr t n []) False, DataState)
      else unquoted_step t n [] c)"

definition quoted_step :: "char \<Rightarrow> html_tag \<Rightarrow> str \<Rightarrow> str \<Rightarrow> char \<Rightarrow> html_next" where
  "quoted_step q t n v c =
     (if c = q then ([], AfterAttrValue (add_attr t n v)) else ([], AttrValueQuoted q t n (v @ no_nul c)))"

definition after_attr_value_step :: "html_tag \<Rightarrow> char \<Rightarrow> html_next" where
  "after_attr_value_step t c =
     (if html_space c then ([], BeforeAttrName t)
      else if c = CHR ''/'' then ([], SelfClosing t)
      else if c = CHR ''>'' then (emit_tag t False, DataState)
      else before_attr_name_step t c)"

definition self_closing_step :: "html_tag \<Rightarrow> char \<Rightarrow> html_next" where
  "self_closing_step t c = (if c = CHR ''>'' then (emit_tag t True, DataState) else before_attr_name_step t c)"

subsection \<open>The states of declarations and comments\<close>

text \<open>The lookahead for two dashes or the word \<^verbatim>\<open>doctype\<close>; no identifier of a doctype holds a
  greater-than sign, so the first one ends it.\<close>

definition markup_declaration_step :: "str \<Rightarrow> char \<Rightarrow> html_next" where
  "markup_declaration_step look c =
     (let s = look @ [c]
      in if s = ''--'' then ([], CommentStart)
         else if map to_lower s = ''doctype'' then ([], InDoctype)
         else if s = ''-'' \<or> starts_with_str ''doctype'' (map to_lower s) then ([], MarkupDeclaration s)
         else bogus_step look c)"

definition doctype_step :: "char \<Rightarrow> html_next" where
  "doctype_step c = (if c = CHR ''>'' then ([DoctypeToken], DataState) else ([], InDoctype))"

definition comment_step :: "str \<Rightarrow> char \<Rightarrow> html_next" where
  "comment_step d c =
     (if c = CHR ''<'' then ([], CommentLt (d @ [c]))
      else if c = CHR ''-'' then ([], CommentEndDash d)
      else ([], InComment (d @ no_nul c)))"

definition comment_start_step :: "char \<Rightarrow> html_next" where
  "comment_start_step c =
     (if c = CHR ''-'' then ([], CommentStartDash)
      else if c = CHR ''>'' then ([CommentToken []], DataState)
      else comment_step [] c)"

definition comment_start_dash_step :: "char \<Rightarrow> html_next" where
  "comment_start_dash_step c =
     (if c = CHR ''-'' then ([], CommentEnd [])
      else if c = CHR ''>'' then ([CommentToken []], DataState)
      else comment_step ''-'' c)"

definition comment_lt_step :: "str \<Rightarrow> char \<Rightarrow> html_next" where
  "comment_lt_step d c =
     (if c = CHR ''!'' then ([], CommentLtBang (d @ [c]))
      else if c = CHR ''<'' then ([], CommentLt (d @ [c]))
      else comment_step d c)"

definition comment_lt_bang_step :: "str \<Rightarrow> char \<Rightarrow> html_next" where
  "comment_lt_bang_step d c = (if c = CHR ''-'' then ([], CommentLtBangDash d) else comment_step d c)"

definition comment_end_dash_step :: "str \<Rightarrow> char \<Rightarrow> html_next" where
  "comment_end_dash_step d c = (if c = CHR ''-'' then ([], CommentEnd d) else comment_step (d @ ''-'') c)"

definition comment_lt_bang_dash_step :: "str \<Rightarrow> char \<Rightarrow> html_next" where
  "comment_lt_bang_dash_step d c =
     (if c = CHR ''-'' then ([], CommentLtBangDashDash d) else comment_end_dash_step d c)"

definition comment_end_step :: "str \<Rightarrow> char \<Rightarrow> html_next" where
  "comment_end_step d c =
     (if c = CHR ''>'' then ([CommentToken d], DataState)
      else if c = CHR ''!'' then ([], CommentEndBang d)
      else if c = CHR ''-'' then ([], CommentEnd (d @ ''-''))
      else comment_step (d @ ''--'') c)"

definition comment_end_bang_step :: "str \<Rightarrow> char \<Rightarrow> html_next" where
  "comment_end_bang_step d c =
     (if c = CHR ''-'' then ([], CommentEndDash (d @ ''--!''))
      else if c = CHR ''>'' then ([CommentToken d], DataState)
      else comment_step (d @ ''--!'') c)"

subsection \<open>Reading a document\<close>

fun html_step :: "html_state \<Rightarrow> char \<Rightarrow> html_next" where
  "html_step DataState c = data_step c"
| "html_step TagOpen c = tag_open_step c"
| "html_step EndTagOpen c = end_tag_open_step c"
| "html_step (TagName t) c = tag_name_step t c"
| "html_step (BeforeAttrName t) c = before_attr_name_step t c"
| "html_step (AttrName t n) c = attr_name_step t n c"
| "html_step (AfterAttrName t n) c = after_attr_name_step t n c"
| "html_step (BeforeAttrValue t n) c = before_attr_value_step t n c"
| "html_step (AttrValueQuoted q t n v) c = quoted_step q t n v c"
| "html_step (AttrValueUnquoted t n v) c = unquoted_step t n v c"
| "html_step (AfterAttrValue t) c = after_attr_value_step t c"
| "html_step (SelfClosing t) c = self_closing_step t c"
| "html_step (MarkupDeclaration look) c = markup_declaration_step look c"
| "html_step (BogusComment d) c = bogus_step d c"
| "html_step InDoctype c = doctype_step c"
| "html_step CommentStart c = comment_start_step c"
| "html_step CommentStartDash c = comment_start_dash_step c"
| "html_step (InComment d) c = comment_step d c"
| "html_step (CommentLt d) c = comment_lt_step d c"
| "html_step (CommentLtBang d) c = comment_lt_bang_step d c"
| "html_step (CommentLtBangDash d) c = comment_lt_bang_dash_step d c"
| "html_step (CommentLtBangDashDash d) c = comment_end_step d c"
| "html_step (CommentEndDash d) c = comment_end_dash_step d c"
| "html_step (CommentEnd d) c = comment_end_step d c"
| "html_step (CommentEndBang d) c = comment_end_bang_step d c"

text \<open>What the end of the document makes of the state: an open comment is emitted, an open tag is not.\<close>

fun html_eof :: "html_state \<Rightarrow> html_token list" where
  "html_eof TagOpen = [TextChar CHR ''<'']"
| "html_eof EndTagOpen = [TextChar CHR ''<'', TextChar CHR ''/'']"
| "html_eof (MarkupDeclaration look) = [CommentToken look]"
| "html_eof (BogusComment d) = [CommentToken d]"
| "html_eof InDoctype = [DoctypeToken]"
| "html_eof CommentStart = [CommentToken []]"
| "html_eof CommentStartDash = [CommentToken []]"
| "html_eof (InComment d) = [CommentToken d]"
| "html_eof (CommentLt d) = [CommentToken d]"
| "html_eof (CommentLtBang d) = [CommentToken d]"
| "html_eof (CommentLtBangDash d) = [CommentToken d]"
| "html_eof (CommentLtBangDashDash d) = [CommentToken d]"
| "html_eof (CommentEndDash d) = [CommentToken d]"
| "html_eof (CommentEnd d) = [CommentToken d]"
| "html_eof (CommentEndBang d) = [CommentToken d]"
| "html_eof _ = []"

fun html_read :: "html_state \<Rightarrow> str \<Rightarrow> html_token list" where
  "html_read st [] = html_eof st"
| "html_read st (c # s) = (let (ts, st) = html_step st c in ts @ html_read st s)"

definition html_tokens :: "str \<Rightarrow> html_token list" where
  "html_tokens s = html_read DataState (normalize_newlines s)"

subsection \<open>Reading pieces\<close>

definition reads :: "html_state \<Rightarrow> str \<Rightarrow> html_token list \<Rightarrow> html_state \<Rightarrow> bool" where
  "reads st x ts st' \<longleftrightarrow> (\<forall>rest. html_read st (x @ rest) = ts @ html_read st' rest)"

lemma reads_Nil [simp]: "reads st [] [] st"
  by (simp add: reads_def)

lemma reads_step: "html_step st c = (ts, st1) \<Longrightarrow> reads st1 x us st' \<Longrightarrow> reads st (c # x) (ts @ us) st'"
  by (simp add: reads_def)

lemma reads_quiet: "html_step st c = ([], st1) \<Longrightarrow> reads st1 x us st' \<Longrightarrow> reads st (c # x) us st'"
  by (simp add: reads_def)

lemma reads_char: "html_step st c = (ts, st1) \<Longrightarrow> reads st [c] ts st1"
  by (simp add: reads_def)

lemma reads_append: "reads st x ts st1 \<Longrightarrow> reads st1 y us st2 \<Longrightarrow> reads st (x @ y) (ts @ us) st2"
  by (simp add: reads_def)

lemma name_chars:
  assumes "\<not> forbidden_in_ident c"
  shows "\<not> html_space c" "c \<noteq> CHR ''/''" "c \<noteq> CHR ''>''" "c \<noteq> CHR ''=''" "no_nul c = [c]"
    "c \<noteq> CHR 0x0A" "c \<noteq> CHR 0x0D"
proof -
  have "(of_char c :: nat) > 32" "c \<notin> {CHR ''/'', CHR ''>'', CHR ''=''}"
    using assms by (simp_all add: forbidden_in_ident_def)
  then show "\<not> html_space c" "c \<noteq> CHR ''/''" "c \<noteq> CHR ''>''" "c \<noteq> CHR ''=''" "no_nul c = [c]"
    "c \<noteq> CHR 0x0A" "c \<noteq> CHR 0x0D"
    by (auto simp: html_space_def no_nul_def)
qed

abbreviation plain_ident :: "str \<Rightarrow> bool" where "plain_ident n \<equiv> list_all (\<lambda>c. \<not> forbidden_in_ident c) n"

lemma reads_tag_name:
  "plain_ident n \<Longrightarrow> reads (TagName t) n [] (TagName (t\<lparr>tg_name := tg_name t @ map to_lower n\<rparr>))"
proof (induction n arbitrary: t)
  case (Cons c n)
  have "html_step (TagName t) c = ([], TagName (t\<lparr>tg_name := tg_name t @ [to_lower c]\<rparr>))"
    using Cons.prems by (simp add: tag_name_step_def name_chars)
  from reads_quiet [OF this Cons.IH] Cons.prems show ?case by simp
qed simp

lemma reads_attr_name: "plain_ident k \<Longrightarrow> reads (AttrName t n) k [] (AttrName t (n @ map to_lower k))"
proof (induction k arbitrary: n)
  case (Cons c k)
  have "html_step (AttrName t n) c = ([], AttrName t (n @ [to_lower c]))"
    using Cons.prems by (simp add: attr_name_step_def name_chars)
  from reads_quiet [OF this Cons.IH] Cons.prems show ?case by simp
qed simp

lemma reads_quoted: "q \<notin> set v \<Longrightarrow> reads (AttrValueQuoted q t n w) v [] (AttrValueQuoted q t n (w @ replace_nul v))"
proof (induction v arbitrary: w)
  case (Cons c v)
  have "html_step (AttrValueQuoted q t n w) c = ([], AttrValueQuoted q t n (w @ no_nul c))"
    using Cons.prems by (auto simp: quoted_step_def)
  from reads_quiet [OF this Cons.IH] Cons.prems show ?case by (simp add: replace_nul_def)
qed (simp add: replace_nul_def)

lemma reads_text: "CHR ''<'' \<notin> set x \<Longrightarrow> reads DataState x (map TextChar x) DataState"
proof (induction x)
  case (Cons c x)
  have "html_step DataState c = ([TextChar c], DataState)" using Cons.prems by (auto simp: data_step_def)
  from reads_step [OF this Cons.IH] Cons.prems show ?case by simp
qed simp

text \<open>The start of a tag, and an attribute after a space.\<close>

lemma reads_open:
  assumes "plain_ident n" "n \<noteq> []" "is_ascii_alphabetic (hd n)"
  shows "reads DataState (CHR ''<'' # n) [] (TagName \<lparr>tg_end = False, tg_name = map to_lower n, tg_attrs = []\<rparr>)"
    and "reads DataState (CHR ''<'' # CHR ''/'' # n) [] (TagName \<lparr>tg_end = True, tg_name = map to_lower n, tg_attrs = []\<rparr>)"
proof -
  obtain a m where n: "n = a # m" using assms(2) by (cases n) auto
  have a: "is_ascii_alphabetic a" "\<not> forbidden_in_ident a" "plain_ident m" using assms n by simp_all
  have "a \<noteq> CHR ''!''" "a \<noteq> CHR ''/''" using a(1) by (auto simp: is_ascii_alphabetic_def)
  then have "html_step TagOpen a = ([], TagName \<lparr>tg_end = False, tg_name = [to_lower a], tg_attrs = []\<rparr>)"
    "html_step EndTagOpen a = ([], TagName \<lparr>tg_end = True, tg_name = [to_lower a], tg_attrs = []\<rparr>)"
    using a by (simp_all add: tag_open_step_def end_tag_open_step_def tag_name_step_def name_chars)
  note name = this [THEN reads_quiet, OF reads_tag_name [OF a(3)]]
  have lt: "html_step DataState CHR ''<'' = ([], TagOpen)" "html_step TagOpen CHR ''/'' = ([], EndTagOpen)"
    by (simp_all add: data_step_def tag_open_step_def)
  show "reads DataState (CHR ''<'' # n) [] (TagName \<lparr>tg_end = False, tg_name = map to_lower n, tg_attrs = []\<rparr>)"
    using reads_quiet [OF lt(1) name(1)] by (simp add: n)
  show "reads DataState (CHR ''<'' # CHR ''/'' # n) [] (TagName \<lparr>tg_end = True, tg_name = map to_lower n, tg_attrs = []\<rparr>)"
    using reads_quiet [OF lt(1) reads_quiet [OF lt(2) name(2)]] by (simp add: n)
qed

text \<open>The states in which a tag is done with its name or an attribute.\<close>

definition between :: "html_tag \<Rightarrow> html_state \<Rightarrow> bool" where
  "between t st \<longleftrightarrow> st = TagName t \<or> st = AfterAttrValue t"

lemma reads_close: "between t st \<Longrightarrow> reads st ''>'' (emit_tag t False) DataState"
  by (intro reads_char) (auto simp: between_def tag_name_step_def after_attr_value_step_def html_space_def)

definition attr_text :: "str \<Rightarrow> str \<Rightarrow> str" where
  "attr_text k v = '' '' @ k @ [CHR ''='', CHR 0x22] @ v @ [CHR 0x22]"

lemma reads_attr:
  assumes "between t st" "plain_ident k" "k \<noteq> []" "CHR 0x22 \<notin> set v"
  shows "reads st (attr_text k v) [] (AfterAttrValue (add_attr t (map to_lower k) (replace_nul v)))"
proof -
  obtain c m where k: "k = c # m" using assms(3) by (cases k) auto
  have space: "html_step st CHR '' '' = ([], BeforeAttrName t)"
    using assms(1) by (auto simp: between_def tag_name_step_def after_attr_value_step_def html_space_def)
  have first: "html_step (BeforeAttrName t) c = ([], AttrName t [to_lower c])"
    using assms(2) k by (simp add: before_attr_name_step_def attr_name_step_def name_chars)
  have name: "reads (BeforeAttrName t) k [] (AttrName t (map to_lower k))"
    using reads_quiet [OF first reads_attr_name [of m t "[to_lower c]"]] assms(2) k by simp
  have eq: "html_step (AttrName t n) CHR ''='' = ([], BeforeAttrValue t n)"
    "html_step (BeforeAttrValue t n) CHR 0x22 = ([], AttrValueQuoted CHR 0x22 t n [])"
    "html_step (AttrValueQuoted CHR 0x22 t n w) CHR 0x22 = ([], AfterAttrValue (add_attr t n w))" for n w
    by (simp_all add: attr_name_step_def before_attr_value_step_def quoted_step_def html_space_def)
  let ?n = "map to_lower k"
  have "reads (AttrName t ?n) (CHR ''='' # CHR 0x22 # v @ [CHR 0x22]) [] (AfterAttrValue (add_attr t ?n (replace_nul v)))"
    using reads_append [OF reads_quoted [OF assms(4), of t ?n "[]"] reads_char [OF eq(3)]]
    by (intro reads_quiet [OF eq(1)] reads_quiet [OF eq(2)]) simp
  from reads_quiet [OF space reads_append [OF name this]] show ?thesis by (simp add: attr_text_def)
qed

lemma reads_attrs:
  assumes "between t st" "\<forall>(k, v) \<in> set kvs. plain_ident k \<and> k \<noteq> [] \<and> CHR 0x22 \<notin> set v"
  obtains st' where "reads st (concat (map (\<lambda>(k, v). attr_text k v) kvs)) [] st'"
    "between (t\<lparr>tg_attrs := tg_attrs t @ map (\<lambda>(k, v). (map to_lower k, replace_nul v)) kvs\<rparr>) st'"
  using assms
proof (induction kvs arbitrary: t st thesis)
  case (Cons kv kvs)
  obtain k v where kv: "kv = (k, v)" by force
  let ?t = "add_attr t (map to_lower k) (replace_nul v)"
  have a: "reads st (attr_text k v) [] (AfterAttrValue ?t)" using Cons.prems kv by (intro reads_attr) auto
  obtain st' where "reads (AfterAttrValue ?t) (concat (map (\<lambda>(k, v). attr_text k v) kvs)) [] st'"
    "between (?t\<lparr>tg_attrs := tg_attrs ?t @ map (\<lambda>(k, v). (map to_lower k, replace_nul v)) kvs\<rparr>) st'"
    by (rule Cons.IH [of "AfterAttrValue ?t" ?t]) (use Cons.prems(3) in \<open>auto simp: between_def\<close>)
  with reads_append [OF a] show ?case by (intro Cons.prems(1)) (auto simp: kv add_attr_def)
next
  case Nil
  show ?case by (rule Nil(1) [of st]) (use Nil in simp_all)
qed

subsection \<open>Reading comments\<close>

text \<open>What a state of a comment has read of it, dashes it may yet turn out to end with included.\<close>

fun comment_data :: "html_state \<Rightarrow> str option" where
  "comment_data CommentStart = Some []"
| "comment_data CommentStartDash = Some ''-''"
| "comment_data (InComment d) = Some d"
| "comment_data (CommentLt d) = Some d"
| "comment_data (CommentLtBang d) = Some d"
| "comment_data (CommentLtBangDash d) = Some (d @ ''-'')"
| "comment_data (CommentLtBangDashDash d) = Some (d @ ''--'')"
| "comment_data (CommentEndDash d) = Some (d @ ''-'')"
| "comment_data (CommentEnd d) = Some (d @ ''--'')"
| "comment_data (CommentEndBang d) = Some (d @ ''--!'')"
| "comment_data _ = None"

lemmas comment_steps = comment_step_def comment_start_step_def comment_start_dash_step_def comment_lt_step_def
  comment_lt_bang_step_def comment_lt_bang_dash_step_def comment_end_dash_step_def comment_end_step_def
  comment_end_bang_step_def

lemma comment_char:
  assumes "comment_data st = Some d" "c \<noteq> CHR ''>''"
  obtains st' where "html_step st c = ([], st')" "comment_data st' = Some (d @ no_nul c)"
proof -
  have "no_nul CHR ''<'' = ''<''" "no_nul CHR ''-'' = ''-''" "no_nul CHR ''!'' = ''!''" by (simp_all add: no_nul_def)
  then have "\<exists>st'. html_step st c = ([], st') \<and> comment_data st' = Some (d @ no_nul c)"
    using assms by (cases st) (auto simp: comment_steps)
  then show ?thesis using that by blast
qed

lemma comment_chars:
  assumes "comment_data st = Some d" "CHR ''>'' \<notin> set s"
  obtains st' where "reads st s [] st'" "comment_data st' = Some (d @ replace_nul s)"
  using assms
proof (induction s arbitrary: st d thesis)
  case (Cons c s)
  obtain st1 where st1: "html_step st c = ([], st1)" "comment_data st1 = Some (d @ no_nul c)"
    using comment_char [of st d c] Cons.prems by auto
  obtain st' where "reads st1 s [] st'" "comment_data st' = Some ((d @ no_nul c) @ replace_nul s)"
    using Cons.IH [OF _ st1(2)] Cons.prems by auto
  with reads_quiet [OF st1(1)] Cons.prems(1) [of st'] show ?case by (simp add: replace_nul_def)
next
  case Nil
  show ?case by (rule Nil(1) [of st]) (use Nil in \<open>simp_all add: replace_nul_def\<close>)
qed

text \<open>After two dashes a greater-than sign ends the comment, whatever state the dashes were read in.\<close>

lemma comment_closes:
  assumes "comment_data st = Some d"
  shows "reads st ''-->'' [CommentToken d] DataState"
proof -
  obtain st1 where st1: "html_step st CHR ''-'' = ([], st1)" "st1 \<in> {CommentStartDash} \<union> range CommentEndDash \<union>
      range CommentLtBangDash \<union> range CommentLtBangDashDash \<union> range CommentEnd" "comment_data st1 = Some (d @ ''-'')"
    using assms by (cases st) (auto simp: comment_steps)
  then obtain e st2 where st2: "html_step st1 CHR ''-'' = ([], st2)" "st2 = CommentEnd e \<or> st2 = CommentLtBangDashDash e"
    "comment_data st2 = Some (d @ ''--'')"
    by (auto simp: comment_steps)
  then have "html_step st2 CHR ''>'' = ([CommentToken d], DataState)" by (auto simp: comment_steps)
  from reads_quiet [OF st1(1) reads_quiet [OF st2(1) reads_char [OF this]]] show ?thesis .
qed

lemma reads_comment:
  assumes "CHR ''>'' \<notin> set s"
  shows "reads DataState (''<!--'' @ s @ ''-->'') [CommentToken (replace_nul s)] DataState"
proof -
  have start: "reads DataState ''<!--'' [] CommentStart"
    by (rule reads_quiet, simp add: data_step_def, rule reads_quiet, simp add: tag_open_step_def,
        rule reads_quiet, simp add: markup_declaration_step_def, rule reads_char)
      (simp add: markup_declaration_step_def)
  obtain st where st: "reads CommentStart s [] st" "comment_data st = Some (replace_nul s)"
    using comment_chars [of CommentStart "[]" s] assms by auto
  from reads_append [OF start reads_append [OF st(1) comment_closes [OF st(2)]]] show ?thesis by simp
qed

subsection \<open>Line breaks and null characters in escaped text\<close>

definition clean :: "str \<Rightarrow> bool" where
  "clean s \<longleftrightarrow> list_all (\<lambda>c. c \<noteq> CHR 0x0A \<and> c \<noteq> CHR 0x0D) s"

lemma newlines_clean: "clean x \<Longrightarrow> x \<noteq> [] \<Longrightarrow> newlines_after cr (x @ s) = x @ newlines_after False s"
proof (induction x arbitrary: cr)
  case (Cons c x)
  then show ?case by (cases "x = []") (auto simp: clean_def)
qed simp

lemma newlines_clean': "clean x \<Longrightarrow> newlines_after False (x @ s) = x @ newlines_after False s"
  using newlines_clean [of x False s] by (cases "x = []") simp_all

lemma newlines_before: "c \<noteq> CHR 0x0A \<Longrightarrow> newlines_after cr (v @ c # s) = newlines_after cr v @ newlines_after False (c # s)"
  by (induction v arbitrary: cr) auto

text \<open>The contexts whose writer escapes: no escape is empty, breaks a line or holds a null character,
  and what breaks a line is not escaped.\<close>

abbreviation escaping :: "html_context \<Rightarrow> bool" where "escaping k \<equiv> k \<in> {CxText, CxAttributeValue, CxComment}"

lemma table_escapes:
  assumes "escaping k" "table_of k b = Some e"
  shows "clean e" "e \<noteq> []" "b \<noteq> CHR 0x0A" "b \<noteq> CHR 0x0D" "b \<noteq> CHR 0x00" "replace_nul e = e"
  using assms by (auto simp: tables clean_def replace_nul_def no_nul_def split: if_splits)

lemma table_breaks:
  assumes "escaping k" "b \<in> {CHR 0x0A, CHR 0x0D, CHR 0xEF, CHR 0xBF, CHR 0xBD}"
  shows "table_of k b = None"
  using assms by (auto simp: tables)

lemma escaped_newlines:
  assumes "escaping k"
  shows "newlines_after cr (escaped k v) = escaped k (newlines_after cr v)"
proof (induction v arbitrary: cr)
  case (Cons b v)
  note breaks = table_breaks [OF assms]
  show ?case
  proof (cases "table_of k b")
    case None
    with Cons show ?thesis using breaks by (simp add: escaped_def)
  next
    case (Some e)
    from table_escapes [OF assms Some] newlines_clean [of e] Some Cons show ?thesis by (simp add: escaped_def)
  qed
qed (simp add: escaped_def)

lemma escaped_nul:
  assumes "escaping k"
  shows "replace_nul (escaped k v) = escaped k (replace_nul v)"
proof (induction v)
  case (Cons b v)
  have cat: "replace_nul (x @ y) = replace_nul x @ replace_nul y" for x y by (simp add: replace_nul_def)
  have cons: "replace_nul (x # y) = no_nul x @ replace_nul y" for x y by (simp add: replace_nul_def)
  show ?case
  proof (cases "table_of k b")
    case None
    have "escape_bytes (table_of k) (no_nul b) = no_nul b"
      using None table_breaks [OF assms] by (simp add: no_nul_def)
    with None Cons show ?thesis by (simp add: escaped_def cons)
  next
    case (Some e)
    from table_escapes [OF assms Some] Some Cons show ?thesis by (simp add: escaped_def cat cons no_nul_def)
  qed
qed (simp add: escaped_def replace_nul_def)

subsection \<open>A document with untrusted text in every position\<close>

fun html_write_all :: "(html_context \<times> str) list \<Rightarrow> formatter \<Rightarrow> formatter outcome option" where
  "html_write_all [] f = Some (Done f)"
| "html_write_all ((k, s) # ws) f =
     (case html_write_str k s f of
        Some (Done f) \<Rightarrow> html_write_all ws f
      | Some Panic \<Rightarrow> Some Panic
      | None \<Rightarrow> None)"

text \<open>An element with attributes, holding a text and a comment: the markup is written as it is, the
  rest in its context.\<close>

definition attr_writes :: "str \<Rightarrow> str \<Rightarrow> (html_context \<times> str) list" where
  "attr_writes k v =
     [(CxUnescaped, '' ''), (CxAttributeKey, k), (CxUnescaped, [CHR ''='', CHR 0x22]), (CxAttributeValue, v),
      (CxUnescaped, [CHR 0x22])]"

definition element_writes :: "str \<Rightarrow> (str \<times> str) list \<Rightarrow> str \<Rightarrow> str \<Rightarrow> (html_context \<times> str) list" where
  "element_writes name kvs txt com =
     [(CxUnescaped, ''<''), (CxElementName, name)] @ concat (map (\<lambda>(k, v). attr_writes k v) kvs) @
     [(CxUnescaped, ''>''), (CxText, txt), (CxUnescaped, ''<!--''), (CxComment, com), (CxUnescaped, ''-->''),
      (CxUnescaped, ''</''), (CxElementName, name), (CxUnescaped, ''>'')]"

lemma html_write_all_Done:
  "html_write_all ws f = Some (Done g) \<longleftrightarrow>
   list_all (\<lambda>(k, s). accepts k s) ws \<and> g = fmt_str (concat (map (\<lambda>(k, s). escaped k s) ws)) f"
  by (induction ws arbitrary: f) (auto simp: html_write_str_eq split: if_splits)

lemma escaped_ident: "k \<in> {CxUnescaped, CxElementName, CxAttributeKey} \<Longrightarrow> escaped k s = s"
  by (auto simp: escaped_def no_escapes_def escape_bytes_plain)

lemma escaped_set:
  "CHR ''<'' \<notin> set (escaped CxText s)" "CHR 0x22 \<notin> set (escaped CxAttributeValue s)"
  "CHR ''>'' \<notin> set (escaped CxComment s)"
  using escaped_chars by fastforce+

definition element_text :: "str \<Rightarrow> (str \<times> str) list \<Rightarrow> str \<Rightarrow> str \<Rightarrow> str" where
  "element_text name kvs txt com =
     ''<'' @ name @ concat (map (\<lambda>(k, v). attr_text k v) kvs) @ ''>'' @ txt @ (''<!--'' @ com @ ''-->'') @
     ''</'' @ name @ ''>''"

abbreviation escaped_attrs :: "(str \<times> str) list \<Rightarrow> (str \<times> str) list" where
  "escaped_attrs kvs \<equiv> map (\<lambda>(k, v). (k, escaped CxAttributeValue v)) kvs"

lemma element_writes_Done:
  assumes "html_write_all (element_writes name kvs txt com) f = Some (Done g)"
  shows "plain_ident name" "\<forall>(k, v) \<in> set kvs. plain_ident k"
    "fm_buf g = fm_buf f @ element_text name (escaped_attrs kvs) (escaped CxText txt) (escaped CxComment com)"
proof -
  have attrs: "concat (map (\<lambda>(k, s). escaped k s) (concat (map (\<lambda>(k, v). attr_writes k v) kvs))) =
      concat (map (\<lambda>(k, v). attr_text k v) (escaped_attrs kvs))"
    by (induction kvs) (auto simp: attr_writes_def attr_text_def escaped_ident)
  have "list_all (\<lambda>(k, s). accepts k s) (concat (map (\<lambda>(k, v). attr_writes k v) kvs)) \<longleftrightarrow> (\<forall>(k, v) \<in> set kvs. plain_ident k)"
    by (induction kvs) (auto simp: attr_writes_def accepts_def)
  with assms [unfolded html_write_all_Done] show "plain_ident name" "\<forall>(k, v) \<in> set kvs. plain_ident k"
    by (auto simp: element_writes_def accepts_def)
  show "fm_buf g = fm_buf f @ element_text name (escaped_attrs kvs) (escaped CxText txt) (escaped CxComment com)"
    using assms [unfolded html_write_all_Done] attrs by (simp add: element_writes_def element_text_def escaped_ident)
qed

text \<open>The line breaks of the element's text are normalised piece by piece.\<close>

lemma plain_clean: "plain_ident n \<Longrightarrow> clean n"
  using name_chars(6,7) by (auto simp: clean_def list_all_iff)

lemma newlines_ident: "plain_ident n \<Longrightarrow> newlines_after False n = n"
  using newlines_clean' [OF plain_clean, of n "[]"] by simp

lemma attrs_newlines:
  assumes "\<forall>(k, v) \<in> set kvs. plain_ident k"
  shows "newlines_after False (concat (map (\<lambda>(k, v). attr_text k v) kvs)) =
    concat (map (\<lambda>(k, v). attr_text k (normalize_newlines v)) kvs)"
  using assms
  by (induction kvs) (auto simp: attr_text_def newlines_ident newlines_before normalize_newlines_def)

lemma element_newlines:
  assumes "plain_ident name" "\<forall>(k, v) \<in> set kvs. plain_ident k"
  shows "newlines_after False (element_text name kvs txt com @ s) =
    element_text name (map (\<lambda>(k, v). (k, normalize_newlines v)) kvs) (normalize_newlines txt) (normalize_newlines com) @
    newlines_after False s"
  using assms
  by (simp add: element_text_def newlines_clean' plain_clean newlines_ident newlines_before normalize_newlines_def
      attrs_newlines [unfolded normalize_newlines_def case_prod_unfold] comp_def case_prod_unfold)

lemma reads_element:
  assumes name: "plain_ident name" "name \<noteq> []" "is_ascii_alphabetic (hd name)"
    and kvs: "\<forall>(k, v) \<in> set kvs. plain_ident k \<and> k \<noteq> [] \<and> CHR 0x22 \<notin> set v"
    and "CHR ''<'' \<notin> set txt" "CHR ''>'' \<notin> set com"
  shows "reads DataState (element_text name kvs txt com)
    (StartTag (map to_lower name) (keep_firsts {} (map (\<lambda>(k, v). (map to_lower k, replace_nul v)) kvs)) False #
     map TextChar txt @ [CommentToken (replace_nul com), EndTag (map to_lower name)]) DataState"
proof -
  let ?t = "\<lparr>tg_end = False, tg_name = map to_lower name, tg_attrs = []\<rparr>"
  let ?as = "map (\<lambda>(k, v). (map to_lower k, replace_nul v)) kvs"
  obtain st where st: "reads (TagName ?t) (concat (map (\<lambda>(k, v). attr_text k v) kvs)) [] st"
    "between (?t\<lparr>tg_attrs := ?as\<rparr>) st"
    using reads_attrs [OF _ kvs, of ?t "TagName ?t"] by (auto simp: between_def)
  note start = reads_append [OF reads_open(1) [OF name] reads_append [OF st(1) reads_close [OF st(2)]]]
  have stop: "reads DataState (''</'' @ name @ ''>'') [EndTag (map to_lower name)] DataState"
    using reads_append [OF reads_open(2) [OF name] reads_close] by (simp add: between_def emit_tag_def)
  from reads_append [OF start reads_append [OF reads_text [OF assms(5)]
        reads_append [OF reads_comment [OF assms(6)] stop]]]
  show ?thesis by (simp add: element_text_def emit_tag_def)
qed

text \<open>What a browser takes untrusted text for, where it reads it as text: line breaks are normalised and null
  characters replaced.\<close>

definition as_read :: "str \<Rightarrow> str" where
  "as_read s = replace_nul (normalize_newlines s)"

text \<open>C10. Untrusted text cannot leave its position.  Whatever element names, attribute names, attribute
  values, text and comment a view writes, each in its context, the HTML tokenizer reads exactly one start
  tag with those attributes, the characters of the text, one comment and the end tag, and is then back
  where it was for the rest of the document; and in the values and the text, decoding the character
  references gives what was written.  The name has to start with a letter and no attribute name may be empty, which
  the writer does not check.\<close>

theorem html_output_is_inert:
  assumes w: "html_write_all (element_writes name kvs txt com) (formatter_new []) = Some (Done f)"
    and name: "name \<noteq> []" "is_ascii_alphabetic (hd name)"
    and keys: "[] \<notin> fst ` set kvs"
  shows "html_tokens (fm_buf f @ rest) =
      StartTag (map to_lower name)
        (keep_firsts {} (map (\<lambda>(k, v). (map to_lower k, escaped CxAttributeValue (as_read v))) kvs)) False #
      map TextChar (escaped CxText (normalize_newlines txt)) @
      CommentToken (escaped CxComment (as_read com)) # EndTag (map to_lower name) # html_tokens rest \<and>
    decode_references (escaped CxText s) = s \<and> decode_references (escaped CxAttributeValue s) = s"
proof -
  note d = element_writes_Done [OF w]
  let ?kvs = "map (\<lambda>(k, v). (k, escaped CxAttributeValue (normalize_newlines v))) kvs"
  have new: "normalize_newlines (escaped k v) = escaped k (normalize_newlines v)" if "escaping k" for k v
    using escaped_newlines [OF that] by (simp add: normalize_newlines_def)
  have buf: "normalize_newlines (fm_buf f @ rest) =
      element_text name ?kvs (escaped CxText (normalize_newlines txt)) (escaped CxComment (normalize_newlines com)) @
      normalize_newlines rest"
  proof -
    have "\<forall>(k, v) \<in> set (escaped_attrs kvs). plain_ident k" using d(2) by auto
    from element_newlines [OF d(1) this, of "escaped CxText txt" "escaped CxComment com" rest]
    show ?thesis by (simp add: d(3) formatter_new_def normalize_newlines_def [of "_ @ _"]
          normalize_newlines_def [of rest] new comp_def case_prod_unfold)
  qed
  have "\<forall>(k, v) \<in> set ?kvs. plain_ident k \<and> k \<noteq> [] \<and> CHR 0x22 \<notin> set v"
    using d(2) keys escaped_set(2) by force
  from reads_element [OF d(1) name this escaped_set(1,3), unfolded reads_def, rule_format]
  have "html_tokens (fm_buf f @ rest) =
      (StartTag (map to_lower name) (keep_firsts {} (map (\<lambda>(k, v). (map to_lower k, replace_nul v)) ?kvs)) False #
       map TextChar (escaped CxText (normalize_newlines txt)) @
       [CommentToken (replace_nul (escaped CxComment (normalize_newlines com))), EndTag (map to_lower name)]) @
      html_tokens rest"
    by (simp only: html_tokens_def buf)
  also have "map (\<lambda>(k, v). (map to_lower k, replace_nul v)) ?kvs =
      map (\<lambda>(k, v). (map to_lower k, escaped CxAttributeValue (as_read v))) kvs"
    by (simp add: comp_def case_prod_unfold escaped_nul as_read_def)
  finally show ?thesis by (simp add: escaped_nul as_read_def decode_escaped)
qed

theorem html_output_is_inert_witness:
  "html_tokens (''<A href='' @ [CHR 0x22] @ ''&quot;>'' @ [CHR 0x22] @ ''>&lt;b&gt;<!----&gt;--></A>'' @ ''<p>'') =
    [StartTag ''a'' [(''href'', ''&quot;>'')] False] @ map TextChar ''&lt;b&gt;'' @
    [CommentToken ''--&gt;'', EndTag ''a'', StartTag ''p'' [] False]"
proof -
  let ?w = "element_writes ''A'' [(''href'', [CHR 0x22, CHR ''>''])] ''<b>'' ''-->''"
  let ?out = "''<A href='' @ [CHR 0x22] @ ''&quot;>'' @ [CHR 0x22] @ ''>&lt;b&gt;<!----&gt;--></A>''"
  have w: "html_write_all ?w (formatter_new []) = Some (Done (fmt_str ?out (formatter_new [])))"
    unfolding html_write_all_Done
    by (simp add: element_writes_def attr_writes_def accepts_def forbidden_in_ident_def escaped_def tables no_escapes_def)
  have letter: "is_ascii_alphabetic (hd ''A'')" by (simp add: is_ascii_alphabetic_def)
  have out: "fm_buf (fmt_str ?out (formatter_new [])) = ?out" by (simp add: formatter_new_def)
  have low: "to_lower CHR ''A'' = CHR ''a''" "to_lower CHR ''h'' = CHR ''h''" "to_lower CHR ''r'' = CHR ''r''"
    "to_lower CHR ''e'' = CHR ''e''" "to_lower CHR ''f'' = CHR ''f''" by code_simp+
  have p: "html_tokens ''<p>'' = [StartTag ''p'' [] False]" by code_simp
  have "html_tokens (?out @ ''<p>'') =
      StartTag ''a'' (keep_firsts {} [(''href'', escaped CxAttributeValue (as_read [CHR 0x22, CHR ''>'']))]) False #
      map TextChar (escaped CxText (normalize_newlines ''<b>'')) @
      CommentToken (escaped CxComment (as_read ''-->'')) # EndTag ''a'' # html_tokens ''<p>''"
    using html_output_is_inert [OF w _ letter, of "''<p>''", THEN conjunct1] unfolding out
    by (simp add: low)
  then show ?thesis
    unfolding p by (simp add: as_read_def normalize_newlines_def replace_nul_def no_nul_def escaped_def tables)
qed

end
