(* ===== verification/View_Buffer.thy ===== *)
theory View_Buffer
  imports Html_Escape "HOL-Library.Word"
begin

text \<open>
  The instruction buffer of a view: \<^verbatim>\<open>crates/topcoat-view/src/buffer.rs\<close> and
  \<^verbatim>\<open>buffer/*.rs\<close>.  A view is built by pushing parts, which become instructions and constants;
  rendering interprets the instructions.  Handles point into a buffer, or carry one.  A part
  that writes at render time is the list of its calls to the writer; the display of floats is a
  parameter; size hints, which only reserve memory, are natural numbers.
\<close>

subsection \<open>Running code that may panic or not return\<close>

type_synonym 'a run = "'a outcome option"

definition bind_run :: "'a run \<Rightarrow> ('a \<Rightarrow> 'b run) \<Rightarrow> 'b run" where
  "bind_run x k = Option.bind x (\<lambda>r. case r of Panic \<Rightarrow> Some Panic | Done y \<Rightarrow> k y)"

abbreviation return_run :: "'a \<Rightarrow> 'a run" where "return_run x \<equiv> Some (Done x)"
abbreviation panic_run :: "'a run" where "panic_run \<equiv> Some Panic"

lemma bind_run_simps [simp]:
  "bind_run None k = None" "bind_run panic_run k = panic_run" "bind_run (return_run x) k = k x"
  by (simp_all add: bind_run_def)

lemma bind_run_return [simp]: "bind_run x return_run = x"
  by (cases x; cases "the x") (simp_all add: bind_run_def)

lemma bind_run_assoc: "bind_run (bind_run x k) l = bind_run x (\<lambda>y. bind_run (k y) l)"
  by (cases x; cases "the x") (simp_all add: bind_run_def)

lemma bind_run_mono [partial_function_mono]:
  assumes "mono_option B" "\<And>y. mono_option (\<lambda>f. C y f)"
  shows "mono_option (\<lambda>f. bind_run (B f) (\<lambda>y. C y f))"
proof -
  have "mono_option (\<lambda>f. case r of Panic \<Rightarrow> Some Panic | Done y \<Rightarrow> C y f)" for r
    using assms(2) by (cases r) (simp_all add: monotone_def option.leq_refl)
  with assms(1) show ?thesis unfolding bind_run_def by (intro bind_mono)
qed

definition fetch :: "'a list \<Rightarrow> nat \<Rightarrow> 'a outcome" where
  "fetch xs i = (if i < length xs then Done (xs ! i) else Panic)"

subsection \<open>Constants\<close>

type_synonym region_id = nat

datatype html_write = WriteStr str | WriteChar nat

record dyn_part =
  dp_writes :: "html_write list"
  dp_size_hint :: nat

datatype 'v const_buffer = ConstBuffer (cb_static_strs: "str list") (cb_strings: "str list") (cb_strs: str)
  (cb_dyns: "dyn_part list") (cb_views: "('v \<times> nat) list") (cb_regions: "region_id list")
  (cb_headers: "header_map list")

definition const_buffer_new :: "'v const_buffer" where
  "const_buffer_new = ConstBuffer [] [] [] [] [] [] []"

definition const_static_str :: "str \<Rightarrow> 'v const_buffer \<Rightarrow> nat \<times> 'v const_buffer" where
  "const_static_str v c = (length (cb_static_strs c), ConstBuffer (cb_static_strs c @ [v]) (cb_strings c) (cb_strs c)
     (cb_dyns c) (cb_views c) (cb_regions c) (cb_headers c))"

definition const_string :: "str \<Rightarrow> 'v const_buffer \<Rightarrow> nat \<times> 'v const_buffer" where
  "const_string v c = (length (cb_strings c), ConstBuffer (cb_static_strs c) (cb_strings c @ [v]) (cb_strs c)
     (cb_dyns c) (cb_views c) (cb_regions c) (cb_headers c))"

definition const_str :: "str \<Rightarrow> 'v const_buffer \<Rightarrow> ((nat \<times> 32 word) \<times> 'v const_buffer) outcome" where
  "const_str v c =
     (if length v < 2 ^ 32 then
        Done ((length (cb_strs c), of_nat (length v)), ConstBuffer (cb_static_strs c) (cb_strings c) (cb_strs c @ v)
          (cb_dyns c) (cb_views c) (cb_regions c) (cb_headers c))
      else Panic)"

definition const_dyn :: "dyn_part \<Rightarrow> 'v const_buffer \<Rightarrow> nat \<times> 'v const_buffer" where
  "const_dyn v c = (length (cb_dyns c), ConstBuffer (cb_static_strs c) (cb_strings c) (cb_strs c)
     (cb_dyns c @ [v]) (cb_views c) (cb_regions c) (cb_headers c))"

definition const_view :: "'v \<Rightarrow> nat \<Rightarrow> 'v const_buffer \<Rightarrow> nat \<times> 'v const_buffer" where
  "const_view v entry c = (length (cb_views c), ConstBuffer (cb_static_strs c) (cb_strings c) (cb_strs c)
     (cb_dyns c) (cb_views c @ [(v, entry)]) (cb_regions c) (cb_headers c))"

definition const_region :: "region_id \<Rightarrow> 'v const_buffer \<Rightarrow> nat \<times> 'v const_buffer" where
  "const_region v c = (length (cb_regions c), ConstBuffer (cb_static_strs c) (cb_strings c) (cb_strs c)
     (cb_dyns c) (cb_views c) (cb_regions c @ [v]) (cb_headers c))"

definition const_headers :: "header_map \<Rightarrow> 'v const_buffer \<Rightarrow> nat \<times> 'v const_buffer" where
  "const_headers v c = (length (cb_headers c), ConstBuffer (cb_static_strs c) (cb_strings c) (cb_strs c)
     (cb_dyns c) (cb_views c) (cb_regions c) (cb_headers c @ [v]))"

definition fetch_str :: "'v const_buffer \<Rightarrow> nat \<Rightarrow> 32 word \<Rightarrow> str outcome" where
  "fetch_str c offset len =
     (if offset + unat len \<le> length (cb_strs c) then Done (take (unat len) (drop offset (cb_strs c))) else Panic)"

subsection \<open>Instructions\<close>

datatype instruction =
    ICall nat
  | IRet
  | IViewHandle nat
  | IBool bool
  | II8 "8 word" | II16 "16 word" | II32 "32 word" | II64 "64 word" | IIsize "64 word"
  | IU8 "8 word" | IU16 "16 word" | IU32 "32 word" | IU64 "64 word" | IUsize "64 word"
  | IF32 "32 word" | IF64 "64 word"
  | IChar nat html_context
  | IPromotedStr str html_context
  | IStaticStr nat html_context
  | IStr nat "32 word" html_context
  | IString nat html_context
  | IDyn nat html_context
  | IRegionStart nat
  | IRegionEnd nat
  | IStatusCode nat
  | IHeaders nat

datatype view_buffer = ViewBuffer (vb_id: nat) (vb_instructions: "instruction list") (vb_consts: "view_buffer const_buffer")

definition view_buffer_new :: "nat \<Rightarrow> view_buffer" where
  "view_buffer_new fresh = ViewBuffer fresh [] const_buffer_new"

definition next_ptr :: "view_buffer \<Rightarrow> nat" where
  "next_ptr b = length (vb_instructions b)"

definition push_instruction :: "instruction \<Rightarrow> view_buffer \<Rightarrow> view_buffer" where
  "push_instruction i b = ViewBuffer (vb_id b) (vb_instructions b @ [i]) (vb_consts b)"

definition with_consts :: "view_buffer \<Rightarrow> view_buffer const_buffer \<Rightarrow> view_buffer" where
  "with_consts b c = ViewBuffer (vb_id b) (vb_instructions b) c"

subsection \<open>Handles\<close>

datatype view_handle =
    VStatic str
  | VScoped nat nat nat
  | VOwned view_buffer nat nat

fun size_hint :: "view_handle \<Rightarrow> nat" where
  "size_hint (VStatic body) = length body"
| "size_hint (VScoped _ _ n) = n"
| "size_hint (VOwned _ _ n) = n"

fun seal :: "view_handle \<Rightarrow> view_buffer \<Rightarrow> view_handle outcome" where
  "seal (VScoped i entry n) b = (if i = vb_id b then Done (VOwned b entry n) else Panic)"
| "seal h b = Done h"

definition handle_is_empty :: "view_handle \<Rightarrow> bool" where
  "handle_is_empty h \<longleftrightarrow> h = VStatic []"

subsection \<open>Rendering\<close>

record float_display =
  fd_f32 :: "32 word \<Rightarrow> str"
  fd_f64 :: "64 word \<Rightarrow> str"

definition display_int :: "int \<Rightarrow> str" where
  "display_int i = (if i < 0 then CHR ''-'' # decimal (nat (- i)) else decimal (nat i))"

definition hex_digit :: "nat \<Rightarrow> char" where
  "hex_digit n = char_of (if n < 10 then 48 + n else 87 + n)"

definition region_display :: "region_id \<Rightarrow> str" where
  "region_display r = map (\<lambda>i. hex_digit (r div 16 ^ i mod 16)) (rev [0..<32])"

fun write_all :: "html_context \<Rightarrow> html_write list \<Rightarrow> formatter \<Rightarrow> formatter run" where
  "write_all c [] f = return_run f"
| "write_all c (WriteStr s # ws) f = bind_run (html_write_str c s f) (write_all c ws)"
| "write_all c (WriteChar k # ws) f = bind_run (Some (html_write_char c k f)) (write_all c ws)"

definition after_fetch :: "'a outcome \<Rightarrow> ('a \<Rightarrow> 'b run) \<Rightarrow> 'b run" where
  "after_fetch x k = bind_run (Some x) k"

text \<open>The instructions that write and go on to the next one.\<close>

fun emit :: "float_display \<Rightarrow> 'v const_buffer \<Rightarrow> instruction \<Rightarrow> formatter \<Rightarrow> formatter run" where
  "emit D c (IBool v) f = return_run (fmt_str (if v then ''true'' else ''false'') f)"
| "emit D c (II8 v) f = return_run (fmt_str (display_int (sint v)) f)"
| "emit D c (II16 v) f = return_run (fmt_str (display_int (sint v)) f)"
| "emit D c (II32 v) f = return_run (fmt_str (display_int (sint v)) f)"
| "emit D c (II64 v) f = return_run (fmt_str (display_int (sint v)) f)"
| "emit D c (IIsize v) f = return_run (fmt_str (display_int (sint v)) f)"
| "emit D c (IU8 v) f = return_run (fmt_str (decimal (unat v)) f)"
| "emit D c (IU16 v) f = return_run (fmt_str (decimal (unat v)) f)"
| "emit D c (IU32 v) f = return_run (fmt_str (decimal (unat v)) f)"
| "emit D c (IU64 v) f = return_run (fmt_str (decimal (unat v)) f)"
| "emit D c (IUsize v) f = return_run (fmt_str (decimal (unat v)) f)"
| "emit D c (IF32 v) f = return_run (fmt_str (fd_f32 D v) f)"
| "emit D c (IF64 v) f = return_run (fmt_str (fd_f64 D v) f)"
| "emit D c (IChar v k) f = Some (html_write_char k v f)"
| "emit D c (IPromotedStr v k) f = html_write_str k v f"
| "emit D c (IStaticStr p k) f = after_fetch (fetch (cb_static_strs c) p) (\<lambda>v. html_write_str k v f)"
| "emit D c (IStr offset len k) f = after_fetch (fetch_str c offset len) (\<lambda>v. html_write_str k v f)"
| "emit D c (IString p k) f = after_fetch (fetch (cb_strings c) p) (\<lambda>v. html_write_str k v f)"
| "emit D c (IDyn p k) f = after_fetch (fetch (cb_dyns c) p) (\<lambda>d. write_all k (dp_writes d) f)"
| "emit D c (IRegionStart p) f = after_fetch (fetch (cb_regions c) p)
     (\<lambda>r. return_run (fmt_str ('')-->'') (fmt_str (region_display r) (fmt_str (''<!--::topcoat::region::start('') f))))"
| "emit D c (IRegionEnd p) f = after_fetch (fetch (cb_regions c) p)
     (\<lambda>r. return_run (fmt_str ('')-->'') (fmt_str (region_display r) (fmt_str (''<!--::topcoat::region::end('') f))))"
| "emit D c (IStatusCode code) f = return_run (record_status_code code f)"
| "emit D c (IHeaders p) f = after_fetch (fetch (cb_headers c) p) (\<lambda>h. return_run (record_headers h f))"
| "emit D c _ f = panic_run"

text \<open>The arms of the loop: the jumps, and the instructions that write.\<close>

datatype control = Jump nat | Return | Nested nat | Emit

fun control_of :: "instruction \<Rightarrow> control" where
  "control_of (ICall entry) = Jump entry"
| "control_of IRet = Return"
| "control_of (IViewHandle p) = Nested p"
| "control_of _ = Emit"

text \<open>\<^verbatim>\<open>Renderer::execute\<close>, from the address \<open>ptr\<close> with the return addresses \<open>stack\<close>.\<close>

partial_function (option) execute :: "float_display \<Rightarrow> view_buffer \<Rightarrow> nat \<Rightarrow> nat list \<Rightarrow> formatter \<Rightarrow> formatter run" where
  "execute D b ptr stack f =
     (case fetch (vb_instructions b) ptr of
        Panic \<Rightarrow> panic_run
      | Done i \<Rightarrow>
          (case control_of i of
             Jump entry \<Rightarrow> execute D b entry ((ptr + 1) # stack) f
           | Return \<Rightarrow> (case stack of [] \<Rightarrow> return_run f | p # stack \<Rightarrow> execute D b p stack f)
           | Nested p \<Rightarrow>
               (case fetch (cb_views (vb_consts b)) p of
                  Panic \<Rightarrow> panic_run
                | Done (inner, entry) \<Rightarrow>
                    bind_run (execute D inner entry [] f) (\<lambda>f. execute D b (ptr + 1) stack f))
           | Emit \<Rightarrow> bind_run (emit D (vb_consts b) i f) (\<lambda>f. execute D b (ptr + 1) stack f)))"

text \<open>\<open>active\<close> is the buffer of the build running on the current task.\<close>

fun render_into :: "float_display \<Rightarrow> view_buffer option \<Rightarrow> view_handle \<Rightarrow> formatter \<Rightarrow> formatter run" where
  "render_into D active (VStatic body) f = return_run (fmt_str body f)"
| "render_into D active (VScoped i entry _) f =
     (case active of
        None \<Rightarrow> panic_run
      | Some b \<Rightarrow> if vb_id b = i then execute D b entry [] f else panic_run)"
| "render_into D active (VOwned b entry _) f = execute D b entry [] f"

definition render :: "float_display \<Rightarrow> view_buffer option \<Rightarrow> view_handle \<Rightarrow> str run" where
  "render D active h = bind_run (render_into D active h (formatter_new [])) (\<lambda>f. return_run (fm_buf f))"

definition render_response :: "float_display \<Rightarrow> view_buffer option \<Rightarrow> view_handle \<Rightarrow> (str \<times> nat option \<times> header_map) run" where
  "render_response D active h = bind_run (render_into D active h (formatter_new []))
     (\<lambda>f. return_run (fm_buf f, fm_status_code f, fm_headers f))"

subsection \<open>Pushing into a buffer\<close>

definition buffer_static_str :: "str \<Rightarrow> html_context \<Rightarrow> view_buffer \<Rightarrow> view_buffer" where
  "buffer_static_str v k b =
     (if v = [] then b
      else (let (p, c) = const_static_str v (vb_consts b)
            in push_instruction (IStaticStr p k) (with_consts b c)))"

definition buffer_promoted_str :: "str \<Rightarrow> html_context \<Rightarrow> view_buffer \<Rightarrow> view_buffer" where
  "buffer_promoted_str v k b = (if v = [] then b else push_instruction (IPromotedStr v k) b)"

definition buffer_str :: "str \<Rightarrow> html_context \<Rightarrow> view_buffer \<Rightarrow> view_buffer outcome" where
  "buffer_str v k b =
     (if v = [] then Done b
      else bind_outcome (const_str v (vb_consts b)) (\<lambda>((offset, len), c).
             Done (push_instruction (IStr offset len k) (with_consts b c))))"

definition buffer_string :: "str \<Rightarrow> html_context \<Rightarrow> view_buffer \<Rightarrow> view_buffer" where
  "buffer_string v k b =
     (if v = [] then b
      else (let (p, c) = const_string v (vb_consts b)
            in push_instruction (IString p k) (with_consts b c)))"

definition buffer_char :: "nat \<Rightarrow> html_context \<Rightarrow> view_buffer \<Rightarrow> view_buffer" where
  "buffer_char v k = push_instruction (IChar v k)"

definition buffer_dyn :: "dyn_part \<Rightarrow> html_context \<Rightarrow> view_buffer \<Rightarrow> view_buffer" where
  "buffer_dyn v k b = (let (p, c) = const_dyn v (vb_consts b) in push_instruction (IDyn p k) (with_consts b c))"

definition buffer_region_start :: "region_id \<Rightarrow> view_buffer \<Rightarrow> view_buffer" where
  "buffer_region_start r b =
     (let (p, c) = const_region r (vb_consts b) in push_instruction (IRegionStart p) (with_consts b c))"

definition buffer_region_end :: "region_id \<Rightarrow> view_buffer \<Rightarrow> view_buffer" where
  "buffer_region_end r b =
     (let (p, c) = const_region r (vb_consts b) in push_instruction (IRegionEnd p) (with_consts b c))"

definition buffer_status_code :: "nat \<Rightarrow> view_buffer \<Rightarrow> view_buffer" where
  "buffer_status_code code = push_instruction (IStatusCode code)"

definition buffer_headers :: "header_map \<Rightarrow> view_buffer \<Rightarrow> view_buffer" where
  "buffer_headers h b = (let (p, c) = const_headers h (vb_consts b) in push_instruction (IHeaders p) (with_consts b c))"

fun buffer_view :: "view_handle \<Rightarrow> view_buffer \<Rightarrow> view_buffer outcome" where
  "buffer_view (VStatic body) b = Done (buffer_static_str body CxUnescaped b)"
| "buffer_view (VScoped i entry _) b = (if i = vb_id b then Done (push_instruction (ICall entry) b) else Panic)"
| "buffer_view (VOwned inner entry _) b =
     (let (p, c) = const_view inner entry (vb_consts b) in Done (push_instruction (IViewHandle p) (with_consts b c)))"

text \<open>The primitives, which render as text without escaping.\<close>

datatype prim =
    PBool bool
  | PI8 "8 word" | PI16 "16 word" | PI32 "32 word" | PI64 "64 word" | PI128 "128 word" | PIsize "64 word"
  | PU8 "8 word" | PU16 "16 word" | PU32 "32 word" | PU64 "64 word" | PU128 "128 word" | PUsize "64 word"
  | PF32 "32 word" | PF64 "64 word"

fun buffer_prim :: "prim \<Rightarrow> view_buffer \<Rightarrow> view_buffer outcome" where
  "buffer_prim (PBool v) b = Done (push_instruction (IBool v) b)"
| "buffer_prim (PI8 v) b = Done (push_instruction (II8 v) b)"
| "buffer_prim (PI16 v) b = Done (push_instruction (II16 v) b)"
| "buffer_prim (PI32 v) b = Done (push_instruction (II32 v) b)"
| "buffer_prim (PI64 v) b = Done (push_instruction (II64 v) b)"
| "buffer_prim (PI128 v) b = buffer_str (display_int (sint v)) CxUnescaped b"
| "buffer_prim (PIsize v) b = Done (push_instruction (IIsize v) b)"
| "buffer_prim (PU8 v) b = Done (push_instruction (IU8 v) b)"
| "buffer_prim (PU16 v) b = Done (push_instruction (IU16 v) b)"
| "buffer_prim (PU32 v) b = Done (push_instruction (IU32 v) b)"
| "buffer_prim (PU64 v) b = Done (push_instruction (IU64 v) b)"
| "buffer_prim (PU128 v) b = buffer_str (decimal (unat v)) CxUnescaped b"
| "buffer_prim (PUsize v) b = Done (push_instruction (IUsize v) b)"
| "buffer_prim (PF32 v) b = Done (push_instruction (IF32 v) b)"
| "buffer_prim (PF64 v) b = Done (push_instruction (IF64 v) b)"

subsection \<open>Collecting an attribute\<close>

datatype collected_part =
    CBool bool | CInt "128 word" | CUint "128 word" | CF32 "32 word" | CF64 "64 word"
  | CChar nat html_context
  | CPromotedStr str html_context
  | CStaticStr str html_context
  | CString str html_context
  | CDyn dyn_part html_context
  | CView view_handle

datatype collector = CEmpty | CSingle collected_part | CRendered str

fun collected_render :: "float_display \<Rightarrow> view_buffer option \<Rightarrow> collected_part \<Rightarrow> formatter \<Rightarrow> formatter run" where
  "collected_render D active (CBool v) f = return_run (fmt_str (if v then ''true'' else ''false'') f)"
| "collected_render D active (CInt v) f = return_run (fmt_str (display_int (sint v)) f)"
| "collected_render D active (CUint v) f = return_run (fmt_str (decimal (unat v)) f)"
| "collected_render D active (CF32 v) f = return_run (fmt_str (fd_f32 D v) f)"
| "collected_render D active (CF64 v) f = return_run (fmt_str (fd_f64 D v) f)"
| "collected_render D active (CChar v k) f = Some (html_write_char k v f)"
| "collected_render D active (CPromotedStr v k) f = html_write_str k v f"
| "collected_render D active (CStaticStr v k) f = html_write_str k v f"
| "collected_render D active (CString v k) f = html_write_str k v f"
| "collected_render D active (CDyn d k) f = write_all k (dp_writes d) f"
| "collected_render D active (CView h) f = render_into D active h f"

text \<open>\<^verbatim>\<open>AttributeCollector::render\<close>: what has been collected as text, and \<open>w\<close> after it.\<close>

definition collector_render :: "float_display \<Rightarrow> view_buffer option \<Rightarrow> (formatter \<Rightarrow> formatter run) \<Rightarrow> collector \<Rightarrow> collector run" where
  "collector_render D active w s =
     bind_run (case s of
         CEmpty \<Rightarrow> return_run []
       | CSingle first \<Rightarrow> bind_run (collected_render D active first (formatter_new [])) (\<lambda>f. return_run (fm_buf f))
       | CRendered v \<Rightarrow> return_run v)
       (\<lambda>v. bind_run (w (formatter_new v)) (\<lambda>f. return_run (CRendered (fm_buf f))))"

definition collector_push :: "float_display \<Rightarrow> view_buffer option \<Rightarrow> collected_part \<Rightarrow> collector \<Rightarrow> collector run" where
  "collector_push D active part s =
     (if s = CEmpty then return_run (CSingle part) else collector_render D active (collected_render D active part) s)"

definition collector_push_str :: "float_display \<Rightarrow> view_buffer option \<Rightarrow> str \<Rightarrow> html_context \<Rightarrow> collector \<Rightarrow> collector run" where
  "collector_push_str D active v k s =
     (if s = CEmpty then return_run (CSingle (CString v k)) else collector_render D active (html_write_str k v) s)"

text \<open>The three forms a captured key or value keeps its text in; an empty collector is the type's
  own \<^verbatim>\<open>empty\<close>.\<close>

datatype captured_text = CapPromotedStr str html_context | CapStaticStr str html_context | CapString str html_context

fun collector_finish :: "float_display \<Rightarrow> view_buffer option \<Rightarrow> collector \<Rightarrow> captured_text option run" where
  "collector_finish D active CEmpty = return_run None"
| "collector_finish D active (CSingle (CPromotedStr v k)) = return_run (Some (CapPromotedStr v k))"
| "collector_finish D active (CSingle (CStaticStr v k)) = return_run (Some (CapStaticStr v k))"
| "collector_finish D active (CSingle (CString v k)) = return_run (Some (CapString v k))"
| "collector_finish D active (CSingle part) =
     bind_run (collected_render D active part (formatter_new [])) (\<lambda>f. return_run (Some (CapString (fm_buf f) CxUnescaped)))"
| "collector_finish D active (CRendered v) = return_run (Some (CapString v CxUnescaped))"

fun collect_prim :: "prim \<Rightarrow> collected_part" where
  "collect_prim (PBool v) = CBool v"
| "collect_prim (PI8 v) = CInt (scast v)"
| "collect_prim (PI16 v) = CInt (scast v)"
| "collect_prim (PI32 v) = CInt (scast v)"
| "collect_prim (PI64 v) = CInt (scast v)"
| "collect_prim (PI128 v) = CInt v"
| "collect_prim (PIsize v) = CInt (scast v)"
| "collect_prim (PU8 v) = CUint (ucast v)"
| "collect_prim (PU16 v) = CUint (ucast v)"
| "collect_prim (PU32 v) = CUint (ucast v)"
| "collect_prim (PU64 v) = CUint (ucast v)"
| "collect_prim (PU128 v) = CUint v"
| "collect_prim (PUsize v) = CUint (ucast v)"
| "collect_prim (PF32 v) = CF32 v"
| "collect_prim (PF64 v) = CF64 v"

subsection \<open>The parts writer\<close>

text \<open>A collector renders with the buffer of the running build, which its sink carries.\<close>

datatype sink = SinkBuffer view_buffer | SinkCollector collector "view_buffer option"

definition on_sink :: "(view_buffer \<Rightarrow> view_buffer outcome)
    \<Rightarrow> (view_buffer option \<Rightarrow> collector \<Rightarrow> collector run) \<Rightarrow> sink \<Rightarrow> sink run" where
  "on_sink on_buffer on_collector s =
     (case s of
        SinkBuffer b \<Rightarrow> bind_run (Some (on_buffer b)) (\<lambda>b. return_run (SinkBuffer b))
      | SinkCollector c active \<Rightarrow> bind_run (on_collector active c) (\<lambda>c. return_run (SinkCollector c active)))"

record parts_writer =
  pw_sink :: sink
  pw_context :: html_context
  pw_size_hint :: nat

definition parts_writer_new :: "view_buffer \<Rightarrow> html_context \<Rightarrow> parts_writer" where
  "parts_writer_new b k = \<lparr>pw_sink = SinkBuffer b, pw_context = k, pw_size_hint = 0\<rparr>"

definition parts_writer_collecting :: "collector \<Rightarrow> view_buffer option \<Rightarrow> html_context \<Rightarrow> parts_writer" where
  "parts_writer_collecting c active k = \<lparr>pw_sink = SinkCollector c active, pw_context = k, pw_size_hint = 0\<rparr>"

definition in_context :: "html_context \<Rightarrow> (parts_writer \<Rightarrow> parts_writer run) \<Rightarrow> parts_writer \<Rightarrow> parts_writer run" where
  "in_context k p w = bind_run (p (w\<lparr>pw_context := k\<rparr>)) (\<lambda>w'. return_run (w'\<lparr>pw_context := pw_context w\<rparr>))"

definition str_size_hint :: "str \<Rightarrow> html_context \<Rightarrow> nat" where
  "str_size_hint v k = (if k = CxUnescaped then length v else length v + length v div 8)"

text \<open>Every push adds its estimate and hands its part to the sink.\<close>

definition push_with :: "nat \<Rightarrow> (sink \<Rightarrow> sink run) \<Rightarrow> parts_writer \<Rightarrow> parts_writer run" where
  "push_with n op w = bind_run (op (pw_sink w)) (\<lambda>s. return_run (w\<lparr>pw_sink := s, pw_size_hint := pw_size_hint w + n\<rparr>))"

definition sink_str :: "float_display \<Rightarrow> str \<Rightarrow> html_context \<Rightarrow> sink \<Rightarrow> sink run" where
  "sink_str D v k = on_sink (buffer_str v k) (\<lambda>active. collector_push_str D active v k)"

definition sink_static_str :: "float_display \<Rightarrow> str \<Rightarrow> html_context \<Rightarrow> sink \<Rightarrow> sink run" where
  "sink_static_str D v k = on_sink (\<lambda>b. Done (buffer_static_str v k b)) (\<lambda>active. collector_push D active (CStaticStr v k))"

definition sink_promoted_str :: "float_display \<Rightarrow> str \<Rightarrow> html_context \<Rightarrow> sink \<Rightarrow> sink run" where
  "sink_promoted_str D v k = on_sink (\<lambda>b. Done (buffer_promoted_str v k b)) (\<lambda>active. collector_push D active (CPromotedStr v k))"

definition sink_string :: "float_display \<Rightarrow> str \<Rightarrow> html_context \<Rightarrow> sink \<Rightarrow> sink run" where
  "sink_string D v k = on_sink (\<lambda>b. Done (buffer_string v k b)) (\<lambda>active. collector_push D active (CString v k))"

definition sink_char :: "float_display \<Rightarrow> nat \<Rightarrow> html_context \<Rightarrow> sink \<Rightarrow> sink run" where
  "sink_char D v k = on_sink (\<lambda>b. Done (buffer_char v k b)) (\<lambda>active. collector_push D active (CChar v k))"

definition sink_prim :: "float_display \<Rightarrow> prim \<Rightarrow> sink \<Rightarrow> sink run" where
  "sink_prim D v = on_sink (buffer_prim v) (\<lambda>active. collector_push D active (collect_prim v))"

definition sink_region_start :: "region_id \<Rightarrow> sink \<Rightarrow> sink run" where
  "sink_region_start r = on_sink (\<lambda>b. Done (buffer_region_start r b)) (\<lambda>active c. panic_run)"

definition sink_region_end :: "region_id \<Rightarrow> sink \<Rightarrow> sink run" where
  "sink_region_end r = on_sink (\<lambda>b. Done (buffer_region_end r b)) (\<lambda>active c. panic_run)"

definition sink_dyn :: "float_display \<Rightarrow> dyn_part \<Rightarrow> html_context \<Rightarrow> sink \<Rightarrow> sink run" where
  "sink_dyn D v k = on_sink (\<lambda>b. Done (buffer_dyn v k b)) (\<lambda>active. collector_push D active (CDyn v k))"

definition sink_view :: "float_display \<Rightarrow> view_handle \<Rightarrow> sink \<Rightarrow> sink run" where
  "sink_view D h = on_sink (buffer_view h) (\<lambda>active. collector_push D active (CView h))"

definition sink_status_code :: "nat \<Rightarrow> sink \<Rightarrow> sink run" where
  "sink_status_code code = on_sink (\<lambda>b. Done (buffer_status_code code b)) (\<lambda>active. return_run)"

definition sink_headers :: "header_map \<Rightarrow> sink \<Rightarrow> sink run" where
  "sink_headers h = on_sink (\<lambda>b. Done (buffer_headers h b)) (\<lambda>active. return_run)"

definition push_str :: "float_display \<Rightarrow> str \<Rightarrow> parts_writer \<Rightarrow> parts_writer run" where
  "push_str D v w = push_with (str_size_hint v (pw_context w)) (sink_str D v (pw_context w)) w"

definition push_static_str :: "float_display \<Rightarrow> str \<Rightarrow> parts_writer \<Rightarrow> parts_writer run" where
  "push_static_str D v w = push_with (str_size_hint v (pw_context w)) (sink_static_str D v (pw_context w)) w"

definition push_promoted_str :: "float_display \<Rightarrow> str \<Rightarrow> parts_writer \<Rightarrow> parts_writer run" where
  "push_promoted_str D v w = push_with (str_size_hint v (pw_context w)) (sink_promoted_str D v (pw_context w)) w"

definition push_string :: "float_display \<Rightarrow> str \<Rightarrow> parts_writer \<Rightarrow> parts_writer run" where
  "push_string D v w = push_with (str_size_hint v (pw_context w)) (sink_string D v (pw_context w)) w"

definition push_str_unescaped :: "float_display \<Rightarrow> str \<Rightarrow> parts_writer \<Rightarrow> parts_writer run" where
  "push_str_unescaped D v = push_with (length v) (sink_str D v CxUnescaped)"

definition push_static_str_unescaped :: "float_display \<Rightarrow> str \<Rightarrow> parts_writer \<Rightarrow> parts_writer run" where
  "push_static_str_unescaped D v = push_with (length v) (sink_static_str D v CxUnescaped)"

definition push_promoted_str_unescaped :: "float_display \<Rightarrow> str \<Rightarrow> parts_writer \<Rightarrow> parts_writer run" where
  "push_promoted_str_unescaped D v = push_with (length v) (sink_promoted_str D v CxUnescaped)"

definition push_string_unescaped :: "float_display \<Rightarrow> str \<Rightarrow> parts_writer \<Rightarrow> parts_writer run" where
  "push_string_unescaped D v = push_with (length v) (sink_string D v CxUnescaped)"

definition push_comment :: "float_display \<Rightarrow> (parts_writer \<Rightarrow> parts_writer run) \<Rightarrow> parts_writer \<Rightarrow> parts_writer run" where
  "push_comment D body w =
     (if pw_context w \<noteq> CxText then panic_run
      else bind_run (push_promoted_str_unescaped D ''<!--'' w) (\<lambda>w.
           bind_run (in_context CxComment body w)
             (push_promoted_str_unescaped D ''-->'')))"

definition push_char :: "float_display \<Rightarrow> nat \<Rightarrow> parts_writer \<Rightarrow> parts_writer run" where
  "push_char D v w = push_with 3 (sink_char D v (pw_context w)) w"

fun prim_size_hint :: "prim \<Rightarrow> nat" where
  "prim_size_hint (PBool _) = 5"
| "prim_size_hint (PI8 _) = 3"
| "prim_size_hint (PI16 _) = 4"
| "prim_size_hint (PI32 _) = 6"
| "prim_size_hint (PI64 _) = 11"
| "prim_size_hint (PI128 _) = 21"
| "prim_size_hint (PIsize _) = 11"
| "prim_size_hint (PU8 _) = 2"
| "prim_size_hint (PU16 _) = 3"
| "prim_size_hint (PU32 _) = 6"
| "prim_size_hint (PU64 _) = 11"
| "prim_size_hint (PU128 _) = 20"
| "prim_size_hint (PUsize _) = 11"
| "prim_size_hint (PF32 _) = 9"
| "prim_size_hint (PF64 _) = 13"

definition push_prim :: "float_display \<Rightarrow> prim \<Rightarrow> parts_writer \<Rightarrow> parts_writer run" where
  "push_prim D v = push_with (prim_size_hint v) (sink_prim D v)"

definition push_region_start :: "region_id \<Rightarrow> parts_writer \<Rightarrow> parts_writer run" where
  "push_region_start r w =
     (if pw_context w \<noteq> CxText then panic_run
      else push_with (length ''<!--::topcoat::region::start()-->'' + 32) (sink_region_start r) w)"

definition push_region_end :: "region_id \<Rightarrow> parts_writer \<Rightarrow> parts_writer run" where
  "push_region_end r w =
     (if pw_context w \<noteq> CxText then panic_run
      else push_with (length ''<!--::topcoat::region::end()-->'' + 32) (sink_region_end r) w)"

definition push_dyn :: "float_display \<Rightarrow> dyn_part \<Rightarrow> parts_writer \<Rightarrow> parts_writer run" where
  "push_dyn D v w = push_with (dp_size_hint v) (sink_dyn D v (pw_context w)) w"

definition push_view_handle :: "float_display \<Rightarrow> view_handle \<Rightarrow> parts_writer \<Rightarrow> parts_writer run" where
  "push_view_handle D h = push_with (size_hint h) (sink_view D h)"

definition push_status_code :: "nat \<Rightarrow> parts_writer \<Rightarrow> parts_writer run" where
  "push_status_code code = push_with 0 (sink_status_code code)"

definition push_headers :: "header_map \<Rightarrow> parts_writer \<Rightarrow> parts_writer run" where
  "push_headers h = push_with 0 (sink_headers h)"

text \<open>\<^verbatim>\<open>ViewBuffer::block\<close>.\<close>

definition block :: "(parts_writer \<Rightarrow> parts_writer run) \<Rightarrow> view_buffer \<Rightarrow> (view_handle \<times> view_buffer) run" where
  "block p b =
     bind_run (p (parts_writer_new b CxText)) (\<lambda>w.
       (case pw_sink w of
          SinkBuffer b' \<Rightarrow> return_run (VScoped (vb_id b') (next_ptr b) (pw_size_hint w), push_instruction IRet b')
        | SinkCollector _ _ \<Rightarrow> panic_run))"

subsection \<open>What a block of instructions means\<close>

text \<open>\<open>runs D b ptr W\<close>: from \<open>ptr\<close> the instructions of \<open>b\<close> return, having done \<open>W\<close>.\<close>

fun refs_ok :: "'v const_buffer \<Rightarrow> instruction \<Rightarrow> bool" where
  "refs_ok c (IStaticStr p _) \<longleftrightarrow> p < length (cb_static_strs c)"
| "refs_ok c (IStr offset len _) \<longleftrightarrow> offset + unat len \<le> length (cb_strs c)"
| "refs_ok c (IString p _) \<longleftrightarrow> p < length (cb_strings c)"
| "refs_ok c (IDyn p _) \<longleftrightarrow> p < length (cb_dyns c)"
| "refs_ok c (IRegionStart p) \<longleftrightarrow> p < length (cb_regions c)"
| "refs_ok c (IRegionEnd p) \<longleftrightarrow> p < length (cb_regions c)"
| "refs_ok c (IHeaders p) \<longleftrightarrow> p < length (cb_headers c)"
| "refs_ok c i \<longleftrightarrow> True"

inductive runs :: "float_display \<Rightarrow> view_buffer \<Rightarrow> nat \<Rightarrow> (formatter \<Rightarrow> formatter run) \<Rightarrow> bool" for D where
  runs_ret: "fetch (vb_instructions b) ptr = Done IRet \<Longrightarrow> runs D b ptr return_run"
| runs_emit: "fetch (vb_instructions b) ptr = Done i \<Longrightarrow> control_of i = Emit \<Longrightarrow> refs_ok (vb_consts b) i \<Longrightarrow>
    runs D b (ptr + 1) W \<Longrightarrow> runs D b ptr (\<lambda>f. bind_run (emit D (vb_consts b) i f) W)"
| runs_call: "fetch (vb_instructions b) ptr = Done (ICall entry) \<Longrightarrow> runs D b entry V \<Longrightarrow>
    runs D b (ptr + 1) W \<Longrightarrow> runs D b ptr (\<lambda>f. bind_run (V f) W)"
| runs_nested: "fetch (vb_instructions b) ptr = Done (IViewHandle p) \<Longrightarrow>
    fetch (cb_views (vb_consts b)) p = Done (inner, entry) \<Longrightarrow> runs D inner entry V \<Longrightarrow>
    runs D b (ptr + 1) W \<Longrightarrow> runs D b ptr (\<lambda>f. bind_run (V f) W)"

lemma execute_runs:
  "runs D b ptr W \<Longrightarrow> execute D b ptr stack =
     (\<lambda>f. bind_run (W f) (\<lambda>f. case stack of [] \<Rightarrow> return_run f | p # stack \<Rightarrow> execute D b p stack f))"
proof (induction arbitrary: stack rule: runs.induct)
  case (runs_ret b ptr)
  then show ?case by (intro ext) (subst execute.simps, simp)
next
  case (runs_emit b ptr i W)
  then show ?case by (intro ext) (subst execute.simps, simp add: bind_run_assoc)
next
  case (runs_call b ptr entry V W)
  then show ?case by (intro ext) (subst execute.simps, simp add: bind_run_assoc)
next
  case (runs_nested b ptr p inner entry V W)
  then show ?case by (intro ext) (subst execute.simps, simp add: bind_run_assoc)
qed

text \<open>A buffer only grows.\<close>

definition consts_extend :: "'v const_buffer \<Rightarrow> 'v const_buffer \<Rightarrow> bool" where
  "consts_extend c c' \<longleftrightarrow> prefix (cb_static_strs c) (cb_static_strs c') \<and> prefix (cb_strings c) (cb_strings c') \<and>
     prefix (cb_strs c) (cb_strs c') \<and> prefix (cb_dyns c) (cb_dyns c') \<and> prefix (cb_views c) (cb_views c') \<and>
     prefix (cb_regions c) (cb_regions c') \<and> prefix (cb_headers c) (cb_headers c')"

definition extends :: "view_buffer \<Rightarrow> view_buffer \<Rightarrow> bool" where
  "extends b b' \<longleftrightarrow> vb_id b' = vb_id b \<and> prefix (vb_instructions b) (vb_instructions b') \<and>
     consts_extend (vb_consts b) (vb_consts b')"

lemma consts_extend_refl [simp]: "consts_extend c c"
  by (simp add: consts_extend_def)

lemma extends_refl [simp]: "extends b b"
  by (simp add: extends_def)

lemma extends_trans: "extends a b \<Longrightarrow> extends b c \<Longrightarrow> extends a c"
  unfolding extends_def consts_extend_def by (metis prefix_order.trans)

lemma fetch_Done_iff: "fetch xs i = Done x \<longleftrightarrow> i < length xs \<and> xs ! i = x"
  by (simp add: fetch_def)

lemma fetch_prefix: "prefix xs ys \<Longrightarrow> i < length xs \<Longrightarrow> fetch ys i = fetch xs i"
  by (auto simp: fetch_def prefix_def nth_append)

lemma fetch_prefix_Done: "prefix xs ys \<Longrightarrow> fetch xs i = Done x \<Longrightarrow> fetch ys i = Done x"
  by (auto simp: fetch_def prefix_def nth_append split: if_splits)

lemma fetch_str_prefix:
  "prefix (cb_strs c) (cb_strs c') \<Longrightarrow> offset + unat len \<le> length (cb_strs c) \<Longrightarrow> fetch_str c' offset len = fetch_str c offset len"
  by (auto simp: fetch_str_def prefix_def)

lemma emit_extend:
  "consts_extend c c' \<Longrightarrow> refs_ok c i \<Longrightarrow> emit D c' i f = emit D c i f"
  using fetch_prefix [of "cb_static_strs c" "cb_static_strs c'"] fetch_prefix [of "cb_strings c" "cb_strings c'"]
    fetch_prefix [of "cb_dyns c" "cb_dyns c'"] fetch_prefix [of "cb_regions c" "cb_regions c'"]
    fetch_prefix [of "cb_headers c" "cb_headers c'"] fetch_str_prefix [of c c']
  by (cases i) (simp_all add: consts_extend_def)

lemma refs_ok_extend: "consts_extend c c' \<Longrightarrow> refs_ok c i \<Longrightarrow> refs_ok c' i"
  unfolding consts_extend_def by (cases i) (auto dest!: prefix_length_le)

lemma runs_extend: "runs D b ptr W \<Longrightarrow> extends b b' \<Longrightarrow> runs D b' ptr W"
proof (induction arbitrary: b' rule: runs.induct)
  case (runs_ret b ptr)
  then show ?case by (auto simp: extends_def intro: runs.runs_ret fetch_prefix_Done)
next
  case (runs_emit b ptr i W)
  from runs_emit.prems have e: "prefix (vb_instructions b) (vb_instructions b')"
    "consts_extend (vb_consts b) (vb_consts b')" by (simp_all add: extends_def)
  have "runs D b' ptr (\<lambda>f. bind_run (emit D (vb_consts b') i f) W)"
    by (rule runs.runs_emit [OF fetch_prefix_Done [OF e(1) runs_emit.hyps(1)] runs_emit.hyps(2)
          refs_ok_extend [OF e(2) runs_emit.hyps(3)] runs_emit.IH [OF runs_emit.prems]])
  then show ?case by (simp add: emit_extend [OF e(2) runs_emit.hyps(3)])
next
  case (runs_call b ptr entry V W)
  then show ?case by (auto simp: extends_def intro!: runs.runs_call intro: fetch_prefix_Done)
next
  case (runs_nested b ptr p inner entry V W)
  from runs_nested.prems have e: "prefix (vb_instructions b) (vb_instructions b')"
    "prefix (cb_views (vb_consts b)) (cb_views (vb_consts b'))" by (simp_all add: extends_def consts_extend_def)
  show ?case
    by (rule runs.runs_nested [OF fetch_prefix_Done [OF e(1) runs_nested.hyps(1)]
          fetch_prefix_Done [OF e(2) runs_nested.hyps(2)] runs_nested.hyps(3) runs_nested.IH(2) [OF runs_nested.prems]])
qed

text \<open>A handle that can be rendered while \<open>b\<close> is being built, and what it writes.\<close>

fun displays :: "float_display \<Rightarrow> view_buffer \<Rightarrow> view_handle \<Rightarrow> (formatter \<Rightarrow> formatter run) \<Rightarrow> bool" where
  "displays D b (VStatic body) W \<longleftrightarrow> W = (\<lambda>f. return_run (fmt_str body f))"
| "displays D b (VScoped i entry _) W \<longleftrightarrow> i = vb_id b \<and> runs D b entry W"
| "displays D b (VOwned inner entry _) W \<longleftrightarrow> runs D inner entry W"

definition live :: "float_display \<Rightarrow> view_buffer \<Rightarrow> view_handle \<Rightarrow> bool" where
  "live D b h \<longleftrightarrow> (\<exists>W. displays D b h W)"

lemma render_displays: "displays D b h W \<Longrightarrow> render_into D (Some b) h = W"
  by (rule ext, cases h) (simp_all add: execute_runs)

lemma displays_render: "live D b h \<Longrightarrow> displays D b h (render_into D (Some b) h)"
  unfolding live_def using render_displays by blast

lemma displays_extend: "displays D b h W \<Longrightarrow> extends b b' \<Longrightarrow> displays D b' h W"
  by (cases h) (auto simp: extends_def intro: runs_extend [unfolded extends_def])

lemma live_extend:
  "live D b h \<Longrightarrow> extends b b' \<Longrightarrow> live D b' h \<and> render_into D (Some b') h = render_into D (Some b) h"
  unfolding live_def using displays_extend render_displays by metis

subsection \<open>Sequences of pushes\<close>

text \<open>The calls a caller can make on a parts writer, as data.\<close>

datatype part =
    PartStr str | PartStaticStr str | PartPromotedStr str | PartString str
  | PartStrUnescaped str | PartStaticStrUnescaped str | PartPromotedStrUnescaped str | PartStringUnescaped str
  | PartChar nat
  | PartPrim prim
  | PartDyn dyn_part
  | PartView view_handle
  | PartRegionStart region_id | PartRegionEnd region_id
  | PartStatusCode nat | PartHeaders header_map
  | PartComment "part list"
  | PartIn html_context "part list"

fun push_part :: "float_display \<Rightarrow> part \<Rightarrow> parts_writer \<Rightarrow> parts_writer run"
  and push_parts :: "float_display \<Rightarrow> part list \<Rightarrow> parts_writer \<Rightarrow> parts_writer run" where
  "push_part D (PartStr v) w = push_str D v w"
| "push_part D (PartStaticStr v) w = push_static_str D v w"
| "push_part D (PartPromotedStr v) w = push_promoted_str D v w"
| "push_part D (PartString v) w = push_string D v w"
| "push_part D (PartStrUnescaped v) w = push_str_unescaped D v w"
| "push_part D (PartStaticStrUnescaped v) w = push_static_str_unescaped D v w"
| "push_part D (PartPromotedStrUnescaped v) w = push_promoted_str_unescaped D v w"
| "push_part D (PartStringUnescaped v) w = push_string_unescaped D v w"
| "push_part D (PartChar v) w = push_char D v w"
| "push_part D (PartPrim v) w = push_prim D v w"
| "push_part D (PartDyn v) w = push_dyn D v w"
| "push_part D (PartView h) w = push_view_handle D h w"
| "push_part D (PartRegionStart r) w = push_region_start r w"
| "push_part D (PartRegionEnd r) w = push_region_end r w"
| "push_part D (PartStatusCode code) w = push_status_code code w"
| "push_part D (PartHeaders h) w = push_headers h w"
| "push_part D (PartComment ps) w = push_comment D (push_parts D ps) w"
| "push_part D (PartIn k ps) w = in_context k (push_parts D ps) w"
| "push_parts D [] w = return_run w"
| "push_parts D (p # ps) w = bind_run (push_part D p w) (push_parts D ps)"

text \<open>The same parts written straight to the formatter, with \<open>V\<close> for the views among them.\<close>

fun prim_display :: "float_display \<Rightarrow> prim \<Rightarrow> str" where
  "prim_display D (PBool v) = (if v then ''true'' else ''false'')"
| "prim_display D (PI8 v) = display_int (sint v)"
| "prim_display D (PI16 v) = display_int (sint v)"
| "prim_display D (PI32 v) = display_int (sint v)"
| "prim_display D (PI64 v) = display_int (sint v)"
| "prim_display D (PI128 v) = display_int (sint v)"
| "prim_display D (PIsize v) = display_int (sint v)"
| "prim_display D (PU8 v) = decimal (unat v)"
| "prim_display D (PU16 v) = decimal (unat v)"
| "prim_display D (PU32 v) = decimal (unat v)"
| "prim_display D (PU64 v) = decimal (unat v)"
| "prim_display D (PU128 v) = decimal (unat v)"
| "prim_display D (PUsize v) = decimal (unat v)"
| "prim_display D (PF32 v) = fd_f32 D v"
| "prim_display D (PF64 v) = fd_f64 D v"

fun write_part :: "float_display \<Rightarrow> (view_handle \<Rightarrow> formatter \<Rightarrow> formatter run) \<Rightarrow> html_context \<Rightarrow> part
    \<Rightarrow> formatter \<Rightarrow> formatter run"
  and write_parts :: "float_display \<Rightarrow> (view_handle \<Rightarrow> formatter \<Rightarrow> formatter run) \<Rightarrow> html_context \<Rightarrow> part list
    \<Rightarrow> formatter \<Rightarrow> formatter run" where
  "write_part D V k (PartStr v) f = html_write_str k v f"
| "write_part D V k (PartStaticStr v) f = html_write_str k v f"
| "write_part D V k (PartPromotedStr v) f = html_write_str k v f"
| "write_part D V k (PartString v) f = html_write_str k v f"
| "write_part D V k (PartStrUnescaped v) f = return_run (fmt_str v f)"
| "write_part D V k (PartStaticStrUnescaped v) f = return_run (fmt_str v f)"
| "write_part D V k (PartPromotedStrUnescaped v) f = return_run (fmt_str v f)"
| "write_part D V k (PartStringUnescaped v) f = return_run (fmt_str v f)"
| "write_part D V k (PartChar v) f = Some (html_write_char k v f)"
| "write_part D V k (PartPrim v) f = return_run (fmt_str (prim_display D v) f)"
| "write_part D V k (PartDyn d) f = write_all k (dp_writes d) f"
| "write_part D V k (PartView h) f = V h f"
| "write_part D V k (PartRegionStart r) f =
     return_run (fmt_str (''<!--::topcoat::region::start('' @ region_display r @ '')-->'') f)"
| "write_part D V k (PartRegionEnd r) f =
     return_run (fmt_str (''<!--::topcoat::region::end('' @ region_display r @ '')-->'') f)"
| "write_part D V k (PartStatusCode code) f = return_run (record_status_code code f)"
| "write_part D V k (PartHeaders h) f = return_run (record_headers h f)"
| "write_part D V k (PartComment ps) f =
     bind_run (write_parts D V CxComment ps (fmt_str ''<!--'' f)) (\<lambda>f. return_run (fmt_str ''-->'' f))"
| "write_part D V k (PartIn k' ps) f = write_parts D V k' ps f"
| "write_parts D V k [] f = return_run f"
| "write_parts D V k (p # ps) f = bind_run (write_part D V k p f) (write_parts D V k ps)"

fun part_views :: "part \<Rightarrow> view_handle set" and parts_views :: "part list \<Rightarrow> view_handle set" where
  "part_views (PartView h) = {h}"
| "part_views (PartComment ps) = parts_views ps"
| "part_views (PartIn k ps) = parts_views ps"
| "part_views _ = {}"
| "parts_views [] = {}"
| "parts_views (p # ps) = part_views p \<union> parts_views ps"

subsection \<open>Pushing is writing later\<close>

text \<open>From \<open>start\<close> the instructions of \<open>b\<close> do \<open>W\<close> and reach its end, in every extension of \<open>b\<close>.\<close>

definition segment :: "float_display \<Rightarrow> view_buffer \<Rightarrow> nat \<Rightarrow> (formatter \<Rightarrow> formatter run) \<Rightarrow> bool" where
  "segment D b start W \<longleftrightarrow>
     (\<forall>b' K. extends b b' \<longrightarrow> runs D b' (next_ptr b) K \<longrightarrow> runs D b' start (\<lambda>f. bind_run (W f) K))"

definition appends :: "float_display \<Rightarrow> view_buffer \<Rightarrow> view_buffer \<Rightarrow> (formatter \<Rightarrow> formatter run) \<Rightarrow> bool" where
  "appends D b b' E \<longleftrightarrow> extends b b' \<and>
     (\<forall>start W. segment D b start W \<longrightarrow> segment D b' start (\<lambda>f. bind_run (W f) E))"

lemma segment_empty: "segment D b (next_ptr b) return_run"
  by (simp add: segment_def)

lemma segment_ret:
  "segment D b start W \<Longrightarrow> runs D (push_instruction IRet b) start W"
  unfolding segment_def
  by (drule spec [of _ "push_instruction IRet b"], drule spec [of _ return_run])
    (simp add: extends_def push_instruction_def next_ptr_def fetch_def runs_ret)

lemma appends_refl: "appends D b b return_run"
  by (simp add: appends_def)

lemma appends_trans:
  assumes "appends D a b E" "appends D b c F"
  shows "appends D a c (\<lambda>f. bind_run (E f) F)"
  unfolding appends_def
proof (intro conjI allI impI)
  show "extends a c" using assms extends_trans by (auto simp: appends_def)
  fix start W assume "segment D a start W"
  with assms(1) have "segment D b start (\<lambda>f. bind_run (W f) E)" by (simp add: appends_def)
  with assms(2) have "segment D c start (\<lambda>f. bind_run (bind_run (W f) E) F)" by (simp add: appends_def)
  then show "segment D c start (\<lambda>f. bind_run (W f) (\<lambda>f. bind_run (E f) F))" by (simp only: bind_run_assoc)
qed

lemma appends_instruction:
  assumes c: "consts_extend (vb_consts b) c" and b': "b' = push_instruction i (with_consts b c)"
    and step: "\<And>d K. extends b' d \<Longrightarrow> fetch (vb_instructions d) (next_ptr b) = Done i \<Longrightarrow>
      runs D d (next_ptr b + 1) K \<Longrightarrow> runs D d (next_ptr b) (\<lambda>f. bind_run (E f) K)"
  shows "appends D b b' E"
proof -
  have e: "extends b b'"
    using c by (simp add: b' extends_def push_instruction_def with_consts_def)
  have "segment D b' start (\<lambda>f. bind_run (W f) E)" if W: "segment D b start W" for start W
    unfolding segment_def
  proof (intro allI impI)
    fix d K assume d: "extends b' d" and K: "runs D d (next_ptr b') K"
    have "next_ptr b' = next_ptr b + 1" by (simp add: b' next_ptr_def push_instruction_def with_consts_def)
    moreover have "fetch (vb_instructions d) (next_ptr b) = Done i"
      by (rule fetch_prefix_Done [of "vb_instructions b'"])
        (use d in \<open>simp_all add: extends_def b' next_ptr_def push_instruction_def with_consts_def fetch_def\<close>)
    ultimately have "runs D d (next_ptr b) (\<lambda>f. bind_run (E f) K)" using step [OF d] K by simp
    with W extends_trans [OF e d] have "runs D d start (\<lambda>f. bind_run (W f) (\<lambda>f. bind_run (E f) K))"
      unfolding segment_def by blast
    then show "runs D d start (\<lambda>f. bind_run (bind_run (W f) E) K)" by (simp only: bind_run_assoc)
  qed
  with e show ?thesis by (simp add: appends_def)
qed

lemma appends_emit:
  assumes "consts_extend (vb_consts b) c" "control_of i = Emit" "refs_ok c i" "\<And>f. emit D c i f = E f"
  shows "appends D b (push_instruction i (with_consts b c)) E"
proof (rule appends_instruction [OF assms(1) refl])
  fix d K assume d: "extends (push_instruction i (with_consts b c)) d"
    and f: "fetch (vb_instructions d) (next_ptr b) = Done i" and K: "runs D d (next_ptr b + 1) K"
  have c: "consts_extend c (vb_consts d)" using d by (simp add: extends_def push_instruction_def with_consts_def)
  have "runs D d (next_ptr b) (\<lambda>f. bind_run (emit D (vb_consts d) i f) K)"
    by (rule runs_emit [OF f assms(2) refs_ok_extend [OF c assms(3)] K])
  then show "runs D d (next_ptr b) (\<lambda>f. bind_run (E f) K)" by (simp add: emit_extend [OF c assms(3)] assms(4))
qed

lemma with_consts_same [simp]: "with_consts b (vb_consts b) = b"
  by (simp add: with_consts_def)

lemmas appends_emit_same = appends_emit [where c = "vb_consts b" and b = b for b, simplified]

lemma html_write_empty [simp]: "html_write_str k [] = return_run"
  by (rule ext) (simp add: html_write_str_eq accepts_def escaped_def)

lemma appends_strings:
  "appends D b (buffer_static_str v k b) (html_write_str k v)"
  "appends D b (buffer_promoted_str v k b) (html_write_str k v)"
  "appends D b (buffer_string v k b) (html_write_str k v)"
proof -
  show "appends D b (buffer_static_str v k b) (html_write_str k v)"
    by (cases "v = []") (auto simp: buffer_static_str_def const_static_str_def consts_extend_def after_fetch_def fetch_def
        appends_refl intro!: appends_emit)
  show "appends D b (buffer_promoted_str v k b) (html_write_str k v)"
    by (cases "v = []") (auto simp: buffer_promoted_str_def appends_refl intro!: appends_emit_same)
  show "appends D b (buffer_string v k b) (html_write_str k v)"
    by (cases "v = []") (auto simp: buffer_string_def const_string_def consts_extend_def after_fetch_def fetch_def
        appends_refl intro!: appends_emit)
qed

lemma appends_str:
  assumes "buffer_str v k b = Done b'"
  shows "appends D b b' (html_write_str k v)"
proof (cases "v = []")
  case True
  with assms show ?thesis by (simp add: buffer_str_def appends_refl)
next
  case False
  define c where "c = ConstBuffer (cb_static_strs (vb_consts b)) (cb_strings (vb_consts b)) (cb_strs (vb_consts b) @ v)
    (cb_dyns (vb_consts b)) (cb_views (vb_consts b)) (cb_regions (vb_consts b)) (cb_headers (vb_consts b))"
  define i where "i = IStr (length (cb_strs (vb_consts b))) (of_nat (length v)) k"
  from assms False have len: "length v < 2 ^ 32" and b': "b' = push_instruction i (with_consts b c)"
    by (auto simp: buffer_str_def const_str_def c_def i_def split: if_splits)
  from len have u: "unat (of_nat (length v) :: 32 word) = length v"
    by (simp add: unat_of_nat take_bit_nat_eq_self)
  show ?thesis unfolding b'
    by (rule appends_emit) (simp_all add: c_def i_def consts_extend_def after_fetch_def fetch_str_def u)
qed

lemma appends_prim:
  assumes "buffer_prim v b = Done b'"
  shows "appends D b b' (\<lambda>f. return_run (fmt_str (prim_display D v) f))"
proof -
  have unescaped: "html_write_str CxUnescaped s = (\<lambda>f. return_run (fmt_str s f))" for s by (rule ext) simp
  show ?thesis
  proof (cases v)
    case (PI128 x)
    with assms show ?thesis using appends_str [of _ CxUnescaped] by (simp add: unescaped)
  next
    case (PU128 x)
    with assms show ?thesis using appends_str [of _ CxUnescaped] by (simp add: unescaped)
  qed (use assms in \<open>auto intro!: appends_emit_same\<close>)
qed

lemma appends_others:
  "appends D b (buffer_char v k b) (\<lambda>f. Some (html_write_char k v f))"
  "appends D b (buffer_dyn d k b) (write_all k (dp_writes d))"
  "appends D b (buffer_region_start r b)
     (\<lambda>f. return_run (fmt_str (''<!--::topcoat::region::start('' @ region_display r @ '')-->'') f))"
  "appends D b (buffer_region_end r b)
     (\<lambda>f. return_run (fmt_str (''<!--::topcoat::region::end('' @ region_display r @ '')-->'') f))"
  "appends D b (buffer_status_code code b) (\<lambda>f. return_run (record_status_code code f))"
  "appends D b (buffer_headers h b) (\<lambda>f. return_run (record_headers h f))"
  by (auto simp: buffer_char_def buffer_dyn_def const_dyn_def buffer_region_start_def buffer_region_end_def
      const_region_def buffer_status_code_def buffer_headers_def const_headers_def consts_extend_def after_fetch_def
      fetch_def intro!: appends_emit appends_emit_same)

lemma appends_view:
  assumes "buffer_view h b = Done b'" "displays D b h W"
  shows "appends D b b' W"
proof (cases h)
  case (VStatic body)
  have "html_write_str CxUnescaped body = (\<lambda>f. return_run (fmt_str body f))" by (rule ext) simp
  with VStatic assms appends_strings(1) [of D b body CxUnescaped] show ?thesis by simp
next
  case (VScoped i entry n)
  with assms have b': "b' = push_instruction (ICall entry) (with_consts b (vb_consts b))" and W: "runs D b entry W"
    by (auto split: if_splits)
  show ?thesis
  proof (rule appends_instruction [OF _ b'])
    fix d K assume d: "extends b' d" and f: "fetch (vb_instructions d) (next_ptr b) = Done (ICall entry)"
      and K: "runs D d (next_ptr b + 1) K"
    have "extends b b'" by (simp add: b' extends_def push_instruction_def)
    then have "runs D d entry W" using runs_extend [OF W] extends_trans d by blast
    with f K show "runs D d (next_ptr b) (\<lambda>f. bind_run (W f) K)" by (intro runs_call)
  qed simp
next
  case (VOwned inner entry n)
  define c where "c = snd (const_view inner entry (vb_consts b))"
  define p where "p = length (cb_views (vb_consts b))"
  from VOwned assms have b': "b' = push_instruction (IViewHandle p) (with_consts b c)" and W: "runs D inner entry W"
    by (auto simp: c_def p_def const_view_def)
  show ?thesis
  proof (rule appends_instruction [OF _ b'])
    show "consts_extend (vb_consts b) c" by (simp add: c_def const_view_def consts_extend_def)
    fix d K assume d: "extends b' d" and f: "fetch (vb_instructions d) (next_ptr b) = Done (IViewHandle p)"
      and K: "runs D d (next_ptr b + 1) K"
    have "fetch (cb_views c) p = Done (inner, entry)" by (simp add: c_def p_def const_view_def fetch_def)
    moreover have "prefix (cb_views c) (cb_views (vb_consts d))"
      using d by (simp add: b' extends_def consts_extend_def push_instruction_def with_consts_def)
    ultimately have "fetch (cb_views (vb_consts d)) p = Done (inner, entry)" by (rule fetch_prefix_Done [rotated])
    with f W K show "runs D d (next_ptr b) (\<lambda>f. bind_run (W f) K)" by (intro runs_nested)
  qed
qed

lemma bind_run_Done: "bind_run x k = return_run y \<Longrightarrow> (\<And>z. x = return_run z \<Longrightarrow> k z = return_run y \<Longrightarrow> P) \<Longrightarrow> P"
  by (cases x; cases "the x") (auto simp: bind_run_def)

lemma html_write_unescaped: "html_write_str CxUnescaped v = (\<lambda>f. return_run (fmt_str v f))"
  by (rule ext) simp

lemmas push_defs = push_str_def push_static_str_def push_promoted_str_def push_string_def push_str_unescaped_def
  push_static_str_unescaped_def push_promoted_str_unescaped_def push_string_unescaped_def push_char_def push_prim_def
  push_dyn_def push_view_handle_def push_status_code_def push_headers_def

lemmas sink_defs = sink_str_def sink_static_str_def sink_promoted_str_def sink_string_def sink_char_def sink_prim_def
  sink_region_start_def sink_region_end_def sink_dyn_def sink_view_def sink_status_code_def sink_headers_def

lemma write_part_simps_fun:
  "write_part D V k (PartStr v) = html_write_str k v"
  "write_part D V k (PartStaticStr v) = html_write_str k v"
  "write_part D V k (PartPromotedStr v) = html_write_str k v"
  "write_part D V k (PartString v) = html_write_str k v"
  "write_part D V k (PartStrUnescaped v) = (\<lambda>f. return_run (fmt_str v f))"
  "write_part D V k (PartStaticStrUnescaped v) = (\<lambda>f. return_run (fmt_str v f))"
  "write_part D V k (PartPromotedStrUnescaped v) = (\<lambda>f. return_run (fmt_str v f))"
  "write_part D V k (PartStringUnescaped v) = (\<lambda>f. return_run (fmt_str v f))"
  "write_part D V k (PartChar c) = (\<lambda>f. Some (html_write_char k c f))"
  "write_part D V k (PartPrim x) = (\<lambda>f. return_run (fmt_str (prim_display D x) f))"
  "write_part D V k (PartDyn d) = write_all k (dp_writes d)"
  "write_part D V k (PartView h) = V h"
  "write_part D V k (PartRegionStart r) =
     (\<lambda>f. return_run (fmt_str (''<!--::topcoat::region::start('' @ region_display r @ '')-->'') f))"
  "write_part D V k (PartRegionEnd r) =
     (\<lambda>f. return_run (fmt_str (''<!--::topcoat::region::end('' @ region_display r @ '')-->'') f))"
  "write_part D V k (PartStatusCode code) = (\<lambda>f. return_run (record_status_code code f))"
  "write_part D V k (PartHeaders hs) = (\<lambda>f. return_run (record_headers hs f))"
  "write_part D V k (PartComment ps) =
     (\<lambda>f. bind_run (return_run (fmt_str ''<!--'' f)) (\<lambda>f. bind_run (write_parts D V CxComment ps f) (\<lambda>f. return_run (fmt_str ''-->'' f))))"
  "write_part D V k (PartIn k' ps) = write_parts D V k' ps"
  "write_parts D V k [] = return_run"
  "write_parts D V k (p # ps) = (\<lambda>f. bind_run (write_part D V k p f) (write_parts D V k ps))"
  by (rule ext, simp only: write_part.simps write_parts.simps bind_run_simps)+

lemma push_parts_simps_fun:
  "push_parts D [] = return_run"
  "push_parts D (p # ps) = (\<lambda>w. bind_run (push_part D p w) (push_parts D ps))"
  "push_part D (PartIn k ps) = in_context k (push_parts D ps)"
  "push_part D (PartComment ps) = push_comment D (push_parts D ps)"
  by (rule ext, simp)+

text \<open>The contract of a sink.  \<open>step s E s'\<close> says that the sink has gone from \<open>s\<close> to \<open>s'\<close> by taking in
  what \<open>E\<close> writes; \<open>good\<close> are the views it takes, which write \<open>V\<close>.\<close>

locale sink_contract =
  fixes D :: float_display and V :: "view_handle \<Rightarrow> formatter \<Rightarrow> formatter run" and good :: "view_handle \<Rightarrow> bool"
    and step :: "sink \<Rightarrow> (formatter \<Rightarrow> formatter run) \<Rightarrow> sink \<Rightarrow> bool" and valid :: "sink \<Rightarrow> bool"
  assumes none: "valid s \<Longrightarrow> step s return_run s"
    and seq: "step s E t \<Longrightarrow> step t F u \<Longrightarrow> step s (\<lambda>f. bind_run (E f) F) u"
    and kept: "step s E t \<Longrightarrow> valid t"
    and strs: "valid s \<Longrightarrow> sink_str D v k s = return_run t \<Longrightarrow> step s (html_write_str k v) t"
      "valid s \<Longrightarrow> sink_static_str D v k s = return_run t \<Longrightarrow> step s (html_write_str k v) t"
      "valid s \<Longrightarrow> sink_promoted_str D v k s = return_run t \<Longrightarrow> step s (html_write_str k v) t"
      "valid s \<Longrightarrow> sink_string D v k s = return_run t \<Longrightarrow> step s (html_write_str k v) t"
    and chars: "valid s \<Longrightarrow> sink_char D c k s = return_run t \<Longrightarrow> step s (\<lambda>f. Some (html_write_char k c f)) t"
    and prims: "valid s \<Longrightarrow> sink_prim D x s = return_run t \<Longrightarrow> step s (\<lambda>f. return_run (fmt_str (prim_display D x) f)) t"
    and dyns: "valid s \<Longrightarrow> sink_dyn D d k s = return_run t \<Longrightarrow> step s (write_all k (dp_writes d)) t"
    and views: "valid s \<Longrightarrow> good h \<Longrightarrow> sink_view D h s = return_run t \<Longrightarrow> step s (V h) t"
    and regions: "valid s \<Longrightarrow> sink_region_start r s = return_run t \<Longrightarrow> step s
        (\<lambda>f. return_run (fmt_str (''<!--::topcoat::region::start('' @ region_display r @ '')-->'') f)) t"
      "valid s \<Longrightarrow> sink_region_end r s = return_run t \<Longrightarrow> step s
        (\<lambda>f. return_run (fmt_str (''<!--::topcoat::region::end('' @ region_display r @ '')-->'') f)) t"
    and metadata: "valid s \<Longrightarrow> sink_status_code code s = return_run t \<Longrightarrow> step s (\<lambda>f. return_run (record_status_code code f)) t"
      "valid s \<Longrightarrow> sink_headers hs s = return_run t \<Longrightarrow> step s (\<lambda>f. return_run (record_headers hs f)) t"
begin

definition pushes :: "html_context \<Rightarrow> (parts_writer \<Rightarrow> parts_writer run) \<Rightarrow> (formatter \<Rightarrow> formatter run) \<Rightarrow> bool" where
  "pushes k p E \<longleftrightarrow>
     (\<forall>w w'. valid (pw_sink w) \<longrightarrow> pw_context w = k \<longrightarrow> p w = return_run w' \<longrightarrow>
        pw_context w' = k \<and> step (pw_sink w) E (pw_sink w'))"

lemma pushes_with:
  assumes "\<And>s t. valid s \<Longrightarrow> op s = return_run t \<Longrightarrow> step s E t"
    and "\<And>w. pw_context w = k \<Longrightarrow> p w = push_with n op w"
  shows "pushes k p E"
  unfolding pushes_def push_with_def
  using assms by (auto simp: push_with_def elim!: bind_run_Done)

lemma pushes_none: "pushes k return_run return_run"
  by (auto simp: pushes_def intro: none)

lemma pushes_seq:
  assumes "pushes k p E" "pushes k q F"
  shows "pushes k (\<lambda>w. bind_run (p w) q) (\<lambda>f. bind_run (E f) F)"
  unfolding pushes_def
proof (intro allI impI)
  fix w w' assume w: "valid (pw_sink w)" "pw_context w = k" and "bind_run (p w) q = return_run w'"
  then obtain v where v: "p w = return_run v" "q v = return_run w'" by (elim bind_run_Done) blast
  from assms(1) w v(1) have 1: "pw_context v = k" "step (pw_sink w) E (pw_sink v)" by (auto simp: pushes_def)
  with assms(2) v(2) kept [OF 1(2)] have "pw_context w' = k" "step (pw_sink v) F (pw_sink w')" by (auto simp: pushes_def)
  with seq [OF 1(2)] show "pw_context w' = k \<and> step (pw_sink w) (\<lambda>f. bind_run (E f) F) (pw_sink w')" by blast
qed

lemma pushes_cong:
  assumes "pushes k q E" "\<And>w. pw_context w = k \<Longrightarrow> p w = q w"
  shows "pushes k p E"
  using assms by (simp add: pushes_def)

lemma pushes_in_context:
  assumes "pushes j p E"
  shows "pushes k (in_context j p) E"
  unfolding pushes_def
proof (intro allI impI)
  fix w w' assume w: "valid (pw_sink w)" "pw_context w = k" and "in_context j p w = return_run w'"
  then obtain v where v: "p (w\<lparr>pw_context := j\<rparr>) = return_run v" "w' = v\<lparr>pw_context := k\<rparr>"
    by (auto simp: in_context_def elim: bind_run_Done)
  from assms w(1) v(1) have "step (pw_sink (w\<lparr>pw_context := j\<rparr>)) E (pw_sink v)"
    unfolding pushes_def by (metis parts_writer.select_convs(1,2) parts_writer.simps(5,6) parts_writer.surjective parts_writer.update_convs(2))
  with v(2) show "pw_context w' = k \<and> step (pw_sink w) E (pw_sink w')" by simp
qed

lemma pushes_unescaped: "pushes k (push_promoted_str_unescaped D v) (\<lambda>f. return_run (fmt_str v f))"
  by (rule pushes_with [where op = "sink_promoted_str D v CxUnescaped"])
    (auto simp: push_defs html_write_unescaped [symmetric] intro: strs)

lemma pushes_list:
  assumes "\<And>p k. p \<in> set ps \<Longrightarrow> (\<forall>h \<in> part_views p. good h) \<Longrightarrow> pushes k (push_part D p) (write_part D V k p)"
    and "\<forall>h \<in> parts_views ps. good h"
  shows "pushes k (push_parts D ps) (write_parts D V k ps)"
  using assms
proof (induction ps)
  case Nil
  then show ?case by (simp add: pushes_none write_part_simps_fun push_parts_simps_fun)
next
  case (Cons p ps)
  then show ?case unfolding write_part_simps_fun push_parts_simps_fun by (intro pushes_seq) auto
qed

lemma pushes_part:
  "(\<forall>h \<in> part_views p. good h) \<Longrightarrow> pushes k (push_part D p) (write_part D V k p)"
proof (induction p arbitrary: k)
  case (PartStr v)
  show ?case unfolding write_part_simps_fun
    by (rule pushes_with [where op = "sink_str D v k"]) (erule (1) strs(1), simp_all add: push_defs)
next
  case (PartStaticStr v)
  show ?case unfolding write_part_simps_fun
    by (rule pushes_with [where op = "sink_static_str D v k"]) (erule (1) strs(2), simp_all add: push_defs)
next
  case (PartPromotedStr v)
  show ?case unfolding write_part_simps_fun
    by (rule pushes_with [where op = "sink_promoted_str D v k"]) (erule (1) strs(3), simp_all add: push_defs)
next
  case (PartString v)
  show ?case unfolding write_part_simps_fun
    by (rule pushes_with [where op = "sink_string D v k"]) (erule (1) strs(4), simp_all add: push_defs)
next
  case (PartStrUnescaped v)
  show ?case unfolding write_part_simps_fun
    by (rule pushes_with [where op = "sink_str D v CxUnescaped"]) (erule (1) strs(1) [of _ _ CxUnescaped, unfolded html_write_unescaped], simp_all add: push_defs)
next
  case (PartStaticStrUnescaped v)
  show ?case unfolding write_part_simps_fun
    by (rule pushes_with [where op = "sink_static_str D v CxUnescaped"]) (erule (1) strs(2) [of _ _ CxUnescaped, unfolded html_write_unescaped], simp_all add: push_defs)
next
  case (PartPromotedStrUnescaped v)
  show ?case unfolding write_part_simps_fun
    by (rule pushes_with [where op = "sink_promoted_str D v CxUnescaped"]) (erule (1) strs(3) [of _ _ CxUnescaped, unfolded html_write_unescaped], simp_all add: push_defs)
next
  case (PartStringUnescaped v)
  show ?case unfolding write_part_simps_fun
    by (rule pushes_with [where op = "sink_string D v CxUnescaped"]) (erule (1) strs(4) [of _ _ CxUnescaped, unfolded html_write_unescaped], simp_all add: push_defs)
next
  case (PartChar v)
  show ?case unfolding write_part_simps_fun
    by (rule pushes_with [where op = "sink_char D v k"]) (erule (1) chars, simp_all add: push_defs)
next
  case (PartPrim v)
  show ?case unfolding write_part_simps_fun
    by (rule pushes_with [where op = "sink_prim D v"]) (erule (1) prims, simp_all add: push_defs)
next
  case (PartDyn v)
  show ?case unfolding write_part_simps_fun
    by (rule pushes_with [where op = "sink_dyn D v k"]) (erule (1) dyns, simp_all add: push_defs)
next
  case (PartStatusCode v)
  show ?case unfolding write_part_simps_fun
    by (rule pushes_with [where op = "sink_status_code v"]) (erule (1) metadata(1), simp_all add: push_defs)
next
  case (PartHeaders v)
  show ?case unfolding write_part_simps_fun
    by (rule pushes_with [where op = "sink_headers v"]) (erule (1) metadata(2), simp_all add: push_defs)
next
  case (PartRegionStart r)
  show ?case
  proof (cases "k = CxText")
    case True
    then show ?thesis unfolding write_part_simps_fun
      by (intro pushes_with [where op = "sink_region_start r"]) (erule (1) regions, simp add: push_region_start_def)
  qed (simp add: pushes_def push_region_start_def)
next
  case (PartRegionEnd r)
  show ?case
  proof (cases "k = CxText")
    case True
    then show ?thesis unfolding write_part_simps_fun
      by (intro pushes_with [where op = "sink_region_end r"]) (erule (1) regions, simp add: push_region_end_def)
  qed (simp add: pushes_def push_region_end_def)
next
  case (PartView h)
  then have "good h" by simp
  then show ?case unfolding write_part_simps_fun
    by (intro pushes_with [where op = "sink_view D h"]) (erule (2) views, simp add: push_defs)
next
  case (PartIn j ps)
  then have body: "pushes j (push_parts D ps) (write_parts D V j ps)" by (intro pushes_list) simp_all
  show ?case unfolding write_part_simps_fun push_parts_simps_fun by (rule pushes_in_context [OF body])
next
  case (PartComment ps)
  then have body: "pushes CxComment (push_parts D ps) (write_parts D V CxComment ps)" by (intro pushes_list) simp_all
  show ?case
  proof (cases "k = CxText")
    case True
    show ?thesis unfolding write_part_simps_fun push_parts_simps_fun
      by (rule pushes_cong [OF pushes_seq [OF pushes_unescaped pushes_seq [OF pushes_in_context [OF body] pushes_unescaped]]])
        (simp add: push_comment_def True)
  qed (simp add: pushes_def push_comment_def)
qed

lemma pushes_parts: "\<forall>h \<in> parts_views ps. good h \<Longrightarrow> pushes k (push_parts D ps) (write_parts D V k ps)"
  by (rule pushes_list [OF pushes_part])

lemma push_parts_step:
  assumes "\<forall>h \<in> parts_views ps. good h" "valid (pw_sink w)" "push_parts D ps w = return_run w'"
  shows "pw_context w' = pw_context w" "step (pw_sink w) (write_parts D V (pw_context w) ps) (pw_sink w')"
proof -
  have "pw_context w' = pw_context w \<and> step (pw_sink w) (write_parts D V (pw_context w) ps) (pw_sink w')"
    using pushes_parts [OF assms(1), of "pw_context w", unfolded pushes_def, THEN spec, THEN spec, THEN mp, THEN mp, THEN mp,
        OF assms(2) refl assms(3)] .
  then show "pw_context w' = pw_context w" "step (pw_sink w) (write_parts D V (pw_context w) ps) (pw_sink w')"
    by blast+
qed

end

text \<open>A buffer that extends \<open>b0\<close>.\<close>

definition buffer_valid :: "view_buffer \<Rightarrow> sink \<Rightarrow> bool" where
  "buffer_valid b0 s \<longleftrightarrow> (\<exists>b. s = SinkBuffer b \<and> extends b0 b)"

definition buffer_step :: "float_display \<Rightarrow> view_buffer \<Rightarrow> sink \<Rightarrow> (formatter \<Rightarrow> formatter run) \<Rightarrow> sink \<Rightarrow> bool" where
  "buffer_step D b0 s E t \<longleftrightarrow> (\<exists>b c. s = SinkBuffer b \<and> t = SinkBuffer c \<and> extends b0 b \<and> appends D b c E)"

lemma buffer_step_op:
  assumes "buffer_valid b0 s" "on_sink op oc s = return_run t" "\<And>b c. extends b0 b \<Longrightarrow> op b = Done c \<Longrightarrow> appends D b c E"
  shows "buffer_step D b0 s E t"
proof -
  from assms(1) obtain b where b: "s = SinkBuffer b" "extends b0 b" by (auto simp: buffer_valid_def)
  from assms(2) obtain c where c: "op b = Done c" "t = SinkBuffer c"
    by (cases "op b") (simp_all add: b(1) on_sink_def)
  from assms(3) [OF b(2) c(1)] b c(2) show ?thesis by (auto simp: buffer_step_def)
qed

interpretation buffer_sink: sink_contract D "render_into D (Some b0)" "live D b0" "buffer_step D b0" "buffer_valid b0"
  for D b0
proof (unfold_locales, unfold sink_defs, goal_cases)
  case (1 s)
  then show ?case by (auto simp: buffer_valid_def buffer_step_def appends_refl)
next
  case (2 s E t F u)
  then show ?case by (auto simp: buffer_step_def intro: appends_trans)
next
  case (3 s E t)
  then show ?case by (auto simp: buffer_step_def buffer_valid_def appends_def intro: extends_trans)
next
  case (11 s h t)
  show ?case
    by (rule buffer_step_op [OF 11(1,3)]) (rule appends_view [OF _ displays_extend [OF displays_render [OF 11(2)]]])
next
  case (12 s r t)
  show ?case by (rule buffer_step_op [OF 12]) (use appends_others(3) in blast)
next
  case (13 s r t)
  show ?case by (rule buffer_step_op [OF 13]) (use appends_others(4) in blast)
qed (erule (1) buffer_step_op; auto intro: appends_str appends_strings appends_others appends_prim)+

lemma push_parts_sink:
  assumes "\<forall>h \<in> parts_views ps. live D b h" "push_parts D ps (parts_writer_new b k) = return_run w"
  obtains b' where "pw_sink w = SinkBuffer b'" "appends D b b' (write_parts D (render_into D (Some b)) k ps)"
  using buffer_sink.push_parts_step(2) [OF assms(1) _ assms(2)] that
  by (auto simp: parts_writer_new_def buffer_valid_def buffer_step_def)

lemma live_block:
  assumes "block (push_parts D ps) b = return_run (h, b')" "\<forall>h \<in> parts_views ps. live D b h"
  shows "extends b b'" "displays D b' h (write_parts D (render_into D (Some b)) CxText ps)"
proof -
  let ?W = "write_parts D (render_into D (Some b)) CxText ps"
  from assms(1) obtain w where "push_parts D ps (parts_writer_new b CxText) = return_run w"
    and w': "(case pw_sink w of SinkBuffer c \<Rightarrow> return_run (VScoped (vb_id c) (next_ptr b) (pw_size_hint w), push_instruction IRet c)
      | SinkCollector _ _ \<Rightarrow> panic_run) = return_run (h, b')"
    by (auto simp: block_def elim: bind_run_Done)
  note w = this(1)
  from push_parts_sink [OF assms(2) w] obtain c where c: "pw_sink w = SinkBuffer c" "appends D b c ?W" .
  from w' have b': "b' = push_instruction IRet c" and h: "h = VScoped (vb_id c) (next_ptr b) (pw_size_hint w)" by (auto simp: c(1))
  have "extends c b'" by (simp add: b' extends_def push_instruction_def)
  with c(2) show "extends b b'" using extends_trans by (auto simp: appends_def)
  have "segment D c (next_ptr b) (\<lambda>f. bind_run (return_run f) ?W)"
    using c(2) segment_empty [of D b] unfolding appends_def by blast
  from segment_ret [OF this] show "displays D b' h ?W"
    by (simp add: h b') (simp add: push_instruction_def)
qed

text \<open>C4. Rendering a block writes what pushing its parts straight to the output would have
  written, part by part: strings escaped for their context, primitives, comments, regions, the
  nested views wherever their instructions are, status codes and headers in order.  Building
  the block leaves every view already in the buffer as it was.\<close>

theorem block_renders_its_parts:
  assumes "block (push_parts D ps) b = return_run (h, b')" "\<forall>g \<in> parts_views ps. live D b g"
  shows "live D b' h \<and> render_into D (Some b') h f = write_parts D (render_into D (Some b)) CxText ps f \<and>
    (\<forall>g. live D b g \<longrightarrow> live D b' g \<and> render_into D (Some b') g f = render_into D (Some b) g f)"
proof -
  note l = live_block [OF assms]
  have "live D b' h" using l(2) by (auto simp: live_def)
  moreover have "render_into D (Some b') h f = write_parts D (render_into D (Some b)) CxText ps f"
    using render_displays [OF l(2)] by simp
  ultimately show ?thesis using live_extend [OF _ l(1)] by metis
qed

definition plain_floats :: float_display where
  "plain_floats = \<lparr>fd_f32 = (\<lambda>_. ''0''), fd_f64 = (\<lambda>_. ''0'')\<rparr>"

theorem block_renders_its_parts_witness:
  "\<exists>h b'. block (push_parts plain_floats [PartStr ''a<b'', PartComment [PartStr ''>''], PartView (VStatic ''<hr>'')])
      (view_buffer_new 0) = return_run (h, b') \<and>
    render_into plain_floats (Some b') h (formatter_new []) =
      return_run (formatter_new ''a&lt;b<!--&gt;--><hr>'')"
proof -
  let ?ps = "[PartStr ''a<b'', PartComment [PartStr ''>''], PartView (VStatic ''<hr>'')]"
  have "\<exists>h b'. block (push_parts plain_floats ?ps) (view_buffer_new 0) = return_run (h, b')"
    by (simp add: block_def parts_writer_new_def push_defs sink_defs push_with_def on_sink_def buffer_str_def const_str_def
        view_buffer_new_def const_buffer_new_def push_comment_def in_context_def buffer_promoted_str_def
        buffer_static_str_def const_static_str_def Let_def with_consts_def push_instruction_def)
  then obtain h b' where b: "block (push_parts plain_floats ?ps) (view_buffer_new 0) = return_run (h, b')" by blast
  moreover have "\<forall>g \<in> parts_views ?ps. live plain_floats (view_buffer_new 0) g" by (simp add: live_def)
  ultimately have "render_into plain_floats (Some b') h (formatter_new []) =
      write_parts plain_floats (render_into plain_floats (Some (view_buffer_new 0))) CxText ?ps (formatter_new [])"
    using block_renders_its_parts by blast
  then have "render_into plain_floats (Some b') h (formatter_new []) = return_run (formatter_new ''a&lt;b<!--&gt;--><hr>'')"
    by (simp add: html_write_str_eq accepts_def escaped_def tables formatter_new_def fmt_str_def)
  with b show ?thesis by blast
qed

lemma write_all_returns: "\<exists>r. write_all k ws f = Some r"
proof (induction k ws f rule: write_all.induct)
  case (2 c s ws f)
  then show ?case by (cases "accepts c s") (simp_all add: html_write_str_eq)
next
  case (3 c k ws f)
  then show ?case by (cases "html_write_char c k f") simp_all
qed simp

lemma emit_returns: "refs_ok c i \<Longrightarrow> \<exists>r. emit D c i f = Some r"
  using write_all_returns
  by (cases i) (auto simp: html_write_str_eq after_fetch_def fetch_def fetch_str_def)

lemma runs_returns: "runs D b ptr W \<Longrightarrow> \<exists>r. W f = Some r"
proof (induction arbitrary: f rule: runs.induct)
  case (runs_emit b ptr i W)
  from emit_returns [OF runs_emit.hyps(3), of D f] obtain r where "emit D (vb_consts b) i f = Some r" by blast
  with runs_emit.IH show ?case by (cases r) simp_all
next
  case (runs_call b ptr entry V W)
  from runs_call.IH(1) [of f] obtain r where "V f = Some r" by blast
  with runs_call.IH(2) show ?case by (cases r) simp_all
next
  case (runs_nested b ptr p inner entry V W)
  from runs_nested.IH(1) [of f] obtain r where "V f = Some r" by blast
  with runs_nested.IH(2) show ?case by (cases r) simp_all
qed simp

lemma displays_returns: "displays D b h W \<Longrightarrow> \<exists>r. W f = Some r"
  by (cases h) (auto dest: runs_returns)

lemma live_returns: "live D b h \<Longrightarrow> \<exists>r. render_into D (Some b) h f = Some r"
  by (rule displays_returns [OF displays_render])

text \<open>C34. Sealing a view that was built in a buffer gives a view that owns the buffer: it renders
  the same with any build running or none, rendering it returns, and it can be spliced into any
  other buffer.  A handle of another buffer is refused.\<close>

theorem sealed_view_renders:
  assumes "live D b h"
  shows "(\<exists>h'. seal h b = Done h' \<and> (\<forall>c. live D c h') \<and>
      (\<forall>active. render_into D active h' f = render_into D (Some b) h f \<and> (\<exists>r. render_into D active h' f = Some r))) \<and>
    (i \<noteq> vb_id b \<longrightarrow> seal (VScoped i entry n) b = Panic)"
proof -
  obtain h' where h': "seal h b = Done h'" "\<And>c. displays D c h' (render_into D (Some b) h)"
    "\<And>active. render_into D active h' f = render_into D (Some b) h f"
    using displays_render [OF assms] assms by (cases h) (auto simp: live_def)
  with live_returns [OF assms, of f] show ?thesis by (auto simp: live_def)
qed

theorem sealed_view_renders_witness:
  "\<exists>h'. seal (VScoped 0 0 0) (ViewBuffer 0 [IBool True, IRet] const_buffer_new) = Done h' \<and>
    render_into plain_floats None h' (formatter_new []) = return_run (formatter_new ''true'')"
proof -
  let ?b = "ViewBuffer 0 [IBool True, IRet] const_buffer_new"
  have ret: "runs plain_floats ?b 1 return_run" by (rule runs_ret) (simp add: fetch_def)
  have "runs plain_floats ?b 0 (\<lambda>f. bind_run (emit plain_floats (vb_consts ?b) (IBool True) f) return_run)"
    by (rule runs_emit) (use ret in \<open>simp_all add: fetch_def\<close>)
  then have d: "displays plain_floats ?b (VScoped 0 0 0) (\<lambda>f. return_run (fmt_str ''true'' f))" by simp
  then have "live plain_floats ?b (VScoped 0 0 0)" unfolding live_def by blast
  from sealed_view_renders [OF this, of "formatter_new []"] render_displays [OF d] show ?thesis
    by (auto simp: formatter_new_def fmt_str_def)
qed

end
