(* ===== verification/View_Parts.thy ===== *)
theory View_Parts
  imports View_Buffer
begin

text \<open>
  Attributes and class lists: \<^verbatim>\<open>crates/topcoat-view/src/html/attribute.rs\<close>,
  \<^verbatim>\<open>html/attribute/*.rs\<close> and \<^verbatim>\<open>html/class.rs\<close>.  A value that converts itself into parts is what
  it pushes on a writer; a captured key or value is the text a collector has gathered.
\<close>

subsection \<open>What a writer function writes\<close>

text \<open>\<open>writes_text W r\<close>: \<open>W\<close> appends the same text to any formatter, or panics with any.\<close>

definition writes_text :: "(formatter \<Rightarrow> formatter run) \<Rightarrow> str outcome \<Rightarrow> bool" where
  "writes_text W r \<longleftrightarrow>
     (case r of
        Panic \<Rightarrow> \<forall>f. W f = panic_run
      | Done t \<Rightarrow> \<forall>f. \<exists>g. W f = return_run g \<and> fm_buf g = fm_buf f @ t)"

definition cat :: "str outcome \<Rightarrow> str outcome \<Rightarrow> str outcome" where
  "cat r q = bind_outcome r (\<lambda>s. bind_outcome q (\<lambda>t. Done (s @ t)))"

lemma cat_simps [simp]:
  "cat (Done s) (Done t) = Done (s @ t)" "cat Panic q = Panic" "cat r Panic = Panic" "cat (Done []) q = q" "cat r (Done []) = r"
  "cat (cat r q) p = cat r (cat q p)"
  by (cases r; cases q; cases p; simp add: cat_def)+

lemma writes_text_simps:
  "writes_text return_run (Done [])"
  "writes_text (\<lambda>f. return_run (fmt_str t f)) (Done t)"
  "writes_text (\<lambda>f. return_run (record_status_code code f)) (Done [])"
  "writes_text (\<lambda>f. return_run (record_headers h f)) (Done [])"
  "writes_text (\<lambda>f. panic_run) Panic"
  by (simp_all add: writes_text_def record_status_code_def record_headers_def)

lemma writes_text_seq:
  assumes "writes_text W r" "writes_text U q"
  shows "writes_text (\<lambda>f. bind_run (W f) U) (cat r q)"
proof (cases r)
  case (Done s)
  note s = this
  show ?thesis
  proof (cases q)
    case (Done t)
    have "\<exists>g. bind_run (W f) U = return_run g \<and> fm_buf g = fm_buf f @ s @ t" for f
    proof -
      from assms(1) s obtain g where g: "W f = return_run g" "fm_buf g = fm_buf f @ s" by (auto simp: writes_text_def)
      moreover from assms(2) Done obtain h where "U g = return_run h" "fm_buf h = fm_buf g @ t" by (auto simp: writes_text_def)
      ultimately show ?thesis by simp
    qed
    with s Done show ?thesis by (simp add: writes_text_def)
  next
    case Panic
    have "bind_run (W f) U = panic_run" for f
    proof -
      from assms(1) s obtain g where "W f = return_run g" by (auto simp: writes_text_def)
      with assms(2) Panic show ?thesis by (simp add: writes_text_def)
    qed
    with s Panic show ?thesis by (simp add: writes_text_def)
  qed
next
  case Panic
  with assms(1) show ?thesis by (simp add: writes_text_def)
qed

lemma writes_text_str: "writes_text (html_write_str k v) (if accepts k v then Done (escaped k v) else Panic)"
  by (simp add: writes_text_def html_write_str_eq)

lemma writes_text_char: "\<exists>r. writes_text (\<lambda>f. Some (html_write_char k c f)) r"
proof (cases "html_write_char k c (formatter_new [])")
  case (Done g)
  then have "writes_text (\<lambda>f. Some (html_write_char k c f)) (Done (fm_buf g))"
    by (cases k) (auto simp: writes_text_def write_char_table_def write_char_ident_def formatter_new_def fmt_char_def
        fmt_str_def split: option.splits if_splits)
  then show ?thesis by blast
next
  case Panic
  then have "writes_text (\<lambda>f. Some (html_write_char k c f)) Panic"
    by (cases k) (auto simp: writes_text_def write_char_ident_def split: if_splits)
  then show ?thesis by blast
qed

lemma writes_text_all: "\<exists>r. writes_text (write_all k ws) r"
proof (induction ws)
  case Nil
  have "write_all k [] = return_run" by (rule ext) simp
  then show ?case using writes_text_simps(1) by auto
next
  case (Cons w ws)
  then obtain r where r: "writes_text (write_all k ws) r" by blast
  show ?case
  proof (cases w)
    case (WriteStr s)
    have "write_all k (w # ws) = (\<lambda>f. bind_run (html_write_str k s f) (write_all k ws))" by (rule ext) (simp add: WriteStr)
    with writes_text_seq [OF writes_text_str r] show ?thesis by auto
  next
    case (WriteChar c)
    have "write_all k (w # ws) = (\<lambda>f. bind_run (Some (html_write_char k c f)) (write_all k ws))"
      by (rule ext) (simp add: WriteChar)
    moreover obtain q where "writes_text (\<lambda>f. Some (html_write_char k c f)) q" using writes_text_char by blast
    ultimately show ?thesis using writes_text_seq [OF _ r] by metis
  qed
qed

lemma ex_writes_text:
  "(\<exists>r. writes_text W r) \<longleftrightarrow> (\<forall>f. W f = panic_run) \<or> (\<exists>t. \<forall>f. \<exists>g. W f = return_run g \<and> fm_buf g = fm_buf f @ t)"
proof
  assume "\<exists>r. writes_text W r"
  then obtain r where "writes_text W r" by blast
  then show "(\<forall>f. W f = panic_run) \<or> (\<exists>t. \<forall>f. \<exists>g. W f = return_run g \<and> fm_buf g = fm_buf f @ t)"
    by (cases r) (auto simp: writes_text_def)
next
  assume "(\<forall>f. W f = panic_run) \<or> (\<exists>t. \<forall>f. \<exists>g. W f = return_run g \<and> fm_buf g = fm_buf f @ t)"
  then have "writes_text W Panic \<or> (\<exists>t. writes_text W (Done t))" by (simp add: writes_text_def)
  then show "\<exists>r. writes_text W r" by blast
qed

lemma writes_text_emit:
  assumes "refs_ok c i" "control_of i = Emit"
  shows "\<exists>r. writes_text (emit D c i) r"
  unfolding ex_writes_text using assms
  by (cases i) (simp_all add: after_fetch_def fetch_def fetch_str_def html_write_str_eq record_status_code_def record_headers_def
      writes_text_char [unfolded ex_writes_text, simplified] writes_text_all [unfolded ex_writes_text])

lemma writes_text_runs: "runs D b ptr W \<Longrightarrow> \<exists>r. writes_text W r"
proof (induction rule: runs.induct)
  case (runs_ret b ptr)
  show ?case using writes_text_simps(1) by blast
next
  case (runs_emit b ptr i W)
  then show ?case using writes_text_seq writes_text_emit by blast
next
  case (runs_call b ptr entry V W)
  then show ?case using writes_text_seq by blast
next
  case (runs_nested b ptr p inner entry V W)
  then show ?case using writes_text_seq by blast
qed

lemma writes_text_live: "live D b h \<Longrightarrow> \<exists>r. writes_text (render_into D (Some b) h) r"
  using displays_render [of D b h] writes_text_simps(2) by (cases h) (auto dest: writes_text_runs)

text \<open>The text a function that always writes the same text writes.\<close>

definition text_of :: "(formatter \<Rightarrow> formatter run) \<Rightarrow> str outcome" where
  "text_of W = (case W (formatter_new []) of Some (Done g) \<Rightarrow> Done (fm_buf g) | _ \<Rightarrow> Panic)"

lemma text_of_eq: "writes_text W r \<Longrightarrow> text_of W = r"
proof (cases r)
  case (Done t)
  moreover assume "writes_text W r"
  ultimately obtain g where "W (formatter_new []) = return_run g" "fm_buf g = fm_buf (formatter_new []) @ t"
    by (auto simp: writes_text_def)
  with Done show ?thesis by (simp add: text_of_def formatter_new_def)
qed (simp add: writes_text_def text_of_def)

lemma writes_text_of: "\<exists>r. writes_text W r \<Longrightarrow> writes_text W (text_of W)"
  using text_of_eq by metis

lemma text_of_seq:
  "\<exists>r. writes_text W r \<Longrightarrow> \<exists>r. writes_text U r \<Longrightarrow> text_of (\<lambda>f. bind_run (W f) U) = cat (text_of W) (text_of U)"
  using text_of_eq writes_text_seq writes_text_of by metis

lemma steady_simps [simp]:
  "\<exists>r. writes_text return_run r" "\<exists>r. writes_text (\<lambda>f. return_run (fmt_str t f)) r"
  "\<exists>r. writes_text (html_write_str k v) r" "\<exists>r. writes_text (\<lambda>f. Some (html_write_char k c f)) r"
  "\<exists>r. writes_text (write_all k ws) r" "\<exists>r. writes_text (\<lambda>f. return_run (record_status_code code f)) r"
  "\<exists>r. writes_text (\<lambda>f. return_run (record_headers h f)) r"
  using writes_text_simps writes_text_str writes_text_char writes_text_all by blast+

lemma text_of_simps [simp]:
  "text_of return_run = Done []" "text_of (\<lambda>f. return_run (fmt_str t f)) = Done t"
  "text_of (\<lambda>f. return_run (record_status_code code f)) = Done []"
  "text_of (\<lambda>f. return_run (record_headers h f)) = Done []"
  using writes_text_simps text_of_eq by metis+

subsection \<open>Collecting is writing to a string\<close>

fun collector_text :: "float_display \<Rightarrow> view_buffer option \<Rightarrow> collector \<Rightarrow> str outcome" where
  "collector_text D active CEmpty = Done []"
| "collector_text D active (CSingle part) = text_of (collected_render D active part)"
| "collector_text D active (CRendered v) = Done v"

text \<open>The views a collector can hold are those that can be rendered now.\<close>

fun collector_ok :: "float_display \<Rightarrow> view_buffer option \<Rightarrow> collector \<Rightarrow> bool" where
  "collector_ok D active (CSingle part) \<longleftrightarrow> (\<exists>r. writes_text (collected_render D active part) r)"
| "collector_ok D active c \<longleftrightarrow> True"

lemma collector_render_text:
  assumes "collector_ok D active c" "\<exists>r. writes_text E r" "collector_render D active E c = return_run c'"
  shows "collector_text D active c' = cat (collector_text D active c) (text_of E)" "collector_ok D active c'"
proof -
  from assms(3) obtain v g where vg: "(case c of CEmpty \<Rightarrow> return_run []
      | CSingle first \<Rightarrow> bind_run (collected_render D active first (formatter_new [])) (\<lambda>f. return_run (fm_buf f))
      | CRendered v \<Rightarrow> return_run v) = return_run v" "E (formatter_new v) = return_run g" "c' = CRendered (fm_buf g)"
    by (auto simp: collector_render_def elim!: bind_run_Done)
  from vg(1) have "collector_text D active c = Done v"
    by (cases c) (auto simp: text_of_def elim!: bind_run_Done)
  moreover from assms(2) obtain r where r: "writes_text E r" by blast
  with vg(2) obtain t where "r = Done t" "fm_buf g = v @ t"
    by (cases r) (auto simp: writes_text_def formatter_new_def, metis formatter.select_convs(1) option.inject outcome.inject)
  ultimately show "collector_text D active c' = cat (collector_text D active c) (text_of E)" "collector_ok D active c'"
    using text_of_eq [OF r] by (simp_all add: vg(3))
qed

lemma collector_push_text:
  assumes "collector_ok D active c" "\<exists>r. writes_text (collected_render D active part) r"
    "collector_push D active part c = return_run c'"
  shows "collector_text D active c' = cat (collector_text D active c) (text_of (collected_render D active part))"
    "collector_ok D active c'"
proof -
  have "collector_text D active c' = cat (collector_text D active c) (text_of (collected_render D active part)) \<and> collector_ok D active c'"
  proof (cases "c = CEmpty")
    case True
    with assms show ?thesis by (auto simp: collector_push_def)
  next
    case False
    with assms show ?thesis using collector_render_text by (simp add: collector_push_def)
  qed
  then show "collector_text D active c' = cat (collector_text D active c) (text_of (collected_render D active part))"
    "collector_ok D active c'" by blast+
qed

lemma collector_push_str_text:
  assumes "collector_ok D active c" "collector_push_str D active v k c = return_run c'"
  shows "collector_text D active c' = cat (collector_text D active c) (text_of (html_write_str k v))" "collector_ok D active c'"
proof -
  have "collector_text D active c' = cat (collector_text D active c) (text_of (html_write_str k v)) \<and> collector_ok D active c'"
  proof (cases "c = CEmpty")
    case True
    have "collected_render D active (CString v k) = html_write_str k v" by (rule ext) simp
    with True assms show ?thesis by (auto simp: collector_push_str_def)
  next
    case False
    with assms show ?thesis using collector_render_text [OF assms(1) steady_simps(3)] by (simp add: collector_push_str_def)
  qed
  then show "collector_text D active c' = cat (collector_text D active c) (text_of (html_write_str k v))"
    "collector_ok D active c'" by blast+
qed

definition collector_valid :: "float_display \<Rightarrow> view_buffer option \<Rightarrow> sink \<Rightarrow> bool" where
  "collector_valid D active s \<longleftrightarrow> (\<exists>c. s = SinkCollector c active \<and> collector_ok D active c)"

definition collector_step :: "float_display \<Rightarrow> view_buffer option \<Rightarrow> sink \<Rightarrow> (formatter \<Rightarrow> formatter run) \<Rightarrow> sink \<Rightarrow> bool" where
  "collector_step D active s E t \<longleftrightarrow>
     (\<exists>c c'. s = SinkCollector c active \<and> t = SinkCollector c' active \<and> collector_ok D active c \<and> collector_ok D active c' \<and>
        (\<exists>r. writes_text E r) \<and> collector_text D active c' = cat (collector_text D active c) (text_of E))"

lemma collector_step_op:
  assumes "collector_valid D active s" "on_sink op (\<lambda>active. oc active) s = return_run t" "\<exists>r. writes_text E r"
    and "\<And>c c'. collector_ok D active c \<Longrightarrow> oc active c = return_run c' \<Longrightarrow>
      collector_text D active c' = cat (collector_text D active c) (text_of E) \<and> collector_ok D active c'"
  shows "collector_step D active s E t"
proof -
  from assms(1) obtain c where c: "s = SinkCollector c active" "collector_ok D active c" by (auto simp: collector_valid_def)
  from assms(2) obtain c' where c': "oc active c = return_run c'" "t = SinkCollector c' active"
    by (auto simp: c(1) on_sink_def elim: bind_run_Done)
  from assms(3) assms(4) [OF c(2) c'(1)] c c'(2) show ?thesis by (auto simp: collector_step_def)
qed

lemma take_bit_unat:
  fixes x :: "'a :: len word"
  assumes "LENGTH('a) \<le> 128"
  shows "take_bit 128 (unat x) = unat x"
proof (rule take_bit_nat_eq_self)
  have "unat x < 2 ^ LENGTH('a)" by (rule unsigned_less)
  also have "\<dots> \<le> 2 ^ 128" using assms by (rule power_increasing) simp
  finally show "unat x < 2 ^ 128" .
qed

lemma collected_render_fun:
  "collected_render D active (CChar c k) = (\<lambda>f. Some (html_write_char k c f))"
  "collected_render D active (CPromotedStr v k) = html_write_str k v"
  "collected_render D active (CStaticStr v k) = html_write_str k v"
  "collected_render D active (CString v k) = html_write_str k v"
  "collected_render D active (CDyn d k) = write_all k (dp_writes d)"
  "collected_render D active (CView h) = render_into D active h"
  "collected_render D active (collect_prim x) = (\<lambda>f. return_run (fmt_str (prim_display D x) f))"
proof -
  show "collected_render D active (collect_prim x) = (\<lambda>f. return_run (fmt_str (prim_display D x) f))"
    by (rule ext, cases x) (simp_all add: sint_up_scast is_up unsigned_ucast_eq take_bit_unat)
qed (rule ext, simp)+

text \<open>A view whose text is fixed can be held; what it writes later is what it writes now.\<close>

definition holdable :: "float_display \<Rightarrow> view_buffer option \<Rightarrow> view_handle \<Rightarrow> bool" where
  "holdable D active h \<longleftrightarrow> (\<exists>r. writes_text (render_into D active h) r)"

interpretation collector_sink: sink_contract D "render_into D active" "holdable D active"
    "collector_step D active" "collector_valid D active"
  for D active
proof (unfold_locales, unfold sink_defs, goal_cases)
  case (1 s)
  then show ?case by (auto simp: collector_valid_def collector_step_def)
next
  case (2 s E t F u)
  from 2(1) obtain c c' where c: "s = SinkCollector c active" "t = SinkCollector c' active" "collector_ok D active c"
    "\<exists>r. writes_text E r" "collector_text D active c' = cat (collector_text D active c) (text_of E)"
    unfolding collector_step_def by blast
  from 2(2) obtain d where d: "u = SinkCollector d active" "collector_ok D active d" "\<exists>r. writes_text F r"
    "collector_text D active d = cat (collector_text D active c') (text_of F)"
    unfolding collector_step_def c(2) by blast
  have "\<exists>r. writes_text (\<lambda>f. bind_run (E f) F) r" using c(4) d(3) writes_text_seq by blast
  moreover have "collector_text D active d = cat (collector_text D active c) (text_of (\<lambda>f. bind_run (E f) F))"
    by (simp only: text_of_seq [OF c(4) d(3)] d(4) c(5) cat_simps)
  ultimately show ?case unfolding collector_step_def using c(1,3) d(1,2) by blast
next
  case (3 s E t)
  then show ?case by (auto simp: collector_step_def collector_valid_def)
next
  case (4 s v k t)
  show ?case by (rule collector_step_op [OF 4 steady_simps(3)]) (use collector_push_str_text in blast)
next
  case (5 s v k t)
  show ?case by (rule collector_step_op [OF 5 steady_simps(3)])
      (use collector_push_text [of D active _ "CStaticStr v k"] in \<open>simp add: collected_render_fun\<close>)
next
  case (6 s v k t)
  show ?case by (rule collector_step_op [OF 6 steady_simps(3)])
      (use collector_push_text [of D active _ "CPromotedStr v k"] in \<open>simp add: collected_render_fun\<close>)
next
  case (7 s v k t)
  show ?case by (rule collector_step_op [OF 7 steady_simps(3)])
      (use collector_push_text [of D active _ "CString v k"] in \<open>simp add: collected_render_fun\<close>)
next
  case (8 s c k t)
  show ?case by (rule collector_step_op [OF 8 steady_simps(4)])
      (use collector_push_text [of D active _ "CChar c k"] in \<open>simp add: collected_render_fun\<close>)
next
  case (9 s x t)
  show ?case by (rule collector_step_op [OF 9 steady_simps(2)])
      (use collector_push_text [of D active _ "collect_prim x"] in \<open>simp add: collected_render_fun\<close>)
next
  case (10 s d k t)
  show ?case by (rule collector_step_op [OF 10 steady_simps(5)])
      (use collector_push_text [of D active _ "CDyn d k"] in \<open>simp add: collected_render_fun\<close>)
next
  case (11 s h t)
  then have h: "\<exists>r. writes_text (render_into D active h) r" by (simp add: holdable_def)
  show ?case by (rule collector_step_op [OF 11(1,3) h])
      (use collector_push_text [of D active _ "CView h"] h in \<open>simp add: collected_render_fun\<close>)
next
  case (12 s r t)
  then show ?case by (auto simp: collector_valid_def on_sink_def)
next
  case (13 s r t)
  then show ?case by (auto simp: collector_valid_def on_sink_def)
next
  case (14 s code t)
  show ?case by (rule collector_step_op [OF 14 steady_simps(6)]) simp
next
  case (15 s hs t)
  show ?case by (rule collector_step_op [OF 15 steady_simps(7)]) simp
qed

subsection \<open>Captured keys and values\<close>

text \<open>Running a value's pushes against a collector.\<close>

definition capture :: "float_display \<Rightarrow> view_buffer option \<Rightarrow> html_context \<Rightarrow> part list \<Rightarrow> captured_text option run" where
  "capture D active k ps =
     bind_run (push_parts D ps (parts_writer_collecting CEmpty active k)) (\<lambda>w.
       (case pw_sink w of
          SinkCollector c _ \<Rightarrow> collector_finish D active c
        | SinkBuffer _ \<Rightarrow> panic_run))"

fun captured_parts :: "captured_text \<Rightarrow> part list" where
  "captured_parts (CapPromotedStr v k) = [PartIn k [PartPromotedStr v]]"
| "captured_parts (CapStaticStr v k) = [PartIn k [PartStaticStr v]]"
| "captured_parts (CapString v k) = [PartIn k [PartString v]]"

fun captured_ref_parts :: "captured_text \<Rightarrow> part list" where
  "captured_ref_parts (CapPromotedStr v k) = [PartIn k [PartPromotedStr v]]"
| "captured_ref_parts (CapStaticStr v k) = [PartIn k [PartStaticStr v]]"
| "captured_ref_parts (CapString v k) = [PartIn k [PartStr v]]"

fun captured_as_str :: "captured_text \<Rightarrow> str" where
  "captured_as_str (CapPromotedStr v k) = v"
| "captured_as_str (CapStaticStr v k) = v"
| "captured_as_str (CapString v k) = v"

lemma write_captured:
  "write_parts D V k (captured_parts cap) = write_parts D V k (captured_ref_parts cap)"
  by (rule ext, cases cap) simp_all

lemma capture_text:
  assumes "capture D active k ps = return_run cap" "\<forall>h \<in> parts_views ps. holdable D active h"
  shows "text_of (write_parts D V j (case cap of None \<Rightarrow> [] | Some t \<Rightarrow> captured_parts t)) =
    text_of (write_parts D (render_into D active) k ps)"
proof -
  from assms(1) obtain w where w: "push_parts D ps (parts_writer_collecting CEmpty active k) = return_run w"
    and f: "(case pw_sink w of SinkCollector c _ \<Rightarrow> collector_finish D active c | SinkBuffer _ \<Rightarrow> panic_run) = return_run cap"
    by (auto simp: capture_def elim: bind_run_Done)
  have "collector_valid D active (pw_sink (parts_writer_collecting CEmpty active k))"
    by (simp add: parts_writer_collecting_def collector_valid_def)
  from collector_sink.push_parts_step(2) [OF assms(2) this w] obtain c where
    c: "pw_sink w = SinkCollector c active" "collector_ok D active c"
      "collector_text D active c = text_of (write_parts D (render_into D active) k ps)"
    by (auto simp: collector_step_def parts_writer_collecting_def)
  have one: "write_parts D V j [PartIn i [p]] = write_part D V i p" for i p by (rule ext) (simp add: write_part_simps_fun)
  have none: "write_parts D V j [] = return_run" by (rule ext) simp
  from f have fin: "collector_finish D active c = return_run cap" by (simp add: c(1))
  have "text_of (write_parts D V j (case cap of None \<Rightarrow> [] | Some t \<Rightarrow> captured_parts t)) = collector_text D active c"
  proof (cases c)
    case CEmpty
    with fin show ?thesis by (simp add: none)
  next
    case (CRendered v)
    with fin show ?thesis by (auto simp: one write_part_simps_fun html_write_unescaped)
  next
    case (CSingle p)
    have other: ?thesis if "collector_finish D active c =
        bind_run (collected_render D active p (formatter_new [])) (\<lambda>f. return_run (Some (CapString (fm_buf f) CxUnescaped)))"
    proof -
      from fin [unfolded that] obtain g where "collected_render D active p (formatter_new []) = return_run g"
        "cap = Some (CapString (fm_buf g) CxUnescaped)" by (elim bind_run_Done) simp
      with CSingle show ?thesis by (simp add: one write_part_simps_fun html_write_unescaped text_of_def [of "collected_render D active p"])
    qed
    show ?thesis
    proof (cases p)
      case (CPromotedStr v i)
      with fin CSingle show ?thesis by (auto simp: one write_part_simps_fun collected_render_fun)
    next
      case (CStaticStr v i)
      with fin CSingle show ?thesis by (auto simp: one write_part_simps_fun collected_render_fun)
    next
      case (CString v i)
      with fin CSingle show ?thesis by (auto simp: one write_part_simps_fun collected_render_fun)
    qed (rule other; simp add: CSingle)+
  qed
  with c(3) show ?thesis by simp
qed

subsection \<open>Attributes\<close>

text \<open>A value in attribute position: whether the attribute is there, and what its value pushes.\<close>

record value_parts =
  vp_present :: bool
  vp_parts :: "part list"

definition value_prim :: "prim \<Rightarrow> value_parts" where
  "value_prim v = \<lparr>vp_present = True, vp_parts = [PartPrim v]\<rparr>"

definition value_char :: "nat \<Rightarrow> value_parts" where
  "value_char v = \<lparr>vp_present = True, vp_parts = [PartChar v]\<rparr>"

definition value_str :: "str \<Rightarrow> value_parts" where
  "value_str v = \<lparr>vp_present = True, vp_parts = [PartStr v]\<rparr>"

definition value_string :: "str \<Rightarrow> value_parts" where
  "value_string v = \<lparr>vp_present = True, vp_parts = [PartString v]\<rparr>"

definition value_promoted_str :: "str \<Rightarrow> value_parts" where
  "value_promoted_str v = \<lparr>vp_present = True, vp_parts = [PartPromotedStr v]\<rparr>"

definition value_static_str :: "str \<Rightarrow> value_parts" where
  "value_static_str v = \<lparr>vp_present = True, vp_parts = [PartStaticStr v]\<rparr>"

definition value_unescaped_string :: "str \<Rightarrow> value_parts" where
  "value_unescaped_string v = \<lparr>vp_present = True, vp_parts = [PartStringUnescaped v]\<rparr>"

definition value_unescaped_static_str :: "str \<Rightarrow> value_parts" where
  "value_unescaped_static_str v = \<lparr>vp_present = True, vp_parts = [PartStaticStrUnescaped v]\<rparr>"

definition value_unescaped_promoted_str :: "str \<Rightarrow> value_parts" where
  "value_unescaped_promoted_str v = \<lparr>vp_present = True, vp_parts = [PartPromotedStrUnescaped v]\<rparr>"

definition value_bool :: "bool \<Rightarrow> value_parts" where
  "value_bool v = \<lparr>vp_present = v, vp_parts = []\<rparr>"

definition value_option :: "value_parts option \<Rightarrow> value_parts" where
  "value_option v =
     \<lparr>vp_present = is_some_and vp_present v, vp_parts = (case v of Some v \<Rightarrow> vp_parts v | None \<Rightarrow> [])\<rparr>"

definition value_tuple :: "value_parts list \<Rightarrow> value_parts" where
  "value_tuple vs = \<lparr>vp_present = list_ex vp_present vs, vp_parts = concat (map vp_parts vs)\<rparr>"

text \<open>\<^verbatim>\<open>Attribute::into_view_parts\<close>.\<close>

definition attribute_parts :: "part list \<Rightarrow> value_parts \<Rightarrow> part list" where
  "attribute_parts key v =
     (if vp_present v then
        [PartPromotedStrUnescaped '' '', PartIn CxAttributeKey key, PartPromotedStrUnescaped [CHR ''='', CHR 0x22],
         PartIn CxAttributeValue (vp_parts v), PartPromotedStrUnescaped [CHR 0x22]]
      else [])"

type_synonym attribute_key = captured_text

datatype attribute_value = AbsentValue | EmptyValue | PresentValue captured_text

fun value_is_present :: "attribute_value \<Rightarrow> bool" where
  "value_is_present AbsentValue = False"
| "value_is_present _ = True"

fun attribute_value_ref :: "attribute_value \<Rightarrow> value_parts" where
  "attribute_value_ref AbsentValue = \<lparr>vp_present = False, vp_parts = []\<rparr>"
| "attribute_value_ref EmptyValue = \<lparr>vp_present = True, vp_parts = []\<rparr>"
| "attribute_value_ref (PresentValue t) = \<lparr>vp_present = True, vp_parts = captured_ref_parts t\<rparr>"

fun attribute_value_owned :: "attribute_value \<Rightarrow> value_parts" where
  "attribute_value_owned AbsentValue = \<lparr>vp_present = False, vp_parts = []\<rparr>"
| "attribute_value_owned EmptyValue = \<lparr>vp_present = True, vp_parts = []\<rparr>"
| "attribute_value_owned (PresentValue t) = \<lparr>vp_present = True, vp_parts = captured_parts t\<rparr>"

text \<open>A hash map from keys, compared by their text, to values.  The list is the map's iteration
  order, which the source leaves unspecified; inserting keeps the key that is there.\<close>

type_synonym attributes = "(attribute_key \<times> attribute_value) list"

definition attributes_get :: "attributes \<Rightarrow> str \<Rightarrow> attribute_value option" where
  "attributes_get m k = map_of (map (\<lambda>(key, v). (captured_as_str key, v)) m) k"

definition attributes_contains_key :: "attributes \<Rightarrow> str \<Rightarrow> bool" where
  "attributes_contains_key m k \<longleftrightarrow> attributes_get m k \<noteq> None"

fun hash_insert :: "attribute_key \<Rightarrow> attribute_value \<Rightarrow> attributes \<Rightarrow> attribute_value option \<times> attributes" where
  "hash_insert k v [] = (None, [(k, v)])"
| "hash_insert k v ((key, old) # m) =
     (if captured_as_str key = captured_as_str k then (Some old, (key, v) # m)
      else (let (previous, m') = hash_insert k v m in (previous, (key, old) # m')))"

definition attributes_remove :: "str \<Rightarrow> attributes \<Rightarrow> attribute_value option \<times> attributes" where
  "attributes_remove k m = (attributes_get m k, filter (\<lambda>(key, _). captured_as_str key \<noteq> k) m)"

definition attributes_extend :: "(attribute_key \<times> attribute_value) list \<Rightarrow> attributes \<Rightarrow> attributes" where
  "attributes_extend entries m = foldl (\<lambda>m (k, v). snd (hash_insert k v m)) m entries"

definition attributes_insert :: "float_display \<Rightarrow> view_buffer option \<Rightarrow> part list \<Rightarrow> value_parts \<Rightarrow> attributes
    \<Rightarrow> (attribute_value option \<times> attributes) run" where
  "attributes_insert D active key v m =
     bind_run (capture D active CxAttributeKey key) (\<lambda>k.
       let k = (case k of None \<Rightarrow> CapStaticStr [] CxAttributeKey | Some t \<Rightarrow> t)
       in if vp_present v then
            bind_run (capture D active CxAttributeValue (vp_parts v)) (\<lambda>t.
              return_run (hash_insert k (case t of None \<Rightarrow> EmptyValue | Some t \<Rightarrow> PresentValue t) m))
          else return_run (hash_insert k AbsentValue m))"

definition attributes_parts :: "attributes \<Rightarrow> part list" where
  "attributes_parts m = concat (map (\<lambda>(k, v). attribute_parts (captured_ref_parts k) (attribute_value_ref v)) m)"

subsection \<open>Class lists\<close>

text \<open>An entry is present or not, like an attribute value; a list of entries nests.\<close>

datatype class_entries = ClassEntry value_parts | ClassList "class_entries list"

definition class_str :: "(str \<Rightarrow> part) \<Rightarrow> str \<Rightarrow> value_parts" where
  "class_str push v = \<lparr>vp_present = v \<noteq> [], vp_parts = [push v]\<rparr>"

definition class_option :: "value_parts option \<Rightarrow> value_parts" where
  "class_option v =
     \<lparr>vp_present = is_some_and vp_present v, vp_parts = (case v of Some v \<Rightarrow> vp_parts v | None \<Rightarrow> [])\<rparr>"

fun any_present :: "class_entries \<Rightarrow> bool" where
  "any_present (ClassEntry v) = vp_present v"
| "any_present (ClassList es) = list_ex any_present es"

text \<open>The writer's state is whether no entry has been written yet.\<close>

definition class_entry :: "value_parts \<Rightarrow> part list \<times> bool \<Rightarrow> part list \<times> bool" where
  "class_entry v w =
     (let (ps, is_first) = w
      in if vp_present v then
           ((if is_first then ps else ps @ [PartPromotedStr '' '']) @ vp_parts v, False)
         else (ps, is_first))"

fun write_entries :: "class_entries \<Rightarrow> part list \<times> bool \<Rightarrow> part list \<times> bool" where
  "write_entries (ClassEntry v) w = class_entry v w"
| "write_entries (ClassList es) w = foldl (\<lambda>w e. write_entries e w) w es"

definition class_value :: "class_entries \<Rightarrow> value_parts" where
  "class_value es = \<lparr>vp_present = any_present es, vp_parts = fst (write_entries es ([], True))\<rparr>"

subsection \<open>Captured attributes render as written\<close>

lemma steady_seq: "\<exists>r. writes_text W r \<Longrightarrow> \<exists>r. writes_text U r \<Longrightarrow> \<exists>r. writes_text (\<lambda>f. bind_run (W f) U) r"
  using writes_text_seq by blast

lemma steady_list:
  assumes "\<And>p k. p \<in> set ps \<Longrightarrow> (\<forall>h \<in> part_views p. \<exists>r. writes_text (V h) r) \<Longrightarrow> \<exists>r. writes_text (write_part D V k p) r"
    and "\<forall>h \<in> parts_views ps. \<exists>r. writes_text (V h) r"
  shows "\<exists>r. writes_text (write_parts D V k ps) r"
  using assms
proof (induction ps)
  case Nil
  show ?case unfolding write_part_simps_fun by (rule steady_simps)
next
  case (Cons p ps)
  then show ?case unfolding write_part_simps_fun by (intro steady_seq) auto
qed

lemma steady_part: "(\<forall>h \<in> part_views p. \<exists>r. writes_text (V h) r) \<Longrightarrow> \<exists>r. writes_text (write_part D V k p) r"
proof (induction p arbitrary: k)
  case (PartComment ps)
  then have "\<exists>r. writes_text (write_parts D V CxComment ps) r" by (intro steady_list) auto
  then show ?case unfolding write_part_simps_fun by (intro steady_seq steady_simps)
next
  case (PartIn j ps)
  then show ?case unfolding write_part_simps_fun by (intro steady_list) auto
qed (unfold write_part_simps_fun, simp_all only: steady_simps, simp)

lemma steady_parts: "(\<forall>h \<in> parts_views ps. \<exists>r. writes_text (V h) r) \<Longrightarrow> \<exists>r. writes_text (write_parts D V k ps) r"
  by (rule steady_list [OF steady_part])

lemma text_of_append:
  assumes "\<forall>h \<in> parts_views ps \<union> parts_views qs. \<exists>r. writes_text (V h) r"
  shows "text_of (write_parts D V k (ps @ qs)) = cat (text_of (write_parts D V k ps)) (text_of (write_parts D V k qs))"
proof -
  have "write_parts D V k (ps @ qs) = (\<lambda>f. bind_run (write_parts D V k ps f) (write_parts D V k qs))"
    by (induction ps) (auto simp: write_part_simps_fun bind_run_assoc)
  moreover have "\<exists>r. writes_text (write_parts D V k ps) r" "\<exists>r. writes_text (write_parts D V k qs) r"
    using assms by (auto intro!: steady_parts)
  ultimately show ?thesis using text_of_seq by metis
qed

lemma text_of_single: "text_of (write_parts D V k [p]) = text_of (write_part D V k p)"
proof -
  have "write_parts D V k [p] = write_part D V k p" by (rule ext) (simp add: write_part_simps_fun)
  then show ?thesis by simp
qed

lemma text_of_attribute:
  assumes "\<forall>h \<in> parts_views key \<union> parts_views (vp_parts v). \<exists>r. writes_text (V h) r"
  shows "text_of (write_parts D V k (attribute_parts key v)) =
    (if vp_present v then
       cat (Done '' '') (cat (text_of (write_parts D V CxAttributeKey key)) (cat (Done [CHR ''='', CHR 0x22])
         (cat (text_of (write_parts D V CxAttributeValue (vp_parts v))) (Done [CHR 0x22]))))
     else Done [])"
proof -
  have cons: "text_of (write_parts D V k (p # q # qs)) = cat (text_of (write_part D V k p)) (text_of (write_parts D V k (q # qs)))"
    if "\<forall>h \<in> part_views p \<union> parts_views (q # qs). \<exists>r. writes_text (V h) r" for p q qs
    using text_of_append [of "[p]" "q # qs" V D k] that by (simp add: text_of_single)
  have "text_of (write_parts D V k []) = Done []" by (simp add: write_part_simps_fun)
  with assms show ?thesis
    by (simp add: attribute_parts_def cons text_of_single) (simp add: write_part_simps_fun)
qed

lemma captured_no_views [simp]: "parts_views (captured_parts t) = {}" "parts_views (captured_ref_parts t) = {}"
  by (cases t; simp)+

text \<open>An attribute put into a collection renders exactly as it would have in place.  The key and
  the value are gathered as text when they are inserted, with the contexts they were pushed in,
  and the text the collection writes later, in any view, is the text of the attribute pushed
  directly: nothing is escaped twice and nothing goes unescaped.\<close>

theorem captured_attribute_renders:
  assumes "attributes_insert D active key v [] = return_run (old, m)"
    and "\<forall>h \<in> parts_views key \<union> parts_views (vp_parts v). holdable D active h"
  shows "text_of (write_parts D V j (attributes_parts m)) =
    text_of (write_parts D (render_into D active) k (attribute_parts key v))"
proof -
  let ?R = "render_into D active"
  from assms(1) obtain t where t: "capture D active CxAttributeKey key = return_run t"
    and rest: "(let k = (case t of None \<Rightarrow> CapStaticStr [] CxAttributeKey | Some t \<Rightarrow> t)
       in if vp_present v then
            bind_run (capture D active CxAttributeValue (vp_parts v)) (\<lambda>t.
              return_run (hash_insert k (case t of None \<Rightarrow> EmptyValue | Some t \<Rightarrow> PresentValue t) []))
          else return_run (hash_insert k AbsentValue [])) = return_run (old, m)"
    by (auto simp: attributes_insert_def elim: bind_run_Done)
  define c where "c = (case t of None \<Rightarrow> CapStaticStr [] CxAttributeKey | Some t \<Rightarrow> t)"
  have "write_parts D V CxAttributeKey (captured_parts c) =
      write_parts D V CxAttributeKey (case t of None \<Rightarrow> [] | Some t \<Rightarrow> captured_parts t)"
    by (cases t; rule ext; simp add: c_def)
  with capture_text [OF t] assms(2) have key: "text_of (write_parts D V CxAttributeKey (captured_ref_parts c)) =
      text_of (write_parts D ?R CxAttributeKey key)"
    by (simp add: write_captured)
  have direct: "\<forall>h \<in> parts_views key \<union> parts_views (vp_parts v). \<exists>r. writes_text (?R h) r"
    using assms(2) by (simp add: holdable_def)
  show ?thesis
  proof (cases "vp_present v")
    case False
    with rest have "m = [(c, AbsentValue)]" by (simp add: c_def Let_def)
    with False text_of_attribute [OF direct, of D k] show ?thesis
      by (simp add: attributes_parts_def attribute_parts_def write_part_simps_fun)
  next
    case True
    with rest obtain u where u: "capture D active CxAttributeValue (vp_parts v) = return_run u"
      "m = [(c, case u of None \<Rightarrow> EmptyValue | Some t \<Rightarrow> PresentValue t)]"
      by (auto simp: c_def Let_def elim!: bind_run_Done)
    define w where "w = attribute_value_ref (case u of None \<Rightarrow> EmptyValue | Some t \<Rightarrow> PresentValue t)"
    have w: "vp_present w" "parts_views (vp_parts w) = {}" by (cases u; simp add: w_def)+
    have "write_parts D V CxAttributeValue (vp_parts w) =
        write_parts D V CxAttributeValue (case u of None \<Rightarrow> [] | Some t \<Rightarrow> captured_parts t)"
      by (cases u) (simp_all add: w_def write_captured)
    with capture_text [OF u(1)] assms(2) have "text_of (write_parts D V CxAttributeValue (vp_parts w)) =
        text_of (write_parts D ?R CxAttributeValue (vp_parts v))" by simp
    moreover have "attributes_parts m = attribute_parts (captured_ref_parts c) w"
      by (simp add: attributes_parts_def u(2) w_def)
    moreover have "\<forall>h \<in> parts_views (captured_ref_parts c) \<union> parts_views (vp_parts w). \<exists>r. writes_text (V h) r"
      by (simp add: w(2))
    ultimately show ?thesis using True w(1) key text_of_attribute [OF direct, of D k]
        text_of_attribute [of "captured_ref_parts c" w V D j] by simp
  qed
qed

theorem captured_attribute_renders_witness:
  "\<exists>old m. attributes_insert plain_floats None [PartStr ''id''] (value_str ''a&b'') [] = return_run (old, m) \<and>
    text_of (write_parts plain_floats (render_into plain_floats None) CxText (attributes_parts m)) =
      text_of (write_parts plain_floats (render_into plain_floats None) CxText
        (attribute_parts [PartStr ''id''] (value_str ''a&b'')))"
proof -
  have "\<exists>old m. attributes_insert plain_floats None [PartStr ''id''] (value_str ''a&b'') [] = return_run (old, m)"
    by (simp add: attributes_insert_def capture_def parts_writer_collecting_def push_defs sink_defs push_with_def on_sink_def
        collector_push_str_def value_str_def Let_def)
  moreover have "\<forall>h \<in> parts_views [PartStr ''id''] \<union> parts_views (vp_parts (value_str ''a&b'')). holdable plain_floats None h"
    by (simp add: value_str_def)
  ultimately show ?thesis using captured_attribute_renders by blast
qed

subsection \<open>A collection of attributes is a map\<close>

definition keys_distinct :: "attributes \<Rightarrow> bool" where
  "keys_distinct m \<longleftrightarrow> distinct (map (captured_as_str \<circ> fst) m)"

lemma hash_insert_keys:
  "map (captured_as_str \<circ> fst) (snd (hash_insert k v m)) =
     (if captured_as_str k \<in> set (map (captured_as_str \<circ> fst) m) then map (captured_as_str \<circ> fst) m
      else map (captured_as_str \<circ> fst) m @ [captured_as_str k])"
  by (induction k v m rule: hash_insert.induct) (auto simp: case_prod_beta)

lemma hash_insert_get:
  "fst (hash_insert k v m) = attributes_get m (captured_as_str k)"
  "attributes_get (snd (hash_insert k v m)) n = (if n = captured_as_str k then Some v else attributes_get m n)"
  by (induction k v m rule: hash_insert.induct) (auto simp: attributes_get_def case_prod_beta)

lemma attributes_remove_get:
  "attributes_get (snd (attributes_remove k m)) n = (if n = k then None else attributes_get m n)"
  by (induction m) (auto simp: attributes_get_def attributes_remove_def)

text \<open>A collection of attributes is a map by the keys' text: an insertion of any key and value
  returns what was there, is what is found there next, and leaves the other keys; a removal
  takes out that key only; and every key is listed once, so no element gets an attribute twice.\<close>

theorem attributes_are_a_map:
  assumes "keys_distinct m"
  shows "keys_distinct (snd (hash_insert k v m)) \<and> keys_distinct (snd (attributes_remove n m)) \<and>
    keys_distinct (attributes_extend entries m) \<and>
    fst (hash_insert k v m) = attributes_get m (captured_as_str k) \<and>
    attributes_get (snd (hash_insert k v m)) = (attributes_get m)(captured_as_str k \<mapsto> v) \<and>
    attributes_get (snd (attributes_remove n m)) = (attributes_get m)(n := None)"
proof -
  have insert: "keys_distinct (snd (hash_insert k v m))" if "keys_distinct m" for k v m
    using that by (auto simp: keys_distinct_def hash_insert_keys)
  have "keys_distinct (attributes_extend entries m)"
    unfolding attributes_extend_def using assms by (induction entries arbitrary: m) (auto intro: insert)
  moreover have "keys_distinct (snd (attributes_remove n m))"
    using assms by (auto simp: keys_distinct_def attributes_remove_def distinct_map intro: inj_on_subset)
  moreover have "attributes_get (snd (hash_insert k v m)) = (attributes_get m)(captured_as_str k \<mapsto> v)"
    "attributes_get (snd (attributes_remove n m)) = (attributes_get m)(n := None)"
    by (auto simp: hash_insert_get attributes_remove_get)
  ultimately show ?thesis using insert [OF assms] hash_insert_get(1) by blast
qed

theorem attributes_are_a_map_witness:
  "attributes_get (snd (hash_insert (CapString ''id'' CxAttributeKey) EmptyValue [])) ''id'' = Some EmptyValue"
proof -
  have "keys_distinct []" by (simp add: keys_distinct_def)
  from attributes_are_a_map [OF this, of "CapString ''id'' CxAttributeKey" EmptyValue "[]" "[]"] show ?thesis by simp
qed

subsection \<open>Class lists are joined by single spaces\<close>

fun class_leaves :: "class_entries \<Rightarrow> value_parts list" where
  "class_leaves (ClassEntry v) = [v]"
| "class_leaves (ClassList es) = concat (map class_leaves es)"

lemma any_present_leaves: "any_present es \<longleftrightarrow> filter vp_present (class_leaves es) \<noteq> []"
  by (induction es) (auto simp: list_ex_iff filter_empty_conv)

lemma write_entries_leaves: "write_entries es w = foldl (\<lambda>w v. class_entry v w) w (class_leaves es)"
proof (induction es arbitrary: w)
  case (ClassList es)
  then show ?case by (induction es arbitrary: w) simp_all
qed simp

lemma class_entries_joined:
  "foldl (\<lambda>w v. class_entry v w) (ps, is_first) vs =
     (ps @ (case map vp_parts (filter vp_present vs) of [] \<Rightarrow> []
        | qs \<Rightarrow> (if is_first then [] else [PartPromotedStr '' '']) @ join_with [PartPromotedStr '' ''] qs),
      is_first \<and> filter vp_present vs = [])"
proof (induction vs arbitrary: ps is_first)
  case (Cons v vs)
  show ?case
  proof (cases "vp_present v")
    case True
    then show ?thesis by (cases "map vp_parts (filter vp_present vs)") (auto simp: class_entry_def [of v "(ps, is_first)"] Cons.IH)
  next
    case False
    then show ?thesis by (simp add: class_entry_def [of v "(ps, is_first)"] Cons.IH)
  qed
qed simp

text \<open>A class list, however nested, pushes its present entries in order with a single space
  between neighbours, none before the first or after the last, and the attribute is left out
  exactly where no entry is present.\<close>

theorem class_list_joined:
  "vp_parts (class_value es) =
     join_with [PartPromotedStr '' ''] (map vp_parts (filter vp_present (class_leaves es))) \<and>
   (attribute_parts key (class_value es) = [] \<longleftrightarrow> filter vp_present (class_leaves es) = [])"
  by (auto simp: class_value_def attribute_parts_def any_present_leaves write_entries_leaves class_entries_joined split: list.splits)

end
