(* ===== verification/Hrefs.thy ===== *)
theory Hrefs
  imports Path_Params Http_Types "HOL-Library.Char_ord" "HOL-Library.List_Lexorder" "HOL-Library.Product_Lexorder"
    "HOL-Library.Multiset"
begin

text \<open>
  Links: \<^verbatim>\<open>crates/topcoat-router/src/href.rs\<close>, with \<^verbatim>\<open>base_url.rs\<close> and \<^verbatim>\<open>url_form.rs\<close> of
  \<^verbatim>\<open>crates/topcoat-core/src\<close>.  A parameter is its name and the texts of the segments it pushes;
  a query item is the result of serialising it.  URI parsing, percent coding and form decoding
  are parameters.  The text of a panic is left out.
\<close>

subsection \<open>Base URLs\<close>

record parsed_uri =
  pu_scheme :: "str option"
  pu_authority :: "str option"
  pu_path :: str
  pu_query :: "str option"

datatype 'e base_url_error = InvalidUri 'e | NotAbsolute | UnsupportedScheme | HasQuery | HasFragment

type_synonym base_url = str

definition base_url_new :: "(str \<Rightarrow> (parsed_uri, 'e) result) \<Rightarrow> str \<Rightarrow> (base_url, 'e base_url_error) result" where
  "base_url_new parse url =
     (if CHR ''#'' \<in> set url then Err HasFragment
      else (case parse url of
          Inl e \<Rightarrow> Err (InvalidUri e)
        | Inr u \<Rightarrow>
            (case pu_scheme u of
               None \<Rightarrow> Err NotAbsolute
             | Some scheme \<Rightarrow>
                 if \<not> eq_ignore_ascii_case scheme ''http'' \<and> \<not> eq_ignore_ascii_case scheme ''https''
                 then Err UnsupportedScheme
                 else (case pu_authority u of
                     None \<Rightarrow> Err NotAbsolute
                   | Some authority \<Rightarrow>
                       if pu_query u \<noteq> None then Err HasQuery
                       else Ok (to_ascii_lowercase scheme @ ''://'' @ authority @
                         trim_end_matches (\<lambda>c. c = CHR ''/'') (pu_path u))))))"

definition base_url_join :: "base_url \<Rightarrow> str \<Rightarrow> str" where
  "base_url_join b path = b @ ''/'' @ trim_start_matches (\<lambda>c. c = CHR ''/'') path"

definition base_url_prefix :: "base_url \<Rightarrow> str" where
  "base_url_prefix b =
     (let authority = (case find_str ''://'' b of None \<Rightarrow> 0 | Some i \<Rightarrow> i + 3)
      in (case find_str ''/'' (drop authority b) of
            Some i \<Rightarrow> drop (authority + i) b
          | None \<Rightarrow> []))"

datatype url_form = Relative | Absolute

definition url_form_of :: "url_form option \<Rightarrow> url_form" where
  "url_form_of registered = unwrap_or Relative registered"

subsection \<open>Filling the parameters\<close>

definition SEGMENT :: "char \<Rightarrow> bool" where
  "SEGMENT c \<longleftrightarrow> (of_char c :: nat) < 32 \<or> (of_char c :: nat) = 127 \<or>
     c \<in> {CHR '' '', CHR 0x22, CHR ''#'', CHR ''%'', CHR ''/'', CHR ''<'', CHR ''>'', CHR ''?'', CHR 0x60, CHR ''{'',
       CHR ''}'', CHR 0x5C}"

record href_param =
  hp_name :: str
  hp_segments :: "str list"

function next_param :: "path_segments \<Rightarrow> str \<Rightarrow> ((str \<times> bool) \<times> path_segments \<times> str) outcome" where
  "next_param it out =
     (case segs_next it of
        (Some (Group _), it) \<Rightarrow> next_param it out
      | (Some (Static segment), it) \<Rightarrow> next_param it (out @ ''/'' @ segment)
      | (Some (Param name), it) \<Rightarrow> Done ((name, False), it, out)
      | (Some (CatchAll name), it) \<Rightarrow> Done ((name, True), it, out)
      | (None, _) \<Rightarrow> Panic)"
  by pat_completeness auto
termination
  by (relation "measure (\<lambda>(it, out). segs_measure it)") (auto dest: segs_next_measure [OF sym])

declare next_param.simps [simp del]

text \<open>The closure \<^verbatim>\<open>write\<close>, and the segments the parameter pushes through it.\<close>

definition write_segment :: "((char \<Rightarrow> bool) \<Rightarrow> str \<Rightarrow> str) \<Rightarrow> str \<Rightarrow> str \<Rightarrow> str outcome" where
  "write_segment encode out segment =
     (let rendered = encode SEGMENT segment
      in if rendered = [] then Panic
         else if rendered = ''.'' \<or> rendered = ''..'' then Panic
         else Done (out @ ''/'' @ rendered))"

fun write_segments :: "((char \<Rightarrow> bool) \<Rightarrow> str \<Rightarrow> str) \<Rightarrow> str list \<Rightarrow> str \<Rightarrow> nat \<Rightarrow> (str \<times> nat) outcome" where
  "write_segments encode [] out pushed = Done (out, pushed)"
| "write_segments encode (s # ss) out pushed =
     bind_outcome (write_segment encode out s) (\<lambda>out. write_segments encode ss out (pushed + 1))"

definition push_segments :: "((char \<Rightarrow> bool) \<Rightarrow> str \<Rightarrow> str) \<Rightarrow> href_param \<Rightarrow> bool \<Rightarrow> str \<Rightarrow> str outcome" where
  "push_segments encode param catch_all out =
     bind_outcome (write_segments encode (hp_segments param) out 0) (\<lambda>(out, pushed).
       if catch_all then (if pushed > 0 then Done out else Panic)
       else (if pushed = 1 then Done out else Panic))"

fun write_remaining_list :: "path_segment list \<Rightarrow> str \<Rightarrow> str outcome" where
  "write_remaining_list [] out = Done out"
| "write_remaining_list (Group _ # ss) out = write_remaining_list ss out"
| "write_remaining_list (Static s # ss) out = write_remaining_list ss (out @ ''/'' @ s)"
| "write_remaining_list (_ # ss) out = Panic"

definition write_remaining :: "path_segments \<Rightarrow> str \<Rightarrow> str outcome" where
  "write_remaining it out = write_remaining_list (segs_collect it) out"

fun fill_params :: "((char \<Rightarrow> bool) \<Rightarrow> str \<Rightarrow> str) \<Rightarrow> href_param list \<Rightarrow> path_segments \<Rightarrow> str
    \<Rightarrow> (path_segments \<times> str) outcome" where
  "fill_params encode [] it out = Done (it, out)"
| "fill_params encode (p # ps) it out =
     bind_outcome (next_param it out) (\<lambda>((name, catch_all), it, out).
       if name \<noteq> hp_name p then Panic
       else bind_outcome (push_segments encode p catch_all out) (fill_params encode ps it))"

definition assign_params :: "((char \<Rightarrow> bool) \<Rightarrow> str \<Rightarrow> str) \<Rightarrow> href_param list \<Rightarrow> route_path \<Rightarrow> str \<Rightarrow> str outcome" where
  "assign_params encode ps path out =
     (let start = length out
      in bind_outcome (fill_params encode ps (path_segments_new path) out) (\<lambda>(it, out).
         bind_outcome (write_remaining it out) (\<lambda>out.
           Done (if length out = start then out @ ''/'' else out))))"

subsection \<open>Query items and links\<close>

definition write_query :: "(str, 'e) result \<Rightarrow> char \<Rightarrow> str \<Rightarrow> (bool \<times> str) outcome" where
  "write_query query separator out =
     (case query of
        Inl _ \<Rightarrow> Panic
      | Inr q \<Rightarrow> if q = [] then Done (False, out) else Done (True, out @ [separator] @ q))"

fun write_queries :: "(str, 'e) result list \<Rightarrow> char \<Rightarrow> str \<Rightarrow> str outcome" where
  "write_queries [] separator out = Done out"
| "write_queries (q # qs) separator out =
     bind_outcome (write_query q separator out) (\<lambda>(written, out).
       write_queries qs (if written then CHR ''&'' else separator) out)"

text \<open>No query item is the type \<^verbatim>\<open>()\<close>.\<close>

definition queries_specified :: "(str, 'e) result list \<Rightarrow> bool" where
  "queries_specified qs \<longleftrightarrow> qs \<noteq> []"

definition assign_queries :: "(str, 'e) result list \<Rightarrow> str \<Rightarrow> str outcome" where
  "assign_queries qs out = write_queries qs (CHR ''?'') out"

record 'e href =
  hr_target :: route_path
  hr_params :: "href_param list"
  hr_queries :: "(str, 'e) result list"
  hr_url_form :: "url_form option"
  hr_fragment :: "str option"

definition href_new :: "route_path \<Rightarrow> href_param list \<Rightarrow> 'e href" where
  "href_new target params =
     \<lparr>hr_target = target, hr_params = params, hr_queries = [], hr_url_form = None, hr_fragment = None\<rparr>"

definition href_query :: "(str, 'e) result \<Rightarrow> 'e href \<Rightarrow> 'e href" where
  "href_query q h = h\<lparr>hr_queries := hr_queries h @ [q]\<rparr>"

definition href_fragment :: "str \<Rightarrow> 'e href \<Rightarrow> 'e href" where
  "href_fragment s h = h\<lparr>hr_fragment := Some s\<rparr>"

definition href_form :: "url_form \<Rightarrow> 'e href \<Rightarrow> 'e href" where
  "href_form form h = h\<lparr>hr_url_form := Some form\<rparr>"

definition href_relative :: "'e href \<Rightarrow> 'e href" where
  "href_relative h = href_form Relative h"

definition href_absolute :: "'e href \<Rightarrow> 'e href" where
  "href_absolute h = href_form Absolute h"

text \<open>What a link reads of the context: the registered URL form and base URL, and the request.\<close>

record link_cx =
  lk_url_form :: "url_form option"
  lk_base_url :: "base_url option"
  lk_uri_path :: str
  lk_uri_query :: "str option"

definition base_url_of :: "link_cx \<Rightarrow> base_url outcome" where
  "base_url_of cx = (case lk_base_url cx of Some b \<Rightarrow> Done b | None \<Rightarrow> Panic)"

definition href_resolve :: "((char \<Rightarrow> bool) \<Rightarrow> str \<Rightarrow> str) \<Rightarrow> link_cx \<Rightarrow> 'e href \<Rightarrow> str outcome" where
  "href_resolve encode cx h =
     bind_outcome (case unwrap_or (url_form_of (lk_url_form cx)) (hr_url_form h) of
         Absolute \<Rightarrow> base_url_of cx
       | Relative \<Rightarrow> Done [])
       (\<lambda>buf. bind_outcome (assign_params encode (hr_params h) (hr_target h) buf) (\<lambda>buf.
          bind_outcome (assign_queries (hr_queries h) buf) (\<lambda>buf.
            Done (case hr_fragment h of Some s \<Rightarrow> buf @ ''#'' @ s | None \<Rightarrow> buf))))"

definition query_pairs :: "(str \<Rightarrow> (str \<times> str) list) \<Rightarrow> str \<Rightarrow> (str \<times> str) list" where
  "query_pairs parse query = sort (parse query)"

definition href_is_current :: "((char \<Rightarrow> bool) \<Rightarrow> str \<Rightarrow> str) \<Rightarrow> (str \<Rightarrow> (str \<times> str) list) \<Rightarrow> link_cx \<Rightarrow> 'e href
    \<Rightarrow> bool outcome" where
  "href_is_current encode parse cx h =
     bind_outcome (assign_params encode (hr_params h) (hr_target h) []) (\<lambda>path.
       if lk_uri_path cx \<noteq> path then Done False
       else if \<not> queries_specified (hr_queries h) then Done True
       else bind_outcome (assign_queries (hr_queries h) []) (\<lambda>query.
         Done (query_pairs parse (unwrap_or [] (strip_prefix ''?'' query)) =
               query_pairs parse (unwrap_or [] (lk_uri_query cx)))))"

subsection \<open>What filling a path writes\<close>

definition segment_ok :: "((char \<Rightarrow> bool) \<Rightarrow> str \<Rightarrow> str) \<Rightarrow> str \<Rightarrow> bool" where
  "segment_ok encode s \<longleftrightarrow> encode SEGMENT s \<notin> {[], ''.'', ''..''}"

definition slashed :: "str list \<Rightarrow> str" where
  "slashed us = concat (map ((#) CHR ''/'') us)"

definition fits :: "((char \<Rightarrow> bool) \<Rightarrow> str \<Rightarrow> str) \<Rightarrow> bool \<Rightarrow> str list \<Rightarrow> bool" where
  "fits encode catch_all ss \<longleftrightarrow>
     list_all (segment_ok encode) ss \<and> (if catch_all then ss \<noteq> [] else length ss = 1)"

text \<open>The parameters line up with the path, and the segments of the URL they spell.\<close>

fun fills :: "((char \<Rightarrow> bool) \<Rightarrow> str \<Rightarrow> str) \<Rightarrow> path_segment list \<Rightarrow> href_param list \<Rightarrow> bool" where
  "fills encode [] ps \<longleftrightarrow> ps = []"
| "fills encode (Group _ # ss) ps \<longleftrightarrow> fills encode ss ps"
| "fills encode (Static _ # ss) ps \<longleftrightarrow> fills encode ss ps"
| "fills encode (s # ss) ps \<longleftrightarrow>
     (case ps of [] \<Rightarrow> False
      | p # ps \<Rightarrow> hp_name p = seg_name s \<and> fits encode (is_catch_all s) (hp_segments p) \<and> fills encode ss ps)"

fun url_of :: "((char \<Rightarrow> bool) \<Rightarrow> str \<Rightarrow> str) \<Rightarrow> path_segment list \<Rightarrow> href_param list \<Rightarrow> str list" where
  "url_of encode [] ps = []"
| "url_of encode (Group _ # ss) ps = url_of encode ss ps"
| "url_of encode (Static e # ss) ps = e # url_of encode ss ps"
| "url_of encode (s # ss) ps =
     (case ps of [] \<Rightarrow> [] | p # ps \<Rightarrow> map (encode SEGMENT) (hp_segments p) @ url_of encode ss ps)"

lemmas fills_induct = fills.induct [case_names None_left Group Static Param Catch_all]
lemmas url_of_induct = url_of.induct [case_names None_left Group Static Param Catch_all]

lemma slashed_list_simps [simp]: "slashed [] = []" "slashed (u # us) = CHR ''/'' # u @ slashed us"
  "slashed (us @ vs) = slashed us @ slashed vs"
  by (simp_all add: slashed_def)

lemma write_segments_spec:
  "write_segments encode ss out n =
     (if list_all (segment_ok encode) ss
      then Done (out @ slashed (map (encode SEGMENT) ss), n + length ss) else Panic)"
  by (induction ss arbitrary: out n) (auto simp: write_segment_def segment_ok_def Let_def)

lemma push_segments_spec:
  "push_segments encode p catch_all out =
     (if fits encode catch_all (hp_segments p)
      then Done (out @ slashed (map (encode SEGMENT) (hp_segments p))) else Panic)"
  by (auto simp: push_segments_def write_segments_spec fits_def)

lemma next_param_steps:
  "segs_collect it = [] \<Longrightarrow> next_param it out = Panic"
  "segs_collect it = s # ss \<Longrightarrow> next_param it out =
     (case s of
        Group _ \<Rightarrow> next_param (snd (segs_next it)) out
      | Static e \<Rightarrow> next_param (snd (segs_next it)) (out @ ''/'' @ e)
      | _ \<Rightarrow> Done ((seg_name s, is_catch_all s), snd (segs_next it), out))"
  using segs_next_Nil [of it] segs_next_Cons [of it s ss]
  by (cases "segs_next it"; auto simp: next_param.simps [of it] seg_name_def split: path_segment.splits)+

lemma write_remaining_spec:
  "write_remaining it out =
     (if fills encode (segs_collect it) [] then Done (out @ slashed (url_of encode (segs_collect it) [])) else Panic)"
proof -
  have "write_remaining_list ss out =
      (if fills encode ss [] then Done (out @ slashed (url_of encode ss [])) else Panic)" for ss
    by (induction ss out rule: write_remaining_list.induct) auto
  then show ?thesis by (simp add: write_remaining_def)
qed

lemma fill_params_spec:
  "bind_outcome (fill_params encode ps it out) (\<lambda>(it, out). write_remaining it out) =
     (if fills encode (segs_collect it) ps then Done (out @ slashed (url_of encode (segs_collect it) ps)) else Panic)"
proof (induction "segs_collect it" arbitrary: it ps out)
  case Nil
  then show ?case
    by (cases ps) (auto simp: write_remaining_spec [of _ _ encode] next_param_steps Nil [symmetric])
next
  case (Cons s ss)
  have c: "segs_collect it = s # ss" "ss = segs_collect (snd (segs_next it))"
    using Cons(2) segs_next_Cons [of it s ss] by auto
  show ?case
  proof (cases ps)
    case Nil
    then show ?thesis by (simp add: write_remaining_spec [of _ _ encode])
  next
    case (Cons p qs)
    have ih: "bind_outcome (fill_params encode qs (snd (segs_next it)) out) (\<lambda>(it, out). write_remaining it out) =
        (if fills encode ss qs then Done (out @ slashed (url_of encode ss qs)) else Panic)" for out qs
      using Cons.hyps(1) [OF c(2)] c(2) by simp
    have ih': "bind_outcome (next_param (snd (segs_next it)) out) (\<lambda>((name, catch_all), it, out).
         bind_outcome (if name \<noteq> hp_name p then Panic
           else bind_outcome (push_segments encode p catch_all out) (fill_params encode qs it))
           (\<lambda>(it, out). write_remaining it out)) =
        (if fills encode ss ps then Done (out @ slashed (url_of encode ss ps)) else Panic)" for out
      using ih [of "p # qs" out] Cons by (simp add: bind_outcome_assoc split_def)
    show ?thesis
      using c Cons ih [of qs] ih'
      by (cases s) (auto simp: next_param_steps bind_outcome_assoc push_segments_spec split_def)
  qed
qed

text \<open>An href's path is the URL its route spells with every parameter's segments, percent
  encoded, in the parameter's place, or \<^verbatim>\<open>/\<close> where that is no segment at all; and it panics exactly
  when the values do not line up with the route's parameters by name and number of segments or one
  encodes to nothing, to \<^verbatim>\<open>.\<close> or to \<^verbatim>\<open>..\<close>.\<close>

theorem href_fills_path:
  "assign_params encode ps p out =
     (if \<not> fills encode (segments p) ps then Panic
      else if url_of encode (segments p) ps = [] then Done (out @ ''/'')
      else Done (out @ slashed (url_of encode (segments p) ps)))"
proof -
  have e: "slashed us = [] \<longleftrightarrow> us = []" for us by (cases us) auto
  have "assign_params encode ps p out =
      bind_outcome (bind_outcome (fill_params encode ps (path_segments_new p) out)
        (\<lambda>(it, out). write_remaining it out)) (\<lambda>o'. Done (if length o' = length out then o' @ ''/'' else o'))"
    by (simp add: assign_params_def bind_outcome_assoc split_def Let_def)
  then show ?thesis
    unfolding fill_params_spec segments_def [symmetric] by (auto simp: e)
qed

subsection \<open>Reading the link back\<close>

text \<open>The values a matcher captures of a URL's segments: one per parameter, the whole tail for a
  catch-all.\<close>

fun captures :: "path_segment list \<Rightarrow> str list \<Rightarrow> str list" where
  "captures [] us = []"
| "captures (Group _ # ss) us = captures ss us"
| "captures (Static _ # ss) us = captures ss (tl us)"
| "captures (Param _ # ss) us = hd us # captures ss (tl us)"
| "captures (CatchAll _ # ss) us = [join_with ''/'' us]"

definition catch_all_last :: "path_segment list \<Rightarrow> bool" where
  "catch_all_last ss \<longleftrightarrow> (\<forall>s \<in> set (butlast ss). \<not> is_catch_all s)"

text \<open>The percent coding of segments undoes itself and leaves no \<^verbatim>\<open>/\<close>.\<close>

definition decodes :: "(str \<Rightarrow> str) \<Rightarrow> ((char \<Rightarrow> bool) \<Rightarrow> str \<Rightarrow> str) \<Rightarrow> bool" where
  "decodes dec encode \<longleftrightarrow> (\<forall>s. dec (encode SEGMENT s) = s \<and> CHR ''/'' \<notin> set (encode SEGMENT s))"

text \<open>The value the route reads for a segment that a parameter filled.\<close>

fun sent :: "((char \<Rightarrow> bool) \<Rightarrow> str \<Rightarrow> str) \<Rightarrow> path_segment \<times> href_param \<Rightarrow> str \<times> raw_path_param_value" where
  "sent encode (CatchAll _, p) =
     (hp_name p, CatchAllValue (join_with ''/'' (map (encode SEGMENT) (hp_segments p))) (hp_segments p))"
| "sent encode (_, p) = (hp_name p, Segment (hd (hp_segments p)))"

lemma catch_all_last_Cons [simp]:
  "catch_all_last []" "catch_all_last [s]"
  "catch_all_last (s # t # ss) \<longleftrightarrow> \<not> is_catch_all s \<and> catch_all_last (t # ss)"
  by (auto simp: catch_all_last_def)

lemma catch_all_last_tl: "catch_all_last (s # ss) \<Longrightarrow> catch_all_last ss \<and> (is_catch_all s \<longrightarrow> ss = [])"
  by (cases ss) auto

lemma catch_all_last_params:
  "catch_all_last ss \<Longrightarrow> \<forall>s \<in> set (butlast (filter (\<lambda>s. param_name s \<noteq> None) ss)). \<not> is_catch_all s"
proof (induction ss rule: rev_induct)
  case (snoc x xs)
  then have "\<forall>s \<in> set (filter (\<lambda>s. param_name s \<noteq> None) xs). \<not> is_catch_all s"
    by (auto simp: catch_all_last_def)
  then show ?case by (auto dest: in_set_butlastD)
qed simp

lemma fits_single: "fits encode False us \<Longrightarrow> \<exists>u. us = [u] \<and> segment_ok encode u"
  by (auto simp: fits_def length_Suc_conv)

lemma fits_tail:
  assumes "fits encode True us"
  shows "map (encode SEGMENT) us \<noteq> [] \<and> map (encode SEGMENT) us \<noteq> [[]]"
  using assms by (cases us) (auto simp: fits_def segment_ok_def)

lemma fills_matches:
  "fills encode ss ps \<Longrightarrow> catch_all_last ss \<Longrightarrow> wf_tail True ss \<Longrightarrow> seg_matches ss (url_of encode ss ps)"
proof (induction encode ss ps rule: fills_induct)
  case (Static encode e ss ps)
  then show ?case by (cases ss) (auto dest: catch_all_last_tl)
next
  case (Param encode n ss ps)
  then show ?case
    by (cases ps; cases ss) (auto dest!: fits_single dest: catch_all_last_tl simp: segment_ok_def)
next
  case (Catch_all encode n ss ps)
  then show ?case
    using catch_all_last_tl [of "CatchAll n" ss] by (cases ps) (auto dest!: fits_tail)
next
  case (Group encode g ss ps)
  then show ?case by (cases ss) (auto dest: catch_all_last_tl)
qed simp

lemma decodes_segments: "decodes dec encode \<Longrightarrow> us \<noteq> [] \<Longrightarrow>
    map dec (slashes (join_with ''/'' (map (encode SEGMENT) us))) = us"
  by (subst split_join_with) (auto simp: decodes_def o_def)

lemma fills_captures:
  "decodes dec encode \<Longrightarrow> fills encode ss ps \<Longrightarrow> catch_all_last ss \<Longrightarrow>
    map (\<lambda>(s, v). (seg_name s, captured_value dec s v))
      (zip (filter (\<lambda>s. param_name s \<noteq> None) ss) (captures ss (url_of encode ss ps))) =
    map (sent encode) (zip (filter (\<lambda>s. param_name s \<noteq> None) ss) ps) \<and>
    length (captures ss (url_of encode ss ps)) = length (filter (\<lambda>s. param_name s \<noteq> None) ss)"
proof (induction encode ss ps rule: fills_induct)
  case (Param encode n ss ps)
  then show ?case
    using catch_all_last_tl [of "Param n" ss]
    by (cases ps) (auto dest!: fits_single simp: decodes_def)
next
  case (Catch_all encode n ss ps)
  then show ?case
    using catch_all_last_tl [of "CatchAll n" ss]
    by (cases ps) (auto simp: decodes_segments fits_def)
qed (auto dest: catch_all_last_tl)

lemma join_slashed: "us \<noteq> [] \<Longrightarrow> slashed us = CHR ''/'' # join_with ''/'' us"
proof (induction "''/''" us rule: join_with.induct)
  case (3 x y ys)
  then show ?case by simp
qed auto

lemma url_segments_slashed:
  assumes "us \<noteq> []" "us \<noteq> [[]]" "\<forall>u \<in> set us. CHR ''/'' \<notin> set u"
  shows "url_segments (slashed us) = us"
proof -
  have "join_with ''/'' us \<noteq> []"
    using split_join_with [OF assms(1,3)] assms(2) by auto
  with assms show ?thesis
    by (simp add: url_segments_def join_slashed split_join_with Let_def)
qed

lemma url_of_no_slash:
  "decodes dec encode \<Longrightarrow> wf_tail True ss \<Longrightarrow> u \<in> set (url_of encode ss ps) \<Longrightarrow> CHR ''/'' \<notin> set u"
proof (induction encode ss ps rule: url_of_induct)
  case (Static encode e ss ps)
  then show ?case by (cases ss) auto
next
  case (Group encode g ss ps)
  then show ?case by (cases ss) auto
next
  case (Param encode n ss ps)
  then show ?case by (cases ss; cases ps) (auto simp: decodes_def)
next
  case (Catch_all encode n ss ps)
  then show ?case by (cases ss; cases ps) (auto simp: decodes_def)
qed simp

lemma url_of_Nil: "fills encode ss ps \<Longrightarrow> url_of encode ss ps = [] \<Longrightarrow> filter (\<lambda>s. \<not> is_group s) ss = []"
  by (induction encode ss ps rule: fills.induct) (auto simp: fits_def split: list.splits)

lemma url_of_singleton:
  "fills encode ss ps \<Longrightarrow> url_of encode ss ps = [[]] \<Longrightarrow> filter (\<lambda>s. \<not> is_group s) ss = [Static []]"
proof (induction encode ss ps rule: fills_induct)
  case (Static encode e ss ps)
  then show ?case by (auto dest: url_of_Nil)
next
  case (Param encode n ss ps)
  then show ?case by (auto dest!: fits_single simp: segment_ok_def split: list.splits)
next
  case (Catch_all encode n ss ps)
  then show ?case
    by (auto simp: fits_def segment_ok_def append_eq_Cons_conv Cons_eq_map_conv map_eq_Cons_conv split: list.splits)
qed auto

text \<open>C13. A link round trips through its own route: where an href's path can be built, the route's
  pattern matches it, and the parameters read off what a matcher captures of it are the ones the
  link was given, under their names and in their order, each segment as it was before encoding.\<close>

theorem href_roundtrip:
  assumes "decodes dec encode" "wf_segments (segments p)" "catch_all_last (segments p)"
    and "filter (\<lambda>s. \<not> is_group s) (segments p) \<noteq> [Static []]"
    and "assign_params encode ps p [] = Done url"
  shows "path_matches p url \<and>
    ri_collect (raw_path_params_iter_new p (from_match dec p (captures (segments p) (url_segments url)))) =
      map (sent encode) (zip (param_segments p) ps)"
proof -
  let ?ss = "segments p"
  let ?us = "url_of encode ?ss ps"
  have f: "fills encode ?ss ps" and u: "url = (if ?us = [] then ''/'' else slashed ?us)"
    using assms(5) by (auto simp: href_fills_path split: if_splits)
  have wf: "wf_tail True ?ss"
    using assms(2) by (simp add: wf_segments_iff wf_tail_iff)
  have m: "seg_matches ?ss ?us" using fills_matches [OF f assms(3) wf] .
  have "?us \<noteq> [[]]"
    using url_of_singleton [OF f] assms(4) by blast
  moreover have "\<forall>u \<in> set ?us. CHR ''/'' \<notin> set u"
    using url_of_no_slash [OF assms(1) wf] by blast
  ultimately have s: "url_segments url = ?us"
    by (auto simp: u url_segments_slashed) (simp add: url_segments_def)
  have c: "length (captures ?ss ?us) = length (param_segments p)"
    "map (\<lambda>(s, v). (seg_name s, captured_value dec s v)) (zip (param_segments p) (captures ?ss ?us)) =
      map (sent encode) (zip (param_segments p) ps)"
    using fills_captures [OF assms(1) f assms(3)] by (simp_all add: param_segments_def)
  have "\<forall>s \<in> set (butlast (param_segments p)). \<not> is_catch_all s"
    using catch_all_last_params [OF assms(3)] by (simp add: param_segments_def)
  from params_roundtrip [OF c(1) this, of dec] c(2) m show ?thesis
    by (simp add: s path_matches_segments)
qed

text \<open>A coder that satisfies the contract: it spells \<^verbatim>\<open>%\<close> and every escaped character as \<^verbatim>\<open>%\<close>
  and a letter.\<close>

definition escape_letters :: "(char \<times> char) list" where
  "escape_letters = [(CHR ''%'', CHR ''p''), (CHR ''/'', CHR ''s''), (CHR '' '', CHR ''w'')]"

fun letter_encode :: "(char \<Rightarrow> bool) \<Rightarrow> str \<Rightarrow> str" where
  "letter_encode escaped [] = []"
| "letter_encode escaped (c # cs) =
     (case map_of escape_letters c of
        Some l \<Rightarrow> CHR ''%'' # l # letter_encode escaped cs
      | None \<Rightarrow> c # letter_encode escaped cs)"

fun letter_decode :: "str \<Rightarrow> str" where
  "letter_decode [] = []"
| "letter_decode [c] = [c]"
| "letter_decode (c # l # cs) =
     (if c = CHR ''%''
      then (case map_of (map (\<lambda>(a, b). (b, a)) escape_letters) l of
              Some e \<Rightarrow> e # letter_decode cs | None \<Rightarrow> c # letter_decode (l # cs))
      else c # letter_decode (l # cs))"

lemma letter_decode_plain: "c \<noteq> CHR ''%'' \<Longrightarrow> letter_decode (c # cs) = c # letter_decode cs"
  by (cases cs) auto

lemma letter_decodes: "decodes letter_decode letter_encode"
proof -
  have "letter_decode (letter_encode P s) = s \<and> CHR ''/'' \<notin> set (letter_encode P s)" for P s
    by (induction P s rule: letter_encode.induct)
      (auto simp: letter_decode_plain escape_letters_def)
  then show ?thesis by (simp add: decodes_def)
qed

lemma href_roundtrip_witness:
  "path_matches ''/users/{id}'' ''/users/a%sb'' \<and>
   ri_collect (raw_path_params_iter_new ''/users/{id}'' (from_match letter_decode ''/users/{id}''
     (captures (segments ''/users/{id}'') (url_segments ''/users/a%sb'')))) = [(''id'', Segment ''a/b'')]"
proof -
  let ?p = "''/users/{id}''" and ?ps = "[\<lparr>hp_name = ''id'', hp_segments = [''a/b'']\<rparr>]"
  have s: "segments ?p = [Static ''users'', Param ''id'']" by code_simp
  have "wf_segments (segments ?p)" unfolding s by code_simp
  moreover have "catch_all_last (segments ?p)" "filter (\<lambda>s. \<not> is_group s) (segments ?p) \<noteq> [Static []]"
    unfolding s by simp_all
  moreover have "assign_params letter_encode ?ps ?p [] = Done ''/users/a%sb''" by code_simp
  ultimately have "path_matches ?p ''/users/a%sb'' \<and>
      ri_collect (raw_path_params_iter_new ?p (from_match letter_decode ?p
        (captures (segments ?p) (url_segments ''/users/a%sb'')))) =
      map (sent letter_encode) (zip (param_segments ?p) ?ps)"
    by (rule href_roundtrip [OF letter_decodes])
  then show ?thesis unfolding param_segments_def s by simp
qed

text \<open>A link is current for the path it spells and the query pairs it carries, in any order.\<close>

lemma query_pairs_eq: "query_pairs parse a = query_pairs parse b \<longleftrightarrow> mset (parse a) = mset (parse b)"
proof
  assume "query_pairs parse a = query_pairs parse b"
  then have "mset (sort (parse a)) = mset (sort (parse b))" by (simp add: query_pairs_def)
  then show "mset (parse a) = mset (parse b)" by simp
next
  assume "mset (parse a) = mset (parse b)"
  then have "sort (parse a) = sort (parse b)"
    by (intro properties_for_sort) simp_all
  then show "query_pairs parse a = query_pairs parse b" by (simp add: query_pairs_def)
qed

lemma is_current_iff:
  "href_is_current encode parse cx h = Done True \<longleftrightarrow>
     assign_params encode (hr_params h) (hr_target h) [] = Done (lk_uri_path cx) \<and>
     (hr_queries h = [] \<or>
      (\<exists>q. assign_queries (hr_queries h) [] = Done q \<and>
        mset (parse (unwrap_or [] (strip_prefix ''?'' q))) = mset (parse (unwrap_or [] (lk_uri_query cx)))))"
proof (cases "assign_params encode (hr_params h) (hr_target h) []")
  case (Done path)
  then show ?thesis
    by (cases "lk_uri_path cx = path"; cases "hr_queries h = []"; cases "assign_queries (hr_queries h) []")
      (simp_all add: href_is_current_def queries_specified_def query_pairs_eq)
qed (simp add: href_is_current_def)

text \<open>The path of a group with a trailing slash: the matcher serves it at \<^verbatim>\<open>/\<close> and its link is \<^verbatim>\<open>/\<close>,
  which its own pattern does not match.\<close>

lemma group_with_trailing_slash:
  "path_from_str ''/(g)/'' = Ok ''/(g)/'' \<and> to_matchit_path ''/(g)/'' = ''/'' \<and>
   assign_params letter_encode [] ''/(g)/'' [] = Done ''/'' \<and> \<not> path_matches ''/(g)/'' ''/''"
  by (intro conjI) code_simp+

end
