(* ===== verification/Responses.thy ===== *)
theory Responses
  imports Http_Errors
begin

text \<open>
  Values that become responses: \<^verbatim>\<open>crates/topcoat-router/src/response.rs\<close>.  The implementations of
  \<^verbatim>\<open>IntoResponse\<close> and \<^verbatim>\<open>IntoResponseParts\<close> are the constructors of two datatypes; a conversion of
  a header's name or value that may fail is its result.  Extensions and the protocol version
  are left out.
\<close>

text \<open>\<^verbatim>\<open>HeaderMap::extend\<close>: a name's first value replaces the values under the name, the nameless
  entries after it append.\<close>

fun extend_loop :: "header_map \<Rightarrow> str option \<Rightarrow> (str option \<times> str) list \<Rightarrow> header_map" where
  "extend_loop into current [] = into"
| "extend_loop into current ((Some n, v) # es) = extend_loop (hm_insert into n v) (Some n) es"
| "extend_loop into (Some n) ((None, v) # es) = extend_loop (hm_append into n v) (Some n) es"
| "extend_loop into None ((None, v) # es) = extend_loop into None es"

definition hm_extend :: "header_map \<Rightarrow> header_map \<Rightarrow> header_map" where
  "hm_extend into h = extend_loop into None (hm_into_iter h)"

type_synonym 'e header_pair = "(str, 'e) result \<times> (str, 'e) result"

datatype 'e response_part =
    PUnit
  | POption "'e response_part option"
  | PHeaders header_map
  | PPairs "'e header_pair list"

text \<open>The status and headers of \<^verbatim>\<open>http::response::Parts\<close>, and what may stand first in a tuple: a
  status, or the parts of a template.\<close>

record response_parts =
  rp_status :: nat
  rp_headers :: header_map

datatype tuple_head = HeadNone | HeadStatus nat | HeadParts response_parts

datatype ('b, 'e) reply =
    RUnit
  | RText str
  | RBytes str
  | RBody 'b
  | RResponse "'b response"
  | RStatus nat
  | RHeaders header_map
  | RParts response_parts
  | RPairs "'e header_pair list"
  | RTuple tuple_head "'e response_part list" "('b, 'e) reply"

fun insert_pairs :: "'e header_pair list \<Rightarrow> response_parts \<Rightarrow> (response_parts, 'e) result" where
  "insert_pairs [] parts = Ok parts"
| "insert_pairs ((name, v) # es) parts =
     and_then name (\<lambda>n. and_then v (\<lambda>v.
       insert_pairs es (parts\<lparr>rp_headers := hm_insert (rp_headers parts) n v\<rparr>)))"

fun into_response_parts :: "'e response_part \<Rightarrow> response_parts \<Rightarrow> (response_parts, 'e) result" where
  "into_response_parts PUnit parts = Ok parts"
| "into_response_parts (POption None) parts = Ok parts"
| "into_response_parts (POption (Some p)) parts = into_response_parts p parts"
| "into_response_parts (PHeaders h) parts = Ok (parts\<lparr>rp_headers := hm_extend (rp_headers parts) h\<rparr>)"
| "into_response_parts (PPairs es) parts = insert_pairs es parts"

fun apply_parts :: "'e response_part list \<Rightarrow> response_parts \<Rightarrow> (response_parts, 'e) result" where
  "apply_parts [] parts = Ok parts"
| "apply_parts (p # ps) parts = and_then (into_response_parts p parts) (apply_parts ps)"

definition merge_parts :: "response_parts \<Rightarrow> response_parts \<Rightarrow> response_parts" where
  "merge_parts parts from =
     parts\<lparr>rp_status := rp_status from, rp_headers := hm_extend (rp_headers parts) (rp_headers from)\<rparr>"

fun apply_head :: "tuple_head \<Rightarrow> response_parts \<Rightarrow> response_parts" where
  "apply_head HeadNone parts = parts"
| "apply_head (HeadStatus s) parts = parts\<lparr>rp_status := s\<rparr>"
| "apply_head (HeadParts template) parts = merge_parts parts template"

definition into_parts :: "'b response \<Rightarrow> response_parts \<times> 'b" where
  "into_parts r = (\<lparr>rp_status = rs_status r, rp_headers = rs_headers r\<rparr>, rs_body r)"

definition from_parts :: "response_parts \<Rightarrow> 'b \<Rightarrow> 'b response" where
  "from_parts parts b = \<lparr>rs_status = rp_status parts, rs_headers = rp_headers parts, rs_body = b\<rparr>"

text \<open>The body of every tuple implementation, once its last element is a response.\<close>

definition tuple_response :: "tuple_head \<Rightarrow> 'e response_part list \<Rightarrow> 'b response \<Rightarrow> ('b response, 'e) result" where
  "tuple_response head ps r =
     (let (parts, body) = into_parts r
      in and_then (apply_parts ps (apply_head head parts)) (\<lambda>parts. Ok (from_parts parts body)))"

definition unit_response :: "'b body_ops \<Rightarrow> 'b response" where
  "unit_response ops = response_new (body_empty ops)"

fun into_response :: "'b body_ops \<Rightarrow> ('b, 'e) reply \<Rightarrow> ('b response, 'e) result" where
  "into_response ops RUnit = Ok (unit_response ops)"
| "into_response ops (RText s) = Ok (content_response ''text/plain; charset=utf-8'' (body_text ops s))"
| "into_response ops (RBytes s) = Ok (content_response ''application/octet-stream'' (body_text ops s))"
| "into_response ops (RBody b) = Ok (response_new b)"
| "into_response ops (RResponse r) = (let (parts, body) = into_parts r in Ok (from_parts parts body))"
| "into_response ops (RStatus s) = tuple_response (HeadStatus s) [] (unit_response ops)"
| "into_response ops (RHeaders h) = tuple_response HeadNone [PHeaders h] (unit_response ops)"
| "into_response ops (RParts p) = tuple_response (HeadParts p) [] (unit_response ops)"
| "into_response ops (RPairs es) = tuple_response HeadNone [PPairs es] (unit_response ops)"
| "into_response ops (RTuple head ps r) = and_then (into_response ops r) (tuple_response head ps)"

subsection \<open>What a tuple says last wins\<close>

lemma extend_loop_nameless:
  "extend_loop into (Some n) (map (Pair None) vs @ es) = extend_loop (into @ map (Pair n) vs) (Some n) es"
  by (induction vs arbitrary: into) (auto simp: hm_append_def)

lemma hm_get_all_pairs: "hm_get_all (map (Pair n) vs) m = (if n = m then vs else [])"
  by (induction vs) (auto simp: hm_get_all_def)

lemma extend_loop_groups:
  "(\<forall>n \<in> set ns. g n \<noteq> []) \<Longrightarrow> distinct ns \<Longrightarrow>
   hm_get_all (extend_loop into cur (concat (map (\<lambda>n. name_first n (g n)) ns))) m =
     (if m \<in> set ns then g m else hm_get_all into m)"
proof (induction ns arbitrary: into cur)
  case (Cons n ns)
  then obtain v vs where "g n = v # vs" by (cases "g n") auto
  with Cons show ?case by (auto simp: extend_loop_nameless hm_get_all_pairs)
qed simp

lemma hm_get_all_extend [simp]:
  "hm_get_all (hm_extend into h) n = (if hm_get_all h n = [] then hm_get_all into n else hm_get_all h n)"
  unfolding hm_extend_def hm_into_iter_def
  by (subst extend_loop_groups) (auto simp: hm_get_all_empty_iff distinct_hm_names)

text \<open>The headers a part sets, and the first failure among its conversions.\<close>

fun pairs_headers :: "'e header_pair list \<Rightarrow> (header_map, 'e) result" where
  "pairs_headers [] = Ok []"
| "pairs_headers ((name, v) # es) =
     and_then name (\<lambda>n. and_then v (\<lambda>v. and_then (pairs_headers es) (\<lambda>h.
       Ok (if hm_get_all h n = [] then (n, v) # h else h))))"

fun part_headers :: "'e response_part \<Rightarrow> (header_map, 'e) result" where
  "part_headers PUnit = Ok []"
| "part_headers (POption None) = Ok []"
| "part_headers (POption (Some p)) = part_headers p"
| "part_headers (PHeaders h) = Ok h"
| "part_headers (PPairs es) = pairs_headers es"

fun sources :: "'e response_part list \<Rightarrow> (header_map list, 'e) result" where
  "sources [] = Ok []"
| "sources (p # ps) = and_then (part_headers p) (\<lambda>h. and_then (sources ps) (\<lambda>hs. Ok (h # hs)))"

fun latest :: "header_map list \<Rightarrow> str \<Rightarrow> str list" where
  "latest [] n = []"
| "latest (h # hs) n = (if latest hs n = [] then hm_get_all h n else latest hs n)"

definition head_headers :: "tuple_head \<Rightarrow> header_map" where
  "head_headers head = (case head of HeadParts p \<Rightarrow> rp_headers p | _ \<Rightarrow> [])"

definition head_status :: "tuple_head \<Rightarrow> nat \<Rightarrow> nat" where
  "head_status head s = (case head of HeadNone \<Rightarrow> s | HeadStatus t \<Rightarrow> t | HeadParts p \<Rightarrow> rp_status p)"

text \<open>Same status, and the same values under every name.\<close>

definition parts_equiv :: "response_parts \<Rightarrow> nat \<Rightarrow> (str \<Rightarrow> str list) \<Rightarrow> bool" where
  "parts_equiv p s f \<longleftrightarrow> rp_status p = s \<and> hm_get_all (rp_headers p) = f"

definition over :: "(str \<Rightarrow> str list) \<Rightarrow> (str \<Rightarrow> str list) \<Rightarrow> str \<Rightarrow> str list" where
  "over f g n = (if g n = [] then f n else g n)"

lemma hm_get_all_Cons: "hm_get_all ((m, v) # h) n = (if m = n then v # hm_get_all h n else hm_get_all h n)"
  by (simp add: hm_get_all_def)

lemma insert_pairs_spec:
  "(case pairs_headers es of
      Inl e \<Rightarrow> insert_pairs es p = Err e
    | Inr h \<Rightarrow> \<exists>q. insert_pairs es p = Ok q \<and>
        parts_equiv q (rp_status p) (over (hm_get_all (rp_headers p)) (hm_get_all h)))"
proof (induction es arbitrary: p)
  case (Cons e es)
  obtain name v where [simp]: "e = (name, v)" by force
  show ?case
  proof (cases "\<exists>n w h. name = Ok n \<and> v = Ok w \<and> pairs_headers es = Ok h")
    case True
    then obtain n w h where [simp]: "name = Ok n" "v = Ok w" "pairs_headers es = Ok h" by blast
    show ?thesis
      using Cons [of "p\<lparr>rp_headers := hm_insert (rp_headers p) n w\<rparr>"]
      by (auto simp: parts_equiv_def over_def hm_get_all_Cons fun_eq_iff)
  next
    case False
    then show ?thesis
      using Cons [of "p\<lparr>rp_headers := hm_insert (rp_headers p) (projr name) (projr v)\<rparr>"]
      by (cases name; cases v; cases "pairs_headers es") auto
  qed
qed (simp add: parts_equiv_def over_def fun_eq_iff)

lemma into_response_parts_spec:
  "(case part_headers x of
      Inl e \<Rightarrow> into_response_parts x p = Err e
    | Inr h \<Rightarrow> \<exists>q. into_response_parts x p = Ok q \<and>
        parts_equiv q (rp_status p) (over (hm_get_all (rp_headers p)) (hm_get_all h)))"
proof (induction x p rule: into_response_parts.induct)
  case (5 es parts)
  then show ?case using insert_pairs_spec [of es parts] by (cases "pairs_headers es") auto
qed (auto simp: parts_equiv_def over_def fun_eq_iff split: sum.splits)

lemma apply_parts_spec:
  "(case sources ps of
      Inl e \<Rightarrow> apply_parts ps p = Err e
    | Inr hs \<Rightarrow> \<exists>q. apply_parts ps p = Ok q \<and>
        parts_equiv q (rp_status p) (over (hm_get_all (rp_headers p)) (latest hs)))"
proof (induction ps arbitrary: p)
  case (Cons x ps)
  show ?case
  proof (cases "part_headers x")
    case (Inl e)
    then show ?thesis using into_response_parts_spec [of x p] by simp
  next
    case (Inr h)
    then obtain q where q: "into_response_parts x p = Ok q"
      "parts_equiv q (rp_status p) (over (hm_get_all (rp_headers p)) (hm_get_all h))"
      using into_response_parts_spec [of x p] by auto
    then show ?thesis
      using Cons [of q] Inr by (cases "sources ps") (auto simp: parts_equiv_def over_def fun_eq_iff)
  qed
qed (simp add: parts_equiv_def over_def fun_eq_iff)

text \<open>A tuple is the response of its last element with the status its head gives, and under
  every header name the values of the last of its parts to set the name, else the head's, else
  the inner response's; it fails with the first conversion that fails and with nothing else.\<close>

theorem tuple_last_wins:
  "(case sources ps of
      Inl e \<Rightarrow> tuple_response head ps r = Err e
    | Inr hs \<Rightarrow> \<exists>t. tuple_response head ps r = Ok t \<and> rs_body t = rs_body r \<and>
        rs_status t = head_status head (rs_status r) \<and>
        hm_get_all (rs_headers t) = latest (rs_headers r # head_headers head # hs))"
proof -
  let ?p = "apply_head head (fst (into_parts r))"
  have h: "hm_get_all (rp_headers ?p) = over (hm_get_all (rs_headers r)) (hm_get_all (head_headers head))"
    "rp_status ?p = head_status head (rs_status r)"
    by (cases head; auto simp: over_def fun_eq_iff into_parts_def merge_parts_def head_headers_def head_status_def)+
  have t: "tuple_response head ps r = and_then (apply_parts ps ?p) (\<lambda>parts. Ok (from_parts parts (rs_body r)))"
    by (simp add: tuple_response_def into_parts_def)
  show ?thesis
    using apply_parts_spec [of ps ?p] unfolding t parts_equiv_def h
    by (cases "sources ps") (auto simp: from_parts_def over_def fun_eq_iff)
qed

end
