(* ===== verification/Futures.thy ===== *)
theory Futures
  imports Prelude
begin

text \<open>
  \<^verbatim>\<open>core::task::Poll\<close>, the result of polling a future or a stream, with the stream item type of
  \<^verbatim>\<open>futures_core\<close>: the next item, or nothing once the stream has ended.
\<close>

datatype 'a poll = Ready 'a | Pending

type_synonym 'a next_item = "'a option poll"

fun poll_map :: "('a \<Rightarrow> 'b) \<Rightarrow> 'a poll \<Rightarrow> 'b poll" where
  "poll_map f (Ready x) = Ready (f x)"
| "poll_map f Pending = Pending"

definition is_ready :: "'a poll \<Rightarrow> bool" where
  "is_ready p \<longleftrightarrow> (case p of Ready _ \<Rightarrow> True | Pending \<Rightarrow> False)"

lemma is_ready_simps [simp]: "is_ready (Ready x)" "\<not> is_ready Pending"
  by (simp_all add: is_ready_def)

end
