(* ===== verification/Server_Events.thy ===== *)
theory Server_Events
  imports Futures Responses
begin

text \<open>
  Server-sent events: \<^verbatim>\<open>crates/topcoat-router/src/content/sse/\<close> \<^verbatim>\<open>event.rs\<close>, \<^verbatim>\<open>keep_alive.rs\<close> and
  \<^verbatim>\<open>response.rs\<close>.  A \<^verbatim>\<open>Duration\<close> is its nanoseconds and an \<^verbatim>\<open>Instant\<close> a number; JSON serialisation
  gives its result.  The client that reads the stream is the algorithm of the HTML standard,
  and serves as the specification.
\<close>

subsection \<open>Events\<close>

record event =
  ev_comment :: "str option"
  ev_kind :: "str option"
  ev_data :: "str option"
  ev_id :: "str option"
  ev_retry :: "nat option"

datatype invalid_event = InvalidEventError str

definition event_new :: event where
  "event_new = \<lparr>ev_comment = None, ev_kind = None, ev_data = None, ev_id = None, ev_retry = None\<rparr>"

definition event_data :: "str \<Rightarrow> event \<Rightarrow> event" where "event_data d e = e\<lparr>ev_data := Some d\<rparr>"
definition event_event :: "str \<Rightarrow> event \<Rightarrow> event" where "event_event k e = e\<lparr>ev_kind := Some k\<rparr>"
definition event_id :: "str \<Rightarrow> event \<Rightarrow> event" where "event_id i e = e\<lparr>ev_id := Some i\<rparr>"
definition event_retry :: "nat \<Rightarrow> event \<Rightarrow> event" where "event_retry r e = e\<lparr>ev_retry := Some r\<rparr>"
definition event_comment :: "str \<Rightarrow> event \<Rightarrow> event" where "event_comment c e = e\<lparr>ev_comment := Some c\<rparr>"

definition event_json_data :: "(str, 'e) result \<Rightarrow> event \<Rightarrow> (event, 'e) result" where
  "event_json_data json e = and_then json (\<lambda>s. Ok (event_data s e))"

definition line_break :: "char \<Rightarrow> bool" where
  "line_break c \<longleftrightarrow> c = CHR 0x0D \<or> c = CHR 0x0A"

text \<open>\<^verbatim>\<open>str::find\<close> with a predicate on characters.\<close>

definition find_char :: "(char \<Rightarrow> bool) \<Rightarrow> str \<Rightarrow> nat option" where
  "find_char P s = (if list_ex P s then Some (length (takeWhile (\<lambda>c. \<not> P c) s)) else None)"

lemma find_char_less: "find_char P s = Some i \<Longrightarrow> i < length s"
  by (induction s arbitrary: i) (auto simp: find_char_def split: if_splits)

function sse_lines :: "str \<Rightarrow> str list" where
  "sse_lines value =
     (case find_char line_break value of
        None \<Rightarrow> [value]
      | Some index \<Rightarrow>
          (let terminator = (if starts_with_str (drop index value) [CHR 0x0D, CHR 0x0A] then 2 else 1)
           in take index value # sse_lines (drop (index + terminator) value)))"
  by pat_completeness auto
termination
  by (relation "measure length") (auto dest: find_char_less)

declare sse_lines.simps [simp del]

definition put_field :: "str \<Rightarrow> str \<Rightarrow> str \<Rightarrow> str" where
  "put_field buffer name v = buffer @ name @ '': '' @ v @ [CHR 0x0A]"

definition put_lines :: "str \<Rightarrow> str \<Rightarrow> str option \<Rightarrow> str" where
  "put_lines buffer name v =
     (case v of None \<Rightarrow> buffer | Some v \<Rightarrow> foldl (\<lambda>b. put_field b name) buffer (sse_lines v))"

text \<open>The buffer so far is threaded through the fields in the order of the source.\<close>

definition event_serialize :: "event \<Rightarrow> (str, invalid_event) result" where
  "event_serialize e =
     (let buffer = put_lines [] [] (ev_comment e)
      in and_then
           (case ev_kind e of
              None \<Rightarrow> Ok buffer
            | Some kind \<Rightarrow>
                if list_ex line_break kind
                then Err (InvalidEventError ''the event type contains a line break'')
                else Ok (put_field buffer ''event'' kind))
           (\<lambda>buffer. let buffer = put_lines buffer ''data'' (ev_data e) in and_then
             (case ev_id e of
                None \<Rightarrow> Ok buffer
              | Some i \<Rightarrow>
                  if list_ex (\<lambda>c. line_break c \<or> c = CHR 0x00) i
                  then Err (InvalidEventError ''the event id contains a line break or null character'')
                  else Ok (put_field buffer ''id'' i))
             (\<lambda>buffer.
               let buffer = (case ev_retry e of
                     None \<Rightarrow> buffer
                   | Some r \<Rightarrow> put_field buffer ''retry'' (decimal (r div 1000000)))
               in Ok (buffer @ [CHR 0x0A]))))"

text \<open>\<^verbatim>\<open>HeaderValue::to_str\<close> accepts visible ASCII and tabs only.\<close>

definition value_to_str :: "str \<Rightarrow> str option" where
  "value_to_str v = (if list_all (\<lambda>c. let n = (of_char c :: nat) in 32 \<le> n \<and> n < 127 \<or> n = 9) v then Some v else None)"

definition last_event_id :: "header_map \<Rightarrow> str option" where
  "last_event_id headers =
     (case hm_get headers ''last-event-id'' of None \<Rightarrow> None | Some v \<Rightarrow> value_to_str v)"

subsection \<open>Keep-alive and the body\<close>

record keep_alive =
  ka_event :: event
  ka_interval :: nat

definition keep_alive_new :: keep_alive where
  "keep_alive_new = \<lparr>ka_event = event_comment [] event_new, ka_interval = 15 * 1000000000\<rparr>"

definition keep_alive_interval :: "nat \<Rightarrow> keep_alive \<Rightarrow> keep_alive" where
  "keep_alive_interval i k = k\<lparr>ka_interval := i\<rparr>"

definition keep_alive_event :: "event \<Rightarrow> keep_alive \<Rightarrow> keep_alive" where
  "keep_alive_event e k = k\<lparr>ka_event := e\<rparr>"

definition keep_alive_text :: "str \<Rightarrow> keep_alive \<Rightarrow> keep_alive" where
  "keep_alive_text t k = keep_alive_event (event_comment t event_new) k"

text \<open>The sleep is the instant it ends.\<close>

record keep_alive_timer =
  kt_frame :: str
  kt_interval :: nat
  kt_sleep :: "nat option"

definition into_timer :: "keep_alive \<Rightarrow> (keep_alive_timer, invalid_event) result" where
  "into_timer k = and_then (event_serialize (ka_event k))
     (\<lambda>frame. Ok \<lparr>kt_frame = frame, kt_interval = ka_interval k, kt_sleep = None\<rparr>)"

definition timer_poll_frame :: "nat \<Rightarrow> keep_alive_timer \<Rightarrow> str poll \<times> keep_alive_timer" where
  "timer_poll_frame now t =
     (let sleep = unwrap_or (now + kt_interval t) (kt_sleep t)
      in if sleep \<le> now then (Ready (kt_frame t), t\<lparr>kt_sleep := Some (now + kt_interval t)\<rparr>)
         else (Pending, t\<lparr>kt_sleep := Some sleep\<rparr>))"

definition timer_defer :: "nat \<Rightarrow> keep_alive_timer \<Rightarrow> keep_alive_timer" where
  "timer_defer now t =
     (case kt_sleep t of Some _ \<Rightarrow> t\<lparr>kt_sleep := Some (now + kt_interval t)\<rparr> | None \<Rightarrow> t)"

datatype 'e sse_error = InvalidEvent invalid_event | StreamError 'e

type_synonym sse_body = "keep_alive_timer option"

text \<open>\<^verbatim>\<open>poll_frame\<close>, given what polling the stream of events returned.\<close>

definition sse_poll_frame :: "nat \<Rightarrow> (event, 'e) result next_item \<Rightarrow> sse_body
    \<Rightarrow> (str, 'e sse_error) result next_item \<times> sse_body" where
  "sse_poll_frame now polled keep_alive =
     (case polled of
        Ready (Some (Inr event)) \<Rightarrow>
          (case event_serialize event of
             Inr frame \<Rightarrow> (Ready (Some (Ok frame)), map_option (timer_defer now) keep_alive)
           | Inl e \<Rightarrow> (Ready (Some (Err (InvalidEvent e))), keep_alive))
      | Ready (Some (Inl e)) \<Rightarrow> (Ready (Some (Err (StreamError e))), keep_alive)
      | Ready None \<Rightarrow> (Ready None, keep_alive)
      | Pending \<Rightarrow>
          (case keep_alive of
             Some t \<Rightarrow>
               (let (p, t) = timer_poll_frame now t in (poll_map (\<lambda>frame. Some (Ok frame)) p, Some t))
           | None \<Rightarrow> (Pending, None)))"

text \<open>The response, with \<open>mk\<close> making a body of the state above.\<close>

definition sse_into_response :: "'b body_ops \<Rightarrow> (sse_body \<Rightarrow> 'b) \<Rightarrow> keep_alive option
    \<Rightarrow> ('b response, invalid_event) result" where
  "sse_into_response ops mk keep_alive =
     and_then (case keep_alive of
         None \<Rightarrow> Ok None
       | Some k \<Rightarrow> and_then (into_timer k) (\<lambda>t. Ok (Some t)))
       (\<lambda>keep_alive. into_response ops (RTuple HeadNone
         [PPairs [(Ok ''content-type'', Ok ''text/event-stream''), (Ok ''cache-control'', Ok ''no-cache'')]]
         (RBody (mk keep_alive))))"

subsection \<open>The client\<close>

record message =
  msg_type :: str
  msg_data :: str
  msg_id :: str

record client =
  cl_data :: str
  cl_type :: str
  cl_id :: str
  cl_retry :: "str option"

definition client_field :: "str \<Rightarrow> str \<Rightarrow> client \<Rightarrow> client" where
  "client_field name v c =
     (if name = ''event'' then c\<lparr>cl_type := v\<rparr>
      else if name = ''data'' then c\<lparr>cl_data := cl_data c @ v @ [CHR 0x0A]\<rparr>
      else if name = ''id'' then (if CHR 0x00 \<in> set v then c else c\<lparr>cl_id := v\<rparr>)
      else if name = ''retry'' then (if list_all is_ascii_digit v then c\<lparr>cl_retry := Some v\<rparr> else c)
      else c)"

definition client_line :: "str \<Rightarrow> client \<Rightarrow> message list \<times> client" where
  "client_line l c =
     (if l = [] then
        ((if cl_data c = [] then []
          else [\<lparr>msg_type = (if cl_type c = [] then ''message'' else cl_type c), msg_data = butlast (cl_data c),
                 msg_id = cl_id c\<rparr>]),
         c\<lparr>cl_data := [], cl_type := []\<rparr>)
      else ([],
        (case split_once (CHR '':'') l of
           None \<Rightarrow> client_field l [] c
         | Some (name, v) \<Rightarrow>
             if name = [] then c
             else client_field name (unwrap_or v (strip_prefix '' '' v)) c)))"

fun client_lines :: "str list \<Rightarrow> client \<Rightarrow> message list \<times> client" where
  "client_lines [] c = ([], c)"
| "client_lines (l # ls) c =
     (let (ms, c) = client_line l c; (ns, c) = client_lines ls c in (ms @ ns, c))"

text \<open>The lines of a stream that have ended, as the standard ends them: at a line feed, at a carriage
  return, or at both in this order.  \<open>acc\<close> is the line being read; what stands after the last line break
  is not a line yet.\<close>

fun ended_lines :: "bool \<Rightarrow> str \<Rightarrow> str \<Rightarrow> str list" where
  "ended_lines cr acc [] = []"
| "ended_lines cr acc (c # s) =
     (if c = CHR 0x0A then (if cr then ended_lines False acc s else acc # ended_lines False [] s)
      else if c = CHR 0x0D then acc # ended_lines True [] s
      else ended_lines False (acc @ [c]) s)"

definition client_read :: "str \<Rightarrow> client \<Rightarrow> message list \<times> client" where
  "client_read stream c = client_lines (ended_lines False [] stream) c"

subsection \<open>Lines\<close>

lemma find_char_none: "list_all (\<lambda>c. \<not> P c) s \<Longrightarrow> find_char P s = None"
  by (auto simp: find_char_def list_ex_iff list_all_iff)

lemma find_char_first: "list_all (\<lambda>c. \<not> P c) s \<Longrightarrow> P c \<Longrightarrow> find_char P (s @ c # r) = Some (length s)"
  by (auto simp: find_char_def list_ex_iff list_all_iff takeWhile_append2)

abbreviation one_line :: "str \<Rightarrow> bool" where "one_line s \<equiv> list_all (\<lambda>c. \<not> line_break c) s"

lemma sse_lines_one: "one_line s \<Longrightarrow> sse_lines s = [s]"
  by (simp add: sse_lines.simps [of s] find_char_none)

lemma sse_lines_pieces: "l \<in> set (sse_lines s) \<Longrightarrow> one_line l"
proof (induction s rule: sse_lines.induct)
  case (1 s)
  have p: "one_line (take i s)" if "find_char line_break s = Some i" for i
    using that by (auto simp: find_char_def list_all_iff takeWhile_eq_take [symmetric] split: if_splits dest: set_takeWhileD)
  show ?case
  proof (cases "find_char line_break s")
    case None
    then have "sse_lines s = [s]" by (simp add: sse_lines.simps [of s])
    with None "1.prems" show ?thesis by (auto simp: find_char_def list_ex_iff list_all_iff split: if_splits)
  next
    case (Some i)
    let ?t = "if starts_with_str (drop i s) [CHR 0x0D, CHR 0x0A] then 2 else 1"
    have "sse_lines s = take i s # sse_lines (drop (i + ?t) s)"
      by (simp add: sse_lines.simps [of s] Some Let_def)
    with "1.prems" have "l = take i s \<or> l \<in> set (sse_lines (drop (i + ?t) s))" by simp
    with "1.IH" [OF Some refl] p [OF Some] show ?thesis by blast
  qed
qed

lemma sse_lines_not_Nil [simp]: "sse_lines s \<noteq> []"
  by (subst sse_lines.simps) (simp add: Let_def split: option.splits)

definition unlines :: "str list \<Rightarrow> str" where
  "unlines ls = concat (map (\<lambda>l. l @ [CHR 0x0A]) ls)"

lemma unlines_simps [simp]: "unlines [] = []" "unlines (l # ls) = l @ CHR 0x0A # unlines ls"
  "unlines (ls @ ms) = unlines ls @ unlines ms"
  by (simp_all add: unlines_def)

text \<open>No line of a payload breaks for the client, and joined with line feeds they are the payload
  with its line breaks normalised.\<close>

lemma ended_lines_one: "one_line l \<Longrightarrow> ended_lines False acc (l @ CHR 0x0A # s) = (acc @ l) # ended_lines False [] s"
proof (induction l arbitrary: acc)
  case (Cons c l)
  then have "c \<noteq> CHR 0x0A" "c \<noteq> CHR 0x0D" by (auto simp: line_break_def)
  with Cons show ?case by simp
qed simp

lemma ended_lines_unlines: "list_all one_line ls \<Longrightarrow> ended_lines False [] (unlines ls) = ls"
  by (induction ls) (simp_all add: ended_lines_one)

lemma newlines_one: "one_line l \<Longrightarrow> newlines_after False (l @ s) = l @ newlines_after False s"
proof (induction l)
  case (Cons c l)
  then have "c \<noteq> CHR 0x0A" "c \<noteq> CHR 0x0D" by (auto simp: line_break_def)
  with Cons show ?case by simp
qed simp

lemma find_char_split:
  assumes "find_char P s = Some i"
  obtains c r where "s = take i s @ c # r" "P c" "list_all (\<lambda>c. \<not> P c) (take i s)" "drop i s = c # r"
proof -
  have i: "i = length (takeWhile (\<lambda>c. \<not> P c) s)" and e: "list_ex P s"
    using assms by (auto simp: find_char_def split: if_splits)
  have t: "take i s = takeWhile (\<lambda>c. \<not> P c) s" and d: "drop i s = dropWhile (\<lambda>c. \<not> P c) s"
    by (simp_all add: i takeWhile_eq_take [symmetric] dropWhile_eq_drop [symmetric])
  from e have "dropWhile (\<lambda>c. \<not> P c) s \<noteq> []" by (auto simp: dropWhile_eq_Nil_conv list_ex_iff)
  then obtain c r where c: "dropWhile (\<lambda>c. \<not> P c) s = c # r" by (cases "dropWhile (\<lambda>c. \<not> P c) s") auto
  show ?thesis
  proof (rule that)
    show "s = take i s @ c # r" using c by (metis t takeWhile_dropWhile_id)
    show "P c" using c by (metis dropWhile_eq_Cons_conv)
    show "list_all (\<lambda>c. \<not> P c) (take i s)" unfolding t by (auto simp: list_all_iff dest: set_takeWhileD)
    show "drop i s = c # r" using c d by simp
  qed
qed

lemma sse_lines_normalize: "join_with [CHR 0x0A] (sse_lines s) = normalize_newlines s"
proof (induction s rule: sse_lines.induct)
  case (1 s)
  show ?case
  proof (cases "find_char line_break s")
    case None
    then have "one_line s" by (auto simp: find_char_def list_ex_iff list_all_iff split: if_splits)
    with newlines_one [of s "[]"] show ?thesis by (simp add: sse_lines_one normalize_newlines_def)
  next
    case (Some i)
    then obtain c r where c: "s = take i s @ c # r" "line_break c" "one_line (take i s)" "drop i s = c # r"
      by (rule find_char_split)
    let ?t = "if starts_with_str (drop i s) [CHR 0x0D, CHR 0x0A] then 2 else 1"
    have s: "sse_lines s = take i s # sse_lines (drop (i + ?t) s)"
      by (simp add: sse_lines.simps [of s] Some Let_def)
    then have "join_with [CHR 0x0A] (sse_lines s) = take i s @ CHR 0x0A # join_with [CHR 0x0A] (sse_lines (drop (i + ?t) s))"
      by (cases "sse_lines (drop (i + ?t) s)") simp_all
    also have "\<dots> = take i s @ CHR 0x0A # newlines_after False (drop (i + ?t) s)"
      using "1.IH" [OF Some refl] by (simp add: normalize_newlines_def)
    also have "CHR 0x0A # newlines_after False (drop (i + ?t) s) = newlines_after False (c # r)"
    proof -
      have r: "drop (i + n) s = drop n (c # r)" for n using c(4) by (metis add.commute drop_drop)
      have "c = CHR 0x0D \<or> c = CHR 0x0A" using c(2) by (simp add: line_break_def)
      then show ?thesis
        by (cases r) (auto simp: r c(4) starts_with_str_def)
    qed
    also have "take i s @ newlines_after False (c # r) = newlines_after False s"
      using newlines_one [OF c(3), of "c # r"] c(1) by simp
    finally show ?thesis by (simp add: normalize_newlines_def)
  qed
qed

subsection \<open>What an event serializes to\<close>

definition field_lines :: "str \<Rightarrow> str list \<Rightarrow> str list" where
  "field_lines name vs = map (\<lambda>v. name @ '': '' @ v) vs"

definition opt_lines :: "str option \<Rightarrow> str list" where
  "opt_lines v = (case v of None \<Rightarrow> [] | Some v \<Rightarrow> sse_lines v)"

definition option_list :: "'a option \<Rightarrow> 'a list" where
  "option_list x = (case x of None \<Rightarrow> [] | Some x \<Rightarrow> [x])"

lemma option_list_simps [simp]: "option_list None = []" "option_list (Some x) = [x]"
  by (simp_all add: option_list_def)

definition event_lines :: "event \<Rightarrow> str list" where
  "event_lines e =
     field_lines [] (opt_lines (ev_comment e)) @ field_lines ''event'' (option_list (ev_kind e)) @
     field_lines ''data'' (opt_lines (ev_data e)) @ field_lines ''id'' (option_list (ev_id e)) @
     field_lines ''retry'' (option_list (map_option (\<lambda>r. decimal (r div 1000000)) (ev_retry e)))"

definition valid_event :: "event \<Rightarrow> bool" where
  "valid_event e \<longleftrightarrow> (case ev_kind e of None \<Rightarrow> True | Some k \<Rightarrow> one_line k) \<and>
     (case ev_id e of None \<Rightarrow> True | Some i \<Rightarrow> one_line i \<and> CHR 0x00 \<notin> set i)"

lemma put_field_lines: "put_field b name v = b @ unlines (field_lines name [v])"
  by (simp add: put_field_def field_lines_def)

lemma put_lines_lines: "put_lines b name v = b @ unlines (field_lines name (opt_lines v))"
proof -
  have "foldl (\<lambda>b. put_field b name) b vs = b @ unlines (field_lines name vs)" for vs
    by (induction vs arbitrary: b) (simp_all add: put_field_lines field_lines_def)
  then show ?thesis by (simp add: put_lines_def opt_lines_def field_lines_def split: option.split)
qed

lemma not_one_line: "list_ex line_break s \<longleftrightarrow> \<not> one_line s"
  by (auto simp: list_ex_iff list_all_iff)

lemma not_one_line_or_nul: "list_ex (\<lambda>c. line_break c \<or> c = CHR 0x00) s \<longleftrightarrow> \<not> (one_line s \<and> CHR 0x00 \<notin> set s)"
  by (auto simp: list_ex_iff list_all_iff)

lemma event_serialize_spec:
  "event_serialize e = Ok f \<longleftrightarrow> valid_event e \<and> f = unlines (event_lines e @ [[]])"
  by (cases "ev_kind e"; cases "ev_id e"; cases "ev_retry e")
    (auto simp: event_serialize_def valid_event_def event_lines_def put_lines_lines put_field_lines
      not_one_line not_one_line_or_nul Let_def field_lines_def)

subsection \<open>What the client receives\<close>

fun delivered :: "str \<Rightarrow> event list \<Rightarrow> message list" where
  "delivered prev [] = []"
| "delivered prev (e # es) =
     (let prev = unwrap_or prev (ev_id e)
      in (case ev_data e of
            None \<Rightarrow> []
          | Some d \<Rightarrow>
              [\<lparr>msg_type = (if ev_kind e \<in> {None, Some []} then ''message'' else the (ev_kind e)),
                msg_data = normalize_newlines d, msg_id = prev\<rparr>]) @
         delivered prev es)"

lemma client_lines_append:
  "client_lines (ls @ ms) c =
     (let (a, c) = client_lines ls c; (b, c) = client_lines ms c in (a @ b, c))"
  by (induction ls arbitrary: c) (auto simp: Let_def split: prod.splits)

lemma client_line_field:
  "CHR '':'' \<notin> set name \<Longrightarrow>
   client_line (name @ '': '' @ v) c = ([], if name = [] then c else client_field name v c)"
proof -
  assume n: "CHR '':'' \<notin> set name"
  then have "split_once CHR '':'' (name @ '': '' @ v) = Some (name, CHR '' '' # v)"
    by (induction name) auto
  then show ?thesis by (simp add: client_line_def unwrap_or_def)
qed

lemma client_lines_comments: "client_lines (field_lines [] vs) c = ([], c)"
  using client_line_field [of "[]"] by (induction vs) (simp_all add: field_lines_def)

lemma client_lines_single:
  "CHR '':'' \<notin> set name \<Longrightarrow> name \<noteq> [] \<Longrightarrow>
   client_lines (field_lines name [v]) c = ([], client_field name v c)"
  using client_line_field [of name v c] by (simp add: field_lines_def)

lemma client_lines_data:
  "client_lines (field_lines ''data'' vs) c = ([], c\<lparr>cl_data := cl_data c @ unlines vs\<rparr>)"
proof (induction vs arbitrary: c)
  case (Cons v vs)
  then show ?case
    using client_line_field [of "''data''" v c] by (simp add: field_lines_def client_field_def)
qed (simp add: field_lines_def)

lemma unlines_join: "vs \<noteq> [] \<Longrightarrow> unlines vs = join_with [CHR 0x0A] vs @ [CHR 0x0A]"
  by (induction "[CHR 0x0A]" vs rule: join_with.induct) simp_all

definition idle :: "client \<Rightarrow> bool" where
  "idle c \<longleftrightarrow> cl_data c = [] \<and> cl_type c = []"

lemma client_event:
  assumes "valid_event e" "idle c"
  obtains d where "client_lines (event_lines e @ [[]]) c = (delivered (cl_id c) [e], d)"
    "idle d" "cl_id d = unwrap_or (cl_id c) (ev_id e)"
proof -
  let ?c1 = "case ev_kind e of None \<Rightarrow> c | Some k \<Rightarrow> client_field ''event'' k c"
  let ?c2 = "?c1\<lparr>cl_data := unlines (opt_lines (ev_data e))\<rparr>"
  let ?c3 = "case ev_id e of None \<Rightarrow> ?c2 | Some i \<Rightarrow> client_field ''id'' i ?c2"
  let ?c4 = "case ev_retry e of None \<Rightarrow> ?c3 | Some r \<Rightarrow> client_field ''retry'' (decimal (r div 1000000)) ?c3"
  have opt: "client_lines (field_lines name (option_list x)) c =
      ([], case x of None \<Rightarrow> c | Some v \<Rightarrow> client_field name v c)"
    if "CHR '':'' \<notin> set name" "name \<noteq> []" for name x c
    using client_lines_single [OF that] by (cases x) (simp_all add: field_lines_def)
  have l: "client_lines (event_lines e @ [[]]) c = client_lines [[]] ?c4"
    using assms(2)
    by (simp add: event_lines_def client_lines_append client_lines_comments opt client_lines_data idle_def
        client_field_def split: option.splits)
  have c4: "cl_type ?c4 = unwrap_or [] (ev_kind e)" "cl_data ?c4 = unlines (opt_lines (ev_data e))"
    "cl_id ?c4 = unwrap_or (cl_id c) (ev_id e)"
    using assms by (auto simp: client_field_def idle_def valid_event_def unwrap_or_def split: option.splits)
  show ?thesis
  proof (rule that)
    show "client_lines (event_lines e @ [[]]) c =
        (delivered (cl_id c) [e], ?c4\<lparr>cl_data := [], cl_type := []\<rparr>)"
      unfolding l
      by (cases "ev_data e"; cases "ev_kind e")
        (simp_all add: client_line_def c4 opt_lines_def unlines_join sse_lines_normalize unwrap_or_def Let_def)
  qed (simp_all add: idle_def c4)
qed

lemma event_lines_one_line:
  assumes "valid_event e"
  shows "list_all one_line (event_lines e)"
proof -
  have n: "one_line (name @ '': '' @ v) \<longleftrightarrow> one_line v" if "one_line name" for name v
    using that by (simp add: line_break_def)
  have d: "one_line (decimal k)" for k
    using decimal_digits [of k] by (auto simp: list_all_iff is_ascii_digit_def line_break_def)
  have m: "list_all one_line (field_lines name vs) \<longleftrightarrow> list_all one_line vs" if "one_line name" for name vs
    using n [OF that] by (simp add: field_lines_def list_all_iff)
  have "list_all one_line (opt_lines x)" for x
    using sse_lines_pieces by (auto simp: opt_lines_def list_all_iff split: option.splits)
  moreover have "one_line []" "one_line ''event''" "one_line ''data''" "one_line ''id''" "one_line ''retry''"
    by (simp_all add: line_break_def)
  ultimately show ?thesis
    using d assms
    by (cases "ev_kind e"; cases "ev_id e"; cases "ev_retry e") (simp_all add: event_lines_def m valid_event_def)
qed

text \<open>C17. An event stream reaches its client as it was sent: of the frames of a list of events the
  client of the HTML standard reads one message for every event that has data and no other, with
  the event's type, the last id sent so far and the data with its line breaks normalised to line feeds,
  whatever the values of the fields are.  The client's own reading of lines decides what a line break is.\<close>

theorem sse_roundtrip:
  assumes "list_all2 (\<lambda>e f. event_serialize e = Ok f) es fs" "idle c"
  shows "fst (client_read (concat fs) c) = delivered (cl_id c) es"
proof -
  have v: "list_all valid_event es" and f: "concat fs = unlines (concat (map (\<lambda>e. event_lines e @ [[]]) es))"
    using assms(1) by (induction es fs rule: list_all2_induct) (auto simp: event_serialize_spec)
  have "client_read (concat fs) c = client_lines (concat (map (\<lambda>e. event_lines e @ [[]]) es)) c"
  proof -
    have "list_all one_line (concat (map (\<lambda>e. event_lines e @ [[]]) es))"
      using v by (induction es) (auto simp: event_lines_one_line)
    from ended_lines_unlines [OF this] show ?thesis by (simp add: client_read_def f)
  qed
  also have "fst \<dots> = delivered (cl_id c) es"
    using v assms(2)
  proof (induction es arbitrary: c)
    case (Cons e es)
    let ?rest = "concat (map (\<lambda>e. event_lines e @ [[]]) es)"
    obtain d where d: "client_lines (event_lines e @ [[]]) c = (delivered (cl_id c) [e], d)"
      "idle d" "cl_id d = unwrap_or (cl_id c) (ev_id e)"
      using Cons.prems client_event [of e c] by auto
    have "fst (client_lines ((event_lines e @ [[]]) @ ?rest) c) =
        delivered (cl_id c) [e] @ fst (client_lines ?rest d)"
      by (subst client_lines_append) (simp only: d(1) Let_def split_beta fst_conv snd_conv)
    also have "\<dots> = delivered (cl_id c) [e] @ delivered (cl_id d) es"
      using Cons.IH [OF _ d(2)] Cons.prems by simp
    also have "\<dots> = delivered (cl_id c) (e # es)" by (simp add: d(3) Let_def)
    finally show ?case by simp
  qed simp
  finally show ?thesis .
qed

lemma sse_roundtrip_witness:
  "fst (client_read (''data: hi'' @ [CHR 0x0A] @ ''data: id: 7'' @ [CHR 0x0A, CHR 0x0A])
      \<lparr>cl_data = [], cl_type = [], cl_id = ''3'', cl_retry = None\<rparr>) =
   [\<lparr>msg_type = ''message'', msg_data = ''hi'' @ [CHR 0x0A] @ ''id: 7'', msg_id = ''3''\<rparr>]"
proof -
  let ?e = "event_data (''hi'' @ [CHR 0x0D, CHR 0x0A] @ ''id: 7'') event_new"
  let ?f = "''data: hi'' @ [CHR 0x0A] @ ''data: id: 7'' @ [CHR 0x0A, CHR 0x0A]"
  let ?c = "\<lparr>cl_data = [], cl_type = [], cl_id = ''3'', cl_retry = None\<rparr>"
  have "event_serialize ?e = Ok ?f" by code_simp
  then have "list_all2 (\<lambda>e f. event_serialize e = Ok f) [?e] [?f]" by simp
  moreover have "idle ?c" by (simp add: idle_def)
  ultimately have "fst (client_read (concat [?f]) ?c) = delivered (cl_id ?c) [?e]"
    by (rule sse_roundtrip)
  moreover have "delivered (cl_id ?c) [?e] =
      [\<lparr>msg_type = ''message'', msg_data = ''hi'' @ [CHR 0x0A] @ ''id: 7'', msg_id = ''3''\<rparr>]" by code_simp
  ultimately show ?thesis by simp
qed

subsection \<open>Keep-alive frames\<close>

text \<open>A run of the body: the time of each poll with what the stream of events returned, and what
  the body yielded.\<close>

fun sse_run :: "(nat \<times> (event, 'e) result next_item) list \<Rightarrow> sse_body
    \<Rightarrow> (str, 'e sse_error) result next_item list" where
  "sse_run [] body = []"
| "sse_run ((now, polled) # ps) body =
     (let (out, body) = sse_poll_frame now polled body in out # sse_run ps body)"

definition yields_frame :: "(str, 'e sse_error) result next_item \<Rightarrow> bool" where
  "yields_frame out \<longleftrightarrow> (case out of Ready (Some (Inr _)) \<Rightarrow> True | _ \<Rightarrow> False)"

text \<open>A frame was last sent at \<open>s\<close>: no timer ends before \<open>s\<close> plus the interval.\<close>

definition quiet_after :: "nat \<Rightarrow> nat \<Rightarrow> sse_body \<Rightarrow> bool" where
  "quiet_after i s body \<longleftrightarrow>
     (case body of None \<Rightarrow> True
      | Some t \<Rightarrow> kt_interval t = i \<and> (case kt_sleep t of None \<Rightarrow> True | Some d \<Rightarrow> s + i \<le> d))"

lemma quiet_step:
  assumes "quiet_after i s body" "s \<le> now" "sse_poll_frame now polled body = (out, body')"
  shows "quiet_after i (if yields_frame out then now else s) body' \<and>
    (yields_frame out \<and> polled = Pending \<longrightarrow> s + i \<le> now)"
proof (cases "\<exists>t. polled = Pending \<and> body = Some t")
  case True
  then obtain t where "polled = Pending" "body = Some t" by blast
  with assms show ?thesis
    by (cases "kt_sleep t")
      (auto simp: sse_poll_frame_def timer_poll_frame_def quiet_after_def yields_frame_def unwrap_or_def Let_def
        split: if_splits)
next
  case False
  with assms show ?thesis
    by (auto simp: sse_poll_frame_def quiet_after_def yields_frame_def timer_defer_def
        split: poll.splits option.splits sum.splits)
qed

lemma quiet_run:
  "quiet_after i s body \<Longrightarrow> sorted (s # map fst ps) \<Longrightarrow> n < length ps \<Longrightarrow>
   yields_frame (sse_run ps body ! n) \<Longrightarrow> snd (ps ! n) = Pending \<Longrightarrow> s + i \<le> fst (ps ! n)"
proof (induction ps arbitrary: s body n)
  case (Cons p ps)
  obtain now polled where p: "p = (now, polled)" by force
  obtain out body' where o: "sse_poll_frame now polled body = (out, body')" by force
  have s: "s \<le> now" using Cons.prems p by simp
  note step = quiet_step [OF Cons.prems(1) s o]
  show ?case
  proof (cases n)
    case 0
    with Cons.prems step show ?thesis by (simp add: p o)
  next
    case (Suc m)
    let ?s = "if yields_frame out then now else s"
    have "sorted (?s # map fst ps)" "m < length ps" using Cons.prems Suc p by auto
    from Cons.IH [OF conjunct1 [OF step] this] Cons.prems Suc
    have "?s + i \<le> fst (ps ! m)" by (simp add: p o)
    with s Suc show ?thesis by (simp split: if_splits)
  qed
qed simp

lemma quiet_pair:
  "quiet_after i s body \<Longrightarrow> sorted (s # map fst ps) \<Longrightarrow> m < n \<Longrightarrow> n < length ps \<Longrightarrow>
   yields_frame (sse_run ps body ! m) \<Longrightarrow> yields_frame (sse_run ps body ! n) \<Longrightarrow>
   snd (ps ! n) = Pending \<Longrightarrow> fst (ps ! m) + i \<le> fst (ps ! n)"
proof (induction ps arbitrary: s body m n)
  case (Cons p ps)
  obtain now polled where p: "p = (now, polled)" by force
  obtain out body' where o: "sse_poll_frame now polled body = (out, body')" by force
  have "s \<le> now" using Cons.prems p by simp
  note step = conjunct1 [OF quiet_step [OF Cons.prems(1) this o]]
  obtain k where k: "n = Suc k" using Cons.prems(3) by (cases n) auto
  show ?case
  proof (cases m)
    case 0
    with Cons.prems step show ?thesis
      using quiet_run [of i now body' ps k] by (simp add: p o k)
  next
    case (Suc j)
    have "sorted ((if yields_frame out then now else s) # map fst ps)" using Cons.prems p by auto
    from Cons.IH [OF step this, of j k] Cons.prems show ?thesis by (simp add: p o k Suc)
  qed
qed simp

text \<open>A keep-alive frame leaves only when the interval has gone by since the last frame, be it
  an event or a keep-alive: however the polls and the events interleave, a frame the body yields
  while the event stream is pending comes at least the interval after every frame before it.\<close>

theorem keep_alive_fills_idle_gaps:
  assumes "sorted (map fst ps)" "m < n" "n < length ps"
    and "yields_frame (sse_run ps (Some \<lparr>kt_frame = f, kt_interval = i, kt_sleep = None\<rparr>) ! m)"
    and "yields_frame (sse_run ps (Some \<lparr>kt_frame = f, kt_interval = i, kt_sleep = None\<rparr>) ! n)"
    and "snd (ps ! n) = Pending"
  shows "fst (ps ! m) + i \<le> fst (ps ! n)"
proof (rule quiet_pair [OF _ _ assms(2,3,4,5,6)])
  show "quiet_after i 0 (Some \<lparr>kt_frame = f, kt_interval = i, kt_sleep = None\<rparr>)" by (simp add: quiet_after_def)
  show "sorted (0 # map fst ps)" using assms(1) by simp
qed

lemma keep_alive_fills_idle_gaps_witness:
  "fst ([(3 :: nat, Ready (Some (Ok (event_data ''x'' event_new)))), (4, Pending), (15, Pending :: (event, unit) result next_item)] ! 0) + 10 \<le>
   fst ([(3, Ready (Some (Ok (event_data ''x'' event_new)))), (4, Pending), (15, Pending :: (event, unit) result next_item)] ! 2)"
proof (rule keep_alive_fills_idle_gaps [where f = "''f''"])
  let ?ps = "[(3, Ready (Some (Ok (event_data ''x'' event_new)))), (4, Pending), (15, Pending)] ::
    (nat \<times> (event, unit) result next_item) list"
  show "yields_frame (sse_run ?ps (Some \<lparr>kt_frame = ''f'', kt_interval = 10, kt_sleep = None\<rparr>) ! 0)"
    "yields_frame (sse_run ?ps (Some \<lparr>kt_frame = ''f'', kt_interval = 10, kt_sleep = None\<rparr>) ! 2)" by code_simp+
qed simp_all

end
