(* ===== verification/Static_Files.thy ===== *)
theory Static_Files
  imports Server_Events Builder
begin

text \<open>
  Directory routes: \<^verbatim>\<open>crates/topcoat-router/src/route/directory.rs\<close>.  A filesystem path is the text of a
  Unix path, with \<^verbatim>\<open>Path::components\<close> and \<^verbatim>\<open>PathBuf::push\<close> of the standard library.  The
  filesystem, the clock, the MIME table and the formatting and parsing of HTTP dates are the fields
  of an environment; an instant is its nanoseconds since the epoch and an HTTP date its seconds.
  What an opened file reads is the text that was in it.
\<close>

subsection \<open>Filesystem paths\<close>

datatype component = RootDir | CurDir | ParentDir | Normal str

definition body_component :: "str \<Rightarrow> component list" where
  "body_component s =
     (if s = [] \<or> s = ''.'' then [] else if s = ''..'' then [ParentDir] else [Normal s])"

definition path_components :: "str \<Rightarrow> component list" where
  "path_components s =
     (case slashes s of
        [] \<Rightarrow> []
      | h # t \<Rightarrow>
          (if h = [] then (if t = [] then [] else [RootDir])
           else if h = ''.'' then [CurDir] else body_component h) @
          concat (map body_component t))"

definition fs_push :: "str \<Rightarrow> str \<Rightarrow> str" where
  "fs_push buf p =
     (if starts_with_str p ''/'' then p
      else if buf = [] \<or> ends_with_str buf ''/'' then buf @ p
      else buf @ ''/'' @ p)"

subsection \<open>The route\<close>

definition CHUNK_SIZE :: nat where "CHUNK_SIZE = 64 * 1024"
definition HTTP_DATE_END_SECS :: nat where "HTTP_DATE_END_SECS = 253402300800"

datatype io_kind = IoNotFound | IoNotADirectory | IoPermissionDenied | IoInvalidInput | IoOther str

record metadata =
  md_is_file :: bool
  md_len :: nat
  md_modified :: "int option"

record 'b file_env =
  fe_metadata :: "str \<Rightarrow> (metadata, io_kind) result"
  fe_open :: "str \<Rightarrow> ((metadata, io_kind) result \<times> str, io_kind) result"
  fe_now :: int
  fe_mime :: "str \<Rightarrow> str option"
  fe_date_text :: "nat \<Rightarrow> str"
  fe_parse_date :: "str \<Rightarrow> nat option"
  fe_stream :: "nat \<Rightarrow> str \<Rightarrow> 'b"

record directory_route =
  dr_id :: nat
  dr_path :: route_path
  dr_param :: str
  dr_dir :: str

definition directory_new :: "nat \<Rightarrow> route_path \<Rightarrow> str \<Rightarrow> directory_route outcome" where
  "directory_new i path dir =
     (case (case fst (segs_next_back (path_segments_new path)) of
              None \<Rightarrow> None | Some segment \<Rightarrow> as_catch_all segment) of
        None \<Rightarrow> Panic
      | Some param \<Rightarrow> Done \<lparr>dr_id = i, dr_path = path, dr_param = param, dr_dir = dir\<rparr>)"

definition plain_name :: "str \<Rightarrow> bool" where
  "plain_name segment \<longleftrightarrow>
     (case path_components segment of [Normal name] \<Rightarrow> name = segment | _ \<Rightarrow> False)"

fun push_names :: "str \<Rightarrow> str list \<Rightarrow> str option" where
  "push_names file_path [] = Some file_path"
| "push_names file_path (segment # rest) =
     (if plain_name segment then push_names (fs_push file_path segment) rest else None)"

text \<open>\<open>endpoint_path\<close> is the path of the endpoint the request matched.\<close>

definition directory_resolve :: "route_path \<Rightarrow> raw_path_params \<Rightarrow> directory_route \<Rightarrow> str option outcome" where
  "directory_resolve endpoint_path params r =
     (case path_param_segments endpoint_path params (dr_param r) of
        Inl _ \<Rightarrow> Panic
      | Inr names \<Rightarrow> Done (push_names (dr_dir r) names))"

fun io_error :: "io_kind \<Rightarrow> ('b, 'c) error" where
  "io_error IoNotFound = not_found"
| "io_error IoNotADirectory = not_found"
| "io_error IoPermissionDenied = not_found"
| "io_error IoInvalidInput = not_found"
| "io_error (IoOther e) = OtherError e"

text \<open>An I/O error passed on as it is, by the \<^verbatim>\<open>?\<close> on the opened file's metadata.\<close>

fun io_text :: "io_kind \<Rightarrow> str" where
  "io_text IoNotFound = ''entity not found''"
| "io_text IoNotADirectory = ''not a directory''"
| "io_text IoPermissionDenied = ''permission denied''"
| "io_text IoInvalidInput = ''invalid input parameter''"
| "io_text (IoOther e) = e"

definition http_date :: "int \<Rightarrow> int \<Rightarrow> nat option" where
  "http_date now modified =
     (let modified = min modified now
      in if modified < 0 then None
         else (let secs = nat (modified div 1000000000)
               in if secs < HTTP_DATE_END_SECS then Some secs else None))"

definition is_not_modified :: "'b file_env \<Rightarrow> header_map \<Rightarrow> nat option \<Rightarrow> bool" where
  "is_not_modified env headers last_modified =
     (case (hm_get headers ''if-none-match'', last_modified) of
        (Some v, _) \<Rightarrow> v = ''*''
      | (None, Some last_modified) \<Rightarrow>
          is_some_and (\<lambda>since. last_modified \<le> since)
            (case hm_get headers ''if-modified-since'' of
               None \<Rightarrow> None
             | Some v \<Rightarrow> (case value_to_str v of None \<Rightarrow> None | Some s \<Rightarrow> fe_parse_date env s))
      | (None, None) \<Rightarrow> False)"

definition file_content_type :: "'b file_env \<Rightarrow> str \<Rightarrow> str" where
  "file_content_type env path = unwrap_or ''application/octet-stream'' (fe_mime env path)"

definition file_stream :: "'b file_env \<Rightarrow> str \<Rightarrow> nat \<Rightarrow> 'b" where
  "file_stream env contents len = fe_stream env (min len CHUNK_SIZE) (take len contents)"

text \<open>The part of \<^verbatim>\<open>serve\<close> after the file is open and is one.\<close>

definition file_response :: "'b file_env \<Rightarrow> 'b body_ops \<Rightarrow> parts \<Rightarrow> str \<Rightarrow> metadata \<Rightarrow> str
    \<Rightarrow> ('b response, ('b, 'c) error) result" where
  "file_response env ops request path metadata contents =
     (let last_modified = (case md_modified metadata of None \<Rightarrow> None | Some t \<Rightarrow> http_date (fe_now env) t)
      in and_then
        (case last_modified of
           None \<Rightarrow> Ok []
         | Some t \<Rightarrow>
             if header_value_ok (fe_date_text env t)
             then Ok (hm_insert [] ''last-modified'' (fe_date_text env t))
             else Err (OtherError ''failed to parse header value''))
        (\<lambda>headers.
          if is_not_modified env (p_headers request) last_modified
          then Ok \<lparr>rs_status = 304, rs_headers = headers, rs_body = body_empty ops\<rparr>
          else
            (let len = md_len metadata;
                 headers = hm_insert headers ''content-type'' (file_content_type env path);
                 headers = hm_insert headers ''content-length'' (decimal len);
                 body = (if p_method request = ''HEAD'' \<or> len = 0 then body_empty ops
                         else file_stream env contents len)
             in Ok \<lparr>rs_status = 200, rs_headers = headers, rs_body = body\<rparr>)))"

definition serve_path :: "'b file_env \<Rightarrow> 'b body_ops \<Rightarrow> parts \<Rightarrow> str \<Rightarrow> ('b response, ('b, 'c) error) result" where
  "serve_path env ops request path =
     (case fe_metadata env path of
        Inl e \<Rightarrow> Err (io_error e)
      | Inr metadata \<Rightarrow>
          if \<not> md_is_file metadata then Err not_found
          else (case fe_open env path of
              Inl e \<Rightarrow> Err (io_error e)
            | Inr (Inl e, _) \<Rightarrow> Err (OtherError (io_text e))
            | Inr (Inr metadata, contents) \<Rightarrow>
                if \<not> md_is_file metadata then Err not_found
                else file_response env ops request path metadata contents))"

definition directory_serve :: "'b file_env \<Rightarrow> 'b body_ops \<Rightarrow> route_path \<Rightarrow> directory_route \<Rightarrow> ('b, 'c) handler" where
  "directory_serve env ops endpoint_path r cx body headers =
     bind_outcome (directory_resolve endpoint_path (cx_params cx) r) (\<lambda>path.
       case path of
         None \<Rightarrow> Done (Err not_found, headers)
       | Some path \<Rightarrow> Done (serve_path env ops (cx_parts cx) path, headers))"

definition directory_as_route :: "'b file_env \<Rightarrow> 'b body_ops \<Rightarrow> route_path \<Rightarrow> directory_route \<Rightarrow> ('b, 'c) route" where
  "directory_as_route env ops endpoint_path r =
     \<lparr>rt_id = dr_id r, rt_methods = Only [''GET''], rt_path = dr_path r,
      rt_handle = directory_serve env ops endpoint_path r\<rparr>"

text \<open>A route's path is a path that parses, so an invalid literal panics before.\<close>

definition serve_dir :: "'b file_env \<Rightarrow> 'b body_ops \<Rightarrow> nat \<Rightarrow> route_path \<Rightarrow> str \<Rightarrow> ('b, 'c, 'v) builder
    \<Rightarrow> ('b, 'c, 'v) builder outcome" where
  "serve_dir env ops i path dir b =
     bind_outcome (directory_new i path dir) (\<lambda>r. Done (add_route (directory_as_route env ops path r) b))"

definition public_dir :: "'b file_env \<Rightarrow> 'b body_ops \<Rightarrow> nat \<Rightarrow> str \<Rightarrow> ('b, 'c, 'v) builder
    \<Rightarrow> ('b, 'c, 'v) builder outcome" where
  "public_dir env ops i dir b = serve_dir env ops i ''/{*file}'' dir b"

subsection \<open>Confinement\<close>

definition safe_name :: "str \<Rightarrow> bool" where
  "safe_name n \<longleftrightarrow> n \<notin> {[], ''.'', ''..''} \<and> CHR ''/'' \<notin> set n"

lemma body_component_Normal: "Normal n \<in> set (body_component s) \<Longrightarrow> n = s \<and> s \<notin> {[], ''.'', ''..''}"
  by (auto simp: body_component_def split: if_splits)

lemma components_Normal:
  assumes "Normal n \<in> set (path_components s)"
  shows "n \<in> set (slashes s) \<and> n \<notin> {[], ''.'', ''..''}"
  using assms body_component_Normal
  by (cases "slashes s") (fastforce simp: path_components_def split: if_splits)+

lemma plain_name_iff: "plain_name n \<longleftrightarrow> safe_name n"
proof
  assume "plain_name n"
  then have "path_components n = [Normal n]"
    by (cases "path_components n"; cases "hd (path_components n)"; cases "tl (path_components n)")
      (simp_all add: plain_name_def)
  with components_Normal [of n n] slashes_no_slash show "safe_name n"
    by (auto simp: safe_name_def)
next
  assume s: "safe_name n"
  then have "slashes n = [n]" by (intro split_on_none) (auto simp: safe_name_def)
  with s show "plain_name n"
    by (simp add: plain_name_def path_components_def body_component_def safe_name_def)
qed

lemma slashes_snoc:
  assumes "CHR ''/'' \<notin> set n"
  shows "slashes (b @ CHR ''/'' # n) = slashes b @ [n]"
  using assms by (intro split_on_snoc) auto

lemma components_push:
  assumes "safe_name n"
  shows "path_components (fs_push buf n) = path_components buf @ [Normal n]"
proof -
  have n: "CHR ''/'' \<notin> set n" "\<not> starts_with_str n ''/''" "n \<noteq> []"
    and b: "body_component n = [Normal n]" "slashes n = [n]"
    using assms by (auto simp: safe_name_def starts_with_str_def body_component_def
        intro!: split_on_none split: list.splits)
  consider (empty) "buf = []" | (slash) c where "buf = c @ ''/''" | (plain) "buf \<noteq> []" "\<not> ends_with_str buf ''/''"
  proof (cases buf rule: rev_cases)
    case (snoc c x)
    with slash plain show ?thesis
      by (cases "x = CHR ''/''") (auto simp: ends_with_str_def strip_suffix_def)
  qed (use empty in simp)
  then show ?thesis
  proof cases
    case empty
    with assms show ?thesis
      by (simp add: fs_push_def n path_components_def b safe_name_def)
  next
    case slash
    obtain h t where "slashes c = h # t" by (cases "slashes c") auto
    then show ?thesis
      using assms by (simp add: fs_push_def n slash ends_with_str_def path_components_def slashes_snoc b
          body_component_def safe_name_def)
  next
    case plain
    obtain h t where "slashes buf = h # t" by (cases "slashes buf") auto
    moreover have "h = [] \<Longrightarrow> t \<noteq> []" using calculation plain(1) split_on_eq_singleton_Nil [of _ buf] by auto
    ultimately show ?thesis
      using plain by (simp add: fs_push_def n path_components_def slashes_snoc b)
  qed
qed

lemma push_names_spec:
  "push_names buf ns = Some f \<Longrightarrow>
   list_all safe_name ns \<and> path_components f = path_components buf @ map Normal ns"
  by (induction ns arbitrary: buf) (auto simp: plain_name_iff components_push split: if_splits)

text \<open>C14. A directory route never names a file outside its directory: the path it resolves a request
  to is the directory's with the decoded segments of the tail after it, each of them one
  ordinary name, and neither empty nor \<^verbatim>\<open>.\<close> nor \<^verbatim>\<open>..\<close> and without a slash.\<close>

theorem directory_confined:
  assumes "directory_resolve endpoint_path params r = Done (Some f)"
  shows "\<exists>ns. path_param_segments endpoint_path params (dr_param r) = Ok ns \<and>
    path_components f = path_components (dr_dir r) @ map Normal ns \<and>
    list_all (\<lambda>n. n \<notin> {[], ''.'', ''..''} \<and> CHR ''/'' \<notin> set n) ns"
  using assms push_names_spec
  by (auto simp: directory_resolve_def safe_name_def list_all_iff split: sum.splits)

lemma directory_confined_witness:
  "\<exists>ns. path_param_segments ''/{*f}'' (from_match (\<lambda>s. s) ''/{*f}'' [''a/b'']) ''f'' = Ok ns \<and>
    path_components ''/srv/a/b'' = path_components ''/srv'' @ map Normal ns \<and>
    list_all (\<lambda>n. n \<notin> {[], ''.'', ''..''} \<and> CHR ''/'' \<notin> set n) ns"
proof -
  have "directory_resolve ''/{*f}'' (from_match (\<lambda>s. s) ''/{*f}'' [''a/b''])
      \<lparr>dr_id = 0, dr_path = ''/{*f}'', dr_param = ''f'', dr_dir = ''/srv''\<rparr> = Done (Some ''/srv/a/b'')"
    by code_simp
  from directory_confined [OF this] show ?thesis by simp
qed

subsection \<open>HEAD and GET\<close>

definition without_body :: "'b body_ops \<Rightarrow> 'b response \<Rightarrow> 'b response" where
  "without_body ops r = r\<lparr>rs_body := body_empty ops\<rparr>"

lemma serve_path_method:
  "serve_path env ops (ps\<lparr>p_method := ''HEAD''\<rparr>) path =
     map_sum id (without_body ops) (serve_path env ops (ps\<lparr>p_method := ''GET''\<rparr>) path)"
  by (auto simp: serve_path_def file_response_def without_body_def Let_def split: sum.splits option.splits prod.splits)

text \<open>A directory route answers HEAD as it answers GET, error for error and header for header,
  with an empty body.\<close>

theorem directory_head_like_get:
  "directory_serve env ops endpoint_path r (cx\<lparr>cx_parts := (cx_parts cx)\<lparr>p_method := ''HEAD''\<rparr>\<rparr>) body headers =
     (case directory_serve env ops endpoint_path r (cx\<lparr>cx_parts := (cx_parts cx)\<lparr>p_method := ''GET''\<rparr>\<rparr>) body headers of
        Panic \<Rightarrow> Panic
      | Done (res, headers) \<Rightarrow> Done (map_sum id (without_body ops) res, headers))"
  by (cases "directory_resolve endpoint_path (cx_params cx) r")
    (auto simp: directory_serve_def serve_path_method split: option.splits)

end
