(* ===== verification/Module_Routes.thy ===== *)
theory Module_Routes
  imports Builder
begin

text \<open>
  The module router: \<^verbatim>\<open>crates/topcoat-router/src/module/\<close> \<^verbatim>\<open>router.rs\<close>, \<^verbatim>\<open>segment.rs\<close>, \<^verbatim>\<open>page.rs\<close>,
  \<^verbatim>\<open>route.rs\<close> and \<^verbatim>\<open>layer.rs\<close>.  A module's path is its text, a declaration is the item it declares
  with the module and the relative path it is declared at, and the kebab casing of names is the
  argument \<open>kebab\<close> (the \<^verbatim>\<open>heck\<close> crate's).  What the linker collects is a list.
\<close>

subsection \<open>Segment declarations\<close>

datatype segment_kind = KindStatic | KindGroup | KindParam | KindCatchAll

record segment_decl =
  sd_module :: str
  sd_kind :: "segment_kind option"
  sd_rename :: "str option"

definition segment_decl_new :: "str \<Rightarrow> segment_kind option \<Rightarrow> str option \<Rightarrow> segment_decl" where
  "segment_decl_new module kind rename = \<lparr>sd_module = module, sd_kind = kind, sd_rename = rename\<rparr>"

type_synonym segment_decls = "str \<rightharpoonup> segment_decl"

definition segments_new :: segment_decls where
  "segments_new = (\<lambda>_. None)"

definition segments_register :: "str \<Rightarrow> segment_decl \<Rightarrow> segment_decls \<Rightarrow> segment_decls outcome" where
  "segments_register path segment decls =
     (if decls path \<noteq> None then Panic else Done (decls(path \<mapsto> segment)))"

definition segments_get :: "segment_decls \<Rightarrow> str \<Rightarrow> segment_decl option" where
  "segments_get decls path = decls path"

subsection \<open>From module paths to route paths\<close>

definition relative_module_path :: "str \<Rightarrow> str \<Rightarrow> str outcome" where
  "relative_module_path root module =
     (if module = root then Done []
      else (case strip_prefix root module of
              None \<Rightarrow> Panic
            | Some s \<Rightarrow> (case strip_prefix ''::'' s of None \<Rightarrow> Panic | Some r \<Rightarrow> Done r)))"

definition segment_kind_of :: "segment_decl option \<Rightarrow> str \<Rightarrow> segment_kind" where
  "segment_kind_of segment component =
     (case (case segment of None \<Rightarrow> None | Some s \<Rightarrow> sd_kind s) of
        Some kind \<Rightarrow> kind
      | None \<Rightarrow> if starts_with_str component ''_'' then KindGroup else KindStatic)"

definition segment_name_of :: "(str \<Rightarrow> str) \<Rightarrow> segment_decl option \<Rightarrow> segment_kind \<Rightarrow> str \<Rightarrow> str" where
  "segment_name_of kebab segment kind component =
     (case (case segment of None \<Rightarrow> None | Some s \<Rightarrow> sd_rename s) of
        Some rename \<Rightarrow> rename
      | None \<Rightarrow> (case kind of KindStatic \<Rightarrow> kebab component | _ \<Rightarrow> component))"

fun kind_segment :: "segment_kind \<Rightarrow> str \<Rightarrow> path_segment" where
  "kind_segment KindStatic n = Static n"
| "kind_segment KindGroup n = Group n"
| "kind_segment KindParam n = Param n"
| "kind_segment KindCatchAll n = CatchAll n"

text \<open>The loop over the components, numbered from \<open>i\<close>, with the end of the prefix seen so far.\<close>

fun module_loop :: "(str \<Rightarrow> str) \<Rightarrow> segment_decls \<Rightarrow> str \<Rightarrow> nat \<Rightarrow> nat \<Rightarrow> str list \<Rightarrow> route_path \<Rightarrow> route_path" where
  "module_loop kebab decls relative i prefix_end [] path_buf = path_buf"
| "module_loop kebab decls relative i prefix_end (component # rest) path_buf =
     (let prefix_end = (if i > 0 then prefix_end + length ''::'' else prefix_end);
          prefix_end = prefix_end + length component;
          segment = segments_get decls (take prefix_end relative);
          kind = segment_kind_of segment component;
          name = segment_name_of kebab segment kind component;
          path_buf = push_segment path_buf (kind_segment kind name)
      in module_loop kebab decls relative (i + 1) prefix_end rest path_buf)"

record module_env =
  me_kebab :: "str \<Rightarrow> str"
  me_root :: str

definition module_path_to_path :: "module_env \<Rightarrow> segment_decls \<Rightarrow> str \<Rightarrow> route_path outcome" where
  "module_path_to_path env decls module =
     bind_outcome (relative_module_path (me_root env) module) (\<lambda>relative.
       if relative = [] then Done []
       else Done (module_loop (me_kebab env) decls relative 0 0 (split_str ''::'' relative) []))"

definition resolve_path :: "module_env \<Rightarrow> segment_decls \<Rightarrow> str \<Rightarrow> route_path option \<Rightarrow> route_path outcome" where
  "resolve_path env decls module relative =
     bind_outcome (module_path_to_path env decls module) (\<lambda>path.
       case relative of
         None \<Rightarrow> Done path
       | Some relative \<Rightarrow>
           if relative = [] then (if path = [] then Panic else Done (push_segment path (Static [])))
           else Done (push_path path relative))"

subsection \<open>The builder\<close>

record 'i declared =
  dc_module :: str
  dc_relative :: "route_path option"
  dc_item :: 'i

record ('b, 'c, 'v) module_builder =
  mb_inner :: "('b, 'c, 'v) builder"
  mb_env :: module_env
  mb_segments :: segment_decls

definition module_builder_new :: "(str \<Rightarrow> str) \<Rightarrow> 'c \<Rightarrow> str \<Rightarrow> ('b, 'c, 'v) module_builder" where
  "module_builder_new kebab unit_value root =
     \<lparr>mb_inner = builder_new unit_value, mb_env = \<lparr>me_kebab = kebab, me_root = root\<rparr>, mb_segments = segments_new\<rparr>"

definition module_segment :: "segment_decl \<Rightarrow> ('b, 'c, 'v) module_builder \<Rightarrow> ('b, 'c, 'v) module_builder outcome" where
  "module_segment segment mb =
     (if \<not> builder_is_empty (mb_inner mb) then Panic
      else bind_outcome (relative_module_path (me_root (mb_env mb)) (sd_module segment)) (\<lambda>relative.
        bind_outcome (segments_register relative segment (mb_segments mb)) (\<lambda>decls.
          Done (mb\<lparr>mb_segments := decls\<rparr>))))"

definition declared_path :: "('b, 'c, 'v) module_builder \<Rightarrow> 'i declared \<Rightarrow> route_path outcome" where
  "declared_path mb d = resolve_path (mb_env mb) (mb_segments mb) (dc_module d) (dc_relative d)"

definition module_page :: "('b, 'c, 'v) page declared \<Rightarrow> ('b, 'c, 'v) module_builder \<Rightarrow> ('b, 'c, 'v) module_builder outcome" where
  "module_page d mb = bind_outcome (declared_path mb d) (\<lambda>path.
     Done (mb\<lparr>mb_inner := add_page ((dc_item d)\<lparr>pg_path := path\<rparr>) (mb_inner mb)\<rparr>))"

definition module_layout :: "('c, 'v) layout declared \<Rightarrow> ('b, 'c, 'v) module_builder \<Rightarrow> ('b, 'c, 'v) module_builder outcome" where
  "module_layout d mb = bind_outcome (declared_path mb d) (\<lambda>path.
     Done (mb\<lparr>mb_inner := add_layout ((dc_item d)\<lparr>ly_path := path\<rparr>) (mb_inner mb)\<rparr>))"

definition module_route :: "('b, 'c) route declared \<Rightarrow> ('b, 'c, 'v) module_builder \<Rightarrow> ('b, 'c, 'v) module_builder outcome" where
  "module_route d mb = bind_outcome (declared_path mb d) (\<lambda>path.
     Done (mb\<lparr>mb_inner := add_route ((dc_item d)\<lparr>rt_path := path\<rparr>) (mb_inner mb)\<rparr>))"

definition module_layer :: "('b, 'c) layer declared \<Rightarrow> ('b, 'c, 'v) module_builder \<Rightarrow> ('b, 'c, 'v) module_builder outcome" where
  "module_layer d mb = bind_outcome (declared_path mb d) (\<lambda>path.
     Done (mb\<lparr>mb_inner := add_layer ((dc_item d)\<lparr>l_path := Some path\<rparr>) (mb_inner mb)\<rparr>))"

subsection \<open>Discovery\<close>

fun fold_outcome :: "('i \<Rightarrow> 's \<Rightarrow> 's outcome) \<Rightarrow> 'i list \<Rightarrow> 's \<Rightarrow> 's outcome" where
  "fold_outcome f [] s = Done s"
| "fold_outcome f (x # xs) s = bind_outcome (f x s) (fold_outcome f xs)"

text \<open>Discovered layouts and layers: a path seen before panics.\<close>

fun discover_unique :: "('i declared \<Rightarrow> ('b, 'c, 'v) module_builder \<Rightarrow> ('b, 'c, 'v) module_builder outcome)
    \<Rightarrow> 'i declared list \<Rightarrow> route_path set \<Rightarrow> ('b, 'c, 'v) module_builder \<Rightarrow> ('b, 'c, 'v) module_builder outcome" where
  "discover_unique add [] seen mb = Done mb"
| "discover_unique add (d # ds) seen mb =
     bind_outcome (declared_path mb d) (\<lambda>path.
       if path \<in> seen then Panic
       else bind_outcome (add d mb) (discover_unique add ds (insert path seen)))"

record ('b, 'c, 'v) inventory =
  iv_segments :: "segment_decl list"
  iv_pages :: "('b, 'c, 'v) page declared list"
  iv_layouts :: "('c, 'v) layout declared list"
  iv_routes :: "('b, 'c) route declared list"
  iv_layers :: "('b, 'c) layer declared list"

definition discover_segments :: "segment_decl list \<Rightarrow> ('b, 'c, 'v) module_builder \<Rightarrow> ('b, 'c, 'v) module_builder outcome" where
  "discover_segments = fold_outcome module_segment"

definition discover_pages :: "('b, 'c, 'v) page declared list \<Rightarrow> ('b, 'c, 'v) module_builder \<Rightarrow> ('b, 'c, 'v) module_builder outcome" where
  "discover_pages = fold_outcome module_page"

definition discover_module_layouts :: "('c, 'v) layout declared list \<Rightarrow> ('b, 'c, 'v) module_builder \<Rightarrow> ('b, 'c, 'v) module_builder outcome" where
  "discover_module_layouts ds = discover_unique module_layout ds {}"

definition discover_routes :: "('b, 'c) route declared list \<Rightarrow> ('b, 'c, 'v) module_builder \<Rightarrow> ('b, 'c, 'v) module_builder outcome" where
  "discover_routes = fold_outcome module_route"

definition discover_module_layers :: "('b, 'c) layer declared list \<Rightarrow> ('b, 'c, 'v) module_builder \<Rightarrow> ('b, 'c, 'v) module_builder outcome" where
  "discover_module_layers ds = discover_unique module_layer ds {}"

definition discover :: "('b, 'c, 'v) inventory \<Rightarrow> ('b, 'c, 'v) module_builder \<Rightarrow> ('b, 'c, 'v) module_builder outcome" where
  "discover iv mb =
     bind_outcome (discover_segments (iv_segments iv) mb) (\<lambda>mb.
       bind_outcome (discover_pages (iv_pages iv) mb) (\<lambda>mb.
         bind_outcome (discover_module_layouts (iv_layouts iv) mb) (\<lambda>mb.
           bind_outcome (discover_routes (iv_routes iv) mb) (\<lambda>mb.
             discover_module_layers (iv_layers iv) mb))))"

definition module_into_builder :: "('b, 'c, 'v) module_builder \<Rightarrow> ('b, 'c, 'v) builder" where
  "module_into_builder mb = mb_inner mb"

subsection \<open>A route path per module\<close>

text \<open>The segment a component contributes, declared or not, below the components before it.\<close>

definition module_segment_of :: "(str \<Rightarrow> str) \<Rightarrow> segment_decls \<Rightarrow> str list \<Rightarrow> str \<Rightarrow> path_segment" where
  "module_segment_of kebab decls before component =
     (let segment = segments_get decls (join_with ''::'' (before @ [component]));
          kind = segment_kind_of segment component
      in kind_segment kind (segment_name_of kebab segment kind component))"

fun component_segments :: "(str \<Rightarrow> str) \<Rightarrow> segment_decls \<Rightarrow> str list \<Rightarrow> str list \<Rightarrow> path_segment list" where
  "component_segments kebab decls before [] = []"
| "component_segments kebab decls before (c # cs) =
     module_segment_of kebab decls before c # component_segments kebab decls (before @ [c]) cs"

definition module_segments :: "(str \<Rightarrow> str) \<Rightarrow> segment_decls \<Rightarrow> str \<Rightarrow> path_segment list" where
  "module_segments kebab decls relative =
     (if relative = [] then [] else component_segments kebab decls [] (split_str ''::'' relative))"

lemma join_with_snoc: "xs \<noteq> [] \<Longrightarrow> join_with sep (xs @ [x]) = join_with sep xs @ sep @ x"
  by (induction sep xs rule: join_with.induct) auto

lemma take_join_with:
  "take (length (join_with sep xs)) (join_with sep (xs @ ys)) = join_with sep xs"
proof (induction sep xs rule: join_with.induct)
  case (2 sep x)
  then show ?case by (cases ys) auto
qed simp_all

lemma module_loop_segments:
  "relative = join_with ''::'' (before @ cs) \<Longrightarrow> i = length before \<Longrightarrow> n = length (join_with ''::'' before) \<Longrightarrow>
   module_loop kebab decls relative i n cs path =
     foldl push_segment path (component_segments kebab decls before cs)"
proof (induction cs arbitrary: before i n path)
  case (Cons c cs)
  let ?n = "(if i > 0 then n + length ''::'' else n) + length c"
  have n: "?n = length (join_with ''::'' (before @ [c]))"
    using Cons.prems(2,3) by (cases "before = []") (simp_all add: join_with_snoc)
  then have t: "take ?n relative = join_with ''::'' (before @ [c])"
    using take_join_with [of "''::''" "before @ [c]" cs] Cons.prems(1) by simp
  have "module_loop kebab decls relative i n (c # cs) path =
      module_loop kebab decls relative (i + 1) ?n cs (push_segment path (module_segment_of kebab decls before c))"
    unfolding module_loop.simps Let_def t module_segment_of_def ..
  also have "\<dots> = foldl push_segment (push_segment path (module_segment_of kebab decls before c))
      (component_segments kebab decls (before @ [c]) cs)"
    using Cons.IH [of "before @ [c]" "i + 1" ?n] Cons.prems n by simp
  finally show ?case by simp
qed simp

lemma module_path_segments:
  "module_path_to_path env decls module =
     bind_outcome (relative_module_path (me_root env) module)
       (\<lambda>relative. Done (collect_path (module_segments (me_kebab env) decls relative)))"
proof (cases "relative_module_path (me_root env) module")
  case (Done r)
  show ?thesis
    using module_loop_segments [of r "[]" "split_str ''::'' r" 0 0 "me_kebab env" decls "[]"]
    by (simp add: module_path_to_path_def Done module_segments_def collect_path_def join_split_str)
qed (simp add: module_path_to_path_def)

lemma component_segments_Nil_iff: "component_segments kebab decls before cs = [] \<longleftrightarrow> cs = []"
  by (cases cs) auto

lemma module_segments_Nil_iff: "module_segments kebab decls relative = [] \<longleftrightarrow> relative = []"
  by (simp add: module_segments_def component_segments_Nil_iff)

text \<open>A handler's path reads as one segment for every module between the root and its own, of
  the declared kind and name or the default ones, followed by its relative path's segments, or by
  a trailing slash where that is \<^verbatim>\<open>./\<close>; only the root module has no such form.\<close>

theorem resolve_path_reads:
  assumes "relative_module_path (me_root env) module = Done m"
    and "list_all valid_segment (module_segments (me_kebab env) decls m)"
    and "case relative of None \<Rightarrow> True | Some r \<Rightarrow> valid_path r"
  shows "(if relative = Some [] \<and> m = [] then resolve_path env decls module relative = Panic
     else \<exists>p. resolve_path env decls module relative = Done p \<and> valid_path p \<and>
       segments p = module_segments (me_kebab env) decls m @
         (case relative of None \<Rightarrow> [] | Some r \<Rightarrow> if r = [] then [Static []] else segments r))"
proof -
  let ?ss = "module_segments (me_kebab env) decls m"
  have c: "collect_path ?ss = render ?ss" using assms(2) by (rule collect_valid)
  have r: "resolve_path env decls module relative =
      (case relative of
         None \<Rightarrow> Done (render ?ss)
       | Some r \<Rightarrow> if r = [] then (if render ?ss = [] then Panic else Done (push_segment (render ?ss) (Static [])))
                  else Done (push_path (render ?ss) r))"
    by (simp add: resolve_path_def module_path_segments assms(1) c)
  have n: "render ?ss = [] \<longleftrightarrow> m = []"
    using module_segments_Nil_iff [of "me_kebab env" decls m] by (cases ?ss) auto
  have valid: "valid_path (render ts) \<and> segments (render ts) = ts" if "wf_segments ts" for ts
    using wf_segments_renders [OF that] by (simp add: valid_path_def)
  have wf: "wf_segments ?ss" "drop_trailing ?ss = ?ss"
    using assms(2) by (simp_all add: wf_segments_valid drop_trailing_valid)
  show ?thesis
  proof (cases relative)
    case None
    with r valid [OF wf(1)] show ?thesis by simp
  next
    case (Some q)
    show ?thesis
    proof (cases "q = []")
      case True
      have "wf_segments (?ss @ [Static []])" if "m \<noteq> []"
        using assms(2) that module_segments_Nil_iff [of "me_kebab env" decls m] by (simp add: wf_segments_iff)
      with Some True r n valid [of "?ss @ [Static []]"] push_segment_render [OF wf(1), of "Static []"] wf(2)
      show ?thesis by auto
    next
      case False
      have q: "q = render (segments q)" "wf_segments (segments q)"
        using assms(3) Some valid_path_reads [of q] by auto
      then have e: "segments q \<noteq> []" using False by (metis render_simps(1))
      have "wf_segments (?ss @ segments q)"
        using assms(2) q(2) by (rule wf_segments_append)
      with Some False r valid [of "?ss @ segments q"] push_path_render [OF wf(1) q(2)] q(1) e wf(2)
      show ?thesis by auto
    qed
  qed
qed

lemma resolve_path_reads_witness:
  "\<exists>p. resolve_path \<lparr>me_kebab = (\<lambda>s. s), me_root = ''app''\<rparr> [''users::id'' \<mapsto> segment_decl_new ''app::users::id'' (Some KindParam) None]
      ''app::users::id'' (Some []) = Done p \<and> valid_path p \<and> segments p = [Static ''users'', Param ''id'', Static []]"
proof -
  let ?env = "\<lparr>me_kebab = (\<lambda>s. s), me_root = ''app''\<rparr>"
  let ?decls = "[''users::id'' \<mapsto> segment_decl_new ''app::users::id'' (Some KindParam) None]"
  have m: "relative_module_path (me_root ?env) ''app::users::id'' = Done ''users::id''" by code_simp
  have s: "module_segments (me_kebab ?env) ?decls ''users::id'' = [Static ''users'', Param ''id'']" by code_simp
  have v: "list_all valid_segment (module_segments (me_kebab ?env) ?decls ''users::id'')" unfolding s by code_simp
  have "valid_path []" by code_simp
  then have r: "case Some [] of None \<Rightarrow> True | Some r \<Rightarrow> valid_path r" by simp
  from resolve_path_reads [OF m v r] show ?thesis unfolding s by simp
qed

subsection \<open>No declaration comes too late\<close>

text \<open>The builders that registering segments and resources in any order makes, with the pages,
  layouts and routes declared so far.\<close>

inductive configured :: "('b, 'c, 'v) module_builder \<Rightarrow> ('b, 'c, 'v) module_builder \<Rightarrow>
    ('b, 'c, 'v) page declared list \<Rightarrow> ('c, 'v) layout declared list \<Rightarrow> ('b, 'c) route declared list \<Rightarrow> bool"
  for start where
  "bd_pages (mb_inner start) = [] \<Longrightarrow> bd_layouts (mb_inner start) = [] \<Longrightarrow> bd_routes (mb_inner start) = [] \<Longrightarrow>
   configured start start [] [] []"
| "configured start mb ps ls rs \<Longrightarrow> module_segment s mb = Done mb' \<Longrightarrow> configured start mb' ps ls rs"
| "configured start mb ps ls rs \<Longrightarrow> module_page d mb = Done mb' \<Longrightarrow> configured start mb' (ps @ [d]) ls rs"
| "configured start mb ps ls rs \<Longrightarrow> module_layout l mb = Done mb' \<Longrightarrow> configured start mb' ps (ls @ [l]) rs"
| "configured start mb ps ls rs \<Longrightarrow> module_route r mb = Done mb' \<Longrightarrow> configured start mb' ps ls (rs @ [r])"
| "configured start mb ps ls rs \<Longrightarrow> module_layer y mb = Done mb' \<Longrightarrow> configured start mb' ps ls rs"

definition page_at :: "('b, 'c, 'v) module_builder \<Rightarrow> ('b, 'c, 'v) page declared \<Rightarrow> ('b, 'c, 'v) page \<Rightarrow> bool" where
  "page_at mb d p \<longleftrightarrow> (\<exists>path. declared_path mb d = Done path \<and> p = (dc_item d)\<lparr>pg_path := path\<rparr>)"

definition layout_at :: "('b, 'c, 'v) module_builder \<Rightarrow> ('c, 'v) layout declared \<Rightarrow> ('c, 'v) layout \<Rightarrow> bool" where
  "layout_at mb d l \<longleftrightarrow> (\<exists>path. declared_path mb d = Done path \<and> l = (dc_item d)\<lparr>ly_path := path\<rparr>)"

definition route_at :: "('b, 'c, 'v) module_builder \<Rightarrow> ('b, 'c) route declared \<Rightarrow> ('b, 'c) route \<Rightarrow> bool" where
  "route_at mb d r \<longleftrightarrow> (\<exists>path. declared_path mb d = Done path \<and> r = (dc_item d)\<lparr>rt_path := path\<rparr>)"

lemma declared_path_inner: "declared_path (mb\<lparr>mb_inner := b\<rparr>) d = declared_path mb d"
  by (simp add: declared_path_def)

lemma placed_inner [simp]:
  "page_at (mb\<lparr>mb_inner := b\<rparr>) = page_at mb" "layout_at (mb\<lparr>mb_inner := b\<rparr>) = layout_at mb"
  "route_at (mb\<lparr>mb_inner := b\<rparr>) = route_at mb"
  by (intro ext; simp add: page_at_def layout_at_def route_at_def declared_path_inner)+

text \<open>C39. A module's path never changes under a handler that has it: whatever the order in which
  segments, pages, layouts, routes and layers are registered, every page, layout and route of the
  builder stands at the path its declaration has under all the segments registered by the end.\<close>

theorem module_paths_final:
  assumes "configured start mb ps ls rs"
  shows "list_all2 (page_at mb) ps (bd_pages (mb_inner mb)) \<and>
    list_all2 (layout_at mb) ls (bd_layouts (mb_inner mb)) \<and>
    list_all2 (route_at mb) rs (bd_routes (mb_inner mb))"
  using assms
proof (induction rule: configured.induct)
  case (2 mb ps ls rs s mb')
  then have "bd_pages (mb_inner mb') = []" "bd_layouts (mb_inner mb') = []" "bd_routes (mb_inner mb') = []"
    by (auto simp: module_segment_def bind_outcome_Done builder_is_empty_def split: if_splits)
  moreover have "mb_inner mb' = mb_inner mb"
    using 2 by (auto simp: module_segment_def bind_outcome_Done split: if_splits)
  ultimately show ?case using "2.IH" by simp
next
  case (3 mb ps ls rs d mb')
  then obtain path where "declared_path mb d = Done path"
    "mb' = mb\<lparr>mb_inner := add_page ((dc_item d)\<lparr>pg_path := path\<rparr>) (mb_inner mb)\<rparr>"
    by (auto simp: module_page_def bind_outcome_Done)
  with "3.IH" show ?case
    by (auto simp: add_page_def page_at_def intro!: list_all2_appendI)
next
  case (4 mb ps ls rs d mb')
  then obtain path where "declared_path mb d = Done path"
    "mb' = mb\<lparr>mb_inner := add_layout ((dc_item d)\<lparr>ly_path := path\<rparr>) (mb_inner mb)\<rparr>"
    by (auto simp: module_layout_def bind_outcome_Done)
  with "4.IH" show ?case
    by (auto simp: add_layout_def layout_at_def intro!: list_all2_appendI)
next
  case (5 mb ps ls rs d mb')
  then obtain path where "declared_path mb d = Done path"
    "mb' = mb\<lparr>mb_inner := add_route ((dc_item d)\<lparr>rt_path := path\<rparr>) (mb_inner mb)\<rparr>"
    by (auto simp: module_route_def bind_outcome_Done)
  with "5.IH" show ?case
    by (auto simp: add_route_def route_at_def intro!: list_all2_appendI)
next
  case (6 mb ps ls rs d mb')
  then obtain path where
    "mb' = mb\<lparr>mb_inner := add_layer ((dc_item d)\<lparr>l_path := Some path\<rparr>) (mb_inner mb)\<rparr>"
    by (auto simp: module_layer_def bind_outcome_Done)
  with "6.IH" show ?case by (simp add: add_layer_def)
qed simp

lemma module_paths_final_witness:
  "\<exists>mb p. bd_pages (mb_inner mb) = [p] \<and> pg_path p = ''/{id}'' \<and>
     list_all2 (page_at mb)
       [\<lparr>dc_module = ''app::id'', dc_relative = None,
         dc_item = \<lparr>pg_id = 0, pg_methods = AnyMethod, pg_path = [], pg_render = (\<lambda>(cx :: unit cx) (b :: unit). ())\<rparr>\<rparr>]
       (bd_pages (mb_inner (mb :: (unit, unit, unit) module_builder)))"
proof -
  let ?i = "\<lparr>pg_id = 0, pg_methods = AnyMethod, pg_path = [], pg_render = (\<lambda>(cx :: unit cx) (b :: unit). ())\<rparr>"
  let ?d = "\<lparr>dc_module = ''app::id'', dc_relative = None, dc_item = ?i\<rparr>"
  let ?mb = "module_builder_new (\<lambda>s. s) () ''app'' :: (unit, unit, unit) module_builder"
  let ?s = "segment_decl_new ''app::id'' (Some KindParam) None"
  let ?mb1 = "?mb\<lparr>mb_segments := [''id'' \<mapsto> ?s]\<rparr>"
  let ?mb2 = "?mb1\<lparr>mb_inner := add_page (?i\<lparr>pg_path := ''/{id}''\<rparr>) (mb_inner ?mb1)\<rparr>"
  note unfold = module_builder_new_def builder_is_empty_def builder_new_def
  have "relative_module_path ''app'' ''app::id'' = Done ''id''" by code_simp
  then have 1: "module_segment ?s ?mb = Done ?mb1"
    by (simp add: module_segment_def unfold segment_decl_new_def segments_register_def segments_new_def)
  have "resolve_path (mb_env ?mb) [''id'' \<mapsto> ?s] ''app::id'' None = Done ''/{id}''" by code_simp
  then have 2: "module_page ?d ?mb1 = Done ?mb2"
    by (simp add: module_page_def declared_path_def)
  have "configured ?mb ?mb [] [] []" by (rule configured.intros) (simp_all add: unfold)
  from configured.intros(3) [OF configured.intros(2) [OF this 1] 2]
  have "configured ?mb ?mb2 [?d] [] []" by simp
  from module_paths_final [OF this] show ?thesis
    by (intro exI [of _ ?mb2]) (simp add: unfold add_page_def)
qed

text \<open>Not so a layer's: registering layers does not end the registration of segments.\<close>

lemma layer_path_stale:
  fixes l :: "(unit, unit) layer"
  defines "mb \<equiv> module_builder_new (\<lambda>s. s) () ''app'' :: (unit, unit, unit) module_builder"
    and "d \<equiv> \<lparr>dc_module = ''app::id'', dc_relative = None, dc_item = l\<rparr>"
  obtains mb' mb'' where "module_layer d mb = Done mb'"
    "module_segment (segment_decl_new ''app::id'' (Some KindParam) None) mb' = Done mb''"
    "map l_path (bd_layers (mb_inner mb'')) = [Some ''/id'']" "declared_path mb'' d = Done ''/{id}''"
proof
  let ?mb' = "mb\<lparr>mb_inner := add_layer (l\<lparr>l_path := Some ''/id''\<rparr>) (mb_inner mb)\<rparr>"
  let ?s = "segment_decl_new ''app::id'' (Some KindParam) None"
  let ?mb'' = "?mb'\<lparr>mb_segments := [''id'' \<mapsto> ?s]\<rparr>"
  have p: "declared_path mb d = Done ''/id''" unfolding mb_def d_def by code_simp
  then show "module_layer d mb = Done ?mb'" by (simp add: module_layer_def d_def)
  have "relative_module_path ''app'' ''app::id'' = Done ''id''" by code_simp
  then show "module_segment ?s ?mb' = Done ?mb''"
    by (simp add: module_segment_def mb_def module_builder_new_def builder_is_empty_def builder_new_def
        add_layer_def segment_decl_new_def segments_register_def segments_new_def)
  show "map l_path (bd_layers (mb_inner ?mb'')) = [Some ''/id'']"
    by (simp add: mb_def module_builder_new_def builder_new_def add_layer_def)
  have "resolve_path (mb_env mb) [''id'' \<mapsto> ?s] (dc_module d) (dc_relative d) = Done ''/{id}''"
    unfolding mb_def d_def by code_simp
  then show "declared_path ?mb'' d = Done ''/{id}''" by (simp add: declared_path_def)
qed

end
