(* ===== verification/Pretty_Tokens.thy ===== *)
theory Pretty_Tokens
  imports Http_Types
begin

text \<open>
  The token buffer of the pretty printer: \<^verbatim>\<open>ring_buffer.rs\<close> and \<^verbatim>\<open>token.rs\<close> of
  \<^verbatim>\<open>crates/topcoat-core/grammar/src/pretty\<close>.  A \<^verbatim>\<open>VecDeque\<close> is a list and an \<^verbatim>\<open>isize\<close> an integer, its
  lengths being far below the word size; an index out of range, and \<^verbatim>\<open>unreachable!\<close>, panic.
\<close>

subsection \<open>A queue with stable indices\<close>

record 'a ring_buffer =
  rg_inner :: "'a list"
  rg_offset :: nat

definition ring_new :: "'a ring_buffer" where
  "ring_new = \<lparr>rg_inner = [], rg_offset = 0\<rparr>"

definition ring_push_back :: "'a \<Rightarrow> 'a ring_buffer \<Rightarrow> 'a ring_buffer" where
  "ring_push_back x r = r\<lparr>rg_inner := rg_inner r @ [x]\<rparr>"

definition ring_pop_front :: "'a ring_buffer \<Rightarrow> 'a option \<times> 'a ring_buffer" where
  "ring_pop_front r =
     (let r = r\<lparr>rg_offset := rg_offset r + 1\<rparr>
      in case rg_inner r of [] \<Rightarrow> (None, r) | x # xs \<Rightarrow> (Some x, r\<lparr>rg_inner := xs\<rparr>))"

definition ring_last :: "'a ring_buffer \<Rightarrow> 'a option" where
  "ring_last r = (if rg_inner r = [] then None else Some (last (rg_inner r)))"

definition ring_len :: "'a ring_buffer \<Rightarrow> nat" where
  "ring_len r = length (rg_inner r)"

definition ring_is_empty :: "'a ring_buffer \<Rightarrow> bool" where
  "ring_is_empty r \<longleftrightarrow> rg_inner r = []"

definition ring_next_index :: "'a ring_buffer \<Rightarrow> nat" where
  "ring_next_index r = ring_len r + rg_offset r"

text \<open>\<^verbatim>\<open>index - offset\<close> underflows below the offset.\<close>

definition ring_index :: "'a ring_buffer \<Rightarrow> nat \<Rightarrow> 'a outcome" where
  "ring_index r i =
     (if i < rg_offset r \<or> i - rg_offset r \<ge> length (rg_inner r) then Panic
      else Done (rg_inner r ! (i - rg_offset r)))"

definition ring_index_mut :: "('a \<Rightarrow> 'a) \<Rightarrow> nat \<Rightarrow> 'a ring_buffer \<Rightarrow> 'a ring_buffer outcome" where
  "ring_index_mut f i r =
     bind_outcome (ring_index r i) (\<lambda>x. Done (r\<lparr>rg_inner := (rg_inner r)[i - rg_offset r := f x]\<rparr>))"

text \<open>What the token buffer relies on: an element keeps its index while others come and go, and
  updating it changes no other.\<close>

locale stable_queue =
  fixes push :: "'a \<Rightarrow> 'q \<Rightarrow> 'q" and pop :: "'q \<Rightarrow> 'a option \<times> 'q" and get :: "'q \<Rightarrow> nat \<Rightarrow> 'a outcome"
    and upd :: "('a \<Rightarrow> 'a) \<Rightarrow> nat \<Rightarrow> 'q \<Rightarrow> 'q outcome" and fresh :: "'q \<Rightarrow> nat" and elems :: "'q \<Rightarrow> 'a list"
  assumes push_get: "get (push x q) i = (if i = fresh q then Done x else get q i)"
    and push_fresh: "fresh (push x q) = Suc (fresh q)"
    and get_fresh: "get q i = Done x \<Longrightarrow> i < fresh q"
    and pop_get: "pop q = (Some y, q') \<Longrightarrow> get q' i = Done x \<Longrightarrow> get q i = Done x"
    and upd_get: "upd f i q = Done q' \<Longrightarrow> get q' j = (if j = i then bind_outcome (get q j) (\<lambda>x. Done (f x)) else get q j)"
    and upd_done: "get q i = Done x \<Longrightarrow> \<exists>q'. upd f i q = Done q'"
    and push_elems: "elems (push x q) = elems q @ [x]"
    and pop_elems: "elems q = x # xs \<Longrightarrow> \<exists>q'. pop q = (Some x, q') \<and> elems q' = xs"
begin

text \<open>Pushing keeps every index, so does updating.\<close>

lemma kept_by_push: "get q i = Done x \<Longrightarrow> get (push y q) i = Done x"
  using get_fresh [of q i x] by (simp add: push_get)

lemma pushed_is_new: "get (push x q) (fresh q) = Done x"
  by (simp add: push_get)

primrec push_all :: "'a list \<Rightarrow> 'q \<Rightarrow> 'q" where
  "push_all [] q = q"
| "push_all (x # xs) q = push_all xs (push x q)"

primrec pops :: "nat \<Rightarrow> 'q \<Rightarrow> 'a option list \<times> 'q" where
  "pops 0 q = ([], q)"
| "pops (Suc n) q = (let (x, q) = pop q; (xs, q) = pops n q in (x # xs, q))"

lemma elems_push_all: "elems (push_all xs q) = elems q @ xs"
  by (induction xs arbitrary: q) (simp_all add: push_elems)

text \<open>The elements come out in the order they went in.\<close>

lemma first_in_first_out: "elems q = xs \<Longrightarrow> fst (pops (length xs) q) = map Some xs"
proof (induction xs arbitrary: q)
  case (Cons x xs)
  then obtain q' where "pop q = (Some x, q')" "elems q' = xs" using pop_elems by blast
  with Cons.IH [of q'] show ?case by (cases "pops (length xs) q'") simp
qed simp

end

lemma ring_index_iff: "ring_index r i = Done x \<longleftrightarrow>
    rg_offset r \<le> i \<and> i < ring_next_index r \<and> x = rg_inner r ! (i - rg_offset r)"
  by (auto simp: ring_index_def ring_next_index_def ring_len_def)

interpretation ring: stable_queue ring_push_back ring_pop_front ring_index ring_index_mut ring_next_index rg_inner
proof
  fix q q' :: "'a ring_buffer" and x y :: 'a and i j f xs
  show "ring_index (ring_push_back x q) i = (if i = ring_next_index q then Done x else ring_index q i)"
    by (auto simp: ring_index_def ring_push_back_def ring_next_index_def ring_len_def nth_append)
  show "ring_next_index (ring_push_back x q) = Suc (ring_next_index q)"
    by (simp add: ring_push_back_def ring_next_index_def ring_len_def)
  show "ring_index q i = Done x \<Longrightarrow> i < ring_next_index q" by (simp add: ring_index_iff)
  show "ring_pop_front q = (Some y, q') \<Longrightarrow> ring_index q' i = Done x \<Longrightarrow> ring_index q i = Done x"
    by (cases "rg_inner q"; cases "i - rg_offset q")
      (auto simp: ring_pop_front_def ring_index_iff ring_next_index_def ring_len_def Let_def Suc_diff_Suc
        intro!: arg_cong [where f = "(!) _"])
  show "ring_index_mut f i q = Done q' \<Longrightarrow>
      ring_index q' j = (if j = i then bind_outcome (ring_index q j) (\<lambda>x. Done (f x)) else ring_index q j)"
    by (auto simp: ring_index_mut_def ring_index_def nth_list_update split: if_splits)
  show "ring_index q i = Done x \<Longrightarrow> \<exists>q'. ring_index_mut f i q = Done q'" by (simp add: ring_index_mut_def)
  show "rg_inner (ring_push_back x q) = rg_inner q @ [x]" by (simp add: ring_push_back_def)
  show "rg_inner q = x # xs \<Longrightarrow> \<exists>q'. ring_pop_front q = (Some x, q') \<and> rg_inner q' = xs"
    by (simp add: ring_pop_front_def Let_def)
qed

subsection \<open>Tokens\<close>

datatype text_mode = Always | NoBreak | BreakOnly

datatype break_mode = Consistent | Inconsistent

datatype token =
    TText str text_mode
  | TBreak int int
  | TForceBreak
  | TBegin break_mode int
  | TEnd

record token_buffer =
  tk_tokens :: "token ring_buffer"
  tk_last_break :: "nat option"
  tk_begin_stack :: "nat list"

definition tokens_new :: token_buffer where
  "tokens_new = \<lparr>tk_tokens = ring_new, tk_last_break = None, tk_begin_stack = []\<rparr>"

text \<open>\<^verbatim>\<open>push_len\<close> of \<^verbatim>\<open>BreakToken\<close> and \<^verbatim>\<open>BeginToken\<close>.\<close>

fun break_push_len :: "int \<Rightarrow> token \<Rightarrow> token" where
  "break_push_len n (TBreak len indent) = TBreak (len + n) indent"
| "break_push_len n t = t"

fun begin_push_len :: "int \<Rightarrow> token \<Rightarrow> token" where
  "begin_push_len n (TBegin mode len) = TBegin mode (len + n)"
| "begin_push_len n t = t"

definition is_break :: "token \<Rightarrow> bool" where
  "is_break t \<longleftrightarrow> (case t of TBreak _ _ \<Rightarrow> True | _ \<Rightarrow> False)"

definition is_begin :: "token \<Rightarrow> bool" where
  "is_begin t \<longleftrightarrow> (case t of TBegin _ _ \<Rightarrow> True | _ \<Rightarrow> False)"

text \<open>\<open>last_break_mut\<close> and \<open>current_begin_mut\<close> with the change made through the reference.\<close>

definition last_break_mut :: "(token \<Rightarrow> token) \<Rightarrow> token_buffer \<Rightarrow> token_buffer outcome" where
  "last_break_mut f b =
     (case tk_last_break b of
        None \<Rightarrow> Done b
      | Some i \<Rightarrow> bind_outcome (ring_index (tk_tokens b) i) (\<lambda>t.
          if is_break t then bind_outcome (ring_index_mut f i (tk_tokens b)) (\<lambda>r. Done (b\<lparr>tk_tokens := r\<rparr>))
          else Panic))"

definition current_begin_mut :: "(token \<Rightarrow> token) \<Rightarrow> token_buffer \<Rightarrow> token_buffer outcome" where
  "current_begin_mut f b =
     (if tk_begin_stack b = [] then Done b
      else (let i = last (tk_begin_stack b) in bind_outcome (ring_index (tk_tokens b) i) (\<lambda>t.
          if is_begin t then bind_outcome (ring_index_mut f i (tk_tokens b)) (\<lambda>r. Done (b\<lparr>tk_tokens := r\<rparr>))
          else Panic)))"

definition tokens_push_len :: "int \<Rightarrow> token_buffer \<Rightarrow> token_buffer outcome" where
  "tokens_push_len len b =
     bind_outcome (last_break_mut (break_push_len len) b) (current_begin_mut (begin_push_len len))"

definition tokens_push_back :: "token \<Rightarrow> token_buffer \<Rightarrow> token_buffer" where
  "tokens_push_back t b =
     (let b = (case t of
          TText _ _ \<Rightarrow> b
        | TForceBreak \<Rightarrow> b
        | TBreak _ _ \<Rightarrow> b\<lparr>tk_last_break := Some (ring_next_index (tk_tokens b))\<rparr>
        | TBegin _ _ \<Rightarrow> b\<lparr>tk_begin_stack := tk_begin_stack b @ [ring_next_index (tk_tokens b)]\<rparr>
        | TEnd \<Rightarrow> b\<lparr>tk_begin_stack := butlast (tk_begin_stack b), tk_last_break := None\<rparr>)
      in b\<lparr>tk_tokens := ring_push_back t (tk_tokens b)\<rparr>)"

definition tokens_pop_front :: "token_buffer \<Rightarrow> token option \<times> token_buffer" where
  "tokens_pop_front b = (let (t, r) = ring_pop_front (tk_tokens b) in (t, b\<lparr>tk_tokens := r\<rparr>))"

definition tokens_is_empty :: "token_buffer \<Rightarrow> bool" where
  "tokens_is_empty b \<longleftrightarrow> ring_is_empty (tk_tokens b)"

end
