(* ===== verification/Pretty_Printer.thy ===== *)
theory Pretty_Printer
  imports Pretty_Tokens
begin

text \<open>
  The pretty printer: \<^verbatim>\<open>printer.rs\<close>, \<^verbatim>\<open>text.rs\<close>, \<^verbatim>\<open>delim.rs\<close> and the printing half of \<^verbatim>\<open>macro.rs\<close> in
  \<^verbatim>\<open>crates/topcoat-core/grammar/src/pretty\<close>.  Scanning puts tokens and their lengths into the buffer,
  printing takes them out and decides the breaks.  The text is ASCII, so that a character is a
  byte and white space is that of ASCII; the registry of nested macros is left out.
\<close>

definition MARGIN :: int where "MARGIN = 89"
definition INDENT :: int where "INDENT = 4"
definition MIN_SPACE :: int where "MIN_SPACE = 60"

definition NEWLINE :: char where "NEWLINE = CHR 0x0A"

definition is_space :: "char \<Rightarrow> bool" where
  "is_space c \<longleftrightarrow> (let n = (of_char c :: nat) in 9 \<le> n \<and> n \<le> 13 \<or> n = 32)"

record line_column =
  lc_line :: nat
  lc_column :: nat

definition lc_le :: "line_column \<Rightarrow> line_column \<Rightarrow> bool" where
  "lc_le a b \<longleftrightarrow> lc_line a < lc_line b \<or> lc_line a = lc_line b \<and> lc_column a \<le> lc_column b"

definition lc_less :: "line_column \<Rightarrow> line_column \<Rightarrow> bool" where
  "lc_less a b \<longleftrightarrow> lc_line a < lc_line b \<or> lc_line a = lc_line b \<and> lc_column a < lc_column b"

datatype trivia_kind = LineComment | BlockComment | Whitespace

record trivia =
  tv_start :: line_column
  tv_end :: line_column
  tv_content :: str
  tv_kind :: trivia_kind

definition newlines :: "trivia \<Rightarrow> nat" where
  "newlines t = length (filter (\<lambda>c. c = NEWLINE) (tv_content t))"

record printer =
  pr_trivia :: "trivia list"
  pr_tokens :: token_buffer
  pr_output :: str
  pr_space :: int
  pr_scan_indent :: int
  pr_print_indent :: int
  pr_frames :: "bool list"
  pr_pending_break :: bool
  pr_cursor :: line_column

definition printer_new :: "trivia list \<Rightarrow> int \<Rightarrow> int \<Rightarrow> printer" where
  "printer_new trivia initial_space initial_indent =
     \<lparr>pr_trivia = trivia, pr_tokens = tokens_new, pr_output = [], pr_space = max initial_space MIN_SPACE,
      pr_scan_indent = initial_indent, pr_print_indent = 0, pr_frames = [], pr_pending_break = False,
      pr_cursor = \<lparr>lc_line = 1, lc_column = 0\<rparr>\<rparr>"

definition move_cursor :: "line_column \<Rightarrow> printer \<Rightarrow> printer" where
  "move_cursor c p = p\<lparr>pr_cursor := c\<rparr>"

fun advance :: "str \<Rightarrow> line_column \<Rightarrow> line_column" where
  "advance [] c = c"
| "advance (x # xs) c =
     advance xs (if x = NEWLINE then \<lparr>lc_line = lc_line c + 1, lc_column = 0\<rparr>
                 else c\<lparr>lc_column := lc_column c + 1\<rparr>)"

definition advance_cursor :: "str \<Rightarrow> printer \<Rightarrow> printer" where
  "advance_cursor s p = p\<lparr>pr_cursor := advance s (pr_cursor p)\<rparr>"

subsection \<open>Scanning\<close>

definition with_tokens :: "printer \<Rightarrow> token_buffer \<Rightarrow> printer outcome" where
  "with_tokens p b = Done (p\<lparr>pr_tokens := b\<rparr>)"

definition scan_text :: "str \<Rightarrow> text_mode \<Rightarrow> printer \<Rightarrow> printer outcome" where
  "scan_text s mode p =
     bind_outcome
       (if mode \<noteq> BreakOnly then tokens_push_len (int (length s)) (pr_tokens p) else Done (pr_tokens p))
       (\<lambda>b. with_tokens p (tokens_push_back (TText s mode) b))"

definition scan_break :: "printer \<Rightarrow> printer outcome" where
  "scan_break p = with_tokens p (tokens_push_back (TBreak 0 (pr_scan_indent p)) (pr_tokens p))"

definition scan_force_break :: "printer \<Rightarrow> printer outcome" where
  "scan_force_break p =
     bind_outcome (tokens_push_len MARGIN (tokens_push_back TForceBreak (pr_tokens p))) (with_tokens p)"

definition scan_indent :: "int \<Rightarrow> printer \<Rightarrow> printer outcome" where
  "scan_indent n p = Done (p\<lparr>pr_scan_indent := pr_scan_indent p + n\<rparr>)"

definition scan_begin :: "break_mode \<Rightarrow> printer \<Rightarrow> printer outcome" where
  "scan_begin mode p = with_tokens p (tokens_push_back (TBegin mode 0) (pr_tokens p))"

definition current_begin_len :: "token_buffer \<Rightarrow> int outcome" where
  "current_begin_len b =
     (if tk_begin_stack b = [] then Panic
      else bind_outcome (ring_index (tk_tokens b) (last (tk_begin_stack b))) (\<lambda>t.
        case t of TBegin _ len \<Rightarrow> Done len | _ \<Rightarrow> Panic))"

definition scan_end :: "printer \<Rightarrow> printer outcome" where
  "scan_end p =
     bind_outcome (current_begin_len (pr_tokens p)) (\<lambda>len.
       bind_outcome (current_begin_mut (begin_push_len len) (tokens_push_back TEnd (pr_tokens p))) (with_tokens p))"

subsection \<open>Comments and white space of the source\<close>

definition ready_trivia :: "printer \<Rightarrow> trivia option" where
  "ready_trivia p =
     (case pr_trivia p of [] \<Rightarrow> None | t # _ \<Rightarrow> if lc_le (tv_start t) (pr_cursor p) then Some t else None)"

definition pop_trivia :: "printer \<Rightarrow> printer outcome" where
  "pop_trivia p =
     (case pr_trivia p of
        [] \<Rightarrow> Panic
      | t # ts \<Rightarrow>
          (let p = (if lc_less (pr_cursor p) (tv_end t) then move_cursor (tv_end t) p else p)
           in Done (p\<lparr>pr_trivia := ts\<rparr>)))"

definition and_do :: "printer outcome \<Rightarrow> (printer \<Rightarrow> printer outcome) \<Rightarrow> printer outcome" where
  "and_do m f = bind_outcome m f"

text \<open>The loops take the trivia left as fuel: every turn pops one or stops.\<close>

definition ready_turns :: "printer \<Rightarrow> nat" where
  "ready_turns p = length (pr_trivia p)"

primrec no_break_loop :: "nat \<Rightarrow> printer \<Rightarrow> printer outcome" where
  "no_break_loop 0 p = Done p"
| "no_break_loop (Suc n) p =
     (case ready_trivia p of
        None \<Rightarrow> Done p
      | Some t \<Rightarrow>
          (case tv_kind t of
             BlockComment \<Rightarrow>
               and_do (scan_text '' '' Always p) (\<lambda>p. and_do (scan_text (tv_content t) Always p) (\<lambda>p.
                 and_do (pop_trivia p) (no_break_loop n)))
           | LineComment \<Rightarrow> Done p
           | Whitespace \<Rightarrow> and_do (pop_trivia p) (no_break_loop n)))"

definition scan_no_break_trivia :: "printer \<Rightarrow> printer outcome" where
  "scan_no_break_trivia p = no_break_loop (ready_turns p) p"

primrec same_line_loop :: "nat \<Rightarrow> printer \<Rightarrow> printer outcome" where
  "same_line_loop 0 p = Done p"
| "same_line_loop (Suc n) p =
     (case ready_trivia p of
        None \<Rightarrow> Done p
      | Some t \<Rightarrow>
          (case tv_kind t of
             BlockComment \<Rightarrow>
               and_do (scan_text '' '' Always p) (\<lambda>p. and_do (scan_text (tv_content t) Always p) pop_trivia)
           | LineComment \<Rightarrow>
               and_do (scan_text '' '' Always p) (\<lambda>p. and_do (scan_text (tv_content t) Always p) (\<lambda>p.
                 and_do (scan_force_break p) pop_trivia))
           | Whitespace \<Rightarrow> if newlines t > 0 then Done p else and_do (pop_trivia p) (same_line_loop n)))"

definition scan_same_line_trivia :: "printer \<Rightarrow> printer outcome" where
  "scan_same_line_trivia p = same_line_loop (ready_turns p) p"

text \<open>\<open>n\<close> pending line breaks, each with the space that a flat break leaves.\<close>

primrec scan_newlines :: "nat \<Rightarrow> printer \<Rightarrow> printer outcome" where
  "scan_newlines 0 p = Done p"
| "scan_newlines (Suc n) p =
     and_do (scan_break p) (\<lambda>p. and_do (scan_text '' '' Always p) (scan_newlines n))"

definition scan_comment :: "nat \<Rightarrow> bool \<Rightarrow> str \<Rightarrow> printer \<Rightarrow> printer outcome" where
  "scan_comment pending spaced content p =
     and_do (scan_newlines pending p) (\<lambda>p.
       and_do (if spaced then scan_text '' '' Always p else Done p) (scan_text content Always))"

primrec trivia_loop :: "nat \<Rightarrow> bool \<Rightarrow> bool \<Rightarrow> nat \<Rightarrow> printer \<Rightarrow> (nat \<times> printer) outcome" where
  "trivia_loop 0 leading encountered pending p = Done (pending, p)"
| "trivia_loop (Suc n) leading encountered pending p =
     (case ready_trivia p of
        None \<Rightarrow> Done (pending, p)
      | Some t \<Rightarrow>
          (case tv_kind t of
             BlockComment \<Rightarrow>
               bind_outcome (scan_comment pending (leading \<or> encountered) (tv_content t) p) (\<lambda>p.
                 bind_outcome (pop_trivia p) (trivia_loop n leading True 1))
           | LineComment \<Rightarrow>
               bind_outcome (scan_comment pending (leading \<or> encountered) (tv_content t) p) (\<lambda>p.
                 bind_outcome (scan_force_break p) (\<lambda>p.
                   bind_outcome (pop_trivia p) (trivia_loop n leading True 1)))
           | Whitespace \<Rightarrow>
               bind_outcome (pop_trivia p)
                 (trivia_loop n leading encountered
                   (if (leading \<or> encountered) \<and> newlines t > 1 then pending + 1 else pending))))"

definition scan_trivia :: "bool \<Rightarrow> bool \<Rightarrow> printer \<Rightarrow> printer outcome" where
  "scan_trivia leading trailing p =
     bind_outcome (trivia_loop (ready_turns p) leading False 0 p) (\<lambda>(pending, p).
       if trailing then scan_newlines pending p else Done p)"

definition skip_trivia :: "printer \<Rightarrow> printer" where
  "skip_trivia p = p\<lparr>pr_trivia := dropWhile (\<lambda>t. lc_less (tv_start t) (pr_cursor p)) (pr_trivia p)\<rparr>"

fun comment_before :: "line_column \<Rightarrow> trivia list \<Rightarrow> bool" where
  "comment_before pos [] = False"
| "comment_before pos (t # ts) =
     (if lc_le pos (tv_start t) then False else if tv_kind t \<noteq> Whitespace then True else comment_before pos ts)"

definition has_comment_before :: "line_column \<Rightarrow> printer \<Rightarrow> bool" where
  "has_comment_before pos p = comment_before pos (pr_trivia p)"

subsection \<open>Printing\<close>

definition line_dirty :: "printer \<Rightarrow> bool" where
  "line_dirty p \<longleftrightarrow> (if pr_output p = [] then True else last (pr_output p) \<noteq> NEWLINE)"

definition print_break :: "printer \<Rightarrow> printer" where
  "print_break p =
     p\<lparr>pr_output := pr_output p @ [NEWLINE], pr_space := max (MARGIN - pr_print_indent p * INDENT) MIN_SPACE,
       pr_pending_break := False\<rparr>"

text \<open>A negative indentation does not convert to a \<^verbatim>\<open>usize\<close>.\<close>

definition print_indent :: "printer \<Rightarrow> printer outcome" where
  "print_indent p =
     (if line_dirty p then Done p
      else if pr_print_indent p * INDENT < 0 then Panic
      else Done (p\<lparr>pr_output := pr_output p @ replicate (nat (pr_print_indent p * INDENT)) CHR '' ''\<rparr>))"

definition print_string :: "str \<Rightarrow> printer \<Rightarrow> printer outcome" where
  "print_string s p =
     (let p = (if pr_pending_break p then print_break p else p);
          s = (if \<not> line_dirty p then trim_start_matches is_space s
               else if ends_with_str (pr_output p) '' '' then trim_start_matches (\<lambda>c. c = CHR '' '') s
               else s)
      in if s = [] then Done p
         else bind_outcome (print_indent p) (\<lambda>p.
           Done (p\<lparr>pr_output := pr_output p @ s, pr_space := pr_space p - int (length s)\<rparr>)))"

definition should_print :: "text_mode \<Rightarrow> bool \<Rightarrow> bool" where
  "should_print mode group_break \<longleftrightarrow>
     (case mode of Always \<Rightarrow> True | BreakOnly \<Rightarrow> group_break | NoBreak \<Rightarrow> \<not> group_break)"

definition print_token :: "token \<Rightarrow> printer \<Rightarrow> printer outcome" where
  "print_token t p =
     (let group_break = (if pr_frames p = [] then False else last (pr_frames p))
      in case t of
        TText s mode \<Rightarrow> if should_print mode group_break then print_string s p else Done p
      | TBreak len indent \<Rightarrow>
          if group_break \<or> len \<ge> pr_space p then Done (print_break (p\<lparr>pr_print_indent := indent\<rparr>)) else Done p
      | TForceBreak \<Rightarrow> Done (p\<lparr>pr_pending_break := True\<rparr>)
      | TBegin mode len \<Rightarrow>
          Done (p\<lparr>pr_frames := pr_frames p @ [len \<ge> pr_space p \<and> mode = Consistent]\<rparr>)
      | TEnd \<Rightarrow> Done (p\<lparr>pr_frames := butlast (pr_frames p)\<rparr>))"

definition print_first :: "printer \<Rightarrow> printer outcome" where
  "print_first p =
     (case tokens_pop_front (pr_tokens p) of
        (None, _) \<Rightarrow> Panic
      | (Some t, b) \<Rightarrow> print_token t (p\<lparr>pr_tokens := b\<rparr>))"

text \<open>\<^verbatim>\<open>eof\<close>, with the number of tokens left as fuel.\<close>

primrec print_loop :: "nat \<Rightarrow> printer \<Rightarrow> printer outcome" where
  "print_loop 0 p = Done p"
| "print_loop (Suc n) p =
     (if tokens_is_empty (pr_tokens p) then Done p else bind_outcome (print_first p) (print_loop n))"

definition printer_eof :: "printer \<Rightarrow> str outcome" where
  "printer_eof p =
     bind_outcome (print_loop (ring_len (tk_tokens (pr_tokens p))) p) (\<lambda>p. Done (pr_output p))"

subsection \<open>Strings, delimiters and macro bodies\<close>

definition print_str :: "str \<Rightarrow> printer \<Rightarrow> printer outcome" where
  "print_str s p = bind_outcome (scan_text s Always p) (\<lambda>p. Done (advance_cursor s p))"

definition print_literal :: "line_column \<Rightarrow> line_column \<Rightarrow> str \<Rightarrow> printer \<Rightarrow> printer outcome" where
  "print_literal start stop s p =
     bind_outcome (scan_text s Always (move_cursor start p)) (\<lambda>p. Done (move_cursor stop p))"

record delim_span =
  ds_open_start :: line_column
  ds_open_end :: line_column
  ds_close_start :: line_column
  ds_close_end :: line_column

record delim =
  dl_space :: bool
  dl_open :: str
  dl_close :: str
  dl_span :: delim_span

definition paren :: "delim_span \<Rightarrow> delim" where
  "paren s = \<lparr>dl_space = False, dl_open = ''('', dl_close = '')'', dl_span = s\<rparr>"

definition bracket :: "delim_span \<Rightarrow> delim" where
  "bracket s = \<lparr>dl_space = False, dl_open = ''['', dl_close = '']'', dl_span = s\<rparr>"

definition brace :: "delim_span \<Rightarrow> delim" where
  "brace s = \<lparr>dl_space = True, dl_open = ''{'', dl_close = ''}'', dl_span = s\<rparr>"

definition unspaced :: "delim \<Rightarrow> delim" where
  "unspaced d = d\<lparr>dl_space := False\<rparr>"

definition print_delim :: "delim \<Rightarrow> break_mode option \<Rightarrow> (printer \<Rightarrow> printer outcome) \<Rightarrow> printer \<Rightarrow> printer outcome" where
  "print_delim d mode f p =
     and_do (print_str (dl_open d) (move_cursor (ds_open_start (dl_span d)) p)) (\<lambda>p.
     and_do (case mode of Some m \<Rightarrow> scan_begin m (move_cursor (ds_open_end (dl_span d)) p)
             | None \<Rightarrow> Done (move_cursor (ds_open_end (dl_span d)) p)) (\<lambda>p.
     and_do (scan_indent 1 p) (\<lambda>p. and_do (scan_break p) (\<lambda>p.
     and_do (if dl_space d then print_str '' '' p else Done p) (\<lambda>p.
     and_do (scan_trivia False True p) (\<lambda>p. and_do (f p) (\<lambda>p.
     and_do (scan_trivia True False (move_cursor (ds_close_start (dl_span d)) p)) (\<lambda>p.
     and_do (scan_indent (- 1) p) (\<lambda>p. and_do (scan_break p) (\<lambda>p.
     and_do (if dl_space d then print_str '' '' p else Done p) (\<lambda>p.
     and_do (if mode \<noteq> None then scan_end p else Done p) (\<lambda>p.
     and_do (print_str (dl_close d) p) (\<lambda>p. Done (move_cursor (ds_close_end (dl_span d)) p))))))))))))))"

text \<open>A macro body by its delimiter, with the printing of what is inside.\<close>

datatype macro_body = Parenthesized delim_span | Braced delim_span bool | Bracketed delim_span

fun print_macro :: "macro_body \<Rightarrow> (printer \<Rightarrow> printer outcome) \<Rightarrow> printer \<Rightarrow> printer outcome" where
  "print_macro (Parenthesized s) inner p = print_delim (paren s) (Some Consistent) inner p"
| "print_macro (Braced s vacant) inner p =
     print_delim (if vacant then unspaced (brace s) else brace s) (Some Consistent) inner p"
| "print_macro (Bracketed s) inner p = print_delim (bracket s) (Some Consistent) inner p"

end
