(* ===== verification/Pretty_Docs.thy ===== *)
theory Pretty_Docs
  imports Pretty_Printer
begin

text \<open>
  What the pretty printer prints.  A document is a structured sequence of scans; the reference
  layout prints it directly, with the widths of its groups computed on the document.
\<close>

subsection \<open>Documents\<close>

datatype doc =
    DText str text_mode
  | DBreak
  | DForce
  | DIndent int
  | DGroup break_mode "doc list"

fun scan_docs :: "doc list \<Rightarrow> printer \<Rightarrow> printer outcome" where
  "scan_docs [] p = Done p"
| "scan_docs (DText s m # ds) p = bind_outcome (scan_text s m p) (scan_docs ds)"
| "scan_docs (DBreak # ds) p = bind_outcome (scan_break p) (scan_docs ds)"
| "scan_docs (DForce # ds) p = bind_outcome (scan_force_break p) (scan_docs ds)"
| "scan_docs (DIndent n # ds) p = bind_outcome (scan_indent n p) (scan_docs ds)"
| "scan_docs (DGroup m es # ds) p =
     bind_outcome (scan_begin m p) (\<lambda>p. bind_outcome (scan_docs es p) (\<lambda>p.
       bind_outcome (scan_end p) (scan_docs ds)))"

fun width :: "doc list \<Rightarrow> int" where
  "width [] = 0"
| "width (DText s m # ds) = (if m \<noteq> BreakOnly then int (length s) else 0) + width ds"
| "width (DForce # ds) = MARGIN + width ds"
| "width (DGroup m es # ds) = width es + width ds"
| "width (DBreak # ds) = width ds"
| "width (DIndent n # ds) = width ds"

text \<open>The width up to the next break, or to the end of the next group.\<close>

fun lead :: "doc list \<Rightarrow> int" where
  "lead [] = 0"
| "lead (DText s m # ds) = (if m \<noteq> BreakOnly then int (length s) else 0) + lead ds"
| "lead (DForce # ds) = MARGIN + lead ds"
| "lead (DGroup m es # ds) = lead es"
| "lead (DBreak # ds) = 0"
| "lead (DIndent n # ds) = lead ds"

fun indent_after :: "int \<Rightarrow> doc list \<Rightarrow> int" where
  "indent_after i [] = i"
| "indent_after i (DIndent n # ds) = indent_after (i + n) ds"
| "indent_after i (DGroup m es # ds) = indent_after (indent_after i es) ds"
| "indent_after i (DText s m # ds) = indent_after i ds"
| "indent_after i (DBreak # ds) = indent_after i ds"
| "indent_after i (DForce # ds) = indent_after i ds"

text \<open>The tokens of a document, with their lengths.\<close>

fun toks :: "int \<Rightarrow> doc list \<Rightarrow> token list" where
  "toks i [] = []"
| "toks i (DText s m # ds) = TText s m # toks i ds"
| "toks i (DBreak # ds) = TBreak (lead ds) i # toks i ds"
| "toks i (DForce # ds) = TForceBreak # toks i ds"
| "toks i (DIndent n # ds) = toks (i + n) ds"
| "toks i (DGroup m es # ds) = TBegin m (width es) # toks i es @ TEnd # toks (indent_after i es) ds"

fun tok_count :: "doc list \<Rightarrow> nat" where
  "tok_count [] = 0"
| "tok_count (DIndent n # ds) = tok_count ds"
| "tok_count (DGroup m es # ds) = tok_count es + tok_count ds + 2"
| "tok_count (_ # ds) = Suc (tok_count ds)"

fun last_break_after :: "nat \<Rightarrow> nat option \<Rightarrow> doc list \<Rightarrow> nat option" where
  "last_break_after n l [] = l"
| "last_break_after n l (DText s m # ds) = last_break_after (n + 1) l ds"
| "last_break_after n l (DBreak # ds) = last_break_after (n + 1) (Some n) ds"
| "last_break_after n l (DForce # ds) = last_break_after (n + 1) l ds"
| "last_break_after n l (DIndent k # ds) = last_break_after n l ds"
| "last_break_after n l (DGroup m es # ds) = last_break_after (n + 2 + tok_count es) None ds"

lemma length_toks [simp]: "length (toks i ds) = tok_count ds"
  by (induction i ds rule: toks.induct) simp_all

subsection \<open>Scanning a document\<close>

text \<open>A buffer nothing was taken from: its last break is one, and its open groups are.\<close>

definition buffer_ok :: "token_buffer \<Rightarrow> bool" where
  "buffer_ok b \<longleftrightarrow> rg_offset (tk_tokens b) = 0 \<and>
     (case tk_last_break b of None \<Rightarrow> True
      | Some i \<Rightarrow> i < length (rg_inner (tk_tokens b)) \<and> is_break (rg_inner (tk_tokens b) ! i)) \<and>
     (\<forall>i \<in> set (tk_begin_stack b). i < length (rg_inner (tk_tokens b)) \<and> is_begin (rg_inner (tk_tokens b) ! i))"

definition bump_break :: "nat option \<Rightarrow> int \<Rightarrow> token list \<Rightarrow> token list" where
  "bump_break l n ts = (case l of None \<Rightarrow> ts | Some i \<Rightarrow> ts[i := break_push_len n (ts ! i)])"

definition bump_begin :: "nat list \<Rightarrow> int \<Rightarrow> token list \<Rightarrow> token list" where
  "bump_begin st n ts = (if st = [] then ts else ts[last st := begin_push_len n (ts ! last st)])"

definition buffer_of :: "token list \<Rightarrow> nat option \<Rightarrow> nat list \<Rightarrow> token_buffer" where
  "buffer_of ts l st = \<lparr>tk_tokens = \<lparr>rg_inner = ts, rg_offset = 0\<rparr>, tk_last_break = l, tk_begin_stack = st\<rparr>"

definition marks_ok :: "token list \<Rightarrow> nat option \<Rightarrow> nat list \<Rightarrow> bool" where
  "marks_ok ts l st \<longleftrightarrow> (case l of None \<Rightarrow> True | Some i \<Rightarrow> i < length ts \<and> is_break (ts ! i)) \<and>
     (\<forall>i \<in> set st. i < length ts \<and> is_begin (ts ! i))"

lemma buffer_ok_of: "buffer_ok (buffer_of ts l st) \<longleftrightarrow> marks_ok ts l st"
  by (cases l) (simp_all add: buffer_ok_def buffer_of_def marks_ok_def)

lemma buffer_ok_cases:
  assumes "buffer_ok b"
  obtains ts l st where "b = buffer_of ts l st" "marks_ok ts l st"
proof
  show "b = buffer_of (rg_inner (tk_tokens b)) (tk_last_break b) (tk_begin_stack b)"
    using assms by (simp add: buffer_ok_def buffer_of_def)
  then show "marks_ok (rg_inner (tk_tokens b)) (tk_last_break b) (tk_begin_stack b)"
    using assms buffer_ok_of by metis
qed

lemma is_break_simps [simp]: "is_break (TBreak n i)" "\<not> is_break (TText s tm)" "\<not> is_break TForceBreak"
  "\<not> is_break (TBegin bm n)" "\<not> is_break TEnd" "is_break (break_push_len n t) = is_break t"
  "is_break (begin_push_len n t) = is_break t"
  by (simp_all add: is_break_def) (cases t; simp)+

lemma is_begin_simps [simp]: "is_begin (TBegin bm n)" "\<not> is_begin (TText s tm)" "\<not> is_begin TForceBreak"
  "\<not> is_begin (TBreak n i)" "\<not> is_begin TEnd" "is_begin (break_push_len n t) = is_begin t"
  "is_begin (begin_push_len n t) = is_begin t"
  by (simp_all add: is_begin_def) (cases t; simp)+

lemma length_bump [simp]: "length (bump_break l n ts) = length ts" "length (bump_begin st n ts) = length ts"
  by (simp_all add: bump_break_def bump_begin_def split: option.split)

lemma nth_update: "xs[i := x] ! j = (if j = i \<and> i < length xs then x else xs ! j)"
  by (cases "i < length xs") (auto simp: nth_list_update list_update_beyond)

lemma bump_break_nth: "bump_break l n ts ! i =
    (if l = Some i \<and> i < length ts then break_push_len n (ts ! i) else ts ! i)"
  by (auto simp: bump_break_def nth_update split: option.split)

lemma bump_begin_nth: "bump_begin st n ts ! i =
    (if st \<noteq> [] \<and> i = last st \<and> i < length ts then begin_push_len n (ts ! i) else ts ! i)"
  by (auto simp: bump_begin_def nth_update)

lemma is_break_bump [simp]:
  "is_break (bump_break l n ts ! i) = is_break (ts ! i)" "is_break (bump_begin st n ts ! i) = is_break (ts ! i)"
  "is_begin (bump_break l n ts ! i) = is_begin (ts ! i)" "is_begin (bump_begin st n ts ! i) = is_begin (ts ! i)"
  by (simp_all add: bump_break_nth bump_begin_nth)

lemma marks_ok_bump [simp]:
  "marks_ok (bump_break l' n ts) l st = marks_ok ts l st" "marks_ok (bump_begin st' n ts) l st = marks_ok ts l st"
  by (cases l; simp add: marks_ok_def)+

lemma marks_ok_append: "marks_ok ts l st \<Longrightarrow> marks_ok (ts @ us) l st"
  by (auto simp: marks_ok_def nth_append split: option.splits)

lemma bump_append:
  assumes "marks_ok ts l st"
  shows "bump_break l n (ts @ us) = bump_break l n ts @ us" "bump_begin st n (ts @ us) = bump_begin st n ts @ us"
  using assms by (auto simp: marks_ok_def bump_break_def bump_begin_def list_update_append nth_append split: option.splits)

lemma break_push_len_add: "break_push_len n (break_push_len m t) = break_push_len (m + n) t"
  by (cases t) simp_all

lemma begin_push_len_add: "begin_push_len n (begin_push_len m t) = begin_push_len (m + n) t"
  by (cases t) simp_all

lemma update_twice: "ts[i := g (ts[i := f (ts ! i)] ! i)] = ts[i := g (f (ts ! i))]"
  by (cases "i < length ts") (simp_all add: list_update_beyond)

lemma update_swap:
  "(\<And>t. f (g t) = g (f t)) \<Longrightarrow>
   (ts[i := g (ts ! i)])[j := f (ts[i := g (ts ! i)] ! j)] = (ts[j := f (ts ! j)])[i := g (ts[j := f (ts ! j)] ! i)]"
  by (cases "i = j"; cases "i < length ts"; cases "j < length ts")
    (simp_all add: list_update_beyond list_update_swap)

lemma bump_add:
  "bump_break l n (bump_break l m ts) = bump_break l (m + n) ts"
  "bump_begin st n (bump_begin st m ts) = bump_begin st (m + n) ts"
  by (simp_all add: bump_break_def bump_begin_def update_twice break_push_len_add begin_push_len_add split: option.split)

lemma bump_zero: "bump_break l 0 ts = ts" "bump_begin st 0 ts = ts"
proof -
  have "break_push_len 0 t = t" "begin_push_len 0 t = t" for t by (cases t; simp)+
  then show "bump_break l 0 ts = ts" "bump_begin st 0 ts = ts"
    by (simp_all add: bump_break_def bump_begin_def split: option.split)
qed

lemma break_begin_push_len: "break_push_len n (begin_push_len m t) = begin_push_len m (break_push_len n t)"
  by (cases t) simp_all

lemma bump_commute: "bump_break l n (bump_begin st m ts) = bump_begin st m (bump_break l n ts)"
  using update_swap [of "break_push_len n" "begin_push_len m" ts "last st"] break_begin_push_len
  by (simp add: bump_break_def bump_begin_def split: option.split)

lemma push_len_spec:
  assumes "marks_ok ts l st"
  shows "tokens_push_len n (buffer_of ts l st) = Done (buffer_of (bump_begin st n (bump_break l n ts)) l st)"
proof -
  have 1: "last_break_mut (break_push_len n) (buffer_of ts l st) = Done (buffer_of (bump_break l n ts) l st)"
    using assms by (auto simp: last_break_mut_def buffer_of_def marks_ok_def ring_index_def ring_index_mut_def
        bump_break_def split: option.splits)
  have 2: "current_begin_mut (begin_push_len n) (buffer_of ts l st) = Done (buffer_of (bump_begin st n ts) l st)"
    if "marks_ok ts l st" for ts
    using that by (auto simp: current_begin_mut_def buffer_of_def marks_ok_def ring_index_def ring_index_mut_def
        bump_begin_def Let_def dest!: bspec [OF _ last_in_set])
  show ?thesis using 1 2 [of "bump_break l n ts"] assms by (simp add: tokens_push_len_def)
qed

definition scanned :: "printer \<Rightarrow> token_buffer \<Rightarrow> int \<Rightarrow> printer" where
  "scanned p b i = p\<lparr>pr_tokens := b, pr_scan_indent := i\<rparr>"

lemma push_back_of:
  "tokens_push_back t (buffer_of ts l st) = buffer_of (ts @ [t])
     (case t of TBreak _ _ \<Rightarrow> Some (length ts) | TEnd \<Rightarrow> None | _ \<Rightarrow> l)
     (case t of TBegin _ _ \<Rightarrow> st @ [length ts] | TEnd \<Rightarrow> butlast st | _ \<Rightarrow> st)"
  by (cases t) (simp_all add: tokens_push_back_def buffer_of_def ring_push_back_def ring_next_index_def ring_len_def)

lemma marks_ok_push:
  assumes "marks_ok ts l st"
  shows "marks_ok (ts @ [TText s m]) l st" "marks_ok (ts @ [TForceBreak]) l st"
    "marks_ok (ts @ [TBreak n i]) (Some (length ts)) st" "marks_ok (ts @ [TBegin b n]) l (st @ [length ts])"
  using assms by (auto simp: marks_ok_def nth_append split: option.splits)

lemma scan_text_spec:
  assumes "pr_tokens p = buffer_of ts l st" "marks_ok ts l st"
  shows "scan_text s m p = Done (p\<lparr>pr_tokens := buffer_of
    (bump_begin st (width [DText s m]) (bump_break l (width [DText s m]) ts) @ [TText s m]) l st\<rparr>)"
  using assms by (simp add: scan_text_def push_len_spec with_tokens_def push_back_of bump_zero)

lemma scan_force_spec:
  assumes "pr_tokens p = buffer_of ts l st" "marks_ok ts l st"
  shows "scan_force_break p = Done (p\<lparr>pr_tokens := buffer_of
    (bump_begin st MARGIN (bump_break l MARGIN ts) @ [TForceBreak]) l st\<rparr>)"
proof -
  have "marks_ok (bump_break l MARGIN ts) l st" using assms(2) by simp
  with assms show ?thesis
    by (simp add: scan_force_break_def push_back_of push_len_spec marks_ok_push with_tokens_def bump_append)
qed

lemma scan_end_spec:
  assumes "pr_tokens p = buffer_of (ts @ TBegin m n # us) l (st @ [length ts])" "marks_ok ts l' st"
  shows "scan_end p = Done (p\<lparr>pr_tokens := buffer_of (bump_begin st n ts @ TBegin m n # us @ [TEnd]) None st\<rparr>)"
proof -
  have len: "current_begin_len (pr_tokens p) = Done n"
    by (simp add: current_begin_len_def assms(1) buffer_of_def ring_index_def)
  have "marks_ok ts None st" using assms(2) by (simp add: marks_ok_def)
  then have ok: "marks_ok ((ts @ TBegin m n # us) @ [TEnd]) None st" and a: "bump_begin st n (ts @ TBegin m n # us @ [TEnd]) =
      bump_begin st n ts @ TBegin m n # us @ [TEnd]"
    using marks_ok_append [of ts None st "TBegin m n # us @ [TEnd]"] bump_append(2) [of ts None st n "TBegin m n # us @ [TEnd]"]
    by simp_all
  have "current_begin_mut (begin_push_len n) (buffer_of ((ts @ TBegin m n # us) @ [TEnd]) None st) =
      Done (buffer_of (bump_begin st n ((ts @ TBegin m n # us) @ [TEnd])) None st)"
    using push_len_spec [OF ok, of n] by (simp add: tokens_push_len_def last_break_mut_def bump_break_def buffer_of_def)
  then show ?thesis
    unfolding scan_end_def len by (simp add: assms(1) push_back_of a with_tokens_def)
qed

text \<open>Scanning a document appends its tokens, and adds its width to the group it is in and its
  leading width to the break before it.\<close>

lemma scan_docs_spec:
  assumes "pr_tokens p = buffer_of ts l st" "marks_ok ts l st"
  shows "scan_docs ds p = Done (scanned p
      (buffer_of (bump_begin st (width ds) (bump_break l (lead ds) ts) @ toks (pr_scan_indent p) ds)
        (last_break_after (length ts) l ds) st)
      (indent_after (pr_scan_indent p) ds))"
  using assms
proof (induction ds p arbitrary: ts l st rule: scan_docs.induct)
  case (1 p)
  then show ?case by (simp add: scanned_def bump_zero)
next
  case (2 s m ds p)
  let ?w = "width [DText s m]"
  let ?ts = "bump_begin st ?w (bump_break l ?w ts) @ [TText s m]"
  let ?p = "p\<lparr>pr_tokens := buffer_of ?ts l st\<rparr>"
  have ok: "marks_ok ?ts l st" using 2 by (intro marks_ok_push(1)) simp
  have "scan_docs (DText s m # ds) p = scan_docs ds ?p"
    using scan_text_spec [OF 2(2,3)] by simp
  also have "\<dots> = Done (scanned ?p (buffer_of (bump_begin st (width ds) (bump_break l (lead ds) ?ts) @ toks (pr_scan_indent p) ds)
      (last_break_after (length ts + 1) l ds) st) (indent_after (pr_scan_indent p) ds))"
    using "2.IH" [of ?p ?ts l st] ok scan_text_spec [OF 2(2,3)] by simp
  also have "bump_begin st (width ds) (bump_break l (lead ds) ?ts) =
      bump_begin st (width (DText s m # ds)) (bump_break l (lead (DText s m # ds)) ts) @ [TText s m]"
    using 2(3) by (simp add: bump_append bump_commute bump_add)
  finally show ?case by (simp add: scanned_def)
next
  case (3 ds p)
  let ?ts = "ts @ [TBreak 0 (pr_scan_indent p)]"
  let ?p = "p\<lparr>pr_tokens := buffer_of ?ts (Some (length ts)) st\<rparr>"
  have s: "scan_break p = Done ?p"
    by (simp add: scan_break_def with_tokens_def 3(2) push_back_of)
  have ok: "marks_ok ?ts (Some (length ts)) st" using 3 by (intro marks_ok_push(3))
  have "scan_docs (DBreak # ds) p = scan_docs ds ?p" by (simp add: s)
  also have "\<dots> = Done (scanned ?p (buffer_of (bump_begin st (width ds) (bump_break (Some (length ts)) (lead ds) ?ts) @
      toks (pr_scan_indent p) ds) (last_break_after (length ts + 1) (Some (length ts)) ds) st)
      (indent_after (pr_scan_indent p) ds))"
    using "3.IH" [of ?p ?ts "Some (length ts)" st] ok by simp
  also have "bump_break (Some (length ts)) (lead ds) ?ts = ts @ [TBreak (lead ds) (pr_scan_indent p)]"
    by (simp add: bump_break_def)
  also have "bump_begin st (width ds) \<dots> = bump_begin st (width ds) ts @ [TBreak (lead ds) (pr_scan_indent p)]"
    using 3(3) by (simp add: bump_append)
  finally show ?case by (simp add: scanned_def bump_zero)
next
  case (4 ds p)
  let ?ts = "bump_begin st MARGIN (bump_break l MARGIN ts) @ [TForceBreak]"
  let ?p = "p\<lparr>pr_tokens := buffer_of ?ts l st\<rparr>"
  have s: "scan_force_break p = Done ?p" using scan_force_spec [OF 4(2,3)] .
  have ok: "marks_ok ?ts l st" using 4 by (intro marks_ok_push(2)) simp
  have "scan_docs (DForce # ds) p = scan_docs ds ?p" by (simp add: s)
  also have "\<dots> = Done (scanned ?p (buffer_of (bump_begin st (width ds) (bump_break l (lead ds) ?ts) @ toks (pr_scan_indent p) ds)
      (last_break_after (length ts + 1) l ds) st) (indent_after (pr_scan_indent p) ds))"
    using "4.IH" [of ?p ?ts l st] ok by simp
  also have "bump_begin st (width ds) (bump_break l (lead ds) ?ts) =
      bump_begin st (width (DForce # ds)) (bump_break l (lead (DForce # ds)) ts) @ [TForceBreak]"
    using 4(3) by (simp add: bump_append bump_commute bump_add)
  finally show ?case by (simp add: scanned_def)
next
  case (5 n ds p)
  then show ?case by (simp add: scan_indent_def scanned_def)
next
  case (6 m es ds p)
  let ?i = "pr_scan_indent p"
  let ?j = "indent_after ?i es"
  let ?n = "length ts"
  let ?p1 = "p\<lparr>pr_tokens := buffer_of (ts @ [TBegin m 0]) l (st @ [?n])\<rparr>"
  have s1: "scan_begin m p = Done ?p1"
    by (simp add: scan_begin_def with_tokens_def "6.prems"(1) push_back_of)
  have ok1: "marks_ok (ts @ [TBegin m 0]) l (st @ [?n])" using "6.prems"(2) by (rule marks_ok_push(4))
  let ?us = "bump_break l (lead es) ts"
  have b1: "bump_begin (st @ [?n]) (width es) (bump_break l (lead es) (ts @ [TBegin m 0])) = ?us @ [TBegin m (width es)]"
    using "6.prems"(2) by (simp add: bump_append(1)) (simp add: bump_begin_def list_update_append nth_append)
  let ?l2 = "last_break_after (?n + 1) l es"
  let ?p2 = "scanned ?p1 (buffer_of (?us @ TBegin m (width es) # toks ?i es) ?l2 (st @ [?n])) ?j"
  have s2: "scan_docs es ?p1 = Done ?p2"
    using "6.IH"(1) [of ?p1, OF _ ok1] by (simp add: b1)
  let ?vs = "bump_begin st (width es) ?us @ TBegin m (width es) # toks ?i es @ [TEnd]"
  let ?p3 = "scanned ?p1 (buffer_of ?vs None st) ?j"
  have s3: "scan_end ?p2 = Done ?p3"
    using scan_end_spec [of ?p2 ?us m "width es" "toks ?i es" ?l2 st l] "6.prems"(2) by (simp add: scanned_def)
  have "marks_ok ?us None st" using "6.prems"(2) by (simp add: marks_ok_def)
  then have ok3: "marks_ok ?vs None st"
    using marks_ok_append [of "bump_begin st (width es) ?us" None st "TBegin m (width es) # toks ?i es @ [TEnd]"] by simp
  have b3: "bump_begin st (width ds) (bump_break None (lead ds) ?vs) =
      bump_begin st (width (DGroup m es # ds)) (bump_break l (lead (DGroup m es # ds)) ts) @
        TBegin m (width es) # toks ?i es @ [TEnd]"
  proof -
    have "bump_break None (lead ds) ?vs = ?vs" by (simp add: bump_break_def)
    moreover have "bump_begin st (width ds) ?vs = bump_begin st (width ds) (bump_begin st (width es) ?us) @
        TBegin m (width es) # toks ?i es @ [TEnd]"
      using \<open>marks_ok ?us None st\<close> by (intro bump_append(2) [where l = None]) simp
    ultimately show ?thesis by (simp add: bump_add)
  qed
  have "scan_docs (DGroup m es # ds) p = scan_docs ds ?p3"
    by (simp only: scan_docs.simps s1 s2 s3 bind_outcome.simps)
  also have "\<dots> = Done (scanned ?p3 (buffer_of (bump_begin st (width ds) (bump_break None (lead ds) ?vs) @ toks ?j ds)
      (last_break_after (length ?vs) None ds) st) (indent_after ?j ds))"
    using "6.IH"(2) [of ?p3 ?vs None st] ok3 by (simp add: scanned_def)
  finally show ?case unfolding b3 by (simp add: scanned_def)
qed

subsection \<open>The reference layout\<close>

primrec print_tokens :: "token list \<Rightarrow> printer \<Rightarrow> printer outcome" where
  "print_tokens [] p = Done p"
| "print_tokens (t # ts) p = bind_outcome (print_token t p) (print_tokens ts)"

definition in_broken_group :: "printer \<Rightarrow> bool" where
  "in_broken_group p \<longleftrightarrow> (if pr_frames p = [] then False else last (pr_frames p))"

definition open_group :: "break_mode \<Rightarrow> int \<Rightarrow> printer \<Rightarrow> printer" where
  "open_group m w p = p\<lparr>pr_frames := pr_frames p @ [w \<ge> pr_space p \<and> m = Consistent]\<rparr>"

definition close_group :: "printer \<Rightarrow> printer" where
  "close_group p = p\<lparr>pr_frames := butlast (pr_frames p)\<rparr>"

fun layout :: "int \<Rightarrow> doc list \<Rightarrow> printer \<Rightarrow> printer outcome" where
  "layout i [] p = Done p"
| "layout i (DText s m # ds) p =
     bind_outcome (if should_print m (in_broken_group p) then print_string s p else Done p) (layout i ds)"
| "layout i (DBreak # ds) p =
     layout i ds (if in_broken_group p \<or> lead ds \<ge> pr_space p then print_break (p\<lparr>pr_print_indent := i\<rparr>) else p)"
| "layout i (DForce # ds) p = layout i ds (p\<lparr>pr_pending_break := True\<rparr>)"
| "layout i (DIndent n # ds) p = layout (i + n) ds p"
| "layout i (DGroup m es # ds) p =
     bind_outcome (layout i es (open_group m (width es) p)) (\<lambda>p. layout (indent_after i es) ds (close_group p))"

lemma print_tokens_append: "print_tokens (ts @ us) p = bind_outcome (print_tokens ts p) (print_tokens us)"
proof (induction ts arbitrary: p)
  case (Cons t ts)
  then show ?case by (cases "print_token t p") simp_all
qed simp

lemma print_tokens_toks: "print_tokens (toks i ds) p = layout i ds p"
proof (induction i ds p rule: layout.induct)
  case (6 i m es ds p)
  then show ?case
    by (cases "layout i es (open_group m (width es) p)")
      (simp_all add: print_tokens_append bind_outcome_assoc print_token_def open_group_def close_group_def Let_def)
next
  case (2 i s m ds p)
  then have "print_tokens (toks i ds) = layout i ds" by (intro ext) auto
  then show ?case by (simp add: print_token_def in_broken_group_def Let_def)
next
  case (3 i ds p)
  then show ?case by (auto simp: print_token_def in_broken_group_def Let_def split: if_splits)
qed (simp_all add: print_token_def)

text \<open>What printing reads of a printer, and all it changes.\<close>

definition view :: "printer \<Rightarrow> str \<times> int \<times> int \<times> bool list \<times> bool" where
  "view p = (pr_output p, pr_space p, pr_print_indent p, pr_frames p, pr_pending_break p)"

definition viewed :: "printer outcome \<Rightarrow> (str \<times> int \<times> int \<times> bool list \<times> bool) outcome" where
  "viewed m = bind_outcome m (\<lambda>p. Done (view p))"

lemma viewed_simps [simp]: "viewed (Done p) = Done (view p)" "viewed Panic = Panic"
  by (simp_all add: viewed_def)

lemma view_print_break: "view p = view q \<Longrightarrow> view (print_break p) = view (print_break q)"
  by (simp add: view_def print_break_def)

definition print_trimmed :: "str \<Rightarrow> printer \<Rightarrow> printer outcome" where
  "print_trimmed s p =
     (let s = (if \<not> line_dirty p then trim_start_matches is_space s
               else if ends_with_str (pr_output p) '' '' then trim_start_matches (\<lambda>c. c = CHR '' '') s
               else s)
      in if s = [] then Done p
         else bind_outcome (print_indent p) (\<lambda>p.
           Done (p\<lparr>pr_output := pr_output p @ s, pr_space := pr_space p - int (length s)\<rparr>)))"

lemma print_string_eq: "print_string s p = print_trimmed s (if pr_pending_break p then print_break p else p)"
  by (simp add: print_string_def print_trimmed_def Let_def)

lemma viewed_print_trimmed:
  assumes "view p = view q"
  shows "viewed (print_trimmed s p) = viewed (print_trimmed s q)"
proof -
  have f: "pr_output p = pr_output q" "pr_space p = pr_space q" "pr_print_indent p = pr_print_indent q"
    "pr_frames p = pr_frames q" "pr_pending_break p = pr_pending_break q"
    using assms by (simp_all add: view_def)
  then have d: "line_dirty p = line_dirty q" by (simp add: line_dirty_def)
  have i: "viewed (bind_outcome (print_indent p) (\<lambda>p. Done (p\<lparr>pr_output := pr_output p @ t, pr_space := pr_space p - n\<rparr>))) =
      viewed (bind_outcome (print_indent q) (\<lambda>p. Done (p\<lparr>pr_output := pr_output p @ t, pr_space := pr_space p - n\<rparr>)))" for t n
    by (simp add: print_indent_def d f view_def)
  show ?thesis unfolding print_trimmed_def d f Let_def using assms i by simp
qed

lemma viewed_print_string:
  assumes "view p = view q"
  shows "viewed (print_string s p) = viewed (print_string s q)"
proof -
  have "pr_pending_break p = pr_pending_break q" using assms by (simp add: view_def)
  then show ?thesis
    using viewed_print_trimmed [OF view_print_break [OF assms]] viewed_print_trimmed [OF assms]
    by (simp add: print_string_eq)
qed

lemma viewed_print_token:
  assumes "view p = view q"
  shows "viewed (print_token t p) = viewed (print_token t q)"
proof (cases t)
  case (TText s m)
  with assms viewed_print_string [OF assms, of s] show ?thesis
    by (auto simp: print_token_def view_def Let_def)
next
  case (TBreak n i)
  with assms show ?thesis by (auto simp: print_token_def view_def Let_def print_break_def)
qed (use assms in \<open>auto simp: print_token_def view_def Let_def\<close>)

lemma viewed_bind:
  "viewed m = viewed m' \<Longrightarrow> (\<And>p q. view p = view q \<Longrightarrow> viewed (f p) = viewed (g q)) \<Longrightarrow>
   viewed (bind_outcome m f) = viewed (bind_outcome m' g)"
  by (cases m; cases m') auto

lemma viewed_print_tokens: "view p = view q \<Longrightarrow> viewed (print_tokens ts p) = viewed (print_tokens ts q)"
  by (induction ts arbitrary: p q) (auto intro!: viewed_bind viewed_print_token)

lemma print_token_keeps: "print_token t p = Done q \<Longrightarrow> pr_tokens q = pr_tokens p"
  by (cases t) (auto simp: print_token_def print_string_def print_break_def print_indent_def Let_def bind_outcome_Done
      split: if_splits)

lemma print_loop_tokens:
  "rg_inner (tk_tokens (pr_tokens p)) = ts \<Longrightarrow> viewed (print_loop (length ts) p) = viewed (print_tokens ts p)"
proof (induction ts arbitrary: p)
  case (Cons t ts)
  obtain b where b: "tokens_pop_front (pr_tokens p) = (Some t, b)" "rg_inner (tk_tokens b) = ts"
    using Cons.prems by (auto simp: tokens_pop_front_def ring_pop_front_def Let_def)
  have e: "\<not> tokens_is_empty (pr_tokens p)"
    using Cons.prems by (simp add: tokens_is_empty_def ring_is_empty_def)
  let ?p = "p\<lparr>pr_tokens := b\<rparr>"
  have "viewed (print_loop (length (t # ts)) p) = viewed (bind_outcome (print_token t ?p) (print_loop (length ts)))"
    by (simp add: e print_first_def b(1))
  also have "\<dots> = viewed (bind_outcome (print_token t ?p) (print_tokens ts))"
  proof (cases "print_token t ?p")
    case (Done q)
    with print_token_keeps [OF Done] b(2) Cons.IH [of q] show ?thesis by simp
  qed simp
  also have "\<dots> = viewed (bind_outcome (print_token t p) (print_tokens ts))"
    by (intro viewed_bind viewed_print_token viewed_print_tokens) (simp_all add: view_def)
  finally show ?case by simp
qed simp

lemma output_viewed: "bind_outcome m (\<lambda>p. Done (pr_output p)) = bind_outcome (viewed m) (\<lambda>v. Done (fst v))"
  by (cases m) (simp_all add: view_def)

text \<open>The text a document is printed as.\<close>

definition pretty :: "trivia list \<Rightarrow> int \<Rightarrow> int \<Rightarrow> doc list \<Rightarrow> str outcome" where
  "pretty trivia space indent ds = bind_outcome (scan_docs ds (printer_new trivia space indent)) printer_eof"

lemma pretty_layout:
  "pretty trivia space indent ds =
     bind_outcome (layout indent ds (printer_new trivia space indent)) (\<lambda>p. Done (pr_output p))"
proof -
  let ?p = "printer_new trivia space indent"
  have b: "pr_tokens ?p = buffer_of [] None []" "marks_ok [] None []" "pr_scan_indent ?p = indent"
    by (simp_all add: printer_new_def tokens_new_def ring_new_def buffer_of_def marks_ok_def)
  let ?q = "scanned ?p (buffer_of (toks indent ds) (last_break_after 0 None ds) []) (indent_after indent ds)"
  have s: "scan_docs ds ?p = Done ?q"
    using scan_docs_spec [OF b(1,2), of ds] by (simp add: b(3) bump_break_def bump_begin_def)
  have "viewed (print_loop (ring_len (tk_tokens (pr_tokens ?q))) ?q) = viewed (print_tokens (toks indent ds) ?q)"
    using print_loop_tokens [of ?q] by (simp add: scanned_def buffer_of_def ring_len_def)
  also have "\<dots> = viewed (print_tokens (toks indent ds) ?p)"
    by (rule viewed_print_tokens) (simp add: view_def scanned_def)
  finally show ?thesis
    by (simp add: pretty_def s printer_eof_def output_viewed print_tokens_toks)
qed

text \<open>C25. Buffering decides as the layout does: scanning a document into tokens, with lengths added
  up as the texts arrive, and printing the buffer gives what the reference layout gives, which
  breaks a group by the width of its contents and a break by the width up to the next one.\<close>

theorem pretty_is_layout:
  "pretty trivia space indent ds =
     bind_outcome (layout indent ds (printer_new trivia space indent)) (\<lambda>p. Done (pr_output p))"
  by (rule pretty_layout)

subsection \<open>Nothing is lost\<close>

definition ink :: "str \<Rightarrow> str" where
  "ink s = filter (\<lambda>c. \<not> is_space c) s"

text \<open>The non-blank characters of a document, by whether each group around a text is broken.\<close>

fun variants :: "bool \<Rightarrow> doc list \<Rightarrow> str set" where
  "variants b [] = {[]}"
| "variants b (DText s m # ds) = (if should_print m b then (@) (ink s) ` variants b ds else variants b ds)"
| "variants b (DGroup m es # ds) = (\<Union>u \<in> variants False es \<union> variants True es. (@) u ` variants b ds)"
| "variants b (DBreak # ds) = variants b ds"
| "variants b (DForce # ds) = variants b ds"
| "variants b (DIndent n # ds) = variants b ds"

fun indents_ok :: "int \<Rightarrow> doc list \<Rightarrow> bool" where
  "indents_ok i [] = True"
| "indents_ok i (DText s m # ds) = indents_ok i ds"
| "indents_ok i (DBreak # ds) \<longleftrightarrow> 0 \<le> i \<and> indents_ok i ds"
| "indents_ok i (DForce # ds) = indents_ok i ds"
| "indents_ok i (DIndent n # ds) = indents_ok (i + n) ds"
| "indents_ok i (DGroup m es # ds) \<longleftrightarrow> indents_ok i es \<and> indents_ok (indent_after i es) ds"

lemma ink_simps [simp]: "ink [] = []" "ink (s @ t) = ink s @ ink t" "ink (replicate n CHR '' '') = []"
  "ink [NEWLINE] = []"
  by (simp_all add: ink_def is_space_def NEWLINE_def)

lemma ink_trim: "(\<And>c. P c \<Longrightarrow> is_space c) \<Longrightarrow> ink (trim_start_matches P s) = ink s"
  by (induction s) (auto simp: ink_def trim_start_matches_def)

lemma print_break_fields [simp]:
  "ink (pr_output (print_break p)) = ink (pr_output p)" "pr_frames (print_break p) = pr_frames p"
  "pr_print_indent (print_break p) = pr_print_indent p" "\<not> pr_pending_break (print_break p)"
  by (simp_all add: print_break_def)

lemma print_trimmed_ink:
  assumes "0 \<le> pr_print_indent p"
  obtains q where "print_trimmed s p = Done q" "ink (pr_output q) = ink (pr_output p) @ ink s"
    "pr_frames q = pr_frames p" "pr_print_indent q = pr_print_indent p"
proof -
  let ?s = "if \<not> line_dirty p then trim_start_matches is_space s
    else if ends_with_str (pr_output p) '' '' then trim_start_matches (\<lambda>c. c = CHR '' '') s else s"
  have "ink (trim_start_matches is_space s) = ink s" "ink (trim_start_matches (\<lambda>c. c = CHR '' '') s) = ink s"
    by (rule ink_trim; simp add: is_space_def)+
  then have i: "ink ?s = ink s" by simp
  obtain q where q: "print_indent p = Done q" "ink (pr_output q) = ink (pr_output p)" "pr_frames q = pr_frames p"
    "pr_print_indent q = pr_print_indent p"
    using assms by (cases "line_dirty p") (auto simp: print_indent_def INDENT_def)
  obtain u where u: "u = ?s" by blast
  have t: "print_trimmed s p = (if u = [] then Done p
      else Done (q\<lparr>pr_output := pr_output q @ u, pr_space := pr_space q - int (length u)\<rparr>))"
    unfolding u by (simp add: print_trimmed_def Let_def q)
  have iu: "ink u = ink s" using i u by simp
  show ?thesis by (cases "u = []") (use that t iu q in force)+
qed

lemma print_string_ink:
  assumes "0 \<le> pr_print_indent p"
  obtains q where "print_string s p = Done q" "ink (pr_output q) = ink (pr_output p) @ ink s"
    "pr_frames q = pr_frames p" "pr_print_indent q = pr_print_indent p"
proof -
  let ?p = "if pr_pending_break p then print_break p else p"
  have "0 \<le> pr_print_indent ?p" "ink (pr_output ?p) = ink (pr_output p)" "pr_frames ?p = pr_frames p"
    "pr_print_indent ?p = pr_print_indent p" using assms by simp_all
  with print_trimmed_ink [of ?p s] that show ?thesis by (metis print_string_eq)
qed

lemma layout_ink:
  "indents_ok i ds \<Longrightarrow> 0 \<le> pr_print_indent p \<Longrightarrow>
   \<exists>q v. layout i ds p = Done q \<and> v \<in> variants (in_broken_group p) ds \<and> ink (pr_output q) = ink (pr_output p) @ v \<and>
     pr_frames q = pr_frames p \<and> 0 \<le> pr_print_indent q"
proof (induction i ds p rule: layout.induct)
  case (2 i s m ds p)
  show ?case
  proof (cases "should_print m (in_broken_group p)")
    case True
    obtain q where q: "print_string s p = Done q" "ink (pr_output q) = ink (pr_output p) @ ink s"
      "pr_frames q = pr_frames p" "pr_print_indent q = pr_print_indent p"
      using print_string_ink [OF 2(3)] by blast
    then have g: "in_broken_group q = in_broken_group p" by (simp add: in_broken_group_def)
    have "\<exists>r v. layout i ds q = Done r \<and> v \<in> variants (in_broken_group q) ds \<and>
        ink (pr_output r) = ink (pr_output q) @ v \<and> pr_frames r = pr_frames q \<and> 0 \<le> pr_print_indent r"
      by (rule "2.IH") (use 2(2,3) q(4) in simp_all)
    then obtain r v where "layout i ds q = Done r" "v \<in> variants (in_broken_group q) ds"
      "ink (pr_output r) = ink (pr_output q) @ v" "pr_frames r = pr_frames q" "0 \<le> pr_print_indent r"
      by blast
    with True q g show ?thesis by simp
  next
    case False
    with 2 show ?thesis by simp
  qed
next
  case (3 i ds p)
  let ?p = "if in_broken_group p \<or> lead ds \<ge> pr_space p then print_break (p\<lparr>pr_print_indent := i\<rparr>) else p"
  have "0 \<le> pr_print_indent ?p" "pr_frames ?p = pr_frames p" "ink (pr_output ?p) = ink (pr_output p)"
    using 3(2,3) by auto
  with 3 show ?case by (auto simp: in_broken_group_def)
next
  case (6 i m es ds p)
  obtain q u where q: "layout i es (open_group m (width es) p) = Done q"
    "u \<in> variants (in_broken_group (open_group m (width es) p)) es" "ink (pr_output q) = ink (pr_output p) @ u"
    "pr_frames q = pr_frames (open_group m (width es) p)" "0 \<le> pr_print_indent q"
    using "6.IH"(1) 6(3,4) by (auto simp: open_group_def)
  let ?r = "close_group q"
  have r: "pr_frames ?r = pr_frames p" "in_broken_group ?r = in_broken_group p" "ink (pr_output ?r) = ink (pr_output p) @ u"
    "0 \<le> pr_print_indent ?r"
    using q by (auto simp: close_group_def open_group_def in_broken_group_def)
  obtain t v where t: "layout (indent_after i es) ds ?r = Done t" "v \<in> variants (in_broken_group p) ds"
    "ink (pr_output t) = ink (pr_output ?r) @ v" "pr_frames t = pr_frames p" "0 \<le> pr_print_indent t"
    using "6.IH"(2) [of q] 6(3) r by auto
  have "u \<in> variants False es \<union> variants True es" using q(2) by (cases "in_broken_group (open_group m (width es) p)") auto
  with q(1) t r(3) show ?case by auto
qed (auto simp: in_broken_group_def)

lemma pretty_ink:
  assumes "indents_ok indent ds"
  shows "\<exists>out. pretty trivia space indent ds = Done out \<and> ink out \<in> variants False ds"
proof -
  obtain q v where "layout indent ds (printer_new trivia space indent) = Done q"
    "v \<in> variants (in_broken_group (printer_new trivia space indent)) ds" "ink (pr_output q) = v"
    using layout_ink [OF assms, of "printer_new trivia space indent"] by (auto simp: printer_new_def)
  then show ?thesis by (auto simp: pretty_layout in_broken_group_def printer_new_def)
qed

text \<open>C28. The printer keeps all of the code: it always finishes, provided no break is indented below
  zero, and its output has the non-blank characters of the document's texts in their order, those
  that depend on their group's decision, like a trailing comma, by that decision alone.\<close>

theorem pretty_keeps_text:
  assumes "indents_ok indent ds"
  shows "\<exists>out. pretty trivia space indent ds = Done out \<and> ink out \<in> variants False ds"
  using assms by (rule pretty_ink)

subsection \<open>What fits stays on its line, what does not breaks\<close>

text \<open>The states the layout of a document passes through: \<open>reaches i ds p j es q\<close> says that from \<open>ds\<close> at \<open>p\<close> it comes
  to \<open>es\<close>, a rest of the document or of a group anywhere in it, with the printer at \<open>q\<close>.\<close>

inductive reaches :: "int \<Rightarrow> doc list \<Rightarrow> printer \<Rightarrow> int \<Rightarrow> doc list \<Rightarrow> printer \<Rightarrow> bool" where
  reaches_here: "reaches i ds p i ds p"
| reaches_text: "(if should_print m (in_broken_group p) then print_string s p else Done p) = Done q \<Longrightarrow>
    reaches i ds q j es r \<Longrightarrow> reaches i (DText s m # ds) p j es r"
| reaches_break: "reaches i ds (if in_broken_group p \<or> lead ds \<ge> pr_space p then print_break (p\<lparr>pr_print_indent := i\<rparr>) else p) j es r \<Longrightarrow>
    reaches i (DBreak # ds) p j es r"
| reaches_force: "reaches i ds (p\<lparr>pr_pending_break := True\<rparr>) j es r \<Longrightarrow> reaches i (DForce # ds) p j es r"
| reaches_indent: "reaches (i + n) ds p j es r \<Longrightarrow> reaches i (DIndent n # ds) p j es r"
| reaches_past: "layout i es' (open_group m (width es') p) = Done q \<Longrightarrow>
    reaches (indent_after i es') ds (close_group q) j es r \<Longrightarrow> reaches i (DGroup m es' # ds) p j es r"
| reaches_inside: "reaches i es (open_group m (width es) p) j fs r \<Longrightarrow> reaches i (DGroup m es # ds) p j fs r"

text \<open>Only the last break of a line looks at what comes after a piece of a document; its output stands whatever
  follows.\<close>

lemma print_string_appends:
  assumes "print_string s p = Done q"
  obtains x where "pr_output q = pr_output p @ x" "pr_frames q = pr_frames p"
  using assms by (auto simp: print_string_def print_break_def print_indent_def Let_def bind_outcome_Done split: if_splits)

lemma layout_appends: "layout i ds p = Done q \<Longrightarrow> (\<exists>x. pr_output q = pr_output p @ x) \<and> pr_frames q = pr_frames p"
proof (induction i ds p arbitrary: q rule: layout.induct)
  case (2 i s m ds p)
  show ?case
  proof (cases "should_print m (in_broken_group p)")
    case True
    with 2(2) obtain r where r: "print_string s p = Done r" "layout i ds r = Done q" by (auto simp: bind_outcome_Done)
    obtain x where "pr_output r = pr_output p @ x" "pr_frames r = pr_frames p" by (rule print_string_appends [OF r(1)])
    moreover have "(\<exists>x. pr_output q = pr_output r @ x) \<and> pr_frames q = pr_frames r"
      by (rule "2.IH" [OF r(2)])
    ultimately show ?thesis by auto
  next
    case False
    with 2 show ?thesis by simp
  qed
next
  case (3 i ds p)
  then show ?case by (fastforce simp: print_break_def split: if_splits)
next
  case (6 i m es ds p)
  then obtain r where r: "layout i es (open_group m (width es) p) = Done r"
    "layout (indent_after i es) ds (close_group r) = Done q" by (auto simp: bind_outcome_Done)
  from "6.IH"(1) [OF r(1)] obtain x where x: "pr_output r = pr_output p @ x" "pr_frames (close_group r) = pr_frames p"
    by (auto simp: open_group_def close_group_def)
  from "6.IH"(2) [OF r(2)] obtain y where "pr_output q = pr_output r @ y" "pr_frames q = pr_frames (close_group r)"
    by (auto simp: close_group_def)
  with x show ?case by simp
qed auto

lemma layout_reached:
  "reaches i ds p j (DGroup m es # fs) r \<Longrightarrow> layout i ds p = Done q \<Longrightarrow>
   \<exists>t rest. layout j es (open_group m (width es) r) = Done t \<and> pr_output q = pr_output t @ rest"
proof (induction i ds p j "DGroup m es # fs" r arbitrary: q rule: reaches.induct)
  case (reaches_here i p)
  then obtain t where t: "layout i es (open_group m (width es) p) = Done t"
    "layout (indent_after i es) fs (close_group t) = Done q" by (auto simp: bind_outcome_Done)
  then show ?case using layout_appends [OF t(2)] by (auto simp: close_group_def)
next
  case (reaches_past i es' m' p t ds j r)
  from reaches_past(4) show ?case by (intro reaches_past(3)) (simp add: reaches_past(1))
next
  case (reaches_inside i es' m' p j r ds)
  then obtain t where t: "layout i es' (open_group m' (width es') p) = Done t"
    "layout (indent_after i es') ds (close_group t) = Done q" by (auto simp: bind_outcome_Done)
  from reaches_inside(2) [OF t(1)] layout_appends [OF t(2)] show ?case by (auto simp: close_group_def)
qed (auto simp: bind_outcome_Done)

text \<open>The texts that are printed when nothing breaks have no newline, and nothing forces a break.\<close>

fun one_line :: "doc list \<Rightarrow> bool" where
  "one_line [] = True"
| "one_line (DText s m # ds) \<longleftrightarrow> (m \<noteq> BreakOnly \<longrightarrow> NEWLINE \<notin> set s) \<and> one_line ds"
| "one_line (DForce # ds) = False"
| "one_line (DGroup m es # ds) \<longleftrightarrow> one_line es \<and> one_line ds"
| "one_line (_ # ds) = one_line ds"

lemma width_nonneg: "0 \<le> width ds"
  by (induction ds rule: width.induct) (auto simp: MARGIN_def)

lemma lead_le_width: "lead ds \<le> width ds"
  by (induction ds rule: width.induct) (auto simp: MARGIN_def intro: add_increasing2 width_nonneg)

text \<open>The columns a piece of text may take: those of its indentation where it starts a line, and its width.\<close>

definition indentation :: "printer \<Rightarrow> int" where
  "indentation p = (if line_dirty p then 0 else max 0 (pr_print_indent p * INDENT))"

definition calm :: "printer \<Rightarrow> bool" where
  "calm p \<longleftrightarrow> \<not> in_broken_group p \<and> \<not> pr_pending_break p"

definition stays :: "printer \<Rightarrow> printer \<Rightarrow> int \<Rightarrow> bool" where
  "stays p q n \<longleftrightarrow> (\<exists>out used. pr_output q = pr_output p @ out \<and> NEWLINE \<notin> set out \<and> 0 \<le> used \<and> used \<le> n \<and>
     int (length out) \<le> indentation p + used \<and> pr_space q = pr_space p - used) \<and>
     pr_frames q = pr_frames p \<and> pr_print_indent q = pr_print_indent p \<and> \<not> pr_pending_break q"

lemma stays_refl: "\<not> pr_pending_break p \<Longrightarrow> stays p p 0"
  by (auto simp: stays_def indentation_def)

lemma stays_calm: "stays p q n \<Longrightarrow> calm p \<Longrightarrow> calm q"
  by (auto simp: stays_def calm_def in_broken_group_def)

lemma stays_space: "stays p q n \<Longrightarrow> w < pr_space p - n \<Longrightarrow> w < pr_space q"
  by (auto simp: stays_def)

lemma stays_trans:
  assumes "stays p q n" "stays q r k"
  shows "stays p r (n + k)"
proof -
  obtain a u where a: "pr_output q = pr_output p @ a" "NEWLINE \<notin> set a" "0 \<le> u" "u \<le> n"
    "int (length a) \<le> indentation p + u" "pr_space q = pr_space p - u" "pr_print_indent q = pr_print_indent p"
    using assms(1) by (auto simp: stays_def)
  obtain b v where b: "pr_output r = pr_output q @ b" "NEWLINE \<notin> set b" "0 \<le> v" "v \<le> k"
    "int (length b) \<le> indentation q + v" "pr_space r = pr_space q - v"
    using assms(2) by (auto simp: stays_def)
  have "indentation q \<le> indentation p" "a \<noteq> [] \<Longrightarrow> indentation q = 0"
    using a(1,2,7) by (auto simp: indentation_def line_dirty_def dest: last_in_set split: if_splits)
  then have "int (length (a @ b)) \<le> indentation p + (u + v)" using a(3,5) b(3,5) by (cases "a = []") auto
  then have "\<exists>out used. pr_output r = pr_output p @ out \<and> NEWLINE \<notin> set out \<and> 0 \<le> used \<and> used \<le> n + k \<and>
      int (length out) \<le> indentation p + used \<and> pr_space r = pr_space p - used"
    using a b by (intro exI [of _ "a @ b"] exI [of _ "u + v"]) auto
  with assms show ?thesis by (simp add: stays_def)
qed

lemma print_string_stays:
  assumes "print_string s p = Done q" "calm p" "NEWLINE \<notin> set s"
  shows "stays p q (int (length s))"
proof -
  let ?s = "if \<not> line_dirty p then trim_start_matches is_space s
    else if ends_with_str (pr_output p) '' '' then trim_start_matches (\<lambda>c. c = CHR '' '') s else s"
  obtain u where u: "u = ?s" by blast
  have l: "length u \<le> length s" "set u \<subseteq> set s"
    unfolding u trim_start_matches_def by (auto dest: set_dropWhileD simp: length_dropWhile_le)
  have e: "print_string s p = (if u = [] then Done p else bind_outcome (print_indent p) (\<lambda>p.
      Done (p\<lparr>pr_output := pr_output p @ u, pr_space := pr_space p - int (length u)\<rparr>)))"
    unfolding u using assms(2) by (simp add: print_string_def Let_def calm_def)
  show ?thesis
  proof (cases "u = []")
    case True
    with e assms(1,2) show ?thesis by (auto simp: stays_def calm_def indentation_def)
  next
    case False
    let ?pad = "if line_dirty p then [] else replicate (nat (pr_print_indent p * INDENT)) CHR '' ''"
    have q: "q = p\<lparr>pr_output := pr_output p @ ?pad @ u, pr_space := pr_space p - int (length u)\<rparr>"
      using e assms(1) False by (auto simp: print_indent_def split: if_splits)
    have pad: "NEWLINE \<notin> set ?pad" "int (length ?pad) = indentation p" by (auto simp: NEWLINE_def indentation_def)
    have "\<exists>out used. pr_output q = pr_output p @ out \<and> NEWLINE \<notin> set out \<and> 0 \<le> used \<and> used \<le> int (length s) \<and>
        int (length out) \<le> indentation p + used \<and> pr_space q = pr_space p - used"
      using l pad assms(3) by (intro exI [of _ "?pad @ u"] exI [of _ "int (length u)"]) (auto simp: q)
    with assms(2) show ?thesis by (simp add: stays_def q calm_def)
  qed
qed

lemma layout_stays:
  "layout i ds p = Done q \<Longrightarrow> calm p \<Longrightarrow> width ds < pr_space p \<Longrightarrow> one_line ds \<Longrightarrow> stays p q (width ds)"
proof (induction i ds p arbitrary: q rule: layout.induct)
  case (1 i p)
  then show ?case by (simp add: stays_refl calm_def)
next
  case (2 i s m ds p)
  show ?case
  proof (cases "should_print m (in_broken_group p)")
    case True
    then have m: "m \<noteq> BreakOnly" using 2(3) by (auto simp: should_print_def calm_def)
    obtain r where r: "print_string s p = Done r" "layout i ds r = Done q" using 2(2) True by (auto simp: bind_outcome_Done)
    have s: "stays p r (int (length s))" using print_string_stays [OF r(1) 2(3)] 2(5) m by simp
    have "stays r q (width ds)"
      by (rule "2.IH" [OF r(2)]) (use r True 2(4,5) m stays_calm [OF s 2(3)] stays_space [OF s] in simp_all)
    from stays_trans [OF s this] m show ?thesis by simp
  next
    case False
    then have "m = BreakOnly" using 2(3) by (cases m) (auto simp: should_print_def calm_def)
    with False 2 show ?thesis by auto
  qed
next
  case (3 i ds p)
  then show ?case using lead_le_width [of ds] by (auto simp: calm_def)
next
  case (6 i m es ds p)
  obtain t where t: "layout i es (open_group m (width es) p) = Done t"
    "layout (indent_after i es) ds (close_group t) = Done q" using 6(3) by (auto simp: bind_outcome_Done)
  have w: "width es < pr_space p" using 6(5) width_nonneg [of ds] by simp
  then have c: "calm (open_group m (width es) p)" using 6(4) by (simp add: calm_def open_group_def in_broken_group_def)
  have "stays (open_group m (width es) p) t (width es)"
    using "6.IH"(1) [OF t(1) c] w 6(6) by (simp add: open_group_def)
  then have s: "stays p (close_group t) (width es)"
    by (auto simp: stays_def open_group_def close_group_def indentation_def line_dirty_def)
  have "stays (close_group t) q (width ds)"
    by (rule "6.IH"(2) [OF t(2)]) (use 6(5,6) stays_calm [OF s 6(4)] stays_space [OF s] t(1) in simp_all)
  from stays_trans [OF s this] show ?case by simp
qed auto

text \<open>The breaks of a group itself, not of the groups inside it.\<close>

fun own_breaks :: "doc list \<Rightarrow> nat" where
  "own_breaks [] = 0"
| "own_breaks (DBreak # ds) = Suc (own_breaks ds)"
| "own_breaks (_ # ds) = own_breaks ds"

lemma layout_breaks:
  "layout i ds p = Done q \<Longrightarrow> in_broken_group p \<Longrightarrow>
   \<exists>x. pr_output q = pr_output p @ x \<and> own_breaks ds \<le> count_list x NEWLINE"
proof (induction i ds p arbitrary: q rule: layout.induct)
  case (2 i s m ds p)
  show ?case
  proof (cases "should_print m (in_broken_group p)")
    case True
    with 2(2) obtain r where r: "print_string s p = Done r" "layout i ds r = Done q" by (auto simp: bind_outcome_Done)
    obtain x where x: "pr_output r = pr_output p @ x" "pr_frames r = pr_frames p" by (rule print_string_appends [OF r(1)])
    have "\<exists>y. pr_output q = pr_output r @ y \<and> own_breaks ds \<le> count_list y NEWLINE"
      by (rule "2.IH" [OF r(2)]) (use x(2) 2(3) in \<open>auto simp: in_broken_group_def split: if_splits\<close>)
    with x(1) show ?thesis by fastforce
  next
    case False
    with 2 show ?thesis by simp
  qed
next
  case (3 i ds p)
  let ?r = "print_break (p\<lparr>pr_print_indent := i\<rparr>)"
  have r: "in_broken_group ?r = in_broken_group p" by (simp add: in_broken_group_def print_break_def)
  have "\<exists>y. pr_output q = pr_output ?r @ y \<and> own_breaks ds \<le> count_list y NEWLINE"
    using "3.IH" [of q] 3(2,3) r by simp
  then show ?case by (fastforce simp: print_break_def)
next
  case (6 i m es ds p)
  obtain t where t: "layout i es (open_group m (width es) p) = Done t"
    "layout (indent_after i es) ds (close_group t) = Done q" using 6(3) by (auto simp: bind_outcome_Done)
  from layout_appends [OF t(1)] obtain x where x: "pr_output t = pr_output p @ x" "pr_frames (close_group t) = pr_frames p"
    by (auto simp: open_group_def close_group_def)
  have "\<exists>y. pr_output q = pr_output (close_group t) @ y \<and> own_breaks ds \<le> count_list y NEWLINE"
    by (rule "6.IH"(2) [OF t(2)]) (use t x(2) 6(4) in \<open>auto simp: in_broken_group_def split: if_splits\<close>)
  with x(1) show ?case by (fastforce simp: close_group_def)
next
  case (4 i ds p)
  have "in_broken_group (p\<lparr>pr_pending_break := True\<rparr>) = in_broken_group p" by (simp add: in_broken_group_def)
  with 4 show ?case by simp
qed auto


definition call_doc :: "str \<Rightarrow> doc list" where
  "call_doc x = [DText ''f('' Always, DIndent 1, DBreak, DText x Always, DText '','' BreakOnly, DIndent (- 1), DBreak,
     DText '')'' Always]"

text \<open>A statement with a call: after its first four columns the line has a space of 56, too little for a call of
  that width and enough for one a column narrower.\<close>

definition stmt_doc :: "nat \<Rightarrow> doc list" where
  "stmt_doc n = [DText ''x = '' Always, DGroup Consistent (call_doc (replicate n CHR ''a''))]"

definition stmt_printer :: printer where
  "stmt_printer = (printer_new [] 60 0)\<lparr>pr_output := ''x = '', pr_space := 56\<rparr>"

lemma stmt_reaches:
  "reaches 0 (stmt_doc n) (printer_new [] 60 0) 0 [DGroup Consistent (call_doc (replicate n CHR ''a''))] stmt_printer"
  unfolding stmt_doc_def
  by (rule reaches_text [OF _ reaches_here])
    (simp add: stmt_printer_def printer_new_def print_string_def print_indent_def should_print_def line_dirty_def
      in_broken_group_def ends_with_str_def trim_start_matches_def Let_def MIN_SPACE_def)

lemma stmt_prints: "\<exists>out. pretty [] 60 0 (stmt_doc n) = Done out"
  using pretty_ink [of 0 "stmt_doc n"] by (auto simp: stmt_doc_def call_doc_def)

lemma call_facts:
  "width (call_doc (replicate n CHR ''a'')) = int n + 3" "own_breaks (call_doc x) = 2"
  "one_line (call_doc (replicate n CHR ''a''))" "pr_space stmt_printer = 56" "pr_output stmt_printer = ''x = ''"
  "\<not> pr_pending_break stmt_printer" "indentation stmt_printer = 0"
  by (auto simp: call_doc_def stmt_printer_def printer_new_def indentation_def line_dirty_def NEWLINE_def)


theorem pretty_keeps_text_witness:
  "\<exists>out. pretty [] 10 0 [DGroup Consistent (call_doc ''argument'')] = Done out \<and>
     ink out \<in> variants False [DGroup Consistent (call_doc ''argument'')]"
  by (rule pretty_keeps_text) (simp add: call_doc_def)

end
