(* ===== verification/Trivia_Lexer.thy ===== *)
theory Trivia_Lexer
  imports Pretty_Printer
begin

text \<open>
  The lexer of \<^verbatim>\<open>trivia.rs\<close>: it passes over the code of a source text and yields its comments and
  white space.  A source made of pieces (comments, white space, literals, code) gives back exactly
  its comments and white space, at their positions; whatever the source, what is yielded are slices
  of it in order.  As in the printer, the text is ASCII.
\<close>

subsection \<open>The lexer\<close>

record lexer =
  lx_input :: str
  lx_cursor :: nat
  lx_line :: nat
  lx_column :: nat

definition lexer_new :: "str \<Rightarrow> lexer" where
  "lexer_new input = \<lparr>lx_input = input, lx_cursor = 0, lx_line = 1, lx_column = 0\<rparr>"

definition rest :: "lexer \<Rightarrow> str" where
  "rest l = drop (lx_cursor l) (lx_input l)"

definition peek :: "lexer \<Rightarrow> char option" where
  "peek l = (case rest l of [] \<Rightarrow> None | c # _ \<Rightarrow> Some c)"

definition peek_second :: "lexer \<Rightarrow> char option" where
  "peek_second l = (case rest l of _ # c # _ \<Rightarrow> Some c | _ \<Rightarrow> None)"

definition bump :: "lexer \<Rightarrow> lexer" where
  "bump l =
     (case peek l of
        None \<Rightarrow> l
      | Some c \<Rightarrow>
          (let l = l\<lparr>lx_cursor := lx_cursor l + 1\<rparr>
           in if c = NEWLINE then l\<lparr>lx_line := lx_line l + 1, lx_column := 0\<rparr>
              else l\<lparr>lx_column := lx_column l + 1\<rparr>))"

definition current_pos :: "lexer \<Rightarrow> line_column" where
  "current_pos l = \<lparr>lc_line = lx_line l, lc_column = lx_column l\<rparr>"

definition left_over :: "lexer \<Rightarrow> nat" where
  "left_over l = length (rest l)"

lemma peek_None_iff: "peek l = None \<longleftrightarrow> left_over l = 0"
  by (auto simp: peek_def left_over_def split: list.splits)

lemma peek_SomeD: "peek l = Some c \<Longrightarrow> 0 < left_over l"
  by (auto simp: peek_def left_over_def split: list.splits)

lemma left_over_bump [simp]: "left_over (bump l) = left_over l - 1"
proof (cases "peek l")
  case None
  then show ?thesis using peek_None_iff [of l] by (simp add: bump_def)
next
  case (Some c)
  then show ?thesis by (simp add: bump_def Let_def left_over_def rest_def)
qed

text \<open>The loop of the scanners that consume a run of characters.\<close>

function bump_while :: "(char \<Rightarrow> bool) \<Rightarrow> lexer \<Rightarrow> lexer" where
  "bump_while P l =
     (case peek l of Some c \<Rightarrow> if P c then bump_while P (bump l) else l | None \<Rightarrow> l)"
  by pat_completeness auto
termination
  by (relation "measure (\<lambda>(_, l). left_over l)") (auto dest: peek_SomeD)

text \<open>The trivia between two states of the lexer.\<close>

definition trivia_of :: "trivia_kind \<Rightarrow> lexer \<Rightarrow> lexer \<Rightarrow> trivia" where
  "trivia_of k l l' =
     \<lparr>tv_start = current_pos l, tv_end = current_pos l',
      tv_content = drop (lx_cursor l) (take (lx_cursor l') (lx_input l)), tv_kind = k\<rparr>"

definition scan_whitespace :: "lexer \<Rightarrow> trivia \<times> lexer" where
  "scan_whitespace l = (let l' = bump_while is_space l in (trivia_of Whitespace l l', l'))"

definition scan_line_comment :: "lexer \<Rightarrow> trivia \<times> lexer" where
  "scan_line_comment l =
     (let l' = bump_while (\<lambda>c. c \<noteq> NEWLINE) (bump (bump l)) in (trivia_of LineComment l l', l'))"

function block_loop :: "nat \<Rightarrow> lexer \<Rightarrow> lexer" where
  "block_loop depth l =
     (if depth = 0 then l
      else if peek l = Some CHR ''/'' \<and> peek_second l = Some CHR ''*'' then block_loop (depth + 1) (bump (bump l))
      else if peek l = Some CHR ''*'' \<and> peek_second l = Some CHR ''/'' then block_loop (depth - 1) (bump (bump l))
      else if peek l = None then l
      else block_loop depth (bump l))"
  by pat_completeness auto
termination
  by (relation "measure (\<lambda>(_, l). left_over l)") (auto dest: peek_SomeD)

definition scan_block_comment :: "lexer \<Rightarrow> trivia \<times> lexer" where
  "scan_block_comment l = (let l' = block_loop 1 (bump (bump l)) in (trivia_of BlockComment l l', l'))"

text \<open>The loop of \<^verbatim>\<open>skip_string\<close> and \<^verbatim>\<open>skip_char\<close>, up to the closing quote.\<close>

function quoted_loop :: "char \<Rightarrow> lexer \<Rightarrow> lexer" where
  "quoted_loop q l =
     (case peek l of
        None \<Rightarrow> l
      | Some c \<Rightarrow>
          if c = q then bump l
          else if c = CHR 0x5C then quoted_loop q (bump (bump l))
          else quoted_loop q (bump l))"
  by pat_completeness auto
termination
  by (relation "measure (\<lambda>(_, l). left_over l)") (auto dest: peek_SomeD)

declare bump_while.simps [simp del] block_loop.simps [simp del] quoted_loop.simps [simp del]

definition skip_string :: "lexer \<Rightarrow> lexer" where
  "skip_string l = quoted_loop CHR 0x22 (bump l)"

definition skip_char :: "lexer \<Rightarrow> lexer" where
  "skip_char l = quoted_loop CHR 0x27 (bump l)"

definition is_alphabetic :: "char \<Rightarrow> bool" where
  "is_alphabetic c \<longleftrightarrow> (let n = (of_char c :: nat) in 65 \<le> n \<and> n \<le> 90 \<or> 97 \<le> n \<and> n \<le> 122)"

definition at_lifetime :: "lexer \<Rightarrow> bool" where
  "at_lifetime l =
     (case drop 1 (rest l) of
        [] \<Rightarrow> False
      | first # chars \<Rightarrow>
          if \<not> (is_alphabetic first \<or> first = CHR ''_'') then False
          else (case chars of [] \<Rightarrow> True | c # _ \<Rightarrow> c \<noteq> CHR 0x27))"

function hashes_loop :: "nat \<Rightarrow> lexer \<Rightarrow> nat \<times> lexer" where
  "hashes_loop n l = (if peek l = Some CHR ''#'' then hashes_loop (n + 1) (bump l) else (n, l))"
  by pat_completeness auto
termination
  by (relation "measure (\<lambda>(_, l). left_over l)") (auto dest: peek_SomeD)

definition closes_raw :: "nat \<Rightarrow> lexer \<Rightarrow> bool" where
  "closes_raw hashes l =
     (let potential_hashes = drop 1 (rest l)
      in if length potential_hashes < hashes then False
         else list_all (\<lambda>i. potential_hashes ! i = CHR ''#'') [0..<hashes])"

function raw_loop :: "nat \<Rightarrow> lexer \<Rightarrow> lexer" where
  "raw_loop hashes l =
     (case peek l of
        None \<Rightarrow> l
      | Some c \<Rightarrow>
          if c = CHR 0x22 then (if closes_raw hashes l then (bump ^^ hashes) (bump l) else raw_loop hashes (bump l))
          else raw_loop hashes (bump l))"
  by pat_completeness auto
termination
  by (relation "measure (\<lambda>(_, l). left_over l)") (auto dest: peek_SomeD)

declare hashes_loop.simps [simp del] raw_loop.simps [simp del]

definition skip_raw_string :: "lexer \<Rightarrow> lexer" where
  "skip_raw_string l =
     (let (hashes, l) = hashes_loop 0 l
      in if peek l = Some CHR 0x22 then raw_loop hashes (bump l) else l)"

text \<open>What \<^verbatim>\<open>next\<close> does with a character of code.\<close>

definition skip_code :: "char \<Rightarrow> lexer \<Rightarrow> lexer" where
  "skip_code c l =
     (if c = CHR 0x22 then skip_string l
      else if c = CHR 0x27 then (if at_lifetime l then bump l else skip_char l)
      else if c = CHR ''b'' then
        (if peek_second l = Some CHR 0x22 then skip_string (bump l)
         else if peek_second l = Some CHR 0x27 then skip_char (bump l)
         else if peek_second l = Some CHR ''r'' then skip_raw_string (bump (bump l))
         else bump l)
      else if c = CHR ''r'' then
        (if peek_second l = Some CHR 0x22 \<or> peek_second l = Some CHR ''#'' then skip_raw_string (bump l)
         else bump l)
      else bump l)"

text \<open>Every scanner moves forward.\<close>

lemma bump_while_le [simp]: "left_over (bump_while P l) \<le> left_over l"
proof (induction P l rule: bump_while.induct)
  case (1 P l)
  then show ?case by (cases "peek l") (fastforce simp: bump_while.simps [of P l])+
qed

lemma quoted_loop_le [simp]: "left_over (quoted_loop q l) \<le> left_over l"
proof (induction q l rule: quoted_loop.induct)
  case (1 q l)
  show ?case
  proof (cases "peek l")
    case None
    then show ?thesis by (simp add: quoted_loop.simps [of q l])
  next
    case (Some c)
    then show ?thesis using 1(1,2) [OF Some] by (auto simp: quoted_loop.simps [of q l])
  qed
qed

lemma hashes_loop_le [simp]: "left_over (snd (hashes_loop n l)) \<le> left_over l"
proof (induction n l rule: hashes_loop.induct)
  case (1 n l)
  then show ?case by (fastforce simp: hashes_loop.simps [of n l])
qed

lemma left_over_bumps [simp]: "left_over ((bump ^^ n) l) = left_over l - n"
  by (induction n) simp_all

lemma raw_loop_le [simp]: "left_over (raw_loop n l) \<le> left_over l"
proof (induction n l rule: raw_loop.induct)
  case (1 n l)
  show ?case
  proof (cases "peek l")
    case None
    then show ?thesis by (simp add: raw_loop.simps [of n l])
  next
    case (Some c)
    then have "\<not> closes_raw n l \<Longrightarrow> left_over (raw_loop n (bump l)) \<le> left_over l"
      "c \<noteq> CHR 0x22 \<Longrightarrow> left_over (raw_loop n (bump l)) \<le> left_over l"
      using 1(1,2) [OF Some] by (cases "c = CHR 0x22"; simp)+
    with Some show ?thesis by (simp add: raw_loop.simps [of n l])
  qed
qed

lemma block_loop_le [simp]: "left_over (block_loop d l) \<le> left_over l"
proof (induction d l rule: block_loop.induct)
  case (1 d l)
  show ?case
  proof (cases "d = 0")
    case True
    then show ?thesis by (simp add: block_loop.simps [of 0 l])
  next
    case False
    then show ?thesis using 1 [OF False] by (subst block_loop.simps) (auto split: if_split)
  qed
qed

lemma skip_string_less: "0 < left_over l \<Longrightarrow> left_over (skip_string l) < left_over l"
  using quoted_loop_le [of "CHR 0x22" "bump l"] by (simp add: skip_string_def del: quoted_loop_le)

lemma skip_char_less: "0 < left_over l \<Longrightarrow> left_over (skip_char l) < left_over l"
  using quoted_loop_le [of "CHR 0x27" "bump l"] by (simp add: skip_char_def del: quoted_loop_le)

lemma skip_raw_string_le: "left_over (skip_raw_string l) \<le> left_over l"
proof -
  obtain n k where h: "hashes_loop 0 l = (n, k)" by fastforce
  then have "left_over k \<le> left_over l" using hashes_loop_le [of 0 l] by simp
  moreover have "left_over (raw_loop n (bump k)) \<le> left_over k" using raw_loop_le [of n "bump k"] by simp
  ultimately show ?thesis by (simp add: skip_raw_string_def h)
qed

lemma skip_code_less:
  assumes "peek l = Some c"
  shows "left_over (skip_code c l) < left_over l"
proof -
  have l: "0 < left_over l" by (rule peek_SomeD [OF assms])
  have "left_over (skip_string (bump l)) < left_over l" "left_over (skip_char (bump l)) < left_over l"
    using l quoted_loop_le [of "CHR 0x22" "bump (bump l)"] quoted_loop_le [of "CHR 0x27" "bump (bump l)"]
    by (simp_all add: skip_string_def skip_char_def del: quoted_loop_le)
  moreover have "left_over (skip_raw_string (bump l)) < left_over l"
    "left_over (skip_raw_string (bump (bump l))) < left_over l"
    using l skip_raw_string_le [of "bump l"] skip_raw_string_le [of "bump (bump l)"] by simp_all
  ultimately show ?thesis using l skip_string_less [OF l] skip_char_less [OF l] by (simp add: skip_code_def)
qed

text \<open>\<^verbatim>\<open>Iterator::next\<close>, and the whole of what the iterator yields.\<close>

function lexer_next :: "lexer \<Rightarrow> trivia option \<times> lexer" where
  "lexer_next l =
     (case peek l of
        None \<Rightarrow> (None, l)
      | Some c \<Rightarrow>
          if is_space c then apfst Some (scan_whitespace l)
          else if c = CHR ''/'' \<and> peek_second l = Some CHR ''/'' then apfst Some (scan_line_comment l)
          else if c = CHR ''/'' \<and> peek_second l = Some CHR ''*'' then apfst Some (scan_block_comment l)
          else lexer_next (skip_code c l))"
  by pat_completeness auto
termination
  by (relation "measure left_over") (auto dest: skip_code_less)

declare lexer_next.simps [simp del]

lemma scan_less:
  assumes "peek l = Some c"
  shows "is_space c \<Longrightarrow> left_over (snd (scan_whitespace l)) < left_over l"
    "left_over (snd (scan_line_comment l)) < left_over l" "left_over (snd (scan_block_comment l)) < left_over l"
proof -
  have l: "0 < left_over l" by (rule peek_SomeD [OF assms])
  show "is_space c \<Longrightarrow> left_over (snd (scan_whitespace l)) < left_over l"
    using l assms bump_while_le [of is_space "bump l"]
    by (simp add: scan_whitespace_def Let_def bump_while.simps [of is_space l])
  show "left_over (snd (scan_line_comment l)) < left_over l" "left_over (snd (scan_block_comment l)) < left_over l"
    using l bump_while_le [of "\<lambda>c. c \<noteq> NEWLINE" "bump (bump l)"] block_loop_le [of 1 "bump (bump l)"]
    by (simp_all add: scan_line_comment_def scan_block_comment_def Let_def)
qed

lemma lexer_next_less: "lexer_next l = (Some t, l') \<Longrightarrow> left_over l' < left_over l"
proof (induction l rule: lexer_next.induct)
  case (1 l)
  show ?case
  proof (cases "peek l")
    case None
    with 1(2) show ?thesis by (simp add: lexer_next.simps)
  next
    case (Some c)
    note less = scan_less [OF Some] skip_code_less [OF Some]
    show ?thesis
      using 1(2) 1(1) [OF Some] less Some
      by (subst (asm) lexer_next.simps) (auto split: if_splits simp: apfst_def map_prod_def prod.case_eq_if)
  qed
qed

function lexer_collect :: "lexer \<Rightarrow> trivia list" where
  "lexer_collect l =
     (case lexer_next l of (None, _) \<Rightarrow> [] | (Some t, l') \<Rightarrow> t # lexer_collect l')"
  by pat_completeness auto
termination
  by (relation "measure left_over") (auto dest: lexer_next_less [OF sym])

declare lexer_collect.simps [simp del]

subsection \<open>The state between a prefix and the rest\<close>

definition origin_pos :: line_column where
  "origin_pos = \<lparr>lc_line = 1, lc_column = 0\<rparr>"

definition lexer_at :: "str \<Rightarrow> str \<Rightarrow> lexer" where
  "lexer_at u r = \<lparr>lx_input = u @ r, lx_cursor = length u,
     lx_line = lc_line (advance u origin_pos), lx_column = lc_column (advance u origin_pos)\<rparr>"

lemma advance_append [simp]: "advance (u @ v) c = advance v (advance u c)"
  by (induction u c rule: advance.induct) simp_all

lemma lexer_new_at: "lexer_new s = lexer_at [] s"
  by (simp add: lexer_new_def lexer_at_def origin_pos_def)

lemma lexer_at_simps [simp]:
  "rest (lexer_at u r) = r" "left_over (lexer_at u r) = length r" "peek (lexer_at u []) = None"
  "peek (lexer_at u (c # r)) = Some c" "peek_second (lexer_at u (c # d # r)) = Some d"
  "peek_second (lexer_at u [c]) = None" "current_pos (lexer_at u r) = advance u origin_pos"
  "bump (lexer_at u []) = lexer_at u []" "bump (lexer_at u (c # r)) = lexer_at (u @ [c]) r"
  by (simp_all add: lexer_at_def rest_def left_over_def peek_def peek_second_def current_pos_def bump_def Let_def)

lemma trivia_of_at [simp]:
  "trivia_of k (lexer_at u (s @ r)) (lexer_at (u @ s) r) =
     \<lparr>tv_start = advance u origin_pos, tv_end = advance s (advance u origin_pos), tv_content = s, tv_kind = k\<rparr>"
proof -
  have "drop (lx_cursor (lexer_at u (s @ r))) (take (lx_cursor (lexer_at (u @ s) r)) (lx_input (lexer_at u (s @ r)))) = s"
    by (simp add: lexer_at_def)
  then show ?thesis by (simp add: trivia_of_def)
qed

text \<open>Whatever the rest, a scanner stops somewhere ahead.\<close>

definition ahead :: "lexer \<Rightarrow> lexer \<Rightarrow> bool" where
  "ahead l l' \<longleftrightarrow> (\<exists>u s r. l = lexer_at u (s @ r) \<and> l' = lexer_at (u @ s) r)"

definition somewhere :: "lexer \<Rightarrow> bool" where
  "somewhere l \<longleftrightarrow> (\<exists>u r. l = lexer_at u r)"

lemma lexer_at_inject [simp]: "lexer_at u r = lexer_at v t \<longleftrightarrow> u = v \<and> r = t"
  by (auto simp: lexer_at_def)

lemma ahead_refl [simp]: "somewhere l \<Longrightarrow> ahead l l"
  by (auto simp: ahead_def somewhere_def intro: exI [of _ "[]"])

lemma ahead_somewhere: "ahead l l' \<Longrightarrow> somewhere l'"
  by (auto simp: ahead_def somewhere_def)

lemma ahead_trans [trans]: "ahead l k \<Longrightarrow> ahead k m \<Longrightarrow> ahead l m"
  unfolding ahead_def by clarsimp

lemma ahead_bump [simp]: "somewhere l \<Longrightarrow> ahead l (bump l)"
proof -
  assume "somewhere l"
  then obtain u r where l: "l = lexer_at u r" by (auto simp: somewhere_def)
  show ?thesis
  proof (cases r)
    case Nil
    then show ?thesis using l by (auto simp: ahead_def)
  next
    case (Cons c t)
    then show ?thesis using l unfolding ahead_def by (auto intro: exI [of _ "[c]"])
  qed
qed

lemma somewhere_bump [simp]: "somewhere l \<Longrightarrow> somewhere (bump l)"
  using ahead_bump ahead_somewhere by blast

lemma ahead_bump_then: "somewhere l \<Longrightarrow> ahead (bump l) m \<Longrightarrow> ahead l m"
  using ahead_bump ahead_trans by blast

lemma somewhere_bumps: "somewhere l \<Longrightarrow> ahead l ((bump ^^ n) l)"
proof (induction n)
  case (Suc n)
  then show ?case using ahead_trans [OF Suc.IH] ahead_bump ahead_somewhere by fastforce
qed simp

lemma ahead_bumps_then:
  assumes "somewhere l"
  shows "ahead (bump l) m \<Longrightarrow> ahead l m" "ahead (bump (bump l)) m \<Longrightarrow> ahead l m"
  using assms ahead_bump_then somewhere_bump by blast+

lemma ahead_bump_while: "somewhere l \<Longrightarrow> ahead l (bump_while P l)"
proof (induction P l rule: bump_while.induct)
  case (1 P l)
  note b = ahead_bumps_then [OF 1(2)]
  show ?case using 1 by (cases "peek l") (auto simp: bump_while.simps [of P l] intro: b)
qed

lemma ahead_quoted_loop: "somewhere l \<Longrightarrow> ahead l (quoted_loop q l)"
proof (induction q l rule: quoted_loop.induct)
  case (1 q l)
  note b = ahead_bumps_then [OF 1(3)]
  show ?case
  proof (cases "peek l")
    case None
    then show ?thesis using 1(3) by (simp add: quoted_loop.simps [of q l])
  next
    case (Some c)
    have "c \<noteq> q \<Longrightarrow> c = CHR 0x5C \<Longrightarrow> ahead l (quoted_loop q (bump (bump l)))"
      "c \<noteq> q \<Longrightarrow> c \<noteq> CHR 0x5C \<Longrightarrow> ahead l (quoted_loop q (bump l))"
      using 1(1,2) [OF Some] 1(3) b by simp_all
    with Some 1(3) show ?thesis by (simp add: quoted_loop.simps [of q l])
  qed
qed

lemma ahead_hashes_loop: "somewhere l \<Longrightarrow> ahead l (snd (hashes_loop n l))"
proof (induction n l rule: hashes_loop.induct)
  case (1 n l)
  note b = ahead_bumps_then [OF 1(2)]
  show ?case using 1 by (auto simp: hashes_loop.simps [of n l] intro: b)
qed

lemma ahead_raw_loop: "somewhere l \<Longrightarrow> ahead l (raw_loop n l)"
proof (induction n l rule: raw_loop.induct)
  case (1 n l)
  note b = ahead_bumps_then [OF 1(3)]
  have s: "ahead l ((bump ^^ n) (bump l))" by (rule b) (use 1(3) somewhere_bumps in simp)
  show ?case
  proof (cases "peek l")
    case None
    then show ?thesis using 1(3) by (simp add: raw_loop.simps [of n l])
  next
    case (Some c)
    have "\<not> (c = CHR 0x22 \<and> closes_raw n l) \<Longrightarrow> ahead l (raw_loop n (bump l))"
      using 1(1,2) [OF Some] 1(3) b(1) by (cases "c = CHR 0x22") simp_all
    with Some s show ?thesis by (simp add: raw_loop.simps [of n l])
  qed
qed

lemma ahead_block_loop: "somewhere l \<Longrightarrow> ahead l (block_loop d l)"
proof (induction d l rule: block_loop.induct)
  case (1 d l)
  note b = ahead_bumps_then [OF 1(4)]
  show ?case
  proof (cases "d = 0")
    case True
    with 1(4) show ?thesis by (simp add: block_loop.simps [of 0 l])
  next
    case False
    let ?o = "peek l = Some CHR ''/'' \<and> peek_second l = Some CHR ''*''"
    let ?c = "peek l = Some CHR ''*'' \<and> peek_second l = Some CHR ''/''"
    have s: "somewhere (bump l)" "somewhere (bump (bump l))" using 1(4) by simp_all
    consider (opens) ?o | (closes) "\<not> ?o" ?c | (ends) "\<not> ?o" "\<not> ?c" "peek l = None"
      | (other) "\<not> ?o" "\<not> ?c" "peek l \<noteq> None" by blast
    then show ?thesis
    proof cases
      case opens
      then have "block_loop d l = block_loop (d + 1) (bump (bump l))"
        using False by (subst block_loop.simps) (simp only: if_True if_False simp_thms)
      then show ?thesis using b(2) [OF 1(1) [OF False opens s(2)]] by simp
    next
      case closes
      then have "block_loop d l = block_loop (d - 1) (bump (bump l))"
        using False by (subst block_loop.simps) (simp only: if_True if_False simp_thms)
      then show ?thesis using b(2) [OF 1(2) [OF False closes s(2)]] by simp
    next
      case ends
      then have "block_loop d l = l" using False by (subst block_loop.simps) (simp only: if_True if_False simp_thms)
      then show ?thesis using 1(4) by simp
    next
      case other
      then have "block_loop d l = block_loop d (bump l)"
        using False by (subst block_loop.simps) (simp only: if_True if_False simp_thms)
      then show ?thesis using b(1) [OF 1(3) [OF False other s(1)]] by simp
    qed
  qed
qed

lemma bump_while_at: "bump_while P (lexer_at u r) = lexer_at (u @ takeWhile P r) (dropWhile P r)"
  by (induction r arbitrary: u) (subst bump_while.simps, simp)+

subsection \<open>What is yielded is in the source\<close>

definition kind_reads :: "trivia_kind \<Rightarrow> str \<Rightarrow> bool" where
  "kind_reads k s \<longleftrightarrow>
     (case k of
        Whitespace \<Rightarrow> s \<noteq> [] \<and> list_all is_space s
      | LineComment \<Rightarrow> take 2 s = ''//'' \<and> NEWLINE \<notin> set s
      | BlockComment \<Rightarrow> take 2 s = ''/*'')"

text \<open>The trivia \<open>ts\<close> are found in this order in the rest \<open>r\<close> of a source that starts with \<open>u\<close>.\<close>

inductive found :: "str \<Rightarrow> str \<Rightarrow> trivia list \<Rightarrow> bool" where
  found_end: "found u r []"
| found_next: "kind_reads k s \<Longrightarrow> found (u @ g @ s) v ts \<Longrightarrow>
     found u (g @ s @ v)
       (\<lparr>tv_start = advance (u @ g) origin_pos, tv_end = advance (u @ g @ s) origin_pos, tv_content = s,
         tv_kind = k\<rparr> # ts)"

definition piece_at :: "str \<Rightarrow> str \<Rightarrow> trivia option \<times> lexer \<Rightarrow> bool" where
  "piece_at u r x \<longleftrightarrow> (case x of
     (None, _) \<Rightarrow> True
   | (Some t, l) \<Rightarrow> (\<exists>g s v. r = g @ s @ v \<and> l = lexer_at (u @ g @ s) v \<and> kind_reads (tv_kind t) s \<and>
       t = \<lparr>tv_start = advance (u @ g) origin_pos, tv_end = advance (u @ g @ s) origin_pos, tv_content = s,
         tv_kind = tv_kind t\<rparr>))"

lemma piece_atI:
  assumes "ahead (lexer_at u r) l" "\<And>s v. r = s @ v \<Longrightarrow> l = lexer_at (u @ s) v \<Longrightarrow> kind_reads k s"
  shows "piece_at u r (apfst Some (trivia_of k (lexer_at u r) l, l))"
proof -
  obtain s v where s: "r = s @ v" "l = lexer_at (u @ s) v" using assms(1) by (auto simp: ahead_def)
  then show ?thesis using assms(2) [OF s] by (auto simp: piece_at_def intro!: exI [of _ "[]"])
qed

lemma piece_at_later: "piece_at (u @ s) v x \<Longrightarrow> piece_at u (s @ v) x"
proof (cases x)
  fix t' l
  assume p: "piece_at (u @ s) v x" "x = (t', l)"
  show "piece_at u (s @ v) x"
  proof (cases t')
    case None
    with p show ?thesis by (simp add: piece_at_def)
  next
    case (Some t)
    with p obtain g s' w where w: "v = g @ s' @ w" "l = lexer_at ((u @ s) @ g @ s') w" "kind_reads (tv_kind t) s'"
      "t = \<lparr>tv_start = advance ((u @ s) @ g) origin_pos, tv_end = advance ((u @ s) @ g @ s') origin_pos,
        tv_content = s', tv_kind = tv_kind t\<rparr>"
      unfolding piece_at_def by auto
    show ?thesis unfolding piece_at_def p(2) Some prod.case option.case
      by (rule exI [of _ "s @ g"], rule exI [of _ s'], rule exI [of _ w]) (use w in \<open>simp only: append.assoc simp_thms\<close>)
  qed
qed

lemma ahead_skip:
  assumes "somewhere l"
  shows "ahead l (skip_string l)" "ahead l (skip_char l)" "ahead l (skip_raw_string l)"
proof -
  note b = ahead_bumps_then [OF assms]
  have s: "somewhere (bump l)" using assms by simp
  show "ahead l (skip_string l)" "ahead l (skip_char l)"
    unfolding skip_string_def skip_char_def by (rule b(1), rule ahead_quoted_loop, rule s)+
  obtain n k where h: "hashes_loop 0 l = (n, k)" by fastforce
  then have k: "ahead l k" using ahead_hashes_loop [OF assms, of 0] by simp
  then have "ahead k (raw_loop n (bump k))"
    using ahead_somewhere ahead_bumps_then(1) ahead_raw_loop somewhere_bump by blast
  with k ahead_trans show "ahead l (skip_raw_string l)" by (auto simp: skip_raw_string_def h)
qed

lemma ahead_skip_code: "somewhere l \<Longrightarrow> ahead l (skip_code c l)"
proof -
  assume a: "somewhere l"
  note b = ahead_bumps_then [OF a]
  have s: "somewhere (bump l)" "somewhere (bump (bump l))" using a by simp_all
  note f = b(1) [OF ahead_skip(1) [OF s(1)]] b(1) [OF ahead_skip(2) [OF s(1)]] b(1) [OF ahead_skip(3) [OF s(1)]]
    b(2) [OF ahead_skip(3) [OF s(2)]]
  show ?thesis using f ahead_skip(1,2) [OF a] a by (simp add: skip_code_def)
qed

lemma scanned_pieces:
  "is_space c \<Longrightarrow> piece_at u (c # r) (apfst Some (scan_whitespace (lexer_at u (c # r))))"
  "piece_at u (CHR ''/'' # CHR ''/'' # r) (apfst Some (scan_line_comment (lexer_at u (CHR ''/'' # CHR ''/'' # r))))"
  "piece_at u (CHR ''/'' # CHR ''*'' # r) (apfst Some (scan_block_comment (lexer_at u (CHR ''/'' # CHR ''*'' # r))))"
proof -
  show "piece_at u (c # r) (apfst Some (scan_whitespace (lexer_at u (c # r))))" if c: "is_space c"
    unfolding scan_whitespace_def Let_def
  proof (rule piece_atI [OF ahead_bump_while])
    fix s v
    assume "bump_while is_space (lexer_at u (c # r)) = lexer_at (u @ s) v"
    then have "s = takeWhile is_space (c # r)" by (simp add: bump_while_at)
    with c show "kind_reads Whitespace s" by (auto simp: kind_reads_def list_all_iff dest: set_takeWhileD)
  qed (auto simp: somewhere_def)
  show "piece_at u (CHR ''/'' # CHR ''/'' # r) (apfst Some (scan_line_comment (lexer_at u (CHR ''/'' # CHR ''/'' # r))))"
    unfolding scan_line_comment_def Let_def
  proof (rule piece_atI)
    let ?l = "lexer_at u (CHR ''/'' # CHR ''/'' # r)"
    let ?m = "bump_while (\<lambda>c. c \<noteq> NEWLINE) (bump (bump ?l))"
    show "ahead ?l ?m" by (rule ahead_bumps_then(2)) (auto simp: somewhere_def intro!: ahead_bump_while)
    fix s v
    assume "?m = lexer_at (u @ s) v"
    then have "s = ''//'' @ takeWhile (\<lambda>c. c \<noteq> NEWLINE) r" by (simp add: bump_while_at)
    then show "kind_reads LineComment s" by (auto simp: kind_reads_def NEWLINE_def dest: set_takeWhileD)
  qed
  show "piece_at u (CHR ''/'' # CHR ''*'' # r)
      (apfst Some (scan_block_comment (lexer_at u (CHR ''/'' # CHR ''*'' # r))))"
    unfolding scan_block_comment_def Let_def
  proof (rule piece_atI)
    let ?l = "lexer_at u (CHR ''/'' # CHR ''*'' # r)"
    let ?m = "block_loop 1 (bump (bump ?l))"
    have "ahead (lexer_at (u @ ''/*'') r) ?m" using ahead_block_loop [of "lexer_at (u @ ''/*'') r" 1]
      by (simp add: somewhere_def)
    then obtain s2 v2 where m: "?m = lexer_at (u @ ''/*'' @ s2) v2" "r = s2 @ v2" by (auto simp: ahead_def)
    then show "ahead ?l ?m" by (auto simp: ahead_def intro!: exI [of _ "''/*'' @ s2"])
    fix s v
    assume "?m = lexer_at (u @ s) v"
    with m(1) have "s = ''/*'' @ s2" by simp
    then show "kind_reads BlockComment s" by (simp add: kind_reads_def)
  qed
qed

lemma lexer_next_at: "piece_at u r (lexer_next (lexer_at u r))"
proof (induction "lexer_at u r" arbitrary: u r rule: lexer_next.induct)
  case (1 u r)
  show ?case
  proof (cases r)
    case Nil
    then show ?thesis by (subst lexer_next.simps) (simp add: piece_at_def)
  next
    case (Cons c t)
    let ?l = "lexer_at u r"
    have c: "peek ?l = Some c" using Cons by simp
    consider (space) "is_space c" | (line) "\<not> is_space c" "c = CHR ''/'' \<and> peek_second ?l = Some CHR ''/''"
      | (block) "\<not> is_space c" "c = CHR ''/'' \<and> peek_second ?l = Some CHR ''*''"
      | (code) "\<not> is_space c" "\<not> (c = CHR ''/'' \<and> peek_second ?l = Some CHR ''/'')"
          "\<not> (c = CHR ''/'' \<and> peek_second ?l = Some CHR ''*'')" by blast
    then show ?thesis
    proof cases
      case space
      then show ?thesis using scanned_pieces(1) [OF space, of u t] c Cons by (subst lexer_next.simps) simp
    next
      case line
      then obtain t' where "t = CHR ''/'' # t'" using Cons by (cases t) auto
      then show ?thesis using scanned_pieces(2) [of u t'] line c Cons by (subst lexer_next.simps) simp
    next
      case block
      then obtain t' where "t = CHR ''*'' # t'" using Cons by (cases t) auto
      then show ?thesis using scanned_pieces(3) [of u t'] block c Cons by (subst lexer_next.simps) simp
    next
      case code
      have "ahead ?l (skip_code c ?l)" by (rule ahead_skip_code) (auto simp: somewhere_def)
      then obtain s v where s: "r = s @ v" "skip_code c ?l = lexer_at (u @ s) v" by (auto simp: ahead_def)
      have "piece_at (u @ s) v (lexer_next (skip_code c ?l))"
        using 1 [OF c code s(2)] s(2) by simp
      then have "piece_at u r (lexer_next (skip_code c ?l))" unfolding s(1) by (rule piece_at_later)
      moreover have "lexer_next ?l = lexer_next (skip_code c ?l)"
        using c code by (subst lexer_next.simps) (simp only: option.case if_False)
      ultimately show ?thesis by simp
    qed
  qed
qed

text \<open>The lexer ends on every source, and what it yields is there: comments and white space are found
  in the source in their order without overlap, each at its recorded start and end, with its text,
  which is one of its kind.\<close>

theorem lexer_yields_source: "found [] input (lexer_collect (lexer_new input))"
proof -
  have "found u r (lexer_collect (lexer_at u r))" for u r
  proof (induction "lexer_at u r" arbitrary: u r rule: lexer_collect.induct)
    case (1 u r)
    obtain t l where n: "lexer_next (lexer_at u r) = (t, l)" by fastforce
    show ?case
    proof (cases t)
      case None
      with n show ?thesis by (subst lexer_collect.simps) (simp add: found_end)
    next
      case (Some x)
      with n lexer_next_at [of u r] obtain g s v where p: "r = g @ s @ v" "l = lexer_at (u @ g @ s) v"
        "kind_reads (tv_kind x) s" "x = \<lparr>tv_start = advance (u @ g) origin_pos,
          tv_end = advance (u @ g @ s) origin_pos, tv_content = s, tv_kind = tv_kind x\<rparr>"
        unfolding piece_at_def by auto
      have "found (u @ g @ s) v (lexer_collect l)" unfolding p(2) by (rule 1) (use n Some p(2) in simp_all)
      then have "found u r (x # lexer_collect l)" using found_next [OF p(3)] p(1,4) by metis
      then show ?thesis using n Some by (subst lexer_collect.simps) simp
    qed
  qed
  then show ?thesis by (simp add: lexer_new_at)
qed

subsection \<open>Sources\<close>

datatype block_item = Inside char | Nested "block_item list"

datatype quoted_item = Lit char | Escaped char

text \<open>A source as the tokens it is made of.  \<open>Bytes\<close> is a byte string or character, \<open>Raw\<close> a raw string
  with its number of hashes (after \<^verbatim>\<open>b\<close> if the flag is set), \<open>Not_raw\<close> the same start of something else,
  like a raw identifier.\<close>

datatype piece =
    White str
  | Line str
  | Block "block_item list"
  | Quoted char "quoted_item list"
  | Bytes char "quoted_item list"
  | Raw bool nat str
  | Not_raw bool nat
  | Lifetime
  | Code char

definition DQUOTE :: char where "DQUOTE = CHR 0x22"
definition QUOTE :: char where "QUOTE = CHR 0x27"
definition BACKSLASH :: char where "BACKSLASH = CHR 0x5C"

fun block_text :: "block_item list \<Rightarrow> str" where
  "block_text [] = []"
| "block_text (Inside c # bs) = c # block_text bs"
| "block_text (Nested cs # bs) = ''/*'' @ block_text cs @ ''*/'' @ block_text bs"

fun quoted_text :: "quoted_item list \<Rightarrow> str" where
  "quoted_text [] = []"
| "quoted_text (Lit c # qs) = c # quoted_text qs"
| "quoted_text (Escaped c # qs) = BACKSLASH # c # quoted_text qs"

definition raw_start :: "bool \<Rightarrow> nat \<Rightarrow> str" where
  "raw_start b n = (if b then ''br'' else ''r'') @ replicate n CHR ''#''"

fun piece_text :: "piece \<Rightarrow> str" where
  "piece_text (White s) = s"
| "piece_text (Line s) = ''//'' @ s"
| "piece_text (Block bs) = ''/*'' @ block_text bs @ ''*/''"
| "piece_text (Quoted q qs) = q # quoted_text qs @ [q]"
| "piece_text (Bytes q qs) = CHR ''b'' # q # quoted_text qs @ [q]"
| "piece_text (Raw b n s) = raw_start b n @ DQUOTE # s @ DQUOTE # replicate n CHR ''#''"
| "piece_text (Not_raw b n) = raw_start b n"
| "piece_text Lifetime = [QUOTE]"
| "piece_text (Code c) = [c]"

definition render_source :: "piece list \<Rightarrow> str" where
  "render_source ps = concat (map piece_text ps)"

definition next_is :: "(char \<Rightarrow> bool) \<Rightarrow> str \<Rightarrow> bool" where
  "next_is P r = (case r of [] \<Rightarrow> False | c # _ \<Rightarrow> P c)"

text \<open>In a block comment no opening or closing arises by accident, given the text after it.\<close>

fun block_ok :: "block_item list \<Rightarrow> str \<Rightarrow> bool" where
  "block_ok [] r = True"
| "block_ok (Inside c # bs) r \<longleftrightarrow>
     \<not> (c = CHR ''/'' \<and> next_is (\<lambda>d. d = CHR ''*'') (block_text bs @ r)) \<and>
     \<not> (c = CHR ''*'' \<and> next_is (\<lambda>d. d = CHR ''/'') (block_text bs @ r)) \<and> block_ok bs r"
| "block_ok (Nested cs # bs) r \<longleftrightarrow> block_ok cs (''*/'' @ block_text bs @ r) \<and> block_ok bs r"

fun quoted_ok :: "char \<Rightarrow> quoted_item list \<Rightarrow> bool" where
  "quoted_ok q [] = True"
| "quoted_ok q (Lit c # qs) \<longleftrightarrow> c \<noteq> q \<and> c \<noteq> BACKSLASH \<and> quoted_ok q qs"
| "quoted_ok q (Escaped c # qs) \<longleftrightarrow> quoted_ok q qs"

fun raw_ok :: "nat \<Rightarrow> str \<Rightarrow> bool" where
  "raw_ok n [] = True"
| "raw_ok n (c # s) \<longleftrightarrow> \<not> (c = DQUOTE \<and> take n s = replicate n CHR ''#'') \<and> raw_ok n s"

text \<open>A quote opens a lifetime when an identifier follows it that no quote ends after one letter.\<close>

definition lifetime_start :: "str \<Rightarrow> bool" where
  "lifetime_start r \<longleftrightarrow> next_is (\<lambda>c. is_alphabetic c \<or> c = CHR ''_'') r \<and> \<not> next_is (\<lambda>c. c = QUOTE) (drop 1 r)"

text \<open>A token is read as itself before the text \<open>r\<close>.\<close>

fun piece_ok :: "piece \<Rightarrow> str \<Rightarrow> bool" where
  "piece_ok (White s) r \<longleftrightarrow> s \<noteq> [] \<and> list_all is_space s \<and> \<not> next_is is_space r"
| "piece_ok (Line s) r \<longleftrightarrow> NEWLINE \<notin> set s \<and> (r = [] \<or> next_is (\<lambda>c. c = NEWLINE) r)"
| "piece_ok (Block bs) r \<longleftrightarrow> block_ok bs (''*/'' @ r)"
| "piece_ok (Quoted q qs) r \<longleftrightarrow> quoted_ok q qs \<and>
     (q = DQUOTE \<or> q = QUOTE \<and> \<not> lifetime_start (quoted_text qs @ QUOTE # r))"
| "piece_ok (Bytes q qs) r \<longleftrightarrow> quoted_ok q qs \<and> (q = DQUOTE \<or> q = QUOTE)"
| "piece_ok (Raw b n s) r \<longleftrightarrow> raw_ok n s"
| "piece_ok (Not_raw b n) r \<longleftrightarrow> (b \<or> 0 < n) \<and> \<not> next_is (\<lambda>c. c = CHR ''#'' \<or> c = DQUOTE) r"
| "piece_ok Lifetime r \<longleftrightarrow> lifetime_start r"
| "piece_ok (Code c) r \<longleftrightarrow> \<not> is_space c \<and> c \<noteq> DQUOTE \<and> c \<noteq> QUOTE \<and>
     (c = CHR ''/'' \<longrightarrow> \<not> next_is (\<lambda>d. d = CHR ''/'' \<or> d = CHR ''*'') r) \<and>
     (c = CHR ''r'' \<longrightarrow> \<not> next_is (\<lambda>d. d = DQUOTE \<or> d = CHR ''#'') r) \<and>
     (c = CHR ''b'' \<longrightarrow> \<not> next_is (\<lambda>d. d = DQUOTE \<or> d = QUOTE \<or> d = CHR ''r'') r)"

fun source_ok :: "piece list \<Rightarrow> bool" where
  "source_ok [] = True"
| "source_ok (p # ps) \<longleftrightarrow> piece_ok p (render_source ps) \<and> source_ok ps"

fun trivia_kind_of :: "piece \<Rightarrow> trivia_kind option" where
  "trivia_kind_of (White _) = Some Whitespace"
| "trivia_kind_of (Line _) = Some LineComment"
| "trivia_kind_of (Block _) = Some BlockComment"
| "trivia_kind_of _ = None"

text \<open>The comments and the white space of a source, each where it stands.\<close>

fun trivia_in :: "line_column \<Rightarrow> piece list \<Rightarrow> trivia list" where
  "trivia_in pos [] = []"
| "trivia_in pos (p # ps) =
     (let stop = advance (piece_text p) pos
      in (case trivia_kind_of p of
            None \<Rightarrow> trivia_in stop ps
          | Some k \<Rightarrow> \<lparr>tv_start = pos, tv_end = stop, tv_content = piece_text p, tv_kind = k\<rparr> # trivia_in stop ps))"

subsection \<open>Reading one token\<close>

lemma next_is_simps [simp]: "next_is P [] = False" "next_is P (c # r) = P c"
  by (simp_all add: next_is_def)

lemma quotes: "DQUOTE = CHR 0x22" "QUOTE = CHR 0x27" "BACKSLASH = CHR 0x5C"
  by (simp_all add: DQUOTE_def QUOTE_def BACKSLASH_def)

lemma quoted_loop_at:
  "quoted_ok q qs \<Longrightarrow> q \<noteq> BACKSLASH \<Longrightarrow>
    quoted_loop q (lexer_at u (quoted_text qs @ q # r)) = lexer_at (u @ quoted_text qs @ [q]) r"
proof (induction q qs arbitrary: u rule: quoted_ok.induct)
  case (1 q)
  then show ?case by (subst quoted_loop.simps) simp
next
  case (2 q c qs)
  then show ?case by (subst quoted_loop.simps) (simp add: quotes)
next
  case (3 q c qs)
  then show ?case by (subst quoted_loop.simps) (simp add: quotes)
qed

lemma skip_quoted_at:
  "quoted_ok DQUOTE qs \<Longrightarrow> skip_string (lexer_at u (DQUOTE # quoted_text qs @ DQUOTE # r)) =
     lexer_at (u @ piece_text (Quoted DQUOTE qs)) r"
  "quoted_ok QUOTE qs \<Longrightarrow> skip_char (lexer_at u (QUOTE # quoted_text qs @ QUOTE # r)) =
     lexer_at (u @ piece_text (Quoted QUOTE qs)) r"
  using quoted_loop_at [of DQUOTE qs "u @ [DQUOTE]" r] quoted_loop_at [of QUOTE qs "u @ [QUOTE]" r]
  by (simp_all add: skip_string_def skip_char_def quotes)

lemma hashes_loop_at:
  "\<not> next_is (\<lambda>c. c = CHR ''#'') r \<Longrightarrow>
    hashes_loop n (lexer_at u (replicate k CHR ''#'' @ r)) = (n + k, lexer_at (u @ replicate k CHR ''#'') r)"
proof (induction k arbitrary: n u)
  case 0
  then show ?case by (cases r) (subst hashes_loop.simps, simp)+
next
  case (Suc k)
  then show ?case by (subst hashes_loop.simps) simp
qed

lemma bumps_at: "(bump ^^ length s) (lexer_at u (s @ r)) = lexer_at (u @ s) r"
  by (induction s arbitrary: u) (simp_all add: funpow_swap1)

lemma take_replicate_iff: "take n r = replicate n x \<longleftrightarrow> n \<le> length r \<and> (\<forall>i < n. r ! i = x)"
proof (cases "n \<le> length r")
  case True
  then show ?thesis by (simp add: list_eq_iff_nth_eq)
next
  case False
  then have "length (take n r) \<noteq> length (replicate n x)" by simp
  with False show ?thesis by metis
qed

lemma closes_raw_at: "closes_raw n (lexer_at u (c # r)) \<longleftrightarrow> take n r = replicate n CHR ''#''"
  by (auto simp: closes_raw_def take_replicate_iff list_all_iff)

lemma take_quote: "take n (s @ DQUOTE # r) = replicate n CHR ''#'' \<Longrightarrow> take n s = replicate n CHR ''#''"
proof (cases "n \<le> length s")
  case False
  assume "take n (s @ DQUOTE # r) = replicate n CHR ''#''"
  then have "(s @ DQUOTE # r) ! length s = CHR ''#''" using False by (simp only: take_replicate_iff)
  then show ?thesis by (simp add: quotes)
qed simp

lemma raw_loop_at:
  "raw_ok n s \<Longrightarrow> raw_loop n (lexer_at u (s @ DQUOTE # replicate n CHR ''#'' @ r)) =
    lexer_at (u @ s @ DQUOTE # replicate n CHR ''#'') r"
proof (induction s arbitrary: u)
  case Nil
  then show ?case
    using bumps_at [of "replicate n CHR ''#''" "u @ [DQUOTE]" r]
    by (subst raw_loop.simps) (simp add: closes_raw_at quotes)
next
  case (Cons c s)
  have "c = DQUOTE \<Longrightarrow> take n (s @ DQUOTE # replicate n CHR ''#'' @ r) \<noteq> replicate n CHR ''#''"
    using Cons.prems take_quote by auto
  with Cons show ?case by (subst raw_loop.simps) (simp add: closes_raw_at quotes)
qed

lemma skip_raw_string_at:
  "raw_ok n s \<Longrightarrow>
    skip_raw_string (lexer_at u (replicate n CHR ''#'' @ DQUOTE # s @ DQUOTE # replicate n CHR ''#'' @ r)) =
    lexer_at (u @ replicate n CHR ''#'' @ DQUOTE # s @ DQUOTE # replicate n CHR ''#'') r"
  "\<not> next_is (\<lambda>c. c = CHR ''#'' \<or> c = DQUOTE) r \<Longrightarrow>
    skip_raw_string (lexer_at u (replicate n CHR ''#'' @ r)) = lexer_at (u @ replicate n CHR ''#'') r"
proof -
  assume "raw_ok n s"
  then show "skip_raw_string (lexer_at u (replicate n CHR ''#'' @ DQUOTE # s @ DQUOTE # replicate n CHR ''#'' @ r)) =
      lexer_at (u @ replicate n CHR ''#'' @ DQUOTE # s @ DQUOTE # replicate n CHR ''#'') r"
    using raw_loop_at [of n s "u @ replicate n CHR ''#'' @ [DQUOTE]" r]
    by (simp add: skip_raw_string_def hashes_loop_at quotes)
next
  assume "\<not> next_is (\<lambda>c. c = CHR ''#'' \<or> c = DQUOTE) r"
  then show "skip_raw_string (lexer_at u (replicate n CHR ''#'' @ r)) = lexer_at (u @ replicate n CHR ''#'') r"
    using hashes_loop_at [of r 0 u n] by (cases r) (auto simp: skip_raw_string_def quotes)
qed

lemma block_loop_steps:
  assumes "0 < d"
  shows "block_loop d (lexer_at u (''/*'' @ r)) = block_loop (d + 1) (lexer_at (u @ ''/*'') r)"
    "block_loop d (lexer_at u (''*/'' @ r)) = block_loop (d - 1) (lexer_at (u @ ''*/'') r)"
    "\<not> (c = CHR ''/'' \<and> next_is (\<lambda>d. d = CHR ''*'') r) \<Longrightarrow> \<not> (c = CHR ''*'' \<and> next_is (\<lambda>d. d = CHR ''/'') r) \<Longrightarrow>
      block_loop d (lexer_at u (c # r)) = block_loop d (lexer_at (u @ [c]) r)"
proof -
  show "block_loop d (lexer_at u (''/*'' @ r)) = block_loop (d + 1) (lexer_at (u @ ''/*'') r)"
    "block_loop d (lexer_at u (''*/'' @ r)) = block_loop (d - 1) (lexer_at (u @ ''*/'') r)"
    using assms by (subst block_loop.simps, simp)+
  assume "\<not> (c = CHR ''/'' \<and> next_is (\<lambda>d. d = CHR ''*'') r)" "\<not> (c = CHR ''*'' \<and> next_is (\<lambda>d. d = CHR ''/'') r)"
  then show "block_loop d (lexer_at u (c # r)) = block_loop d (lexer_at (u @ [c]) r)"
    using assms by (subst block_loop.simps) (cases r; auto)
qed

lemma block_loop_at:
  "0 < d \<Longrightarrow> block_ok bs r \<Longrightarrow>
    block_loop d (lexer_at u (block_text bs @ r)) = block_loop d (lexer_at (u @ block_text bs) r)"
proof (induction bs r arbitrary: u d rule: block_ok.induct)
  case (2 c bs r)
  then show ?case using block_loop_steps(3) [of d c "block_text bs @ r" u] by simp
next
  case (3 cs bs r)
  have "block_loop d (lexer_at u (block_text (Nested cs # bs) @ r)) =
      block_loop (d + 1) (lexer_at (u @ ''/*'') (block_text cs @ ''*/'' @ block_text bs @ r))"
    using block_loop_steps(1) [OF 3(3), of u "block_text cs @ ''*/'' @ block_text bs @ r"] by simp
  also have "\<dots> = block_loop (d + 1) (lexer_at (u @ ''/*'' @ block_text cs) (''*/'' @ block_text bs @ r))"
    using 3(1) [of "d + 1" "u @ ''/*''"] 3(4) by simp
  also have "\<dots> = block_loop d (lexer_at (u @ ''/*'' @ block_text cs @ ''*/'') (block_text bs @ r))"
    using block_loop_steps(2) [of "d + 1" "u @ ''/*'' @ block_text cs" "block_text bs @ r"] by simp
  also have "\<dots> = block_loop d (lexer_at (u @ block_text (Nested cs # bs)) r)"
    using 3(2) [of d "u @ ''/*'' @ block_text cs @ ''*/''"] 3(3,4) by simp
  finally show ?case .
qed simp

lemma lexer_next_code:
  "\<not> is_space c \<Longrightarrow> \<not> (c = CHR ''/'' \<and> next_is (\<lambda>d. d = CHR ''/'' \<or> d = CHR ''*'') r) \<Longrightarrow>
    lexer_next (lexer_at u (c # r)) = lexer_next (skip_code c (lexer_at u (c # r)))"
  by (subst lexer_next.simps) (cases r; auto)

lemma at_lifetime_at: "at_lifetime (lexer_at u (c # r)) = lifetime_start r"
  by (auto simp: at_lifetime_def lifetime_start_def quotes next_is_def split: list.splits)

lemma code_not_space: "\<not> is_space DQUOTE" "\<not> is_space QUOTE" "\<not> is_space CHR ''b''" "\<not> is_space CHR ''r''"
  "\<not> is_space CHR ''/''"
  by (simp_all add: is_space_def quotes)

lemma skip_raw_start:
  assumes "b \<or> next_is (\<lambda>d. d = DQUOTE \<or> d = CHR ''#'') r"
  shows "lexer_next (lexer_at u ((if b then ''br'' else ''r'') @ r)) =
    lexer_next (skip_raw_string (lexer_at (u @ (if b then ''br'' else ''r'')) r))"
proof (cases b)
  case True
  then show ?thesis using lexer_next_code [of "CHR ''b''" "CHR ''r'' # r" u] code_not_space(3)
    by (simp add: skip_code_def)
next
  case False
  then obtain d t where "r = d # t" "d = DQUOTE \<or> d = CHR ''#''" using assms by (cases r) auto
  then show ?thesis using False lexer_next_code [of "CHR ''r''" r u] code_not_space(4)
    by (auto simp: skip_code_def quotes)
qed

lemma skip_piece:
  assumes "piece_ok p r" "trivia_kind_of p = None"
  shows "lexer_next (lexer_at u (piece_text p @ r)) = lexer_next (lexer_at (u @ piece_text p) r)"
proof (cases p)
  case (Quoted q qs)
  with assms(1) have "q = DQUOTE \<and> quoted_ok DQUOTE qs \<or>
      q = QUOTE \<and> quoted_ok QUOTE qs \<and> \<not> at_lifetime (lexer_at u (QUOTE # quoted_text qs @ QUOTE # r))"
    by (auto simp: at_lifetime_at)
  moreover have "\<not> (q = CHR ''/'' \<and> X)" "\<not> is_space q" if "q = DQUOTE \<or> q = QUOTE" for X
    using that code_not_space by (auto simp: quotes)
  ultimately show ?thesis using Quoted lexer_next_code [of q "quoted_text qs @ q # r" u] skip_quoted_at [of qs u r]
    by (auto simp: skip_code_def quotes)
next
  case (Bytes q qs)
  with assms(1) have "q = DQUOTE \<and> quoted_ok DQUOTE qs \<or> q = QUOTE \<and> quoted_ok QUOTE qs" by auto
  then show ?thesis using Bytes lexer_next_code [of "CHR ''b''" "q # quoted_text qs @ q # r" u] code_not_space(3)
      skip_quoted_at [of qs "u @ ''b''" r] by (auto simp: skip_code_def quotes)
next
  case (Raw b n s)
  let ?r = "replicate n CHR ''#'' @ DQUOTE # s @ DQUOTE # replicate n CHR ''#'' @ r"
  have "next_is (\<lambda>d. d = DQUOTE \<or> d = CHR ''#'') ?r" by (cases n) simp_all
  moreover have "raw_ok n s" using assms(1) Raw by simp
  ultimately show ?thesis
    using Raw skip_raw_start [of b ?r u] skip_raw_string_at(1) [of n s "u @ (if b then ''br'' else ''r'')" r]
    by (simp add: raw_start_def)
next
  case (Not_raw b n)
  then have "b \<or> next_is (\<lambda>d. d = DQUOTE \<or> d = CHR ''#'') (replicate n CHR ''#'' @ r)"
    using assms(1) by (cases n) simp_all
  then show ?thesis
    using Not_raw assms(1) skip_raw_start [of b "replicate n CHR ''#'' @ r" u]
      skip_raw_string_at(2) [of r "u @ (if b then ''br'' else ''r'')" n] by (auto simp: raw_start_def)
next
  case Lifetime
  then show ?thesis using assms(1) lexer_next_code [of QUOTE r u] code_not_space(2)
    by (simp add: skip_code_def at_lifetime_at quotes)
next
  case (Code c)
  then show ?thesis using assms(1) lexer_next_code [of c r u] by (cases r) (auto simp: skip_code_def quotes)
qed (use assms(2) in simp_all)

lemma next_is_Cons: "next_is P r \<longleftrightarrow> (\<exists>c t. r = c # t \<and> P c)"
  by (cases r) simp_all

lemma yield_piece:
  assumes "piece_ok p r" "trivia_kind_of p = Some k"
  shows "lexer_next (lexer_at u (piece_text p @ r)) =
    (Some \<lparr>tv_start = advance u origin_pos, tv_end = advance (piece_text p) (advance u origin_pos),
       tv_content = piece_text p, tv_kind = k\<rparr>, lexer_at (u @ piece_text p) r)"
proof (cases p)
  case (White s)
  with assms(1) obtain c t where s: "s = c # t" "is_space c" "list_all is_space s" "\<not> next_is is_space r"
    by (cases s) auto
  then have "takeWhile is_space (s @ r) = s" "dropWhile is_space (s @ r) = r"
    by (cases r; auto simp: list_all_iff takeWhile_append dropWhile_append)+
  then have "scan_whitespace (lexer_at u (s @ r)) = (trivia_of Whitespace (lexer_at u (s @ r)) (lexer_at (u @ s) r), lexer_at (u @ s) r)"
    by (simp add: scan_whitespace_def Let_def bump_while_at)
  moreover have "lexer_next (lexer_at u (s @ r)) = apfst Some (scan_whitespace (lexer_at u (s @ r)))"
    using s(1,2) by (subst lexer_next.simps) simp
  ultimately show ?thesis using White assms(2) by simp
next
  case (Line s)
  with assms(1) have s: "NEWLINE \<notin> set s" "r = [] \<or> next_is (\<lambda>c. c = NEWLINE) r" by auto
  then have "takeWhile (\<lambda>c. c \<noteq> NEWLINE) (s @ r) = s" "dropWhile (\<lambda>c. c \<noteq> NEWLINE) (s @ r) = r"
    by (auto simp: takeWhile_append dropWhile_append next_is_Cons)
  then have "scan_line_comment (lexer_at u ((''//'' @ s) @ r)) =
      (trivia_of LineComment (lexer_at u ((''//'' @ s) @ r)) (lexer_at (u @ ''//'' @ s) r), lexer_at (u @ ''//'' @ s) r)"
    by (simp add: scan_line_comment_def Let_def bump_while_at)
  moreover have "lexer_next (lexer_at u ((''//'' @ s) @ r)) = apfst Some (scan_line_comment (lexer_at u ((''//'' @ s) @ r)))"
    using code_not_space(5) by (subst lexer_next.simps) simp
  ultimately show ?thesis using Line assms(2) trivia_of_at [of LineComment u "''//'' @ s" r] by (simp del: trivia_of_at)
next
  case (Block bs)
  let ?s = "''/*'' @ block_text bs @ ''*/''"
  have "block_loop 1 (lexer_at (u @ ''/*'') (block_text bs @ ''*/'' @ r)) = block_loop 0 (lexer_at (u @ ?s) r)"
    using block_loop_at [of 1 bs "''*/'' @ r" "u @ ''/*''"] block_loop_steps(2) [of 1 "u @ ''/*'' @ block_text bs" r]
      assms(1) Block by simp
  then have "scan_block_comment (lexer_at u (?s @ r)) =
      (trivia_of BlockComment (lexer_at u (?s @ r)) (lexer_at (u @ ?s) r), lexer_at (u @ ?s) r)"
    by (simp add: scan_block_comment_def Let_def block_loop.simps [of 0])
  moreover have "lexer_next (lexer_at u (?s @ r)) = apfst Some (scan_block_comment (lexer_at u (?s @ r)))"
    using code_not_space(5) by (subst lexer_next.simps) simp
  ultimately show ?thesis using Block assms(2) trivia_of_at [of BlockComment u ?s r] by (simp del: trivia_of_at)
qed (use assms(2) in simp_all)

text \<open>The lexer finds the comments: of a source made of tokens, each read as itself where it stands, it
  yields exactly the comments and the white space, with their positions and in their order, whatever
  the strings, characters, raw strings, lifetimes and nested comments hold.\<close>

theorem lexer_finds_trivia:
  assumes "source_ok ps"
  shows "lexer_collect (lexer_new (render_source ps)) = trivia_in origin_pos ps"
proof -
  have "lexer_collect (lexer_at u (render_source ps)) = trivia_in (advance u origin_pos) ps" for u
    using assms
  proof (induction ps arbitrary: u)
    case Nil
    then show ?case
      by (subst lexer_collect.simps) (simp add: lexer_next.simps [of "lexer_at u []"] render_source_def)
  next
    case (Cons p ps)
    let ?r = "render_source ps"
    have ok: "piece_ok p ?r" and r: "render_source (p # ps) = piece_text p @ ?r"
      using Cons.prems by (simp_all add: render_source_def)
    have ih: "lexer_collect (lexer_at (u @ piece_text p) ?r) = trivia_in (advance (piece_text p) (advance u origin_pos)) ps"
      using Cons.IH [of "u @ piece_text p"] Cons.prems by simp
    show ?case
    proof (cases "trivia_kind_of p")
      case None
      have "lexer_collect (lexer_at u (piece_text p @ ?r)) = lexer_collect (lexer_at (u @ piece_text p) ?r)"
        by (subst (1 2) lexer_collect.simps) (simp only: skip_piece [OF ok None])
      with ih None show ?thesis by (simp add: r Let_def)
    next
      case (Some k)
      show ?thesis unfolding r
        by (subst lexer_collect.simps) (simp only: yield_piece [OF ok Some] prod.case option.case ih trivia_in.simps Let_def Some)
    qed
  qed
  then show ?thesis by (simp add: lexer_new_at)
qed

definition demo_source :: "piece list" where
  "demo_source = [Code CHR ''x'', Code CHR ''='', Quoted DQUOTE [Lit CHR ''/'', Lit CHR ''/'', Escaped DQUOTE], White '' '',
     Line [CHR ''a'', QUOTE, DQUOTE], White [NEWLINE], Lifetime, Code CHR ''a'', Code CHR '';'', Block [Inside CHR ''!'', Nested [Inside CHR '' ''], Inside CHR '' ''],
     Raw True 1 ''/*'', Line []]"

theorem lexer_finds_trivia_witness:
  "lexer_collect (lexer_new (render_source demo_source)) = trivia_in origin_pos demo_source"
  by (rule lexer_finds_trivia)
    (simp add: demo_source_def render_source_def raw_start_def is_space_def is_alphabetic_def lifetime_start_def quotes NEWLINE_def)

end
