(* ===== verification/Live_Types.thy ===== *)
theory Live_Types
  imports Futures Http_Types View_Buffer
begin

text \<open>
  What views hand to each other while a page streams: handles, first contents, swaps, the
  thread-local state a poll runs in, and the contract every view keeps.  A handle is its pieces (the
  text and the region markers its block writes) with the buffer it belongs to; \<open>View_Buffer\<close> relates a
  block's instructions to what it writes.
\<close>

subsection \<open>Handles\<close>

datatype marker = RegionStart region_id | RegionEnd region_id

datatype 'h piece = Leaf 'h | Marker marker

record 'h handle =
  hd_home :: "nat option"
  hd_pieces :: "'h piece list"

definition handle_empty :: "'h handle" where
  "handle_empty = \<lparr>hd_home = None, hd_pieces = []\<rparr>"

record 'h view_first =
  vf_content :: "'h handle"
  vf_live :: bool

record 'h view_swap =
  vs_region :: region_id
  vs_replacement :: "'h handle"

subsection \<open>The thread's state\<close>

datatype drive_input = DriveFirst | DriveSwap

text \<open>Hoisted parts write text only.\<close>

record 'h hoisted =
  hs_parts :: "'h list list"
  hs_keys :: "nat set"

text \<open>\<open>w_active\<close> is the buffer of the running build and \<open>w_next\<close> the next buffer id; \<open>w_env\<close> is all that a
  poll may depend on beside.\<close>

record ('h, 'e) world =
  w_active :: "nat option"
  w_next :: nat
  w_hoisted :: "'h hoisted option"
  w_drive :: "drive_input option"
  w_yield_first :: "'h view_first option"
  w_yield_swap :: "'h view_swap option"
  w_env :: 'e

type_synonym ('s, 'h, 'e, 'r) machine =
  "'s \<Rightarrow> ('h, 'e) world \<Rightarrow> ('r poll \<times> 's \<times> ('h, 'e) world) outcome"

type_synonym ('s, 'h, 'e, 'x, 'a) future = "('s, 'h, 'e, ('a, 'x) result) machine"

record ('s, 'h, 'e, 'x) view_ops =
  poll_first :: "('s, 'h, 'e, ('h view_first, 'x) result) machine"
  poll_swap :: "('s, 'h, 'e, ('h view_swap option, 'x) result) machine"

text \<open>\<^verbatim>\<open>ViewBufferScope::new\<close> and its drop, around a poll: the slot and the active buffer trade places.\<close>

definition in_scope :: "nat option \<Rightarrow> (('h, 'e) world \<Rightarrow> ('a \<times> 's \<times> ('h, 'e) world) outcome) \<Rightarrow>
    ('h, 'e) world \<Rightarrow> ('a \<times> ('s \<times> nat option) \<times> ('h, 'e) world) outcome" where
  "in_scope slot f w =
     bind_outcome (f (w\<lparr>w_active := slot\<rparr>)) (\<lambda>(a, s, w').
       Done (a, (s, w_active w'), w'\<lparr>w_active := w_active w\<rparr>))"

datatype 'h block_part = PartStart region_id | PartEnd region_id | PartHandle "'h handle" | PartLeaf 'h

fun part_pieces :: "'h block_part \<Rightarrow> 'h piece list" where
  "part_pieces (PartStart r) = [Marker (RegionStart r)]"
| "part_pieces (PartEnd r) = [Marker (RegionEnd r)]"
| "part_pieces (PartHandle h) = hd_pieces h"
| "part_pieces (PartLeaf x) = [Leaf x]"

fun part_home_ok :: "nat \<Rightarrow> 'h block_part \<Rightarrow> bool" where
  "part_home_ok b (PartHandle h) \<longleftrightarrow> hd_home h = None \<or> hd_home h = Some b"
| "part_home_ok b _ = True"

text \<open>A block in a buffer takes handles of that buffer and self-contained ones only.\<close>

definition block_in :: "nat \<Rightarrow> 'h block_part list \<Rightarrow> 'h handle outcome" where
  "block_in b ps =
     (if list_all (part_home_ok b) ps then Done \<lparr>hd_home = Some b, hd_pieces = concat (map part_pieces ps)\<rparr>
      else Panic)"

definition scope_block :: "'h block_part list \<Rightarrow> ('h, 'e) world \<Rightarrow> 'h handle outcome" where
  "scope_block ps w = (case w_active w of None \<Rightarrow> Panic | Some b \<Rightarrow> block_in b ps)"

definition handle_seal :: "nat \<Rightarrow> 'h handle \<Rightarrow> 'h handle outcome" where
  "handle_seal b h =
     (case hd_home h of None \<Rightarrow> Done h | Some i \<Rightarrow> if i = b then Done (h\<lparr>hd_home := None\<rparr>) else Panic)"

text \<open>A content put in a region.\<close>

definition in_region :: "region_id \<Rightarrow> 'h handle \<Rightarrow> 'h block_part list" where
  "in_region r h = [PartStart r, PartHandle h, PartEnd r]"

subsection \<open>What the page shows\<close>

fun marks :: "'h piece list \<Rightarrow> marker list" where
  "marks [] = []"
| "marks (Leaf x # ps) = marks ps"
| "marks (Marker m # ps) = m # marks ps"

fun marker_id :: "marker \<Rightarrow> region_id" where
  "marker_id (RegionStart r) = r"
| "marker_id (RegionEnd r) = r"

definition ids_of :: "marker list \<Rightarrow> region_id set" where
  "ids_of ms = marker_id ` set ms"

text \<open>A region is on the page: its two markers stand on it, once each and in order.\<close>

definition has_region :: "region_id \<Rightarrow> marker list \<Rightarrow> bool" where
  "has_region r ms \<longleftrightarrow> (\<exists>a m b. ms = a @ RegionStart r # m @ RegionEnd r # b \<and>
     r \<notin> ids_of a \<and> r \<notin> ids_of m \<and> r \<notin> ids_of b)"

text \<open>What a swap does to the page: what is between the markers is replaced.\<close>

definition swap_in :: "region_id \<Rightarrow> marker list \<Rightarrow> marker list \<Rightarrow> marker list" where
  "swap_in r new ms =
     takeWhile (\<lambda>m. m \<noteq> RegionStart r) ms @ RegionStart r # new @ dropWhile (\<lambda>m. m \<noteq> RegionEnd r) ms"

lemma marks_append [simp]: "marks (a @ b) = marks a @ marks b"
  by (induction a rule: marks.induct) simp_all

lemma ids_of_simps [simp]: "ids_of [] = {}" "ids_of (m # ms) = insert (marker_id m) (ids_of ms)"
  "ids_of (a @ b) = ids_of a \<union> ids_of b"
  by (auto simp: ids_of_def)

lemma not_in_ids: "r \<notin> ids_of ms \<Longrightarrow> m \<in> set ms \<Longrightarrow> m \<noteq> RegionStart r \<and> m \<noteq> RegionEnd r"
  by (force simp: ids_of_def)

lemma swap_in_region:
  assumes "r \<notin> ids_of a" "r \<notin> ids_of m"
  shows "swap_in r new (a @ RegionStart r # m @ RegionEnd r # b) = a @ RegionStart r # new @ RegionEnd r # b"
proof -
  have "\<forall>x \<in> set a. x \<noteq> RegionStart r \<and> x \<noteq> RegionEnd r" "\<forall>x \<in> set m. x \<noteq> RegionEnd r"
    using assms not_in_ids by blast+
  then show ?thesis by (simp add: swap_in_def takeWhile_append dropWhile_append)
qed

lemma swap_in_context:
  assumes "has_region r ms" "r \<notin> ids_of a" "r \<notin> ids_of b"
  shows "swap_in r new (a @ ms @ b) = a @ swap_in r new ms @ b" "has_region r (a @ ms @ b)"
proof -
  obtain x m y where ms: "ms = x @ RegionStart r # m @ RegionEnd r # y"
    "r \<notin> ids_of x" "r \<notin> ids_of m" "r \<notin> ids_of y"
    using assms(1) by (auto simp: has_region_def)
  show "swap_in r new (a @ ms @ b) = a @ swap_in r new ms @ b"
    using swap_in_region [of r "a @ x" m new "y @ b"] swap_in_region [of r x m new y] ms assms(2) by simp
  have "a @ ms @ b = (a @ x) @ RegionStart r # m @ RegionEnd r # (y @ b)" using ms(1) by simp
  with ms(2-4) assms(2,3) show "has_region r (a @ ms @ b)"
    unfolding has_region_def by (metis Un_iff ids_of_simps(3))
qed

lemma swap_in_ids: "has_region r ms \<Longrightarrow> ids_of (swap_in r new ms) \<subseteq> ids_of ms \<union> ids_of new"
  by (auto simp: has_region_def swap_in_region)

lemma has_region_ids: "has_region r ms \<Longrightarrow> r \<in> ids_of ms"
  by (auto simp: has_region_def)

lemma region_around:
  assumes "r \<notin> ids_of ms"
  shows "has_region r (RegionStart r # ms @ [RegionEnd r])"
    "swap_in r new (RegionStart r # ms @ [RegionEnd r]) = RegionStart r # new @ [RegionEnd r]"
proof -
  show "has_region r (RegionStart r # ms @ [RegionEnd r])"
    unfolding has_region_def by (rule exI [of _ "[]"], rule exI [of _ ms], rule exI [of _ "[]"]) (use assms in simp)
  show "swap_in r new (RegionStart r # ms @ [RegionEnd r]) = RegionStart r # new @ [RegionEnd r]"
    using assms swap_in_region [of r "[]" ms new "[]"] by simp
qed

lemma swap_inside:
  assumes "has_region r ms" "r \<noteq> q"
  shows "has_region r (RegionStart q # ms @ [RegionEnd q])"
    "swap_in r new (RegionStart q # ms @ [RegionEnd q]) = RegionStart q # swap_in r new ms @ [RegionEnd q]"
  using swap_in_context [OF assms(1), of "[RegionStart q]" "[RegionEnd q]"] assms(2) by simp_all

lemma block_in_Done: "block_in b ps = Done h \<longleftrightarrow>
    list_all (part_home_ok b) ps \<and> h = \<lparr>hd_home = Some b, hd_pieces = concat (map part_pieces ps)\<rparr>"
  by (auto simp: block_in_def)

lemma in_region_pieces [simp]:
  "marks (concat (map part_pieces (in_region r h))) = RegionStart r # marks (hd_pieces h) @ [RegionEnd r]"
  by (simp add: in_region_def)

lemma scope_region:
  assumes "w_active w = Some b" "hd_home h = None \<or> hd_home h = Some b"
  shows "scope_block (in_region r h) w =
    Done \<lparr>hd_home = Some b, hd_pieces = concat (map part_pieces (in_region r h))\<rparr>"
  using assms by (simp add: scope_block_def block_in_def in_region_def)

subsection \<open>The contract of a view\<close>

text \<open>A poll leaves the thread as it found it: the active buffer, whether hoisted parts are collected, and
  what an enclosing drive put down.\<close>

definition same_frame :: "('h, 'e) world \<Rightarrow> ('h, 'e) world \<Rightarrow> bool" where
  "same_frame w w' \<longleftrightarrow> w_active w' = w_active w \<and> (w_hoisted w' = None \<longleftrightarrow> w_hoisted w = None) \<and>
     w_drive w' = w_drive w \<and> w_yield_first w' = w_yield_first w \<and> w_yield_swap w' = w_yield_swap w"

lemma same_frame_refl [simp]: "same_frame w w"
  by (simp add: same_frame_def)

lemma same_frame_trans: "same_frame u v \<Longrightarrow> same_frame v w \<Longrightarrow> same_frame u w"
  by (simp add: same_frame_def)

lemma same_frame_world: "same_frame w w' \<Longrightarrow> w_active w' = w_active w"
  "same_frame w w' \<Longrightarrow> c \<longrightarrow> w_hoisted w \<noteq> None \<Longrightarrow> c \<longrightarrow> w_hoisted w' \<noteq> None"
  by (simp_all add: same_frame_def)

text \<open>A poll returns, keeps the frame and has a good result.\<close>

definition polls :: "('p \<times> 's \<times> ('h, 'e) world) outcome \<Rightarrow> ('h, 'e) world \<Rightarrow> ('p \<Rightarrow> 's \<Rightarrow> bool) \<Rightarrow> bool" where
  "polls m w good \<longleftrightarrow> (\<exists>p s w'. m = Done (p, s, w') \<and> same_frame w w' \<and> good p s)"

lemma polls_Done [simp]: "polls (Done (p, s, w')) w good \<longleftrightarrow> same_frame w w' \<and> good p s"
  by (simp add: polls_def)

lemma pollsE:
  assumes "polls m w good"
  obtains p s w' where "m = Done (p, s, w')" "same_frame w w'" "good p s"
  using assms by (auto simp: polls_def)

lemma polls_bind:
  assumes "polls m w good" "\<And>p s w'. good p s \<Longrightarrow> same_frame w w' \<Longrightarrow> polls (k p s w') w' better"
  shows "polls (bind_outcome m (\<lambda>(p, s, w'). k p s w')) w better"
proof -
  obtain p s w' where m: "m = Done (p, s, w')" "same_frame w w'" "good p s" using assms(1) by (auto simp: polls_def)
  then show ?thesis using assms(2) [OF m(3,2)] same_frame_trans by (fastforce simp: polls_def)
qed

lemma polls_weaken: "polls m w good \<Longrightarrow> (\<And>p s. good p s \<Longrightarrow> better p s) \<Longrightarrow> polls m w better"
  by (auto simp: polls_def)

lemma polls_in_scope:
  assumes "polls (f (w\<lparr>w_active := slot\<rparr>)) (w\<lparr>w_active := slot\<rparr>) good"
  shows "polls (in_scope slot f w) w (\<lambda>p (s, b). b = slot \<and> good p s)"
proof -
  obtain p s w' where "f (w\<lparr>w_active := slot\<rparr>) = Done (p, s, w')" "same_frame (w\<lparr>w_active := slot\<rparr>) w'" "good p s"
    using assms by (auto simp: polls_def)
  then show ?thesis by (simp add: in_scope_def same_frame_def)
qed

lemma polls_case_poll:
  assumes "p = Pending \<Longrightarrow> polls a w good" "\<And>e. p = Ready (Inl e) \<Longrightarrow> polls (f e) w good"
    "\<And>x. p = Ready (Inr x) \<Longrightarrow> polls (g x) w good"
  shows "polls (case p of Pending \<Rightarrow> a | Ready (Inl e) \<Rightarrow> f e | Ready (Inr x) \<Rightarrow> g x) w good"
  using assms by (auto split: poll.split sum.split)

text \<open>A handle may be used where it is self-contained or its own build runs.\<close>

definition home_ok :: "nat option \<Rightarrow> 'h handle \<Rightarrow> bool" where
  "home_ok active h \<longleftrightarrow> hd_home h = None \<or> hd_home h = active"

text \<open>The states a view is promised about are \<open>fresh I a\<close>, its first content still to come and to be polled
  for with the active buffer \<open>a\<close>, and \<open>shown I page\<close>, its content standing on the page with the markers
  \<open>page\<close>; \<open>I\<close> are the regions it may use.\<close>

type_synonym 's fresh_states = "region_id set \<Rightarrow> nat option \<Rightarrow> 's \<Rightarrow> bool"
type_synonym 's shown_states = "region_id set \<Rightarrow> 's \<Rightarrow> marker list \<Rightarrow> bool"

definition marks_of :: "'h handle \<Rightarrow> marker list" where
  "marks_of h = marks (hd_pieces h)"

lemma marks_of_simps [simp]: "marks_of (h\<lparr>hd_home := x\<rparr>) = marks_of h" "marks_of handle_empty = []"
  "marks_of \<lparr>hd_home = x, hd_pieces = ps\<rparr> = marks ps"
  by (simp_all add: marks_of_def handle_empty_def)

definition first_ok :: "'s fresh_states \<Rightarrow> 's shown_states \<Rightarrow> region_id set \<Rightarrow> nat option \<Rightarrow>
    ('h view_first, 'x) result poll \<Rightarrow> 's \<Rightarrow> bool" where
  "first_ok fresh shown I a p s \<longleftrightarrow>
     (case p of
        Pending \<Rightarrow> fresh I a s
      | Ready (Inl _) \<Rightarrow> True
      | Ready (Inr f) \<Rightarrow> home_ok a (vf_content f) \<and> ids_of (marks_of (vf_content f)) \<subseteq> I \<and>
          (vf_live f \<longrightarrow> shown I s (marks_of (vf_content f))))"

definition swap_fits :: "region_id set \<Rightarrow> nat option \<Rightarrow> bool \<Rightarrow> marker list \<Rightarrow> 'h view_swap \<Rightarrow> bool" where
  "swap_fits I a q page u \<longleftrightarrow> home_ok a (vs_replacement u) \<and> (q \<longrightarrow> hd_home (vs_replacement u) = None) \<and>
     ids_of (marks_of (vs_replacement u)) \<subseteq> I \<and> has_region (vs_region u) page"

definition after_swap :: "'h view_swap \<Rightarrow> marker list \<Rightarrow> marker list" where
  "after_swap u page = swap_in (vs_region u) (marks_of (vs_replacement u)) page"

definition swap_ok :: "'s shown_states \<Rightarrow> region_id set \<Rightarrow> nat option \<Rightarrow> bool \<Rightarrow> marker list \<Rightarrow>
    ('h view_swap option, 'x) result poll \<Rightarrow> 's \<Rightarrow> bool" where
  "swap_ok shown I a q page p s \<longleftrightarrow>
     (case p of
        Pending \<Rightarrow> shown I s page
      | Ready (Inl _) \<Rightarrow> True
      | Ready (Inr None) \<Rightarrow> True
      | Ready (Inr (Some u)) \<Rightarrow> swap_fits I a q page u \<and> shown I s (after_swap u page))"

definition sealed_content :: "('h view_first, 'x) result poll \<Rightarrow> bool" where
  "sealed_content p \<longleftrightarrow> (\<forall>f. p = Ready (Inr f) \<longrightarrow> hd_home (vf_content f) = None)"

lemma sealed_content_simps [simp]: "sealed_content Pending" "sealed_content (Ready (Inl e))"
  "sealed_content (Ready (Inr f)) \<longleftrightarrow> hd_home (vf_content f) = None"
  by (simp_all add: sealed_content_def)

lemma first_ok_simps [simp]:
  "first_ok fresh shown I a Pending s \<longleftrightarrow> fresh I a s"
  "first_ok fresh shown I a (Ready (Inl e)) s"
  "first_ok fresh shown I a (Ready (Inr f)) s \<longleftrightarrow> home_ok a (vf_content f) \<and> ids_of (marks_of (vf_content f)) \<subseteq> I \<and>
     (vf_live f \<longrightarrow> shown I s (marks_of (vf_content f)))"
  by (simp_all add: first_ok_def)

lemma swap_ok_simps [simp]:
  "swap_ok shown I a q page Pending s \<longleftrightarrow> shown I s page"
  "swap_ok shown I a q page (Ready (Inl e)) s"
  "swap_ok shown I a q page (Ready (Inr None)) s"
  "swap_ok shown I a q page (Ready (Inr (Some u))) s \<longleftrightarrow> swap_fits I a q page u \<and> shown I s (after_swap u page)"
  by (simp_all add: swap_ok_def)

lemma poll_result_cases:
  obtains (pending) "p = Pending" | (failed) e where "p = Ready (Inl e)" | (ready) x where "p = Ready (Inr x)"
  by (cases p) (auto split: sum.splits, metis sum.exhaust)

lemma poll_option_cases:
  obtains (pending) "p = Pending" | (failed) e where "p = Ready (Inl e)" | (finished) "p = Ready (Inr None)"
  | (swapped) u where "p = Ready (Inr (Some u))"
  by (metis poll_result_cases option.exhaust)

text \<open>The contract: polled in the states it is in and, if \<open>c\<close>, while hoisted parts are collected, a view
  does not panic, hands over content of the running build or of its own, and swaps only regions that
  are on the page.  With \<open>q\<close> its replacements are self-contained even inside a build.\<close>

locale live_contract =
  fixes V :: "('s, 'h, 'e, 'x) view_ops" and fresh :: "'s fresh_states" and shown :: "'s shown_states"
    and c :: bool and q :: bool
  assumes first_law: "fresh I (w_active w) s \<Longrightarrow> (c \<longrightarrow> w_hoisted w \<noteq> None) \<Longrightarrow>
      polls (poll_first V s w) w (first_ok fresh shown I (w_active w))"
    and swap_law: "shown I s page \<Longrightarrow> (c \<longrightarrow> w_hoisted w \<noteq> None) \<Longrightarrow>
      polls (poll_swap V s w) w (swap_ok shown I (w_active w) q page)"
    and shown_ids: "shown I s page \<Longrightarrow> ids_of page \<subseteq> I"
begin

lemma first_returns: "fresh I (w_active w) s \<Longrightarrow> (c \<longrightarrow> w_hoisted w \<noteq> None) \<Longrightarrow> poll_first V s w \<noteq> Panic"
  using first_law [of I w s] by (auto simp: polls_def)

lemma swap_returns: "shown I s page \<Longrightarrow> (c \<longrightarrow> w_hoisted w \<noteq> None) \<Longrightarrow> poll_swap V s w \<noteq> Panic"
  using swap_law [of I s page w] by (auto simp: polls_def)

end

text \<open>A view that can be polled anywhere, with content and replacements of its own.\<close>

locale sealed_contract = live_contract V fresh shown c True
  for V :: "('s, 'h, 'e, 'x) view_ops" and fresh shown c +
  assumes anywhere: "fresh I a s \<Longrightarrow> fresh I b s"
    and sealed_law: "fresh I a s \<Longrightarrow> (c \<longrightarrow> w_hoisted w \<noteq> None) \<Longrightarrow>
      polls (poll_first V s w) w (\<lambda>p s. first_ok fresh shown I a p s \<and> sealed_content p)"

end
