(* ===== verification/Live_Views.thy ===== *)
theory Live_Views
  imports Live_Types
begin

text \<open>
  The views of \<^verbatim>\<open>crates/topcoat-view/src/internal\<close> and \<^verbatim>\<open>view.rs\<close>: scopes, branches, awaited views,
  live regions, suspense, error boundaries, loops and joins.  Each maps the views inside it to a view
  and keeps their contract.
\<close>

subsection \<open>The empty view, branches and awaited views\<close>

definition unit_view :: "(unit, 'h, 'e, 'x) view_ops" where
  "unit_view =
     \<lparr>poll_first = \<lambda>s w. Done (Ready (Ok \<lparr>vf_content = handle_empty, vf_live = False\<rparr>), s, w),
      poll_swap = \<lambda>s w. Done (Ready (Ok None), s, w)\<rparr>"

text \<open>\<^verbatim>\<open>ViewExt::first\<close> and \<^verbatim>\<open>single\<close>: the first content alone, where the second takes no live view.\<close>

definition first_content :: "('s, 'h, 'e, 'x) view_ops \<Rightarrow> ('s, 'h, 'e, 'x, 'h handle) future" where
  "first_content V s w = bind_outcome (poll_first V s w) (\<lambda>(p, s, w). case p of
     Ready (Inr f) \<Rightarrow> Done (Ready (Ok (vf_content f)), s, w)
   | Ready (Inl e) \<Rightarrow> Done (Ready (Inl e), s, w)
   | Pending \<Rightarrow> Done (Pending, s, w))"

definition view_single :: "('s, 'h, 'e, 'x) view_ops \<Rightarrow> ('s, 'h, 'e, 'x, 'h handle) future" where
  "view_single V s w = bind_outcome (poll_first V s w) (\<lambda>(p, s, w). case p of
     Ready (Inr f) \<Rightarrow> if vf_live f then Panic else Done (Ready (Ok (vf_content f)), s, w)
   | Ready (Inl e) \<Rightarrow> Done (Ready (Inl e), s, w)
   | Pending \<Rightarrow> Done (Pending, s, w))"

definition map_state :: "('s \<Rightarrow> 't) \<Rightarrow> ('r poll \<times> 's \<times> ('h, 'e) world) outcome \<Rightarrow> ('r poll \<times> 't \<times> ('h, 'e) world) outcome" where
  "map_state g m = bind_outcome m (\<lambda>(p, s, w). Done (p, g s, w))"

definition either_view :: "('s, 'h, 'e, 'x) view_ops \<Rightarrow> ('t, 'h, 'e, 'x) view_ops \<Rightarrow> ('s + 't, 'h, 'e, 'x) view_ops" where
  "either_view A B =
     \<lparr>poll_first = \<lambda>s w. (case s of Inl a \<Rightarrow> map_state Inl (poll_first A a w) | Inr b \<Rightarrow> map_state Inr (poll_first B b w)),
      poll_swap = \<lambda>s w. (case s of Inl a \<Rightarrow> map_state Inl (poll_swap A a w) | Inr b \<Rightarrow> map_state Inr (poll_swap B b w))\<rparr>"

datatype ('f, 's) then_state = ThenFuture 'f | ThenView 's

text \<open>The loop of \<^verbatim>\<open>poll_first\<close> runs at most twice: a future once ready is replaced by its view.\<close>

definition then_view :: "('f, 'h, 'e, 'x, 's) future \<Rightarrow> ('s, 'h, 'e, 'x) view_ops \<Rightarrow>
    (('f, 's) then_state, 'h, 'e, 'x) view_ops" where
  "then_view F V =
     \<lparr>poll_first = \<lambda>s w. (case s of
          ThenFuture f \<Rightarrow> bind_outcome (F f w) (\<lambda>(p, f, w). case p of
              Pending \<Rightarrow> Done (Pending, ThenFuture f, w)
            | Ready (Inl e) \<Rightarrow> Done (Ready (Inl e), ThenFuture f, w)
            | Ready (Inr v) \<Rightarrow> map_state ThenView (poll_first V v w))
        | ThenView v \<Rightarrow> map_state ThenView (poll_first V v w)),
      poll_swap = \<lambda>s w. (case s of
          ThenFuture f \<Rightarrow> Panic
        | ThenView v \<Rightarrow> map_state ThenView (poll_swap V v w))\<rparr>"

subsection \<open>Scopes\<close>

record 's scope_state =
  sc_view :: 's
  sc_buffer :: "nat option"
  sc_polled :: bool

definition scope_new :: "'s \<Rightarrow> 's scope_state" where
  "scope_new v = \<lparr>sc_view = v, sc_buffer = None, sc_polled = False\<rparr>"

text \<open>The closure builds the view with the new buffer installed.\<close>

definition scope_self_contained :: "(('h, 'e) world \<Rightarrow> ('s \<times> ('h, 'e) world) outcome) \<Rightarrow> ('h, 'e) world \<Rightarrow>
    ('s scope_state \<times> ('h, 'e) world) outcome" where
  "scope_self_contained f w =
     (let buffer = Some (w_next w); w = w\<lparr>w_next := w_next w + 1\<rparr>
      in bind_outcome (in_scope buffer (\<lambda>w. bind_outcome (f w) (\<lambda>(v, w). Done ((), v, w))) w)
           (\<lambda>(_, (v, buffer), w). Done (\<lparr>sc_view = v, sc_buffer = buffer, sc_polled = False\<rparr>, w)))"

definition scope_view :: "('s, 'h, 'e, 'x) view_ops \<Rightarrow> ('s scope_state, 'h, 'e, 'x) view_ops" where
  "scope_view V =
     \<lparr>poll_first = \<lambda>s w.
        (let fresh = \<not> sc_polled s \<and> sc_buffer s = None \<and> w_active w = None;
             buffer = (if fresh then Some (w_next w) else sc_buffer s);
             w = (if fresh then w\<lparr>w_next := w_next w + 1\<rparr> else w)
         in bind_outcome
              (if buffer \<noteq> None then in_scope buffer (poll_first V (sc_view s)) w
               else bind_outcome (poll_first V (sc_view s) w) (\<lambda>(p, v, w). Done (p, (v, None), w)))
              (\<lambda>(p, (v, buffer), w).
                 let s = \<lparr>sc_view = v, sc_buffer = buffer, sc_polled = True\<rparr>
                 in case p of
                      Pending \<Rightarrow> Done (Pending, s, w)
                    | Ready (Inl e) \<Rightarrow> Done (Ready (Inl e), s, w)
                    | Ready (Inr f) \<Rightarrow>
                        bind_outcome (case buffer of None \<Rightarrow> Done (vf_content f) | Some b \<Rightarrow> handle_seal b (vf_content f))
                          (\<lambda>content. Done (Ready (Ok (f\<lparr>vf_content := content\<rparr>)), s\<lparr>sc_buffer := None\<rparr>, w)))),
      poll_swap = \<lambda>s w. map_state (\<lambda>v. s\<lparr>sc_view := v\<rparr>) (poll_swap V (sc_view s) w)\<rparr>"

subsection \<open>Driving a view inside an async body\<close>

text \<open>The helpers of \<^verbatim>\<open>yielder.rs\<close>: a guard empties its slot and gives back on drop what was there.\<close>

definition body_first :: "('b, 'h, 'e, 'x, 'a) future \<Rightarrow> 'b \<Rightarrow> ('h, 'e) world \<Rightarrow>
    ((('a, 'x) result poll \<times> 'h view_first option) \<times> 'b \<times> ('h, 'e) world) outcome" where
  "body_first B b w =
     bind_outcome (B b (w\<lparr>w_yield_first := None, w_drive := Some DriveFirst\<rparr>)) (\<lambda>(p, b, w').
       Done ((p, w_yield_first w'), b, w'\<lparr>w_yield_first := w_yield_first w, w_drive := w_drive w\<rparr>))"

definition body_swap :: "('b, 'h, 'e, 'x, 'a) future \<Rightarrow> 'b \<Rightarrow> ('h, 'e) world \<Rightarrow>
    ((('a, 'x) result poll \<times> 'h view_swap option) \<times> 'b \<times> ('h, 'e) world) outcome" where
  "body_swap B b w =
     bind_outcome (B b (w\<lparr>w_yield_swap := None, w_drive := Some DriveSwap\<rparr>)) (\<lambda>(p, b, w').
       Done ((p, w_yield_swap w'), b, w'\<lparr>w_yield_swap := w_yield_swap w, w_drive := w_drive w\<rparr>))"

definition drive_future :: "('s, 'h, 'e, 'x) view_ops \<Rightarrow> ('s, 'h, 'e, 'x, unit) future" where
  "drive_future V s w =
     (case w_drive w of
        None \<Rightarrow> Panic
      | Some DriveFirst \<Rightarrow>
          if w_yield_first w \<noteq> None then Done (Pending, s, w)
          else bind_outcome (poll_first V s w) (\<lambda>(p, s, w). case p of
              Ready (Inr f) \<Rightarrow> Done (Pending, s, w\<lparr>w_yield_first := Some f\<rparr>)
            | Ready (Inl e) \<Rightarrow> Done (Ready (Inl e), s, w)
            | Pending \<Rightarrow> Done (Pending, s, w))
      | Some DriveSwap \<Rightarrow>
          if w_yield_swap w \<noteq> None then Done (Pending, s, w)
          else bind_outcome (poll_swap V s w) (\<lambda>(p, s, w). case p of
              Ready (Inr (Some u)) \<Rightarrow> Done (Pending, s, w\<lparr>w_yield_swap := Some u\<rparr>)
            | Ready (Inr None) \<Rightarrow> Done (Ready (Ok ()), s, w)
            | Ready (Inl e) \<Rightarrow> Done (Ready (Inl e), s, w)
            | Pending \<Rightarrow> Done (Pending, s, w)))"

definition move_view :: "('b, 'h, 'e, 'x, unit) future \<Rightarrow> ('b, 'h, 'e, 'x) view_ops" where
  "move_view B =
     \<lparr>poll_first = \<lambda>b w. bind_outcome (body_first B b w) (\<lambda>(r, b, w). case r of
          (Pending, Some f) \<Rightarrow> Done (Ready (Ok f), b, w)
        | (Pending, None) \<Rightarrow> Done (Pending, b, w)
        | (Ready _, Some _) \<Rightarrow> Panic
        | (Ready (Inl e), None) \<Rightarrow> Done (Ready (Inl e), b, w)
        | (Ready (Inr _), None) \<Rightarrow> Panic),
      poll_swap = \<lambda>b w. bind_outcome (body_swap B b w) (\<lambda>(r, b, w). case r of
          (Pending, Some u) \<Rightarrow> Done (Ready (Ok (Some u)), b, w)
        | (Pending, None) \<Rightarrow> Done (Pending, b, w)
        | (Ready _, Some _) \<Rightarrow> Panic
        | (Ready (Inl e), None) \<Rightarrow> Done (Ready (Inl e), b, w)
        | (Ready (Inr _), None) \<Rightarrow> Done (Ready (Ok None), b, w))\<rparr>"

subsection \<open>Live regions\<close>

record ('b, 'h) live_state =
  lv_body :: 'b
  lv_region :: region_id
  lv_stash :: "'h view_swap option"

definition live_view :: "('b, 'h, 'e, 'x, unit) future \<Rightarrow> (('b, 'h) live_state, 'h, 'e, 'x) view_ops" where
  "live_view B =
     \<lparr>poll_first = \<lambda>s w. bind_outcome (body_first B (lv_body s) w) (\<lambda>(r, b, w). case r of
          (Pending, Some f) \<Rightarrow>
            bind_outcome (body_swap B b w) (\<lambda>((p, yielded), b, w). case p of
              Ready (Inl e) \<Rightarrow> Done (Ready (Inl e), s\<lparr>lv_body := b\<rparr>, w)
            | _ \<Rightarrow>
                (let s = s\<lparr>lv_body := b, lv_stash := yielded\<rparr>; alive = (case p of Pending \<Rightarrow> True | Ready _ \<Rightarrow> False)
                 in bind_outcome (if alive then scope_block (in_region (lv_region s) (vf_content f)) w else Done (vf_content f))
                      (\<lambda>content. Done (Ready (Ok \<lparr>vf_content = content, vf_live = alive\<rparr>), s, w))))
        | (Pending, None) \<Rightarrow> Done (Pending, s\<lparr>lv_body := b\<rparr>, w)
        | (Ready _, Some _) \<Rightarrow> Panic
        | (Ready (Inl e), None) \<Rightarrow> Done (Ready (Inl e), s\<lparr>lv_body := b\<rparr>, w)
        | (Ready (Inr _), None) \<Rightarrow> Panic),
      poll_swap = \<lambda>s w. (case lv_stash s of
          Some u \<Rightarrow> Done (Ready (Ok (Some u)), s\<lparr>lv_stash := None\<rparr>, w)
        | None \<Rightarrow> bind_outcome (body_swap B (lv_body s) w) (\<lambda>(r, b, w). case r of
              (Pending, Some u) \<Rightarrow> Done (Ready (Ok (Some u)), s\<lparr>lv_body := b\<rparr>, w)
            | (Pending, None) \<Rightarrow> Done (Pending, s\<lparr>lv_body := b\<rparr>, w)
            | (Ready _, Some _) \<Rightarrow> Panic
            | (Ready (Inl e), None) \<Rightarrow> Done (Ready (Inl e), s\<lparr>lv_body := b\<rparr>, w)
            | (Ready (Inr _), None) \<Rightarrow> Done (Ready (Ok None), s\<lparr>lv_body := b\<rparr>, w)))\<rparr>"

record 's emit_state =
  em_view :: 's
  em_region :: region_id
  em_first :: bool
  em_done :: bool

definition emit_new :: "region_id \<Rightarrow> 's \<Rightarrow> 's emit_state" where
  "emit_new r v = \<lparr>em_view = v, em_region = r, em_first = True, em_done = False\<rparr>"

definition emit_view :: "('s, 'h, 'e, 'x) view_ops \<Rightarrow> ('s emit_state, 'h, 'e, 'x) view_ops" where
  "emit_view V =
     \<lparr>poll_first = \<lambda>s w. bind_outcome (poll_first V (em_view s) w) (\<lambda>(p, v, w). case p of
          Ready (Inr f) \<Rightarrow> Done (p, s\<lparr>em_view := v, em_first := False, em_done := \<not> vf_live f\<rparr>, w)
        | _ \<Rightarrow> Done (p, s\<lparr>em_view := v\<rparr>, w)),
      poll_swap = \<lambda>s w.
        if em_done s then Done (Ready (Ok None), s, w)
        else if em_first s then bind_outcome (poll_first V (em_view s) w) (\<lambda>(p, v, w). case p of
            Ready (Inr f) \<Rightarrow>
              Done (Ready (Ok (Some \<lparr>vs_region = em_region s, vs_replacement = vf_content f\<rparr>)),
                s\<lparr>em_view := v, em_first := False, em_done := \<not> vf_live f\<rparr>, w)
          | Ready (Inl e) \<Rightarrow> Done (Ready (Inl e), s\<lparr>em_view := v\<rparr>, w)
          | Pending \<Rightarrow> Done (Pending, s\<lparr>em_view := v\<rparr>, w))
        else bind_outcome (poll_swap V (em_view s) w) (\<lambda>(p, v, w). case p of
            Ready (Inr None) \<Rightarrow> Done (Ready (Ok None), s\<lparr>em_view := v, em_done := True\<rparr>, w)
          | _ \<Rightarrow> Done (p, s\<lparr>em_view := v\<rparr>, w))\<rparr>"

text \<open>\<^verbatim>\<open>LiveView::drive\<close>, what \<^verbatim>\<open>emit!\<close> awaits.\<close>

definition live_drive :: "('s, 'h, 'e, 'x) view_ops \<Rightarrow> ('s emit_state, 'h, 'e, 'x, unit) future" where
  "live_drive V = drive_future (emit_view V)"

subsection \<open>Suspense\<close>

datatype suspense_phase = SuspenseStart | SuspenseFallback bool | SuspenseChild | SuspenseDone

record ('f, 's) suspense_state =
  su_fallback :: 'f
  su_child :: "'s scope_state"
  su_region :: region_id
  su_wait :: bool
  su_state :: suspense_phase

definition suspense_new :: "region_id \<Rightarrow> 'f \<Rightarrow> 's \<Rightarrow> bool \<Rightarrow> ('h, 'e) world \<Rightarrow>
    (('f, 's) suspense_state \<times> ('h, 'e) world) outcome" where
  "suspense_new r fallback child wait w =
     bind_outcome (scope_self_contained (\<lambda>w. Done (child, w)) w) (\<lambda>(child, w).
       Done (\<lparr>su_fallback = fallback, su_child = child, su_region = r, su_wait = wait, su_state = SuspenseStart\<rparr>, w))"

definition settled :: "bool \<Rightarrow> suspense_phase" where
  "settled alive = (if alive then SuspenseChild else SuspenseDone)"

definition suspense_view :: "('f, 'h, 'e, 'x) view_ops \<Rightarrow> ('s, 'h, 'e, 'x) view_ops \<Rightarrow>
    (('f, 's) suspense_state, 'h, 'e, 'x) view_ops" where
  "suspense_view F C =
     \<lparr>poll_first = \<lambda>s w.
        if su_state s \<noteq> SuspenseStart then Panic
        else bind_outcome (poll_first (scope_view C) (su_child s) w) (\<lambda>(p, v, w).
          let s = s\<lparr>su_child := v\<rparr>
          in case p of
               Ready (Inr f) \<Rightarrow> Done (Ready (Ok f), s\<lparr>su_state := settled (vf_live f)\<rparr>, w)
             | Ready (Inl e) \<Rightarrow> Done (Ready (Inl e), s, w)
             | Pending \<Rightarrow>
                 if su_wait s then Done (Pending, s, w)
                 else bind_outcome (poll_first F (su_fallback s) w) (\<lambda>(p, v, w).
                   let s = s\<lparr>su_fallback := v\<rparr>
                   in case p of
                        Ready (Inr f) \<Rightarrow>
                          bind_outcome (scope_block (in_region (su_region s) (vf_content f)) w) (\<lambda>content.
                            Done (Ready (Ok \<lparr>vf_content = content, vf_live = True\<rparr>),
                              s\<lparr>su_state := SuspenseFallback (vf_live f)\<rparr>, w))
                      | Ready (Inl e) \<Rightarrow> Done (Ready (Inl e), s, w)
                      | Pending \<Rightarrow> Done (Pending, s, w))),
      poll_swap = \<lambda>s w. (case su_state s of
          SuspenseStart \<Rightarrow> Panic
        | SuspenseChild \<Rightarrow> bind_outcome (poll_swap (scope_view C) (su_child s) w) (\<lambda>(p, v, w).
            let s = s\<lparr>su_child := v\<rparr>
            in case p of
                 Ready (Inr None) \<Rightarrow> Done (Ready (Ok None), s\<lparr>su_state := SuspenseDone\<rparr>, w)
               | _ \<Rightarrow> Done (p, s, w))
        | SuspenseDone \<Rightarrow> Done (Ready (Ok None), s, w)
        | SuspenseFallback alive \<Rightarrow>
            bind_outcome (poll_first (scope_view C) (su_child s) w) (\<lambda>(p, v, w).
              let s = s\<lparr>su_child := v\<rparr>
              in case p of
                   Ready (Inr f) \<Rightarrow>
                     Done (Ready (Ok (Some \<lparr>vs_region = su_region s, vs_replacement = vf_content f\<rparr>)),
                       s\<lparr>su_state := settled (vf_live f)\<rparr>, w)
                 | Ready (Inl e) \<Rightarrow> Done (Ready (Inl e), s, w)
                 | Pending \<Rightarrow>
                     if alive then bind_outcome (poll_swap F (su_fallback s) w) (\<lambda>(p, v, w).
                       let s = s\<lparr>su_fallback := v\<rparr>
                       in case p of
                            Ready (Inr None) \<Rightarrow> Done (Pending, s\<lparr>su_state := SuspenseFallback False\<rparr>, w)
                          | _ \<Rightarrow> Done (p, s, w))
                     else Done (Pending, s, w)))\<rparr>"

subsection \<open>Error boundaries\<close>

text \<open>The closure that makes the fallback view is part of the state until it is taken.\<close>

datatype ('s, 'v, 'x) boundary_state =
    BoundaryChild 's "('x \<Rightarrow> ('v, 'x) result) option" region_id
  | BoundaryFallback "'v scope_state emit_state"

definition boundary_new :: "region_id \<Rightarrow> ('x \<Rightarrow> ('v, 'x) result) \<Rightarrow> 's \<Rightarrow> ('s, 'v, 'x) boundary_state" where
  "boundary_new r fallback child = BoundaryChild child (Some fallback) r"

text \<open>The loops run at most twice: a failed child is replaced by its fallback.\<close>

definition boundary_view :: "('s, 'h, 'e, 'x) view_ops \<Rightarrow> ('v, 'h, 'e, 'x) view_ops \<Rightarrow>
    (('s, 'v, 'x) boundary_state, 'h, 'e, 'x) view_ops" where
  "boundary_view C V =
     \<lparr>poll_first = \<lambda>s w. (case s of
          BoundaryChild child fallback r \<Rightarrow> bind_outcome (poll_first C child w) (\<lambda>(p, child, w). case p of
              Pending \<Rightarrow> Done (Pending, BoundaryChild child fallback r, w)
            | Ready (Inr f) \<Rightarrow>
                if \<not> vf_live f then Done (Ready (Ok f), BoundaryChild child fallback r, w)
                else bind_outcome (scope_block (in_region r (vf_content f)) w) (\<lambda>content.
                  Done (Ready (Ok (f\<lparr>vf_content := content\<rparr>)), BoundaryChild child fallback r, w))
            | Ready (Inl e) \<Rightarrow> (case fallback of
                None \<Rightarrow> Panic
              | Some build \<Rightarrow> (case build e of
                  Inl e \<Rightarrow> Done (Ready (Inl e), BoundaryChild child None r, w)
                | Inr v \<Rightarrow>
                    map_state BoundaryFallback (poll_first (emit_view (scope_view V)) (emit_new r (scope_new v)) w))))
        | BoundaryFallback v \<Rightarrow> map_state BoundaryFallback (poll_first (emit_view (scope_view V)) v w)),
      poll_swap = \<lambda>s w. (case s of
          BoundaryChild child fallback r \<Rightarrow> bind_outcome (poll_swap C child w) (\<lambda>(p, child, w). case p of
              Pending \<Rightarrow> Done (Pending, BoundaryChild child fallback r, w)
            | Ready (Inr u) \<Rightarrow> Done (Ready (Ok u), BoundaryChild child fallback r, w)
            | Ready (Inl e) \<Rightarrow> (case fallback of
                None \<Rightarrow> Panic
              | Some build \<Rightarrow> (case build e of
                  Inl e \<Rightarrow> Done (Ready (Inl e), BoundaryChild child None r, w)
                | Inr v \<Rightarrow>
                    bind_outcome (scope_self_contained (\<lambda>w. Done (v, w)) w) (\<lambda>(v, w).
                      map_state BoundaryFallback (poll_swap (emit_view (scope_view V)) (emit_new r v) w)))))
        | BoundaryFallback v \<Rightarrow> map_state BoundaryFallback (poll_swap (emit_view (scope_view V)) v w))\<rparr>"

subsection \<open>Loops\<close>

record ('s, 'h) loop_body =
  lb_view :: 's
  lb_ready :: "'h view_first option"
  lb_done :: bool

record ('s, 'h) loop_state =
  lp_bodies :: "('s, 'h) loop_body list"
  lp_next :: nat

definition loop_new :: "'s list \<Rightarrow> ('s, 'h) loop_state" where
  "loop_new vs = \<lparr>lp_bodies = map (\<lambda>v. \<lparr>lb_view = v, lb_ready = None, lb_done = False\<rparr>) vs, lp_next = 0\<rparr>"

text \<open>The first loop over the bodies: whether all are ready, or the first error.\<close>

fun loop_firsts :: "('s, 'h, 'e, 'x) view_ops \<Rightarrow> bool \<Rightarrow> ('s, 'h) loop_body list \<Rightarrow> ('h, 'e) world \<Rightarrow>
    ((bool, 'x) result \<times> ('s, 'h) loop_body list \<times> ('h, 'e) world) outcome" where
  "loop_firsts V all_ready [] w = Done (Ok all_ready, [], w)"
| "loop_firsts V all_ready (b # bs) w =
     (if lb_ready b \<noteq> None
      then bind_outcome (loop_firsts V all_ready bs w) (\<lambda>(r, bs, w). Done (r, b # bs, w))
      else bind_outcome (poll_first V (lb_view b) w) (\<lambda>(p, v, w). case p of
          Ready (Inl e) \<Rightarrow> Done (Inl e, b\<lparr>lb_view := v\<rparr> # bs, w)
        | Pending \<Rightarrow> bind_outcome (loop_firsts V False bs w) (\<lambda>(r, bs, w). Done (r, b\<lparr>lb_view := v\<rparr> # bs, w))
        | Ready (Inr f) \<Rightarrow> bind_outcome (loop_firsts V all_ready bs w) (\<lambda>(r, bs, w).
            Done (r, \<lparr>lb_view = v, lb_ready = Some f, lb_done = \<not> vf_live f\<rparr> # bs, w))))"

definition body_parts :: "('s, 'h) loop_body list \<Rightarrow> 'h block_part list" where
  "body_parts bs = map (\<lambda>b. PartHandle (vf_content (the (lb_ready b)))) bs"

text \<open>The turn around the ring: the bodies at the indices \<open>is\<close> in that order.\<close>

fun loop_turn :: "('s, 'h, 'e, 'x) view_ops \<Rightarrow> bool \<Rightarrow> nat list \<Rightarrow> ('s, 'h) loop_body list \<Rightarrow> ('h, 'e) world \<Rightarrow>
    (((nat \<times> 'h view_swap) option, 'x) result poll \<times> ('s, 'h) loop_body list \<times> ('h, 'e) world) outcome" where
  "loop_turn V all_done [] bs w = Done (if all_done then Ready (Ok None) else Pending, bs, w)"
| "loop_turn V all_done (i # is) bs w =
     (let b = bs ! i
      in if lb_done b then loop_turn V all_done is bs w
         else bind_outcome (poll_swap V (lb_view b) w) (\<lambda>(p, v, w). case p of
             Pending \<Rightarrow> loop_turn V False is (bs[i := b\<lparr>lb_view := v\<rparr>]) w
           | Ready (Inl e) \<Rightarrow> Done (Ready (Inl e), bs[i := b\<lparr>lb_view := v\<rparr>], w)
           | Ready (Inr None) \<Rightarrow> loop_turn V all_done is (bs[i := b\<lparr>lb_view := v, lb_done := True\<rparr>]) w
           | Ready (Inr (Some u)) \<Rightarrow> Done (Ready (Ok (Some (i, u))), bs[i := b\<lparr>lb_view := v\<rparr>], w)))"

definition ring :: "nat \<Rightarrow> nat \<Rightarrow> nat list" where
  "ring start len = map (\<lambda>offset. (start + offset) mod len) [0..<len]"

definition loop_view :: "('s, 'h, 'e, 'x) view_ops \<Rightarrow> (('s, 'h) loop_state, 'h, 'e, 'x) view_ops" where
  "loop_view V =
     \<lparr>poll_first = \<lambda>s w. bind_outcome (loop_firsts V True (lp_bodies s) w) (\<lambda>(r, bs, w). case r of
          Inl e \<Rightarrow> Done (Ready (Inl e), s\<lparr>lp_bodies := bs\<rparr>, w)
        | Inr all_ready \<Rightarrow>
            if all_ready then bind_outcome (scope_block (body_parts bs) w) (\<lambda>content.
              Done (Ready (Ok \<lparr>vf_content = content, vf_live = list_ex (\<lambda>b. vf_live (the (lb_ready b))) bs\<rparr>),
                s\<lparr>lp_bodies := map (\<lambda>b. b\<lparr>lb_ready := None\<rparr>) bs\<rparr>, w))
            else Done (Pending, s\<lparr>lp_bodies := bs\<rparr>, w)),
      poll_swap = \<lambda>s w.
        bind_outcome (loop_turn V True (ring (lp_next s) (length (lp_bodies s))) (lp_bodies s) w) (\<lambda>(p, bs, w).
          let s = s\<lparr>lp_bodies := bs\<rparr>
          in case p of
               Ready (Inr (Some (i, u))) \<Rightarrow>
                 Done (Ready (Ok (Some u)), s\<lparr>lp_next := (i + 1) mod length bs\<rparr>, w)
             | Ready (Inr None) \<Rightarrow> Done (Ready (Ok None), s, w)
             | Ready (Inl e) \<Rightarrow> Done (Ready (Inl e), s, w)
             | Pending \<Rightarrow> Done (Pending, s, w))\<rparr>"

subsection \<open>Joins\<close>

text \<open>\<^verbatim>\<open>JoinUnits\<close>: a chain of units.  The contents of a chain are the list of its handles.\<close>

record ('u, 'h, 'e, 'x) join_units =
  ju_len :: nat
  ju_contents :: "'u \<Rightarrow> ('h, 'e) world \<Rightarrow> ((unit, 'x) result poll \<times> 'u \<times> ('h, 'e) world) outcome"
  ju_take :: "'u \<Rightarrow> ('h handle list \<times> 'u) outcome"
  ju_live :: "'u \<Rightarrow> bool"
  ju_swap :: "nat \<Rightarrow> nat \<Rightarrow> 'u \<Rightarrow> ('h, 'e) world \<Rightarrow>
    (((nat \<times> 'h view_swap) option, 'x) result poll \<times> 'u \<times> ('h, 'e) world) outcome"

definition no_units :: "(unit, 'h, 'e, 'x) join_units" where
  "no_units =
     \<lparr>ju_len = 0, ju_contents = \<lambda>u w. Done (Ready (Ok ()), u, w), ju_take = \<lambda>u. Done ([], u), ju_live = \<lambda>_. False,
      ju_swap = \<lambda>_ _ u w. Done (Ready (Ok None), u, w)\<rparr>"

record ('s, 'h) unit_state =
  un_view :: 's
  un_content :: "'h handle option"
  un_done :: bool

definition unit_new :: "'s \<Rightarrow> ('s, 'h) unit_state" where
  "unit_new v = \<lparr>un_view = v, un_content = None, un_done = False\<rparr>"

definition join_unit :: "('s, 'h, 'e, 'x) view_ops \<Rightarrow> ('u, 'h, 'e, 'x) join_units \<Rightarrow>
    (('s, 'h) unit_state \<times> 'u, 'h, 'e, 'x) join_units" where
  "join_unit V R =
     \<lparr>ju_len = 1 + ju_len R,
      ju_contents = \<lambda>(u, r) w.
        bind_outcome
          (if un_content u \<noteq> None then Done (Ready (Ok ()), u, w)
           else bind_outcome (poll_first V (un_view u) w) (\<lambda>(p, v, w). case p of
               Ready (Inr f) \<Rightarrow>
                 Done (Ready (Ok ()), \<lparr>un_view = v, un_content = Some (vf_content f), un_done = \<not> vf_live f\<rparr>, w)
             | Ready (Inl e) \<Rightarrow> Done (Ready (Inl e), u\<lparr>un_view := v\<rparr>, w)
             | Pending \<Rightarrow> Done (Pending, u\<lparr>un_view := v\<rparr>, w)))
          (\<lambda>(p, u, w). case p of
             Ready (Inl e) \<Rightarrow> Done (Ready (Inl e), (u, r), w)
           | _ \<Rightarrow> bind_outcome (ju_contents R r w) (\<lambda>(q, r, w). case q of
               Ready (Inl e) \<Rightarrow> Done (Ready (Inl e), (u, r), w)
             | Ready (Inr ()) \<Rightarrow> Done (p, (u, r), w)
             | Pending \<Rightarrow> Done (Pending, (u, r), w))),
      ju_take = \<lambda>(u, r). (case un_content u of
          None \<Rightarrow> Panic
        | Some h \<Rightarrow> bind_outcome (ju_take R r) (\<lambda>(hs, r). Done (h # hs, (u\<lparr>un_content := None\<rparr>, r)))),
      ju_live = \<lambda>(u, r). \<not> un_done u \<or> ju_live R r,
      ju_swap = \<lambda>from to (u, r) w.
        if to = 0 then Done (Ready (Ok None), (u, r), w)
        else bind_outcome
          (if from = 0 \<and> \<not> un_done u
           then bind_outcome (poll_swap V (un_view u) w) (\<lambda>(p, v, w). case p of
               Ready (Inr (Some x)) \<Rightarrow> Done (Inl (Ready (Ok (Some (0, x)))), u\<lparr>un_view := v\<rparr>, w)
             | Ready (Inr None) \<Rightarrow> Done (Inr False, u\<lparr>un_view := v, un_done := True\<rparr>, w)
             | Ready (Inl e) \<Rightarrow> Done (Inl (Ready (Inl e)), u\<lparr>un_view := v\<rparr>, w)
             | Pending \<Rightarrow> Done (Inr True, u\<lparr>un_view := v\<rparr>, w))
           else Done (Inr False, u, w))
          (\<lambda>(early, u, w). case early of
             Inl p \<Rightarrow> Done (p, (u, r), w)
           | Inr pending \<Rightarrow> bind_outcome (ju_swap R (from - 1) (to - 1) r w) (\<lambda>(q, r, w). case q of
               Ready (Inr (Some (position, x))) \<Rightarrow> Done (Ready (Ok (Some (position + 1, x))), (u, r), w)
             | Ready (Inr None) \<Rightarrow> Done (if pending then Pending else q, (u, r), w)
             | _ \<Rightarrow> Done (q, (u, r), w)))\<rparr>"

text \<open>The burst is a function from the contents to the parts it writes.\<close>

record ('u, 'h) join_state =
  jn_units :: 'u
  jn_burst :: "('h handle list \<Rightarrow> 'h block_part list) option"
  jn_next :: nat

definition join_new :: "'u \<Rightarrow> ('h handle list \<Rightarrow> 'h block_part list) \<Rightarrow> ('u, 'h) join_state" where
  "join_new units burst = \<lparr>jn_units = units, jn_burst = Some burst, jn_next = 0\<rparr>"

definition join_scan :: "('u, 'h, 'e, 'x) join_units \<Rightarrow> nat \<Rightarrow> nat \<Rightarrow> ('u, 'h) join_state \<Rightarrow> ('h, 'e) world \<Rightarrow>
    (('h view_swap option, 'x) result poll \<times> ('u, 'h) join_state \<times> ('h, 'e) world) outcome" where
  "join_scan U from to s w =
     bind_outcome (ju_swap U from to (jn_units s) w) (\<lambda>(p, u, w).
       let s = s\<lparr>jn_units := u\<rparr>
       in case p of
            Ready (Inr (Some (position, x))) \<Rightarrow>
              Done (Ready (Ok (Some x)), s\<lparr>jn_next := (position + 1) mod ju_len U\<rparr>, w)
          | Ready (Inr None) \<Rightarrow> Done (Ready (Ok None), s, w)
          | Ready (Inl e) \<Rightarrow> Done (Ready (Inl e), s, w)
          | Pending \<Rightarrow> Done (Pending, s, w))"

definition join_view :: "('u, 'h, 'e, 'x) join_units \<Rightarrow> (('u, 'h) join_state, 'h, 'e, 'x) view_ops" where
  "join_view U =
     \<lparr>poll_first = \<lambda>s w. bind_outcome (ju_contents U (jn_units s) w) (\<lambda>(p, u, w). case p of
          Pending \<Rightarrow> Done (Pending, s\<lparr>jn_units := u\<rparr>, w)
        | Ready (Inl e) \<Rightarrow> Done (Ready (Inl e), s\<lparr>jn_units := u\<rparr>, w)
        | Ready (Inr ()) \<Rightarrow> bind_outcome (ju_take U u) (\<lambda>(contents, u). case jn_burst s of
              None \<Rightarrow> Panic
            | Some burst \<Rightarrow> bind_outcome (scope_block (burst contents) w) (\<lambda>content.
                Done (Ready (Ok \<lparr>vf_content = content, vf_live = ju_live U u\<rparr>),
                  s\<lparr>jn_units := u, jn_burst := None\<rparr>, w)))),
      poll_swap = \<lambda>s w.
        bind_outcome (join_scan U (jn_next s) (ju_len U) s w) (\<lambda>(p, s', w).
          let second = join_scan U 0 (jn_next s) s' w
          in case p of
               Pending \<Rightarrow> bind_outcome second (\<lambda>(q, s, w). Done (case q of Ready (Inr None) \<Rightarrow> Pending | _ \<Rightarrow> q, s, w))
             | Ready (Inr None) \<Rightarrow> second
             | _ \<Rightarrow> Done (p, s', w))\<rparr>"

end
