(* ===== verification/Live_Contracts.thy ===== *)
theory Live_Contracts
  imports Live_Views
begin

text \<open>
  The views keep the contract of \<open>Live_Types\<close>: for each, the states it is fresh and shown in, and that it
  keeps the contract when the views inside it do.
\<close>

subsection \<open>The empty view, branches and awaited views\<close>

interpretation unit: live_contract unit_view "\<lambda>I a s. True" "\<lambda>I s page. page = []" False True
  by unfold_locales (simp_all add: unit_view_def home_ok_def handle_empty_def marks_of_def)

definition either_fresh :: "'s fresh_states \<Rightarrow> 't fresh_states \<Rightarrow> ('s + 't) fresh_states" where
  "either_fresh fa fb I a s = (case s of Inl x \<Rightarrow> fa I a x | Inr y \<Rightarrow> fb I a y)"

definition either_shown :: "'s shown_states \<Rightarrow> 't shown_states \<Rightarrow> ('s + 't) shown_states" where
  "either_shown sa sb I s page = (case s of Inl x \<Rightarrow> sa I x page | Inr y \<Rightarrow> sb I y page)"

lemma map_state_Done: "map_state g m = Done (p, t, w) \<longleftrightarrow> (\<exists>s. m = Done (p, s, w) \<and> t = g s)"
  by (cases m) (auto simp: map_state_def)

lemma map_state_simp [simp]: "map_state g (Done (p, s, w)) = Done (p, g s, w)"
  by (simp add: map_state_def)

text \<open>A view inside another: its results are the other's, with the state put in its place.\<close>

lemma first_ok_map:
  assumes "first_ok f1 s1 I a p s" "f1 I a s \<Longrightarrow> f2 J a (g s)" "I \<subseteq> J"
    "\<And>page. s1 I s page \<Longrightarrow> s2 J (g s) page"
  shows "first_ok f2 s2 J a p (g s)"
  using assms by (cases p rule: poll_result_cases) auto

lemma swap_fits_mono: "swap_fits I a q page u \<Longrightarrow> I \<subseteq> J \<Longrightarrow> swap_fits J a q page u"
  by (auto simp: swap_fits_def)

lemma swap_ok_map:
  assumes "swap_ok s1 I a q page p s" "I \<subseteq> J" "\<And>page. s1 I s page \<Longrightarrow> s2 J (g s) page"
  shows "swap_ok s2 J a q page p (g s)"
  using assms by (cases p rule: poll_option_cases) (auto intro: swap_fits_mono)

lemma polls_map:
  "polls m w good \<Longrightarrow> (\<And>p s. good p s \<Longrightarrow> better p (g s)) \<Longrightarrow> polls (map_state g m) w better"
  by (auto simp: polls_def map_state_def)

lemma either_contract:
  fixes A :: "('s, 'h, 'e, 'x) view_ops" and B :: "('t, 'h, 'e, 'x) view_ops"
  assumes "live_contract A fa sa c q" "live_contract B fb sb c q"
  shows "live_contract (either_view A B) (either_fresh fa fb) (either_shown sa sb) c q"
proof (rule live_contract.intro)
  fix I :: "region_id set" and w :: "('h, 'e) world" and s page
  note A = live_contract.first_law [OF assms(1)] live_contract.swap_law [OF assms(1)]
  note B = live_contract.first_law [OF assms(2)] live_contract.swap_law [OF assms(2)]
  note ids = live_contract.shown_ids [OF assms(1)] live_contract.shown_ids [OF assms(2)]
  show "ids_of page \<subseteq> I" if "either_shown sa sb I s page"
    using that ids by (cases s) (auto simp: either_shown_def)
  assume c: "c \<longrightarrow> w_hoisted w \<noteq> None"
  show "polls (poll_first (either_view A B) s w) w (first_ok (either_fresh fa fb) (either_shown sa sb) I (w_active w))"
    if "either_fresh fa fb I (w_active w) s"
    using that c unfolding either_view_def
    by (cases s) (auto simp: either_fresh_def either_shown_def intro!: polls_map [OF A(1)] polls_map [OF B(1)] elim!: first_ok_map)
  show "polls (poll_swap (either_view A B) s w) w (swap_ok (either_shown sa sb) I (w_active w) q page)"
    if "either_shown sa sb I s page"
    using that c unfolding either_view_def
    by (cases s) (auto simp: either_shown_def intro!: polls_map [OF A(2)] polls_map [OF B(2)] elim!: swap_ok_map)
qed

text \<open>A future that resolves to a view.\<close>

definition future_ok :: "('f, 'h, 'e, 'x, 's) future \<Rightarrow> 'f fresh_states \<Rightarrow> 's fresh_states \<Rightarrow> bool \<Rightarrow> bool" where
  "future_ok F waiting fresh c \<longleftrightarrow>
     (\<forall>I f w. waiting I (w_active w) f \<longrightarrow> (c \<longrightarrow> w_hoisted w \<noteq> None) \<longrightarrow>
        polls (F f w) w (\<lambda>p f'. case p of
            Pending \<Rightarrow> waiting I (w_active w) f'
          | Ready (Inl _) \<Rightarrow> True
          | Ready (Inr v) \<Rightarrow> fresh I (w_active w) v))"

definition then_fresh :: "'f fresh_states \<Rightarrow> 's fresh_states \<Rightarrow> ('f, 's) then_state fresh_states" where
  "then_fresh waiting fresh I a s = (case s of ThenFuture f \<Rightarrow> waiting I a f | ThenView v \<Rightarrow> fresh I a v)"

definition then_shown :: "'s shown_states \<Rightarrow> ('f, 's) then_state shown_states" where
  "then_shown shown I s page = (case s of ThenFuture f \<Rightarrow> False | ThenView v \<Rightarrow> shown I v page)"

lemma then_contract:
  fixes V :: "('s, 'h, 'e, 'x) view_ops" and F :: "('f, 'h, 'e, 'x, 's) future"
  assumes "future_ok F waiting fresh c" "live_contract V fresh shown c q"
  shows "live_contract (then_view F V) (then_fresh waiting fresh) (then_shown shown) c q"
proof (rule live_contract.intro)
  fix I :: "region_id set" and w :: "('h, 'e) world" and s :: "('f, 's) then_state" and page
  note V = live_contract.first_law [OF assms(2)] live_contract.swap_law [OF assms(2)]
  show "ids_of page \<subseteq> I" if "then_shown shown I s page"
    using that live_contract.shown_ids [OF assms(2)] by (cases s) (auto simp: then_shown_def)
  assume c: "c \<longrightarrow> w_hoisted w \<noteq> None"
  let ?good = "first_ok (then_fresh waiting fresh) (then_shown shown) I"
  have view: "polls (map_state ThenView (poll_first V v w)) w (?good (w_active w))"
    if "fresh I (w_active w) v" "c \<longrightarrow> w_hoisted w \<noteq> None" for v and w :: "('h, 'e) world"
    by (rule polls_map [OF V(1) [OF that]]) (auto simp: then_fresh_def then_shown_def elim!: first_ok_map)
  show "polls (poll_first (then_view F V) s w) w (?good (w_active w))" if s: "then_fresh waiting fresh I (w_active w) s"
  proof (cases s)
    case (ThenFuture f)
    then have "waiting I (w_active w) f" using s by (simp add: then_fresh_def)
    with assms(1) c have f: "polls (F f w) w (\<lambda>p f'. case p of Pending \<Rightarrow> waiting I (w_active w) f'
        | Ready (Inl _) \<Rightarrow> True | Ready (Inr v) \<Rightarrow> fresh I (w_active w) v)"
      unfolding future_ok_def by blast
    show ?thesis unfolding then_view_def view_ops.select_convs ThenFuture then_state.case
    proof (rule polls_bind [OF f], goal_cases)
      case (1 p f' w')
      then show ?case using view [of w'] c same_frame_world [OF 1(2)]
        by (cases p rule: poll_result_cases) (auto simp: then_fresh_def)
    qed
  next
    case (ThenView v)
    then show ?thesis using view s c by (simp add: then_view_def then_fresh_def)
  qed
  show "polls (poll_swap (then_view F V) s w) w (swap_ok (then_shown shown) I (w_active w) q page)"
    if "then_shown shown I s page"
    using that c unfolding then_view_def
    by (cases s) (auto simp: then_shown_def intro!: polls_map [OF V(2)] elim!: swap_ok_map)
qed

subsection \<open>Scopes\<close>

text \<open>A scope with a buffer of its own keeps it until the content is there; one without polls its view in
  the running build, always the same.\<close>

definition scope_fresh :: "'s fresh_states \<Rightarrow> 's scope_state fresh_states" where
  "scope_fresh fresh I a s =
     (case sc_buffer s of
        Some n \<Rightarrow> fresh I (Some n) (sc_view s)
      | None \<Rightarrow> if a \<noteq> None then fresh I a (sc_view s) else \<not> sc_polled s \<and> (\<forall>n. fresh I (Some n) (sc_view s)))"

definition scope_shown :: "'s shown_states \<Rightarrow> 's scope_state shown_states" where
  "scope_shown shown I s page = shown I (sc_view s) page"

definition scope_sealed :: "'s fresh_states \<Rightarrow> 's scope_state fresh_states" where
  "scope_sealed fresh I a s = (case sc_buffer s of Some n \<Rightarrow> fresh I (Some n) (sc_view s) | None \<Rightarrow> False)"

lemma handle_seal_own: "home_ok (Some n) h \<Longrightarrow> handle_seal n h = Done (h\<lparr>hd_home := None\<rparr>)"
  by (cases h) (auto simp: handle_seal_def home_ok_def split: option.split)

text \<open>What a scope with a buffer hands over is sealed.\<close>

lemma scope_first_own:
  fixes V :: "('s, 'h, 'e, 'x) view_ops"
  assumes "live_contract V fresh shown c q" "fresh I (Some n) v" "c \<longrightarrow> w_hoisted w \<noteq> None"
  shows "polls (bind_outcome (in_scope (Some n) (poll_first V v) w) (\<lambda>(p, (v, buffer), w).
      let s = \<lparr>sc_view = v, sc_buffer = buffer, sc_polled = True\<rparr>
      in case p of
           Pending \<Rightarrow> Done (Pending, s, w)
         | Ready (Inl e) \<Rightarrow> Done (Ready (Inl e), s, w)
         | Ready (Inr f) \<Rightarrow>
             bind_outcome (case buffer of None \<Rightarrow> Done (vf_content f) | Some b \<Rightarrow> handle_seal b (vf_content f))
               (\<lambda>content. Done (Ready (Ok (f\<lparr>vf_content := content\<rparr>)), s\<lparr>sc_buffer := None\<rparr>, w)))) w
    (\<lambda>p s. first_ok (scope_sealed fresh) (scope_shown shown) I a p s \<and> sealed_content p)"
proof (rule polls_bind [OF polls_in_scope [where good = "first_ok fresh shown I (Some n)"]], goal_cases)
  case 1
  show ?case
    using live_contract.first_law [OF assms(1), of I "w\<lparr>w_active := Some n\<rparr>" v] assms(2,3) by simp
next
  case (2 p s w')
  then obtain v where s: "s = (v, Some n)" "first_ok fresh shown I (Some n) p v" by (cases s) auto
  then show ?case
    by (cases p rule: poll_result_cases)
      (auto simp: scope_sealed_def scope_shown_def handle_seal_own home_ok_def)
qed

lemma polls_next [simp]: "polls m (w\<lparr>w_next := k\<rparr>) good = polls m w good"
  by (simp add: polls_def same_frame_def)

lemma sealed_fresh: "scope_sealed fresh I a s \<Longrightarrow> scope_fresh fresh I b s"
  by (auto simp: scope_sealed_def scope_fresh_def split: option.splits)

lemma scope_swap:
  fixes V :: "('s, 'h, 'e, 'x) view_ops"
  assumes "live_contract V fresh shown c q" "scope_shown shown I s page" "c \<longrightarrow> w_hoisted w \<noteq> None"
  shows "polls (poll_swap (scope_view V) s w) w (swap_ok (scope_shown shown) I (w_active w) q page)"
  using live_contract.swap_law [OF assms(1), of I "sc_view s" page w] assms(2,3)
  by (auto simp: scope_view_def scope_shown_def intro!: polls_map elim!: swap_ok_map)

lemma scope_contract:
  fixes V :: "('s, 'h, 'e, 'x) view_ops"
  assumes "live_contract V fresh shown c q"
  shows "live_contract (scope_view V) (scope_fresh fresh) (scope_shown shown) c q"
proof (rule live_contract.intro)
  fix I :: "region_id set" and w :: "('h, 'e) world" and s :: "'s scope_state" and page
  show "ids_of page \<subseteq> I" if "scope_shown shown I s page"
    using that live_contract.shown_ids [OF assms] by (simp add: scope_shown_def)
  assume c: "c \<longrightarrow> w_hoisted w \<noteq> None"
  show "polls (poll_swap (scope_view V) s w) w (swap_ok (scope_shown shown) I (w_active w) q page)"
    if "scope_shown shown I s page"
    using scope_swap [OF assms that c] .
  assume s: "scope_fresh fresh I (w_active w) s"
  let ?good = "first_ok (scope_fresh fresh) (scope_shown shown) I (w_active w)"
  have own: "?good p s" if "first_ok (scope_sealed fresh) (scope_shown shown) I (w_active w) p s"
    for p :: "('h view_first, 'x) result poll" and s
    using first_ok_map [OF that, where g = id] sealed_fresh by (metis id_apply order_refl)
  show "polls (poll_first (scope_view V) s w) w ?good"
  proof (cases "sc_buffer s")
    case (Some n)
    then have "fresh I (Some n) (sc_view s)" using s by (simp add: scope_fresh_def)
    from polls_weaken [OF scope_first_own [OF assms this c, where a = "w_active w"]] own Some
    show ?thesis by (simp add: scope_view_def Let_def)
  next
    case None
    show ?thesis
    proof (cases "w_active w")
      case None
      then have f: "\<not> sc_polled s" "fresh I (Some (w_next w)) (sc_view s)"
        using s \<open>sc_buffer s = None\<close> by (simp_all add: scope_fresh_def)
      have "c \<longrightarrow> w_hoisted (w\<lparr>w_next := w_next w + 1\<rparr>) \<noteq> None" using c by simp
      from polls_weaken [OF scope_first_own [OF assms f(2) this, where a = "w_active w"]] own f(1) None \<open>sc_buffer s = None\<close>
      show ?thesis by (simp add: scope_view_def Let_def)
    next
      case (Some n)
      have "polls (poll_first V (sc_view s) w) w (first_ok fresh shown I (w_active w))"
        using live_contract.first_law [OF assms _ c] s Some None by (simp add: scope_fresh_def)
      then obtain p v w' where "poll_first V (sc_view s) w = Done (p, v, w')" "same_frame w w'"
        "first_ok fresh shown I (w_active w) p v" by (auto simp: polls_def)
      then show ?thesis using None Some
        by (cases p rule: poll_result_cases) (auto simp: scope_view_def Let_def scope_fresh_def scope_shown_def)
    qed
  qed
qed

lemma scope_sealed_contract:
  fixes V :: "('s, 'h, 'e, 'x) view_ops"
  assumes "live_contract V fresh shown c True"
  shows "sealed_contract (scope_view V) (scope_sealed fresh) (scope_shown shown) c"
proof -
  have first: "polls (poll_first (scope_view V) s w) w
      (\<lambda>p s. first_ok (scope_sealed fresh) (scope_shown shown) I a p s \<and> sealed_content p)"
    if s: "scope_sealed fresh I b s" and c: "c \<longrightarrow> w_hoisted w \<noteq> None" for I a b s and w :: "('h, 'e) world"
  proof (cases "sc_buffer s")
    case (Some n)
    with s have "fresh I (Some n) (sc_view s)" by (simp add: scope_sealed_def)
    from scope_first_own [OF assms this c] Some show ?thesis by (simp add: scope_view_def Let_def)
  qed (use s in \<open>simp add: scope_sealed_def\<close>)
  show ?thesis
  proof (intro sealed_contract.intro live_contract.intro sealed_contract_axioms.intro, goal_cases)
    case (1 I w s)
    show ?case by (rule polls_weaken, rule first [OF 1], erule conjunct1)
  next
    case (2 I s page w)
    then show ?case by (rule scope_swap [OF assms])
  next
    case (3 I s page)
    then show ?case using live_contract.shown_ids [OF assms] by (simp add: scope_shown_def)
  next
    case (4 I a s b)
    then show ?case by (simp add: scope_sealed_def)
  next
    case (5 I a s w)
    from first [OF this] show ?case .
  qed
qed

subsection \<open>Emitted views\<close>

definition region_page :: "region_id \<Rightarrow> marker list \<Rightarrow> marker list" where
  "region_page r inner = RegionStart r # inner @ [RegionEnd r]"

lemma region_page_ids [simp]: "ids_of (region_page r inner) = insert r (ids_of inner)"
  by (auto simp: region_page_def)

lemma in_region_marks [simp]: "marks (concat (map part_pieces (in_region r h))) = region_page r (marks_of h)"
  by (simp add: region_page_def marks_of_def)

lemma region_page_swap:
  assumes "r \<notin> ids_of inner"
  shows "has_region r (region_page r inner)" "swap_in r new (region_page r inner) = region_page r new"
  using region_around [OF assms] by (simp_all add: region_page_def)

lemma region_page_inside:
  assumes "has_region p inner" "p \<noteq> r"
  shows "has_region p (region_page r inner)" "swap_in p new (region_page r inner) = region_page r (swap_in p new inner)"
  using swap_inside [OF assms] by (simp_all add: region_page_def)

text \<open>A swap the view in a region makes inside it is one on the page.\<close>

lemma swap_fits_inside:
  assumes "swap_fits J a q inner u" "ids_of inner \<subseteq> J" "r \<notin> J"
  shows "swap_fits J a q (region_page r inner) u" "after_swap u (region_page r inner) = region_page r (after_swap u inner)"
    "ids_of (after_swap u inner) \<subseteq> J"
proof -
  have h: "has_region (vs_region u) inner" "vs_region u \<noteq> r"
    using assms has_region_ids by (auto simp: swap_fits_def)
  then show "swap_fits J a q (region_page r inner) u" "after_swap u (region_page r inner) = region_page r (after_swap u inner)"
    using assms(1) region_page_inside [OF h] by (simp_all add: swap_fits_def after_swap_def)
  show "ids_of (after_swap u inner) \<subseteq> J"
    using swap_in_ids [OF h(1), of "marks_of (vs_replacement u)"] assms(1,2) by (auto simp: after_swap_def swap_fits_def)
qed

definition emit_fresh :: "'s fresh_states \<Rightarrow> 's emit_state fresh_states" where
  "emit_fresh fresh I a s \<longleftrightarrow> em_first s \<and> \<not> em_done s \<and> fresh I a (em_view s)"

definition emit_shown :: "'s shown_states \<Rightarrow> 's emit_state shown_states" where
  "emit_shown shown I s page \<longleftrightarrow> \<not> em_first s \<and> ids_of page \<subseteq> I \<and> (em_done s \<or> shown I (em_view s) page)"

text \<open>The states of an emitted view whose region \<open>r\<close> is on the page, its content in it or still to come.\<close>

definition emit_within :: "'s fresh_states \<Rightarrow> 's shown_states \<Rightarrow> region_id \<Rightarrow> region_id set \<Rightarrow> 's emit_state \<Rightarrow> marker list \<Rightarrow> bool" where
  "emit_within fresh shown r J s inner \<longleftrightarrow> em_region s = r \<and> ids_of inner \<subseteq> J \<and>
     (if em_first s then \<not> em_done s \<and> fresh J None (em_view s) else em_done s \<or> shown J (em_view s) inner)"

lemma emit_contract:
  fixes V :: "('s, 'h, 'e, 'x) view_ops"
  assumes "live_contract V fresh shown c q"
  shows "live_contract (emit_view V) (emit_fresh fresh) (emit_shown shown) c q"
proof (rule live_contract.intro, goal_cases)
  case (1 I w s)
  have "polls (poll_first V (em_view s) w) w (first_ok fresh shown I (w_active w))"
    using 1 live_contract.first_law [OF assms] by (simp add: emit_fresh_def)
  then show ?case
  proof (rule pollsE)
    fix p v w'
    assume "poll_first V (em_view s) w = Done (p, v, w')" "same_frame w w'" "first_ok fresh shown I (w_active w) p v"
    then show ?thesis using 1(1)
      by (cases p rule: poll_result_cases) (auto simp: emit_view_def emit_fresh_def emit_shown_def)
  qed
next
  case (2 I s page w)
  show ?case
  proof (cases "em_done s")
    case False
    with 2 have "polls (poll_swap V (em_view s) w) w (swap_ok shown I (w_active w) q page)"
      using live_contract.swap_law [OF assms] by (simp add: emit_shown_def)
    then show ?thesis
    proof (rule pollsE)
      fix p v w'
      assume "poll_swap V (em_view s) w = Done (p, v, w')" "same_frame w w'" "swap_ok shown I (w_active w) q page p v"
      then show ?thesis using 2(1) False live_contract.shown_ids [OF assms]
        by (cases p rule: poll_option_cases) (auto simp: emit_view_def emit_shown_def)
    qed
  qed (use 2 in \<open>simp add: emit_view_def\<close>)
next
  case (3 I s page)
  then show ?case by (simp add: emit_shown_def)
qed

text \<open>The states as those of the page around the region.\<close>

definition emit_in :: "'s fresh_states \<Rightarrow> 's shown_states \<Rightarrow> region_id \<Rightarrow> region_id set \<Rightarrow> 's emit_state shown_states" where
  "emit_in fresh shown r J I s page \<longleftrightarrow> r \<notin> J \<and> insert r J \<subseteq> I \<and>
     (\<exists>inner. page = region_page r inner \<and> emit_within fresh shown r J s inner)"

lemma emit_in_swap:
  fixes V :: "('s, 'h, 'e, 'x) view_ops"
  assumes "sealed_contract V fresh shown c" "emit_in fresh shown r J I s page" "c \<longrightarrow> w_hoisted w \<noteq> None"
  shows "polls (poll_swap (emit_view V) s w) w (swap_ok (emit_in fresh shown r J) I (w_active w) True page)"
proof -
  note live = sealed_contract.axioms(1) [OF assms(1)]
  obtain inner where i: "page = region_page r inner" "emit_within fresh shown r J s inner" "r \<notin> J" "insert r J \<subseteq> I"
    using assms(2) by (auto simp: emit_in_def)
  then have n: "r \<notin> ids_of inner" by (auto simp: emit_within_def)
  consider (over) "em_done s" | (first) "\<not> em_done s" "em_first s" | (later) "\<not> em_done s" "\<not> em_first s" by blast
  then show ?thesis
  proof cases
    case over
    then show ?thesis by (simp add: emit_view_def)
  next
    case first
    then have "polls (poll_first V (em_view s) w) w (\<lambda>p s. first_ok fresh shown J None p s \<and> sealed_content p)"
      using sealed_contract.sealed_law [OF assms(1) _ assms(3)] i(2) by (simp add: emit_within_def)
    then show ?thesis
    proof (rule pollsE)
      fix p v w'
      assume "poll_first V (em_view s) w = Done (p, v, w')" "same_frame w w'" "first_ok fresh shown J None p v \<and> sealed_content p"
      then show ?thesis using i n first region_page_swap [OF n]
        by (cases p rule: poll_result_cases)
          (auto simp: emit_view_def emit_in_def emit_within_def swap_fits_def after_swap_def home_ok_def)
    qed
  next
    case later
    then have "polls (poll_swap V (em_view s) w) w (swap_ok shown J (w_active w) True inner)"
      using live_contract.swap_law [OF live _ assms(3)] i(2) by (simp add: emit_within_def)
    then show ?thesis
    proof (rule pollsE)
      fix p v w'
      assume p: "poll_swap V (em_view s) w = Done (p, v, w')" "same_frame w w'" "swap_ok shown J (w_active w) True inner p v"
      show ?thesis
      proof (cases p rule: poll_option_cases)
        case (swapped u)
        with p have u: "swap_fits J (w_active w) True inner u" "shown J v (after_swap u inner)" by simp_all
        have "ids_of inner \<subseteq> J" using i(2) by (simp add: emit_within_def)
        note f = swap_fits_inside [OF u(1) this i(3)]
        have "swap_fits I (w_active w) True page u"
          using swap_fits_mono [OF f(1), of I] i(1,4) by blast
        with swapped p f u(2) i later show ?thesis by (auto simp: emit_view_def emit_in_def emit_within_def)
      qed (use p i later in \<open>auto simp: emit_view_def emit_in_def emit_within_def\<close>)
    qed
  qed
qed

subsection \<open>Driven views and live regions\<close>

definition yielded_first :: "(('h view_first, 'x) result poll \<Rightarrow> 's \<Rightarrow> bool) \<Rightarrow> ('a, 'x) result poll \<times> 'h view_first option \<Rightarrow> 's \<Rightarrow> bool" where
  "yielded_first good x s \<longleftrightarrow> (case x of
       (p, Some f) \<Rightarrow> p = Pending \<and> good (Ready (Inr f)) s
     | (Pending, None) \<Rightarrow> good Pending s
     | (Ready (Inl e), None) \<Rightarrow> good (Ready (Inl e)) s
     | (Ready (Inr _), None) \<Rightarrow> False)"

definition yielded_swap :: "(('h view_swap option, 'x) result poll \<Rightarrow> 's \<Rightarrow> bool) \<Rightarrow> ('a, 'x) result poll \<times> 'h view_swap option \<Rightarrow> 's \<Rightarrow> bool" where
  "yielded_swap good x s \<longleftrightarrow> (case x of
       (p, Some u) \<Rightarrow> p = Pending \<and> good (Ready (Inr (Some u))) s
     | (Pending, None) \<Rightarrow> good Pending s
     | (Ready (Inl e), None) \<Rightarrow> good (Ready (Inl e)) s
     | (Ready (Inr _), None) \<Rightarrow> good (Ready (Inr None)) s)"

lemma yielded_simps [simp]:
  "yielded_first good (p, Some f) s \<longleftrightarrow> p = Pending \<and> good (Ready (Inr f)) s"
  "yielded_first good (Pending, None) s \<longleftrightarrow> good Pending s"
  "yielded_first good (Ready (Inl e), None) s \<longleftrightarrow> good (Ready (Inl e)) s"
  "\<not> yielded_first good (Ready (Inr z), None) s"
  "yielded_swap better (p, Some u) s \<longleftrightarrow> p = Pending \<and> better (Ready (Inr (Some u))) s"
  "yielded_swap better (Pending, None) s \<longleftrightarrow> better Pending s"
  "yielded_swap better (Ready (Inl e), None) s \<longleftrightarrow> better (Ready (Inl e)) s"
  "yielded_swap better (Ready (Inr z), None) s \<longleftrightarrow> better (Ready (Inr None)) s"
  by (simp_all add: yielded_first_def yielded_swap_def split: poll.split sum.split)

lemma yield_cases:
  obtains (pending) "x = (Pending, None)" | (failed) e where "x = (Ready (Inl e), None)"
  | (over) z where "x = (Ready (Inr z), None)" | (yielded) p y where "x = (p, Some y)"
  by (metis option.exhaust poll_result_cases surj_pair)

lemma drive_first:
  assumes "polls (poll_first V s (w\<lparr>w_yield_first := None, w_drive := Some DriveFirst\<rparr>))
    (w\<lparr>w_yield_first := None, w_drive := Some DriveFirst\<rparr>) good"
  shows "polls (body_first (drive_future V) s w) w (yielded_first good)"
  using assms
proof (rule pollsE)
  fix p s' w'
  assume "poll_first V s (w\<lparr>w_yield_first := None, w_drive := Some DriveFirst\<rparr>) = Done (p, s', w')"
    "same_frame (w\<lparr>w_yield_first := None, w_drive := Some DriveFirst\<rparr>) w'" "good p s'"
  then show ?thesis
    by (cases p rule: poll_result_cases) (simp_all add: body_first_def drive_future_def same_frame_def)
qed

lemma drive_swap:
  assumes "polls (poll_swap V s (w\<lparr>w_yield_swap := None, w_drive := Some DriveSwap\<rparr>))
    (w\<lparr>w_yield_swap := None, w_drive := Some DriveSwap\<rparr>) good"
  shows "polls (body_swap (drive_future V) s w) w (yielded_swap good)"
  using assms
proof (rule pollsE)
  fix p s' w'
  assume "poll_swap V s (w\<lparr>w_yield_swap := None, w_drive := Some DriveSwap\<rparr>) = Done (p, s', w')"
    "same_frame (w\<lparr>w_yield_swap := None, w_drive := Some DriveSwap\<rparr>) w'" "good p s'"
  then show ?thesis
    by (cases p rule: poll_option_cases) (simp_all add: body_swap_def drive_future_def same_frame_def)
qed

lemma move_first: "polls (body_first B b w) w (yielded_first good) \<Longrightarrow> polls (poll_first (move_view B) b w) w good"
proof (erule pollsE)
  fix x b' w'
  assume "body_first B b w = Done (x, b', w')" "same_frame w w'" "yielded_first good x b'"
  then show ?thesis by (cases x rule: yield_cases) (auto simp: move_view_def)
qed

lemma move_swap: "polls (body_swap B b w) w (yielded_swap good) \<Longrightarrow> polls (poll_swap (move_view B) b w) w good"
proof (erule pollsE)
  fix x b' w'
  assume "body_swap B b w = Done (x, b', w')" "same_frame w w'" "yielded_swap good x b'"
  then show ?thesis by (cases x rule: yield_cases) (auto simp: move_view_def)
qed

lemma move_contract:
  fixes V :: "('s, 'h, 'e, 'x) view_ops"
  assumes "live_contract V fresh shown c q"
  shows "live_contract (move_view (drive_future V)) fresh shown c q"
proof (rule live_contract.intro, goal_cases)
  case (1 I w s)
  then show ?case
    using live_contract.first_law [OF assms, of I "w\<lparr>w_yield_first := None, w_drive := Some DriveFirst\<rparr>" s]
    by (intro move_first drive_first) simp
next
  case (2 I s page w)
  then show ?case
    using live_contract.swap_law [OF assms, of I s page "w\<lparr>w_yield_swap := None, w_drive := Some DriveSwap\<rparr>"]
    by (intro move_swap drive_swap) simp
next
  case (3 I s page)
  then show ?case by (rule live_contract.shown_ids [OF assms])
qed

text \<open>The contract of a live body: it yields its first content before it ends, yields only when it is
  pending, and then swaps in its region or what it shows there.\<close>

locale body_contract =
  fixes B :: "('b, 'h, 'e, 'x, unit) future" and bfresh :: "region_id \<Rightarrow> 'b fresh_states"
    and bshown :: "region_id \<Rightarrow> region_id set \<Rightarrow> 'b shown_states" and c :: bool
  assumes first_yields: "bfresh r J (w_active w) b \<Longrightarrow> r \<notin> J \<Longrightarrow> (c \<longrightarrow> w_hoisted w \<noteq> None) \<Longrightarrow>
      polls (body_first B b w) w (yielded_first (\<lambda>p b. case p of
          Ready (Inr f) \<Rightarrow> home_ok (w_active w) (vf_content f) \<and> ids_of (marks_of (vf_content f)) \<subseteq> J \<and>
            bshown r J (insert r J) b (region_page r (marks_of (vf_content f)))
        | Ready (Inl _) \<Rightarrow> True
        | Pending \<Rightarrow> bfresh r J (w_active w) b))"
    and swap_yields: "bshown r J I b page \<Longrightarrow> (c \<longrightarrow> w_hoisted w \<noteq> None) \<Longrightarrow>
      polls (body_swap B b w) w (yielded_swap (swap_ok (bshown r J) I (w_active w) True page))"
    and body_page: "bshown r J I b page \<Longrightarrow> ids_of page \<subseteq> I"

definition live_fresh :: "(region_id \<Rightarrow> 'b fresh_states) \<Rightarrow> ('b, 'h) live_state fresh_states" where
  "live_fresh bfresh I a s \<longleftrightarrow> a \<noteq> None \<and> lv_stash s = None \<and>
     (\<exists>J. lv_region s \<notin> J \<and> insert (lv_region s) J \<subseteq> I \<and> bfresh (lv_region s) J a (lv_body s))"

definition live_shown :: "(region_id \<Rightarrow> region_id set \<Rightarrow> 'b shown_states) \<Rightarrow> ('b, 'h) live_state shown_states" where
  "live_shown bshown I s page \<longleftrightarrow> (\<exists>J. insert (lv_region s) J \<subseteq> I \<and> ids_of page \<subseteq> I \<and> (case lv_stash s of
       None \<Rightarrow> bshown (lv_region s) J (insert (lv_region s) J) (lv_body s) page
     | Some u \<Rightarrow> swap_fits I None True page u \<and>
         bshown (lv_region s) J (insert (lv_region s) J) (lv_body s) (after_swap u page)))"

lemma swap_fits_sealed: "swap_fits I a True page u \<Longrightarrow> swap_fits I b q page u"
  by (auto simp: swap_fits_def home_ok_def)

lemma swap_fits_ids: "swap_fits I a q page u \<Longrightarrow> ids_of page \<subseteq> I \<Longrightarrow> ids_of (after_swap u page) \<subseteq> I"
  using swap_in_ids [of "vs_region u" page "marks_of (vs_replacement u)"] by (auto simp: swap_fits_def after_swap_def)

lemma scope_region_marks:
  assumes "home_ok a h" "w_active w = a" "a \<noteq> None"
  obtains d where "scope_block (in_region r h) w = Done d" "hd_home d = a" "marks_of d = region_page r (marks_of h)"
proof -
  obtain b where b: "w_active w = Some b" "hd_home h = None \<or> hd_home h = Some b"
    using assms by (cases a) (auto simp: home_ok_def)
  show thesis using that [OF scope_region [OF b, of r]] b(1) assms(2)
    by (simp only: handle.select_convs marks_of_def in_region_marks)
qed

lemma live_contract_of_body:
  fixes B :: "('b, 'h, 'e, 'x, unit) future"
  assumes B: "body_contract B bfresh bshown c"
  shows "live_contract (live_view B) (live_fresh bfresh) (live_shown bshown) c True"
proof (rule live_contract.intro, goal_cases)
  case (1 I w s)
  let ?r = "lv_region s"
  obtain J where J: "?r \<notin> J" "insert ?r J \<subseteq> I" "bfresh ?r J (w_active w) (lv_body s)"
    "w_active w \<noteq> None" "lv_stash s = None" using 1(1) by (auto simp: live_fresh_def)
  from body_contract.first_yields [OF B J(3,1) 1(2)] show ?case
  proof (rule pollsE)
    fix x b w1
    assume x: "body_first B (lv_body s) w = Done (x, b, w1)" "same_frame w w1" "yielded_first (\<lambda>p b. case p of
          Ready (Inr f) \<Rightarrow> home_ok (w_active w) (vf_content f) \<and> ids_of (marks_of (vf_content f)) \<subseteq> J \<and>
            bshown ?r J (insert ?r J) b (region_page ?r (marks_of (vf_content f)))
        | Ready (Inl _) \<Rightarrow> True | Pending \<Rightarrow> bfresh ?r J (w_active w) b) x b"
    show ?thesis
    proof (cases x rule: yield_cases)
      case (yielded p f)
      with x have f: "p = Pending" "home_ok (w_active w) (vf_content f)" "ids_of (marks_of (vf_content f)) \<subseteq> J"
        "bshown ?r J (insert ?r J) b (region_page ?r (marks_of (vf_content f)))" by simp_all
      let ?page = "region_page ?r (marks_of (vf_content f))"
      note w1 = same_frame_world [OF x(2)]
      from body_contract.swap_yields [OF B f(4) w1(2) [OF 1(2)]] show ?thesis
      proof (rule pollsE)
        fix y b2 w2
        assume y: "body_swap B b w1 = Done (y, b2, w2)" "same_frame w1 w2"
          "yielded_swap (swap_ok (bshown ?r J) (insert ?r J) (w_active w1) True ?page) y b2"
        have w2: "w_active w2 = w_active w" "same_frame w w2"
          using same_frame_world [OF y(2)] w1 same_frame_trans [OF x(2) y(2)] by simp_all
        obtain d where d: "scope_block (in_region ?r (vf_content f)) w2 = Done d" "hd_home d = w_active w" "marks_of d = ?page"
          using scope_region_marks [OF f(2) w2(1) J(4)] by metis
        have ids: "ids_of ?page \<subseteq> I" using f(3) J(2) by auto
        note run = x(1) y(1) w2(2) yielded f(1)
        show ?thesis
        proof (cases y rule: yield_cases)
          case pending
          with run d y(3) J ids show ?thesis by (auto simp: live_view_def live_shown_def home_ok_def)
        next
          case (failed e)
          with run show ?thesis by (simp add: live_view_def)
        next
          case (over z)
          with run f ids show ?thesis by (simp add: live_view_def)
        next
          case (yielded p' u)
          with y(3) have u: "p' = Pending" "swap_fits (insert ?r J) (w_active w1) True ?page u"
            "bshown ?r J (insert ?r J) b2 (after_swap u ?page)" by simp_all
          have "swap_fits I None True ?page u" using swap_fits_mono [OF swap_fits_sealed [OF u(2)] J(2)] .
          with run d u yielded J ids show ?thesis by (auto simp: live_view_def live_shown_def home_ok_def)
        qed
      qed
    qed (use x J in \<open>auto simp: live_view_def live_fresh_def\<close>)
  qed
next
  case (2 I s page w)
  let ?r = "lv_region s"
  obtain J where J: "insert ?r J \<subseteq> I" "ids_of page \<subseteq> I" "case lv_stash s of
       None \<Rightarrow> bshown ?r J (insert ?r J) (lv_body s) page
     | Some u \<Rightarrow> swap_fits I None True page u \<and> bshown ?r J (insert ?r J) (lv_body s) (after_swap u page)"
    using 2(1) by (auto simp: live_shown_def)
  show ?case
  proof (cases "lv_stash s")
    case (Some u)
    then have u: "swap_fits I None True page u" "bshown ?r J (insert ?r J) (lv_body s) (after_swap u page)" using J(3) by simp_all
    from Some u J(1) swap_fits_ids [OF u(1) J(2)] show ?thesis
      using swap_fits_sealed [OF u(1), of "w_active w" True] by (auto simp: live_view_def live_shown_def)
  next
    case None
    then have b: "bshown ?r J (insert ?r J) (lv_body s) page" using J(3) by simp
    from body_contract.swap_yields [OF B b 2(2)] show ?thesis
    proof (rule pollsE)
      fix x b w1
      assume x: "body_swap B (lv_body s) w = Done (x, b, w1)" "same_frame w w1"
        "yielded_swap (swap_ok (bshown ?r J) (insert ?r J) (w_active w) True page) x b"
      show ?thesis
      proof (cases x rule: yield_cases)
        case (yielded p u)
        with x have u: "p = Pending" "swap_fits (insert ?r J) (w_active w) True page u"
          "bshown ?r J (insert ?r J) b (after_swap u page)" by simp_all
        note fit = swap_fits_mono [OF u(2) J(1)]
        from yielded u x None fit swap_fits_ids [OF fit J(2)] J show ?thesis
          by (auto simp: live_view_def live_shown_def)
      qed (use x None J in \<open>auto simp: live_view_def live_shown_def\<close>)
    qed
  qed
next
  case (3 I s page)
  then show ?case by (auto simp: live_shown_def)
qed

text \<open>A view on the page as it is, or in the region \<open>r\<close>, with the regions \<open>J\<close>.\<close>

definition placed_shown :: "'s shown_states \<Rightarrow> region_id \<Rightarrow> region_id set \<Rightarrow> 's shown_states" where
  "placed_shown shown r J I s page \<longleftrightarrow> r \<notin> J \<and> insert r J \<subseteq> I \<and>
     (shown J s page \<or> (\<exists>inner. page = region_page r inner \<and> shown J s inner))"

lemma placed_swap:
  assumes V: "live_contract V fresh shown c q" and p: "placed_shown shown r J I s page" and c: "c \<longrightarrow> w_hoisted w \<noteq> None"
  shows "polls (poll_swap V s w) w (swap_ok (placed_shown shown r J) I (w_active w) q page)"
proof -
  have J: "r \<notin> J" "insert r J \<subseteq> I" "J \<subseteq> I" using p by (auto simp: placed_shown_def)
  consider (here) "shown J s page" | (inside) inner where "page = region_page r inner" "shown J s inner"
    using p by (auto simp: placed_shown_def)
  then show ?thesis
  proof cases
    case here
    show ?thesis
      by (rule polls_weaken [OF live_contract.swap_law [OF V here c]])
        (use J in \<open>auto simp: placed_shown_def elim!: swap_ok_map [where g = id, simplified]\<close>)
  next
    case inside
    note ids = live_contract.shown_ids [OF V inside(2)]
    show ?thesis
    proof (rule polls_weaken [OF live_contract.swap_law [OF V inside(2) c]])
      fix p s'
      assume p: "swap_ok shown J (w_active w) q inner p s'"
      show "swap_ok (placed_shown shown r J) I (w_active w) q page p s'"
      proof (cases p rule: poll_option_cases)
        case (swapped u)
        with p have u: "swap_fits J (w_active w) q inner u" "shown J s' (after_swap u inner)" by simp_all
        note f = swap_fits_inside [OF u(1) ids J(1)]
        from swapped f u(2) J inside(1) swap_fits_mono [OF f(1) J(3)] show ?thesis by (auto simp: placed_shown_def)
      qed (use p J inside(1) in \<open>auto simp: placed_shown_def\<close>)
    qed
  qed
qed

text \<open>What one poll of a body does, in the mode that is set.\<close>

definition yields_first :: "('b, 'h, 'e, 'x, 'a) future \<Rightarrow> 'b \<Rightarrow> ('h, 'e) world \<Rightarrow>
    (('h view_first, 'x) result poll \<Rightarrow> 'b \<Rightarrow> bool) \<Rightarrow> bool" where
  "yields_first B b w good \<longleftrightarrow> (\<exists>p b' w'. B b w = Done (p, b', w') \<and>
     same_frame (w\<lparr>w_yield_first := w_yield_first w'\<rparr>) w' \<and> yielded_first good (p, w_yield_first w') b')"

definition yields_swap :: "('b, 'h, 'e, 'x, 'a) future \<Rightarrow> 'b \<Rightarrow> ('h, 'e) world \<Rightarrow>
    (('h view_swap option, 'x) result poll \<Rightarrow> 'b \<Rightarrow> bool) \<Rightarrow> bool" where
  "yields_swap B b w good \<longleftrightarrow> (\<exists>p b' w'. B b w = Done (p, b', w') \<and>
     same_frame (w\<lparr>w_yield_swap := w_yield_swap w'\<rparr>) w' \<and> yielded_swap good (p, w_yield_swap w') b')"

lemma body_first_polls:
  "yields_first B b (w\<lparr>w_yield_first := None, w_drive := Some DriveFirst\<rparr>) good \<Longrightarrow>
    polls (body_first B b w) w (yielded_first good)"
  by (auto simp: yields_first_def body_first_def same_frame_def)

lemma body_swap_polls:
  "yields_swap B b (w\<lparr>w_yield_swap := None, w_drive := Some DriveSwap\<rparr>) good \<Longrightarrow>
    polls (body_swap B b w) w (yielded_swap good)"
  by (auto simp: yields_swap_def body_swap_def same_frame_def)

lemma drive_yields_first:
  assumes "polls (poll_first V s w) w good" "w_drive w = Some DriveFirst" "w_yield_first w = None"
  shows "yields_first (drive_future V) s w good"
  using assms(1)
proof (rule pollsE)
  fix p s' w'
  assume "poll_first V s w = Done (p, s', w')" "same_frame w w'" "good p s'"
  then show ?thesis using assms(2,3)
    by (cases p rule: poll_result_cases) (auto simp: yields_first_def drive_future_def same_frame_def)
qed

lemma drive_yields_swap:
  assumes "polls (poll_swap V s w) w good" "w_drive w = Some DriveSwap" "w_yield_swap w = None"
  shows "yields_swap (drive_future V) s w good"
  using assms(1)
proof (rule pollsE)
  fix p s' w'
  assume "poll_swap V s w = Done (p, s', w')" "same_frame w w'" "good p s'"
  then show ?thesis using assms(2,3)
    by (cases p rule: poll_option_cases) (auto simp: yields_swap_def drive_future_def same_frame_def)
qed

text \<open>A body of emissions one after the other, each awaited.\<close>

fun emits :: "('s, 'h, 'e, 'x) view_ops \<Rightarrow> ('s emit_state list, 'h, 'e, 'x, unit) future" where
  "emits V [] w = Done (Ready (Ok ()), [], w)"
| "emits V (s # ss) w = bind_outcome (live_drive V s w) (\<lambda>(p, s, w). case p of
     Ready (Inr _) \<Rightarrow> emits V ss w
   | Ready (Inl e) \<Rightarrow> Done (Ready (Inl e), s # ss, w)
   | Pending \<Rightarrow> Done (Pending, s # ss, w))"

definition emits_waiting :: "'s fresh_states \<Rightarrow> region_id \<Rightarrow> region_id set \<Rightarrow> 's emit_state list \<Rightarrow> bool" where
  "emits_waiting fresh r J ss \<longleftrightarrow> (\<forall>s \<in> set ss. em_region s = r \<and> em_first s \<and> \<not> em_done s \<and> fresh J None (em_view s))"

definition emits_fresh :: "'s fresh_states \<Rightarrow> region_id \<Rightarrow> 's emit_state list fresh_states" where
  "emits_fresh fresh r J a ss \<longleftrightarrow> ss \<noteq> [] \<and> emits_waiting fresh r J ss"

definition emits_shown :: "'s fresh_states \<Rightarrow> 's shown_states \<Rightarrow> region_id \<Rightarrow> region_id set \<Rightarrow> 's emit_state list shown_states" where
  "emits_shown fresh shown r J I ss page \<longleftrightarrow> ids_of page \<subseteq> I \<and> ss \<noteq> [] \<and>
     emit_in fresh shown r J I (hd ss) page \<and> emits_waiting fresh r J (tl ss)"

lemma emit_in_next:
  "emit_in fresh shown r J I s page \<Longrightarrow> emits_waiting fresh r J (t # ts) \<Longrightarrow> emit_in fresh shown r J I t page"
  by (auto simp: emit_in_def emit_within_def emits_waiting_def)

lemma emit_in_ids: "emit_in fresh shown r J I s page \<Longrightarrow> ids_of page \<subseteq> I"
  by (auto simp: emit_in_def emit_within_def)

lemma emits_yields_swap:
  fixes V :: "('s, 'h, 'e, 'x) view_ops"
  assumes V: "sealed_contract V fresh shown c"
  shows "emits_shown fresh shown r J I ss page \<Longrightarrow> c \<longrightarrow> w_hoisted w \<noteq> None \<Longrightarrow> w_drive w = Some DriveSwap \<Longrightarrow>
    w_yield_swap w = None \<Longrightarrow> yields_swap (emits V) ss w (swap_ok (emits_shown fresh shown r J) I (w_active w) True page)"
proof (induction ss arbitrary: w)
  case Nil
  then show ?case by (simp add: emits_shown_def)
next
  case (Cons s ss)
  from Cons.prems(1) have s: "ids_of page \<subseteq> I" "emit_in fresh shown r J I s page" "emits_waiting fresh r J ss"
    by (simp_all add: emits_shown_def)
  have "yields_swap (live_drive V) s w (swap_ok (emit_in fresh shown r J) I (w_active w) True page)"
    unfolding live_drive_def using emit_in_swap [OF V s(2) Cons.prems(2)] Cons.prems(3,4) by (rule drive_yields_swap)
  then obtain p s' w' where p: "live_drive V s w = Done (p, s', w')" "same_frame (w\<lparr>w_yield_swap := w_yield_swap w'\<rparr>) w'"
    "yielded_swap (swap_ok (emit_in fresh shown r J) I (w_active w) True page) (p, w_yield_swap w') s'"
    by (auto simp: yields_swap_def)
  show ?case
  proof (cases "(p, w_yield_swap w')" rule: yield_cases)
    case pending
    with p s show ?thesis by (auto simp: yields_swap_def emits_shown_def)
  next
    case (failed e)
    with p show ?thesis by (auto simp: yields_swap_def)
  next
    case (over z)
    show ?thesis
    proof (cases ss)
      case Nil
      with over p show ?thesis by (auto simp: yields_swap_def)
    next
      case (Cons t ts)
      have w: "w_active w' = w_active w" "w_drive w' = Some DriveSwap" "w_yield_swap w' = None"
        "c \<longrightarrow> w_hoisted w' \<noteq> None"
        using p(2) over Cons.prems(2,3) by (auto simp: same_frame_def)
      have "emits_shown fresh shown r J I ss page"
        using emit_in_next [OF s(2)] s(1,3) Cons by (auto simp: emits_shown_def emits_waiting_def)
      from Cons.IH [OF this w(4,2,3)] obtain q ss' w'' where q: "emits V ss w' = Done (q, ss', w'')"
        "same_frame (w'\<lparr>w_yield_swap := w_yield_swap w''\<rparr>) w''"
        "yielded_swap (swap_ok (emits_shown fresh shown r J) I (w_active w) True page) (q, w_yield_swap w'') ss'"
        unfolding yields_swap_def w(1) by blast
      moreover have "same_frame (w\<lparr>w_yield_swap := w_yield_swap w''\<rparr>) w''"
        using p(2) q(2) by (simp add: same_frame_def)
      ultimately show ?thesis using p(1) over by (auto simp: yields_swap_def)
    qed
  next
    case (yielded p' u)
    then have "p = Pending" "swap_fits I (w_active w) True page u" "emit_in fresh shown r J I s' (after_swap u page)"
      using p(3) by simp_all
    with yielded p(1,2) s show ?thesis by (auto simp: yields_swap_def emits_shown_def emit_in_ids)
  qed
qed

lemma emits_body:
  fixes V :: "('s, 'h, 'e, 'x) view_ops"
  assumes V: "sealed_contract V fresh shown c"
  shows "body_contract (emits V) (emits_fresh fresh) (emits_shown fresh shown) c"
proof (rule body_contract.intro, goal_cases)
  case (1 r J w ss)
  let ?w = "w\<lparr>w_yield_first := None, w_drive := Some DriveFirst\<rparr>"
  let ?good = "\<lambda>p b. case p of
      Ready (Inr f) \<Rightarrow> home_ok (w_active w) (vf_content f) \<and> ids_of (marks_of (vf_content f)) \<subseteq> J \<and>
        emits_shown fresh shown r J (insert r J) b (region_page r (marks_of (vf_content f)))
    | Ready (Inl _) \<Rightarrow> True
    | Pending \<Rightarrow> emits_fresh fresh r J (w_active w) b"
  obtain s ts where s: "ss = s # ts" "em_region s = r" "em_first s" "\<not> em_done s" "fresh J None (em_view s)"
    "emits_waiting fresh r J ts" using 1(1) by (cases ss) (auto simp: emits_fresh_def emits_waiting_def)
  have "polls (poll_first V (em_view s) ?w) ?w (\<lambda>p s. first_ok fresh shown J None p s \<and> sealed_content p)"
    using sealed_contract.sealed_law [OF V s(5)] 1(3) by simp
  then show ?case
  proof (rule pollsE)
    fix p v w'
    assume p: "poll_first V (em_view s) ?w = Done (p, v, w')" "same_frame ?w w'" "first_ok fresh shown J None p v \<and> sealed_content p"
    have "yields_first (emits V) ss ?w ?good"
    proof (cases p rule: poll_result_cases)
      case pending
      with p s show ?thesis
        by (auto simp: yields_first_def live_drive_def drive_future_def emit_view_def emits_fresh_def emits_waiting_def same_frame_def)
    next
      case (failed e)
      with p s show ?thesis
        by (auto simp: yields_first_def live_drive_def drive_future_def emit_view_def same_frame_def)
    next
      case (ready f)
      with p s show ?thesis
        by (auto simp: yields_first_def live_drive_def drive_future_def emit_view_def same_frame_def emits_shown_def
            emit_in_def emit_within_def home_ok_def 1(2))
    qed
    then show ?thesis by (rule body_first_polls)
  qed
next
  case (2 r J I ss page w)
  from body_swap_polls [OF emits_yields_swap [OF V 2(1)]] 2(2) show ?case by simp
next
  case (3 r J I ss page)
  then show ?case by (simp add: emits_shown_def)
qed

interpretation sealed_unit: sealed_contract "scope_view unit_view" "scope_sealed (\<lambda>I a s. True)" "scope_shown (\<lambda>I s page. page = [])" False
  by (rule scope_sealed_contract [OF unit.live_contract_axioms])

interpretation emitted: body_contract "emits (scope_view unit_view)" "emits_fresh (scope_sealed (\<lambda>I a s. True))"
  "emits_shown (scope_sealed (\<lambda>I a s. True)) (scope_shown (\<lambda>I s page. page = []))" False
  by (rule emits_body [OF sealed_unit.sealed_contract_axioms])

lemmas live_emits_contract = live_contract_of_body [OF emitted.body_contract_axioms]

subsection \<open>Suspense\<close>

definition suspense_fresh :: "'f fresh_states \<Rightarrow> 's fresh_states \<Rightarrow> ('f, 's) suspense_state fresh_states" where
  "suspense_fresh ff fc I a s \<longleftrightarrow> a \<noteq> None \<and> su_state s = SuspenseStart \<and>
     (\<exists>J. su_region s \<notin> J \<and> insert (su_region s) J \<subseteq> I \<and> scope_sealed fc J None (su_child s) \<and> ff J a (su_fallback s))"

text \<open>The content stands on the page as it is, or in the region once the fallback went out.\<close>

definition suspense_shown :: "'s fresh_states \<Rightarrow> 'f shown_states \<Rightarrow> 's shown_states \<Rightarrow> ('f, 's) suspense_state shown_states" where
  "suspense_shown fc sf sc I s page \<longleftrightarrow> ids_of page \<subseteq> I \<and>
     (\<exists>J. su_region s \<notin> J \<and> insert (su_region s) J \<subseteq> I \<and> (case su_state s of
        SuspenseStart \<Rightarrow> False
      | SuspenseDone \<Rightarrow> True
      | SuspenseChild \<Rightarrow> scope_shown sc J (su_child s) page \<or>
          (\<exists>inner. page = region_page (su_region s) inner \<and> scope_shown sc J (su_child s) inner)
      | SuspenseFallback alive \<Rightarrow> scope_sealed fc J None (su_child s) \<and>
          (\<exists>inner. page = region_page (su_region s) inner \<and> ids_of inner \<subseteq> J \<and> (alive \<longrightarrow> sf J (su_fallback s) inner))))"

lemma suspense_first:
  fixes F :: "('f, 'h, 'e, 'x) view_ops" and C :: "('s, 'h, 'e, 'x) view_ops"
  assumes F: "live_contract F ff sf c q" and C: "sealed_contract (scope_view C) (scope_sealed fc) (scope_shown sc) c"
    and s: "suspense_fresh ff fc I (w_active w) s" and c: "c \<longrightarrow> w_hoisted w \<noteq> None"
  shows "polls (poll_first (suspense_view F C) s w) w (first_ok (suspense_fresh ff fc) (suspense_shown fc sf sc) I (w_active w))"
proof -
  let ?r = "su_region s"
  obtain J where J: "?r \<notin> J" "insert ?r J \<subseteq> I" "scope_sealed fc J None (su_child s)" "ff J (w_active w) (su_fallback s)"
    "w_active w \<noteq> None" "su_state s = SuspenseStart" using s by (auto simp: suspense_fresh_def)
  from sealed_contract.sealed_law [OF C J(3) c] show ?thesis
  proof (rule pollsE)
    fix p v w1
    assume p: "poll_first (scope_view C) (su_child s) w = Done (p, v, w1)" "same_frame w w1"
      "first_ok (scope_sealed fc) (scope_shown sc) J None p v \<and> sealed_content p"
    show ?thesis
    proof (cases p rule: poll_result_cases)
      case pending
      then have v: "scope_sealed fc J None v" using p(3) by simp
      show ?thesis
      proof (cases "su_wait s")
        case True
        then show ?thesis using p pending v J by (auto simp: suspense_view_def suspense_fresh_def)
      next
        case False
        note w1 = same_frame_world [OF p(2)]
        have "ff J (w_active w1) (su_fallback s)" using J(4) w1(1) by simp
        from live_contract.first_law [OF F this w1(2) [OF c]] show ?thesis
        proof (rule pollsE)
          fix p' f w2
          assume f: "poll_first F (su_fallback s) w1 = Done (p', f, w2)" "same_frame w1 w2"
            "first_ok ff sf J (w_active w1) p' f"
          have w2: "w_active w2 = w_active w" "same_frame w w2"
            using same_frame_world(1) [OF f(2)] w1 same_frame_trans [OF p(2) f(2)] by simp_all
          note run = p(1) pending False J(6) f(1) w2
          show ?thesis
          proof (cases p' rule: poll_result_cases)
            case pending
            with run f v J w1 show ?thesis by (auto simp: suspense_view_def suspense_fresh_def)
          next
            case (failed e)
            with run show ?thesis by (simp add: suspense_view_def)
          next
            case (ready x)
            with f(3) w1 have x: "home_ok (w_active w) (vf_content x)" "ids_of (marks_of (vf_content x)) \<subseteq> J"
              "vf_live x \<longrightarrow> sf J f (marks_of (vf_content x))" by simp_all
            obtain d where d: "scope_block (in_region ?r (vf_content x)) w2 = Done d" "hd_home d = w_active w"
              "marks_of d = region_page ?r (marks_of (vf_content x))"
              using scope_region_marks [OF x(1) w2(1) J(5)] by metis
            from run ready d x v J show ?thesis
              by (auto simp: suspense_view_def suspense_shown_def home_ok_def)
          qed
        qed
      qed
    next
      case (failed e)
      with p J show ?thesis by (simp add: suspense_view_def)
    next
      case (ready f)
      with p J show ?thesis by (auto simp: suspense_view_def suspense_shown_def settled_def home_ok_def)
    qed
  qed
qed

lemma suspense_swap:
  fixes F :: "('f, 'h, 'e, 'x) view_ops" and C :: "('s, 'h, 'e, 'x) view_ops"
  assumes F: "live_contract F ff sf c q" and C: "sealed_contract (scope_view C) (scope_sealed fc) (scope_shown sc) c"
    and s: "suspense_shown fc sf sc I s page" and c: "c \<longrightarrow> w_hoisted w \<noteq> None"
  shows "polls (poll_swap (suspense_view F C) s w) w (swap_ok (suspense_shown fc sf sc) I (w_active w) q page)"
proof -
  let ?r = "su_region s"
  note live = sealed_contract.axioms(1) [OF C]
  obtain J where J: "ids_of page \<subseteq> I" "?r \<notin> J" "insert ?r J \<subseteq> I" "case su_state s of
        SuspenseStart \<Rightarrow> False
      | SuspenseDone \<Rightarrow> True
      | SuspenseChild \<Rightarrow> scope_shown sc J (su_child s) page \<or>
          (\<exists>inner. page = region_page ?r inner \<and> scope_shown sc J (su_child s) inner)
      | SuspenseFallback alive \<Rightarrow> scope_sealed fc J None (su_child s) \<and>
          (\<exists>inner. page = region_page ?r inner \<and> ids_of inner \<subseteq> J \<and> (alive \<longrightarrow> sf J (su_fallback s) inner))"
    using s by (auto simp: suspense_shown_def)
  show ?thesis
  proof (cases "su_state s")
    case SuspenseStart
    with J(4) show ?thesis by simp
  next
    case SuspenseDone
    then show ?thesis by (simp add: suspense_view_def)
  next
    case SuspenseChild
    then have "placed_shown (scope_shown sc) ?r J I (su_child s) page"
      using J by (auto simp: placed_shown_def)
    from placed_swap [OF live this c] show ?thesis
    proof (rule pollsE)
      fix p v w'
      assume p: "poll_swap (scope_view C) (su_child s) w = Done (p, v, w')" "same_frame w w'"
        "swap_ok (placed_shown (scope_shown sc) ?r J) I (w_active w) True page p v"
      show ?thesis
      proof (cases p rule: poll_option_cases)
        case (swapped u)
        with p have u: "swap_fits I (w_active w) True page u" "placed_shown (scope_shown sc) ?r J I v (after_swap u page)" by simp_all
        from swapped p SuspenseChild J u(2) swap_fits_sealed [OF u(1)] swap_fits_ids [OF u(1) J(1)] show ?thesis
          by (auto simp: suspense_view_def suspense_shown_def placed_shown_def)
      qed (use p SuspenseChild J in \<open>auto simp: suspense_view_def suspense_shown_def placed_shown_def\<close>)
    qed
  next
    case (SuspenseFallback alive)
    with J(4) obtain inner where i: "scope_sealed fc J None (su_child s)" "page = region_page ?r inner" "ids_of inner \<subseteq> J"
      "alive \<longrightarrow> sf J (su_fallback s) inner" by auto
    have n: "?r \<notin> ids_of inner" using i(3) J(2) by auto
    from sealed_contract.sealed_law [OF C i(1) c] show ?thesis
    proof (rule pollsE)
      fix p v w1
      assume p: "poll_first (scope_view C) (su_child s) w = Done (p, v, w1)" "same_frame w w1"
        "first_ok (scope_sealed fc) (scope_shown sc) J None p v \<and> sealed_content p"
      show ?thesis
      proof (cases p rule: poll_result_cases)
        case pending
        then have v: "scope_sealed fc J None v" using p(3) by simp
        show ?thesis
        proof (cases alive)
          case False
          with p pending SuspenseFallback v i J show ?thesis by (auto simp: suspense_view_def suspense_shown_def)
        next
          case True
          note w1 = same_frame_world [OF p(2)]
          have "sf J (su_fallback s) inner" using True i(4) by simp
          from live_contract.swap_law [OF F this w1(2) [OF c]] show ?thesis
          proof (rule pollsE)
            fix p' f w2
            assume f: "poll_swap F (su_fallback s) w1 = Done (p', f, w2)" "same_frame w1 w2"
              "swap_ok sf J (w_active w1) q inner p' f"
            note run = p(1) pending SuspenseFallback True f(1) same_frame_trans [OF p(2) f(2)]
            show ?thesis
            proof (cases p' rule: poll_option_cases)
              case (swapped u)
              with f(3) w1 have u: "swap_fits J (w_active w) q inner u" "sf J f (after_swap u inner)" by simp_all
              note g = swap_fits_inside [OF u(1) i(3) J(2)]
              have fit: "swap_fits I (w_active w) q page u" using swap_fits_mono [OF g(1), of I] i(2) J(3) by blast
              from run swapped fit g u(2) v i J swap_fits_ids [OF fit J(1)] show ?thesis
                by (auto simp: suspense_view_def suspense_shown_def)
            qed (use run f v i J in \<open>auto simp: suspense_view_def suspense_shown_def\<close>)
          qed
        qed
      next
        case (failed e)
        with p SuspenseFallback show ?thesis by (simp add: suspense_view_def)
      next
        case (ready f)
        with p(3) have f: "hd_home (vf_content f) = None" "ids_of (marks_of (vf_content f)) \<subseteq> J"
          "vf_live f \<longrightarrow> scope_shown sc J v (marks_of (vf_content f))" by simp_all
        have "after_swap \<lparr>vs_region = ?r, vs_replacement = vf_content f\<rparr> page = region_page ?r (marks_of (vf_content f))"
          using region_page_swap [OF n] i(2) by (simp add: after_swap_def)
        with ready p f i J SuspenseFallback region_page_swap(1) [OF n] show ?thesis
          by (auto simp: suspense_view_def suspense_shown_def settled_def swap_fits_def home_ok_def)
      qed
    qed
  qed
qed

text \<open>C18. A suspense keeps the contract of views when its fallback and its content do: the fallback goes out in the
  suspense's region while the content is pending, the content's arrival is a swap of exactly that region,
  both stay within the regions they may use and no poll panics, whatever order they become ready in.\<close>

theorem suspense_contract:
  fixes F :: "('f, 'h, 'e, 'x) view_ops" and C :: "('s, 'h, 'e, 'x) view_ops"
  assumes F: "live_contract F ff sf c q" and C: "live_contract C fc sc c True"
  shows "live_contract (suspense_view F C) (suspense_fresh ff fc) (suspense_shown fc sf sc) c q"
  by (rule live_contract.intro)
    (use suspense_first [OF F scope_sealed_contract [OF C]] suspense_swap [OF F scope_sealed_contract [OF C]] in
      \<open>auto simp: suspense_shown_def\<close>)

subsection \<open>Error boundaries\<close>

definition fallback_ok :: "'v fresh_states \<Rightarrow> region_id set \<Rightarrow> ('x \<Rightarrow> ('v, 'x) result) option \<Rightarrow> bool" where
  "fallback_ok fv J fallback \<longleftrightarrow> (\<exists>build. fallback = Some build \<and> (\<forall>e v a. build e = Inr v \<longrightarrow> fv J a v))"

definition boundary_fresh :: "'s fresh_states \<Rightarrow> 'v fresh_states \<Rightarrow> ('s, 'v, 'x) boundary_state fresh_states" where
  "boundary_fresh fc fv I a s \<longleftrightarrow> a \<noteq> None \<and> (case s of
       BoundaryChild child fallback r \<Rightarrow> \<exists>J. r \<notin> J \<and> insert r J \<subseteq> I \<and> fc J a child \<and> fallback_ok fv J fallback
     | BoundaryFallback v \<Rightarrow> \<exists>J \<subseteq> I. emit_fresh (scope_fresh fv) J a v)"

definition boundary_shown :: "'s shown_states \<Rightarrow> 'v fresh_states \<Rightarrow> 'v shown_states \<Rightarrow> ('s, 'v, 'x) boundary_state shown_states" where
  "boundary_shown sc fv sv I s page \<longleftrightarrow> (case s of
       BoundaryChild child fallback r \<Rightarrow> \<exists>J inner. r \<notin> J \<and> insert r J \<subseteq> I \<and> page = region_page r inner \<and>
         sc J child inner \<and> fallback_ok fv J fallback
     | BoundaryFallback v \<Rightarrow> (\<exists>J \<subseteq> I. emit_shown (scope_shown sv) J v page) \<or>
         (\<exists>r J. emit_in (scope_sealed fv) (scope_shown sv) r J I v page))"

text \<open>The fallback, in place of the child that failed.\<close>

lemma fallback_first:
  fixes V :: "('v, 'h, 'e, 'x) view_ops"
  assumes "live_contract V fv sv c True" "emit_fresh (scope_fresh fv) J (w_active w) v" "J \<subseteq> I" "w_active w \<noteq> None"
    "c \<longrightarrow> w_hoisted w \<noteq> None"
  shows "polls (map_state BoundaryFallback (poll_first (emit_view (scope_view V)) v w)) w
    (first_ok (boundary_fresh fc fv) (boundary_shown sc fv sv) I (w_active w))"
  by (rule polls_map [OF live_contract.first_law [OF emit_contract [OF scope_contract [OF assms(1)]] assms(2,5)]])
    (use assms(3,4) in \<open>auto simp: boundary_fresh_def boundary_shown_def intro: exI [of _ J] elim!: first_ok_map\<close>)

lemma fallback_swap:
  fixes V :: "('v, 'h, 'e, 'x) view_ops"
  assumes V: "live_contract V fv sv c True" and c: "c \<longrightarrow> w_hoisted w \<noteq> None"
    and v: "boundary_shown sc fv sv I (BoundaryFallback v) page"
  shows "polls (map_state BoundaryFallback (poll_swap (emit_view (scope_view V)) v w)) w
    (swap_ok (boundary_shown sc fv sv) I (w_active w) True page)"
proof -
  consider (here) J where "J \<subseteq> I" "emit_shown (scope_shown sv) J v page"
    | (inside) r J where "emit_in (scope_sealed fv) (scope_shown sv) r J I v page"
    using v by (auto simp: boundary_shown_def)
  then show ?thesis
  proof cases
    case here
    show ?thesis
      by (rule polls_map [OF live_contract.swap_law [OF emit_contract [OF scope_contract [OF V]] here(2) c]])
        (use here(1) in \<open>auto simp: boundary_shown_def intro: exI [of _ J] elim!: swap_ok_map\<close>)
  next
    case inside
    show ?thesis
      by (rule polls_map [OF emit_in_swap [OF scope_sealed_contract [OF V] inside c]])
        (auto simp: boundary_shown_def elim!: swap_ok_map)
  qed
qed

lemma scope_self_contained_simp [simp]:
  "scope_self_contained (\<lambda>w. Done (v, w)) w =
    Done (\<lparr>sc_view = v, sc_buffer = Some (w_next w), sc_polled = False\<rparr>, w\<lparr>w_next := w_next w + 1\<rparr>)"
  by (cases w) (simp add: scope_self_contained_def Let_def in_scope_def)

lemma swap_ok_weaken: "swap_ok shown I a True page p s \<Longrightarrow> swap_ok shown I b q page p s"
  by (cases p rule: poll_option_cases) (auto intro: swap_fits_sealed)

lemma boundary_first:
  fixes C :: "('s, 'h, 'e, 'x) view_ops" and V :: "('v, 'h, 'e, 'x) view_ops"
  assumes C: "live_contract C fc sc c q" and V: "live_contract V fv sv c True"
    and s: "boundary_fresh fc fv I (w_active w) s" and c: "c \<longrightarrow> w_hoisted w \<noteq> None"
  shows "polls (poll_first (boundary_view C V) s w) w (first_ok (boundary_fresh fc fv) (boundary_shown sc fv sv) I (w_active w))"
proof (cases s)
  case (BoundaryFallback v)
  with s obtain J where "J \<subseteq> I" "emit_fresh (scope_fresh fv) J (w_active w) v" "w_active w \<noteq> None"
    by (auto simp: boundary_fresh_def)
  from fallback_first [OF V this(2,1,3) c] BoundaryFallback show ?thesis by (simp add: boundary_view_def)
next
  case (BoundaryChild child fallback r)
  with s obtain J where J: "r \<notin> J" "insert r J \<subseteq> I" "fc J (w_active w) child" "fallback_ok fv J fallback" "w_active w \<noteq> None"
    by (auto simp: boundary_fresh_def)
  from live_contract.first_law [OF C J(3) c] show ?thesis
  proof (rule pollsE)
    fix p x w'
    assume p: "poll_first C child w = Done (p, x, w')" "same_frame w w'" "first_ok fc sc J (w_active w) p x"
    note w' = same_frame_world [OF p(2)]
    show ?thesis
    proof (cases p rule: poll_result_cases)
      case pending
      with p J BoundaryChild show ?thesis by (auto simp: boundary_view_def boundary_fresh_def)
    next
      case (failed e)
      obtain build where b: "fallback = Some build" "\<And>v a. build e = Inr v \<Longrightarrow> fv J a v"
        using J(4) by (auto simp: fallback_ok_def)
      show ?thesis
      proof (cases "build e")
        case (Inl e')
        with failed p b BoundaryChild show ?thesis by (simp add: boundary_view_def)
      next
        case (Inr v)
        have "emit_fresh (scope_fresh fv) J (w_active w') (emit_new r (scope_new v))"
          using b(2) [OF Inr] J(5) w'(1) by (simp add: emit_fresh_def emit_new_def scope_new_def scope_fresh_def)
        from fallback_first [OF V this _ _ w'(2) [OF c], of I fc sc] J(2,5) w'(1)
        have "polls (map_state BoundaryFallback (poll_first (emit_view (scope_view V)) (emit_new r (scope_new v)) w')) w'
            (first_ok (boundary_fresh fc fv) (boundary_shown sc fv sv) I (w_active w))" by simp
        then show ?thesis
        proof (rule pollsE)
          fix p2 and s2 :: "('s, 'v, 'x) boundary_state" and w2
          assume "map_state BoundaryFallback (poll_first (emit_view (scope_view V)) (emit_new r (scope_new v)) w') = Done (p2, s2, w2)"
            "same_frame w' w2" "first_ok (boundary_fresh fc fv) (boundary_shown sc fv sv) I (w_active w) p2 s2"
          with failed p b Inr BoundaryChild same_frame_trans [OF p(2)] show ?thesis by (simp add: boundary_view_def)
        qed
      qed
    next
      case (ready f)
      with p(3) have f: "home_ok (w_active w) (vf_content f)" "ids_of (marks_of (vf_content f)) \<subseteq> J"
        "vf_live f \<longrightarrow> sc J x (marks_of (vf_content f))" by simp_all
      obtain d where d: "scope_block (in_region r (vf_content f)) w' = Done d" "hd_home d = w_active w"
        "marks_of d = region_page r (marks_of (vf_content f))"
        using scope_region_marks [OF f(1) w'(1) J(5)] by metis
      from ready p f d J BoundaryChild show ?thesis
        by (cases "vf_live f") (auto simp: boundary_view_def boundary_shown_def home_ok_def)
    qed
  qed
qed

lemma boundary_swap:
  fixes C :: "('s, 'h, 'e, 'x) view_ops" and V :: "('v, 'h, 'e, 'x) view_ops"
  assumes C: "live_contract C fc sc c q" and V: "live_contract V fv sv c True"
    and s: "boundary_shown sc fv sv I s page" and c: "c \<longrightarrow> w_hoisted w \<noteq> None"
  shows "polls (poll_swap (boundary_view C V) s w) w (swap_ok (boundary_shown sc fv sv) I (w_active w) q page)"
proof (cases s)
  case (BoundaryFallback v)
  from polls_weaken [OF fallback_swap [OF V c s [unfolded BoundaryFallback]] swap_ok_weaken] BoundaryFallback
  show ?thesis by (simp add: boundary_view_def)
next
  case (BoundaryChild child fallback r)
  with s obtain J inner where J: "r \<notin> J" "insert r J \<subseteq> I" "page = region_page r inner" "sc J child inner" "fallback_ok fv J fallback"
    by (auto simp: boundary_shown_def)
  note ids = live_contract.shown_ids [OF C J(4)]
  from live_contract.swap_law [OF C J(4) c] show ?thesis
  proof (rule pollsE)
    fix p x w'
    assume p: "poll_swap C child w = Done (p, x, w')" "same_frame w w'" "swap_ok sc J (w_active w) q inner p x"
    note w' = same_frame_world [OF p(2)]
    show ?thesis
    proof (cases p rule: poll_option_cases)
      case (failed e)
      obtain build where b: "fallback = Some build" "\<And>v a. build e = Inr v \<Longrightarrow> fv J a v"
        using J(5) by (auto simp: fallback_ok_def)
      show ?thesis
      proof (cases "build e")
        case (Inl e')
        with failed p b BoundaryChild show ?thesis by (simp add: boundary_view_def)
      next
        case (Inr v)
        let ?n = "w_next w'"
        let ?v = "emit_new r \<lparr>sc_view = v, sc_buffer = Some ?n, sc_polled = False\<rparr>"
        let ?w = "w'\<lparr>w_next := ?n + 1\<rparr>"
        have "emit_in (scope_sealed fv) (scope_shown sv) r J I ?v page"
          using b(2) [OF Inr] J(1-3) ids
          by (auto simp: emit_in_def emit_within_def emit_new_def scope_sealed_def)
        then have "boundary_shown sc fv sv I (BoundaryFallback ?v) page" by (auto simp: boundary_shown_def)
        from fallback_swap [OF V _ this, of ?w] w' c
        have "polls (map_state BoundaryFallback (poll_swap (emit_view (scope_view V)) ?v ?w)) ?w
            (swap_ok (boundary_shown sc fv sv) I (w_active w) True page)" by simp
        then show ?thesis
        proof (rule pollsE)
          fix p2 and s2 :: "('s, 'v, 'x) boundary_state" and w2
          assume q: "map_state BoundaryFallback (poll_swap (emit_view (scope_view V)) ?v ?w) = Done (p2, s2, w2)"
            "same_frame ?w w2" "swap_ok (boundary_shown sc fv sv) I (w_active w) True page p2 s2"
          have "same_frame w w2" using p(2) q(2) by (simp add: same_frame_def)
          with failed p b Inr BoundaryChild q swap_ok_weaken [OF q(3)] show ?thesis
            by (simp add: boundary_view_def)
        qed
      qed
    next
      case (swapped u)
      with p(3) have u: "swap_fits J (w_active w) q inner u" "sc J x (after_swap u inner)" by simp_all
      note g = swap_fits_inside [OF u(1) ids J(1)]
      have "swap_fits I (w_active w) q page u" using swap_fits_mono [OF g(1), of I] J(2,3) by blast
      with swapped p u g J BoundaryChild show ?thesis by (auto simp: boundary_view_def boundary_shown_def)
    qed (use p J BoundaryChild in \<open>auto simp: boundary_view_def boundary_shown_def\<close>)
  qed
qed

lemma boundary_keeps_contract:
  fixes C :: "('s, 'h, 'e, 'x) view_ops" and V :: "('v, 'h, 'e, 'x) view_ops"
  assumes C: "live_contract C fc sc c q" and V: "live_contract V fv sv c True"
  shows "live_contract (boundary_view C V) (boundary_fresh fc fv) (boundary_shown sc fv sv) c q"
proof (rule live_contract.intro, goal_cases)
  case (3 I s page)
  then show ?case using live_contract.shown_ids [OF C]
    by (cases s) (fastforce simp: boundary_shown_def emit_shown_def dest: emit_in_ids)+
qed (use boundary_first [OF C V] boundary_swap [OF C V] in blast)+

text \<open>The poll at which a child fails is the first poll of its fallback: in the running build, or in a buffer of its own
  as a swap of the boundary's region.\<close>

fun as_swap :: "region_id \<Rightarrow> ('h view_first, 'x) result poll \<Rightarrow> ('h view_swap option, 'x) result poll" where
  "as_swap r Pending = Pending"
| "as_swap r (Ready (Inl e)) = Ready (Inl e)"
| "as_swap r (Ready (Inr f)) = Ready (Ok (Some \<lparr>vs_region = r, vs_replacement = (vf_content f)\<lparr>hd_home := None\<rparr>\<rparr>))"

lemma boundary_first_failed:
  fixes V :: "('v, 'h, 'e, 'x) view_ops"
  assumes C: "live_contract C fc sc c q" and V: "live_contract V fv sv c True"
    and s: "boundary_fresh fc fv I (w_active w) (BoundaryChild child (Some build) r)" and c: "c \<longrightarrow> w_hoisted w \<noteq> None"
    and e: "poll_first C child w = Done (Ready (Inl e), child', w1)"
  shows "\<exists>p t w2. poll_first (boundary_view C V) (BoundaryChild child (Some build) r) w = Done (p, t, w2) \<and>
    (case build e of Inl x \<Rightarrow> p = Ready (Inl x) | Inr v \<Rightarrow> \<exists>v'. poll_first V v w1 = Done (p, v', w2))"
proof (cases "build e")
  case (Inr v)
  from s obtain J where J: "fc J (w_active w) child" "fallback_ok fv J (Some build)" "w_active w \<noteq> None"
    by (auto simp: boundary_fresh_def)
  have f: "same_frame w w1" using live_contract.first_law [OF C J(1) c] e by simp
  note w1 = same_frame_world [OF f]
  have "fv J (w_active w1) v" using J(2) Inr by (auto simp: fallback_ok_def)
  from live_contract.first_law [OF V this w1(2) [OF c]] obtain p v' w2
    where p: "poll_first V v w1 = Done (p, v', w2)" by (auto simp: polls_def)
  with e Inr J(3) w1(1) show ?thesis
    by (cases p rule: poll_result_cases)
      (auto simp: boundary_view_def emit_view_def emit_new_def scope_view_def scope_new_def map_state_def Let_def)
qed (use e in \<open>simp add: boundary_view_def\<close>)

lemma boundary_swap_failed:
  fixes V :: "('v, 'h, 'e, 'x) view_ops"
  assumes C: "live_contract C fc sc c q" and V: "live_contract V fv sv c True"
    and s: "boundary_shown sc fv sv I (BoundaryChild child (Some build) r) page" and c: "c \<longrightarrow> w_hoisted w \<noteq> None"
    and e: "poll_swap C child w = Done (Ready (Inl e), child', w1)"
  shows "\<exists>p t w2. poll_swap (boundary_view C V) (BoundaryChild child (Some build) r) w = Done (p, t, w2) \<and>
    (case build e of Inl x \<Rightarrow> p = Ready (Inl x)
     | Inr v \<Rightarrow> \<exists>a v' w3. poll_first V v (w1\<lparr>w_active := Some (w_next w1), w_next := w_next w1 + 1\<rparr>) = Done (a, v', w3) \<and>
         p = as_swap r a)"
proof (cases "build e")
  case (Inr v)
  from s obtain J inner where J: "sc J child inner" "fallback_ok fv J (Some build)"
    by (auto simp: boundary_shown_def)
  have f: "same_frame w w1" using live_contract.swap_law [OF C J(1) c] e by simp
  let ?w = "w1\<lparr>w_active := Some (w_next w1), w_next := w_next w1 + 1\<rparr>"
  have "fv J (w_active ?w) v" using J(2) Inr by (auto simp: fallback_ok_def)
  moreover have "c \<longrightarrow> w_hoisted ?w \<noteq> None" using same_frame_world [OF f] c by simp
  ultimately obtain p v' w3 where p: "poll_first V v ?w = Done (p, v', w3)" "same_frame ?w w3"
    "first_ok fv sv J (w_active ?w) p v'"
    using live_contract.first_law [OF V] by (metis pollsE)
  have a: "w_active w3 = Some (w_next w1)" using p(2) by (simp add: same_frame_def)
  have w: "w1\<lparr>w_next := Suc (w_next w1), w_active := Some (w_next w1)\<rparr> = ?w" by simp
  show ?thesis
  proof (cases p rule: poll_result_cases)
    case (ready f)
    with p(3) have "home_ok (Some (w_next w1)) (vf_content f)" by simp
    with e Inr p(1) a ready show ?thesis
      by (auto simp: boundary_view_def scope_self_contained_simp emit_view_def emit_new_def scope_view_def in_scope_def
          map_state_def handle_seal_own Let_def w)
  qed (use e Inr p(1) a in \<open>auto simp: boundary_view_def scope_self_contained_simp emit_view_def emit_new_def scope_view_def
      in_scope_def map_state_def Let_def w\<close>)
qed (use e in \<open>simp add: boundary_view_def\<close>)

text \<open>Nothing else fails a boundary whose child is still in place.\<close>

lemma boundary_fails_only:
  fixes C :: "('s, 'h, 'e, 'x) view_ops"
  shows "poll_first (boundary_view C V) (BoundaryChild child f r) w = Done (Ready (Inl x), t, w') \<Longrightarrow>
     \<exists>e child' w1. poll_first C child w = Done (Ready (Inl e), child', w1)"
  and "poll_swap (boundary_view C V) (BoundaryChild child f r) w = Done (Ready (Inl x), t, w') \<Longrightarrow>
     \<exists>e child' w1. poll_swap C child w = Done (Ready (Inl e), child', w1)"
proof -
  assume a: "poll_first (boundary_view C V) (BoundaryChild child f r) w = Done (Ready (Inl x), t, w')"
  then obtain p c w1 where p: "poll_first C child w = Done (p, c, w1)"
    by (auto simp: boundary_view_def bind_outcome_Done)
  with a show "\<exists>e child' w1. poll_first C child w = Done (Ready (Inl e), child', w1)"
    by (cases p rule: poll_result_cases) (auto simp: boundary_view_def bind_outcome_Done split: if_splits)
next
  assume a: "poll_swap (boundary_view C V) (BoundaryChild child f r) w = Done (Ready (Inl x), t, w')"
  then obtain p c w1 where p: "poll_swap C child w = Done (p, c, w1)"
    by (auto simp: boundary_view_def bind_outcome_Done)
  with a show "\<exists>e child' w1. poll_swap C child w = Done (Ready (Inl e), child', w1)"
    by (cases p rule: poll_result_cases) (auto simp: boundary_view_def)
qed

text \<open>C19. An error boundary replaces a child that fails by its fallback.  It keeps the contract of views when its
  child and its fallback do.  A poll in which the child fails runs the closure on the error and comes to what the first
  poll of the view it makes comes to: before the child's content, that view's content in the running build;
  afterwards, a swap of the boundary's region with that content, built in a buffer of its own and sealed.
  An error leaves the boundary only if the child failed and the closure, or the fallback view, fails too.\<close>

theorem boundary_contract:
  fixes C :: "('s, 'h, 'e, 'x) view_ops" and V :: "('v, 'h, 'e, 'x) view_ops"
  assumes C: "live_contract C fc sc c q" and V: "live_contract V fv sv c True"
  shows "live_contract (boundary_view C V) (boundary_fresh fc fv) (boundary_shown sc fv sv) c q \<and>
    (\<forall>I w child build r e child' w1.
       boundary_fresh fc fv I (w_active w) (BoundaryChild child (Some build) r) \<longrightarrow> (c \<longrightarrow> w_hoisted w \<noteq> None) \<longrightarrow>
       poll_first C child w = Done (Ready (Inl e), child', w1) \<longrightarrow>
       (\<exists>p t w2. poll_first (boundary_view C V) (BoundaryChild child (Some build) r) w = Done (p, t, w2) \<and>
          (case build e of Inl x \<Rightarrow> p = Ready (Inl x) | Inr v \<Rightarrow> \<exists>v'. poll_first V v w1 = Done (p, v', w2)))) \<and>
    (\<forall>I w child build r page e child' w1.
       boundary_shown sc fv sv I (BoundaryChild child (Some build) r) page \<longrightarrow> (c \<longrightarrow> w_hoisted w \<noteq> None) \<longrightarrow>
       poll_swap C child w = Done (Ready (Inl e), child', w1) \<longrightarrow>
       (\<exists>p t w2. poll_swap (boundary_view C V) (BoundaryChild child (Some build) r) w = Done (p, t, w2) \<and>
          (case build e of Inl x \<Rightarrow> p = Ready (Inl x)
           | Inr v \<Rightarrow> \<exists>a v' w3.
               poll_first V v (w1\<lparr>w_active := Some (w_next w1), w_next := w_next w1 + 1\<rparr>) = Done (a, v', w3) \<and>
               p = as_swap r a))) \<and>
    (\<forall>w child f r x t w'.
       (poll_first (boundary_view C V) (BoundaryChild child f r) w = Done (Ready (Inl x), t, w') \<longrightarrow>
          (\<exists>e child' w1. poll_first C child w = Done (Ready (Inl e), child', w1))) \<and>
       (poll_swap (boundary_view C V) (BoundaryChild child f r) w = Done (Ready (Inl x), t, w') \<longrightarrow>
          (\<exists>e child' w1. poll_swap C child w = Done (Ready (Inl e), child', w1))))"
proof (intro conjI)
  show "live_contract (boundary_view C V) (boundary_fresh fc fv) (boundary_shown sc fv sv) c q"
    by (rule boundary_keeps_contract [OF C V])
qed (intro allI conjI impI, erule (2) boundary_first_failed [OF C V], intro allI conjI impI,
    erule (2) boundary_swap_failed [OF C V], intro allI conjI impI, (erule boundary_fails_only)+)

theorem suspense_contract_witness:
  "live_contract (suspense_view unit_view (live_view (emits (scope_view unit_view))))
     (suspense_fresh (\<lambda>I a s. True) (live_fresh (emits_fresh (scope_sealed (\<lambda>I a s. True)))))
     (suspense_shown (live_fresh (emits_fresh (scope_sealed (\<lambda>I a s. True)))) (\<lambda>I s page. page = [])
        (live_shown (emits_shown (scope_sealed (\<lambda>I a s. True)) (scope_shown (\<lambda>I s page. page = []))))) False True"
  by (rule suspense_contract [OF unit.live_contract_axioms live_emits_contract])

theorem boundary_contract_witness:
  "live_contract (boundary_view (live_view (emits (scope_view unit_view))) unit_view)
     (boundary_fresh (live_fresh (emits_fresh (scope_sealed (\<lambda>I a s. True)))) (\<lambda>I a s. True))
     (boundary_shown (live_shown (emits_shown (scope_sealed (\<lambda>I a s. True)) (scope_shown (\<lambda>I s page. page = []))))
        (\<lambda>I a s. True) (\<lambda>I s page. page = [])) False True"
  by (rule boundary_contract [OF live_emits_contract unit.live_contract_axioms, THEN conjunct1])

end
