(* ===== verification/Live_Loops.thy ===== *)
theory Live_Loops
  imports Live_Contracts
begin

text \<open>
  Loops and joins of views: they keep the contract, their turn around the ring is the same, and it is
  fair.
\<close>

subsection \<open>Pages in parts\<close>

definition parts_ok :: "region_id set list \<Rightarrow> marker list list \<Rightarrow> bool" where
  "parts_ok Js pages \<longleftrightarrow> length pages = length Js \<and>
     (\<forall>i < length Js. \<forall>j < length Js. i \<noteq> j \<longrightarrow> Js ! i \<inter> Js ! j = {}) \<and>
     (\<forall>i < length Js. ids_of (pages ! i) \<subseteq> Js ! i)"

lemma ids_of_concat: "ids_of (concat pages) = (\<Union>page \<in> set pages. ids_of page)"
  by (induction pages) auto

lemma concat_split: "i < length pages \<Longrightarrow> concat pages = concat (take i pages) @ pages ! i @ concat (drop (Suc i) pages)"
  by (metis concat.simps(2) concat_append id_take_nth_drop)

lemma concat_update: "i < length pages \<Longrightarrow> concat (pages[i := x]) = concat (take i pages) @ x @ concat (drop (Suc i) pages)"
  by (simp add: upd_conv_take_nth_drop)

lemma parts_ids: "parts_ok Js pages \<Longrightarrow> ids_of (concat pages) \<subseteq> \<Union> (set Js)"
  by (fastforce simp: parts_ok_def ids_of_concat in_set_conv_nth)

lemma parts_others:
  assumes "parts_ok Js pages" "i < length Js" "r \<in> Js ! i"
  shows "r \<notin> ids_of (concat (take i pages))" "r \<notin> ids_of (concat (drop (Suc i) pages))"
proof -
  have other: "r \<notin> ids_of (pages ! j)" if "j < length pages" "j \<noteq> i" for j
  proof -
    have "j < length Js" using assms(1) that(1) by (simp add: parts_ok_def)
    then have "ids_of (pages ! j) \<subseteq> Js ! j" "Js ! i \<inter> Js ! j = {}"
      using assms(1,2) that(2) by (simp_all add: parts_ok_def)
    with assms(3) show ?thesis by blast
  qed
  have "\<exists>j < length pages. j \<noteq> i \<and> page = pages ! j" if page: "page \<in> set (take i pages)" for page
  proof -
    obtain j where "j < length (take i pages)" "page = take i pages ! j" using page unfolding in_set_conv_nth by blast
    then show ?thesis by (intro exI [of _ j]) simp
  qed
  moreover have "\<exists>j < length pages. j \<noteq> i \<and> page = pages ! j" if page: "page \<in> set (drop (Suc i) pages)" for page
  proof -
    obtain j where "j < length (drop (Suc i) pages)" "page = drop (Suc i) pages ! j" using page unfolding in_set_conv_nth by blast
    then show ?thesis by (intro exI [of _ "Suc i + j"]) simp
  qed
  ultimately show "r \<notin> ids_of (concat (take i pages))" "r \<notin> ids_of (concat (drop (Suc i) pages))"
    using other unfolding ids_of_concat by blast+
qed

text \<open>A swap one part makes inside itself is one on the page.\<close>

lemma parts_swap:
  assumes p: "parts_ok Js pages" and i: "i < length Js" and u: "swap_fits (Js ! i) a q (pages ! i) u"
  shows "swap_fits (\<Union> (set Js)) a q (concat pages) u"
    "after_swap u (concat pages) = concat (pages[i := after_swap u (pages ! i)])"
    "parts_ok Js (pages[i := after_swap u (pages ! i)])"
proof -
  have l: "i < length pages" "ids_of (pages ! i) \<subseteq> Js ! i" using p i by (simp_all add: parts_ok_def)
  have h: "has_region (vs_region u) (pages ! i)" using u by (simp add: swap_fits_def)
  then have r: "vs_region u \<in> Js ! i" using l(2) has_region_ids by blast
  note c = swap_in_context [OF h parts_others [OF p i r]]
  have "Js ! i \<subseteq> \<Union> (set Js)" using i by (intro Union_upper nth_mem)
  then have "ids_of (marks_of (vs_replacement u)) \<subseteq> \<Union> (set Js)" using u by (auto simp: swap_fits_def)
  then show "swap_fits (\<Union> (set Js)) a q (concat pages) u"
    using u c(2) concat_split [OF l(1)] by (simp add: swap_fits_def)
  show "after_swap u (concat pages) = concat (pages[i := after_swap u (pages ! i)])"
    using c(1) by (simp add: after_swap_def concat_update [OF l(1)] flip: concat_split [OF l(1)])
  show "parts_ok Js (pages[i := after_swap u (pages ! i)])"
    unfolding parts_ok_def
  proof (intro conjI)
    show "\<forall>k < length Js. ids_of (pages[i := after_swap u (pages ! i)] ! k) \<subseteq> Js ! k"
    proof (intro allI impI)
      fix k
      assume "k < length Js"
      then show "ids_of (pages[i := after_swap u (pages ! i)] ! k) \<subseteq> Js ! k"
        using p swap_fits_ids [OF u l(2)] l(1) by (cases "k = i") (simp_all add: parts_ok_def)
    qed
  qed (use p in \<open>simp_all add: parts_ok_def\<close>)
qed

subsection \<open>Loops\<close>

definition bodies_shown :: "'s shown_states \<Rightarrow> region_id set list \<Rightarrow> marker list list \<Rightarrow> ('s, 'h) loop_body list \<Rightarrow> bool" where
  "bodies_shown shown Js pages bs \<longleftrightarrow> parts_ok Js pages \<and> length bs = length Js \<and>
     (\<forall>i < length Js. lb_done (bs ! i) \<or> shown (Js ! i) (lb_view (bs ! i)) (pages ! i))"

definition body_fresh :: "'s fresh_states \<Rightarrow> 's shown_states \<Rightarrow> nat option \<Rightarrow> region_id set \<Rightarrow> ('s, 'h) loop_body \<Rightarrow> bool" where
  "body_fresh fresh shown a J b \<longleftrightarrow> (case lb_ready b of
       None \<Rightarrow> fresh J a (lb_view b)
     | Some f \<Rightarrow> home_ok a (vf_content f) \<and> ids_of (marks_of (vf_content f)) \<subseteq> J \<and> lb_done b = (\<not> vf_live f) \<and>
         (vf_live f \<longrightarrow> shown J (lb_view b) (marks_of (vf_content f))))"

definition disjoint_ids :: "region_id set list \<Rightarrow> bool" where
  "disjoint_ids Js \<longleftrightarrow> (\<forall>i < length Js. \<forall>j < length Js. i \<noteq> j \<longrightarrow> Js ! i \<inter> Js ! j = {})"

definition loop_fresh :: "'s fresh_states \<Rightarrow> 's shown_states \<Rightarrow> ('s, 'h) loop_state fresh_states" where
  "loop_fresh fresh shown I a s \<longleftrightarrow> a \<noteq> None \<and> lp_next s = 0 \<and>
     (\<exists>Js. disjoint_ids Js \<and> \<Union> (set Js) \<subseteq> I \<and> list_all2 (body_fresh fresh shown a) Js (lp_bodies s))"

definition loop_shown :: "'s shown_states \<Rightarrow> ('s, 'h) loop_state shown_states" where
  "loop_shown shown I s page \<longleftrightarrow>
     (\<exists>Js pages. \<Union> (set Js) \<subseteq> I \<and> page = concat pages \<and> bodies_shown shown Js pages (lp_bodies s))"

lemma bodies_update:
  assumes "bodies_shown shown Js pages bs" "i < length Js" "parts_ok Js (pages[i := page])"
    "lb_done b \<or> shown (Js ! i) (lb_view b) page"
  shows "bodies_shown shown Js (pages[i := page]) (bs[i := b])"
  using assms by (auto simp: bodies_shown_def parts_ok_def nth_list_update)

definition turn_ok :: "'s shown_states \<Rightarrow> region_id set list \<Rightarrow> marker list list \<Rightarrow> nat option \<Rightarrow> bool \<Rightarrow>
    ((nat \<times> 'h view_swap) option, 'x) result poll \<Rightarrow> ('s, 'h) loop_body list \<Rightarrow> bool" where
  "turn_ok shown Js pages a q p bs \<longleftrightarrow> length bs = length Js \<and> (case p of
       Pending \<Rightarrow> bodies_shown shown Js pages bs
     | Ready (Inl _) \<Rightarrow> True
     | Ready (Inr None) \<Rightarrow> True
     | Ready (Inr (Some (i, u))) \<Rightarrow> i < length Js \<and> swap_fits (Js ! i) a q (pages ! i) u \<and>
         bodies_shown shown Js (pages[i := after_swap u (pages ! i)]) bs)"

lemma loop_turn_polls:
  fixes V :: "('s, 'h, 'e, 'x) view_ops"
  assumes V: "live_contract V fresh shown c q"
  shows "bodies_shown shown Js pages bs \<Longrightarrow> \<forall>i \<in> set is. i < length Js \<Longrightarrow> c \<longrightarrow> w_hoisted w \<noteq> None \<Longrightarrow>
    polls (loop_turn V all_done is bs w) w (turn_ok shown Js pages (w_active w) q)"
proof (induction "is" arbitrary: all_done bs w)
  case Nil
  then show ?case by (simp add: turn_ok_def bodies_shown_def)
next
  case (Cons i "is")
  let ?b = "bs ! i"
  have i: "i < length Js" "i < length bs" "pages[i := pages ! i] = pages" "parts_ok Js pages"
    using Cons.prems by (simp_all add: bodies_shown_def)
  show ?case
  proof (cases "lb_done ?b")
    case True
    then show ?thesis using Cons.IH [OF Cons.prems(1) _ Cons.prems(3)] Cons.prems(2) by (simp add: Let_def)
  next
    case False
    then have "shown (Js ! i) (lb_view ?b) (pages ! i)" using Cons.prems(1) i by (auto simp: bodies_shown_def)
    from live_contract.swap_law [OF V this Cons.prems(3)] show ?thesis
    proof (rule pollsE)
      fix p v w'
      assume p: "poll_swap V (lb_view ?b) w = Done (p, v, w')" "same_frame w w'"
        "swap_ok shown (Js ! i) (w_active w) q (pages ! i) p v"
      note w' = same_frame_world [OF p(2)]
      have later: "polls (loop_turn V d is (bs[i := b]) w') w (turn_ok shown Js pages (w_active w) q)"
        if "lb_done b \<or> shown (Js ! i) (lb_view b) (pages ! i)" for d b
        using Cons.IH [OF bodies_update [OF Cons.prems(1) i(1), of "pages ! i" b, unfolded i(3), OF i(4) that] _ w'(2) [OF Cons.prems(3)], of d]
          Cons.prems(2) w'(1) same_frame_trans [OF p(2)] by (auto simp: polls_def)
      show ?thesis
      proof (cases p rule: poll_option_cases)
        case pending
        then show ?thesis using p False later [of "?b\<lparr>lb_view := v\<rparr>"] by (simp add: Let_def)
      next
        case finished
        then show ?thesis using p False later [of "?b\<lparr>lb_view := v, lb_done := True\<rparr>"] by (simp add: Let_def)
      next
        case (swapped u)
        with p(3) have u: "swap_fits (Js ! i) (w_active w) q (pages ! i) u" "shown (Js ! i) v (after_swap u (pages ! i))" by simp_all
        have "bodies_shown shown Js (pages[i := after_swap u (pages ! i)]) (bs[i := ?b\<lparr>lb_view := v\<rparr>])"
          by (rule bodies_update [OF Cons.prems(1) i(1) parts_swap(3) [OF i(4,1) u(1)]]) (simp add: u(2))
        then show ?thesis using p swapped False u i Cons.prems(1) by (simp add: Let_def turn_ok_def bodies_shown_def)
      next
        case (failed e)
        then show ?thesis using p False Cons.prems(1) by (simp add: Let_def turn_ok_def bodies_shown_def)
      qed
    qed
  qed
qed

lemma body_fresh_polled:
  "lb_ready b = None \<Longrightarrow> body_fresh fresh shown a J b \<longleftrightarrow> fresh J a (lb_view b)"
  by (simp add: body_fresh_def)

definition firsts_ok :: "'s fresh_states \<Rightarrow> 's shown_states \<Rightarrow> nat option \<Rightarrow> region_id set list \<Rightarrow> bool \<Rightarrow>
    (bool, 'x) result \<Rightarrow> ('s, 'h) loop_body list \<Rightarrow> bool" where
  "firsts_ok fresh shown a Js before r bs \<longleftrightarrow> (case r of
       Inl _ \<Rightarrow> True
     | Inr ready \<Rightarrow> list_all2 (body_fresh fresh shown a) Js bs \<and>
         (ready \<longrightarrow> before \<and> (\<forall>b \<in> set bs. lb_ready b \<noteq> None)))"

lemma loop_firsts_polls:
  fixes V :: "('s, 'h, 'e, 'x) view_ops"
  assumes V: "live_contract V fresh shown c q"
  shows "list_all2 (body_fresh fresh shown (w_active w)) Js bs \<Longrightarrow> c \<longrightarrow> w_hoisted w \<noteq> None \<Longrightarrow>
    polls (loop_firsts V all_ready bs w) w (firsts_ok fresh shown (w_active w) Js all_ready)"
proof (induction bs arbitrary: Js all_ready w)
  case Nil
  then show ?case by (simp add: firsts_ok_def)
next
  case (Cons b bs)
  let ?fresh = "body_fresh fresh shown (w_active w)"
  obtain J Js' where J: "Js = J # Js'" "?fresh J b" "list_all2 ?fresh Js' bs"
    using Cons.prems(1) by (auto simp: list_all2_Cons2)
  have later: "polls (bind_outcome (loop_firsts V ready bs w1) (\<lambda>(r, bs, w). Done (r, b' # bs, w))) w (firsts_ok fresh shown (w_active w) Js all_ready)"
    if "same_frame w w1" "?fresh J b'" "ready \<longrightarrow> all_ready \<and> lb_ready b' \<noteq> None" for w1 b' ready
  proof -
    note w1 = same_frame_world [OF that(1)]
    have "polls (loop_firsts V ready bs w1) w1 (firsts_ok fresh shown (w_active w) Js' ready)"
      using Cons.IH [of w1 Js' ready] J(3) w1(1) w1(2) [OF Cons.prems(2)] by simp
    then show ?thesis
    proof (rule pollsE)
      fix r bs' w2
      assume "loop_firsts V ready bs w1 = Done (r, bs', w2)" "same_frame w1 w2" "firsts_ok fresh shown (w_active w) Js' ready r bs'"
      then show ?thesis using that J(1) same_frame_trans [OF that(1)] by (cases r) (auto simp: firsts_ok_def)
    qed
  qed
  show ?case
  proof (cases "lb_ready b")
    case (Some f)
    with later [of w b all_ready] J(2) show ?thesis by simp
  next
    case None
    then have "fresh J (w_active w) (lb_view b)" using J(2) by (simp add: body_fresh_def)
    from live_contract.first_law [OF V this Cons.prems(2)] show ?thesis
    proof (rule pollsE)
      fix p v w1
      assume p: "poll_first V (lb_view b) w = Done (p, v, w1)" "same_frame w w1" "first_ok fresh shown J (w_active w) p v"
      show ?thesis
      proof (cases p rule: poll_result_cases)
        case pending
        then show ?thesis using later [OF p(2), of "b\<lparr>lb_view := v\<rparr>" False] p None by (simp add: body_fresh_def)
      next
        case (failed e)
        then show ?thesis using p None by (simp add: firsts_ok_def)
      next
        case (ready f)
        then show ?thesis
          using later [OF p(2), of "\<lparr>lb_view = v, lb_ready = Some f, lb_done = \<not> vf_live f\<rparr>" all_ready] p None
          by (simp add: body_fresh_def)
      qed
    qed
  qed
qed

lemma bodies_ready_shown:
  assumes "list_all2 (body_fresh fresh shown a) Js bs" "\<forall>b \<in> set bs. lb_ready b \<noteq> None" "disjoint_ids Js"
  defines "pages \<equiv> map (\<lambda>b. marks_of (vf_content (the (lb_ready b)))) bs"
  shows "bodies_shown shown Js pages (map (\<lambda>b. b\<lparr>lb_ready := None\<rparr>) bs)"
    "list_all (\<lambda>b. home_ok a (vf_content (the (lb_ready b)))) bs"
proof -
  have l: "length bs = length Js" using assms(1) by (simp add: list_all2_lengthD)
  have b: "ids_of (pages ! i) \<subseteq> Js ! i \<and> (lb_done (bs ! i) \<or> shown (Js ! i) (lb_view (bs ! i)) (pages ! i)) \<and>
      home_ok a (vf_content (the (lb_ready (bs ! i))))" if "i < length Js" for i
  proof -
    have "body_fresh fresh shown a (Js ! i) (bs ! i)" using assms(1) that by (simp add: list_all2_nthD)
    moreover have "bs ! i \<in> set bs" using that l by simp
    with assms(2) obtain f where "lb_ready (bs ! i) = Some f" by blast
    ultimately show ?thesis using that l by (auto simp: body_fresh_def pages_def)
  qed
  show "bodies_shown shown Js pages (map (\<lambda>b. b\<lparr>lb_ready := None\<rparr>) bs)"
    using b l assms(3) by (simp add: bodies_shown_def parts_ok_def disjoint_ids_def pages_def)
  show "list_all (\<lambda>b. home_ok a (vf_content (the (lb_ready b)))) bs"
    unfolding list_all_length using b l by simp
qed

lemma body_parts_block:
  assumes "list_all (\<lambda>b. home_ok a (vf_content (the (lb_ready b)))) bs" "w_active w = a" "a \<noteq> None"
  obtains d where "scope_block (body_parts bs) w = Done d" "hd_home d = a"
    "marks_of d = concat (map (\<lambda>b. marks_of (vf_content (the (lb_ready b)))) bs)"
proof -
  obtain n where n: "w_active w = Some n" "a = Some n" using assms(2,3) by auto
  have "list_all (part_home_ok n) (body_parts bs)"
    using assms(1) n by (auto simp: body_parts_def list_all_iff home_ok_def)
  moreover have "marks (concat (map part_pieces (body_parts bs))) = concat (map (\<lambda>b. marks_of (vf_content (the (lb_ready b)))) bs)"
    by (induction bs) (simp_all add: body_parts_def marks_of_def)
  ultimately show thesis using that n by (simp add: scope_block_def block_in_def)
qed

lemma ring_less: "i \<in> set (ring start len) \<Longrightarrow> i < len"
  by (auto simp: ring_def)

lemma loop_contract:
  fixes V :: "('s, 'h, 'e, 'x) view_ops"
  assumes V: "live_contract V fresh shown c q"
  shows "live_contract (loop_view V) (loop_fresh fresh shown) (loop_shown shown) c q"
proof (rule live_contract.intro, goal_cases)
  case (1 I w s)
  then obtain Js where J: "disjoint_ids Js" "\<Union> (set Js) \<subseteq> I" "list_all2 (body_fresh fresh shown (w_active w)) Js (lp_bodies s)"
    "w_active w \<noteq> None" "lp_next s = 0" by (auto simp: loop_fresh_def)
  from loop_firsts_polls [OF V J(3) 1(2), of True] show ?case
  proof (rule pollsE)
    fix r bs w1
    assume r: "loop_firsts V True (lp_bodies s) w = Done (r, bs, w1)" "same_frame w w1"
      "firsts_ok fresh shown (w_active w) Js True r bs"
    show ?thesis
    proof (cases r)
      case (Inl e)
      with r show ?thesis by (simp add: loop_view_def)
    next
      case (Inr ready)
      show ?thesis
      proof (cases ready)
        case False
        with r Inr J show ?thesis by (auto simp: loop_view_def loop_fresh_def firsts_ok_def)
      next
        case True
        with r Inr have b: "list_all2 (body_fresh fresh shown (w_active w)) Js bs" "\<forall>b \<in> set bs. lb_ready b \<noteq> None" by (simp_all add: firsts_ok_def)
        note shown = bodies_ready_shown [OF b J(1)]
        obtain d where d: "scope_block (body_parts bs) w1 = Done d" "hd_home d = w_active w"
          "marks_of d = concat (map (\<lambda>b. marks_of (vf_content (the (lb_ready b)))) bs)"
          using body_parts_block [OF shown(2) same_frame_world(1) [OF r(2)] J(4)] by metis
        have "ids_of (marks_of d) \<subseteq> I"
          using parts_ids [of Js] shown(1) J(2) d(3) by (auto simp: bodies_shown_def)
        then show ?thesis using r Inr True d shown(1) J
          by (auto simp: loop_view_def loop_shown_def home_ok_def)
      qed
    qed
  qed
next
  case (2 I s page w)
  then obtain Js pages where J: "\<Union> (set Js) \<subseteq> I" "page = concat pages" "bodies_shown shown Js pages (lp_bodies s)"
    by (auto simp: loop_shown_def)
  have l: "length (lp_bodies s) = length Js" using J(3) by (simp add: bodies_shown_def)
  have "\<forall>i \<in> set (ring (lp_next s) (length (lp_bodies s))). i < length Js" using ring_less l by fastforce
  from loop_turn_polls [OF V J(3) this 2(2), of True] show ?case
  proof (rule pollsE)
    fix p bs w1
    assume p: "loop_turn V True (ring (lp_next s) (length (lp_bodies s))) (lp_bodies s) w = Done (p, bs, w1)"
      "same_frame w w1" "turn_ok shown Js pages (w_active w) q p bs"
    consider "p = Pending" | e where "p = Ready (Inl e)" | "p = Ready (Inr None)"
      | i u where "p = Ready (Inr (Some (i, u)))" by (metis poll_result_cases option.exhaust surj_pair)
    then show ?thesis
    proof cases
      case 1
      with p J show ?thesis by (auto simp: loop_view_def loop_shown_def turn_ok_def)
    next
      case (4 i u)
      with p(3) have u: "i < length Js" "swap_fits (Js ! i) (w_active w) q (pages ! i) u"
        "bodies_shown shown Js (pages[i := after_swap u (pages ! i)]) bs" by (simp_all add: turn_ok_def)
      have "parts_ok Js pages" using J(3) by (simp add: bodies_shown_def)
      note s = parts_swap [OF this u(1,2)]
      show ?thesis using 4 p J(1,2) u(3) s(2) swap_fits_mono [OF s(1) J(1)]
        by (auto simp: loop_view_def Let_def loop_shown_def)
    qed (use p in \<open>simp_all add: loop_view_def Let_def\<close>)
  qed
next
  case (3 I s page)
  then show ?case using parts_ids by (fastforce simp: loop_shown_def bodies_shown_def)
qed

subsection \<open>Joins\<close>

type_synonym 'u units_fresh = "region_id set list \<Rightarrow> nat option \<Rightarrow> 'u \<Rightarrow> bool"
type_synonym 'u units_shown = "region_id set list \<Rightarrow> 'u \<Rightarrow> marker list list \<Rightarrow> bool"

definition units_swap_ok :: "'u units_shown \<Rightarrow> nat \<Rightarrow> region_id set list \<Rightarrow> nat option \<Rightarrow> bool \<Rightarrow> marker list list \<Rightarrow>
    ((nat \<times> 'h view_swap) option, 'x) result poll \<Rightarrow> 'u \<Rightarrow> bool" where
  "units_swap_ok shown n Js a q pages p u \<longleftrightarrow> (case p of
       Pending \<Rightarrow> shown Js u pages
     | Ready (Inl _) \<Rightarrow> True
     | Ready (Inr None) \<Rightarrow> shown Js u pages
     | Ready (Inr (Some (i, x))) \<Rightarrow> i < n \<and> swap_fits (Js ! i) a q (pages ! i) x \<and>
         shown Js u (pages[i := after_swap x (pages ! i)]))"

text \<open>What a chain of units promises: a page for each unit, and swaps that stay inside their unit's.\<close>

locale units_contract =
  fixes U :: "('u, 'h, 'e, 'x) join_units" and ufresh uready :: "'u units_fresh" and ushown :: "'u units_shown"
    and c q :: bool
  assumes contents_law: "ufresh Js (w_active w) u \<Longrightarrow> (c \<longrightarrow> w_hoisted w \<noteq> None) \<Longrightarrow>
      polls (ju_contents U u w) w (\<lambda>p u. case p of
          Pending \<Rightarrow> ufresh Js (w_active w) u
        | Ready (Inl _) \<Rightarrow> True
        | Ready (Inr _) \<Rightarrow> uready Js (w_active w) u)"
    and ready_fresh: "uready Js a u \<Longrightarrow> ufresh Js a u"
    and take_law: "uready Js a u \<Longrightarrow> \<exists>hs u'. ju_take U u = Done (hs, u') \<and> list_all (home_ok a) hs \<and>
      ushown Js u' (map marks_of hs)"
    and units_swap: "ushown Js u pages \<Longrightarrow> (c \<longrightarrow> w_hoisted w \<noteq> None) \<Longrightarrow>
      polls (ju_swap U from to u w) w (units_swap_ok ushown (ju_len U) Js (w_active w) q pages)"
    and shown_parts: "ushown Js u pages \<Longrightarrow> length Js = ju_len U \<and> list_all2 (\<lambda>J page. ids_of page \<subseteq> J) Js pages"

interpretation no_units: units_contract no_units "\<lambda>Js a u. Js = []" "\<lambda>Js a u. Js = []"
    "\<lambda>Js u pages. Js = [] \<and> pages = []" False True
  by unfold_locales (auto simp: no_units_def units_swap_ok_def)

definition unit_fresh :: "'s fresh_states \<Rightarrow> 's shown_states \<Rightarrow> nat option \<Rightarrow> region_id set \<Rightarrow> ('s, 'h) unit_state \<Rightarrow> bool" where
  "unit_fresh fresh shown a J u \<longleftrightarrow> (case un_content u of
       None \<Rightarrow> fresh J a (un_view u)
     | Some h \<Rightarrow> home_ok a h \<and> ids_of (marks_of h) \<subseteq> J \<and> (un_done u \<or> shown J (un_view u) (marks_of h)))"

definition chain_fresh :: "'s fresh_states \<Rightarrow> 's shown_states \<Rightarrow> 'u units_fresh \<Rightarrow> (('s, 'h) unit_state \<times> 'u) units_fresh" where
  "chain_fresh fresh shown ufresh Js a u \<longleftrightarrow> (case Js of
       [] \<Rightarrow> False
     | J # Js \<Rightarrow> unit_fresh fresh shown a J (fst u) \<and> ufresh Js a (snd u))"

definition chain_ready :: "'s fresh_states \<Rightarrow> 's shown_states \<Rightarrow> 'u units_fresh \<Rightarrow> (('s, 'h) unit_state \<times> 'u) units_fresh" where
  "chain_ready fresh shown uready Js a u \<longleftrightarrow> un_content (fst u) \<noteq> None \<and> (case Js of
       [] \<Rightarrow> False
     | J # Js \<Rightarrow> unit_fresh fresh shown a J (fst u) \<and> uready Js a (snd u))"

definition chain_shown :: "'s shown_states \<Rightarrow> 'u units_shown \<Rightarrow> (('s, 'h) unit_state \<times> 'u) units_shown" where
  "chain_shown shown ushown Js u pages \<longleftrightarrow> (case (Js, pages) of
       (J # Js, page # pages) \<Rightarrow> ids_of page \<subseteq> J \<and> (un_done (fst u) \<or> shown J (un_view (fst u)) page) \<and>
         ushown Js (snd u) pages
     | _ \<Rightarrow> False)"

lemma unit_polls:
  fixes V :: "('s, 'h, 'e, 'x) view_ops"
  assumes V: "live_contract V fresh shown c q" and u: "unit_fresh fresh shown (w_active w) J u" and c: "c \<longrightarrow> w_hoisted w \<noteq> None"
  shows "polls (if un_content u \<noteq> None then Done (Ready (Ok ()), u, w)
      else bind_outcome (poll_first V (un_view u) w) (\<lambda>(p, v, w). case p of
          Ready (Inr f) \<Rightarrow>
            Done (Ready (Ok ()), \<lparr>un_view = v, un_content = Some (vf_content f), un_done = \<not> vf_live f\<rparr>, w)
        | Ready (Inl e) \<Rightarrow> Done (Ready (Inl e), u\<lparr>un_view := v\<rparr>, w)
        | Pending \<Rightarrow> Done (Pending, u\<lparr>un_view := v\<rparr>, w))) w
    (\<lambda>p u. case p of
       Ready (Inl _) \<Rightarrow> True
     | Ready (Inr _) \<Rightarrow> un_content u \<noteq> None \<and> unit_fresh fresh shown (w_active w) J u
     | Pending \<Rightarrow> unit_fresh fresh shown (w_active w) J u)"
proof (cases "un_content u")
  case (Some h)
  with u show ?thesis by simp
next
  case None
  then have "fresh J (w_active w) (un_view u)" using u by (simp add: unit_fresh_def)
  from live_contract.first_law [OF V this c] show ?thesis
  proof (rule pollsE)
    fix p v w'
    assume "poll_first V (un_view u) w = Done (p, v, w')" "same_frame w w'" "first_ok fresh shown J (w_active w) p v"
    with None show ?thesis by (cases p rule: poll_result_cases) (auto simp: unit_fresh_def)
  qed
qed

lemma chain_contents:
  fixes V :: "('s, 'h, 'e, 'x) view_ops" and R :: "('u, 'h, 'e, 'x) join_units"
  assumes V: "live_contract V fresh shown c q" and R: "units_contract R ufresh uready ushown c q"
    and u: "chain_fresh fresh shown ufresh Js (w_active w) u" and c: "c \<longrightarrow> w_hoisted w \<noteq> None"
  shows "polls (ju_contents (join_unit V R) u w) w (\<lambda>p u. case p of
      Pending \<Rightarrow> chain_fresh fresh shown ufresh Js (w_active w) u
    | Ready (Inl _) \<Rightarrow> True
    | Ready (Inr _) \<Rightarrow> chain_ready fresh shown uready Js (w_active w) u)"
proof -
  obtain u1 r J Js' where J: "u = (u1, r)" "Js = J # Js'" "unit_fresh fresh shown (w_active w) J u1" "ufresh Js' (w_active w) r"
    using u by (cases u; cases Js) (auto simp: chain_fresh_def)
  show ?thesis unfolding J(1) join_unit_def join_units.select_convs prod.case
  proof (rule polls_bind [OF unit_polls [OF V J(3) c]], goal_cases)
    case (1 p u1 w1)
    note w1 = same_frame_world [OF 1(2)]
    have "ufresh Js' (w_active w1) r" using J(4) w1(1) by simp
    note step = units_contract.contents_law [OF R this w1(2) [OF c]]
    have later: "polls (bind_outcome (ju_contents R r w1) (\<lambda>(q, r, w). case q of
          Ready (Inl e) \<Rightarrow> Done (Ready (Inl e), (u1, r), w)
        | Ready (Inr ()) \<Rightarrow> Done (p, (u1, r), w)
        | Pending \<Rightarrow> Done (Pending, (u1, r), w))) w1 (\<lambda>p u. case p of
          Pending \<Rightarrow> chain_fresh fresh shown ufresh Js (w_active w) u
        | Ready (Inl _) \<Rightarrow> True
        | Ready (Inr _) \<Rightarrow> chain_ready fresh shown uready Js (w_active w) u)" if p: "\<forall>e. p \<noteq> Ready (Inl e)"
      using step
    proof (rule pollsE)
      fix x r' w2
      assume x: "ju_contents R r w1 = Done (x, r', w2)" "same_frame w1 w2" "case x of Pending \<Rightarrow> ufresh Js' (w_active w1) r'
        | Ready (Inl _) \<Rightarrow> True | Ready (Inr _) \<Rightarrow> uready Js' (w_active w1) r'"
      have u1: "unit_fresh fresh shown (w_active w) J u1" "p \<noteq> Pending \<Longrightarrow> un_content u1 \<noteq> None"
        using 1(1) p by (cases p rule: poll_result_cases; simp)+
      have fresh': "x = Pending \<or> (\<exists>y. x = Ready (Inr y)) \<Longrightarrow> ufresh Js' (w_active w) r'"
        using x(3) w1(1) units_contract.ready_fresh [OF R] by auto
      have ready': "x = Ready (Inr y) \<Longrightarrow> uready Js' (w_active w) r'" for y using x(3) w1(1) by simp
      consider "x = Pending" | e where "x = Ready (Inl e)" | "x = Ready (Inr ())"
        by (cases x rule: poll_result_cases) auto
      then show ?thesis
      proof cases
        case 1
        then show ?thesis using x(1,2) u1(1) fresh' J(2) by (simp add: chain_fresh_def)
      next
        case 2
        then show ?thesis using x(1,2) by simp
      next
        case 3
        then show ?thesis
          by (cases p rule: poll_result_cases)
            (use x(1,2) u1 fresh' ready' J(2) p in \<open>simp_all add: chain_fresh_def chain_ready_def split: unit.split\<close>)
      qed
    qed
    then show ?case by (cases p rule: poll_result_cases) simp_all
  qed
qed

lemma chain_take:
  assumes R: "units_contract R ufresh uready ushown c q" and u: "chain_ready fresh shown uready Js a u"
  shows "\<exists>hs u'. ju_take (join_unit V R) u = Done (hs, u') \<and> list_all (home_ok a) hs \<and>
    chain_shown shown ushown Js u' (map marks_of hs)"
proof -
  obtain u1 r J Js' h where J: "u = (u1, r)" "Js = J # Js'" "unit_fresh fresh shown a J u1" "uready Js' a r"
    "un_content u1 = Some h"
    using u by (cases u; cases Js) (auto simp: chain_ready_def)
  obtain hs r' where r: "ju_take R r = Done (hs, r')" "list_all (home_ok a) hs" "ushown Js' r' (map marks_of hs)"
    using units_contract.take_law [OF R J(4)] by blast
  then show ?thesis using J by (simp add: join_unit_def unit_fresh_def chain_shown_def)
qed

lemma units_swap_simps [simp]:
  "units_swap_ok shown n Js a q pages Pending u \<longleftrightarrow> shown Js u pages"
  "units_swap_ok shown n Js a q pages (Ready (Inl e)) u"
  "units_swap_ok shown n Js a q pages (Ready (Inr None)) u \<longleftrightarrow> shown Js u pages"
  "units_swap_ok shown n Js a q pages (Ready (Inr (Some (i, x)))) u \<longleftrightarrow> i < n \<and> swap_fits (Js ! i) a q (pages ! i) x \<and>
     shown Js u (pages[i := after_swap x (pages ! i)])"
  by (simp_all add: units_swap_ok_def)

lemma chain_shown_Cons [simp]:
  "chain_shown shown ushown (J # Js) (u, r) (page # pages) \<longleftrightarrow>
     ids_of page \<subseteq> J \<and> (un_done u \<or> shown J (un_view u) page) \<and> ushown Js r pages"
  by (simp add: chain_shown_def)

lemma chain_shown_cases:
  assumes "chain_shown shown ushown Js u pages"
  obtains u1 r J Js' page pages' where "u = (u1, r)" "Js = J # Js'" "pages = page # pages'"
    "ids_of page \<subseteq> J" "un_done u1 \<or> shown J (un_view u1) page" "ushown Js' r pages'"
  using assms by (cases u; cases Js; cases pages) (auto simp: chain_shown_def)

text \<open>The poll of a unit in the range: it settles the range, or tells whether it is pending.\<close>

definition unit_step_ok :: "'s shown_states \<Rightarrow> region_id set \<Rightarrow> nat option \<Rightarrow> bool \<Rightarrow> marker list \<Rightarrow>
    ((nat \<times> 'h view_swap) option, 'x) result poll + bool \<Rightarrow> ('s, 'h) unit_state \<Rightarrow> bool" where
  "unit_step_ok shown J a q page r u \<longleftrightarrow> (case r of
       Inr pending \<Rightarrow> un_done u \<or> shown J (un_view u) page
     | Inl p \<Rightarrow> (\<exists>e. p = Ready (Inl e)) \<or>
         (\<exists>x. p = Ready (Inr (Some (0, x))) \<and> swap_fits J a q page x \<and> ids_of (after_swap x page) \<subseteq> J \<and>
            shown J (un_view u) (after_swap x page)))"

lemma unit_step_simps [simp]:
  "unit_step_ok shown J a q page (Inr b) u \<longleftrightarrow> un_done u \<or> shown J (un_view u) page"
  "unit_step_ok shown J a q page (Inl (Ready (Inl e))) u"
  "unit_step_ok shown J a q page (Inl (Ready (Inr (Some (0, x))))) u \<longleftrightarrow>
     swap_fits J a q page x \<and> ids_of (after_swap x page) \<subseteq> J \<and> shown J (un_view u) (after_swap x page)"
  by (simp_all add: unit_step_ok_def)

lemma unit_step_polls:
  fixes V :: "('s, 'h, 'e, 'x) view_ops"
  assumes V: "live_contract V fresh shown c q" and u: "un_done u \<or> shown J (un_view u) page"
    and c: "c \<longrightarrow> w_hoisted w \<noteq> None"
  shows "polls (if (from::nat) = 0 \<and> \<not> un_done u
       then bind_outcome (poll_swap V (un_view u) w) (\<lambda>(p, v, w). case p of
           Ready (Inr (Some x)) \<Rightarrow> Done (Inl (Ready (Ok (Some (0, x)))), u\<lparr>un_view := v\<rparr>, w)
         | Ready (Inr None) \<Rightarrow> Done (Inr False, u\<lparr>un_view := v, un_done := True\<rparr>, w)
         | Ready (Inl e) \<Rightarrow> Done (Inl (Ready (Inl e)), u\<lparr>un_view := v\<rparr>, w)
         | Pending \<Rightarrow> Done (Inr True, u\<lparr>un_view := v\<rparr>, w))
       else Done (Inr False, u, w)) w (unit_step_ok shown J (w_active w) q page)"
proof (cases "from = 0 \<and> \<not> un_done u")
  case False
  with u show ?thesis by auto
next
  case True
  with u have s: "shown J (un_view u) page" by simp
  from live_contract.swap_law [OF V s c] show ?thesis
  proof (rule pollsE)
    fix p v w'
    assume p: "poll_swap V (un_view u) w = Done (p, v, w')" "same_frame w w'" "swap_ok shown J (w_active w) q page p v"
    show ?thesis by (cases p rule: poll_option_cases)
      (use True p live_contract.shown_ids [OF V] in \<open>auto simp: swap_ok_def\<close>)
  qed
qed

lemma chain_swap:
  fixes V :: "('s, 'h, 'e, 'x) view_ops" and R :: "('u, 'h, 'e, 'x) join_units"
  assumes V: "live_contract V fresh shown c q" and R: "units_contract R ufresh uready ushown c q"
    and u: "chain_shown shown ushown Js u pages" and c: "c \<longrightarrow> w_hoisted w \<noteq> None"
  shows "polls (ju_swap (join_unit V R) from to u w) w
    (units_swap_ok (chain_shown shown ushown) (ju_len (join_unit V R)) Js (w_active w) q pages)"
proof -
  obtain u1 r J Js' page pages' where J: "u = (u1, r)" "Js = J # Js'" "pages = page # pages'"
    "ids_of page \<subseteq> J" "un_done u1 \<or> shown J (un_view u1) page" "ushown Js' r pages'"
    using chain_shown_cases [OF u] by blast
  show ?thesis
  proof (cases "to = 0")
    case True
    with J show ?thesis by (simp add: join_unit_def)
  next
    case False
    have "polls (ju_swap (join_unit V R) from to u w) w
      (units_swap_ok (chain_shown shown ushown) (ju_len (join_unit V R)) (J # Js') (w_active w) q (page # pages'))"
      unfolding J(1) join_unit_def join_units.select_convs prod.case if_not_P [OF False]
    proof (rule polls_bind [OF unit_step_polls [where page = page, OF V J(5) c]], goal_cases)
      case (1 early u1 w1)
      note w1 = same_frame_world [OF 1(2)]
      show ?case
      proof (cases early)
        case (Inl p)
        from 1(1) Inl obtain e x where "p = Ready (Inl e) \<or> p = Ready (Inr (Some (0, x)))" by (auto simp: unit_step_ok_def)
        then show ?thesis using 1(1) Inl J(6) by auto
      next
        case (Inr pending)
        with 1(1) have shown1: "un_done u1 \<or> shown J (un_view u1) page" by simp
        from units_contract.units_swap [OF R J(6) w1(2) [OF c], of "from - 1" "to - 1"] show ?thesis
        proof (rule pollsE)
          fix p r' w2
          assume p: "ju_swap R (from - 1) (to - 1) r w1 = Done (p, r', w2)" "same_frame w1 w2"
            "units_swap_ok ushown (ju_len R) Js' (w_active w1) q pages' p r'"
          consider "p = Pending" | e where "p = Ready (Inl e)" | "p = Ready (Inr None)"
            | i x where "p = Ready (Inr (Some (i, x)))" by (metis poll_result_cases option.exhaust surj_pair)
          then show ?thesis
            by cases (use p Inr shown1 J(4) w1(1) in auto)
        qed
      qed
    qed
    with J show ?thesis by simp
  qed
qed

lemma chain_parts:
  assumes R: "units_contract R ufresh uready ushown c q" and u: "chain_shown shown ushown Js u pages"
  shows "length Js = ju_len (join_unit V R) \<and> list_all2 (\<lambda>J page. ids_of page \<subseteq> J) Js pages"
proof -
  obtain u1 r J Js' page pages' where J: "u = (u1, r)" "Js = J # Js'" "pages = page # pages'"
    "ids_of page \<subseteq> J" "ushown Js' r pages'"
    using chain_shown_cases [OF u] by metis
  with units_contract.shown_parts [OF R J(5)] show ?thesis by (simp add: join_unit_def)
qed

theorem chain_contract:
  assumes V: "live_contract V fresh shown c q" and R: "units_contract R ufresh uready ushown c q"
  shows "units_contract (join_unit V R) (chain_fresh fresh shown ufresh) (chain_ready fresh shown uready)
    (chain_shown shown ushown) c q"
proof (rule units_contract.intro, goal_cases)
  case (1 Js w u)
  then show ?case by (rule chain_contents [OF V R])
next
  case (2 Js a u)
  then show ?case using units_contract.ready_fresh [OF R]
    by (auto simp: chain_ready_def chain_fresh_def split: list.splits)
next
  case (3 Js a u)
  then show ?case by (rule chain_take [OF R])
next
  case (4 Js u pages w i to)
  then show ?case by (rule chain_swap [OF V R])
next
  case (5 Js u pages)
  then show ?case by (rule chain_parts [OF R])
qed

text \<open>A burst writes the contents once each and in order, between parts of its own that mark nothing.\<close>

definition burst_ok :: "nat \<Rightarrow> ('h handle list \<Rightarrow> 'h block_part list) \<Rightarrow> bool" where
  "burst_ok n burst \<longleftrightarrow> (\<forall>hs b. length hs = n \<longrightarrow> list_all (home_ok (Some b)) hs \<longrightarrow>
     list_all (part_home_ok b) (burst hs) \<and> marks (concat (map part_pieces (burst hs))) = concat (map marks_of hs))"

definition join_fresh :: "('u, 'h, 'e, 'x) join_units \<Rightarrow> 'u units_fresh \<Rightarrow> ('u, 'h) join_state fresh_states" where
  "join_fresh U ufresh I a s \<longleftrightarrow> a \<noteq> None \<and> jn_next s = 0 \<and>
     (\<exists>burst. jn_burst s = Some burst \<and> burst_ok (ju_len U) burst) \<and>
     (\<exists>Js. disjoint_ids Js \<and> \<Union> (set Js) \<subseteq> I \<and> ufresh Js a (jn_units s))"

definition join_shown :: "'u units_shown \<Rightarrow> ('u, 'h) join_state shown_states" where
  "join_shown ushown I s page \<longleftrightarrow>
     (\<exists>Js pages. \<Union> (set Js) \<subseteq> I \<and> page = concat pages \<and> parts_ok Js pages \<and> ushown Js (jn_units s) pages)"

definition scan_ok :: "'u units_shown \<Rightarrow> region_id set \<Rightarrow> nat option \<Rightarrow> bool \<Rightarrow> marker list \<Rightarrow>
    ('h view_swap option, 'x) result poll \<Rightarrow> ('u, 'h) join_state \<Rightarrow> bool" where
  "scan_ok ushown I a q page p s \<longleftrightarrow> swap_ok (join_shown ushown) I a q page p s \<and>
     (p = Ready (Inr None) \<longrightarrow> join_shown ushown I s page)"

lemma join_scan_polls:
  fixes U :: "('u, 'h, 'e, 'x) join_units"
  assumes U: "units_contract U ufresh uready ushown c q" and s: "join_shown ushown I s page"
    and c: "c \<longrightarrow> w_hoisted w \<noteq> None"
  shows "polls (join_scan U n m s w) w (scan_ok ushown I (w_active w) q page)"
proof -
  obtain Js pages where J: "\<Union> (set Js) \<subseteq> I" "page = concat pages" "parts_ok Js pages" "ushown Js (jn_units s) pages"
    using s by (auto simp: join_shown_def)
  have l: "length Js = ju_len U" using units_contract.shown_parts [OF U J(4)] by simp
  from units_contract.units_swap [OF U J(4) c] show ?thesis
  proof (rule pollsE)
    fix p u w1
    assume p: "ju_swap U n m (jn_units s) w = Done (p, u, w1)" "same_frame w w1"
      "units_swap_ok ushown (ju_len U) Js (w_active w) q pages p u"
    consider "p = Pending" | e where "p = Ready (Inl e)" | "p = Ready (Inr None)"
      | i x where "p = Ready (Inr (Some (i, x)))" by (metis poll_result_cases option.exhaust surj_pair)
    then show ?thesis
    proof cases
      case (4 i x)
      with p(3) l have x: "i < length Js" "swap_fits (Js ! i) (w_active w) q (pages ! i) x"
        "ushown Js u (pages[i := after_swap x (pages ! i)])" by simp_all
      note s = parts_swap [OF J(3) x(1,2)]
      show ?thesis using 4 p J(1,2) x(3) s(2,3) swap_fits_mono [OF s(1) J(1)]
        by (auto simp: join_scan_def Let_def join_shown_def scan_ok_def)
    qed (use p J in \<open>auto simp: join_scan_def join_shown_def scan_ok_def\<close>)
  qed
qed

text \<open>A join of views keeps the contract of views when the chain of its units does: the units' contents go out once each
  and in order, each unit swaps only in its own part of the page, and neither scan of a turn panics.\<close>

theorem join_contract:
  fixes U :: "('u, 'h, 'e, 'x) join_units"
  assumes U: "units_contract U ufresh uready ushown c q"
  shows "live_contract (join_view U) (join_fresh U ufresh) (join_shown ushown) c q"
proof (rule live_contract.intro, goal_cases)
  case (1 I w s)
  then obtain Js burst where J: "disjoint_ids Js" "\<Union> (set Js) \<subseteq> I" "ufresh Js (w_active w) (jn_units s)"
    "w_active w \<noteq> None" "jn_next s = 0" "jn_burst s = Some burst" "burst_ok (ju_len U) burst"
    by (auto simp: join_fresh_def)
  from units_contract.contents_law [OF U J(3) 1(2)] show ?case
  proof (rule pollsE)
    fix p u w1
    assume p: "ju_contents U (jn_units s) w = Done (p, u, w1)" "same_frame w w1"
      "case p of Pending \<Rightarrow> ufresh Js (w_active w) u | Ready (Inl _) \<Rightarrow> True | Ready (Inr _) \<Rightarrow> uready Js (w_active w) u"
    consider "p = Pending" | e where "p = Ready (Inl e)" | "p = Ready (Inr ())"
      by (cases p rule: poll_result_cases) auto
    then show ?thesis
    proof cases
      case 1
      with p J show ?thesis by (auto simp: join_view_def join_fresh_def)
    next
      case 2
      with p show ?thesis by (simp add: join_view_def)
    next
      case 3
      obtain b where b: "w_active w1 = Some b" using J(4) same_frame_world(1) [OF p(2)] by auto
      then have a: "w_active w = Some b" using same_frame_world(1) [OF p(2)] by simp
      from 3 p(3) have "uready Js (w_active w) u" by simp
      from units_contract.take_law [OF U this] obtain hs u' where t: "ju_take U u = Done (hs, u')"
        "list_all (home_ok (Some b)) hs" "ushown Js u' (map marks_of hs)" unfolding a by blast
      note parts = units_contract.shown_parts [OF U t(3)]
      then have "length hs = ju_len U" by (metis length_map list_all2_lengthD)
      with J(7) t(2) have burst: "list_all (part_home_ok b) (burst hs)"
        "marks (concat (map part_pieces (burst hs))) = concat (map marks_of hs)" by (simp_all add: burst_ok_def)
      have ok: "parts_ok Js (map marks_of hs)"
        using parts J(1) by (auto simp: parts_ok_def disjoint_ids_def list_all2_conv_all_nth subset_iff)
      have "ids_of (concat (map marks_of hs)) \<subseteq> I" using parts_ids [OF ok] J(2) by blast
      moreover have "scope_block (burst hs) w1 = Done \<lparr>hd_home = Some b, hd_pieces = concat (map part_pieces (burst hs))\<rparr>"
        using b burst(1) by (simp add: scope_block_def block_in_def)
      moreover have "join_shown ushown I (s\<lparr>jn_units := u', jn_burst := None\<rparr>) (concat (map marks_of hs))"
        unfolding join_shown_def using J(2) ok t(3) by (intro exI [of _ Js] exI [of _ "map marks_of hs"]) simp
      ultimately show ?thesis using 3 p(1,2) t(1) J(6) a burst(2)
        by (simp add: join_view_def home_ok_def split: unit.split)
    qed
  qed
next
  case (2 I s page w)
  have "polls (bind_outcome (join_scan U (jn_next s) (ju_len U) s w) (\<lambda>(p, s', w).
          let second = join_scan U 0 (jn_next s) s' w
          in case p of
               Pending \<Rightarrow> bind_outcome second (\<lambda>(q, s, w). Done (case q of Ready (Inr None) \<Rightarrow> Pending | _ \<Rightarrow> q, s, w))
             | Ready (Inr None) \<Rightarrow> second
             | _ \<Rightarrow> Done (p, s', w))) w (swap_ok (join_shown ushown) I (w_active w) q page)"
  proof (rule polls_bind [OF join_scan_polls [OF U 2]], goal_cases)
    case (1 p s1 w1)
    note w1 = same_frame_world [OF 1(2)]
    have second: "polls (join_scan U 0 (jn_next s) s1 w1) w1 (scan_ok ushown I (w_active w) q page)"
      if "join_shown ushown I s1 page"
      using join_scan_polls [OF U that w1(2) [OF 2(2)]] w1(1) by simp
    show ?case
    proof (cases p rule: poll_option_cases)
      case pending
      then have "join_shown ushown I s1 page" using 1(1) by (simp add: scan_ok_def)
      from second [OF this] show ?thesis
      proof (rule pollsE)
        fix r s2 w2
        assume "join_scan U 0 (jn_next s) s1 w1 = Done (r, s2, w2)" "same_frame w1 w2"
          "scan_ok ushown I (w_active w) q page r s2"
        with pending show ?thesis by (cases r rule: poll_option_cases) (simp_all add: scan_ok_def)
      qed
    next
      case finished
      then have "join_shown ushown I s1 page" using 1(1) by (simp add: scan_ok_def)
      with finished show ?thesis by (auto intro!: polls_weaken [OF second] simp: scan_ok_def)
    qed (use 1 in \<open>simp_all add: scan_ok_def\<close>)
  qed
  then show ?case by (simp add: join_view_def)
next
  case (3 I s page)
  then show ?case using parts_ids by (fastforce simp: join_shown_def)
qed

subsection \<open>No body starves\<close>

text \<open>A body with a swap at hand whatever the world is.\<close>

definition has_swap :: "('s, 'h, 'e, 'x) view_ops \<Rightarrow> ('s, 'h) loop_body \<Rightarrow> bool" where
  "has_swap V b \<longleftrightarrow> \<not> lb_done b \<and> (\<forall>w. \<exists>u v w'. poll_swap V (lb_view b) w = Done (Ready (Ok (Some u)), v, w'))"

lemma has_swap_result: "has_swap V b \<Longrightarrow> poll_swap V (lb_view b) w = Done (r, v, w') \<Longrightarrow> \<exists>u. r = Ready (Inr (Some u))"
  unfolding has_swap_def by (metis outcome.inject prod.inject)

lemma loop_turn_served:
  assumes "loop_turn V all_done (xs @ i # ys) bs w = Done (p, bs', w')" "i < length bs" "has_swap V (bs ! i)"
  shows "(\<exists>e. p = Ready (Inl e)) \<or>
    (\<exists>j u. p = Ready (Inr (Some (j, u))) \<and> (j = i \<or> j \<in> set xs \<and> bs' ! i = bs ! i)) \<and> length bs' = length bs"
  using assms
proof (induction xs arbitrary: all_done bs w)
  case Nil
  then obtain u v w1 where "poll_swap V (lb_view (bs ! i)) w = Done (Ready (Ok (Some u)), v, w1)" "\<not> lb_done (bs ! i)"
    unfolding has_swap_def by metis
  with Nil.prems(1) show ?case by (auto simp: Let_def)
next
  case (Cons x xs)
  show ?case
  proof (cases "lb_done (bs ! x)")
    case True
    with Cons.prems have "loop_turn V all_done (xs @ i # ys) bs w = Done (p, bs', w')" by (simp add: Let_def)
    from Cons.IH [OF this Cons.prems(2,3)] show ?thesis by auto
  next
    case False
    obtain r v w1 where r: "poll_swap V (lb_view (bs ! x)) w = Done (r, v, w1)"
      using Cons.prems(1) False by (cases "poll_swap V (lb_view (bs ! x)) w") (auto simp: Let_def)
    show ?thesis
    proof (cases r rule: poll_option_cases)
      case pending
      let ?bs = "bs[x := (bs ! x)\<lparr>lb_view := v\<rparr>]"
      have "x \<noteq> i" using pending has_swap_result [OF Cons.prems(3)] r by auto
      then have i: "?bs ! i = bs ! i" by simp
      have "loop_turn V False (xs @ i # ys) ?bs w1 = Done (p, bs', w')"
        using Cons.prems(1) False r pending by (simp add: Let_def)
      from Cons.IH [OF this] i Cons.prems(2,3) show ?thesis by auto
    next
      case (failed e)
      then show ?thesis using Cons.prems(1) False r by (auto simp: Let_def)
    next
      case finished
      let ?bs = "bs[x := (bs ! x)\<lparr>lb_view := v, lb_done := True\<rparr>]"
      have "x \<noteq> i" using finished has_swap_result [OF Cons.prems(3)] r by auto
      then have i: "?bs ! i = bs ! i" by simp
      have "loop_turn V all_done (xs @ i # ys) ?bs w1 = Done (p, bs', w')"
        using Cons.prems(1) False r finished by (simp add: Let_def)
      from Cons.IH [OF this] i Cons.prems(2,3) show ?thesis by auto
    next
      case (swapped u)
      then show ?thesis using Cons.prems(1) False r by (cases "x = i") (auto simp: Let_def)
    qed
  qed
qed

text \<open>The position whose swap went out last, and whether body \<open>i\<close> is served in \<open>n\<close> polls; an error ends the stream.\<close>

definition served :: "('s, 'h) loop_state \<Rightarrow> nat" where
  "served s = (lp_next s + (length (lp_bodies s) - 1)) mod length (lp_bodies s)"

fun served_in :: "('s, 'h, 'e, 'x) view_ops \<Rightarrow> nat \<Rightarrow> nat \<Rightarrow> ('s, 'h) loop_state \<Rightarrow> ('h, 'e) world \<Rightarrow> bool" where
  "served_in V i 0 s w \<longleftrightarrow> False"
| "served_in V i (Suc n) s w \<longleftrightarrow> (case poll_swap (loop_view V) s w of
     Done (Ready (Inr (Some _)), s', w') \<Rightarrow> served s' = i \<or> served_in V i n s' w'
   | Done (Ready (Inl _), _, _) \<Rightarrow> True
   | _ \<Rightarrow> False)"

lemma ring_at:
  assumes "d < len"
  shows "ring start len = map (\<lambda>k. (start + k) mod len) [0..<d] @ (start + d) mod len # map (\<lambda>k. (start + k) mod len) [Suc d..<len]"
proof -
  have "[0..<len] = [0..<d] @ d # [Suc d..<len]" using assms by (metis append_Cons append_Nil le_add2 less_imp_add_positive less_or_eq_imp_le upt_conv_Cons upt_add_eq_append add.right_neutral add_0)
  then show ?thesis unfolding ring_def by simp
qed

lemma served_at: "j < length bs \<Longrightarrow> served (s\<lparr>lp_bodies := bs, lp_next := (j + 1) mod length bs\<rparr>) = j"
proof -
  assume j: "j < length bs"
  have "((j + 1) mod length bs + (length bs - 1)) mod length bs = (j + 1 + (length bs - 1)) mod length bs"
    by (rule mod_add_left_eq)
  also have "j + 1 + (length bs - 1) = j + length bs" using j by simp
  finally show ?thesis using j by (simp add: served_def)
qed

lemma next_distance:
  assumes "k < d" "d < len"
  shows "(start + d) mod len = (((start + k) mod len + 1) mod len + (d - Suc k)) mod len"
proof -
  have "(((start + k) mod len + 1) mod len + (d - Suc k)) mod len = ((start + k) mod len + 1 + (d - Suc k)) mod len"
    by (rule mod_add_left_eq)
  also have "(start + k) mod len + 1 + (d - Suc k) = (start + k) mod len + (d - k)" using assms(1) by simp
  also have "((start + k) mod len + (d - k)) mod len = (start + k + (d - k)) mod len" by (rule mod_add_left_eq)
  finally show ?thesis using assms(1) by simp
qed

lemma loop_served_from:
  fixes V :: "('s, 'h, 'e, 'x) view_ops"
  assumes V: "live_contract V fresh shown c q"
  shows "loop_shown shown I s page \<Longrightarrow> d < length (lp_bodies s) \<Longrightarrow> i = (lp_next s + d) mod length (lp_bodies s) \<Longrightarrow>
    has_swap V (lp_bodies s ! i) \<Longrightarrow> c \<longrightarrow> w_hoisted w \<noteq> None \<Longrightarrow> d < n \<Longrightarrow> served_in V i n s w"
proof (induction n arbitrary: d s w page)
  case 0
  then show ?case by simp
next
  case (Suc n)
  let ?len = "length (lp_bodies s)"
  have l: "i < ?len" using Suc.prems(2,3) by (metis less_nat_zero_code mod_less_divisor neq0_conv)
  from live_contract.swap_law [OF loop_contract [OF V] Suc.prems(1,5)]
  obtain p s' w' where p: "poll_swap (loop_view V) s w = Done (p, s', w')" "same_frame w w'"
    "swap_ok (loop_shown shown) I (w_active w) q page p s'" by (rule pollsE)
  obtain r bs w1 where r: "loop_turn V True (ring (lp_next s) ?len) (lp_bodies s) w = Done (r, bs, w1)"
    using p(1) by (cases "loop_turn V True (ring (lp_next s) ?len) (lp_bodies s) w") (auto simp: loop_view_def)
  from loop_turn_served [OF r [unfolded ring_at [OF Suc.prems(2)], folded Suc.prems(3)] l Suc.prems(4)]
  consider e where "r = Ready (Inl e)"
    | j u where "r = Ready (Inr (Some (j, u)))" "length bs = ?len"
        "j = i \<or> j \<in> (\<lambda>k. (lp_next s + k) mod ?len) ` {0..<d} \<and> bs ! i = lp_bodies s ! i" by auto
  then show ?case
  proof cases
    case 1
    with p r show ?thesis by (auto simp: loop_view_def Let_def)
  next
    case (2 j u)
    then have s': "s' = s\<lparr>lp_bodies := bs, lp_next := (j + 1) mod length bs\<rparr>" "p = Ready (Inr (Some u))" "w' = w1"
      using p(1) r by (auto simp: loop_view_def Let_def)
    have j: "j < length bs" using 2(2,3) l by (cases "lp_bodies s = []") auto
    then have at: "served s' = j" unfolding s'(1) by (rule served_at)
    show ?thesis
    proof (cases "j = i")
      case True
      with p(1) s'(2) at show ?thesis by simp
    next
      case False
      then obtain k where k: "k < d" "j = (lp_next s + k) mod ?len" "bs ! i = lp_bodies s ! i" using 2(3) by auto
      have "served_in V i n s' w'"
      proof (rule Suc.IH)
        show "loop_shown shown I s' (after_swap u page)" using p(3) s'(2) by simp
        show "d - Suc k < length (lp_bodies s')" using Suc.prems(2) 2(2) by (simp add: s'(1))
        show "i = (lp_next s' + (d - Suc k)) mod length (lp_bodies s')"
          unfolding Suc.prems(3) using next_distance [OF k(1) Suc.prems(2)] k(2) 2(2) by (simp add: s'(1))
        show "has_swap V (lp_bodies s' ! i)" using Suc.prems(4) k(3) by (simp add: s'(1))
        show "c \<longrightarrow> w_hoisted w' \<noteq> None" using same_frame_world(2) [OF p(2) Suc.prems(5)] .
        show "d - Suc k < n" using Suc.prems(6) k(1) by simp
      qed
      with p(1) s'(2) show ?thesis by simp
    qed
  qed
qed

text \<open>C15. In a loop of live bodies none starves: a body that has a swap at hand sends one within as many polls as the
  loop has bodies, unless a body fails first, whatever the others send and wherever the turn stands.\<close>

theorem loop_no_starvation:
  fixes V :: "('s, 'h, 'e, 'x) view_ops"
  assumes "live_contract V fresh shown c q" "loop_shown shown I s page" "c \<longrightarrow> w_hoisted w \<noteq> None"
    and "i < length (lp_bodies s)" "lp_next s < length (lp_bodies s)" "has_swap V (lp_bodies s ! i)"
  shows "served_in V i (length (lp_bodies s)) s w"
proof -
  let ?len = "length (lp_bodies s)"
  let ?d = "(i + (?len - lp_next s)) mod ?len"
  have d: "?d < ?len" using assms(4) by (cases "lp_bodies s = []") simp_all
  have "(lp_next s + ?d) mod ?len = (lp_next s + (i + (?len - lp_next s))) mod ?len" by (rule mod_add_right_eq)
  also have "lp_next s + (i + (?len - lp_next s)) = i + ?len" using assms(5) by simp
  finally have "i = (lp_next s + ?d) mod ?len" using assms(4) by simp
  from loop_served_from [OF assms(1,2) d this assms(6,3) d] show ?thesis .
qed

text \<open>Two live regions whose bodies have an update ready behind the first content.\<close>

definition quiet_world :: "(nat, unit) world" where
  "quiet_world = \<lparr>w_active = None, w_next = 0, w_hoisted = None, w_drive = None, w_yield_first = None,
     w_yield_swap = None, w_env = ()\<rparr>"

definition updated_body :: "region_id \<Rightarrow> ((unit scope_state emit_state list, nat) live_state, nat) loop_body" where
  "updated_body r = \<lparr>lb_view = \<lparr>lv_body = [(emit_new r (scope_new ()))\<lparr>em_first := False, em_done := True\<rparr>],
     lv_region = r, lv_stash = Some \<lparr>vs_region = r, vs_replacement = handle_empty\<rparr>\<rparr>, lb_ready = None, lb_done = False\<rparr>"

lemma updated_body_shown:
  "live_shown (emits_shown (scope_sealed (\<lambda>I a s. True)) (scope_shown (\<lambda>I s page. page = []))) {r}
     (lb_view (updated_body r)) (region_page r [])"
proof -
  have "has_region r [RegionStart r, RegionEnd r]" using region_around(1) [of r "[]"] by simp
  then show ?thesis unfolding live_shown_def
    by (intro exI [of _ "{}"])
      (simp add: updated_body_def emits_shown_def emit_in_def emit_within_def emits_waiting_def emit_new_def
        swap_fits_def home_ok_def after_swap_def region_page_def handle_empty_def swap_in_def marks_of_def)
qed

lemma updated_body_swaps: "has_swap (live_view B) (updated_body r)"
  by (simp add: has_swap_def updated_body_def live_view_def)

lemma loop_no_starvation_witness:
  "served_in (live_view (emits (scope_view unit_view)) :: (_, nat, unit, nat) view_ops) 1 2
     \<lparr>lp_bodies = [updated_body 7, updated_body 8], lp_next = 0\<rparr> quiet_world"
proof -
  have contract: "live_contract (live_view (emits (scope_view unit_view)) :: (_, nat, unit, nat) view_ops)
      (live_fresh (emits_fresh (scope_sealed (\<lambda>I a s. True))))
      (live_shown (emits_shown (scope_sealed (\<lambda>I a s. True)) (scope_shown (\<lambda>I s page. page = [])))) False True"
    by (rule live_emits_contract)
  have shown: "loop_shown (live_shown (emits_shown (scope_sealed (\<lambda>I a s. True)) (scope_shown (\<lambda>I s page. page = []))))
      {7, 8} \<lparr>lp_bodies = [updated_body 7, updated_body 8], lp_next = 0\<rparr> (region_page 7 [] @ region_page 8 [])"
    unfolding loop_shown_def bodies_shown_def parts_ok_def
    by (intro exI [of _ "[{7}, {8}]"] exI [of _ "[region_page 7 [], region_page 8 []]"])
      (simp add: updated_body_shown less_Suc_eq numeral_2_eq_2)
  show ?thesis using loop_no_starvation [OF contract shown, of quiet_world 1]
    by (simp add: updated_body_swaps numeral_2_eq_2 del: served_in.simps)
qed

definition two_units :: "(_, nat, unit, nat) join_units" where
  "two_units = join_unit (live_view (emits (scope_view unit_view))) (join_unit unit_view no_units)"

theorem join_contract_witness:
  "live_contract (join_view two_units)
     (join_fresh two_units
        (chain_fresh (live_fresh (emits_fresh (scope_sealed (\<lambda>I a s. True))))
           (live_shown (emits_shown (scope_sealed (\<lambda>I a s. True)) (scope_shown (\<lambda>I s page. page = []))))
           (chain_fresh (\<lambda>I a s. True) (\<lambda>I s page. page = []) (\<lambda>Js a u. Js = []))))
     (join_shown (chain_shown (live_shown (emits_shown (scope_sealed (\<lambda>I a s. True)) (scope_shown (\<lambda>I s page. page = []))))
        (chain_shown (\<lambda>I s page. page = []) (\<lambda>Js u pages. Js = [] \<and> pages = [])))) False True"
  unfolding two_units_def
  by (rule join_contract, rule chain_contract, rule live_emits_contract, rule chain_contract, rule unit.live_contract_axioms,
      rule no_units.units_contract_axioms)

end
