(* ===== verification/Live_Hoists.thy ===== *)
theory Live_Hoists
  imports Live_Contracts
begin

text \<open>
  Hoisted parts (\<^verbatim>\<open>hoist.rs\<close>): a poll collects what is hoisted while it runs and puts it ahead of the content
  or replacement it resolves.  A hoisted part is the leaves it writes.
\<close>

subsection \<open>Collecting\<close>

definition no_hoisted :: "'h hoisted" where
  "no_hoisted = \<lparr>hs_parts = [], hs_keys = {}\<rparr>"

definition hoisted_take :: "'h hoisted \<Rightarrow> 'h list list \<times> 'h hoisted" where
  "hoisted_take h = (hs_parts h, h\<lparr>hs_parts := [], hs_keys := {}\<rparr>)"

definition with_collecting :: "('h hoisted \<Rightarrow> 'h hoisted) \<Rightarrow> ('h, 'e) world \<Rightarrow> ('h, 'e) world outcome" where
  "with_collecting f w = (case w_hoisted w of None \<Rightarrow> Panic | Some h \<Rightarrow> Done (w\<lparr>w_hoisted := Some (f h)\<rparr>))"

definition hoist :: "'h list \<Rightarrow> ('h, 'e) world \<Rightarrow> ('h, 'e) world outcome" where
  "hoist part = with_collecting (\<lambda>h. h\<lparr>hs_parts := hs_parts h @ [part]\<rparr>)"

definition hoist_once :: "nat \<Rightarrow> 'h list \<Rightarrow> ('h, 'e) world \<Rightarrow> ('h, 'e) world outcome" where
  "hoist_once key part = with_collecting (\<lambda>h.
     if key \<in> hs_keys h then h else h\<lparr>hs_keys := insert key (hs_keys h), hs_parts := hs_parts h @ [part]\<rparr>)"

text \<open>\<^verbatim>\<open>HoistGuard::install\<close> and its drop, around a poll.\<close>

definition hoist_guard :: "'h hoisted \<Rightarrow> (('h, 'e) world \<Rightarrow> ('a \<times> 's \<times> ('h, 'e) world) outcome) \<Rightarrow>
    ('h, 'e) world \<Rightarrow> ('a \<times> ('s \<times> 'h hoisted) \<times> ('h, 'e) world) outcome" where
  "hoist_guard slot f w =
     bind_outcome (f (w\<lparr>w_hoisted := Some slot\<rparr>)) (\<lambda>(a, s, w').
       Done (a, (s, case w_hoisted w' of None \<Rightarrow> no_hoisted | Some h \<Rightarrow> h), w'\<lparr>w_hoisted := w_hoisted w\<rparr>))"

definition prepend :: "'h hoisted \<Rightarrow> 'h handle \<Rightarrow> ('h, 'e) world \<Rightarrow>
    ('h handle \<times> 'h hoisted \<times> ('h, 'e) world) outcome" where
  "prepend h content w =
     (if hs_parts h = [] then Done (content, h, w)
      else let (parts, h) = hoisted_take h; build = map PartLeaf (concat parts) @ [PartHandle content]
           in if w_active w \<noteq> None then bind_outcome (scope_block build w) (\<lambda>d. Done (d, h, w))
              else bind_outcome (block_in (w_next w) build) (\<lambda>d.
                bind_outcome (handle_seal (w_next w) d) (\<lambda>d. Done (d, h, w\<lparr>w_next := w_next w + 1\<rparr>))))"

record ('s, 'h) hoist_state =
  ho_view :: 's
  ho_hoisted :: "'h hoisted"

definition hoist_new :: "'s \<Rightarrow> ('s, 'h) hoist_state" where
  "hoist_new v = \<lparr>ho_view = v, ho_hoisted = no_hoisted\<rparr>"

definition hoist_view :: "('s, 'h, 'e, 'x) view_ops \<Rightarrow> (('s, 'h) hoist_state, 'h, 'e, 'x) view_ops" where
  "hoist_view V =
     \<lparr>poll_first = \<lambda>s w. bind_outcome (hoist_guard (ho_hoisted s) (poll_first V (ho_view s)) w) (\<lambda>(p, (v, h), w).
        case p of
          Ready (Inr f) \<Rightarrow> bind_outcome (prepend h (vf_content f) w) (\<lambda>(content, h, w).
            Done (Ready (Ok (f\<lparr>vf_content := content\<rparr>)), \<lparr>ho_view = v, ho_hoisted = h\<rparr>, w))
        | _ \<Rightarrow> Done (p, \<lparr>ho_view = v, ho_hoisted = h\<rparr>, w)),
      poll_swap = \<lambda>s w. bind_outcome (hoist_guard (ho_hoisted s) (poll_swap V (ho_view s)) w) (\<lambda>(p, (v, h), w).
        case p of
          Ready (Inr (Some u)) \<Rightarrow> bind_outcome (prepend h (vs_replacement u) w) (\<lambda>(replacement, h, w).
            Done (Ready (Ok (Some (u\<lparr>vs_replacement := replacement\<rparr>))), \<lparr>ho_view = v, ho_hoisted = h\<rparr>, w))
        | _ \<Rightarrow> Done (p, \<lparr>ho_view = v, ho_hoisted = h\<rparr>, w))\<rparr>"

subsection \<open>The contract\<close>

definition hoist_fresh :: "'s fresh_states \<Rightarrow> ('s, 'h) hoist_state fresh_states" where
  "hoist_fresh fresh I a s = fresh I a (ho_view s)"

definition hoist_shown :: "'s shown_states \<Rightarrow> ('s, 'h) hoist_state shown_states" where
  "hoist_shown shown I s page = shown I (ho_view s) page"

lemma guarded:
  assumes "polls (f (w\<lparr>w_hoisted := Some slot\<rparr>)) (w\<lparr>w_hoisted := Some slot\<rparr>) good"
  shows "polls (hoist_guard slot f w) w (\<lambda>p (s, h). good p s)"
proof -
  obtain p s w' where "f (w\<lparr>w_hoisted := Some slot\<rparr>) = Done (p, s, w')" "same_frame (w\<lparr>w_hoisted := Some slot\<rparr>) w'" "good p s"
    using assms by (auto simp: polls_def)
  then show ?thesis by (auto simp: hoist_guard_def same_frame_def)
qed

lemma marks_leaves [simp]: "marks (concat (map (part_pieces \<circ> PartLeaf) xs)) = []"
  by (induction xs) simp_all

lemma homes_leaves [simp]: "list_all (part_home_ok b) (map PartLeaf xs)" "list_all (part_home_ok b \<circ> PartLeaf) xs"
  by (induction xs) simp_all

text \<open>What is put ahead is text, in the buffer of the running build or in one of its own.\<close>

lemma prepend_polls:
  assumes "home_ok (w_active w) content"
  obtains d h' w' where "prepend h content w = Done (d, h', w')" "same_frame w w'" "marks_of d = marks_of content"
    "home_ok (w_active w) d" "w_active w = None \<Longrightarrow> hd_home d = None"
proof (cases "hs_parts h = []")
  case True
  with assms that [of content h w] show thesis by (auto simp: prepend_def home_ok_def)
next
  case False
  let ?ps = "map PartLeaf (concat (hs_parts h)) @ [PartHandle content]"
  let ?d = "\<lambda>a. \<lparr>hd_home = a, hd_pieces = concat (map part_pieces ?ps)\<rparr>"
  let ?h = "h\<lparr>hs_parts := [], hs_keys := {}\<rparr>"
  show thesis
  proof (cases "w_active w")
    case None
    with assms have "hd_home content = None" by (simp add: home_ok_def)
    with False None have "prepend h content w = Done (?d None, ?h, w\<lparr>w_next := w_next w + 1\<rparr>)"
      by (simp add: prepend_def hoisted_take_def Let_def block_in_def handle_seal_def)
    then show thesis by (rule that) (simp_all add: marks_of_def same_frame_def home_ok_def)
  next
    case (Some b)
    with assms have "hd_home content = None \<or> hd_home content = Some b" by (simp add: home_ok_def)
    with False Some have "prepend h content w = Done (?d (Some b), ?h, w)"
      by (auto simp: prepend_def hoisted_take_def Let_def block_in_def scope_block_def)
    then show thesis by (rule that) (simp_all add: marks_of_def Some home_ok_def)
  qed
qed

theorem hoist_contract:
  fixes V :: "('s, 'h, 'e, 'x) view_ops"
  assumes V: "live_contract V fresh shown c q"
  shows "live_contract (hoist_view V) (hoist_fresh fresh) (hoist_shown shown) False False"
proof (rule live_contract.intro, goal_cases)
  case (1 I w s)
  let ?w = "w\<lparr>w_hoisted := Some (ho_hoisted s)\<rparr>"
  have "fresh I (w_active ?w) (ho_view s)" using 1(1) by (simp add: hoist_fresh_def)
  from live_contract.first_law [OF V this]
  have "polls (poll_first V (ho_view s) ?w) ?w (first_ok fresh shown I (w_active w))" by simp
  from guarded [where f = "poll_first V (ho_view s)" and w = w, OF this] show ?case
  proof (rule pollsE)
    fix p and x :: "'s \<times> 'h hoisted" and w1
    assume p: "hoist_guard (ho_hoisted s) (poll_first V (ho_view s)) w = Done (p, x, w1)" "same_frame w w1"
      "case x of (v, h) \<Rightarrow> first_ok fresh shown I (w_active w) p v"
    obtain v h where x: "x = (v, h)" by (cases x)
    show ?thesis
    proof (cases p rule: poll_result_cases)
      case (ready f)
      then have f: "home_ok (w_active w1) (vf_content f)" using p x same_frame_world(1) by fastforce
      obtain d h' w2 where d: "prepend h (vf_content f) w1 = Done (d, h', w2)" "same_frame w1 w2"
        "marks_of d = marks_of (vf_content f)" "home_ok (w_active w1) d" by (rule prepend_polls [OF f])
      show ?thesis using ready p x d same_frame_trans [OF p(2) d(2)] same_frame_world(1) [OF p(2)]
        by (simp add: hoist_view_def hoist_shown_def)
    qed (use p x in \<open>simp_all add: hoist_view_def hoist_fresh_def\<close>)
  qed
next
  case (2 I s page w)
  let ?w = "w\<lparr>w_hoisted := Some (ho_hoisted s)\<rparr>"
  from 2(1) live_contract.swap_law [OF V, of I "ho_view s" page ?w]
  have "polls (poll_swap V (ho_view s) ?w) ?w (swap_ok shown I (w_active w) q page)" by (simp add: hoist_shown_def)
  from guarded [where f = "poll_swap V (ho_view s)" and w = w, OF this] show ?case
  proof (rule pollsE)
    fix p and x :: "'s \<times> 'h hoisted" and w1
    assume p: "hoist_guard (ho_hoisted s) (poll_swap V (ho_view s)) w = Done (p, x, w1)" "same_frame w w1"
      "case x of (v, h) \<Rightarrow> swap_ok shown I (w_active w) q page p v"
    obtain v h where x: "x = (v, h)" by (cases x)
    show ?thesis
    proof (cases p rule: poll_option_cases)
      case (swapped u)
      then have u: "home_ok (w_active w1) (vs_replacement u)"
        using p x same_frame_world(1) [OF p(2)] by (simp add: swap_fits_def)
      obtain d h' w2 where d: "prepend h (vs_replacement u) w1 = Done (d, h', w2)" "same_frame w1 w2"
        "marks_of d = marks_of (vs_replacement u)" "home_ok (w_active w1) d" by (rule prepend_polls [OF u])
      show ?thesis using swapped p x d same_frame_trans [OF p(2) d(2)] same_frame_world(1) [OF p(2)]
        by (simp add: hoist_view_def hoist_shown_def swap_fits_def after_swap_def)
    qed (use p x in \<open>simp_all add: hoist_view_def hoist_shown_def\<close>)
  qed
next
  case (3 I s page)
  then show ?case using live_contract.shown_ids [OF V] by (simp add: hoist_shown_def)
qed

subsection \<open>A replacement that belongs to the build around it\<close>

text \<open>A view that hoists while its swap is polled for, as the views of \<^verbatim>\<open>hoist.rs\<close>'s own tests do.\<close>

definition probe_view :: "(region_id, nat, 'e, 'x) view_ops" where
  "probe_view =
     \<lparr>poll_first = \<lambda>r w. Done (Ready (Ok \<lparr>vf_content = handle_empty, vf_live = True\<rparr>), r, w),
      poll_swap = \<lambda>r w. bind_outcome (hoist [0] w) (\<lambda>w.
        Done (Ready (Ok (Some \<lparr>vs_region = r, vs_replacement = handle_empty\<rparr>)), r, w))\<rparr>"

definition build_world :: "nat \<Rightarrow> (nat, unit) world" where
  "build_world b = \<lparr>w_active = Some b, w_next = Suc b, w_hoisted = None, w_drive = None, w_yield_first = None,
     w_yield_swap = None, w_env = ()\<rparr>"

text \<open>\<^verbatim>\<open>LiveView::poll_first\<close> polls the body's swap inside the build, where what \<^verbatim>\<open>prepend\<close> makes belongs to that
  build: the replacement that is kept for later is not self-contained, and the page that gets it once the
  build is over cannot show it.  That is why the contract of a hoisting view promises no self-contained
  replacements.\<close>

theorem hoisted_swap_of_the_build:
  "\<exists>s w. poll_first (live_view (emits (scope_view (hoist_view probe_view)))) \<lparr>lv_body = [emit_new 7 (scope_new (hoist_new 7))],
        lv_region = 7, lv_stash = None\<rparr> (build_world 3)
      = (Done (Ready (Ok \<lparr>vf_content = \<lparr>hd_home = Some 3, hd_pieces = [Marker (RegionStart 7), Marker (RegionEnd 7)]\<rparr>,
          vf_live = True\<rparr>), s, w) :: ((_, unit) result poll \<times> _ \<times> _) outcome) \<and>
    lv_stash s = Some \<lparr>vs_region = 7, vs_replacement = \<lparr>hd_home = Some 3, hd_pieces = [Leaf 0]\<rparr>\<rparr> \<and>
    \<not> home_ok None (vs_replacement (the (lv_stash s)))"
  by (simp add: live_view_def body_first_def body_swap_def live_drive_def drive_future_def emit_view_def scope_view_def
      hoist_view_def probe_view_def build_world_def emit_new_def scope_new_def hoist_new_def hoist_guard_def prepend_def
      hoist_def with_collecting_def no_hoisted_def hoisted_take_def scope_block_def block_in_def in_region_def handle_empty_def
      home_ok_def Let_def)

text \<open>The handle with the hoisted parts ahead, and what is left to hoist.\<close>

definition led_by :: "'h hoisted \<Rightarrow> nat option \<Rightarrow> 'h handle \<Rightarrow> 'h handle" where
  "led_by h active content =
     (if hs_parts h = [] then content
      else \<lparr>hd_home = active, hd_pieces = map Leaf (concat (hs_parts h)) @ hd_pieces content\<rparr>)"

lemma part_pieces_leaves [simp]: "concat (map (part_pieces \<circ> PartLeaf) xs) = map Leaf xs"
  by (induction xs) simp_all

lemma prepend_led_by:
  assumes "home_ok (w_active w) content"
  obtains h' w' where "prepend h content w = Done (led_by h (w_active w) content, h', w')" "hs_parts h' = []"
    "w_hoisted w' = w_hoisted w"
proof (cases "hs_parts h = []")
  case True
  then show thesis using that [of h w] by (simp add: prepend_def led_by_def)
next
  case False
  let ?h = "h\<lparr>hs_parts := [], hs_keys := {}\<rparr>"
  show thesis
  proof (cases "w_active w")
    case None
    with assms False that [of ?h "w\<lparr>w_next := w_next w + 1\<rparr>"] show thesis
      by (simp add: prepend_def led_by_def home_ok_def hoisted_take_def Let_def block_in_def handle_seal_def)
  next
    case (Some b)
    with assms False that [of ?h w] show thesis
      by (auto simp: prepend_def led_by_def home_ok_def hoisted_take_def Let_def block_in_def scope_block_def)
  qed
qed

lemma guard_collects:
  assumes "f (w\<lparr>w_hoisted := Some slot\<rparr>) = Done (p, s, w1)" "same_frame (w\<lparr>w_hoisted := Some slot\<rparr>) w1"
  obtains h where "w_hoisted w1 = Some h" "hoist_guard slot f w = Done (p, (s, h), w1\<lparr>w_hoisted := w_hoisted w\<rparr>)"
    "w_active w1 = w_active w"
  using assms by (cases "w_hoisted w1") (auto simp: hoist_guard_def same_frame_def)

lemma hoisted_first:
  fixes V :: "('s, 'h, 'e, 'x) view_ops"
  assumes V: "live_contract V fresh shown c q" and at: "fresh I (w_active w) (ho_view s)"
  shows "(\<exists>p v w1 h p' t w'. poll_first V (ho_view s) (w\<lparr>w_hoisted := Some (ho_hoisted s)\<rparr>) = Done (p, v, w1) \<and>
         w_hoisted w1 = Some h \<and> poll_first (hoist_view V) s w = Done (p', t, w') \<and> ho_view t = v \<and> w_hoisted w' = w_hoisted w \<and>
         (case p of
            Ready (Inr f) \<Rightarrow> p' = Ready (Ok (f\<lparr>vf_content := led_by h (w_active w) (vf_content f)\<rparr>)) \<and> hs_parts (ho_hoisted t) = []
          | _ \<Rightarrow> p' = p \<and> ho_hoisted t = h))"
proof -
  let ?w = "w\<lparr>w_hoisted := Some (ho_hoisted s)\<rparr>"
  from at have "fresh I (w_active ?w) (ho_view s)" "c \<longrightarrow> w_hoisted ?w \<noteq> None" by simp_all
  from live_contract.first_law [OF V this] obtain p v w1 where
    p: "poll_first V (ho_view s) ?w = Done (p, v, w1)" "same_frame ?w w1" "first_ok fresh shown I (w_active ?w) p v"
    by (rule pollsE)
  obtain h where h: "w_hoisted w1 = Some h" "w_active w1 = w_active w"
    "hoist_guard (ho_hoisted s) (poll_first V (ho_view s)) w = Done (p, (v, h), w1\<lparr>w_hoisted := w_hoisted w\<rparr>)"
    using guard_collects [where f = "poll_first V (ho_view s)" and slot = "ho_hoisted s", OF p(1,2)] by metis
  have "\<exists>p' t w'. poll_first (hoist_view V) s w = Done (p', t, w') \<and> ho_view t = v \<and> w_hoisted w' = w_hoisted w \<and>
     (case p of
        Ready (Inr f) \<Rightarrow> p' = Ready (Ok (f\<lparr>vf_content := led_by h (w_active w) (vf_content f)\<rparr>)) \<and> hs_parts (ho_hoisted t) = []
      | _ \<Rightarrow> p' = p \<and> ho_hoisted t = h)"
  proof (cases p rule: poll_result_cases)
    case (ready f)
    with p(3) h(2) have "home_ok (w_active (w1\<lparr>w_hoisted := w_hoisted w\<rparr>)) (vf_content f)" by simp
    then obtain h' w2 where "prepend h (vf_content f) (w1\<lparr>w_hoisted := w_hoisted w\<rparr>) =
        Done (led_by h (w_active (w1\<lparr>w_hoisted := w_hoisted w\<rparr>)) (vf_content f), h', w2)"
      "hs_parts h' = []" "w_hoisted w2 = w_hoisted (w1\<lparr>w_hoisted := w_hoisted w\<rparr>)" by (rule prepend_led_by)
    with ready h show ?thesis by (simp add: hoist_view_def)
  qed (use h in \<open>simp_all add: hoist_view_def\<close>)
  with p(1) h(1) show ?thesis by blast
qed

lemma hoisted_swap:
  fixes V :: "('s, 'h, 'e, 'x) view_ops"
  assumes V: "live_contract V fresh shown c q" and at: "shown I (ho_view s) page"
  shows "(\<exists>p v w1 h p' t w'. poll_swap V (ho_view s) (w\<lparr>w_hoisted := Some (ho_hoisted s)\<rparr>) = Done (p, v, w1) \<and>
         w_hoisted w1 = Some h \<and> poll_swap (hoist_view V) s w = Done (p', t, w') \<and> ho_view t = v \<and> w_hoisted w' = w_hoisted w \<and>
         (case p of
            Ready (Inr (Some u)) \<Rightarrow>
              p' = Ready (Ok (Some (u\<lparr>vs_replacement := led_by h (w_active w) (vs_replacement u)\<rparr>))) \<and> hs_parts (ho_hoisted t) = []
          | _ \<Rightarrow> p' = p \<and> ho_hoisted t = h))"
proof -
  let ?w = "w\<lparr>w_hoisted := Some (ho_hoisted s)\<rparr>"
  have "c \<longrightarrow> w_hoisted ?w \<noteq> None" by simp
  with at obtain p v w1 where
    p: "poll_swap V (ho_view s) ?w = Done (p, v, w1)" "same_frame ?w w1" "swap_ok shown I (w_active ?w) q page p v"
    using live_contract.swap_law [OF V] by (metis pollsE)
  obtain h where h: "w_hoisted w1 = Some h" "w_active w1 = w_active w"
    "hoist_guard (ho_hoisted s) (poll_swap V (ho_view s)) w = Done (p, (v, h), w1\<lparr>w_hoisted := w_hoisted w\<rparr>)"
    using guard_collects [where f = "poll_swap V (ho_view s)" and slot = "ho_hoisted s", OF p(1,2)] by metis
  have "\<exists>p' t w'. poll_swap (hoist_view V) s w = Done (p', t, w') \<and> ho_view t = v \<and> w_hoisted w' = w_hoisted w \<and>
     (case p of
        Ready (Inr (Some u)) \<Rightarrow>
          p' = Ready (Ok (Some (u\<lparr>vs_replacement := led_by h (w_active w) (vs_replacement u)\<rparr>))) \<and> hs_parts (ho_hoisted t) = []
      | _ \<Rightarrow> p' = p \<and> ho_hoisted t = h)"
  proof (cases p rule: poll_option_cases)
    case (swapped u)
    with p(3) h(2) have "home_ok (w_active (w1\<lparr>w_hoisted := w_hoisted w\<rparr>)) (vs_replacement u)" by (simp add: swap_fits_def)
    then obtain h' w2 where "prepend h (vs_replacement u) (w1\<lparr>w_hoisted := w_hoisted w\<rparr>) =
        Done (led_by h (w_active (w1\<lparr>w_hoisted := w_hoisted w\<rparr>)) (vs_replacement u), h', w2)"
      "hs_parts h' = []" "w_hoisted w2 = w_hoisted (w1\<lparr>w_hoisted := w_hoisted w\<rparr>)" by (rule prepend_led_by)
    with swapped h show ?thesis by (simp add: hoist_view_def)
  qed (use h in \<open>simp_all add: hoist_view_def\<close>)
  with p(1) h(1) show ?thesis by blast
qed


text \<open>The probe above keeps the contract on a page that is its region.\<close>

lemma probe_contract:
  "live_contract (probe_view :: (region_id, nat, 'e, 'x) view_ops) (\<lambda>I a r. False) (\<lambda>I r page. r \<in> I \<and> page = region_page r []) True True"
proof (rule live_contract.intro, goal_cases)
  case (2 I r page w)
  moreover from this obtain h where "w_hoisted w = Some h" by auto
  ultimately show ?case
    using region_page_swap [of r "[]"]
    by (simp add: probe_view_def hoist_def with_collecting_def same_frame_def swap_ok_def swap_fits_def after_swap_def
        home_ok_def handle_empty_def marks_of_def)
qed simp_all


text \<open>Outside of a build the parts make a block of their own.\<close>

lemma hoist_swap_sealed:
  fixes V :: "('s, 'h, 'e, 'x) view_ops"
  assumes V: "live_contract V fresh shown c q" and s: "shown I (ho_view s) page" and w: "w_active w = None"
  shows "polls (poll_swap (hoist_view V) s w) w (\<lambda>p s. \<forall>u. p = Ready (Inr (Some u)) \<longrightarrow> hd_home (vs_replacement u) = None)"
  using live_contract.swap_law [OF hoist_contract [OF V], of I s page w] s w
  by (auto simp: polls_def swap_ok_def swap_fits_def home_ok_def hoist_shown_def)

text \<open>Of the parts hoisted under one key a content keeps the first.\<close>

lemma hoist_once_keeps_first:
  assumes "hoist_once k part w = Done w1"
  shows "hoist_once k other w1 = Done w1"
  using assms by (auto simp: hoist_once_def with_collecting_def split: option.splits)

end
