(* ===== verification/Live_Stream.thy ===== *)
theory Live_Stream
  imports Live_Loops Live_Hoists Origin Responses
begin

text \<open>
  A view as a response (\<^verbatim>\<open>content/view.rs\<close>): the first content becomes the page, every swap that follows a
  chunk of the body, as HTML with a script or as a line of JSON.  \<open>J\<close> is how \<^verbatim>\<open>serde_json\<close> writes an object
  of string fields and \<open>L\<close> what a leaf writes.
\<close>

subsection \<open>Delivery\<close>

datatype delivery = DeliverHtml | DeliverFrames

definition frames_media_type :: str where
  "frames_media_type = ''application/x-ndjson''"

text \<open>\<open>chosen\<close> is the format in the request context, \<open>request\<close> the headers of the request, if there is one.\<close>

definition view_response_delivery :: "delivery option \<Rightarrow> header_map option \<Rightarrow> delivery" where
  "view_response_delivery chosen request =
     (case chosen of
        Some d \<Rightarrow> d
      | None \<Rightarrow>
          if is_some_and
               (\<lambda>accept. list_ex
                  (\<lambda>entry. eq_ignore_ascii_case (trim_ascii (hd (split_on ((=) (CHR '';'')) entry))) frames_media_type)
                  (split_on ((=) (CHR '','')) accept))
               (Option.bind (Option.bind request (\<lambda>h. hm_get h ''accept'')) header_to_str)
          then DeliverFrames else DeliverHtml)"

fun content_type :: "delivery \<Rightarrow> str" where
  "content_type DeliverHtml = ''text/html; charset=utf-8''"
| "content_type DeliverFrames = frames_media_type"

datatype view_frame = FrameSnapshot str | FrameSwap region_id str | FrameRedirect str

text \<open>The object a frame serializes as: the tag and the fields in order.\<close>

fun frame_fields :: "view_frame \<Rightarrow> (str \<times> str) list" where
  "frame_fields (FrameSnapshot html) = [(''t'', ''snapshot''), (''html'', html)]"
| "frame_fields (FrameSwap r html) = [(''t'', ''swap''), (''region'', region_display r), (''html'', html)]"
| "frame_fields (FrameRedirect l) = [(''t'', ''redirect''), (''location'', l)]"

type_synonym json = "(str \<times> str) list \<Rightarrow> str"

definition newline :: char where "newline = CHR 0x0A"

definition to_line :: "json \<Rightarrow> view_frame \<Rightarrow> str" where
  "to_line J f = J (frame_fields f) @ [newline]"

text \<open>What a handle writes, where it may be rendered.\<close>

fun write_pieces :: "('h \<Rightarrow> formatter \<Rightarrow> formatter) \<Rightarrow> 'h piece list \<Rightarrow> formatter \<Rightarrow> formatter" where
  "write_pieces L [] f = f"
| "write_pieces L (Leaf x # ps) f = write_pieces L ps (L x f)"
| "write_pieces L (Marker (RegionStart r) # ps) f =
     write_pieces L ps (fmt_str (''<!--::topcoat::region::start('' @ region_display r @ '')-->'') f)"
| "write_pieces L (Marker (RegionEnd r) # ps) f =
     write_pieces L ps (fmt_str (''<!--::topcoat::region::end('' @ region_display r @ '')-->'') f)"

definition handle_render :: "('h \<Rightarrow> formatter \<Rightarrow> formatter) \<Rightarrow> nat option \<Rightarrow> 'h handle \<Rightarrow> formatter \<Rightarrow> formatter outcome" where
  "handle_render L active h f = (if home_ok active h then Done (write_pieces L (hd_pieces h) f) else Panic)"

fun delivery_first :: "json \<Rightarrow> delivery \<Rightarrow> str \<Rightarrow> str" where
  "delivery_first J DeliverHtml html = html"
| "delivery_first J DeliverFrames html = to_line J (FrameSnapshot html)"

fun delivery_swap :: "json \<Rightarrow> ('h \<Rightarrow> formatter \<Rightarrow> formatter) \<Rightarrow> delivery \<Rightarrow> nat option \<Rightarrow> 'h view_swap \<Rightarrow> str option \<Rightarrow>
    str outcome" where
  "delivery_swap J L DeliverHtml active u script =
     (let f = (case script of None \<Rightarrow> formatter_new [] | Some s \<Rightarrow> fmt_str s (formatter_new []));
          f = fmt_str (''<template data-topcoat-swap='' @ [CHR 0x22] @ region_display (vs_region u) @ [CHR 0x22] @ ''>'') f
      in bind_outcome (handle_render L active (vs_replacement u) f) (\<lambda>f.
           Done (fm_buf (fmt_str (''</template><script>topcoat.swap('' @ [CHR 0x22] @ region_display (vs_region u) @
             [CHR 0x22] @ '')</script>'') f))))"
| "delivery_swap J L DeliverFrames active u script =
     bind_outcome (handle_render L active (vs_replacement u) (formatter_new [])) (\<lambda>f.
       Done (to_line J (FrameSwap (vs_region u) (fm_buf f))))"

fun js_escape :: "str \<Rightarrow> str" where
  "js_escape [] = []"
| "js_escape (c # cs) =
     (if c = CHR 0x5C then [CHR 0x5C, CHR 0x5C]
      else if c = CHR 0x22 then [CHR 0x5C, CHR 0x22]
      else if c = CHR ''<'' then CHR 0x5C # ''x3C''
      else [c]) @ js_escape cs"

definition redirect_script :: "str \<Rightarrow> str outcome" where
  "redirect_script location = (case header_to_str location of
       None \<Rightarrow> Panic
     | Some uri \<Rightarrow> Done (''<script>window.location.replace('' @ [CHR 0x22] @ js_escape uri @ [CHR 0x22] @ '')</script>''))"

fun delivery_redirect :: "json \<Rightarrow> delivery \<Rightarrow> str \<Rightarrow> str outcome" where
  "delivery_redirect J DeliverHtml location = redirect_script location"
| "delivery_redirect J DeliverFrames location = (case header_to_str location of
       None \<Rightarrow> Panic
     | Some l \<Rightarrow> Done (to_line J (FrameRedirect l)))"

subsection \<open>The response\<close>

text \<open>\<^verbatim>\<open>SWAP_SCRIPT\<close>, line by line.\<close>

definition swap_script :: str where
  "swap_script = join_with [newline]
    [''<script>'',
     ''window.topcoat ??= {'',
     ''    swap(id) {'',
     ''        const script = document.currentScript;'',
     ''        const template = script.previousElementSibling;'',
     ''        let open = null;'',
     ''        let close = null;'',
     ''        const walker = document.createTreeWalker(document.documentElement, NodeFilter.SHOW_COMMENT);'',
     ''        while (walker.nextNode()) {'',
     ''            const comment = walker.currentNode;'',
     ''            if (comment.data === `::topcoat::region::start(${id})`) open = comment;'',
     ''            else if (comment.data === `::topcoat::region::end(${id})`) close = comment;'',
     ''        }'',
     ''        if (open && close) {'',
     ''            while (open.nextSibling && open.nextSibling !== close) open.nextSibling.remove();'',
     ''            close.parentNode.insertBefore(template.content, close);'',
     ''        }'',
     ''        template.remove();'',
     ''        script.remove();'',
     ''    },'',
     ''};'',
     ''</script>'']"

record 's view_body =
  bd_first :: "str option"
  bd_script :: "str option"
  bd_delivery :: delivery
  bd_done :: bool
  bd_view :: 's

datatype 's page_body = WholeBody str | StreamedBody "'s view_body"

definition view_response :: "delivery option \<Rightarrow> 'b \<Rightarrow> nat option \<Rightarrow> header_map \<Rightarrow> delivery \<Rightarrow> ('b response, 'e) result" where
  "view_response chosen body status headers d =
     and_then (tuple_response HeadNone [PPairs [(Ok ''content-type'', Ok (content_type d))]] (response_new body)) (\<lambda>r.
       let r = (case status of None \<Rightarrow> r | Some c \<Rightarrow> r\<lparr>rs_status := c\<rparr>);
           r = r\<lparr>rs_headers := hm_extend (rs_headers r) headers\<rparr>
       in Ok (if chosen = None then r\<lparr>rs_headers := hm_append (rs_headers r) ''vary'' ''Accept''\<rparr> else r))"

text \<open>\<^verbatim>\<open>ViewHandle::into_response\<close>.\<close>

definition handle_into_response :: "json \<Rightarrow> ('h \<Rightarrow> formatter \<Rightarrow> formatter) \<Rightarrow> delivery option \<Rightarrow> header_map option \<Rightarrow>
    nat option \<Rightarrow> 'h handle \<Rightarrow> (str response, 'e) result outcome" where
  "handle_into_response J L chosen request active h =
     (let d = view_response_delivery chosen request
      in bind_outcome (handle_render L active h (formatter_new [])) (\<lambda>f.
           Done (view_response chosen (delivery_first J d (fm_buf f)) (fm_status_code f) (fm_headers f) d)))"

text \<open>\<^verbatim>\<open>stream\<close>, poll by poll: the view goes into the body once its first content is there.\<close>

definition stream_poll :: "json \<Rightarrow> ('h \<Rightarrow> formatter \<Rightarrow> formatter) \<Rightarrow> delivery option \<Rightarrow> header_map option \<Rightarrow>
    ('s, 'h, 'e, 'x) view_ops \<Rightarrow> ('s, 'h, 'e, ('s page_body response, 'x) result) machine" where
  "stream_poll J L chosen request V s w =
     (let d = view_response_delivery chosen request
      in bind_outcome (poll_first V s w) (\<lambda>(p, s, w). case p of
           Pending \<Rightarrow> Done (Pending, s, w)
         | Ready (Inl e) \<Rightarrow> Done (Ready (Inl e), s, w)
         | Ready (Inr first) \<Rightarrow>
             bind_outcome (handle_render L (w_active w) (vf_content first) (formatter_new [])) (\<lambda>f.
               let content = delivery_first J d (fm_buf f)
               in Done (Ready (view_response chosen
                    (if vf_live first
                     then StreamedBody \<lparr>bd_first = Some content,
                       bd_script = (if d = DeliverHtml then Some swap_script else None),
                       bd_delivery = d, bd_done = False, bd_view = s\<rparr>
                     else WholeBody content)
                    (fm_status_code f) (fm_headers f) d), s, w))))"

subsection \<open>The body\<close>

type_synonym ('b, 'c) body_frame = "(str, ('b, 'c) error) result option poll"

definition poll_frame :: "json \<Rightarrow> ('h \<Rightarrow> formatter \<Rightarrow> formatter) \<Rightarrow> ('s, 'h, 'e, ('b, 'c) error) view_ops \<Rightarrow>
    's view_body \<Rightarrow> ('h, 'e) world \<Rightarrow> (('b, 'c) body_frame \<times> 's view_body \<times> ('h, 'e) world) outcome" where
  "poll_frame J L V b w =
     (case bd_first b of
        Some first \<Rightarrow> Done (Ready (Some (Ok first)), b\<lparr>bd_first := None\<rparr>, w)
      | None \<Rightarrow>
          if bd_done b then Done (Ready None, b, w)
          else bind_outcome (poll_swap V (bd_view b) w) (\<lambda>(p, s, w).
            let b = b\<lparr>bd_view := s\<rparr>
            in case p of
                 Ready (Inr (Some u)) \<Rightarrow>
                   bind_outcome (delivery_swap J L (bd_delivery b) (w_active w) u (bd_script b)) (\<lambda>chunk.
                     Done (Ready (Some (Ok chunk)), b\<lparr>bd_script := None\<rparr>, w))
               | Ready (Inr None) \<Rightarrow> Done (Ready None, b\<lparr>bd_done := True\<rparr>, w)
               | Ready (Inl e) \<Rightarrow> (case redirect_location e of
                     Inr l \<Rightarrow> bind_outcome (delivery_redirect J (bd_delivery b) l) (\<lambda>chunk.
                       Done (Ready (Some (Ok chunk)), b\<lparr>bd_done := True\<rparr>, w))
                   | Inl e \<Rightarrow> Done (Ready (Some (Err e)), b\<lparr>bd_done := True\<rparr>, w))
               | Pending \<Rightarrow> Done (Pending, b, w)))"

definition is_end_stream :: "'s view_body \<Rightarrow> bool" where
  "is_end_stream b \<longleftrightarrow> bd_first b = None \<and> bd_done b"

fun poll_frames :: "json \<Rightarrow> ('h \<Rightarrow> formatter \<Rightarrow> formatter) \<Rightarrow> ('s, 'h, 'e, ('b, 'c) error) view_ops \<Rightarrow> nat \<Rightarrow>
    's view_body \<Rightarrow> ('h, 'e) world \<Rightarrow> (('b, 'c) body_frame list \<times> 's view_body \<times> ('h, 'e) world) outcome" where
  "poll_frames J L V 0 b w = Done ([], b, w)"
| "poll_frames J L V (Suc n) b w =
     bind_outcome (poll_frame J L V b w) (\<lambda>(p, b, w).
       bind_outcome (poll_frames J L V n b w) (\<lambda>(ps, b, w). Done (p # ps, b, w)))"

subsection \<open>Every swap lands\<close>

abbreviation ended :: "('b, 'c) body_frame list \<Rightarrow> bool" where
  "ended ps \<equiv> list_all (\<lambda>p. p = Ready None) ps"

text \<open>What the polls of a body may bring when the client's page has the markers \<open>page\<close>: swaps of regions the
  page has, each applied before the next one; the script ahead of the first swap only; one error or
  redirect at most; and nothing after it or after the end.\<close>

fun streamed_well :: "json \<Rightarrow> ('h \<Rightarrow> formatter \<Rightarrow> formatter) \<Rightarrow> delivery \<Rightarrow> str option \<Rightarrow> marker list \<Rightarrow>
    ('b, 'c) body_frame list \<Rightarrow> bool" where
  "streamed_well J L d script page [] \<longleftrightarrow> True"
| "streamed_well J L d script page (Pending # ps) \<longleftrightarrow> streamed_well J L d script page ps"
| "streamed_well J L d script page (Ready None # ps) \<longleftrightarrow> ended ps"
| "streamed_well J L d script page (Ready (Some (Inl e)) # ps) \<longleftrightarrow> ended ps"
| "streamed_well J L d script page (Ready (Some (Inr chunk)) # ps) \<longleftrightarrow>
     (\<exists>u. has_region (vs_region u) page \<and> delivery_swap J L d None u script = Done chunk \<and>
        streamed_well J L d None (after_swap u page) ps) \<or>
     (\<exists>l. delivery_redirect J d l = Done chunk) \<and> ended ps"

text \<open>The location of a redirect is ASCII, as percent-encoding makes it.\<close>

definition redirects_ascii :: "('s, 'h, 'e, ('b, 'c) error) view_ops \<Rightarrow> bool" where
  "redirects_ascii V \<longleftrightarrow> (\<forall>s w e s' w' l. poll_swap V s w = Done (Ready (Inl e), s', w') \<longrightarrow>
     redirect_location e = Inr l \<longrightarrow> header_to_str l \<noteq> None)"

lemma delivery_swap_returns: "hd_home (vs_replacement u) = None \<Longrightarrow> \<exists>chunk. delivery_swap J L d a u script = Done chunk"
  by (cases d) (simp_all add: handle_render_def home_ok_def Let_def)

lemma delivery_redirect_returns: "header_to_str l \<noteq> None \<Longrightarrow> \<exists>chunk. delivery_redirect J d l = Done chunk"
  by (cases d) (auto simp: redirect_script_def)

lemma frames_ended:
  "bd_first b = None \<Longrightarrow> bd_done b \<Longrightarrow> poll_frames J L V n b w = Done (replicate n (Ready None), b, w)"
  by (induction n) (simp_all add: poll_frame_def)

lemma ended_replicate [simp]: "ended (replicate n (Ready None))"
  by (induction n) simp_all

lemma poll_frames_Suc:
  assumes "poll_frame J L V b w = Done (p, b1, w1)" "poll_frames J L V n b1 w1 = Done (ps, b2, w2)"
  shows "poll_frames J L V (Suc n) b w = Done (p # ps, b2, w2)"
  using assms by simp

lemma frames_stream:
  fixes V :: "('s, 'h, 'e, ('b, 'c) error) view_ops"
  assumes V: "live_contract V fresh shown False q" and ascii: "redirects_ascii V"
  shows "bd_first b = None \<Longrightarrow> \<not> bd_done b \<Longrightarrow> shown I (bd_view b) page \<Longrightarrow> w_active w = None \<Longrightarrow>
    \<exists>ps b' w'. poll_frames J L V n b w = Done (ps, b', w') \<and> streamed_well J L (bd_delivery b) (bd_script b) page ps"
proof (induction n arbitrary: b w page)
  case 0
  then show ?case by simp
next
  case (Suc n)
  from live_contract.swap_law [OF V Suc.prems(3), of w]
  obtain p s w1 where p: "poll_swap V (bd_view b) w = Done (p, s, w1)" "same_frame w w1"
    "swap_ok shown I None q page p s" using Suc.prems(4) by (auto simp: polls_def)
  have w1: "w_active w1 = None" using p(2) Suc.prems(4) same_frame_world(1) by fastforce
  let ?done = "b\<lparr>bd_view := s, bd_done := True\<rparr>"
  have finish: "poll_frames J L V n ?done w1 = Done (replicate n (Ready None), ?done, w1)"
    using Suc.prems(1) by (intro frames_ended) simp_all
  show ?case
  proof (cases p rule: poll_option_cases)
    case pending
    have "\<exists>ps b' w'. poll_frames J L V n (b\<lparr>bd_view := s\<rparr>) w1 = Done (ps, b', w') \<and>
        streamed_well J L (bd_delivery b) (bd_script b) page ps"
      using Suc.IH [of "b\<lparr>bd_view := s\<rparr>" page w1] Suc.prems(1,2) p(3) pending w1 by simp
    then obtain ps b' w' where ps: "poll_frames J L V n (b\<lparr>bd_view := s\<rparr>) w1 = Done (ps, b', w')"
      "streamed_well J L (bd_delivery b) (bd_script b) page ps" by blast
    have "poll_frame J L V b w = Done (Pending, b\<lparr>bd_view := s\<rparr>, w1)"
      using p(1) pending Suc.prems(1,2) by (simp add: poll_frame_def Let_def)
    from poll_frames_Suc [OF this ps(1)] ps(2) show ?thesis by (metis streamed_well.simps(2))
  next
    case finished
    have "poll_frame J L V b w = Done (Ready None, b\<lparr>bd_view := s, bd_done := True\<rparr>, w1)"
      using p(1) finished Suc.prems(1,2) by (simp add: poll_frame_def Let_def)
    from poll_frames_Suc [OF this finish] show ?thesis
      by (intro exI [of _ "Ready None # replicate n (Ready None)"] exI [of _ ?done] exI [of _ w1]) simp
  next
    case (failed e)
    show ?thesis
    proof (cases "redirect_location e")
      case (Inl e')
      have "poll_frame J L V b w = Done (Ready (Some (Inl e')), b\<lparr>bd_view := s, bd_done := True\<rparr>, w1)"
        using p(1) failed Inl Suc.prems(1,2) by (simp add: poll_frame_def Let_def)
      from poll_frames_Suc [OF this finish] show ?thesis
        by (intro exI [of _ "Ready (Some (Inl e')) # replicate n (Ready None)"] exI [of _ ?done] exI [of _ w1]) simp
    next
      case (Inr l)
      with ascii p(1) failed have "header_to_str l \<noteq> None" unfolding redirects_ascii_def by blast
      then obtain chunk where chunk: "delivery_redirect J (bd_delivery b) l = Done chunk" using delivery_redirect_returns by blast
      have "poll_frame J L V b w = Done (Ready (Some (Inr chunk)), b\<lparr>bd_view := s, bd_done := True\<rparr>, w1)"
        using p(1) failed Inr chunk Suc.prems(1,2) by (simp add: poll_frame_def Let_def)
      from poll_frames_Suc [OF this finish] chunk show ?thesis
        by (intro exI [of _ "Ready (Some (Inr chunk)) # replicate n (Ready None)"] exI [of _ ?done] exI [of _ w1]) auto
    qed
  next
    case (swapped u)
    then have u: "home_ok None (vs_replacement u)" "has_region (vs_region u) page" "shown I s (after_swap u page)"
      using p(3) by (simp_all add: swap_fits_def)
    then obtain chunk where chunk: "delivery_swap J L (bd_delivery b) None u (bd_script b) = Done chunk"
      using delivery_swap_returns by (metis home_ok_def)
    let ?b = "b\<lparr>bd_view := s, bd_script := None\<rparr>"
    have "\<exists>ps b' w'. poll_frames J L V n ?b w1 = Done (ps, b', w') \<and>
        streamed_well J L (bd_delivery b) None (after_swap u page) ps"
      using Suc.IH [of ?b "after_swap u page" w1] Suc.prems(1,2) u(3) w1 by simp
    then obtain ps b' w' where ps: "poll_frames J L V n ?b w1 = Done (ps, b', w')"
      "streamed_well J L (bd_delivery b) None (after_swap u page) ps" by blast
    have "poll_frame J L V b w = Done (Ready (Some (Inr chunk)), ?b, w1)"
      using p(1) swapped chunk w1 Suc.prems(1,2) by (simp add: poll_frame_def Let_def)
    from poll_frames_Suc [OF this ps(1)] u(2) chunk ps(2) show ?thesis by (metis streamed_well.simps(5))
  qed
qed

lemma view_response_body: "\<exists>r. view_response chosen body status headers d = Ok r \<and> rs_body r = body"
  by (cases chosen; cases status)
    (simp_all add: view_response_def tuple_response_def into_parts_def from_parts_def response_new_def Let_def)

text \<open>C7. A live page streamed to a browser is well-behaved: while the view keeps its contract nothing of it
  panics, the body begins with the first content, every swap it sends names a region that is on the page
  when the swap arrives, the script that applies swaps goes out once and before the first of them, and after
  an error, a redirect or the end the view is not polled again.\<close>

theorem stream_swaps_land:
  fixes V :: "('s, 'h, 'e, ('b, 'c) error) view_ops"
  assumes "live_contract V fresh shown False q" "redirects_ascii V" "fresh I None s" "w_active w = None"
  shows "\<exists>p s' w'. stream_poll J L chosen request V s w = Done (p, s', w') \<and>
    (\<forall>r b n. p = Ready (Inr r) \<longrightarrow> rs_body r = StreamedBody b \<longrightarrow>
       (\<exists>content ps b' w''. poll_frames J L V (Suc n) b w' =
            Done (Ready (Some (Inr (delivery_first J (bd_delivery b)
              (fm_buf (write_pieces L content (formatter_new [])))))) # ps, b', w'') \<and>
          streamed_well J L (bd_delivery b) (if bd_delivery b = DeliverHtml then Some swap_script else None)
            (marks content) ps))"
proof -
  from live_contract.first_law [OF assms(1), of I w s] assms(3,4)
  obtain p s1 w1 where p: "poll_first V s w = Done (p, s1, w1)" "same_frame w w1" "first_ok fresh shown I None p s1"
    by (auto simp: polls_def)
  have w1: "w_active w1 = None" using p(2) assms(4) same_frame_world(1) by fastforce
  show ?thesis
  proof (cases p rule: poll_result_cases)
    case (ready f)
    let ?d = "view_response_delivery chosen request"
    let ?content = "delivery_first J ?d (fm_buf (write_pieces L (hd_pieces (vf_content f)) (formatter_new [])))"
    let ?b = "\<lparr>bd_first = Some ?content, bd_script = (if ?d = DeliverHtml then Some swap_script else None),
      bd_delivery = ?d, bd_done = False, bd_view = s1\<rparr>"
    let ?fm = "write_pieces L (hd_pieces (vf_content f)) (formatter_new [])"
    let ?body = "if vf_live f then StreamedBody ?b else WholeBody ?content"
    obtain r where vr: "view_response chosen ?body (fm_status_code ?fm) (fm_headers ?fm) ?d =
        (Ok r :: ('s page_body response, ('b, 'c) error) result)" "rs_body r = ?body"
      using view_response_body [of chosen ?body "fm_status_code ?fm" "fm_headers ?fm" ?d] by blast
    have "home_ok None (vf_content f)" using p(3) ready by simp
    with p(1) ready w1 vr(1) have r: "stream_poll J L chosen request V s w = Done (Ready (Inr r), s1, w1)"
      by (simp add: stream_poll_def handle_render_def Let_def)
    have "\<exists>ps b' w''. poll_frames J L V (Suc n) ?b w1 = Done (Ready (Some (Inr ?content)) # ps, b', w'') \<and>
        streamed_well J L ?d (bd_script ?b) (marks (hd_pieces (vf_content f))) ps" if "vf_live f" for n
    proof -
      have "shown I s1 (marks (hd_pieces (vf_content f)))" using p(3) ready that by (simp add: marks_of_def)
      then have "shown I (bd_view (?b\<lparr>bd_first := None\<rparr>)) (marks (hd_pieces (vf_content f)))" by simp
      from frames_stream [OF assms(1,2) _ _ this w1, of J L n]
      obtain ps b' w'' where "poll_frames J L V n (?b\<lparr>bd_first := None\<rparr>) w1 = Done (ps, b', w'')"
        "streamed_well J L ?d (bd_script ?b) (marks (hd_pieces (vf_content f))) ps" by auto
      moreover have "poll_frame J L V ?b w1 = Done (Ready (Some (Inr ?content)), ?b\<lparr>bd_first := None\<rparr>, w1)"
        by (simp add: poll_frame_def)
      ultimately show ?thesis using poll_frames_Suc by metis
    qed
    note run = this
    show ?thesis
    proof (rule exI [of _ "Ready (Inr r)"], rule exI [of _ s1], rule exI [of _ w1], intro conjI allI impI)
      fix r' b n
      assume b: "Ready (Inr r) = (Ready (Inr r') :: ('s page_body response, ('b, 'c) error) result poll)" "rs_body r' = StreamedBody b"
      then have "vf_live f" "b = ?b" using vr(2) by (auto split: if_splits)
      with run [OF this(1), of n] show "\<exists>content ps b' w''. poll_frames J L V (Suc n) b w1 =
            Done (Ready (Some (Inr (delivery_first J (bd_delivery b)
              (fm_buf (write_pieces L content (formatter_new [])))))) # ps, b', w'') \<and>
          streamed_well J L (bd_delivery b) (if bd_delivery b = DeliverHtml then Some swap_script else None)
            (marks content) ps" by (auto simp del: poll_frames.simps)
    qed (rule r)
  qed (use p in \<open>simp_all add: stream_poll_def\<close>)
qed

text \<open>A live region with two updates of nothing, as a page.\<close>

definition updates_view :: "(_, nat, unit, (str, unit) error) view_ops" where
  "updates_view = scope_view (live_view (emits (scope_view unit_view)))"

definition updates_page :: "(unit scope_state emit_state list, nat) live_state scope_state" where
  "updates_page = (let e = emit_new 7 \<lparr>sc_view = (), sc_buffer = Some 1, sc_polled = False\<rparr>
     in scope_new \<lparr>lv_body = [e, e], lv_region = 7, lv_stash = None\<rparr>)"

lemma emits_no_error: "emits (scope_view unit_view) ss w = Done (p, ss', w') \<Longrightarrow> p \<noteq> Ready (Inl e)"
proof (induction ss arbitrary: w)
  case Nil
  then show ?case by auto
next
  case (Cons s ss)
  then show ?case
    by (auto simp: live_drive_def drive_future_def emit_view_def scope_view_def unit_view_def in_scope_def map_state_def Let_def
        handle_seal_def handle_empty_def split: option.splits drive_input.splits if_splits)
qed

text \<open>A live region fails in a swap only where its body does.\<close>

lemma live_swap_error:
  assumes "poll_swap (live_view B) s w = Done (Ready (Inl e), s', w')"
  shows "\<exists>b w b' w'. B b w = Done (Ready (Inl e), b', w')"
proof (cases "lv_stash s")
  case None
  show ?thesis
  proof (cases "B (lv_body s) (w\<lparr>w_yield_swap := None, w_drive := Some DriveSwap\<rparr>)")
    case (Done r)
    obtain p b w1 where r: "r = (p, b, w1)" by (cases r)
    show ?thesis
      by (cases p rule: poll_result_cases; cases "w_yield_swap w1")
        (use assms None Done r in \<open>auto simp: live_view_def body_swap_def Let_def\<close>)
  qed (use assms None in \<open>simp add: live_view_def body_swap_def Let_def\<close>)
qed (use assms in \<open>simp add: live_view_def\<close>)

lemma updates_redirects: "redirects_ascii updates_view"
proof -
  have "p \<noteq> Ready (Inl e)" if "poll_swap updates_view s w = Done (p, s', w')" for p s w s' w' e
  proof
    assume "p = Ready (Inl e)"
    with that obtain v where "poll_swap (live_view (emits (scope_view unit_view))) (sc_view s) w = Done (Ready (Inl e), v, w')"
      by (auto simp: updates_view_def scope_view_def map_state_Done)
    from live_swap_error [OF this] obtain b u b' u' where
      "emits (scope_view unit_view) b u = (Done (Ready (Inl e), b', u') :: (_ \<times> _ \<times> (nat, unit) world) outcome)"
      by (elim exE)
    from emits_no_error [OF this] show False by blast
  qed
  then show ?thesis unfolding redirects_ascii_def by metis
qed

lemma updates_contract: "live_contract updates_view
    (scope_fresh (live_fresh (emits_fresh (scope_sealed (\<lambda>I a s. True)))))
    (scope_shown (live_shown (emits_shown (scope_sealed (\<lambda>I a s. True)) (scope_shown (\<lambda>I s page. page = []))))) False True"
  unfolding updates_view_def by (rule scope_contract [OF live_emits_contract])

lemma updates_fresh: "scope_fresh (live_fresh (emits_fresh (scope_sealed (\<lambda>I a s. True)))) {7} None updates_page"
  unfolding updates_page_def Let_def scope_fresh_def scope_new_def live_fresh_def
  by (simp add: emits_fresh_def emits_waiting_def emit_new_def scope_sealed_def) (rule exI [of _ "{}"], simp)

definition field_values :: json where
  "field_values fs = concat (map snd fs)"

definition silent_leaf :: "nat \<Rightarrow> formatter \<Rightarrow> formatter" where
  "silent_leaf n f = f"

theorem stream_swaps_land_witness:
  "\<exists>p s' w'. stream_poll field_values silent_leaf None None updates_view updates_page quiet_world = Done (p, s', w') \<and>
    (\<forall>r b n. p = Ready (Inr r) \<longrightarrow> rs_body r = StreamedBody b \<longrightarrow>
       (\<exists>content ps b' w''. poll_frames field_values silent_leaf updates_view (Suc n) b w' =
            Done (Ready (Some (Inr (delivery_first field_values (bd_delivery b)
              (fm_buf (write_pieces silent_leaf content (formatter_new [])))))) # ps, b', w'') \<and>
          streamed_well field_values silent_leaf (bd_delivery b) (if bd_delivery b = DeliverHtml then Some swap_script else None)
            (marks content) ps))"
  using stream_swaps_land [OF updates_contract updates_redirects updates_fresh, of quiet_world field_values silent_leaf None None]
  by (simp add: quiet_world_def del: poll_frames.simps)

subsection \<open>What a client reads\<close>

text \<open>A double-quoted JavaScript string up to its end, for the escapes in use: what it means and what follows.\<close>

fun js_string :: "str \<Rightarrow> (str \<times> str) option" where
  "js_string [] = None"
| "js_string (c # cs) =
     (if c = CHR 0x22 then Some ([], cs)
      else if c = newline then None
      else if c = CHR 0x5C
        then (case cs of
            [] \<Rightarrow> None
          | e # cs \<Rightarrow>
              if e = CHR 0x5C \<or> e = CHR 0x22 then map_option (\<lambda>(s, r). (e # s, r)) (js_string cs)
              else if e = CHR ''x''
                then (case cs of
                    h # l # cs \<Rightarrow> if [h, l] = ''3C'' then map_option (\<lambda>(s, r). (CHR ''<'' # s, r)) (js_string cs) else None
                  | _ \<Rightarrow> None)
              else None)
      else map_option (\<lambda>(s, r). (c # s, r)) (js_string cs))"

lemma js_escape_reads: "newline \<notin> set cs \<Longrightarrow> js_string (js_escape cs @ CHR 0x22 # rest) = Some (cs, rest)"
  by (induction cs) (auto simp: newline_def)

lemma js_escape_no_tag: "CHR ''<'' \<notin> set (js_escape cs)"
  by (induction cs) auto

text \<open>C37. A redirect after the page began navigates to its location whatever that is: the script's string means exactly
  the location, ends where the script ends it, and holds no \<^verbatim>\<open><\<close> that could close the script element.\<close>

theorem redirect_script_exact:
  assumes "redirect_script location = Done script"
  shows "\<exists>body. script = ''<script>window.location.replace('' @ CHR 0x22 # body @ CHR 0x22 # '')</script>'' \<and>
    js_string (body @ CHR 0x22 # '')</script>'') = Some (location, '')</script>'') \<and> CHR ''<'' \<notin> set body"
proof -
  have s: "header_to_str location = Some location"
    "script = ''<script>window.location.replace('' @ [CHR 0x22] @ js_escape location @ [CHR 0x22] @ '')</script>''"
    using assms by (auto simp: redirect_script_def header_to_str_def split: option.splits if_splits)
  have "newline \<notin> set location"
    using s(1) by (auto simp: header_to_str_def newline_def list_all_iff Let_def split: if_splits)
  then show ?thesis using s(2) js_escape_reads js_escape_no_tag by (intro exI [of _ "js_escape location"]) simp
qed

theorem redirect_script_exact_witness:
  "\<exists>body. the (case redirect_script ''/a<b'' of Done s \<Rightarrow> Some s | Panic \<Rightarrow> None) =
      ''<script>window.location.replace('' @ CHR 0x22 # body @ CHR 0x22 # '')</script>'' \<and>
    js_string (body @ CHR 0x22 # '')</script>'') = Some (''/a<b'', '')</script>'') \<and> CHR ''<'' \<notin> set body"
proof -
  obtain s where s: "redirect_script ''/a<b'' = Done s"
    by (simp add: redirect_script_def header_to_str_def)
  from redirect_script_exact [OF s] s show ?thesis by simp
qed

lemma split_on_line: "c \<notin> set xs \<Longrightarrow> split_on ((=) c) (xs @ c # ys) = xs # split_on ((=) c) ys"
  by (induction xs) auto

text \<open>The chunks of framed delivery, joined, split again at line ends into the objects that went out, as long as
  the JSON of an object is one line.\<close>

theorem frames_are_lines:
  assumes "\<forall>x. newline \<notin> set (J x)"
  shows "split_on ((=) newline) (concat (map (to_line J) fs)) = map (\<lambda>f. J (frame_fields f)) fs @ [[]]"
  using assms by (induction fs) (simp_all add: to_line_def split_on_line)

definition one_line :: json where
  "one_line fs = filter (\<lambda>c. c \<noteq> newline) (concat (map snd fs))"

theorem frames_are_lines_witness:
  "split_on ((=) newline) (concat (map (to_line one_line) [FrameSnapshot ''<p>'', FrameRedirect ''/b''])) =
     map (\<lambda>f. one_line (frame_fields f)) [FrameSnapshot ''<p>'', FrameRedirect ''/b''] @ [[]]"
  by (rule frames_are_lines) (simp add: one_line_def)

subsection \<open>The script in the browser\<close>

fun last_pos :: "('a \<Rightarrow> bool) \<Rightarrow> 'a list \<Rightarrow> nat option" where
  "last_pos P [] = None"
| "last_pos P (x # xs) = (case last_pos P xs of Some i \<Rightarrow> Some (Suc i) | None \<Rightarrow> if P x then Some 0 else None)"

text \<open>\<^verbatim>\<open>topcoat.swap\<close> on the nodes of the element the region is in: the walk keeps the last comment of each kind, the
  nodes after the first go up to the second, or to the end where that is not behind it, and the template's
  nodes come in before the second.\<close>

definition client_swap :: "region_id \<Rightarrow> 'h piece list \<Rightarrow> 'h piece list \<Rightarrow> 'h piece list" where
  "client_swap r new nodes =
     (case (last_pos ((=) (Marker (RegionStart r))) nodes, last_pos ((=) (Marker (RegionEnd r))) nodes) of
        (Some i, Some j) \<Rightarrow>
          if i < j then take (Suc i) nodes @ new @ drop j nodes
          else take j nodes @ new @ drop j (take (Suc i) nodes)
      | _ \<Rightarrow> nodes)"

lemma last_pos_append: "last_pos P (xs @ ys) =
    (case last_pos P ys of Some i \<Rightarrow> Some (length xs + i) | None \<Rightarrow> last_pos P xs)"
  by (induction xs) (auto split: option.splits)

lemma last_pos_None: "\<not> (\<exists>x \<in> set xs. P x) \<Longrightarrow> last_pos P xs = None"
  by (induction xs) auto

lemma marks_split: "marks ps = xs @ ys \<Longrightarrow> \<exists>qs rs. ps = qs @ rs \<and> marks qs = xs \<and> marks rs = ys"
proof (induction ps arbitrary: xs rule: marks.induct)
  case 1
  then show ?case by simp
next
  case (2 x ps)
  then obtain qs rs where "ps = qs @ rs" "marks qs = xs" "marks rs = ys" by fastforce
  then show ?case by (intro exI [of _ "Leaf x # qs"] exI [of _ rs]) simp
next
  case (3 m ps)
  show ?case
  proof (cases xs)
    case Nil
    with 3 show ?thesis by (intro exI [of _ "[]"] exI [of _ "Marker m # ps"]) simp
  next
    case (Cons x xs')
    with 3 obtain qs rs where "ps = qs @ rs" "marks qs = xs'" "marks rs = ys" by fastforce
    with 3 Cons show ?thesis by (intro exI [of _ "Marker m # qs"] exI [of _ rs]) simp
  qed
qed

lemma marks_first: "marks ps = m # ys \<Longrightarrow> \<exists>qs rs. ps = qs @ Marker m # rs \<and> marks qs = [] \<and> marks rs = ys"
proof (induction ps rule: marks.induct)
  case (2 x ps)
  then obtain qs rs where "ps = qs @ Marker m # rs" "marks qs = []" "marks rs = ys" by auto
  then show ?case by (intro exI [of _ "Leaf x # qs"] exI [of _ rs]) simp
next
  case (3 m' ps)
  then show ?case by (intro exI [of _ "[]"] exI [of _ ps]) simp
qed simp

lemma marker_in_marks: "Marker m \<in> set ps \<longleftrightarrow> m \<in> set (marks ps)"
  by (induction ps rule: marks.induct) auto

lemma no_marker: "r \<notin> ids_of (marks ps) \<Longrightarrow> Marker (RegionStart r) \<notin> set ps \<and> Marker (RegionEnd r) \<notin> set ps"
  using not_in_ids marker_in_marks by blast

text \<open>C33. Where the region is on the page, the script that ships with a streamed page does to the page what the server
  takes a swap to do: the nodes between the region's comments are replaced and nothing else changes.\<close>

theorem script_swaps_region:
  assumes "has_region r (marks nodes)"
  shows "marks (client_swap r new nodes) = swap_in r (marks new) (marks nodes) \<and>
    (\<exists>a m b. nodes = a @ Marker (RegionStart r) # m @ Marker (RegionEnd r) # b \<and>
      client_swap r new nodes = a @ Marker (RegionStart r) # new @ Marker (RegionEnd r) # b)"
proof -
  obtain x m y where xy: "marks nodes = x @ RegionStart r # m @ RegionEnd r # y" "r \<notin> ids_of x" "r \<notin> ids_of m" "r \<notin> ids_of y"
    using assms by (auto simp: has_region_def)
  obtain A R where A: "nodes = A @ R" "marks A = x" "marks R = RegionStart r # m @ RegionEnd r # y"
    using marks_split [OF xy(1)] by blast
  obtain A' R' where A': "R = A' @ Marker (RegionStart r) # R'" "marks A' = []" "marks R' = m @ RegionEnd r # y"
    using marks_first [OF A(3)] by blast
  obtain M Q where M: "R' = M @ Q" "marks M = m" "marks Q = RegionEnd r # y" using marks_split [OF A'(3)] by blast
  obtain M' B where B: "Q = M' @ Marker (RegionEnd r) # B" "marks M' = []" "marks B = y" using marks_first [OF M(3)] by blast
  let ?a = "A @ A'" and ?m = "M @ M'"
  have nodes: "nodes = ?a @ Marker (RegionStart r) # ?m @ Marker (RegionEnd r) # B" using A(1) A'(1) M(1) B(1) by simp
  have free: "Marker (RegionStart r) \<notin> set ?m" "Marker (RegionStart r) \<notin> set B" "Marker (RegionEnd r) \<notin> set B"
    using no_marker [of r ?m] no_marker [of r B] M(2) B(2,3) xy(3,4) by simp_all
  have start: "last_pos ((=) (Marker (RegionStart r))) nodes = Some (length ?a)"
    using free unfolding nodes by (simp add: last_pos_append last_pos_None del: append_assoc)
  have finish: "last_pos ((=) (Marker (RegionEnd r))) nodes = Some (length ?a + Suc (length ?m))"
    using free unfolding nodes by (simp add: last_pos_append last_pos_None del: append_assoc)
  have swap: "client_swap r new nodes = ?a @ Marker (RegionStart r) # new @ Marker (RegionEnd r) # B"
    unfolding client_swap_def start finish by (simp add: nodes)
  moreover have "marks (client_swap r new nodes) = swap_in r (marks new) (marks nodes)"
    unfolding swap using xy A(2) A'(2) B(3) by (simp add: swap_in_region)
  ultimately show ?thesis using nodes by blast
qed

theorem script_swaps_region_witness:
  "marks (client_swap 7 [Leaf (2::nat)] [Leaf 0, Marker (RegionStart 7), Leaf 1, Marker (RegionEnd 7)]) =
      swap_in 7 (marks [Leaf (2::nat)]) (marks [Leaf (0::nat), Marker (RegionStart 7), Leaf 1, Marker (RegionEnd 7)]) \<and>
    (\<exists>a m b. [Leaf 0, Marker (RegionStart 7), Leaf 1, Marker (RegionEnd 7)] =
        a @ Marker (RegionStart 7) # m @ Marker (RegionEnd 7) # b \<and>
      client_swap 7 [Leaf (2::nat)] [Leaf 0, Marker (RegionStart 7), Leaf 1, Marker (RegionEnd 7)] =
        a @ Marker (RegionStart 7) # [Leaf 2] @ Marker (RegionEnd 7) # b)"
proof (rule script_swaps_region)
  show "has_region 7 (marks [Leaf (0::nat), Marker (RegionStart 7), Leaf 1, Marker (RegionEnd 7)])"
    using region_around(1) [of 7 "[]"] by simp
qed

subsection \<open>Region ids in the markup\<close>

lemma hex_digits_exact: "r < 16 ^ n \<Longrightarrow> s < 16 ^ n \<Longrightarrow> \<forall>i < n. r div 16 ^ i mod 16 = s div 16 ^ i mod (16::nat) \<Longrightarrow> r = s"
proof (induction n arbitrary: r s)
  case 0
  then show ?case by simp
next
  case (Suc n)
  have "r div 16 div 16 ^ i mod 16 = s div 16 div 16 ^ i mod 16" if "i < n" for i
    using Suc.prems(3) that by (metis Suc_less_eq div_mult2_eq power_Suc)
  then have "r div 16 = s div 16" using Suc.IH [of "r div 16" "s div 16"] Suc.prems(1,2) by simp
  moreover have "r mod 16 = s mod 16" using Suc.prems(3) by (metis div_by_1 power_0 zero_less_Suc)
  ultimately show ?case by (metis mod_mult_div_eq)
qed

lemma hex_digit_inj: "a < 16 \<Longrightarrow> b < 16 \<Longrightarrow> hex_digit a = hex_digit b \<Longrightarrow> a = b"
proof -
  assume a: "a < 16" "b < 16" "hex_digit a = hex_digit b"
  have "of_char (hex_digit k) = (if k < 10 then 48 + k else 87 + k)" if "k < 16" for k :: nat
    using that by (simp add: hex_digit_def)
  with a have "(if a < 10 then 48 + a else 87 + a) = (if b < 10 then 48 + b else 87 + b)" by metis
  with a(1,2) show "a = b" by (auto split: if_splits)
qed

text \<open>The id of a region is written as 32 lower-case hexadecimal digits, and two ids of 128 bits are written alike
  only if they are the same: a swap's script and the comments of a region agree on exactly that region.\<close>

theorem region_ids_exact:
  "length (region_display r) = 32 \<and> set (region_display r) \<subseteq> set ''0123456789abcdef'' \<and>
    (\<forall>s < 2 ^ 128. r < 2 ^ 128 \<longrightarrow> region_display r = region_display s \<longrightarrow> r = s)"
proof (intro conjI allI impI)
  show "length (region_display r) = 32" by (simp add: region_display_def)
  have "list_all (\<lambda>k. hex_digit k \<in> set ''0123456789abcdef'') [0..<16]" by code_simp
  then have "hex_digit k \<in> set ''0123456789abcdef''" if "k < 16" for k
    using that unfolding list_all_iff by (elim ballE) (assumption, simp only: set_upt atLeastLessThan_iff le0 simp_thms)
  then show "set (region_display r) \<subseteq> set ''0123456789abcdef''" by (auto simp: region_display_def simp del: set_simps)
  fix s
  assume s: "s < 2 ^ 128" "r < 2 ^ 128" "region_display r = region_display s"
  have "r div 16 ^ i mod 16 = s div 16 ^ i mod 16" if "i < 32" for i
  proof -
    have "i \<in> set (rev [0..<32])" using that by simp
    with s(3) have "hex_digit (r div 16 ^ i mod 16) = hex_digit (s div 16 ^ i mod 16)" by (auto simp: region_display_def)
    then show ?thesis by (intro hex_digit_inj) simp_all
  qed
  moreover have "(16::nat) ^ 32 = 2 ^ 128" by simp
  ultimately show "r = s" using hex_digits_exact [of r 32 s] s(1,2) by simp
qed

theorem region_ids_exact_witness:
  "region_display 255 \<noteq> region_display 256"
proof
  assume "region_display 255 = region_display 256"
  moreover have "\<forall>s < 2 ^ 128. (255::nat) < 2 ^ 128 \<longrightarrow> region_display 255 = region_display s \<longrightarrow> 255 = s"
    using region_ids_exact [of 255] by (elim conjE)
  ultimately have "(255::nat) = 256" by (elim allE [of _ 256]) simp
  then show False by simp
qed

end
