(* ===== verification/Mail_Text.thy ===== *)
theory Mail_Text
  imports Html_Escape
begin

text \<open>
  The plain-text body of a mail, derived from its HTML (\<^verbatim>\<open>crates/topcoat-mail/src/text.rs\<close>).  A string is
  its bytes in UTF-8; \<open>uchars\<close> reads its characters.
\<close>

subsection \<open>Characters of a string\<close>

definition is_cont :: "char \<Rightarrow> bool" where
  "is_cont b \<longleftrightarrow> 128 \<le> (of_char b :: nat) \<and> (of_char b :: nat) < 192"

function uchars :: "str \<Rightarrow> str list" where
  "uchars [] = []"
| "uchars (b # bs) = (b # takeWhile is_cont bs) # uchars (dropWhile is_cont bs)"
  by pat_completeness auto
termination by (relation "measure length") (auto simp: le_imp_less_Suc length_dropWhile_le)

text \<open>\<^verbatim>\<open>char::is_whitespace\<close>: the characters with the Unicode property White_Space.\<close>

definition white_space :: "str \<Rightarrow> bool" where
  "white_space c \<longleftrightarrow> c \<in> set (map encode_utf8 ([9..<14] @ [32, 133, 160, 5760] @ [8192..<8203] @ [8232, 8233, 8239, 8287, 12288]))"

definition trim_start :: "str \<Rightarrow> str" where
  "trim_start s = concat (dropWhile white_space (uchars s))"

definition trim_end :: "str \<Rightarrow> str" where
  "trim_end s = concat (rev (dropWhile white_space (rev (uchars s))))"

definition ends_with_space :: "str \<Rightarrow> bool" where
  "ends_with_space s \<longleftrightarrow> s \<noteq> [] \<and> white_space (last (uchars s))"

text \<open>\<^verbatim>\<open>str::find\<close> for an ASCII character and for a property of characters: a byte index.\<close>

fun byte_index :: "char \<Rightarrow> str \<Rightarrow> nat option" where
  "byte_index c [] = None"
| "byte_index c (b # bs) = (if b = c then Some 0 else map_option Suc (byte_index c bs))"

fun chars_index :: "(str \<Rightarrow> bool) \<Rightarrow> str list \<Rightarrow> nat option" where
  "chars_index P [] = None"
| "chars_index P (c # cs) = (if P c then Some 0 else map_option (\<lambda>i. length c + i) (chars_index P cs))"

definition index_where :: "(str \<Rightarrow> bool) \<Rightarrow> str \<Rightarrow> nat" where
  "index_where P s = unwrap_or (length s) (chars_index P (uchars s))"

text \<open>Slicing: in range and between characters, or a panic.\<close>

definition boundary :: "nat \<Rightarrow> str \<Rightarrow> bool" where
  "boundary i s \<longleftrightarrow> i = length s \<or> i < length s \<and> \<not> is_cont (s ! i)"

definition str_slice :: "nat \<Rightarrow> nat \<Rightarrow> str \<Rightarrow> str outcome" where
  "str_slice i j s = (if i \<le> j \<and> j \<le> length s \<and> boundary i s \<and> boundary j s then Done (take (j - i) (drop i s)) else Panic)"

subsection \<open>Character entities\<close>

definition hex_value :: "char \<Rightarrow> nat option" where
  "hex_value c = (let n = (of_char c :: nat) in
     if 48 \<le> n \<and> n < 58 then Some (n - 48)
     else if 97 \<le> n \<and> n < 103 then Some (n - 87)
     else if 65 \<le> n \<and> n < 71 then Some (n - 55)
     else None)"

fun radix_loop :: "nat \<Rightarrow> nat \<Rightarrow> str \<Rightarrow> nat option" where
  "radix_loop radix v [] = Some v"
| "radix_loop radix v (c # cs) = (case hex_value c of
     None \<Rightarrow> None
   | Some d \<Rightarrow> if d < radix \<and> v * radix + d < 2 ^ 32 then radix_loop radix (v * radix + d) cs else None)"

text \<open>\<^verbatim>\<open>u32::from_str_radix\<close>: a plus sign may stand before the digits.\<close>

definition u32_from_str :: "nat \<Rightarrow> str \<Rightarrow> nat option" where
  "u32_from_str radix s =
     (if s = [] \<or> s = ''+'' \<or> s = ''-'' then None
      else radix_loop radix 0 (if hd s = CHR ''+'' then tl s else s))"

definition char_from_u32 :: "nat \<Rightarrow> nat option" where
  "char_from_u32 n = (if n < 1114112 \<and> \<not> (55296 \<le> n \<and> n < 57344) then Some n else None)"

definition decode_entity :: "str \<Rightarrow> nat option" where
  "decode_entity entity =
     (if entity = ''amp'' then Some 38
      else if entity = ''lt'' then Some 60
      else if entity = ''gt'' then Some 62
      else if entity = ''quot'' then Some 34
      else if entity = ''apos'' then Some 39
      else if entity = ''nbsp'' then Some 32
      else let hex = (case strip_prefix ''#x'' entity of Some h \<Rightarrow> Some h | None \<Rightarrow> strip_prefix ''#X'' entity)
           in Option.bind (case hex of Some h \<Rightarrow> u32_from_str 16 h
                 | None \<Rightarrow> Option.bind (strip_prefix ''#'' entity) (u32_from_str 10)) char_from_u32)"

definition entity_at :: "str \<Rightarrow> (nat \<times> nat) option" where
  "entity_at rest = (case byte_index (CHR '';'') rest of
       None \<Rightarrow> None
     | Some stop \<Rightarrow> if stop \<le> 32 then map_option (\<lambda>c. (c, stop)) (decode_entity (take (stop - 1) (drop 1 rest))) else None)"

lemma byte_index_Some: "byte_index c s = Some i \<Longrightarrow> i < length s \<and> s ! i = c \<and> c \<notin> set (take i s)"
  by (induction s arbitrary: i) (auto split: if_splits)

lemma byte_index_None: "byte_index c s = None \<longleftrightarrow> c \<notin> set s"
  by (induction s) auto

function decode_loop :: "str \<Rightarrow> str" where
  "decode_loop s = (case byte_index (CHR ''&'') s of
       None \<Rightarrow> s
     | Some i \<Rightarrow> take i s @ (case entity_at (drop i s) of
           Some (c, stop) \<Rightarrow> encode_utf8 c @ decode_loop (drop (stop + 1) (drop i s))
         | None \<Rightarrow> CHR ''&'' # decode_loop (drop 1 (drop i s))))"
  by pat_completeness auto
termination by (relation "measure length") (auto dest: byte_index_Some)

declare decode_loop.simps [simp del]

definition decode :: "str \<Rightarrow> str" where
  "decode raw = (if CHR ''&'' \<in> set raw then decode_loop raw else raw)"

subsection \<open>Attributes\<close>

text \<open>The value of an attribute, and what follows it.\<close>

definition read_value :: "str \<Rightarrow> str \<times> str" where
  "read_value after =
     (case after of
        open # value \<Rightarrow>
          if open = CHR 0x22 \<or> open = CHR 0x27
          then (case byte_index open value of
              Some stop \<Rightarrow> (take stop value, drop (stop + 1) value)
            | None \<Rightarrow> (value, []))
          else (let stop = index_where (\<lambda>c. white_space c \<or> c = ''>'') after in (take stop after, drop stop after))
      | [] \<Rightarrow> ([], []))"

lemma concat_uchars [simp]: "concat (uchars s) = s"
  by (induction s rule: uchars.induct) simp_all

lemma length_trim_start: "length (trim_start s) \<le> length s"
proof -
  have "s = concat (takeWhile white_space (uchars s)) @ trim_start s"
    unfolding trim_start_def by (metis concat_append concat_uchars takeWhile_dropWhile_id)
  then show ?thesis by (metis length_append le_add2)
qed

lemma chars_index_Some: "chars_index P cs = Some i \<Longrightarrow> i \<le> length (concat cs)"
  by (induction cs arbitrary: i) (auto split: if_splits)

lemma read_value_shorter: "length (snd (read_value after)) \<le> length after"
  by (auto simp: read_value_def Let_def split: list.splits option.splits)

lemma index_where_0: "index_where P (b # bs) = 0 \<longleftrightarrow> P (b # takeWhile is_cont bs)"
  by (auto simp: index_where_def unwrap_or_def split: option.splits)

lemma uchars_dropWhile: "uchars (concat (dropWhile P (uchars s))) = dropWhile P (uchars s)"
proof (induction s rule: uchars.induct)
  case (2 b bs)
  then show ?case by (cases "P (b # takeWhile is_cont bs)") simp_all
qed simp

lemma uchars_trim_start: "uchars (trim_start s) = dropWhile white_space (uchars s)"
  by (simp add: trim_start_def uchars_dropWhile)

lemma trim_start_idem [simp]: "trim_start (trim_start s) = trim_start s"
  unfolding trim_start_def [of "trim_start s"] uchars_trim_start by (simp add: trim_start_def)

lemma trim_start_hd: "trim_start s = b # bs \<Longrightarrow> \<not> white_space (b # takeWhile is_cont bs)"
proof
  assume s: "trim_start s = b # bs" "white_space (b # takeWhile is_cont bs)"
  then have "dropWhile white_space (uchars s) = (b # takeWhile is_cont bs) # uchars (dropWhile is_cont bs)"
    using uchars_trim_start [of s] by simp
  with s(2) show False by (metis hd_dropWhile list.distinct(1) list.sel(1))
qed

text \<open>A name of no length stands before an equals sign, so every turn takes something off the list.\<close>

lemma attribute_name_shorter:
  assumes "trim_start s \<noteq> []" "stop = index_where (\<lambda>c. white_space c \<or> c = ''='') (trim_start s)"
    "strip_prefix ''='' (trim_start (drop stop (trim_start s))) = None"
  shows "0 < stop"
proof (rule ccontr)
  assume "\<not> 0 < stop"
  obtain b bs where b: "trim_start s = b # bs" using assms(1) by (cases "trim_start s") auto
  with \<open>\<not> 0 < stop\<close> assms(2) have "b # takeWhile is_cont bs = ''=''"
    using index_where_0 [of "\<lambda>c. white_space c \<or> c = ''=''" b bs] trim_start_hd [OF b] by auto
  then show False using \<open>\<not> 0 < stop\<close> assms(3) b trim_start_idem [of s] by simp
qed

function attribute :: "str \<Rightarrow> str \<Rightarrow> str option" where
  "attribute name attributes =
     (let rest = trim_start attributes
      in if rest = [] \<or> rest = ''/'' then None
         else let stop = index_where (\<lambda>c. white_space c \<or> c = ''='') rest
              in case strip_prefix ''='' (trim_start (drop stop rest)) of
                   None \<Rightarrow> attribute name (drop stop rest)
                 | Some after \<Rightarrow>
                     let (value, after) = read_value (trim_start after)
                     in if eq_ignore_ascii_case (take stop rest) name then Some value else attribute name after)"
  by pat_completeness auto
termination
proof (relation "measure (\<lambda>(_, s). length s)", goal_cases)
  case (2 name attributes rest stop)
  then have "0 < stop" using attribute_name_shorter [of attributes stop] by simp
  moreover have "0 < length (trim_start attributes)" "length (trim_start attributes) \<le> length attributes"
    using 2 length_trim_start by auto
  ultimately have "length (drop stop (trim_start attributes)) < length attributes" unfolding length_drop by linarith
  then show ?case using 2(1) by simp
next
  case (3 name attributes rest stop after v x after')
  from 3 have "length after < length (trim_start (drop stop rest))"
    by (auto split: list.splits if_splits)
  also have "\<dots> \<le> length attributes"
    using 3(1) length_trim_start [of "drop stop rest"] length_trim_start [of attributes] by simp
  finally have "length after < length attributes" .
  moreover have "length after' \<le> length after"
    using 3 read_value_shorter [of "trim_start after"] length_trim_start [of after] by (metis le_trans snd_conv)
  ultimately show ?case by simp
qed simp

declare attribute.simps [simp del]


subsection \<open>The converter\<close>

text \<open>The stacks have their tops first.\<close>

record converter =
  cv_out :: str
  cv_breaks :: nat
  cv_space :: bool
  cv_hidden :: nat
  cv_links :: "(nat \<times> str) list"
  cv_lists :: "32 word option list"

definition converter_new :: converter where
  "converter_new = \<lparr>cv_out = [], cv_breaks = 0, cv_space = False, cv_hidden = 0, cv_links = [], cv_lists = []\<rparr>"

definition break_line :: "nat \<Rightarrow> converter \<Rightarrow> converter" where
  "break_line count c = (if cv_out c \<noteq> [] then c\<lparr>cv_breaks := max (cv_breaks c) count\<rparr> else c)"

definition flush :: "converter \<Rightarrow> converter" where
  "flush c =
     (let owed = (if cv_breaks c > 0 then replicate (cv_breaks c) (CHR 0x0A)
                  else if cv_space c \<and> cv_out c \<noteq> [] \<and> \<not> ends_with_space (cv_out c) then '' '' else [])
      in c\<lparr>cv_out := cv_out c @ owed, cv_breaks := 0, cv_space := False\<rparr>)"

definition push_out :: "str \<Rightarrow> converter \<Rightarrow> converter" where
  "push_out s c = c\<lparr>cv_out := cv_out c @ s\<rparr>"

fun text_loop :: "str list \<Rightarrow> converter \<Rightarrow> converter" where
  "text_loop [] c = c"
| "text_loop (k # ks) c = text_loop ks (if white_space k then c\<lparr>cv_space := True\<rparr> else push_out k (flush c))"

definition convert_text :: "str \<Rightarrow> converter \<Rightarrow> converter" where
  "convert_text raw c = (if cv_hidden c > 0 then c else text_loop (uchars (decode raw)) c)"

definition hidden_names :: "str list" where
  "hidden_names = [''head'', ''style'', ''script'', ''template'', ''svg'', ''title'']"

definition block_names :: "str list" where
  "block_names = [''p'', ''h1'', ''h2'', ''h3'', ''h4'', ''h5'', ''h6'', ''blockquote'', ''pre'', ''table'',
     ''figure'', ''address'', ''hr'']"

definition line_names :: "str list" where
  "line_names = [''div'', ''section'', ''article'', ''header'', ''footer'', ''main'', ''nav'', ''aside'',
     ''form'', ''fieldset'', ''tr'', ''td'', ''th'', ''caption'', ''figcaption'', ''dt'', ''dd'',
     ''details'', ''summary'']"

definition separate :: "str \<Rightarrow> converter \<Rightarrow> converter" where
  "separate name c =
     (if name \<in> set block_names then break_line 2 c
      else if name \<in> set line_names then break_line 1 c
      else c)"

text \<open>The number of an item is a \<^verbatim>\<open>u32\<close>; it wraps where overflow is not checked.\<close>

definition list_item :: "converter \<Rightarrow> converter" where
  "list_item c =
     (case cv_lists c of
        Some number # outer \<Rightarrow>
          (push_out (decimal (unat (number + 1)) @ ''. '') (flush (c\<lparr>cv_lists := Some (number + 1) # outer\<rparr>)))\<lparr>cv_space := False\<rparr>
      | _ \<Rightarrow> (push_out ''- '' (flush c))\<lparr>cv_space := False\<rparr>)"

definition open_tag :: "str \<Rightarrow> str \<Rightarrow> converter \<Rightarrow> converter" where
  "open_tag name attributes c =
     (if name \<in> set hidden_names then c\<lparr>cv_hidden := cv_hidden c + 1\<rparr>
      else if cv_hidden c > 0 then c
      else if name = ''br'' then break_line 1 c
      else if name = ''ul'' then (break_line 2 c)\<lparr>cv_lists := None # cv_lists c\<rparr>
      else if name = ''ol'' then (break_line 2 c)\<lparr>cv_lists := Some 0 # cv_lists c\<rparr>
      else if name = ''li'' then list_item (break_line 1 c)
      else if name = ''a'' then
        c\<lparr>cv_links := (length (cv_out c), decode (unwrap_or [] (attribute ''href'' attributes))) # cv_links c\<rparr>
      else if name = ''img'' then (case attribute ''alt'' attributes of Some alt \<Rightarrow> convert_text alt c | None \<Rightarrow> c)
      else separate name c)"

definition close_link :: "converter \<Rightarrow> converter outcome" where
  "close_link c =
     (case cv_links c of
        [] \<Rightarrow> Done c
      | (start, target) # links \<Rightarrow>
          let c = c\<lparr>cv_links := links\<rparr>
          in if starts_with_str target ''https://'' \<or> starts_with_str target ''http://''
             then bind_outcome (str_slice start (length (cv_out c)) (cv_out c)) (\<lambda>label.
               Done (if trim_start (trim_end label) \<noteq> target then push_out ('' ('' @ target @ '')'') c else c))
             else Done c)"

definition close_tag :: "str \<Rightarrow> converter \<Rightarrow> converter outcome" where
  "close_tag name c =
     (if name \<in> set hidden_names then Done (c\<lparr>cv_hidden := cv_hidden c - 1\<rparr>)
      else if cv_hidden c > 0 then Done c
      else if name = ''ul'' \<or> name = ''ol'' then Done (break_line 2 (c\<lparr>cv_lists := tl (cv_lists c)\<rparr>))
      else if name = ''li'' then Done (break_line 1 c)
      else if name = ''a'' then close_link c
      else Done (separate name c))"

text \<open>\<^verbatim>\<open>tag_end\<close>: the quote that is open, the rest of the string and the index it starts at.\<close>

fun tag_end :: "char option \<Rightarrow> str \<Rightarrow> nat \<Rightarrow> nat option" where
  "tag_end quote [] i = None"
| "tag_end quote (c # cs) i =
     (if quote = None \<and> c = CHR ''>'' then Some i
      else if quote = None \<and> (c = CHR 0x22 \<or> c = CHR 0x27) then tag_end (Some c) cs (i + 1)
      else if quote = Some c then tag_end None cs (i + 1)
      else tag_end quote cs (i + 1))"

definition after_find :: "str \<Rightarrow> str \<Rightarrow> str outcome" where
  "after_find p s = (case find_str p s of None \<Rightarrow> Done [] | Some i \<Rightarrow> str_slice (i + length p) (length s) s)"

definition tag_name_end :: "str \<Rightarrow> nat" where
  "tag_name_end s = length (takeWhile is_ascii_alphanumeric s)"

definition convert_tag :: "str \<Rightarrow> converter \<Rightarrow> (converter \<times> str) outcome" where
  "convert_tag s c =
     (case strip_prefix ''<!--'' s of
        Some comment \<Rightarrow> bind_outcome (after_find ''-->'' comment) (\<lambda>rest. Done (c, rest))
      | None \<Rightarrow>
          if starts_with_str s ''<!'' \<or> starts_with_str s ''<?''
          then bind_outcome (after_find ''>'' s) (\<lambda>rest. Done (c, rest))
          else (case tag_end None s 0 of
              None \<Rightarrow> Done (c, [])
            | Some stop \<Rightarrow>
                bind_outcome (str_slice 1 stop s) (\<lambda>tag.
                bind_outcome (str_slice (stop + 1) (length s) s) (\<lambda>rest.
                  let (closing, tag) = (case strip_prefix ''/'' tag of Some t \<Rightarrow> (True, t) | None \<Rightarrow> (False, tag));
                      name = to_ascii_lowercase (take (tag_name_end tag) tag);
                      attributes = drop (tag_name_end tag) tag
                  in if closing then bind_outcome (close_tag name c) (\<lambda>c. Done (c, rest))
                     else Done (open_tag name attributes c, rest)))))"

definition convert_finish :: "converter \<Rightarrow> str" where
  "convert_finish c = trim_end (cv_out c)"

lemma slice_Done: "str_slice i j s = Done r \<Longrightarrow> r = take (j - i) (drop i s) \<and> i \<le> j \<and> j \<le> length s"
  by (simp add: str_slice_def split: if_splits)

lemma after_find_shorter: "after_find p s = Done r \<Longrightarrow> p \<noteq> [] \<Longrightarrow> s \<noteq> [] \<Longrightarrow> length r < length s"
  using find_str_Some [of p s] by (cases p) (auto simp: after_find_def split: option.splits dest!: slice_Done)

lemma convert_tag_shorter: "convert_tag s c = Done (c', r) \<Longrightarrow> s \<noteq> [] \<Longrightarrow> length r < length s"
proof -
  assume a: "convert_tag s c = Done (c', r)" "s \<noteq> []"
  show ?thesis
  proof (cases "strip_prefix ''<!--'' s")
    case (Some comment)
    then have "s = ''<!--'' @ comment" by (simp only: strip_prefix_Some_iff)
    moreover have "length r \<le> length comment"
      using a(1) Some after_find_shorter [of "''-->''" comment r]
      by (cases "comment = []") (auto simp: convert_tag_def bind_outcome_Done after_find_def dest!: slice_Done)
    ultimately show ?thesis by simp
  next
    case None
    show ?thesis
    proof (cases "starts_with_str s ''<!'' \<or> starts_with_str s ''<?''")
      case True
      with a None after_find_shorter [of "''>''" s r] show ?thesis
        by (auto simp: convert_tag_def bind_outcome_Done)
    next
      case False
      show ?thesis
      proof (cases "tag_end None s 0")
        case None
        with a False \<open>strip_prefix ''<!--'' s = None\<close> show ?thesis by (simp add: convert_tag_def)
      next
        case (Some stop)
        with a False None have "\<exists>tag. str_slice 1 stop s = Done tag \<and> str_slice (stop + 1) (length s) s = Done r"
          by (auto simp: convert_tag_def bind_outcome_Done Let_def split_beta split: if_splits)
        then show ?thesis using a(2) by (auto dest!: slice_Done)
      qed
    qed
  qed
qed


text \<open>The loop of \<^verbatim>\<open>text_from_html\<close>.\<close>

function convert_loop :: "str \<Rightarrow> converter \<Rightarrow> converter outcome" where
  "convert_loop rest c =
     (case byte_index (CHR ''<'') rest of
        None \<Rightarrow> Done (convert_text rest c)
      | Some start \<Rightarrow>
          (case convert_tag (drop start rest) (convert_text (take start rest) c) of
             Panic \<Rightarrow> Panic
           | Done (c, rest) \<Rightarrow> convert_loop rest c))"
  by pat_completeness auto
termination
proof (relation "measure (\<lambda>(s, _). length s)", goal_cases)
  case (2 rest c start r c' rest')
  then have "length rest' < length (drop start rest)"
    using convert_tag_shorter [of "drop start rest" _ c' rest'] byte_index_Some [OF 2(1)] by simp
  then show ?case by simp
qed simp

declare convert_loop.simps [simp del]

definition text_from_html :: "str \<Rightarrow> str outcome" where
  "text_from_html html = bind_outcome (convert_loop html converter_new) (\<lambda>c. Done (convert_finish c))"

subsection \<open>Escaped text reads back\<close>

lemma byte_index_append: "c \<notin> set xs \<Longrightarrow> byte_index c (xs @ ys) = map_option ((+) (length xs)) (byte_index c ys)"
  by (induction xs; cases "byte_index c ys") auto

lemma decode_loop_plain: "CHR ''&'' \<notin> set s \<Longrightarrow> decode_loop s = s"
  by (subst decode_loop.simps) (simp add: byte_index_None [THEN iffD2])

lemma decode_loop_append: "CHR ''&'' \<notin> set xs \<Longrightarrow> decode_loop (xs @ ys) = xs @ decode_loop ys"
  by (subst (1 2) decode_loop.simps) (simp add: byte_index_append split: option.splits)

lemma decode_loop_entity:
  assumes "entity_at (e @ ys) = Some (c, length e - 1)" "e \<noteq> []" "hd e = CHR ''&''"
  shows "decode_loop (e @ ys) = encode_utf8 c @ decode_loop ys"
proof -
  obtain es where e: "e = CHR ''&'' # es" using assms(2,3) by (cases e) auto
  with assms(1) show ?thesis by (subst decode_loop.simps) simp
qed

lemma decode_escape_bytes:
  assumes "\<And>b e. t b = Some e \<Longrightarrow> e \<noteq> [] \<and> hd e = CHR ''&'' \<and>
      (\<exists>c. encode_utf8 c = [b] \<and> (\<forall>ys. entity_at (e @ ys) = Some (c, length e - 1)))"
    and "t (CHR ''&'') \<noteq> None"
  shows "decode_loop (escape_bytes t s) = s"
proof (induction s)
  case Nil
  show ?case by (simp add: decode_loop_plain)
next
  case (Cons b s)
  show ?case
  proof (cases "t b")
    case None
    with assms(2) have "CHR ''&'' \<notin> set [b]" by auto
    from decode_loop_append [OF this] Cons None show ?thesis by simp
  next
    case (Some e)
    with assms(1) obtain c where "e \<noteq> []" "hd e = CHR ''&''" "encode_utf8 c = [b]"
      "entity_at (e @ escape_bytes t s) = Some (c, length e - 1)" by blast
    with decode_loop_entity [of e "escape_bytes t s" c] Cons Some show ?thesis by simp
  qed
qed

text \<open>The character an escape stands for.\<close>

definition escape_reads :: "char \<Rightarrow> str \<Rightarrow> nat \<Rightarrow> bool" where
  "escape_reads b e c \<longleftrightarrow> e \<noteq> [] \<and> hd e = CHR ''&'' \<and> encode_utf8 c = [b] \<and> (\<forall>ys. entity_at (e @ ys) = Some (c, length e - 1))"

lemma char_codes:
  "char_of (38::nat) = CHR ''&''" "char_of (60::nat) = CHR ''<''" "char_of (62::nat) = CHR ''>''" "char_of (34::nat) = CHR 0x22"
  by code_simp+

lemma escapes_read:
  "escape_reads (CHR ''&'') ''&amp;'' 38" "escape_reads (CHR ''<'') ''&lt;'' 60" "escape_reads (CHR ''>'') ''&gt;'' 62"
  "escape_reads (CHR 0x22) ''&quot;'' 34"
  by (simp_all add: escape_reads_def entity_at_def decode_entity_def encode_utf8_def char_codes)

lemma decode_text: "decode_loop (escaped CxText s) = s"
proof -
  have "\<exists>c. escape_reads b e c" if "TEXT_ESCAPES b = Some e" for b e
    using that escapes_read unfolding tables by (metis option.distinct(1) option.inject)
  then show ?thesis unfolding escaped_def table_of.simps
    by (intro decode_escape_bytes) (unfold escape_reads_def, blast, simp add: tables)
qed

lemma decode_attribute: "decode_loop (escaped CxAttributeValue s) = s"
proof -
  have "\<exists>c. escape_reads b e c" if "ATTRIBUTE_VALUE_ESCAPES b = Some e" for b e
    using that escapes_read unfolding tables by (metis option.distinct(1) option.inject)
  then show ?thesis unfolding escaped_def table_of.simps
    by (intro decode_escape_bytes) (unfold escape_reads_def, blast, simp add: tables)
qed

lemma decode_eq: "decode s = decode_loop s"
  by (simp add: decode_def decode_loop_plain)

text \<open>What the HTML writer escapes, the mail's text reads back: decoding the entities of an escaped text or attribute
  value gives the value, whatever it holds.\<close>

theorem decode_of_escaped: "decode (escaped CxText s) = s \<and> decode (escaped CxAttributeValue s) = s"
  by (simp add: decode_eq decode_text decode_attribute)


subsection \<open>Plain text survives\<close>

text \<open>The words of a text: what stands between white space.\<close>

definition words :: "str \<Rightarrow> str list" where
  "words s = filter (\<lambda>w. w \<noteq> []) (map concat (split_on white_space (uchars s)))"

definition starts_char :: "str \<Rightarrow> bool" where
  "starts_char s \<longleftrightarrow> s = [] \<or> \<not> is_cont (hd s)"

definition is_uchar :: "str \<Rightarrow> bool" where
  "is_uchar k \<longleftrightarrow> uchars k = [k] \<and> starts_char k"

lemma uchars_append: "starts_char ys \<Longrightarrow> uchars (xs @ ys) = uchars xs @ uchars ys"
proof (induction xs rule: uchars.induct)
  case (2 b bs)
  have ys: "takeWhile is_cont ys = []" "dropWhile is_cont ys = ys"
    using 2(2) by (cases ys; simp add: starts_char_def)+
  show ?case
  proof (cases "\<forall>x \<in> set bs. is_cont x")
    case True
    then have "takeWhile is_cont bs = bs" "dropWhile is_cont bs = []" "takeWhile is_cont (bs @ ys) = bs"
      "dropWhile is_cont (bs @ ys) = ys"
      using ys by (simp_all add: takeWhile_append2 dropWhile_append2 takeWhile_eq_all_conv dropWhile_eq_Nil_conv)
    then show ?thesis by (simp del: takeWhile_eq_all_conv dropWhile_eq_Nil_conv)
  next
    case False
    then obtain x where "x \<in> set bs" "\<not> is_cont x" by blast
    then have "takeWhile is_cont (bs @ ys) = takeWhile is_cont bs" "dropWhile is_cont (bs @ ys) = dropWhile is_cont bs @ ys"
      by (simp_all add: takeWhile_append1 dropWhile_append1)
    with 2 show ?thesis by simp
  qed
qed simp

lemma uchars_are_uchars: "starts_char s \<Longrightarrow> k \<in> set (uchars s) \<Longrightarrow> is_uchar k"
proof (induction s rule: uchars.induct)
  case (2 b bs)
  have rest: "starts_char (dropWhile is_cont bs)"
    unfolding starts_char_def using hd_dropWhile [of is_cont bs] by blast
  have "dropWhile is_cont (takeWhile is_cont bs) = []" using set_takeWhileD by (fastforce simp: dropWhile_eq_Nil_conv)
  moreover have "takeWhile is_cont (takeWhile is_cont bs) = takeWhile is_cont bs" by (simp add: takeWhile_idem)
  ultimately
  have "is_uchar (b # takeWhile is_cont bs)" using 2(2) by (simp del: takeWhile_eq_all_conv dropWhile_eq_Nil_conv add: is_uchar_def starts_char_def)
  with 2(1) [OF rest] 2(3) show ?case by auto
qed simp

lemma is_uchar_not_Nil: "is_uchar k \<Longrightarrow> k \<noteq> []"
  by (auto simp: is_uchar_def)

lemma ends_with_uchar: "is_uchar k \<Longrightarrow> ends_with_space (o' @ k) = white_space k"
  by (auto simp: ends_with_space_def is_uchar_def uchars_append)

text \<open>The loop over a run of text, for what it writes.\<close>

fun glue_loop :: "str \<Rightarrow> bool \<Rightarrow> str list \<Rightarrow> str" where
  "glue_loop out space [] = out"
| "glue_loop out space (k # ks) =
     (if white_space k then glue_loop out True ks
      else glue_loop (out @ (if space \<and> out \<noteq> [] then '' '' else []) @ k) False ks)"

lemma text_loop_glue:
  "\<forall>k \<in> set ks. is_uchar k \<Longrightarrow> cv_breaks c = 0 \<Longrightarrow> \<not> ends_with_space (cv_out c) \<Longrightarrow>
    cv_out (text_loop ks c) = glue_loop (cv_out c) (cv_space c) ks \<and> \<not> ends_with_space (glue_loop (cv_out c) (cv_space c) ks)"
proof (induction ks arbitrary: c)
  case (Cons k ks)
  show ?case
  proof (cases "white_space k")
    case True
    with Cons.IH [of "c\<lparr>cv_space := True\<rparr>"] Cons.prems show ?thesis by simp
  next
    case False
    let ?c = "push_out k (flush c)"
    have "cv_out ?c = cv_out c @ (if cv_space c \<and> cv_out c \<noteq> [] then '' '' else []) @ k" "cv_breaks ?c = 0" "\<not> cv_space ?c"
      using Cons.prems(2,3) by (simp_all add: push_out_def flush_def Let_def)
    moreover have "\<not> ends_with_space (x @ k)" for x using ends_with_uchar Cons.prems(1) False by simp
    ultimately show ?thesis using Cons.IH [of ?c] Cons.prems(1) False by (simp flip: append_assoc)
  qed
qed simp

lemma join_with_append:
  "ws \<noteq> [] \<Longrightarrow> join_with sep (ws @ [w]) = join_with sep ws @ sep @ w"
  by (induction sep ws rule: join_with.induct) auto

lemma join_with_extend: "join_with sep (ws @ [w @ k]) = join_with sep (ws @ [w]) @ k"
  by (cases "ws = []") (simp_all add: join_with_append)

lemma join_with_Nil: "\<forall>w \<in> set ws. w \<noteq> [] \<Longrightarrow> join_with sep ws = [] \<longleftrightarrow> ws = []"
  by (induction sep ws rule: join_with.induct) auto

lemma glue_words:
  assumes "\<forall>k \<in> set ks. k \<noteq> []" "\<forall>w \<in> set ws. w \<noteq> []"
  shows "glue_loop (join_with '' '' ws) True ks = join_with '' '' (ws @ filter (\<lambda>w. w \<noteq> []) (map concat (split_on white_space ks)))"
    "w \<noteq> [] \<Longrightarrow> glue_loop (join_with '' '' (ws @ [w])) False ks = join_with '' '' (ws @ [w @ concat (hd (split_on white_space ks))] @
       filter (\<lambda>w. w \<noteq> []) (map concat (tl (split_on white_space ks))))"
  using assms
proof (induction ks arbitrary: ws w)
  case (Cons k ks)
  obtain y ys where y: "split_on white_space ks = y # ys" using split_on_not_Nil by (metis neq_Nil_conv)
  {
    case 1
    show ?case
    proof (cases "white_space k")
      case True
      with 1 Cons.IH(1) [of ws] show ?thesis by simp
    next
      case False
      have "join_with '' '' ws @ (if join_with '' '' ws \<noteq> [] then '' '' else []) @ k = join_with '' '' (ws @ [k])"
        using 1 join_with_Nil [of ws "'' ''"] by (cases "ws = []") (simp_all add: join_with_append)
      with False Cons.IH(2) [of k ws] 1 y show ?thesis by simp
    qed
  next
    case 2
    show ?case
    proof (cases "white_space k")
      case True
      with 2 Cons.IH(1) [of "ws @ [w]"] show ?thesis by simp
    next
      case False
      with Cons.IH(2) [of "w @ k" ws] 2 y show ?thesis by (simp add: join_with_extend)
    qed
  }
qed simp_all

lemma glue_from_empty:
  "\<forall>k \<in> set ks. k \<noteq> [] \<Longrightarrow> glue_loop [] False ks = glue_loop [] True ks"
  by (cases ks) simp_all

lemma trim_end_id: "\<not> ends_with_space s \<Longrightarrow> trim_end s = s"
proof -
  assume s: "\<not> ends_with_space s"
  show ?thesis
  proof (cases "uchars s" rule: rev_cases)
    case Nil
    then have "s = []" by (metis concat.simps(1) concat_uchars)
    then show ?thesis by (simp add: trim_end_def)
  next
    case (snoc cs c)
    then have "s \<noteq> []" by auto
    with s snoc have "\<not> white_space c" by (simp add: ends_with_space_def)
    with snoc have "trim_end s = concat (uchars s)" by (simp add: trim_end_def)
    then show ?thesis by simp
  qed
qed

text \<open>C29. Text survives the way through HTML: text the HTML writer escapes comes out of the mail's conversion as its words,
  with one space between them, whatever markup or entities it spells.\<close>

theorem escaped_text_reads_back:
  assumes "starts_char s"
  shows "text_from_html (escaped CxText s) = Done (join_with '' '' (words s))"
proof -
  have no_tag: "CHR ''<'' \<notin> set (escaped CxText s)"
    by (induction s) (auto simp: escaped_def tables)
  have chars: "\<forall>k \<in> set (uchars s). is_uchar k" using uchars_are_uchars [OF assms] by blast
  then have full: "\<forall>k \<in> set (uchars s). k \<noteq> []" using is_uchar_not_Nil by blast
  have "glue_loop [] False (uchars s) = join_with '' '' (words s)"
    using glue_words(1) [OF full, of "[]"] glue_from_empty [OF full] by (simp add: words_def)
  then have out: "cv_out (text_loop (uchars s) converter_new) = join_with '' '' (words s)"
    "\<not> ends_with_space (join_with '' '' (words s))"
    using text_loop_glue [OF chars, of converter_new] by (simp_all add: converter_new_def ends_with_space_def)
  have "convert_loop (escaped CxText s) converter_new = Done (convert_text (escaped CxText s) converter_new)"
    using no_tag by (subst convert_loop.simps) (simp add: byte_index_None [THEN iffD2])
  also have "convert_text (escaped CxText s) converter_new = text_loop (uchars s) converter_new"
    by (simp add: convert_text_def converter_new_def decode_eq decode_text)
  finally show ?thesis using out trim_end_id by (simp add: text_from_html_def convert_finish_def)
qed

theorem escaped_text_reads_back_witness:
  "text_from_html (escaped CxText '' 1 < 2  &amp; '') = Done (join_with '' '' (words '' 1 < 2  &amp; ''))"
  by (rule escaped_text_reads_back) (simp add: starts_char_def is_cont_def)


subsection \<open>No slice is out of place\<close>

text \<open>What is used of a string being UTF-8: it begins with a character, and so does what follows an ASCII byte.\<close>

definition ascii :: "char \<Rightarrow> bool" where
  "ascii b \<longleftrightarrow> (of_char b :: nat) < 128"

definition well_formed :: "str \<Rightarrow> bool" where
  "well_formed s \<longleftrightarrow> starts_char s \<and> (\<forall>xs b ys. s = xs @ b # ys \<longrightarrow> ascii b \<longrightarrow> starts_char ys)"

lemma starts_char_simps [simp]: "starts_char []" "starts_char (b # bs) \<longleftrightarrow> \<not> is_cont b"
  by (simp_all add: starts_char_def)

lemma ascii_not_cont: "ascii b \<Longrightarrow> \<not> is_cont b"
  by (simp add: ascii_def is_cont_def)

lemma starts_char_append: "starts_char xs \<Longrightarrow> (xs = [] \<Longrightarrow> starts_char ys) \<Longrightarrow> starts_char (xs @ ys)"
  by (cases xs) simp_all

lemma starts_char_take: "starts_char s \<Longrightarrow> starts_char (take n s)"
  by (cases s; cases n) simp_all

lemma well_formed_starts: "well_formed s \<Longrightarrow> starts_char s"
  by (simp add: well_formed_def)

lemma well_formed_suffix: "well_formed (xs @ ys) \<Longrightarrow> starts_char ys \<Longrightarrow> well_formed ys"
  unfolding well_formed_def by (metis append.assoc)

lemma well_formed_prefix: "well_formed (xs @ ys) \<Longrightarrow> well_formed xs"
  unfolding well_formed_def by (metis (no_types, lifting) append.assoc append_Cons append_take_drop_id starts_char_take append_eq_conv_conj)

lemma well_formed_after: "well_formed (xs @ b # ys) \<Longrightarrow> ascii b \<Longrightarrow> well_formed ys"
  using well_formed_suffix [of "xs @ [b]" ys] by (simp add: well_formed_def)

lemma uchars_starts: "starts_char s \<Longrightarrow> set cs \<subseteq> set (uchars s) \<Longrightarrow> starts_char (concat cs)"
proof (cases cs)
  case (Cons k ks)
  assume "starts_char s" "set cs \<subseteq> set (uchars s)"
  with Cons have "is_uchar k" using uchars_are_uchars by auto
  then have "k \<noteq> []" "starts_char k" using is_uchar_not_Nil by (auto simp: is_uchar_def)
  with Cons show ?thesis by (simp add: starts_char_append)
qed simp

lemma well_formed_trim_start: "well_formed s \<Longrightarrow> well_formed (trim_start s)"
proof (rule well_formed_suffix)
  assume s: "well_formed s"
  show "well_formed (concat (takeWhile white_space (uchars s)) @ trim_start s)"
    unfolding trim_start_def using s by (metis concat_append concat_uchars takeWhile_dropWhile_id)
  show "starts_char (trim_start s)"
    unfolding trim_start_def using well_formed_starts [OF s] set_dropWhileD by (intro uchars_starts) auto
qed

lemma drop_index_where: "drop (unwrap_or (length (concat cs)) (chars_index P cs)) (concat cs) = concat (dropWhile (\<lambda>c. \<not> P c) cs)"
  by (induction cs) (auto simp: unwrap_or_def split: option.splits)

lemma well_formed_from_index:
  assumes "well_formed s"
  shows "well_formed (drop (index_where P s) s)"
proof (rule well_formed_suffix)
  show "well_formed (take (index_where P s) s @ drop (index_where P s) s)" using assms by simp
  have "drop (index_where P s) s = concat (dropWhile (\<lambda>c. \<not> P c) (uchars s))"
    using drop_index_where [of "uchars s" P] by (simp add: index_where_def)
  then show "starts_char (drop (index_where P s) s)"
    using well_formed_starts [OF assms] set_dropWhileD by (metis uchars_starts subsetI)
qed

lemma read_value_formed:
  assumes "well_formed s"
  shows "starts_char (fst (read_value s)) \<and> well_formed (snd (read_value s))"
proof (cases s)
  case Nil
  then show ?thesis by (simp add: read_value_def well_formed_def)
next
  case (Cons b bs)
  show ?thesis
  proof (cases "b = CHR 0x22 \<or> b = CHR 0x27")
    case True
    then have b: "ascii b" by (auto simp: ascii_def)
    then have bs: "well_formed bs" using assms Cons well_formed_after [of "[]" b bs] by simp
    show ?thesis
    proof (cases "byte_index b bs")
      case None
      with Cons True bs show ?thesis by (simp add: read_value_def well_formed_starts) (simp add: well_formed_def)
    next
      case (Some i)
      then have "bs = take i bs @ b # drop (i + 1) bs" using byte_index_Some [OF Some] id_take_nth_drop [of i bs] by simp
      with bs b have "well_formed (drop (i + 1) bs)" using well_formed_after by metis
      with Cons True Some bs show ?thesis by (auto simp: read_value_def well_formed_starts starts_char_take)
    qed
  next
    case False
    with Cons assms well_formed_from_index [OF assms] well_formed_starts [OF assms] show ?thesis
      by (simp add: read_value_def Let_def starts_char_take)
  qed
qed

lemma attribute_starts: "well_formed s \<Longrightarrow> attribute name s = Some v \<Longrightarrow> starts_char v"
proof (induction name s rule: attribute.induct)
  case (1 name s)
  let ?rest = "trim_start s"
  let ?stop = "index_where (\<lambda>c. white_space c \<or> c = ''='') ?rest"
  have rest: "well_formed ?rest" "well_formed (drop ?stop ?rest)"
    using well_formed_trim_start [OF 1(3)] well_formed_from_index by blast+
  have full: "?rest \<noteq> [] \<and> ?rest \<noteq> ''/''" using 1(4) by (auto simp: attribute.simps [of name s])
  show ?case
  proof (cases "strip_prefix ''='' (trim_start (drop ?stop ?rest))")
    case None
    with 1(4) full have "attribute name (drop ?stop ?rest) = Some v" by (simp add: attribute.simps [of name s] Let_def)
    then show ?thesis using 1(1) [OF refl _ refl None rest(2)] full by blast
  next
    case (Some after)
    then have "trim_start (drop ?stop ?rest) = [] @ CHR ''='' # after" by (simp only: strip_prefix_Some_iff append.simps)
    then have "well_formed after"
      using well_formed_after [of "[]" "CHR ''=''" after] well_formed_trim_start [OF rest(2)] by (simp add: ascii_def)
    then have val: "starts_char (fst (read_value (trim_start after)))" "well_formed (snd (read_value (trim_start after)))"
      using read_value_formed well_formed_trim_start by blast+
    show ?thesis
    proof (cases "eq_ignore_ascii_case (take ?stop ?rest) name")
      case True
      with 1(4) full Some have "v = fst (read_value (trim_start after))"
        by (simp add: attribute.simps [of name s] Let_def split_beta)
      with val(1) show ?thesis by simp
    next
      case False
      with 1(4) full Some have "attribute name (snd (read_value (trim_start after))) = Some v"
        by (simp add: attribute.simps [of name s] Let_def split_beta)
      then show ?thesis using 1(2) [OF refl _ refl Some refl _ False val(2)] full by (simp add: prod_eq_iff)
    qed
  qed
qed


lemma encode_utf8_starts: "c < 1114112 \<Longrightarrow> starts_char (encode_utf8 c)"
proof -
  assume c: "c < 1114112"
  have m: "(of_char (char_of n :: char) :: nat) = n mod 256" for n by simp
  show ?thesis
  proof (cases "c < 128")
    case True
    then show ?thesis by (simp add: encode_utf8_def is_cont_def m)
  next
    case False
    moreover have "192 + c div 64 < 256" if "c < 2048" using that by (simp add: less_mult_imp_div_less)
    moreover have "224 + c div 4096 < 256" if "c < 65536" using that by (simp add: less_mult_imp_div_less)
    moreover have "240 + c div 262144 < 256" using c by (simp add: less_mult_imp_div_less)
    ultimately show ?thesis by (simp add: encode_utf8_def is_cont_def m)
  qed
qed

lemma decode_entity_char: "decode_entity e = Some c \<Longrightarrow> c < 1114112"
  by (auto simp: decode_entity_def Let_def char_from_u32_def split: if_splits option.splits bind_splits)

lemma encode_utf8_not_Nil [simp]: "encode_utf8 c \<noteq> []"
  by (simp add: encode_utf8_def)

lemma decode_starts: "starts_char s \<Longrightarrow> starts_char (decode s)"
proof -
  assume s: "starts_char s"
  have "starts_char (decode_loop s)"
  proof (cases "byte_index (CHR ''&'') s")
    case None
    with s show ?thesis by (subst decode_loop.simps) simp
  next
    case (Some i)
    show ?thesis
    proof (cases "entity_at (drop i s)")
      case None
      with s Some show ?thesis
        by (subst decode_loop.simps) (auto intro!: starts_char_append starts_char_take simp: is_cont_def)
    next
      case (Some p)
      obtain c stop where p: "p = (c, stop)" by (cases p)
      with Some have "c < 1114112" using decode_entity_char by (auto simp: entity_at_def split: option.splits if_splits)
      from encode_utf8_starts [OF this] show ?thesis using s Some p \<open>byte_index (CHR ''&'') s = Some i\<close>
        by (subst decode_loop.simps) (auto intro!: starts_char_append starts_char_take)
    qed
  qed
  then show ?thesis by (simp add: decode_eq)
qed

text \<open>The label of every open link begins in range and between characters.\<close>

definition links_ok :: "converter \<Rightarrow> bool" where
  "links_ok c \<longleftrightarrow> (\<forall>l \<in> set (cv_links c). boundary (fst l) (cv_out c))"

lemma boundary_append: "boundary i s \<Longrightarrow> starts_char t \<Longrightarrow> boundary i (s @ t)"
  by (cases t) (auto simp: boundary_def nth_append)

lemma links_push: "links_ok c \<Longrightarrow> starts_char s \<Longrightarrow> links_ok (push_out s c)"
  by (simp add: links_ok_def push_out_def boundary_append)

lemma links_flush: "links_ok c \<Longrightarrow> links_ok (flush c)"
proof -
  assume c: "links_ok c"
  have "starts_char (replicate n (CHR 0x0A))" for n by (cases n) (simp_all add: is_cont_def)
  moreover have "starts_char '' ''" by (simp add: is_cont_def)
  ultimately show ?thesis using c by (simp add: links_ok_def flush_def Let_def boundary_append)
qed

lemma links_same [simp]:
  "links_ok (c\<lparr>cv_space := sp\<rparr>) = links_ok c" "links_ok (c\<lparr>cv_breaks := n\<rparr>) = links_ok c"
  "links_ok (c\<lparr>cv_hidden := n\<rparr>) = links_ok c" "links_ok (c\<lparr>cv_lists := ls\<rparr>) = links_ok c"
  by (simp_all add: links_ok_def)

lemma links_break [simp]: "links_ok (break_line n c) = links_ok c"
  by (simp add: break_line_def)

lemma links_separate [simp]: "links_ok (separate name c) = links_ok c"
  by (simp add: separate_def)

lemma links_text_loop: "links_ok c \<Longrightarrow> \<forall>k \<in> set ks. starts_char k \<Longrightarrow> links_ok (text_loop ks c)"
  by (induction ks arbitrary: c) (simp_all add: links_push links_flush)

lemma links_text:
  assumes "links_ok c" "starts_char raw"
  shows "links_ok (convert_text raw c)"
proof -
  have "\<forall>k \<in> set (uchars (decode raw)). starts_char k"
    using uchars_are_uchars [OF decode_starts [OF assms(2)]] unfolding is_uchar_def by blast
  with assms(1) show ?thesis by (simp add: convert_text_def links_text_loop)
qed

lemma decimal_starts: "starts_char (decimal n)"
  using decimal_digits [of n] by (cases "decimal n") (simp_all add: is_ascii_digit_def is_cont_def Let_def)

lemma links_item: "links_ok c \<Longrightarrow> links_ok (list_item c)"
  by (auto simp: list_item_def is_cont_def intro!: links_push links_flush starts_char_append decimal_starts split: list.splits option.splits)

lemma links_open:
  assumes "links_ok c" "well_formed attributes"
  shows "links_ok (open_tag name attributes c)"
proof -
  have "links_ok (c\<lparr>cv_links := (length (cv_out c), t) # cv_links c\<rparr>)" for t
    using assms(1) by (simp add: links_ok_def boundary_def)
  moreover have "links_ok (convert_text v c)" if "attribute ''alt'' attributes = Some v" for v
    using links_text [OF assms(1)] attribute_starts [OF assms(2) that] .
  ultimately show ?thesis using assms(1) links_item
    by (auto simp: open_tag_def split: option.splits)
qed

lemma links_close:
  assumes "links_ok c"
  shows "\<exists>c'. close_tag name c = Done c' \<and> links_ok c'"
proof -
  have "\<exists>c'. close_link c = Done c' \<and> links_ok c'"
  proof (cases "cv_links c")
    case Nil
    with assms show ?thesis by (simp add: close_link_def)
  next
    case (Cons l ls)
    have b: "boundary (fst l) (cv_out c)" using assms Cons by (simp add: links_ok_def)
    then have "str_slice (fst l) (length (cv_out c)) (cv_out c) = Done (drop (fst l) (cv_out c))"
      by (auto simp: str_slice_def boundary_def)
    moreover have ls: "links_ok (c\<lparr>cv_links := ls\<rparr>)" using assms Cons by (simp add: links_ok_def)
    moreover have "links_ok (push_out ('' ('' @ t) (c\<lparr>cv_links := ls\<rparr>))" for t
      using ls by (intro links_push) (simp_all add: is_cont_def)
    ultimately show ?thesis using Cons by (cases l) (simp add: close_link_def Let_def)
  qed
  with assms show ?thesis by (simp add: close_tag_def)
qed

lemma tag_end_Some: "tag_end q s i = Some n \<Longrightarrow> i \<le> n \<and> n - i < length s \<and> s ! (n - i) = CHR ''>''"
proof (induction q s i arbitrary: n rule: tag_end.induct)
  case (2 q c cs i)
  have step: ?case if "tag_end q' cs (i + 1) = Some n" "\<And>n. tag_end q' cs (i + 1) = Some n \<Longrightarrow>
      i + 1 \<le> n \<and> n - (i + 1) < length cs \<and> cs ! (n - (i + 1)) = CHR ''>''" for q'
  proof -
    from that have "i + 1 \<le> n" "n - (i + 1) < length cs" "cs ! (n - (i + 1)) = CHR ''>''" by blast+
    moreover from this have "n - i = Suc (n - (i + 1))" by simp
    ultimately show ?thesis by simp
  qed
  show ?case
  proof (cases "q = None \<and> c = CHR ''>''")
    case True
    with 2(4) show ?thesis by simp
  next
    case False
    then show ?thesis using 2 step by (simp split: if_splits)
  qed
qed simp

lemma slice_after:
  assumes "well_formed s" "n < length s" "ascii (s ! n)"
  shows "str_slice (n + 1) (length s) s = Done (drop (n + 1) s) \<and> well_formed (drop (n + 1) s)"
proof -
  have s: "s = take n s @ s ! n # drop (n + 1) s" using assms(2) id_take_nth_drop [of n s] by simp
  then have w: "well_formed (drop (n + 1) s)" using assms(1,3) well_formed_after by metis
  have "boundary (n + 1) s"
    using assms(2) well_formed_starts [OF w] by (cases "n + 1 < length s") (auto simp: boundary_def simp flip: Cons_nth_drop_Suc)
  then show ?thesis using w assms(2) by (simp add: str_slice_def boundary_def)
qed

lemma after_find_ok:
  assumes "well_formed s" "p \<noteq> []" "ascii (last p)"
  shows "\<exists>r. after_find p s = Done r \<and> well_formed r"
proof (cases "find_str p s")
  case None
  then show ?thesis by (simp add: after_find_def well_formed_def)
next
  case (Some i)
  note f = find_str_Some [OF Some]
  let ?n = "i + length p - 1"
  have p: "0 < length p" using assms(2) by simp
  have len: "i + length p \<le> length s"
    using f by (metis append_assoc length_append length_take min.absorb2 le_add1)
  then have n: "?n < length s" using p by linarith
  have "s ! ?n = (take i s @ p @ drop (i + length p) s) ! ?n" using f by metis
  also have "\<dots> = p ! (length p - 1)" using conjunct2 [OF f] p
    by (cases p rule: rev_cases) (simp_all add: nth_append)
  finally have "s ! ?n = last p" using assms(2) by (simp add: last_conv_nth)
  with slice_after [OF assms(1) n] assms(3) p Some show ?thesis by (auto simp: after_find_def)
qed

lemma convert_tag_ok:
  assumes "well_formed s" "\<exists>xs. s = CHR ''<'' # xs" "links_ok c"
  shows "\<exists>c' r. convert_tag s c = Done (c', r) \<and> well_formed r \<and> links_ok c'"
proof (cases "strip_prefix ''<!--'' s")
  case (Some comment)
  then have "s = ''<!-'' @ CHR ''-'' # comment" by (simp only: strip_prefix_Some_iff) simp
  then have "well_formed comment" using assms(1) well_formed_after [of "''<!-''" "CHR ''-''" comment] by (simp add: ascii_def)
  from after_find_ok [OF this, of "''-->''"] Some assms(3) show ?thesis by (auto simp: convert_tag_def ascii_def)
next
  case None
  show ?thesis
  proof (cases "starts_with_str s ''<!'' \<or> starts_with_str s ''<?''")
    case True
    with None assms after_find_ok [OF assms(1), of "''>''"] show ?thesis by (auto simp: convert_tag_def ascii_def)
  next
    case False
    show ?thesis
    proof (cases "tag_end None s 0")
      case None
      with False \<open>strip_prefix ''<!--'' s = None\<close> assms(3) show ?thesis
        by (simp add: convert_tag_def well_formed_def)
    next
      case (Some stop)
      obtain xs where xs: "s = CHR ''<'' # xs" using assms(2) by blast
      have stop: "stop < length s" "s ! stop = CHR ''>''" using tag_end_Some [OF Some] by simp_all
      with xs have "0 < stop" by (cases stop) auto
      have rest: "str_slice (stop + 1) (length s) s = Done (drop (stop + 1) s)" "well_formed (drop (stop + 1) s)"
        using slice_after [OF assms(1) stop(1)] stop(2) by (simp_all add: ascii_def)
      have "str_slice (0 + 1) (length s) s = Done (drop (0 + 1) s)" "well_formed (drop (0 + 1) s)"
        using slice_after [OF assms(1), of 0] xs by (simp_all add: ascii_def)
      then have tl: "boundary 1 s" "well_formed (drop 1 s)" by (auto simp: str_slice_def split: if_splits)
      define tag where "tag = take (stop - 1) (drop 1 s)"
      have slice: "str_slice 1 stop s = Done tag"
        using tl(1) stop \<open>0 < stop\<close> by (simp add: str_slice_def boundary_def tag_def is_cont_def)
      have tag: "well_formed tag"
        by (rule well_formed_prefix [of _ "drop (stop - 1) (drop 1 s)"]) (simp only: tag_def append_take_drop_id tl(2))
      have tag_attributes: "well_formed (drop (tag_name_end t) t)" if "well_formed t" for t
      proof -
        have d: "drop (tag_name_end t) t = dropWhile is_ascii_alphanumeric t"
          by (simp add: tag_name_end_def dropWhile_eq_drop)
        have "starts_char (drop (tag_name_end t) t)"
        proof (cases "takeWhile is_ascii_alphanumeric t" rule: rev_cases)
          case Nil
          then show ?thesis using that by (simp add: tag_name_end_def well_formed_starts)
        next
          case (snoc ys y)
          then have "is_ascii_alphanumeric y" by (metis in_set_conv_decomp set_takeWhileD)
          then have "ascii y" by (auto simp: is_ascii_alphanumeric_def is_ascii_alphabetic_def is_ascii_digit_def ascii_def Let_def)
          moreover have "t = ys @ y # dropWhile is_ascii_alphanumeric t" using snoc takeWhile_dropWhile_id [of is_ascii_alphanumeric t] by simp
          ultimately show ?thesis unfolding d using that unfolding well_formed_def by metis
        qed
        then show ?thesis using that well_formed_suffix [of "take (tag_name_end t) t"] by simp
      qed
      define t where "t = (case strip_prefix ''/'' tag of Some t \<Rightarrow> t | None \<Rightarrow> tag)"
      have "well_formed t"
      proof (cases "strip_prefix ''/'' tag")
        case (Some u)
        then have "tag = [] @ CHR ''/'' # u" by (simp only: strip_prefix_Some_iff append.simps)
        with tag Some show ?thesis using well_formed_after [of "[]" "CHR ''/''" u] by (simp add: t_def ascii_def)
      qed (simp add: t_def tag)
      note opened = links_open [OF assms(3) tag_attributes [OF this]]
      have closed: "\<exists>c'. close_tag name c = Done c' \<and> links_ok c'" for name by (rule links_close [OF assms(3)])
      have "convert_tag s c = (if strip_prefix ''/'' tag \<noteq> None
          then bind_outcome (close_tag (to_ascii_lowercase (take (tag_name_end t) t)) c) (\<lambda>c. Done (c, drop (stop + 1) s))
          else Done (open_tag (to_ascii_lowercase (take (tag_name_end t) t)) (drop (tag_name_end t) t) c, drop (stop + 1) s))"
        using None False Some slice rest(1)
        by (cases "strip_prefix ''/'' tag") (simp_all add: convert_tag_def t_def Let_def)
      with rest(2) opened closed [of "to_ascii_lowercase (take (tag_name_end t) t)"] show ?thesis
        by (cases "strip_prefix ''/'' tag") auto
    qed
  qed
qed

lemma text_returns:
  assumes "well_formed html"
  shows "\<exists>text. text_from_html html = Done text"
proof -
  have "\<exists>c'. convert_loop rest c = Done c'" if "well_formed rest" "links_ok c" for rest c
    using that
  proof (induction "length rest" arbitrary: rest c rule: less_induct)
    case less
    show ?case
    proof (cases "byte_index (CHR ''<'') rest")
      case None
      then show ?thesis by (subst convert_loop.simps) simp
    next
      case (Some i)
      note i = byte_index_Some [OF Some]
      have rest: "rest = take i rest @ CHR ''<'' # drop (i + 1) rest" using i id_take_nth_drop [of i rest] by simp
      have d: "drop i rest = CHR ''<'' # drop (i + 1) rest" using i by (simp add: Cons_nth_drop_Suc [symmetric])
      have w: "well_formed (drop i rest)"
      proof (rule well_formed_suffix)
        show "well_formed (take i rest @ drop i rest)" using less(2) by simp
        show "starts_char (drop i rest)" by (simp add: d starts_char_def is_cont_def)
      qed
      have "links_ok (convert_text (take i rest) c)"
        by (rule links_text [OF less(3) starts_char_take [OF well_formed_starts [OF less(2)]]])
      with convert_tag_ok [OF w _ this] d obtain c' r where t: "convert_tag (drop i rest) (convert_text (take i rest) c) = Done (c', r)"
        "well_formed r" "links_ok c'" by blast
      have "length r < length rest" using convert_tag_shorter [OF t(1)] i by simp
      from less(1) [OF this t(2,3)] show ?thesis using Some t(1) by (subst convert_loop.simps) simp
    qed
  qed
  from this [OF assms, of converter_new] show ?thesis
    by (auto simp: text_from_html_def links_ok_def converter_new_def)
qed

text \<open>Deriving the text of a mail returns: whatever the HTML is, well nested or not, the tags cut out of it and the
  labels of links cut out of the text written so far are in range and between characters, and the loop ends.\<close>

theorem text_from_html_returns:
  assumes "well_formed html"
  shows "\<exists>text. text_from_html html = Done text"
  by (rule text_returns [OF assms])

lemma well_formed_ascii: "list_all ascii s \<Longrightarrow> well_formed s"
  by (cases s) (auto simp: well_formed_def starts_char_def Cons_eq_append_conv ascii_not_cont list_all_iff split: list.splits
    dest!: arg_cong [of _ _ set] intro!: ascii_not_cont)

theorem text_from_html_returns_witness:
  "well_formed ''</a><a href=x><p'' \<and> (\<exists>text. text_from_html ''</a><a href=x><p'' = Done text)"
proof
  show w: "well_formed ''</a><a href=x><p''" by (rule well_formed_ascii) (simp add: ascii_def)
  show "\<exists>text. text_from_html ''</a><a href=x><p'' = Done text" by (rule text_from_html_returns [OF w])
qed

end
