(* ===== verification/Mail_Messages.thy ===== *)
theory Mail_Messages
  imports Mail_Text "HOL-Library.Multiset"
begin

text \<open>
  Mails and their assembly (\<^verbatim>\<open>crates/topcoat-mail/src\<close>): the mail and its builder, the addresses and
  attachments it is made of, the tree of MIME parts, and the transports.  The parts and the calls on the message
  builder are values, read by the third-party \<^verbatim>\<open>lettre\<close>: what it makes of them, the addresses, content types and header
  names it accepts, the clock, the disk and the network are the fields of a record.
\<close>

subsection \<open>Addresses\<close>

text \<open>\<open>'a\<close> is the address of \<^verbatim>\<open>lettre\<close>, \<open>'e\<close> its error.\<close>

record ('a, 'e) address_lib =
  al_address :: "str \<Rightarrow> ('a, 'e) result"
  al_mailbox :: "str \<Rightarrow> (str option \<times> 'a, 'e) result"
  al_display :: "'a \<Rightarrow> str"

record 'a mailbox =
  mb_name :: "str option"
  mb_address :: 'a

definition mailbox_new :: "('a, 'e) address_lib \<Rightarrow> str \<Rightarrow> ('a mailbox, 'e) result" where
  "mailbox_new L address = and_then (al_address L address) (\<lambda>a. Ok \<lparr>mb_name = None, mb_address = a\<rparr>)"

definition mailbox_named :: "('a, 'e) address_lib \<Rightarrow> str \<Rightarrow> str \<Rightarrow> ('a mailbox, 'e) result" where
  "mailbox_named L name address = and_then (al_address L address) (\<lambda>a. Ok \<lparr>mb_name = Some name, mb_address = a\<rparr>)"

definition mailbox_from_str :: "('a, 'e) address_lib \<Rightarrow> str \<Rightarrow> ('a mailbox, 'e) result" where
  "mailbox_from_str L s = and_then (al_mailbox L s) (\<lambda>(name, email). Ok \<lparr>mb_name = name, mb_address = email\<rparr>)"

definition mailbox_display :: "('a, 'e) address_lib \<Rightarrow> 'a mailbox \<Rightarrow> str" where
  "mailbox_display L m = (case mb_name m of
       Some name \<Rightarrow> name @ '' <'' @ al_display L (mb_address m) @ ''>''
     | None \<Rightarrow> al_display L (mb_address m))"

definition to_lettre :: "'a mailbox \<Rightarrow> str option \<times> 'a" where
  "to_lettre m = (mb_name m, mb_address m)"

text \<open>Collecting a list of conversions: all the values, or the first error.\<close>

fun try_into_mailboxes :: "('i \<Rightarrow> ('a mailbox, 'e) result) \<Rightarrow> 'i list \<Rightarrow> ('a mailbox list, 'e) result" where
  "try_into_mailboxes try_into [] = Ok []"
| "try_into_mailboxes try_into (i # is) =
     and_then (try_into i) (\<lambda>m. and_then (try_into_mailboxes try_into is) (\<lambda>ms. Ok (m # ms)))"

subsection \<open>Attachments\<close>

datatype disposition = Attached str | Inline str

record attachment =
  at_disposition :: disposition
  at_content_type :: str
  at_content :: str

definition attachment_new :: "str \<Rightarrow> str \<Rightarrow> str \<Rightarrow> attachment" where
  "attachment_new filename ct content = \<lparr>at_disposition = Attached filename, at_content_type = ct, at_content = content\<rparr>"

definition attachment_inline :: "str \<Rightarrow> str \<Rightarrow> str \<Rightarrow> attachment" where
  "attachment_inline content_id ct content = \<lparr>at_disposition = Inline content_id, at_content_type = ct, at_content = content\<rparr>"

definition at_filename :: "attachment \<Rightarrow> str option" where
  "at_filename a = (case at_disposition a of Attached filename \<Rightarrow> Some filename | Inline _ \<Rightarrow> None)"

definition at_content_id :: "attachment \<Rightarrow> str option" where
  "at_content_id a = (case at_disposition a of Attached _ \<Rightarrow> None | Inline content_id \<Rightarrow> Some content_id)"

subsection \<open>Mails\<close>

datatype text_body = FromHtml | NoText | DeclaredText str

text \<open>\<open>'v\<close> is a view handle; a time is its distance from the epoch.\<close>

record ('a, 'v) mail =
  mail_from :: "'a mailbox option"
  mail_to :: "'a mailbox list"
  mail_cc :: "'a mailbox list"
  mail_bcc :: "'a mailbox list"
  mail_reply_to :: "'a mailbox list"
  mail_subject :: str
  mail_html :: "'v option"
  mail_text :: text_body
  mail_attachments :: "attachment list"
  mail_in_reply_to :: "str option"
  mail_references :: "str option"
  mail_headers :: "(str \<times> str) list"
  mail_date :: "int option"
  mail_message_id :: "str option"

definition mail_builder :: "('a, 'v) mail" where
  "mail_builder = \<lparr>mail_from = None, mail_to = [], mail_cc = [], mail_bcc = [], mail_reply_to = [], mail_subject = [],
     mail_html = None, mail_text = FromHtml, mail_attachments = [], mail_in_reply_to = None, mail_references = None,
     mail_headers = [], mail_date = None, mail_message_id = None\<rparr>"

definition builder_from :: "'a mailbox \<Rightarrow> ('a, 'v) mail \<Rightarrow> ('a, 'v) mail" where
  "builder_from f m = m\<lparr>mail_from := Some f\<rparr>"

definition builder_to :: "'a mailbox list \<Rightarrow> ('a, 'v) mail \<Rightarrow> ('a, 'v) mail" where
  "builder_to xs m = m\<lparr>mail_to := mail_to m @ xs\<rparr>"

definition builder_cc :: "'a mailbox list \<Rightarrow> ('a, 'v) mail \<Rightarrow> ('a, 'v) mail" where
  "builder_cc xs m = m\<lparr>mail_cc := mail_cc m @ xs\<rparr>"

definition builder_bcc :: "'a mailbox list \<Rightarrow> ('a, 'v) mail \<Rightarrow> ('a, 'v) mail" where
  "builder_bcc xs m = m\<lparr>mail_bcc := mail_bcc m @ xs\<rparr>"

definition builder_reply_to :: "'a mailbox list \<Rightarrow> ('a, 'v) mail \<Rightarrow> ('a, 'v) mail" where
  "builder_reply_to xs m = m\<lparr>mail_reply_to := mail_reply_to m @ xs\<rparr>"

definition builder_subject :: "str \<Rightarrow> ('a, 'v) mail \<Rightarrow> ('a, 'v) mail" where
  "builder_subject s m = m\<lparr>mail_subject := s\<rparr>"

definition builder_html :: "'v \<Rightarrow> ('a, 'v) mail \<Rightarrow> ('a, 'v) mail" where
  "builder_html v m = m\<lparr>mail_html := Some v\<rparr>"

definition builder_text :: "text_body \<Rightarrow> ('a, 'v) mail \<Rightarrow> ('a, 'v) mail" where
  "builder_text t m = m\<lparr>mail_text := t\<rparr>"

definition builder_attachments :: "attachment list \<Rightarrow> ('a, 'v) mail \<Rightarrow> ('a, 'v) mail" where
  "builder_attachments xs m = m\<lparr>mail_attachments := mail_attachments m @ xs\<rparr>"

definition builder_headers :: "(str \<times> str) list \<Rightarrow> ('a, 'v) mail \<Rightarrow> ('a, 'v) mail" where
  "builder_headers xs m = m\<lparr>mail_headers := mail_headers m @ xs\<rparr>"

definition builder_in_reply_to :: "str \<Rightarrow> ('a, 'v) mail \<Rightarrow> ('a, 'v) mail" where
  "builder_in_reply_to i m = m\<lparr>mail_in_reply_to := Some i\<rparr>"

definition builder_references :: "str \<Rightarrow> ('a, 'v) mail \<Rightarrow> ('a, 'v) mail" where
  "builder_references r m = m\<lparr>mail_references := Some r\<rparr>"

definition builder_date :: "int \<Rightarrow> ('a, 'v) mail \<Rightarrow> ('a, 'v) mail" where
  "builder_date d m = m\<lparr>mail_date := Some d\<rparr>"

definition builder_message_id :: "str \<Rightarrow> ('a, 'v) mail \<Rightarrow> ('a, 'v) mail" where
  "builder_message_id i m = m\<lparr>mail_message_id := Some i\<rparr>"

subsection \<open>MIME parts\<close>

datatype send_error = MissingFrom | MissingRecipients | MissingBody | InlineWithoutHtml
  | InvalidContentType str | InvalidHeaderName str | Assembly str | Delivery str

datatype bcc_header = BccDropped | BccKept

datatype 'c single_part = PlainPart str | HtmlPart str | FilePart str str 'c | InlinePart str str 'c

datatype multi_kind = Mixed | Alternative | Related

datatype 'c content = Single "'c single_part" | Multi multi_kind "'c content list"

text \<open>What is called on the message builder.\<close>

datatype 'a header_call =
    CallFrom "str option \<times> 'a" | CallTo "str option \<times> 'a" | CallCc "str option \<times> 'a" | CallBcc "str option \<times> 'a"
  | CallReplyTo "str option \<times> 'a" | KeepBcc | CallSubject str | CallDate int | CallMessageId "str option"
  | CallInReplyTo str | CallReferences str | RawHeader str str

text \<open>\<open>'c\<close> is a content type, \<open>'m\<close> an assembled message, \<open>'w\<close> the world outside: the clock and the random numbers of the
  dates and ids, the disk, the network.\<close>

record ('a, 'v, 'c, 'm, 'w) mail_lib =
  ml_render :: "'v \<Rightarrow> str outcome"
  ml_content_type :: "str \<Rightarrow> 'c option"
  ml_header_name :: "str \<Rightarrow> bool"
  ml_assemble :: "'a header_call list \<Rightarrow> 'c content \<Rightarrow> 'w \<Rightarrow> ('m, str) result \<times> 'w"
  ml_get_raw :: "'m \<Rightarrow> str \<Rightarrow> str option"
  ml_formatted :: "'m \<Rightarrow> str"
  ml_submit :: "'m \<Rightarrow> 'w \<Rightarrow> (unit, str) result \<times> 'w"
  ml_timestamp :: "'w \<Rightarrow> str"
  ml_create_dir :: "str \<Rightarrow> 'w \<Rightarrow> (unit, str) result \<times> 'w"
  ml_write :: "str list \<Rightarrow> str \<Rightarrow> 'w \<Rightarrow> (unit, str) result \<times> 'w"

text \<open>The \<^verbatim>\<open>?\<close> operator where the code may also panic.\<close>

fun try_done :: "('a, 'e) result outcome \<Rightarrow> ('a \<Rightarrow> ('b, 'e) result outcome) \<Rightarrow> ('b, 'e) result outcome" where
  "try_done Panic f = Panic"
| "try_done (Done (Inl e)) f = Done (Err e)"
| "try_done (Done (Inr x)) f = f x"

definition attachment_part :: "('a, 'v, 'c, 'm, 'w) mail_lib \<Rightarrow> attachment \<Rightarrow> ('c single_part, send_error) result outcome" where
  "attachment_part L a =
     (case ml_content_type L (at_content_type a) of
        None \<Rightarrow> Done (Err (InvalidContentType (at_content_type a)))
      | Some ct \<Rightarrow>
          (case (at_filename a, at_content_id a) of
             (Some filename, _) \<Rightarrow> Done (Ok (FilePart filename (at_content a) ct))
           | (None, Some content_id) \<Rightarrow> Done (Ok (InlinePart content_id (at_content a) ct))
           | (None, None) \<Rightarrow> Panic))"

text \<open>Adding the part of every attachment to a multipart.\<close>

fun push_parts :: "('a, 'v, 'c, 'm, 'w) mail_lib \<Rightarrow> attachment list \<Rightarrow> 'c content list \<Rightarrow> ('c content list, send_error) result outcome" where
  "push_parts L [] parts = Done (Ok parts)"
| "push_parts L (a # as) parts = try_done (attachment_part L a) (\<lambda>p. push_parts L as (parts @ [Single p]))"

definition text_part :: "text_body \<Rightarrow> str option \<Rightarrow> str option outcome" where
  "text_part t html =
     (case t of
        DeclaredText text \<Rightarrow> Done (Some text)
      | NoText \<Rightarrow> Done None
      | FromHtml \<Rightarrow>
          (case html of
             None \<Rightarrow> Done None
           | Some html \<Rightarrow> bind_outcome (text_from_html html) (\<lambda>text. Done (if text = [] then None else Some text))))"

definition html_part :: "('a, 'v, 'c, 'm, 'w) mail_lib \<Rightarrow> attachment list \<Rightarrow> str option \<Rightarrow> ('c content option, send_error) result outcome" where
  "html_part L inline html =
     (case html of
        None \<Rightarrow> Done (Ok None)
      | Some html \<Rightarrow>
          if inline = [] then Done (Ok (Some (Single (HtmlPart html))))
          else try_done (push_parts L inline [Single (HtmlPart html)]) (\<lambda>parts. Done (Ok (Some (Multi Related parts)))))"

fun alternatives :: "str option \<Rightarrow> 'c content option \<Rightarrow> ('c content, send_error) result" where
  "alternatives None None = Err MissingBody"
| "alternatives None (Some html) = Ok html"
| "alternatives (Some text) None = Ok (Single (PlainPart text))"
| "alternatives (Some text) (Some html) = Ok (Multi Alternative [Single (PlainPart text), html])"

definition mail_body :: "('a, 'v, 'c, 'm, 'w) mail_lib \<Rightarrow> ('a, 'v) mail \<Rightarrow> ('c content, send_error) result outcome" where
  "mail_body L mail =
     bind_outcome (case mail_html mail of None \<Rightarrow> Done None | Some v \<Rightarrow> bind_outcome (ml_render L v) (\<lambda>h. Done (Some h))) (\<lambda>html.
     let inline = filter (\<lambda>a. at_content_id a \<noteq> None) (mail_attachments mail);
         attached = filter (\<lambda>a. at_filename a \<noteq> None) (mail_attachments mail)
     in if html = None \<and> inline \<noteq> [] then Done (Err InlineWithoutHtml)
        else bind_outcome (text_part (mail_text mail) html) (\<lambda>text.
             try_done (html_part L inline html) (\<lambda>html.
             try_done (Done (alternatives text html)) (\<lambda>content.
               if attached = [] then Done (Ok content)
               else try_done (push_parts L attached [content]) (\<lambda>parts. Done (Ok (Multi Mixed parts)))))))"

subsection \<open>Headers and the message\<close>

fun raw_headers :: "('a, 'v, 'c, 'm, 'w) mail_lib \<Rightarrow> (str \<times> str) list \<Rightarrow> 'a header_call list \<Rightarrow> ('a header_call list, send_error) result" where
  "raw_headers L [] calls = Ok calls"
| "raw_headers L ((name, v) # hs) calls =
     (if ml_header_name L name then raw_headers L hs (calls @ [RawHeader name v]) else Err (InvalidHeaderName name))"

definition message_headers :: "('a, 'v, 'c, 'm, 'w) mail_lib \<Rightarrow> bcc_header \<Rightarrow> ('a, 'v) mail \<Rightarrow> ('a header_call list, send_error) result" where
  "message_headers L bcc mail =
     (case mail_from mail of
        None \<Rightarrow> Err MissingFrom
      | Some sender \<Rightarrow>
          if mail_to mail = [] \<and> mail_cc mail = [] \<and> mail_bcc mail = [] then Err MissingRecipients
          else raw_headers L (mail_headers mail)
            ([CallFrom (to_lettre sender)]
             @ map (CallTo \<circ> to_lettre) (mail_to mail)
             @ map (CallCc \<circ> to_lettre) (mail_cc mail)
             @ map (CallBcc \<circ> to_lettre) (mail_bcc mail)
             @ map (CallReplyTo \<circ> to_lettre) (mail_reply_to mail)
             @ (case bcc of BccKept \<Rightarrow> [KeepBcc] | BccDropped \<Rightarrow> [])
             @ (if mail_subject mail \<noteq> [] then [CallSubject (mail_subject mail)] else [])
             @ (case mail_date mail of Some date \<Rightarrow> [CallDate date] | None \<Rightarrow> [])
             @ [CallMessageId (mail_message_id mail)]
             @ (case mail_in_reply_to mail of Some i \<Rightarrow> [CallInReplyTo i] | None \<Rightarrow> [])
             @ (case mail_references mail of Some r \<Rightarrow> [CallReferences r] | None \<Rightarrow> [])))"

definition mail_message :: "('a, 'v, 'c, 'm, 'w) mail_lib \<Rightarrow> ('a, 'v) mail \<Rightarrow> bcc_header \<Rightarrow> 'w \<Rightarrow> (('m, send_error) result \<times> 'w) outcome" where
  "mail_message L mail bcc w =
     (case message_headers L bcc mail of
        Inl e \<Rightarrow> Done (Err e, w)
      | Inr calls \<Rightarrow> bind_outcome (mail_body L mail) (\<lambda>r. case r of
            Inl e \<Rightarrow> Done (Err e, w)
          | Inr content \<Rightarrow> (case ml_assemble L calls content w of
                (Inl e, w) \<Rightarrow> Done (Err (Assembly e), w)
              | (Inr message, w) \<Rightarrow> Done (Ok message, w))))"

definition message_id :: "('a, 'v, 'c, 'm, 'w) mail_lib \<Rightarrow> 'm \<Rightarrow> str" where
  "message_id L message = unwrap_or [] (ml_get_raw L message ''Message-ID'')"

definition mail_formatted :: "('a, 'v, 'c, 'm, 'w) mail_lib \<Rightarrow> ('a, 'v) mail \<Rightarrow> 'w \<Rightarrow> ((str, send_error) result \<times> 'w) outcome" where
  "mail_formatted L mail w = bind_outcome (mail_message L mail BccDropped w) (\<lambda>(r, w). Done (and_then r (Ok \<circ> ml_formatted L), w))"

subsection \<open>Transports\<close>

text \<open>A receipt is the id of the message.  A transport maps its own state, the world and a mail to what it answers.\<close>

type_synonym ('a, 'v, 's, 'w) transport =
  "'s \<Rightarrow> 'w \<Rightarrow> ('a, 'v) mail \<Rightarrow> ((str, send_error) result \<times> 's \<times> 'w) outcome"

definition memory_send :: "('a, 'v, 'c, 'm, 'w) mail_lib \<Rightarrow> ('a, 'v, ('a, 'v) mail list, 'w) transport" where
  "memory_send L sent w mail =
     bind_outcome (mail_message L mail BccDropped w) (\<lambda>(r, w).
       case r of
         Inl e \<Rightarrow> Done (Err e, sent, w)
       | Inr message \<Rightarrow> Done (Ok (message_id L message), sent @ [mail], w))"

definition memory_new :: "('a, 'v) mail list" where
  "memory_new = []"

definition memory_clear :: "('a, 'v) mail list \<Rightarrow> ('a, 'v) mail list" where
  "memory_clear sent = []"

definition smtp_send :: "('a, 'v, 'c, 'm, 'w) mail_lib \<Rightarrow> ('a, 'v, unit, 'w) transport" where
  "smtp_send L s w mail =
     bind_outcome (mail_message L mail BccDropped w) (\<lambda>(r, w).
       case r of
         Inl e \<Rightarrow> Done (Err e, s, w)
       | Inr message \<Rightarrow> (case ml_submit L message w of
             (Inl e, w) \<Rightarrow> Done (Err (Delivery e), s, w)
           | (Inr _, w) \<Rightarrow> Done (Ok (message_id L message), s, w)))"

definition filename_safe :: "str \<Rightarrow> str" where
  "filename_safe mid = take 8 (filter is_ascii_alphanumeric mid)"

text \<open>The state of a file transport is its directory; a path is the directory and the name in it.\<close>

definition file_send :: "('a, 'v, 'c, 'm, 'w) mail_lib \<Rightarrow> ('a, 'v, str, 'w) transport" where
  "file_send L directory w mail =
     bind_outcome (mail_message L mail BccKept w) (\<lambda>(r, w).
       case r of
         Inl e \<Rightarrow> Done (Err e, directory, w)
       | Inr message \<Rightarrow>
           let path = [directory, ml_timestamp L w @ ''-'' @ filename_safe (message_id L message) @ ''.eml'']
           in case ml_create_dir L directory w of
                (Inl e, w) \<Rightarrow> Done (Err (Delivery e), directory, w)
              | (Inr _, w) \<Rightarrow> (case ml_write L path (ml_formatted L message) w of
                    (Inl e, w) \<Rightarrow> Done (Err (Delivery e), directory, w)
                  | (Inr _, w) \<Rightarrow> Done (Ok (message_id L message), directory, w)))"

text \<open>The configuration: a transport, without which building it panics, and sending panics where none is registered.\<close>

definition config_builder :: "('a, 'v, 's, 'w) transport option" where
  "config_builder = None"

definition config_transport :: "('a, 'v, 's, 'w) transport \<Rightarrow> ('a, 'v, 's, 'w) transport option \<Rightarrow> ('a, 'v, 's, 'w) transport option" where
  "config_transport t b = Some t"

definition config_build :: "('a, 'v, 's, 'w) transport option \<Rightarrow> ('a, 'v, 's, 'w) transport outcome" where
  "config_build b = (case b of Some t \<Rightarrow> Done t | None \<Rightarrow> Panic)"

definition mail_send :: "('a, 'v, 's, 'w) transport option \<Rightarrow> ('a, 'v, 's, 'w) transport" where
  "mail_send registered s w mail = (case registered of Some t \<Rightarrow> t s w mail | None \<Rightarrow> Panic)"

subsection \<open>The tree of parts\<close>

lemma bind_outcome_iff: "bind_outcome m f = r \<longleftrightarrow> (case m of Done x \<Rightarrow> f x = r | Panic \<Rightarrow> r = Panic)"
  by (cases m) auto

lemma try_done_Ok: "try_done m f = Done (Ok y) \<longleftrightarrow> (\<exists>x. m = Done (Ok x) \<and> f x = Done (Ok y))"
  by (induction m f rule: try_done.induct) auto

lemma try_done_Err: "try_done m f = Done (Err e) \<longleftrightarrow> m = Done (Err e) \<or> (\<exists>x. m = Done (Ok x) \<and> f x = Done (Err e))"
  by (induction m f rule: try_done.induct) auto

text \<open>The part of an attachment whose content type is accepted.\<close>

definition part_of :: "('a, 'v, 'c, 'm, 'w) mail_lib \<Rightarrow> attachment \<Rightarrow> 'c single_part" where
  "part_of L a = (let ct = the (ml_content_type L (at_content_type a)) in
     case at_disposition a of Attached n \<Rightarrow> FilePart n (at_content a) ct | Inline i \<Rightarrow> InlinePart i (at_content a) ct)"

definition part_refused :: "('a, 'v, 'c, 'm, 'w) mail_lib \<Rightarrow> attachment \<Rightarrow> bool" where
  "part_refused L a \<longleftrightarrow> ml_content_type L (at_content_type a) = None"

lemma attachment_part_eq:
  "attachment_part L a = Done (if part_refused L a then Err (InvalidContentType (at_content_type a)) else Ok (part_of L a))"
  by (auto simp: attachment_part_def part_of_def part_refused_def at_filename_def at_content_id_def Let_def
      split: option.splits disposition.splits)

lemma push_parts_eq:
  "push_parts L as parts = Done (case find (part_refused L) as of
     Some a \<Rightarrow> Err (InvalidContentType (at_content_type a))
   | None \<Rightarrow> Ok (parts @ map (Single \<circ> part_of L) as))"
  by (induction as arbitrary: parts) (auto simp: attachment_part_eq split: option.splits)

fun leaves :: "'c content \<Rightarrow> 'c single_part list" where
  "leaves (Single p) = [p]"
| "leaves (Multi k cs) = concat (map leaves cs)"

text \<open>What the kinds of multipart mean: alternatives are a plain text and then something that holds the HTML, related parts
  are an HTML and what it embeds, and no multipart has less than two parts.\<close>

definition is_html :: "'c single_part \<Rightarrow> bool" where
  "is_html p \<longleftrightarrow> (\<exists>h. p = HtmlPart h)"

definition is_inline :: "'c single_part \<Rightarrow> bool" where
  "is_inline p \<longleftrightarrow> (\<exists>i b ct. p = InlinePart i b ct)"

definition is_file :: "'c single_part \<Rightarrow> bool" where
  "is_file p \<longleftrightarrow> (\<exists>n b ct. p = FilePart n b ct)"

fun kind_ok :: "multi_kind \<Rightarrow> 'c content list \<Rightarrow> bool" where
  "kind_ok Alternative cs \<longleftrightarrow> (case cs of
       [Single (PlainPart t), html] \<Rightarrow> list_all (\<lambda>p. is_html p \<or> is_inline p) (leaves html)
     | _ \<Rightarrow> False)"
| "kind_ok Related cs \<longleftrightarrow> (case cs of Single p # rest \<Rightarrow> is_html p \<and> list_all is_inline (concat (map leaves rest)) | _ \<Rightarrow> False)"
| "kind_ok Mixed cs \<longleftrightarrow> (case cs of c # rest \<Rightarrow> \<not> list_ex is_file (leaves c) \<and> list_all is_file (concat (map leaves rest)) | _ \<Rightarrow> False)"

fun tree_ok :: "'c content \<Rightarrow> bool" where
  "tree_ok (Single p) \<longleftrightarrow> True"
| "tree_ok (Multi k cs) \<longleftrightarrow> 2 \<le> length cs \<and> kind_ok k cs \<and> (\<forall>c \<in> set cs. tree_ok c)"

text \<open>The HTML a mail renders to.\<close>

definition rendered :: "('a, 'v, 'c, 'm, 'w) mail_lib \<Rightarrow> ('a, 'v) mail \<Rightarrow> str option outcome" where
  "rendered L mail = (case mail_html mail of None \<Rightarrow> Done None | Some v \<Rightarrow> bind_outcome (ml_render L v) (\<lambda>h. Done (Some h)))"

definition inline_of :: "('a, 'v) mail \<Rightarrow> attachment list" where
  "inline_of mail = filter (\<lambda>a. at_content_id a \<noteq> None) (mail_attachments mail)"

definition attached_of :: "('a, 'v) mail \<Rightarrow> attachment list" where
  "attached_of mail = filter (\<lambda>a. at_filename a \<noteq> None) (mail_attachments mail)"

lemma every_attachment_once: "mset (inline_of mail) + mset (attached_of mail) = mset (mail_attachments mail)"
proof -
  have "(at_content_id a \<noteq> None) = (\<not> at_filename a \<noteq> None)" for a
    by (simp add: at_content_id_def at_filename_def split: disposition.splits)
  then show ?thesis unfolding inline_of_def attached_of_def
    using multiset_partition [of "mset (mail_attachments mail)" "\<lambda>a. at_content_id a \<noteq> None"] by simp
qed

lemma leaves_parts [simp]: "concat (map (leaves \<circ> (Single \<circ> f)) as) = map f as"
  by (induction as) simp_all

lemma parts_kinds:
  "list_all is_inline (map (part_of L) (inline_of mail))" "list_all is_file (map (part_of L) (attached_of mail))"
  by (auto simp: list_all_iff inline_of_def attached_of_def part_of_def is_inline_def is_file_def Let_def at_content_id_def
      at_filename_def split: disposition.splits)

lemma inline_not_file: "is_inline p \<Longrightarrow> \<not> is_file p" "is_html p \<Longrightarrow> \<not> is_file p" "\<not> is_file (PlainPart t)" "is_html (HtmlPart h)"
  by (auto simp: is_inline_def is_file_def is_html_def)

lemma html_part_eq:
  "html_part L inline html = Done (case html of
     None \<Rightarrow> Ok None
   | Some h \<Rightarrow> (case find (part_refused L) inline of
        Some a \<Rightarrow> Err (InvalidContentType (at_content_type a))
      | None \<Rightarrow> Ok (Some (if inline = [] then Single (HtmlPart h)
          else Multi Related (Single (HtmlPart h) # map (Single \<circ> part_of L) inline)))))"
  by (auto simp: html_part_def push_parts_eq split: option.splits)

lemma mail_body_eq:
  "mail_body L mail = bind_outcome (rendered L mail) (\<lambda>html.
     if html = None \<and> inline_of mail \<noteq> [] then Done (Err InlineWithoutHtml)
     else bind_outcome (text_part (mail_text mail) html) (\<lambda>text.
       try_done (html_part L (inline_of mail) html) (\<lambda>html.
       try_done (Done (alternatives text html)) (\<lambda>content.
         if attached_of mail = [] then Done (Ok content)
         else try_done (push_parts L (attached_of mail) [content]) (\<lambda>parts. Done (Ok (Multi Mixed parts)))))))"
  unfolding mail_body_def rendered_def inline_of_def attached_of_def Let_def by (rule refl)

text \<open>The bodies of a mail: its text, and its HTML with what the HTML embeds.\<close>

lemma bodies:
  assumes "html_part L inline html = Done (Ok part)" "alternatives text part = Ok content"
    "html = None \<Longrightarrow> inline = []" "list_all is_inline (map (part_of L) inline)"
  shows "leaves content = (case text of None \<Rightarrow> [] | Some t \<Rightarrow> [PlainPart t]) @ (case html of None \<Rightarrow> [] | Some h \<Rightarrow> [HtmlPart h])
      @ map (part_of L) inline \<and> tree_ok content"
proof -
  have p: "part = (case html of None \<Rightarrow> None | Some h \<Rightarrow> Some (if inline = [] then Single (HtmlPart h)
      else Multi Related (Single (HtmlPart h) # map (Single \<circ> part_of L) inline)))"
    using assms(1) by (auto simp: html_part_eq split: option.splits)
  have inline: "is_inline p" if "p \<in> part_of L ` set inline" for p
    using assms(4) that by (auto simp: list_all_iff)
  show ?thesis
  proof (cases html)
    case None
    with p assms(2,3) show ?thesis by (cases "text") auto
  next
    case (Some h)
    with p assms(2) inline show ?thesis
      by (cases "text") (auto simp: is_html_def list_all_iff Suc_le_eq)
  qed
qed

lemma bodies_not_files:
  assumes "leaves content = (case text of None \<Rightarrow> [] | Some t \<Rightarrow> [PlainPart t]) @ (case html of None \<Rightarrow> [] | Some h \<Rightarrow> [HtmlPart h]) @ ps"
    "list_all is_inline ps"
  shows "\<not> list_ex is_file (leaves content)"
  using assms by (auto simp: list_ex_iff list_all_iff inline_not_file split: option.splits)

text \<open>C26. The body of an assembled mail holds its text, then its HTML, then what the HTML embeds, then the files, each
  attachment exactly once and in order; the text stands before the HTML as the less preferred alternative, what is
  embedded is related to the HTML, the files stand outside both, and no multipart has a single part.\<close>

theorem mail_body_tree:
  assumes "mail_body L mail = Done (Ok content)"
  shows "\<exists>html text. rendered L mail = Done html \<and> text_part (mail_text mail) html = Done text \<and>
    leaves content = (case text of None \<Rightarrow> [] | Some t \<Rightarrow> [PlainPart t]) @ (case html of None \<Rightarrow> [] | Some h \<Rightarrow> [HtmlPart h])
      @ map (part_of L) (inline_of mail) @ map (part_of L) (attached_of mail) \<and>
    mset (inline_of mail) + mset (attached_of mail) = mset (mail_attachments mail) \<and> tree_ok content"
proof -
  obtain html t part b where r: "rendered L mail = Done html" "text_part (mail_text mail) html = Done t"
    and parts: "html_part L (inline_of mail) html = Done (Ok part)" "alternatives t part = Ok b"
    and none: "html = None \<Longrightarrow> inline_of mail = []"
    and c: "content = (if attached_of mail = [] then b
      else Multi Mixed (b # map (Single \<circ> part_of L) (attached_of mail)))"
    using assms unfolding mail_body_eq bind_outcome_Done
    by (fastforce simp: bind_outcome_Done try_done_Ok push_parts_eq split: if_splits option.splits)
  from parts(1,2) none parts_kinds(1) have tree: "leaves b = (case t of None \<Rightarrow> [] | Some t \<Rightarrow> [PlainPart t])
      @ (case html of None \<Rightarrow> [] | Some h \<Rightarrow> [HtmlPart h]) @ map (part_of L) (inline_of mail) \<and> tree_ok b"
    by (rule bodies)
  have "\<not> list_ex is_file (leaves b)" by (rule bodies_not_files [OF conjunct1 [OF tree] parts_kinds(1)])
  with tree parts_kinds(2) [of L mail] have "tree_ok content"
    by (auto simp: c list_all_iff Suc_le_eq split: option.splits)
  moreover have "leaves content = leaves b @ map (part_of L) (attached_of mail)" by (simp add: c)
  ultimately show ?thesis using r tree every_attachment_once [of mail] by simp
qed

text \<open>C30. Assembling the body of a mail refuses exactly what it should: embedded content without an HTML that could refer to
  it, a mail without a body, and otherwise the first content type that is none, embedded attachments first.\<close>

theorem mail_body_refuses:
  assumes "rendered L mail = Done html" "text_part (mail_text mail) html = Done txt"
  shows "mail_body L mail = Done (Err e) \<longleftrightarrow>
      e = InlineWithoutHtml \<and> html = None \<and> inline_of mail \<noteq> []
    \<or> e = MissingBody \<and> html = None \<and> inline_of mail = [] \<and> txt = None
    \<or> (html \<noteq> None \<or> inline_of mail = [] \<and> txt \<noteq> None) \<and>
        (\<exists>a. find (part_refused L) (inline_of mail @ attached_of mail) = Some a \<and> e = InvalidContentType (at_content_type a))"
proof -
  have find_app: "find P (xs @ ys) = (case find P xs of None \<Rightarrow> find P ys | Some x \<Rightarrow> Some x)" for P :: "attachment \<Rightarrow> bool" and xs ys
    by (induction xs) auto
  have files: "try_done (push_parts L as cs) (\<lambda>ps. Done (Ok (k ps))) = Done (Err e) \<longleftrightarrow>
      (\<exists>a. find (part_refused L) as = Some a \<and> e = InvalidContentType (at_content_type a))" for as cs and k :: "'c content list \<Rightarrow> 'c content"
    by (auto simp: push_parts_eq split: option.splits)
  show ?thesis
  proof (cases html)
    case None
    with assms show ?thesis
      by (cases "txt"; cases "inline_of mail = []") (auto simp: mail_body_eq html_part_eq files)
  next
    case (Some h)
    show ?thesis
    proof (cases "find (part_refused L) (inline_of mail)")
      case None
      with assms Some show ?thesis by (cases "txt") (auto simp: mail_body_eq html_part_eq files find_app)
    next
      case bad: (Some a)
      with assms Some show ?thesis by (auto simp: mail_body_eq html_part_eq find_app)
    qed
  qed
qed

subsection \<open>The headers of a message\<close>

fun recipient :: "'a header_call \<Rightarrow> (str option \<times> 'a) option" where
  "recipient (CallTo m) = Some m"
| "recipient (CallCc m) = Some m"
| "recipient (CallBcc m) = Some m"
| "recipient _ = None"

definition recipients :: "'a header_call list \<Rightarrow> (str option \<times> 'a) list" where
  "recipients calls = List.map_filter recipient calls"

fun raw_call :: "'a header_call \<Rightarrow> (str \<times> str) option" where
  "raw_call (RawHeader n v) = Some (n, v)"
| "raw_call _ = None"

lemma recipients_simps [simp]:
  "recipients [] = []" "recipients (xs @ ys) = recipients xs @ recipients ys"
  "recipients (x # xs) = (case recipient x of Some m \<Rightarrow> m # recipients xs | None \<Rightarrow> recipients xs)"
  by (simp_all add: recipients_def map_filter_def split: option.split)

lemma recipients_map:
  "recipients (map (CallTo \<circ> to_lettre) xs) = map to_lettre xs" "recipients (map (CallCc \<circ> to_lettre) xs) = map to_lettre xs"
  "recipients (map (CallBcc \<circ> to_lettre) xs) = map to_lettre xs" "recipients (map (CallReplyTo \<circ> to_lettre) xs) = []"
  by (induction xs) simp_all

lemma raw_headers_eq:
  "raw_headers L hs calls = (case find (\<lambda>(n, _). \<not> ml_header_name L n) hs of
     Some (n, _) \<Rightarrow> Err (InvalidHeaderName n) | None \<Rightarrow> Ok (calls @ map (\<lambda>(n, v). RawHeader n v) hs))"
  by (induction L hs calls rule: raw_headers.induct) (auto split: option.splits)

lemma raw_calls [simp]: "recipients (map (\<lambda>(n, v). RawHeader n v) hs) = []"
  by (induction hs) auto

lemma map_filter_append: "List.map_filter f (xs @ ys) = List.map_filter f xs @ List.map_filter f ys"
  by (simp add: map_filter_def)

text \<open>A message that is assembled goes to every recipient of the mail, the hidden ones included, and its builder is told
  to keep the hidden ones' header only where the message is kept for inspection; without a sender, without a recipient
  or with a custom header whose name is none there is no message.\<close>

theorem message_headers_exact:
  "case message_headers L bcc mail of
     Ok calls \<Rightarrow> (\<exists>m. mail_from mail = Some m \<and> hd calls = CallFrom (to_lettre m)) \<and>
       recipients calls = map to_lettre (mail_to mail @ mail_cc mail @ mail_bcc mail) \<and> recipients calls \<noteq> [] \<and>
       (KeepBcc \<in> set calls \<longleftrightarrow> bcc = BccKept) \<and> List.map_filter raw_call calls = mail_headers mail \<and>
       list_all (ml_header_name L \<circ> fst) (mail_headers mail)
   | Err e \<Rightarrow> e = MissingFrom \<and> mail_from mail = None
     \<or> e = MissingRecipients \<and> mail_from mail \<noteq> None \<and> mail_to mail @ mail_cc mail @ mail_bcc mail = []
     \<or> (\<exists>n. e = InvalidHeaderName n \<and> n \<in> fst ` set (mail_headers mail) \<and> \<not> ml_header_name L n)"
proof (cases "mail_from mail")
  case None
  then show ?thesis by (simp add: message_headers_def)
next
  case (Some m)
  show ?thesis
  proof (cases "mail_to mail = [] \<and> mail_cc mail = [] \<and> mail_bcc mail = []")
    case True
    with Some show ?thesis by (simp add: message_headers_def)
  next
    case False
    show ?thesis
    proof (cases "find (\<lambda>(n, _). \<not> ml_header_name L n) (mail_headers mail)")
      case found: (Some h)
      then have "h \<in> set (mail_headers mail)" "\<not> ml_header_name L (fst h)" by (auto simp: find_Some_iff split_beta)
      with Some False found show ?thesis by (auto simp: message_headers_def raw_headers_eq split_beta)
    next
      case none: None
      have raw: "List.map_filter raw_call (map (\<lambda>(n, v). RawHeader n v) hs) = hs" for hs :: "(str \<times> str) list"
        by (induction hs) (auto simp: map_filter_def)
      have no_raw: "List.map_filter raw_call (map (f \<circ> to_lettre) xs) = []" if "\<And>m. raw_call (f m) = None"
        for f :: "str option \<times> 'a \<Rightarrow> 'a header_call" and xs
        using that by (simp add: map_filter_def filter_empty_conv)
      have "list_all (ml_header_name L \<circ> fst) (mail_headers mail)" using none by (auto simp: find_None_iff list_all_iff)
      moreover define extras :: "'a header_call list" where "extras =
        (case bcc of BccKept \<Rightarrow> [KeepBcc] | BccDropped \<Rightarrow> [])
         @ (if mail_subject mail \<noteq> [] then [CallSubject (mail_subject mail)] else [])
         @ (case mail_date mail of Some date \<Rightarrow> [CallDate date] | None \<Rightarrow> [])
         @ [CallMessageId (mail_message_id mail)]
         @ (case mail_in_reply_to mail of Some i \<Rightarrow> [CallInReplyTo i] | None \<Rightarrow> [])
         @ (case mail_references mail of Some r \<Rightarrow> [CallReferences r] | None \<Rightarrow> [])"
      have "recipients extras = []"
        unfolding extras_def by (cases bcc; cases "mail_date mail"; cases "mail_in_reply_to mail"; cases "mail_references mail") simp_all
      moreover have "List.map_filter raw_call extras = []"
        unfolding extras_def by (cases bcc; cases "mail_date mail"; cases "mail_in_reply_to mail"; cases "mail_references mail")
          (simp_all add: map_filter_def)
      moreover have "KeepBcc \<in> set extras \<longleftrightarrow> bcc = BccKept"
        unfolding extras_def by (cases bcc; cases "mail_date mail"; cases "mail_in_reply_to mail"; cases "mail_references mail") simp_all
      moreover have "message_headers L bcc mail = Ok (CallFrom (to_lettre m) # map (CallTo \<circ> to_lettre) (mail_to mail)
          @ map (CallCc \<circ> to_lettre) (mail_cc mail) @ map (CallBcc \<circ> to_lettre) (mail_bcc mail)
          @ map (CallReplyTo \<circ> to_lettre) (mail_reply_to mail) @ extras @ map (\<lambda>(n, v). RawHeader n v) (mail_headers mail))"
        using Some False none by (simp add: message_headers_def raw_headers_eq extras_def)
      ultimately show ?thesis using Some False
        by (auto simp: recipients_map raw no_raw map_filter_append map_filter_simps)
    qed
  qed
qed

subsection \<open>Panics, and the transports\<close>

text \<open>Assembling a mail panics only where rendering its HTML does: its text can be derived from any HTML, and no
  attachment is of neither kind.\<close>

theorem mail_message_returns:
  assumes "\<And>v. mail_html mail = Some v \<Longrightarrow> \<exists>h. ml_render L v = Done h \<and> well_formed h"
  shows "\<exists>r. mail_message L mail bcc w = Done r"
proof -
  obtain html where html: "rendered L mail = Done html" "\<forall>h. html = Some h \<longrightarrow> well_formed h"
  proof (cases "mail_html mail")
    case None
    then show ?thesis using that [of None] by (simp add: rendered_def)
  next
    case (Some v)
    with assms obtain h where "ml_render L v = Done h" "well_formed h" by blast
    with Some show ?thesis using that [of "Some h"] by (simp add: rendered_def)
  qed
  have "\<exists>t. text_part (mail_text mail) html = Done t"
    using html(2) text_returns by (fastforce simp: text_part_def split: text_body.splits option.splits)
  then obtain t where t: "text_part (mail_text mail) html = Done t" by blast
  have step: "\<exists>y. try_done m f = Done y" if "m = Done x" "\<And>x. \<exists>y. f x = Done y"
    for m :: "('x, send_error) result outcome" and f :: "'x \<Rightarrow> ('y, send_error) result outcome" and x
    using that by (cases x) simp_all
  have "\<exists>r. mail_body L mail = Done r"
    unfolding mail_body_eq html(1) bind_outcome.simps t
    by (auto simp: html_part_eq push_parts_eq intro!: step)
  then obtain r where "mail_body L mail = Done r" by blast
  then show ?thesis by (auto simp: mail_message_def split: sum.splits prod.splits)
qed

text \<open>What is done with the clones of a memory transport, and what each send answered.\<close>

datatype ('a, 'v) memory_op = SendMail "('a, 'v) mail" | ClearSent

fun memory_run :: "('a, 'v, 'c, 'm, 'w) mail_lib \<Rightarrow> ('a, 'v) memory_op list \<Rightarrow> ('a, 'v) mail list \<Rightarrow> 'w \<Rightarrow>
    ((('a, 'v) memory_op \<times> (str, send_error) result option) list \<times> ('a, 'v) mail list \<times> 'w) outcome" where
  "memory_run L [] sent w = Done ([], sent, w)"
| "memory_run L (SendMail m # ops) sent w =
     bind_outcome (memory_send L sent w m) (\<lambda>(r, sent, w).
     bind_outcome (memory_run L ops sent w) (\<lambda>(log, sent, w). Done ((SendMail m, Some r) # log, sent, w)))"
| "memory_run L (ClearSent # ops) sent w =
     bind_outcome (memory_run L ops (memory_clear sent) w) (\<lambda>(log, sent, w). Done ((ClearSent, None) # log, sent, w))"

fun accepted :: "('a, 'v) memory_op \<times> (str, send_error) result option \<Rightarrow> ('a, 'v) mail option" where
  "accepted (SendMail m, Some (Inr _)) = Some m"
| "accepted _ = None"

definition since_clear :: "(('a, 'v) memory_op \<times> 'r) list \<Rightarrow> (('a, 'v) memory_op \<times> 'r) list" where
  "since_clear log = rev (takeWhile (\<lambda>e. fst e \<noteq> ClearSent) (rev log))"

definition clears :: "(('a, 'v) memory_op \<times> 'r) list \<Rightarrow> bool" where
  "clears log \<longleftrightarrow> (\<exists>e \<in> set log. fst e = ClearSent)"

lemma clears_simps [simp]: "\<not> clears []" "clears (e # log) \<longleftrightarrow> fst e = ClearSent \<or> clears log"
  by (simp_all add: clears_def)

lemma since_clear_Cons: "since_clear (e # log) = (if clears log \<or> fst e = ClearSent then since_clear log else e # since_clear log)"
proof (cases "clears log")
  case True
  then show ?thesis by (auto simp: since_clear_def takeWhile_append clears_def)
next
  case False
  then have all: "takeWhile (\<lambda>e. fst e \<noteq> ClearSent) (rev log) = rev log" by (auto simp: clears_def)
  have "since_clear (e # log) = (if fst e = ClearSent then log else e # log)"
    unfolding since_clear_def rev.simps takeWhile_append all using False by (auto simp: clears_def)
  moreover have "since_clear log = log" unfolding since_clear_def all by simp
  ultimately show ?thesis using False by simp
qed

lemma memory_run_holds:
  assumes "memory_run L ops sent w = Done (log, sent', w')"
  shows "sent' = (if clears log then [] else sent) @ List.map_filter accepted (since_clear log)"
  using assms
proof (induction L ops sent w arbitrary: log sent' w' rule: memory_run.induct)
  case (1 L sent w)
  then show ?case by (simp add: since_clear_def map_filter_def)
next
  case (2 L m ops sent w)
  then obtain r s1 w1 log' where s: "memory_send L sent w m = Done (r, s1, w1)" "memory_run L ops s1 w1 = Done (log', sent', w')"
    "log = (SendMail m, Some r) # log'" by (auto simp: bind_outcome_Done)
  have "s1 = sent @ (case accepted (SendMail m, Some r) of Some m \<Rightarrow> [m] | None \<Rightarrow> [])"
    using s(1) by (cases "mail_message L m BccDropped w") (auto simp: memory_send_def split: sum.splits)
  with 2(1) [OF s(2)] show ?case
    by (auto simp: s(3) since_clear_Cons map_filter_simps split: option.splits)
next
  case (3 L ops sent w)
  then obtain log' where s: "memory_run L ops [] w = Done (log', sent', w')" "log = (ClearSent, None) # log'"
    by (auto simp: bind_outcome_Done memory_clear_def)
  with 3(1) [of log' sent' w'] show ?case by (simp add: memory_clear_def since_clear_Cons)
qed

text \<open>C38. A memory transport holds exactly the mails it gave a receipt for since it was last emptied, in the order they
  were sent: a mail that could not be assembled leaves no trace.\<close>

theorem memory_holds_accepted:
  assumes "memory_run L ops memory_new w = Done (log, sent, w')"
  shows "sent = List.map_filter accepted (since_clear log)"
  using memory_run_holds [OF assms] by (simp add: memory_new_def)

text \<open>The file transport writes nothing outside its directory, whatever the id of the message says: what it does
  depends on how writing behaves only for the names directly below the directory.\<close>

theorem file_send_confined:
  assumes "\<And>w. CHR ''/'' \<notin> set (ml_timestamp L w)"
    and "\<And>n wire w. CHR ''/'' \<notin> set n \<Longrightarrow> suffix ''.eml'' n \<Longrightarrow> write [directory, n] wire w = ml_write L [directory, n] wire w"
  shows "file_send (L\<lparr>ml_write := write\<rparr>) directory w mail = file_send L directory w mail"
proof -
  have parts: "part_of (L\<lparr>ml_write := write\<rparr>) = part_of L" "part_refused (L\<lparr>ml_write := write\<rparr>) = part_refused L"
    by (simp_all add: fun_eq_iff part_of_def part_refused_def)
  have names: "ml_header_name (L\<lparr>ml_write := write\<rparr>) = ml_header_name L" "ml_assemble (L\<lparr>ml_write := write\<rparr>) = ml_assemble L" by simp_all
  have "rendered (L\<lparr>ml_write := write\<rparr>) mail = rendered L mail"
    by (cases "mail_html mail") (simp_all add: rendered_def)
  then have tree: "mail_body (L\<lparr>ml_write := write\<rparr>) mail = mail_body L mail"
    unfolding mail_body_eq html_part_eq push_parts_eq parts by (rule arg_cong)
  have hdrs: "message_headers (L\<lparr>ml_write := write\<rparr>) BccKept mail = message_headers L BccKept mail"
      unfolding message_headers_def raw_headers_eq names by (rule refl)
  have message: "mail_message (L\<lparr>ml_write := write\<rparr>) mail BccKept w = mail_message L mail BccKept w"
    unfolding mail_message_def names tree hdrs by (rule refl)
  have "CHR ''/'' \<notin> set (filename_safe mid)" for mid
    by (auto simp: filename_safe_def is_ascii_alphanumeric_def is_ascii_alphabetic_def is_ascii_digit_def Let_def dest!: in_set_takeD)
  then have "write [directory, ml_timestamp L v @ ''-'' @ filename_safe mid @ ''.eml''] wire u =
      ml_write L [directory, ml_timestamp L v @ ''-'' @ filename_safe mid @ ''.eml''] wire u" for v mid wire u
    using assms(1) by (intro assms(2)) (auto simp: suffix_def)
  then show ?thesis by (simp add: file_send_def message message_id_def Let_def cong: sum.case_cong prod.case_cong)
qed

subsection \<open>Concrete mails\<close>

definition demo_lib :: "(nat, str, str, nat, nat) mail_lib" where
  "demo_lib = \<lparr>ml_render = Done, ml_content_type = (\<lambda>s. if CHR ''/'' \<in> set s then Some s else None),
     ml_header_name = (\<lambda>n. CHR '' '' \<notin> set n), ml_assemble = (\<lambda>_ _ w. (Ok w, w + 1)), ml_get_raw = (\<lambda>_ _. Some ''<7@x>''),
     ml_formatted = (\<lambda>_. ''wire''), ml_submit = (\<lambda>_ w. (Ok (), w)), ml_timestamp = (\<lambda>_. ''20240229-235959''),
     ml_create_dir = (\<lambda>_ w. (Ok (), w)), ml_write = (\<lambda>_ _ w. (Ok (), w + 1))\<rparr>"

definition demo_mail :: "(nat, str) mail" where
  "demo_mail = builder_attachments [attachment_new ''a.pdf'' ''application/pdf'' ''x'', attachment_inline ''logo'' ''image/png'' ''y'']
     (builder_text NoText (builder_html ''<p>'' (builder_to [\<lparr>mb_name = None, mb_address = 1\<rparr>]
       (builder_from \<lparr>mb_name = None, mb_address = 0\<rparr> mail_builder))))"

lemmas demo = demo_lib_def demo_mail_def mail_builder_def builder_from_def builder_to_def builder_html_def builder_text_def
  builder_attachments_def attachment_new_def attachment_inline_def

lemma demo_body: "mail_body demo_lib demo_mail = Done (Ok (Multi Mixed
    [Multi Related [Single (HtmlPart ''<p>''), Single (InlinePart ''logo'' ''y'' ''image/png'')],
     Single (FilePart ''a.pdf'' ''x'' ''application/pdf'')]))"
  by (simp add: mail_body_eq rendered_def inline_of_def attached_of_def html_part_eq push_parts_eq text_part_def part_refused_def
      part_of_def demo at_content_id_def at_filename_def)

theorem mail_body_tree_witness:
  "\<exists>c. mail_body demo_lib demo_mail = Done (Ok c) \<and> length (leaves c) = 3 \<and> tree_ok c"
proof -
  from mail_body_tree [OF demo_body] have "tree_ok (Multi Mixed
    [Multi Related [Single (HtmlPart ''<p>''), Single (InlinePart ''logo'' ''y'' ''image/png'')],
     Single (FilePart ''a.pdf'' ''x'' ''application/pdf'')])" by blast
  with demo_body show ?thesis by simp
qed

theorem mail_body_refuses_witness:
  "rendered demo_lib mail_builder = Done None \<and> text_part (mail_text (mail_builder :: (nat, str) mail)) None = Done None \<and>
   mail_body demo_lib mail_builder = Done (Err MissingBody)"
proof (intro conjI)
  show h: "rendered demo_lib mail_builder = Done None" by (simp add: rendered_def mail_builder_def)
  show t: "text_part (mail_text (mail_builder :: (nat, str) mail)) None = Done None" by (simp add: text_part_def mail_builder_def)
  show "mail_body demo_lib mail_builder = Done (Err MissingBody)"
    unfolding mail_body_refuses [OF h t] by (simp add: inline_of_def mail_builder_def)
qed

theorem mail_message_returns_witness:
  "\<exists>h. ml_render demo_lib ''<p>'' = Done h \<and> well_formed h \<and> (\<exists>r. mail_message demo_lib demo_mail BccDropped 0 = Done r)"
proof -
  have "well_formed ''<p>''" by (rule well_formed_ascii) (simp add: ascii_def)
  then have h: "\<exists>h. ml_render demo_lib v = Done h \<and> well_formed h" if "mail_html demo_mail = Some v" for v
    using that by (simp add: demo)
  have "mail_html demo_mail = Some ''<p>''" by (simp add: demo)
  from h [OF this] mail_message_returns [of demo_mail demo_lib BccDropped 0, OF h] show ?thesis by blast
qed

theorem memory_holds_accepted_witness:
  "\<exists>log. memory_run demo_lib [SendMail demo_mail, ClearSent, SendMail mail_builder, SendMail demo_mail] memory_new 0
      = Done (log, [demo_mail], 2) \<and> List.map_filter accepted (since_clear log) = [demo_mail]"
proof -
  have fields: "ml_assemble demo_lib = (\<lambda>_ _ w. (Ok w, w + 1))" "ml_get_raw demo_lib = (\<lambda>_ _. Some ''<7@x>'')"
    by (simp_all add: demo_lib_def)
  have hdrs: "message_headers demo_lib b demo_mail = Ok (CallFrom (None, 0) # CallTo (None, 1) #
      (case b of BccKept \<Rightarrow> [KeepBcc] | BccDropped \<Rightarrow> []) @ [CallMessageId None])" for b
    by (simp add: message_headers_def demo to_lettre_def)
  have sends: "memory_send demo_lib sent w demo_mail = Done (Ok ''<7@x>'', sent @ [demo_mail], w + 1)" for sent w
    by (simp add: memory_send_def mail_message_def message_id_def hdrs demo_body fields)
  have "memory_send demo_lib sent w mail_builder = Done (Err MissingFrom, sent, w)" for sent w
    by (simp add: memory_send_def mail_message_def message_headers_def mail_builder_def)
  with sends have run: "memory_run demo_lib [SendMail demo_mail, ClearSent, SendMail mail_builder, SendMail demo_mail] memory_new 0 =
      Done ([(SendMail demo_mail, Some (Ok ''<7@x>'')), (ClearSent, None), (SendMail mail_builder, Some (Err MissingFrom)),
        (SendMail demo_mail, Some (Ok ''<7@x>''))], [demo_mail], 2)" (is "_ = Done (?log, _)")
    by (simp add: memory_clear_def)
  with memory_holds_accepted [OF run] show ?thesis by (intro exI [of _ ?log]) simp
qed

theorem file_send_confined_witness:
  "file_send (demo_lib\<lparr>ml_write := \<lambda>p wire w. if CHR ''/'' \<in> set (p ! 1) then (Err ''outside'', w) else (Ok (), w + 1)\<rparr>) ''mail'' 0 demo_mail
   = file_send demo_lib ''mail'' 0 demo_mail"
  by (rule file_send_confined) (simp_all add: demo_lib_def)

end
