(* ===== verification/Contexts.thy ===== *)
theory Contexts
  imports Http_Types "HOL-Library.Word"
begin

text \<open>
  The context of a request (\<^verbatim>\<open>context.rs\<close> and \<^verbatim>\<open>context\<close> of \<^verbatim>\<open>crates/topcoat-core/src\<close>): values by type in
  scopes that inherit from one another, and the trackers that record what a memoized call reads of them.  Types are
  \<open>'t\<close>, values \<open>'v\<close>.  A handle holds its scope and the index of its tracker in the store of trackers, which the clones of
  a handle share.
\<close>

subsection \<open>Bindings\<close>

text \<open>A fresh id: the counter, a panic when it has wrapped around.\<close>

definition binding_new :: "64 word \<Rightarrow> (64 word \<times> 64 word) option" where
  "binding_new counter = (if counter = 0 then None else Some (counter, counter + 1))"

type_synonym ('t, 'v) request_context = "'t \<Rightarrow> (64 word \<times> 'v) option"

definition rc_insert :: "'t \<Rightarrow> 'v \<Rightarrow> ('t, 'v) request_context \<Rightarrow> 64 word \<Rightarrow> (('t, 'v) request_context \<times> 64 word) option" where
  "rc_insert t v c counter = map_option (\<lambda>(b, counter). (c(t \<mapsto> (b, v)), counter)) (binding_new counter)"

definition rc_lookup :: "('t, 'v) request_context \<Rightarrow> 't \<Rightarrow> (64 word \<times> 'v) option" where
  "rc_lookup c t = c t"

definition rc_binding_id :: "('t, 'v) request_context \<Rightarrow> 't \<Rightarrow> 64 word option" where
  "rc_binding_id c t = map_option fst (c t)"

text \<open>Installing a tuple of values, in order.\<close>

fun rc_install :: "('t \<times> 'v) list \<Rightarrow> ('t, 'v) request_context \<Rightarrow> 64 word \<Rightarrow> (('t, 'v) request_context \<times> 64 word) option" where
  "rc_install [] c counter = Some (c, counter)"
| "rc_install ((t, v) # vs) c counter = Option.bind (rc_insert t v c counter) (\<lambda>(c, counter). rc_install vs c counter)"

subsection \<open>Reads and trackers\<close>

type_synonym 't context_read = "'t \<times> 64 word option"

definition read_matches :: "('t, 'v) request_context \<Rightarrow> 't context_read \<Rightarrow> bool" where
  "read_matches c r \<longleftrightarrow> rc_binding_id c (fst r) = snd r"

record ('t, 'v) tracker =
  tk_entry :: "('t, 'v) request_context"
  tk_reads :: "'t context_read list"

definition tracker_new :: "('t, 'v) request_context \<Rightarrow> ('t, 'v) tracker" where
  "tracker_new entry = \<lparr>tk_entry = entry, tk_reads = []\<rparr>"

fun merge_loop :: "('t, 'v) request_context \<Rightarrow> 't context_read list \<Rightarrow> 't context_read list \<Rightarrow> 't context_read list" where
  "merge_loop entry [] own = own"
| "merge_loop entry (r # rs) own =
     merge_loop entry rs (if read_matches entry r \<and> r \<notin> set own then own @ [r] else own)"

definition tracker_merge :: "'t context_read list \<Rightarrow> ('t, 'v) tracker \<Rightarrow> ('t, 'v) tracker" where
  "tracker_merge rs k = (if rs = [] then k else k\<lparr>tk_reads := merge_loop (tk_entry k) rs (tk_reads k)\<rparr>)"

definition tracker_record :: "'t context_read \<Rightarrow> ('t, 'v) tracker \<Rightarrow> ('t, 'v) tracker" where
  "tracker_record r k = tracker_merge [r] k"

definition take_reads :: "nat \<Rightarrow> ('t, 'v) tracker list \<Rightarrow> 't context_read list \<times> ('t, 'v) tracker list" where
  "take_reads i ks = (tk_reads (ks ! i), ks[i := (ks ! i)\<lparr>tk_reads := []\<rparr>])"

subsection \<open>Handles\<close>

record ('t, 'v) handle_cx =
  hx_context :: "('t, 'v) request_context"
  hx_tracker :: "nat option"

text \<open>What merging into the tracker of a handle does to the store.\<close>

definition merge_into :: "nat option \<Rightarrow> 't context_read list \<Rightarrow> ('t, 'v) tracker list \<Rightarrow> ('t, 'v) tracker list" where
  "merge_into tracker rs ks = (case tracker of None \<Rightarrow> ks | Some i \<Rightarrow> ks[i := tracker_merge rs (ks ! i)])"

definition try_request_context :: "('t, 'v) handle_cx \<Rightarrow> 't \<Rightarrow> ('t, 'v) tracker list \<Rightarrow> 'v option \<times> ('t, 'v) tracker list" where
  "try_request_context cx t ks =
     (let binding = rc_lookup (hx_context cx) t
      in (map_option snd binding,
          case hx_tracker cx of
            None \<Rightarrow> ks
          | Some i \<Rightarrow> ks[i := tracker_record (t, map_option fst binding) (ks ! i)]))"

definition cx_with_many :: "('t \<times> 'v) list \<Rightarrow> ('t, 'v) handle_cx \<Rightarrow> 64 word \<Rightarrow> (('t, 'v) handle_cx \<times> 64 word) option" where
  "cx_with_many vs cx counter = map_option (\<lambda>(c, counter). (cx\<lparr>hx_context := c\<rparr>, counter)) (rc_install vs (hx_context cx) counter)"

definition cx_with :: "'t \<Rightarrow> 'v \<Rightarrow> ('t, 'v) handle_cx \<Rightarrow> 64 word \<Rightarrow> (('t, 'v) handle_cx \<times> 64 word) option" where
  "cx_with t v cx counter = map_option (\<lambda>(c, counter). (cx\<lparr>hx_context := c\<rparr>, counter)) (rc_insert t v (hx_context cx) counter)"

text \<open>A handle for a tracked call, and the index of its tracker.\<close>

definition cx_track :: "('t, 'v) handle_cx \<Rightarrow> ('t, 'v) tracker list \<Rightarrow> ('t, 'v) handle_cx \<times> nat \<times> ('t, 'v) tracker list" where
  "cx_track cx ks = (cx\<lparr>hx_tracker := Some (length ks)\<rparr>, length ks, ks @ [tracker_new (hx_context cx)])"

subsection \<open>Facts\<close>

lemma cx_with_single: "cx_with_many [(t, v)] cx counter = cx_with t v cx counter"
  by (cases "rc_insert t v (hx_context cx) counter") (auto simp: cx_with_many_def cx_with_def)

lemma merge_loop_set: "set (merge_loop entry rs own) = set own \<union> {r \<in> set rs. read_matches entry r}"
  by (induction entry rs own rule: merge_loop.induct) auto

lemma tracker_merge_simps [simp]:
  "tk_entry (tracker_merge rs k) = tk_entry k"
  "set (tk_reads (tracker_merge rs k)) = set (tk_reads k) \<union> {r \<in> set rs. read_matches (tk_entry k) r}"
  by (auto simp: tracker_merge_def merge_loop_set)

lemma record_eq_merge: "try_request_context cx t ks = (map_option snd (hx_context cx t),
    merge_into (hx_tracker cx) [(t, rc_binding_id (hx_context cx) t)] ks)"
  by (simp add: try_request_context_def rc_lookup_def merge_into_def tracker_record_def rc_binding_id_def Let_def
      split: option.split)

lemma length_merge_into [simp]: "length (merge_into i rs ks) = length ks"
  by (simp add: merge_into_def split: option.split)

text \<open>The ids issued so far, and what a fresh one does to them.\<close>

definition issued :: "64 word \<Rightarrow> 64 word \<Rightarrow> bool" where
  "issued counter b \<longleftrightarrow> b \<noteq> 0 \<and> (counter = 0 \<or> b < counter)"

lemma binding_new_fresh:
  assumes "binding_new counter = Some (b, counter')"
  shows "\<not> issued counter b" "issued counter' x \<longleftrightarrow> issued counter x \<or> x = b"
proof -
  have b: "b = counter" "counter' = counter + 1" "counter \<noteq> 0"
    using assms by (auto simp: binding_new_def split: if_splits)
  then show "\<not> issued counter b" by (simp add: issued_def)
  have "x < counter + 1 \<longleftrightarrow> x < counter \<or> x = counter" if "counter + 1 \<noteq> 0"
  proof -
    have "unat (counter + 1) = Suc (unat counter)" using that unatSuc [of counter] by (simp add: add.commute)
    then show ?thesis by (auto simp: word_less_nat_alt less_Suc_eq word_unat_eq_iff)
  qed
  moreover have "x < counter \<or> x = counter" if "counter + 1 = 0"
  proof -
    have "counter = - 1" using that by (simp add: eq_neg_iff_add_eq_0)
    then show ?thesis using word_order.extremum [of x] by (auto simp: less_le)
  qed
  ultimately show "issued counter' x \<longleftrightarrow> issued counter x \<or> x = b"
    using b by (auto simp: issued_def)
qed

end
