(* ===== verification/Memoize.thy ===== *)
theory Memoize
  imports Contexts
begin

text \<open>
  Memoized functions (\<^verbatim>\<open>memoize/cell.rs\<close>, \<^verbatim>\<open>memoize/cache.rs\<close>, \<^verbatim>\<open>memoize/recursion.rs\<close> of
  \<^verbatim>\<open>crates/topcoat-core/src\<close>).  An entry of the cache keeps, for one function and its arguments, the results
  computed so far, each with the reads of the context it rests on.  The body of a function is a tree of what it does with
  the contexts it holds: reading a value, deriving a scope, calling a memoized function.  The main theorem says that
  running with the cache gives what running without it gives.
\<close>

subsection \<open>Bodies\<close>

text \<open>A body names the contexts it holds by their place: the one it was given is 0, the scopes it derives follow.\<close>

datatype ('t, 'v, 'f, 'k) body =
    Return 'v
  | PanicNow
  | ReadCx nat 't "'v option \<Rightarrow> ('t, 'v, 'f, 'k) body"
  | WithCx nat "('t \<times> 'v) list" "('t, 'v, 'f, 'k) body"
  | CallCx nat 'f 'k "'v \<Rightarrow> ('t, 'v, 'f, 'k) body"

definition held :: "'a list \<Rightarrow> nat \<Rightarrow> 'a" where
  "held hs i = (if i < length hs then hs ! i else hs ! 0)"

subsection \<open>Cells\<close>

record ('t, 'v) variant =
  va_value :: 'v
  va_reads :: "'t context_read list"

record ('t, 'v) memo_cell =
  mc_first :: "('t, 'v) variant option"
  mc_rest :: "('t, 'v) variant list"
  mc_owned :: bool

record ('t, 'v, 'h) memo_world =
  mw_next :: "64 word"
  mw_trackers :: "('t, 'v) tracker list"
  mw_entries :: "'h \<Rightarrow> ('t, 'v) memo_cell option"

text \<open>How a run ends: with a value, by unwinding, or in the panic of the exhausted ids.\<close>

datatype ('v, 'w) run = Value 'v 'w | Unwound 'w | Exhausted

definition variant_matches :: "('t, 'v) request_context \<Rightarrow> ('t, 'v) variant \<Rightarrow> bool" where
  "variant_matches c va \<longleftrightarrow> list_all (read_matches c) (va_reads va)"

text \<open>Handing out a value replays its reads into the tracker around.\<close>

definition variant_reuse :: "('t, 'v) handle_cx \<Rightarrow> ('t, 'v) variant \<Rightarrow> ('t, 'v, 'h) memo_world \<Rightarrow> 'v \<times> ('t, 'v, 'h) memo_world" where
  "variant_reuse cx va w = (va_value va, w\<lparr>mw_trackers := merge_into (hx_tracker cx) (va_reads va) (mw_trackers w)\<rparr>)"

definition variants_find :: "('t, 'v) request_context \<Rightarrow> ('t, 'v) memo_cell \<Rightarrow> ('t, 'v) variant option" where
  "variants_find c cell = (case mc_first cell of
       None \<Rightarrow> None
     | Some first \<Rightarrow> if variant_matches c first then Some first else find (variant_matches c) (mc_rest cell))"

definition variants_reuse :: "('t, 'v) handle_cx \<Rightarrow> ('t, 'v) memo_cell \<Rightarrow> ('t, 'v, 'h) memo_world \<Rightarrow> ('v \<times> ('t, 'v, 'h) memo_world) option" where
  "variants_reuse cx cell w = map_option (\<lambda>va. variant_reuse cx va w) (variants_find (hx_context cx) cell)"

definition variants_insert :: "('t, 'v) variant \<Rightarrow> ('t, 'v) memo_cell \<Rightarrow> ('t, 'v) memo_cell" where
  "variants_insert va cell = (case mc_first cell of
       None \<Rightarrow> cell\<lparr>mc_first := Some va\<rparr>
     | Some _ \<Rightarrow> cell\<lparr>mc_rest := mc_rest cell @ [va]\<rparr>)"

definition cell_default :: "('t, 'v) memo_cell" where
  "cell_default = \<lparr>mc_first = None, mc_rest = [], mc_owned = False\<rparr>"

definition get_or_insert_cell :: "'h \<Rightarrow> ('t, 'v, 'h) memo_world \<Rightarrow> ('t, 'v) memo_cell \<times> ('t, 'v, 'h) memo_world" where
  "get_or_insert_cell h w = (case mw_entries w h of
       Some cell \<Rightarrow> (cell, w)
     | None \<Rightarrow> (cell_default, w\<lparr>mw_entries := (mw_entries w)(h \<mapsto> cell_default)\<rparr>))"

definition map_cell :: "'h \<Rightarrow> (('t, 'v) memo_cell \<Rightarrow> ('t, 'v) memo_cell) \<Rightarrow> ('t, 'v, 'h) memo_world \<Rightarrow> ('t, 'v, 'h) memo_world" where
  "map_cell h g w = w\<lparr>mw_entries := (mw_entries w)(h := map_option g (mw_entries w h))\<rparr>"

text \<open>The guard marks the cell while its initializer runs, also when it unwinds.\<close>

definition guard_enter :: "'h \<Rightarrow> ('t, 'v, 'h) memo_world \<Rightarrow> ('t, 'v, 'h) memo_world" where
  "guard_enter h w = map_cell h (\<lambda>c. c\<lparr>mc_owned := True\<rparr>) w"

definition guard_leave :: "'h \<Rightarrow> ('t, 'v, 'h) memo_world \<Rightarrow> ('t, 'v, 'h) memo_world" where
  "guard_leave h w = map_cell h (\<lambda>c. c\<lparr>mc_owned := False\<rparr>) w"

definition memo_get_or_init :: "'h \<Rightarrow> ('t, 'v) handle_cx \<Rightarrow>
    (('t, 'v) handle_cx \<Rightarrow> ('t, 'v, 'h) memo_world \<Rightarrow> ('v, ('t, 'v, 'h) memo_world) run option) \<Rightarrow>
    ('t, 'v, 'h) memo_world \<Rightarrow> ('v, ('t, 'v, 'h) memo_world) run option" where
  "memo_get_or_init h cx initialize w =
     (let (cell, w) = get_or_insert_cell h w
      in case variants_reuse cx cell w of
           Some (v, w) \<Rightarrow> Some (Value v w)
         | None \<Rightarrow>
             if mc_owned cell then Some (Unwound w)
             else let (child, i, ks) = cx_track cx (mw_trackers w)
                  in (case initialize child (guard_enter h (w\<lparr>mw_trackers := ks\<rparr>)) of
                        None \<Rightarrow> None
                      | Some (Value v w) \<Rightarrow>
                          (let w = guard_leave h w;
                               (rs, ks) = take_reads i (mw_trackers w);
                               va = \<lparr>va_value = v, va_reads = rs\<rparr>;
                               w = map_cell h (variants_insert va) (w\<lparr>mw_trackers := ks\<rparr>);
                               (v, w) = variant_reuse cx va w
                           in Some (Value v w))
                      | Some (Unwound w) \<Rightarrow> Some (Unwound (guard_leave h w))
                      | Some Exhausted \<Rightarrow> Some Exhausted))"

subsection \<open>Running a body, with the cache and without\<close>

primrec run_body :: "(('t, 'v) handle_cx \<Rightarrow> 'f \<Rightarrow> 'k \<Rightarrow> ('t, 'v, 'h) memo_world \<Rightarrow> ('v, ('t, 'v, 'h) memo_world) run option) \<Rightarrow>
    ('t, 'v, 'f, 'k) body \<Rightarrow> ('t, 'v) handle_cx list \<Rightarrow> ('t, 'v, 'h) memo_world \<Rightarrow> ('v, ('t, 'v, 'h) memo_world) run option" where
  "run_body call (Return v) = (\<lambda>hs w. Some (Value v w))"
| "run_body call PanicNow = (\<lambda>hs w. Some (Unwound w))"
| "run_body call (ReadCx i t k) = (\<lambda>hs w.
     (let (v, ks) = try_request_context (held hs i) t (mw_trackers w)
      in run_body call (k v) hs (w\<lparr>mw_trackers := ks\<rparr>)))"
| "run_body call (WithCx i vs b) = (\<lambda>hs w.
     (case cx_with_many vs (held hs i) (mw_next w) of
        None \<Rightarrow> Some Exhausted
      | Some (h, counter) \<Rightarrow> run_body call b (hs @ [h]) (w\<lparr>mw_next := counter\<rparr>)))"
| "run_body call (CallCx i f key k) = (\<lambda>hs w.
     (case call (held hs i) f key w of
        None \<Rightarrow> None
      | Some (Value v w) \<Rightarrow> run_body call (k v) hs w
      | Some (Unwound w) \<Rightarrow> Some (Unwound w)
      | Some Exhausted \<Rightarrow> Some Exhausted))"

text \<open>A memoized call, for the functions \<open>P\<close> and the hash of a function and its arguments; the fuel bounds the depth
  of the calls.\<close>

fun memo_call :: "('f \<times> 'k \<Rightarrow> 'h) \<Rightarrow> ('f \<Rightarrow> 'k \<Rightarrow> ('t, 'v, 'f, 'k) body) \<Rightarrow> nat \<Rightarrow> ('t, 'v) handle_cx \<Rightarrow> 'f \<Rightarrow> 'k \<Rightarrow>
    ('t, 'v, 'h) memo_world \<Rightarrow> ('v, ('t, 'v, 'h) memo_world) run option" where
  "memo_call hash P 0 cx f key w = None"
| "memo_call hash P (Suc n) cx f key w =
     memo_get_or_init (hash (f, key)) cx (\<lambda>child. run_body (memo_call hash P n) (P f key) [child]) w"

text \<open>Looking without running.\<close>

definition memo_get :: "('f \<times> 'k \<Rightarrow> 'h) \<Rightarrow> ('t, 'v) handle_cx \<Rightarrow> 'f \<Rightarrow> 'k \<Rightarrow> ('t, 'v, 'h) memo_world \<Rightarrow> ('v \<times> ('t, 'v, 'h) memo_world) option" where
  "memo_get hash cx f key w = Option.bind (mw_entries w (hash (f, key))) (\<lambda>cell. variants_reuse cx cell w)"

text \<open>The reference: calls run their functions, scopes are maps.\<close>

definition scope_with :: "('t \<times> 'v) list \<Rightarrow> ('t \<rightharpoonup> 'v) \<Rightarrow> ('t \<rightharpoonup> 'v)" where
  "scope_with vs c = foldl (\<lambda>c (t, v). c(t \<mapsto> v)) c vs"

primrec plain_body :: "(('t \<rightharpoonup> 'v) \<Rightarrow> 'f \<Rightarrow> 'k \<Rightarrow> 'v option option) \<Rightarrow> ('t, 'v, 'f, 'k) body \<Rightarrow> ('t \<rightharpoonup> 'v) list \<Rightarrow> 'v option option" where
  "plain_body call (Return v) = (\<lambda>cs. Some (Some v))"
| "plain_body call PanicNow = (\<lambda>cs. Some None)"
| "plain_body call (ReadCx i t k) = (\<lambda>cs. plain_body call (k (held cs i t)) cs)"
| "plain_body call (WithCx i vs b) = (\<lambda>cs. plain_body call b (cs @ [scope_with vs (held cs i)]))"
| "plain_body call (CallCx i f key k) = (\<lambda>cs.
     (case call (held cs i) f key of
        None \<Rightarrow> None
      | Some None \<Rightarrow> Some None
      | Some (Some v) \<Rightarrow> plain_body call (k v) cs))"

fun plain_call :: "('f \<Rightarrow> 'k \<Rightarrow> ('t, 'v, 'f, 'k) body) \<Rightarrow> nat \<Rightarrow> ('t \<rightharpoonup> 'v) \<Rightarrow> 'f \<Rightarrow> 'k \<Rightarrow> 'v option option" where
  "plain_call P 0 c f key = None"
| "plain_call P (Suc n) c f key = plain_body (plain_call P n) (P f key) [c]"

subsection \<open>The values behind the ids\<close>

text \<open>An id stands for one value, \<open>\<sigma>\<close>.  A context agrees with reads when it resolves each of them to the binding observed.\<close>

definition vals :: "('t, 'v) request_context \<Rightarrow> ('t \<rightharpoonup> 'v)" where
  "vals c t = map_option snd (c t)"

definition ctx_ok :: "(64 word \<Rightarrow> 'v) \<Rightarrow> 64 word \<Rightarrow> ('t, 'v) request_context \<Rightarrow> bool" where
  "ctx_ok \<sigma> n c \<longleftrightarrow> (\<forall>t b v. c t = Some (b, v) \<longrightarrow> issued n b \<and> v = \<sigma> b)"

definition agrees :: "(64 word \<Rightarrow> 'v) \<Rightarrow> 't context_read set \<Rightarrow> ('t, 'v) request_context \<Rightarrow> bool" where
  "agrees \<sigma> rs c \<longleftrightarrow> (\<forall>(t, b) \<in> rs. c t = map_option (\<lambda>b. (b, \<sigma> b)) b)"

definition reads_ok :: "64 word \<Rightarrow> 't context_read set \<Rightarrow> bool" where
  "reads_ok n rs \<longleftrightarrow> (\<forall>t b. (t, Some b) \<in> rs \<longrightarrow> issued n b)"

text \<open>What running may do to the ids: issue more, and keep the values of the issued ones.\<close>

definition ids_grow :: "(64 word \<Rightarrow> 'v) \<Rightarrow> 64 word \<Rightarrow> (64 word \<Rightarrow> 'v) \<Rightarrow> 64 word \<Rightarrow> bool" where
  "ids_grow \<sigma> n \<sigma>' n' \<longleftrightarrow> (\<forall>b. issued n b \<longrightarrow> issued n' b \<and> \<sigma>' b = \<sigma> b)"

lemma ids_grow_refl [intro, simp]: "ids_grow \<sigma> n \<sigma> n"
  by (simp add: ids_grow_def)

lemma ids_grow_trans: "ids_grow \<sigma> n \<sigma>1 n1 \<Longrightarrow> ids_grow \<sigma>1 n1 \<sigma>2 n2 \<Longrightarrow> ids_grow \<sigma> n \<sigma>2 n2"
  by (simp add: ids_grow_def)

lemma ctx_ok_extends: "ids_grow \<sigma> n \<sigma>' n' \<Longrightarrow> ctx_ok \<sigma> n c \<Longrightarrow> ctx_ok \<sigma>' n' c"
  by (simp add: ids_grow_def ctx_ok_def)

lemma reads_ok_extends: "ids_grow \<sigma> n \<sigma>' n' \<Longrightarrow> reads_ok n rs \<Longrightarrow> reads_ok n' rs"
  by (simp add: ids_grow_def reads_ok_def)

lemma agrees_extends:
  assumes "ids_grow \<sigma> n \<sigma>' n'" "reads_ok n rs"
  shows "agrees \<sigma>' rs c \<longleftrightarrow> agrees \<sigma> rs c"
proof -
  have "map_option (\<lambda>b. (b, \<sigma>' b)) b = map_option (\<lambda>b. (b, \<sigma> b)) b" if "(t, b) \<in> rs" for t b
    using assms that by (cases b) (auto simp: ids_grow_def reads_ok_def)
  then show ?thesis by (auto simp: agrees_def)
qed

lemma agrees_mono: "agrees \<sigma> rs c \<Longrightarrow> rs' \<subseteq> rs \<Longrightarrow> agrees \<sigma> rs' c"
  by (auto simp: agrees_def)

lemma agrees_iff_matches:
  assumes "ctx_ok \<sigma> n c"
  shows "agrees \<sigma> rs c \<longleftrightarrow> (\<forall>r \<in> rs. read_matches c r)"
proof -
  have "c t = map_option (\<lambda>b. (b, \<sigma> b)) b \<longleftrightarrow> read_matches c (t, b)" for t b
  proof (cases "c t")
    case None
    then show ?thesis by (cases b) (simp_all add: read_matches_def rc_binding_id_def)
  next
    case (Some x)
    with assms have "snd x = \<sigma> (fst x)" by (cases x) (auto simp: ctx_ok_def)
    with Some show ?thesis by (cases b; cases x) (auto simp: read_matches_def rc_binding_id_def)
  qed
  then show ?thesis by (auto simp: agrees_def)
qed

lemma own_read_ok: "ctx_ok \<sigma> n c \<Longrightarrow> reads_ok n {(t, rc_binding_id c t)}"
  by (cases "c t") (auto simp: ctx_ok_def reads_ok_def rc_binding_id_def)

text \<open>Deriving a scope lays fresh bindings over it.\<close>

lemma scope_with_Cons: "scope_with ((t, v) # vs) c = scope_with vs (c(t \<mapsto> v))"
  by (simp add: scope_with_def)

lemma vals_update: "vals (c(t \<mapsto> (b, v))) = (vals c)(t \<mapsto> v)"
  by (auto simp: vals_def)

definition lays :: "('t \<times> 'v) list \<Rightarrow> (64 word \<Rightarrow> 'v) \<Rightarrow> 64 word \<Rightarrow> ('t, 'v) request_context \<Rightarrow> (64 word \<Rightarrow> 'v) \<Rightarrow> 64 word \<Rightarrow> bool" where
  "lays vs \<sigma> n over \<sigma>' n' \<longleftrightarrow> (\<forall>d. vals (d ++ over) = scope_with vs (vals d)) \<and> ids_grow \<sigma> n \<sigma>' n' \<and>
     (\<forall>t b v. over t = Some (b, v) \<longrightarrow> issued n' b \<and> v = \<sigma>' b)"

lemma rc_install_lays:
  "rc_install vs c n = Some (c', n') \<Longrightarrow> \<exists>over \<sigma>'. c' = c ++ over \<and> lays vs \<sigma> n over \<sigma>' n'"
proof (induction vs arbitrary: c n \<sigma>)
  case Nil
  then show ?case by (intro exI [of _ Map.empty] exI [of _ \<sigma>]) (simp add: scope_with_def lays_def)
next
  case (Cons tv vs)
  obtain t v where tv: "tv = (t, v)" by fastforce
  with Cons(2) obtain b n1 where b: "binding_new n = Some (b, n1)" and r: "rc_install vs (c(t \<mapsto> (b, v))) n1 = Some (c', n')"
    by (auto simp: rc_insert_def bind_eq_Some_conv)
  from Cons(1) [OF r, of "\<sigma>(b := v)"] obtain over \<sigma>' where o: "c' = c(t \<mapsto> (b, v)) ++ over" "lays vs (\<sigma>(b := v)) n1 over \<sigma>' n'"
    by blast
  note fresh = binding_new_fresh [OF b]
  have lay: "d(t \<mapsto> (b, v)) ++ over = d ++ ([t \<mapsto> (b, v)] ++ over)" for d
    by (auto simp: map_add_def fun_eq_iff split: option.split)
  have "vals (d ++ ([t \<mapsto> (b, v)] ++ over)) = scope_with (tv # vs) (vals d)" for d
  proof -
    have "vals (d(t \<mapsto> (b, v)) ++ over) = scope_with vs (vals (d(t \<mapsto> (b, v))))" using o(2) unfolding lays_def by blast
    then show ?thesis unfolding lay [of d] tv scope_with_Cons vals_update .
  qed
  moreover have "ids_grow \<sigma> n \<sigma>' n'" "issued n' b \<and> v = \<sigma>' b"
    using o(2) fresh by (auto simp: ids_grow_def lays_def)
  moreover from this(2) o(2) have "([t \<mapsto> (b, v)] ++ over) u = Some (b', v') \<Longrightarrow> issued n' b' \<and> v' = \<sigma>' b'" for u b' v'
    by (auto simp: map_add_Some_iff lays_def split: if_splits)
  ultimately show ?case using o(1) lay unfolding lays_def by blast
qed

subsection \<open>More fuel\<close>

lemma plain_body_mono:
  assumes "\<And>c f key r. call c f key = Some r \<Longrightarrow> call' c f key = Some r" "plain_body call b cs = Some r"
  shows "plain_body call' b cs = Some r"
  using assms(2)
proof (induction b arbitrary: cs)
  case (CallCx i f key k)
  then obtain x where x: "call (held cs i) f key = Some x" by (auto split: option.splits)
  with CallCx assms(1) [OF x] show ?case by (auto split: option.splits)
qed simp_all

lemma plain_call_Suc: "plain_call P m c f key = Some r \<Longrightarrow> plain_call P (Suc m) c f key = Some r"
proof (induction m arbitrary: c f key r)
  case (Suc m)
  from Suc(2) show ?case unfolding plain_call.simps by (rule plain_body_mono [rotated]) (use Suc(1) in simp)
qed simp

lemma plain_call_mono: "m \<le> m' \<Longrightarrow> plain_call P m c f key = Some r \<Longrightarrow> plain_call P m' c f key = Some r"
  by (induction m' rule: dec_induct) (auto dest: plain_call_Suc simp del: plain_call.simps)

lemma plain_body_more: "m \<le> m' \<Longrightarrow> plain_body (plain_call P m) b cs = Some r \<Longrightarrow> plain_body (plain_call P m') b cs = Some r"
  by (erule plain_body_mono [rotated]) (rule plain_call_mono)

subsection \<open>The invariant of the cache\<close>

definition variants :: "('t, 'v) memo_cell \<Rightarrow> ('t, 'v) variant set" where
  "variants cell = set_option (mc_first cell) \<union> set (mc_rest cell)"

text \<open>A value is right for some reads when every context that agrees with them gives it.\<close>

definition right_for :: "('f \<Rightarrow> 'k \<Rightarrow> ('t, 'v, 'f, 'k) body) \<Rightarrow> (64 word \<Rightarrow> 'v) \<Rightarrow> 'f \<Rightarrow> 'k \<Rightarrow> 'v \<Rightarrow> 't context_read set \<Rightarrow> bool" where
  "right_for P \<sigma> f key v rs \<longleftrightarrow> (\<forall>c. agrees \<sigma> rs c \<longrightarrow> (\<exists>m. plain_call P m (vals c) f key = Some (Some v)))"

definition variant_ok :: "('f \<times> 'k \<Rightarrow> 'h) \<Rightarrow> ('f \<Rightarrow> 'k \<Rightarrow> ('t, 'v, 'f, 'k) body) \<Rightarrow> (64 word \<Rightarrow> 'v) \<Rightarrow> 64 word \<Rightarrow> 'h \<Rightarrow> ('t, 'v) variant \<Rightarrow> bool" where
  "variant_ok hash P \<sigma> n h va \<longleftrightarrow> reads_ok n (set (va_reads va)) \<and>
     (\<forall>f key. hash (f, key) = h \<longrightarrow> right_for P \<sigma> f key (va_value va) (set (va_reads va)))"

definition tracker_ok :: "(64 word \<Rightarrow> 'v) \<Rightarrow> 64 word \<Rightarrow> ('t, 'v) tracker \<Rightarrow> bool" where
  "tracker_ok \<sigma> n k \<longleftrightarrow> ctx_ok \<sigma> n (tk_entry k) \<and> reads_ok n (set (tk_reads k)) \<and> (\<forall>r \<in> set (tk_reads k). read_matches (tk_entry k) r)"

definition world_ok :: "('f \<times> 'k \<Rightarrow> 'h) \<Rightarrow> ('f \<Rightarrow> 'k \<Rightarrow> ('t, 'v, 'f, 'k) body) \<Rightarrow> (64 word \<Rightarrow> 'v) \<Rightarrow> ('t, 'v, 'h) memo_world \<Rightarrow> bool" where
  "world_ok hash P \<sigma> w \<longleftrightarrow>
     (\<forall>h cell va. mw_entries w h = Some cell \<longrightarrow> va \<in> variants cell \<longrightarrow> variant_ok hash P \<sigma> (mw_next w) h va) \<and>
     (\<forall>k \<in> set (mw_trackers w). tracker_ok \<sigma> (mw_next w) k)"

lemma right_for_extends:
  assumes "ids_grow \<sigma> n \<sigma>' n'" "reads_ok n rs" "right_for P \<sigma> f key v rs"
  shows "right_for P \<sigma>' f key v rs"
  using assms(3) agrees_extends [OF assms(1,2)] by (simp add: right_for_def)

lemma variant_ok_extends: "ids_grow \<sigma> n \<sigma>' n' \<Longrightarrow> variant_ok hash P \<sigma> n h va \<Longrightarrow> variant_ok hash P \<sigma>' n' h va"
  by (auto simp: variant_ok_def intro: right_for_extends reads_ok_extends)

lemma tracker_ok_extends: "ids_grow \<sigma> n \<sigma>' n' \<Longrightarrow> tracker_ok \<sigma> n k \<Longrightarrow> tracker_ok \<sigma>' n' k"
  by (auto simp: tracker_ok_def intro: ctx_ok_extends reads_ok_extends)

lemma world_ok_next:
  assumes "world_ok hash P \<sigma> w" "ids_grow \<sigma> (mw_next w) \<sigma>' n'"
  shows "world_ok hash P \<sigma>' (w\<lparr>mw_next := n'\<rparr>)"
proof -
  have "tracker_ok \<sigma>' n' k" if "k \<in> set (mw_trackers w)" for k
    using assms(1) that tracker_ok_extends [OF assms(2), of k] unfolding world_ok_def by blast
  with assms(1) variant_ok_extends [OF assms(2), of hash P] show ?thesis unfolding world_ok_def by simp
qed

text \<open>What a run may do to the trackers: add to the reads of its own, leave the others, append new ones.\<close>

definition moved :: "nat option \<Rightarrow> ('t, 'v) tracker list \<Rightarrow> ('t, 'v) tracker list \<Rightarrow> bool" where
  "moved i ks ks' \<longleftrightarrow> length ks \<le> length ks' \<and> (\<forall>j < length ks. tk_entry (ks' ! j) = tk_entry (ks ! j) \<and>
     set (tk_reads (ks ! j)) \<subseteq> set (tk_reads (ks' ! j)) \<and> (i \<noteq> Some j \<longrightarrow> ks' ! j = ks ! j))"

lemma moved_refl [simp, intro]: "moved i ks ks"
  by (simp add: moved_def)

lemma moved_trans: "moved i ks ks1 \<Longrightarrow> moved i ks1 ks2 \<Longrightarrow> moved i ks ks2"
  unfolding moved_def by (metis (no_types, lifting) order.trans order_less_le_trans)

lemma moved_merge: "moved i ks (merge_into i rs ks)"
proof -
  have upd: "ks[x := y] ! j = (if x = j then y else ks ! j)" if "j < length ks" for x y j
    using that by simp
  show ?thesis by (cases i) (auto simp: moved_def merge_into_def upd)
qed

definition tracked :: "nat option \<Rightarrow> ('t, 'v) tracker list \<Rightarrow> bool" where
  "tracked i ks \<longleftrightarrow> (\<forall>j. i = Some j \<longrightarrow> j < length ks)"

lemma tracked_moved: "tracked i ks \<Longrightarrow> moved i' ks ks' \<Longrightarrow> tracked i ks'"
  by (fastforce simp: tracked_def moved_def)

text \<open>The reads of a list that the tracker of a handle keeps.\<close>

definition kept :: "nat option \<Rightarrow> ('t, 'v) tracker list \<Rightarrow> 't context_read set \<Rightarrow> ('t, 'v) tracker list \<Rightarrow> bool" where
  "kept i ks rs ks' \<longleftrightarrow> (\<forall>j. i = Some j \<longrightarrow> {r \<in> rs. read_matches (tk_entry (ks ! j)) r} \<subseteq> set (tk_reads (ks' ! j)))"

lemma kept_merge: "tracked i ks \<Longrightarrow> kept i ks (set rs) (merge_into i rs ks)"
  by (auto simp: kept_def merge_into_def tracked_def)

lemma kept_moved: "kept i ks rs ks1 \<Longrightarrow> tracked i ks1 \<Longrightarrow> moved i' ks1 ks2 \<Longrightarrow> kept i ks rs ks2"
  unfolding kept_def tracked_def moved_def by blast

lemma world_ok_merge:
  assumes "world_ok hash P \<sigma> w" "reads_ok (mw_next w) (set rs)"
  shows "world_ok hash P \<sigma> (w\<lparr>mw_trackers := merge_into i rs (mw_trackers w)\<rparr>)"
proof -
  have "tracker_ok \<sigma> (mw_next w) (tracker_merge rs k)" if "tracker_ok \<sigma> (mw_next w) k" for k
    using that assms(2) by (auto simp: tracker_ok_def reads_ok_def)
  moreover have "set (merge_into i rs ks) \<subseteq> set ks \<union> tracker_merge rs ` set ks" for ks
  proof (cases i)
    case (Some j)
    show ?thesis
    proof (cases "j < length ks")
      case True
      with Some show ?thesis by (auto simp: merge_into_def dest!: subsetD [OF set_update_subset_insert])
    qed (simp add: merge_into_def Some list_update_beyond)
  qed (simp add: merge_into_def)
  ultimately have "\<forall>k \<in> set (merge_into i rs (mw_trackers w)). tracker_ok \<sigma> (mw_next w) k"
    using assms(1) unfolding world_ok_def by blast
  then show ?thesis using assms(1) unfolding world_ok_def by simp
qed

subsection \<open>Running with the cache is right\<close>

text \<open>A context \<open>c\<close> of another run against the context \<open>H\<close> of this one: where they differ, \<open>H\<close> resolves as the scope
  the tracked call was entered with, and \<open>c\<close> as the scope \<open>A\<close> of the other run does.\<close>

definition related :: "nat option \<Rightarrow> ('t, 'v) tracker list \<Rightarrow> ('t, 'v) request_context \<Rightarrow> ('t, 'v) request_context \<Rightarrow> ('t, 'v) request_context \<Rightarrow> bool" where
  "related i ks A H c \<longleftrightarrow> (case i of
       None \<Rightarrow> c = H
     | Some j \<Rightarrow> \<forall>t. c t = H t \<or> rc_binding_id H t = rc_binding_id (tk_entry (ks ! j)) t \<and> c t = A t)"

lemma related_moved: "tracked i ks \<Longrightarrow> moved i' ks ks' \<Longrightarrow> related i ks' A H c = related i ks A H c"
  by (auto simp: related_def tracked_def moved_def split: option.split)

lemma related_over: "related i ks A H c \<Longrightarrow> related i ks A (H ++ over) (c ++ over)"
  by (auto simp: related_def map_add_def rc_binding_id_def split: option.splits)

lemma related_agrees:
  assumes "related i ks A H c" "ctx_ok \<sigma> n H" "\<forall>r \<in> rs. read_matches H r" "kept i ks rs ks'"
    "\<forall>j. i = Some j \<longrightarrow> agrees \<sigma> (set (tk_reads (ks' ! j))) A"
  shows "agrees \<sigma> rs c"
proof -
  have H: "agrees \<sigma> rs H" using assms(2,3) agrees_iff_matches by blast
  show ?thesis
  proof (cases i)
    case None
    with H assms(1) show ?thesis by (simp add: related_def)
  next
    case (Some j)
    have "c t = map_option (\<lambda>b. (b, \<sigma> b)) b" if r: "(t, b) \<in> rs" for t b
    proof (cases "c t = H t")
      case True
      with H r show ?thesis by (auto simp: agrees_def)
    next
      case False
      with assms(1) Some have e: "rc_binding_id H t = rc_binding_id (tk_entry (ks ! j)) t" "c t = A t"
        by (auto simp: related_def)
      moreover have "read_matches H (t, b)" using assms(3) r by blast
      ultimately have "read_matches (tk_entry (ks ! j)) (t, b)" by (simp add: read_matches_def)
      with assms(4) Some r have "(t, b) \<in> set (tk_reads (ks' ! j))" by (auto simp: kept_def)
      with assms(5) Some e(2) show ?thesis by (auto simp: agrees_def)
    qed
    then show ?thesis by (auto simp: agrees_def)
  qed
qed

lemma held_in: "hs \<noteq> [] \<Longrightarrow> held hs i \<in> set hs"
  by (auto simp: held_def)

lemma held_map: "hs \<noteq> [] \<Longrightarrow> held (map g hs) i = g (held hs i)"
  by (simp add: held_def)

lemma held_all2: "list_all2 R hs cs \<Longrightarrow> hs \<noteq> [] \<Longrightarrow> R (held hs i) (held cs i)"
  by (cases cs) (auto simp: held_def list_all2_conv_all_nth)

definition handles_ok :: "(64 word \<Rightarrow> 'v) \<Rightarrow> 64 word \<Rightarrow> nat option \<Rightarrow> ('t, 'v) handle_cx list \<Rightarrow> bool" where
  "handles_ok \<sigma> n i hs \<longleftrightarrow> hs \<noteq> [] \<and> (\<forall>h \<in> set hs. ctx_ok \<sigma> n (hx_context h) \<and> hx_tracker h = i)"

lemma handles_ok_extends: "handles_ok \<sigma> n i hs \<Longrightarrow> ids_grow \<sigma> n \<sigma>' n' \<Longrightarrow> handles_ok \<sigma>' n' i hs"
  by (auto simp: handles_ok_def intro: ctx_ok_extends)

lemma held_ok: "handles_ok \<sigma> n i hs \<Longrightarrow> ctx_ok \<sigma> n (hx_context (held hs j)) \<and> hx_tracker (held hs j) = i"
  using held_in by (auto simp: handles_ok_def)

text \<open>What a call promises that returns a value.\<close>

definition call_right :: "('f \<times> 'k \<Rightarrow> 'h) \<Rightarrow> ('f \<Rightarrow> 'k \<Rightarrow> ('t, 'v, 'f, 'k) body) \<Rightarrow>
    (('t, 'v) handle_cx \<Rightarrow> 'f \<Rightarrow> 'k \<Rightarrow> ('t, 'v, 'h) memo_world \<Rightarrow> ('v, ('t, 'v, 'h) memo_world) run option) \<Rightarrow> bool" where
  "call_right hash P call \<longleftrightarrow> (\<forall>\<sigma> w cx f key v w'.
     world_ok hash P \<sigma> w \<longrightarrow> ctx_ok \<sigma> (mw_next w) (hx_context cx) \<longrightarrow> tracked (hx_tracker cx) (mw_trackers w) \<longrightarrow>
     call cx f key w = Some (Value v w') \<longrightarrow>
     (\<exists>\<sigma>' rs. ids_grow \<sigma> (mw_next w) \<sigma>' (mw_next w') \<and> world_ok hash P \<sigma>' w' \<and>
        moved (hx_tracker cx) (mw_trackers w) (mw_trackers w') \<and> reads_ok (mw_next w') rs \<and>
        (\<forall>r \<in> rs. read_matches (hx_context cx) r) \<and> kept (hx_tracker cx) (mw_trackers w) rs (mw_trackers w') \<and>
        right_for P \<sigma>' f key v rs))"

text \<open>The runs of a body that the reads of this one are enough for.\<close>

definition alternatives_agree :: "('f \<Rightarrow> 'k \<Rightarrow> ('t, 'v, 'f, 'k) body) \<Rightarrow> (64 word \<Rightarrow> 'v) \<Rightarrow> nat option \<Rightarrow> ('t, 'v) tracker list \<Rightarrow>
    ('t, 'v) tracker list \<Rightarrow> ('t, 'v) handle_cx list \<Rightarrow> ('t, 'v, 'f, 'k) body \<Rightarrow> 'v \<Rightarrow> bool" where
  "alternatives_agree P \<sigma> i ks ks' hs b v \<longleftrightarrow> (\<forall>A cs. list_all2 (\<lambda>h c. related i ks A (hx_context h) c) hs cs \<longrightarrow>
     (\<forall>j. i = Some j \<longrightarrow> agrees \<sigma> (set (tk_reads (ks' ! j))) A) \<longrightarrow>
     (\<exists>m. plain_body (plain_call P m) b (map vals cs) = Some (Some v)))"

lemma reads_of_trackers: "world_ok hash P \<sigma> w \<Longrightarrow> j < length (mw_trackers w) \<Longrightarrow> reads_ok (mw_next w) (set (tk_reads (mw_trackers w ! j)))"
  by (auto simp: world_ok_def tracker_ok_def dest: nth_mem)

lemma agrees_before:
  assumes "\<forall>j. i = Some j \<longrightarrow> agrees \<sigma>' (set (tk_reads (ks' ! j))) A" "tracked i (mw_trackers w)" "moved i (mw_trackers w) ks'"
    "world_ok hash P \<sigma> w" "ids_grow \<sigma> (mw_next w) \<sigma>' n'"
  shows "\<forall>j. i = Some j \<longrightarrow> agrees \<sigma> (set (tk_reads (mw_trackers w ! j))) A"
proof (intro allI impI)
  fix j assume j: "i = Some j"
  with assms(2) have l: "j < length (mw_trackers w)" by (simp add: tracked_def)
  with assms(3) have "set (tk_reads (mw_trackers w ! j)) \<subseteq> set (tk_reads (ks' ! j))" by (simp add: moved_def)
  with assms(1) j have "agrees \<sigma>' (set (tk_reads (mw_trackers w ! j))) A" by (auto intro: agrees_mono)
  then show "agrees \<sigma> (set (tk_reads (mw_trackers w ! j))) A"
    using agrees_extends [OF assms(5) reads_of_trackers [OF assms(4) l]] by blast
qed

definition body_right :: "('f \<times> 'k \<Rightarrow> 'h) \<Rightarrow> ('f \<Rightarrow> 'k \<Rightarrow> ('t, 'v, 'f, 'k) body) \<Rightarrow> (64 word \<Rightarrow> 'v) \<Rightarrow> nat option \<Rightarrow>
    ('t, 'v, 'h) memo_world \<Rightarrow> ('t, 'v, 'h) memo_world \<Rightarrow> ('t, 'v) handle_cx list \<Rightarrow> ('t, 'v, 'f, 'k) body \<Rightarrow> 'v \<Rightarrow> bool" where
  "body_right hash P \<sigma> i w w' hs b v \<longleftrightarrow> (\<exists>\<sigma>'. ids_grow \<sigma> (mw_next w) \<sigma>' (mw_next w') \<and> world_ok hash P \<sigma>' w' \<and>
     moved i (mw_trackers w) (mw_trackers w') \<and> alternatives_agree P \<sigma>' i (mw_trackers w) (mw_trackers w') hs b v)"

lemma run_read_right:
  assumes w: "world_ok hash P \<sigma> w" "handles_ok \<sigma> (mw_next w) i hs" "tracked i (mw_trackers w)"
    and r: "try_request_context (held hs l) t (mw_trackers w) = (x, ks)"
    and rest: "body_right hash P \<sigma> i (w\<lparr>mw_trackers := ks\<rparr>) w' hs (k x) v"
  shows "body_right hash P \<sigma> i w w' hs (ReadCx l t k) v"
proof -
  let ?H = "hx_context (held hs l)"
  note h = held_ok [OF w(2), of l]
  define rs where "rs = [(t, rc_binding_id ?H t)]"
  have ks: "ks = merge_into i rs (mw_trackers w)" and x: "x = vals ?H t"
    using r h by (auto simp: record_eq_merge rs_def vals_def)
  obtain \<sigma>' where s: "ids_grow \<sigma> (mw_next w) \<sigma>' (mw_next w')" "world_ok hash P \<sigma>' w'" "moved i ks (mw_trackers w')"
    "alternatives_agree P \<sigma>' i ks (mw_trackers w') hs (k x) v" using rest unfolding body_right_def by auto
  have m: "moved i (mw_trackers w) ks" unfolding ks by (rule moved_merge)
  have "alternatives_agree P \<sigma>' i (mw_trackers w) (mw_trackers w') hs (ReadCx l t k) v"
    unfolding alternatives_agree_def
  proof (intro allI impI)
    fix A cs assume rel: "list_all2 (\<lambda>h c. related i (mw_trackers w) A (hx_context h) c) hs cs"
      and agr: "\<forall>j. i = Some j \<longrightarrow> agrees \<sigma>' (set (tk_reads (mw_trackers w' ! j))) A"
    have hs: "hs \<noteq> []" using w(2) by (simp add: handles_ok_def)
    then have cs: "cs \<noteq> []" using rel by auto
    have "kept i (mw_trackers w) (set rs) (mw_trackers w')"
      using kept_merge [OF w(3), of rs] tracked_moved [OF w(3) m] s(3) unfolding ks by (rule kept_moved)
    moreover have "related i (mw_trackers w) A ?H (held cs l)" using held_all2 [OF rel hs] .
    moreover have "ctx_ok \<sigma>' (mw_next w') ?H" using ctx_ok_extends [OF s(1)] h by blast
    moreover have "\<forall>r \<in> set rs. read_matches ?H r" by (simp add: rs_def read_matches_def)
    ultimately have a: "agrees \<sigma>' (set rs) (held cs l)" "agrees \<sigma>' (set rs) ?H"
      using related_agrees [OF _ _ _ _ agr] agrees_iff_matches by blast+
    then have "vals (held cs l) t = x" by (auto simp: rs_def agrees_def x vals_def)
    moreover have "list_all2 (\<lambda>h c. related i ks A (hx_context h) c) hs cs"
      using rel related_moved [OF w(3) m] by simp
    with s(4) agr obtain n where "plain_body (plain_call P n) (k x) (map vals cs) = Some (Some v)"
      unfolding alternatives_agree_def by blast
    ultimately show "\<exists>n. plain_body (plain_call P n) (ReadCx l t k) (map vals cs) = Some (Some v)"
      by (auto simp: held_map [OF cs])
  qed
  with s m show ?thesis unfolding body_right_def by (blast intro: moved_trans)
qed

lemma run_with_right:
  assumes w: "handles_ok \<sigma> (mw_next w) i hs"
    and r: "cx_with_many vs (held hs l) (mw_next w) = Some (h, n)"
    and rest: "\<And>\<sigma>1. ids_grow \<sigma> (mw_next w) \<sigma>1 n \<Longrightarrow> handles_ok \<sigma>1 n i (hs @ [h]) \<Longrightarrow>
      body_right hash P \<sigma>1 i (w\<lparr>mw_next := n\<rparr>) w' (hs @ [h]) b v"
  shows "body_right hash P \<sigma> i w w' hs (WithCx l vs b) v"
proof -
  let ?H = "hx_context (held hs l)"
  note held = held_ok [OF w, of l]
  obtain c where c: "rc_install vs ?H (mw_next w) = Some (c, n)" "h = held hs l\<lparr>hx_context := c\<rparr>"
    using r by (auto simp: cx_with_many_def)
  obtain over \<sigma>1 where o: "c = ?H ++ over" "lays vs \<sigma> (mw_next w) over \<sigma>1 n" using rc_install_lays [OF c(1)] by blast
  have e: "ids_grow \<sigma> (mw_next w) \<sigma>1 n" using o(2) by (simp add: lays_def)
  have "ctx_ok \<sigma>1 n ?H" using held e by (blast intro: ctx_ok_extends)
  then have "ctx_ok \<sigma>1 n c" using o by (auto simp: ctx_ok_def lays_def map_add_Some_iff)
  then have "handles_ok \<sigma>1 n i (hs @ [h])" using handles_ok_extends [OF w e] held c(2) by (auto simp: handles_ok_def)
  from rest [OF e this] obtain \<sigma>' where s: "ids_grow \<sigma>1 n \<sigma>' (mw_next w')" "world_ok hash P \<sigma>' w'"
    "moved i (mw_trackers w) (mw_trackers w')"
    "alternatives_agree P \<sigma>' i (mw_trackers w) (mw_trackers w') (hs @ [h]) b v" unfolding body_right_def by auto
  have "alternatives_agree P \<sigma>' i (mw_trackers w) (mw_trackers w') hs (WithCx l vs b) v"
    unfolding alternatives_agree_def
  proof (intro allI impI)
    fix A cs assume rel: "list_all2 (\<lambda>h c. related i (mw_trackers w) A (hx_context h) c) hs cs"
      and agr: "\<forall>j. i = Some j \<longrightarrow> agrees \<sigma>' (set (tk_reads (mw_trackers w' ! j))) A"
    have hs: "hs \<noteq> []" using w by (simp add: handles_ok_def)
    then have cs: "cs \<noteq> []" using rel by auto
    have "related i (mw_trackers w) A c (held cs l ++ over)" unfolding o(1) by (rule related_over [OF held_all2 [OF rel hs]])
    with rel have "list_all2 (\<lambda>h c. related i (mw_trackers w) A (hx_context h) c) (hs @ [h]) (cs @ [held cs l ++ over])"
      by (simp add: list_all2_appendI c(2))
    with s(4) agr obtain m where "plain_body (plain_call P m) b (map vals (cs @ [held cs l ++ over])) = Some (Some v)"
      unfolding alternatives_agree_def by blast
    moreover have "vals (held cs l ++ over) = scope_with vs (vals (held cs l))" using o(2) by (simp add: lays_def)
    ultimately show "\<exists>m. plain_body (plain_call P m) (WithCx l vs b) (map vals cs) = Some (Some v)"
      by (auto simp: held_map [OF cs])
  qed
  with s ids_grow_trans [OF e s(1)] show ?thesis unfolding body_right_def by blast
qed

lemma run_call_right:
  assumes w: "world_ok hash P \<sigma> w" "handles_ok \<sigma> (mw_next w) i hs" "tracked i (mw_trackers w)"
    and call: "call_right hash P call" "call (held hs l) f key w = Some (Value x w1)"
    and rest: "\<And>\<sigma>1. world_ok hash P \<sigma>1 w1 \<Longrightarrow> handles_ok \<sigma>1 (mw_next w1) i hs \<Longrightarrow> tracked i (mw_trackers w1) \<Longrightarrow>
      body_right hash P \<sigma>1 i w1 w' hs (k x) v"
  shows "body_right hash P \<sigma> i w w' hs (CallCx l f key k) v"
proof -
  let ?H = "hx_context (held hs l)"
  note held = held_ok [OF w(2), of l]
  have hi: "ctx_ok \<sigma> (mw_next w) ?H" "hx_tracker (held hs l) = i" using held by auto
  obtain \<sigma>1 rs where c: "ids_grow \<sigma> (mw_next w) \<sigma>1 (mw_next w1)" "world_ok hash P \<sigma>1 w1"
    "moved i (mw_trackers w) (mw_trackers w1)" "reads_ok (mw_next w1) rs" "\<forall>r \<in> rs. read_matches ?H r"
    "kept i (mw_trackers w) rs (mw_trackers w1)" "right_for P \<sigma>1 f key x rs"
    using call w(1,3) hi unfolding call_right_def by blast
  note t1 = tracked_moved [OF w(3) c(3)]
  from rest [OF c(2) handles_ok_extends [OF w(2) c(1)] t1]
  obtain \<sigma>' where s: "ids_grow \<sigma>1 (mw_next w1) \<sigma>' (mw_next w')" "world_ok hash P \<sigma>' w'" "moved i (mw_trackers w1) (mw_trackers w')"
    "alternatives_agree P \<sigma>' i (mw_trackers w1) (mw_trackers w') hs (k x) v" unfolding body_right_def by blast
  have "alternatives_agree P \<sigma>' i (mw_trackers w) (mw_trackers w') hs (CallCx l f key k) v"
    unfolding alternatives_agree_def
  proof (intro allI impI)
    fix A cs assume rel: "list_all2 (\<lambda>h c. related i (mw_trackers w) A (hx_context h) c) hs cs"
      and agr: "\<forall>j. i = Some j \<longrightarrow> agrees \<sigma>' (set (tk_reads (mw_trackers w' ! j))) A"
    have hs: "hs \<noteq> []" using w(2) by (simp add: handles_ok_def)
    then have cs: "cs \<noteq> []" using rel by auto
    have "kept i (mw_trackers w) rs (mw_trackers w')" using c(6) t1 s(3) by (rule kept_moved)
    moreover have "ctx_ok \<sigma>' (mw_next w') ?H" using hi(1) ids_grow_trans [OF c(1) s(1)] by (blast intro: ctx_ok_extends)
    ultimately have "agrees \<sigma>' rs (held cs l)" using related_agrees [OF held_all2 [OF rel hs] _ c(5) _ agr] by blast
    then have "agrees \<sigma>1 rs (held cs l)" using agrees_extends [OF s(1) c(4)] by blast
    with c(7) obtain m1 where m1: "plain_call P m1 (vals (held cs l)) f key = Some (Some x)" unfolding right_for_def by blast
    have "list_all2 (\<lambda>h c. related i (mw_trackers w1) A (hx_context h) c) hs cs"
      using rel related_moved [OF w(3) c(3)] by simp
    with s(4) agr obtain m2 where m2: "plain_body (plain_call P m2) (k x) (map vals cs) = Some (Some v)"
      unfolding alternatives_agree_def by blast
    have "plain_call P (max m1 m2) (held (map vals cs) l) f key = Some (Some x)"
      using plain_call_mono [OF max.cobounded1 m1] by (simp add: held_map [OF cs])
    moreover have "plain_body (plain_call P (max m1 m2)) (k x) (map vals cs) = Some (Some v)"
      using plain_body_more [OF max.cobounded2 m2] .
    ultimately show "\<exists>m. plain_body (plain_call P m) (CallCx l f key k) (map vals cs) = Some (Some v)"
      by (intro exI [of _ "max m1 m2"]) simp
  qed
  with s ids_grow_trans [OF c(1) s(1)] moved_trans [OF c(3) s(3)] show ?thesis unfolding body_right_def by blast
qed

lemma run_body_right:
  assumes "call_right hash P call"
  shows "run_body call b hs w = Some (Value v w') \<Longrightarrow> world_ok hash P \<sigma> w \<Longrightarrow> handles_ok \<sigma> (mw_next w) i hs \<Longrightarrow>
    tracked i (mw_trackers w) \<Longrightarrow> body_right hash P \<sigma> i w w' hs b v"
proof (induction b arbitrary: hs w \<sigma>)
  case (Return x)
  then show ?case by (auto simp: body_right_def alternatives_agree_def)
next
  case PanicNow
  then show ?case by simp
next
  case (ReadCx l t k)
  obtain x ks where r: "try_request_context (held hs l) t (mw_trackers w) = (x, ks)" by fastforce
  have ks: "ks = merge_into i [(t, rc_binding_id (hx_context (held hs l)) t)] (mw_trackers w)"
    using r held_ok [OF ReadCx(4), of l] by (auto simp: record_eq_merge)
  have "world_ok hash P \<sigma> (w\<lparr>mw_trackers := ks\<rparr>)" unfolding ks
    using ReadCx(3) own_read_ok held_ok [OF ReadCx(4), of l] by (intro world_ok_merge) auto
  moreover have "tracked i ks" using ReadCx(5) unfolding ks by (simp add: tracked_def)
  moreover have "run_body call (k x) hs (w\<lparr>mw_trackers := ks\<rparr>) = Some (Value v w')" using ReadCx(2) r by simp
  ultimately have "body_right hash P \<sigma> i (w\<lparr>mw_trackers := ks\<rparr>) w' hs (k x) v"
    using ReadCx(4) by (intro ReadCx(1)) auto
  then show ?case by (rule run_read_right [OF ReadCx(3-5) r])
next
  case (WithCx l vs b)
  then obtain h n where r: "cx_with_many vs (held hs l) (mw_next w) = Some (h, n)"
    "run_body call b (hs @ [h]) (w\<lparr>mw_next := n\<rparr>) = Some (Value v w')" by (auto split: option.splits)
  show ?case
  proof (rule run_with_right [OF WithCx(4) r(1)])
    fix \<sigma>1 assume "ids_grow \<sigma> (mw_next w) \<sigma>1 n" "handles_ok \<sigma>1 n i (hs @ [h])"
    then show "body_right hash P \<sigma>1 i (w\<lparr>mw_next := n\<rparr>) w' (hs @ [h]) b v"
      using WithCx(5) world_ok_next [OF WithCx(3)] by (intro WithCx(1) [OF r(2)]) auto
  qed
next
  case (CallCx l f key k)
  then obtain x w1 where r: "call (held hs l) f key w = Some (Value x w1)" "run_body call (k x) hs w1 = Some (Value v w')"
    by (auto split: option.splits run.splits)
  show ?case by (rule run_call_right [OF CallCx(3-5) assms r(1)]) (rule CallCx(1) [OF _ r(2)]; simp)
qed

lemma variants_find_Some: "variants_find c cell = Some va \<Longrightarrow> va \<in> variants cell \<and> variant_matches c va"
  by (auto simp: variants_find_def variants_def find_Some_iff split: option.splits if_splits)

lemma variants_default [simp]: "variants cell_default = {}"
  by (simp add: variants_def cell_default_def)

lemma variants_guard [simp]: "variants (cell\<lparr>mc_owned := b\<rparr>) = variants cell"
  by (simp add: variants_def)

lemma variants_insert_set: "variants (variants_insert va cell) = insert va (variants cell)"
  by (auto simp: variants_def variants_insert_def split: option.split)

lemma get_or_insert_cell_ok:
  assumes "get_or_insert_cell h w = (cell, w0)" "world_ok hash P \<sigma> w"
  shows "world_ok hash P \<sigma> w0" "\<forall>va \<in> variants cell. variant_ok hash P \<sigma> (mw_next w) h va"
    "mw_next w0 = mw_next w" "mw_trackers w0 = mw_trackers w" "mw_entries w0 h = Some cell"
  using assms by (auto simp: get_or_insert_cell_def world_ok_def split: option.splits if_splits)

lemma world_ok_map_cell:
  assumes "world_ok hash P \<sigma> w" "\<And>cell va. va \<in> variants (g cell) \<Longrightarrow> va \<in> variants cell \<or> variant_ok hash P \<sigma> (mw_next w) h va"
  shows "world_ok hash P \<sigma> (map_cell h g w)"
  using assms(1) by (auto simp: world_ok_def map_cell_def split: if_splits dest!: assms(2))

lemma map_cell_simps [simp]: "mw_next (map_cell h g w) = mw_next w" "mw_trackers (map_cell h g w) = mw_trackers w"
  by (simp_all add: map_cell_def)

lemma guard_simps [simp]: "mw_next (guard_enter h w) = mw_next w" "mw_trackers (guard_enter h w) = mw_trackers w"
  "mw_next (guard_leave h w) = mw_next w" "mw_trackers (guard_leave h w) = mw_trackers w"
  by (simp_all add: guard_enter_def guard_leave_def)

lemma world_ok_guard: "world_ok hash P \<sigma> w \<Longrightarrow> world_ok hash P \<sigma> (guard_enter h w)"
  "world_ok hash P \<sigma> w \<Longrightarrow> world_ok hash P \<sigma> (guard_leave h w)"
  unfolding guard_enter_def guard_leave_def by (erule world_ok_map_cell; simp)+

lemma world_ok_trackers:
  "world_ok hash P \<sigma> w \<Longrightarrow> (\<And>k. k \<in> set ks \<Longrightarrow> tracker_ok \<sigma> (mw_next w) k) \<Longrightarrow> world_ok hash P \<sigma> (w\<lparr>mw_trackers := ks\<rparr>)"
  by (simp add: world_ok_def)

lemma child_ok:
  assumes "get_or_insert_cell h w = (cell, w0)" "world_ok hash P \<sigma> w" "ctx_ok \<sigma> (mw_next w) (hx_context cx)"
    and "w1 = guard_enter h (w0\<lparr>mw_trackers := mw_trackers w @ [tracker_new (hx_context cx)]\<rparr>)"
  shows "world_ok hash P \<sigma> w1" "mw_next w1 = mw_next w" "mw_trackers w1 = mw_trackers w @ [tracker_new (hx_context cx)]"
    "handles_ok \<sigma> (mw_next w1) (Some (length (mw_trackers w))) [cx\<lparr>hx_tracker := Some (length (mw_trackers w))\<rparr>]"
    "tracked (Some (length (mw_trackers w))) (mw_trackers w1)"
proof -
  note w0 = get_or_insert_cell_ok [OF assms(1,2)]
  have "tracker_ok \<sigma> (mw_next w0) k" if "k \<in> set (mw_trackers w @ [tracker_new (hx_context cx)])" for k
    using that assms(2,3) by (auto simp: w0(3) world_ok_def tracker_ok_def tracker_new_def reads_ok_def)
  then show "world_ok hash P \<sigma> w1" unfolding assms(4) by (intro world_ok_guard world_ok_trackers [OF w0(1)])
  show n: "mw_next w1 = mw_next w" "mw_trackers w1 = mw_trackers w @ [tracker_new (hx_context cx)]"
    by (simp_all add: assms(4) w0(3))
  show "handles_ok \<sigma> (mw_next w1) (Some (length (mw_trackers w))) [cx\<lparr>hx_tracker := Some (length (mw_trackers w))\<rparr>]"
    "tracked (Some (length (mw_trackers w))) (mw_trackers w1)"
    using assms(3) by (auto simp: handles_ok_def n tracked_def)
qed

lemma hit_right:
  assumes w: "world_ok hash P \<sigma> w" "tracked (hx_tracker cx) (mw_trackers w)"
    and va: "variant_ok hash P \<sigma> (mw_next w) (hash (f, key)) va" "variant_matches (hx_context cx) va"
    and w': "w' = w\<lparr>mw_trackers := merge_into (hx_tracker cx) (va_reads va) (mw_trackers w)\<rparr>"
  shows "\<exists>rs. ids_grow \<sigma> (mw_next w) \<sigma> (mw_next w') \<and> world_ok hash P \<sigma> w' \<and>
      moved (hx_tracker cx) (mw_trackers w) (mw_trackers w') \<and> reads_ok (mw_next w') rs \<and>
      (\<forall>r \<in> rs. read_matches (hx_context cx) r) \<and> kept (hx_tracker cx) (mw_trackers w) rs (mw_trackers w') \<and>
      right_for P \<sigma> f key (va_value va) rs"
proof -
  have "reads_ok (mw_next w) (set (va_reads va))" "right_for P \<sigma> f key (va_value va) (set (va_reads va))"
    using va(1) by (auto simp: variant_ok_def)
  moreover have "\<forall>r \<in> set (va_reads va). read_matches (hx_context cx) r"
    using va(2) by (auto simp: variant_matches_def list_all_iff)
  ultimately show ?thesis using world_ok_merge [OF w(1)] moved_merge kept_merge [OF w(2)]
    by (intro exI [of _ "set (va_reads va)"]) (simp add: w')
qed

text \<open>A miss: the body ran under a tracker of its own, \<open>i\<close>, entered with the scope of the caller.\<close>

lemma miss_right:
  assumes inj: "inj hash" and w: "ctx_ok \<sigma> (mw_next w) (hx_context cx)" "tracked (hx_tracker cx) (mw_trackers w)"
    and ks: "ks = mw_trackers w @ [tracker_new (hx_context cx)]" "i = length (mw_trackers w)"
    and w1: "mw_next w1 = mw_next w" "mw_trackers w1 = ks"
    and b: "body_right hash P \<sigma> (Some i) w1 w2 [cx\<lparr>hx_tracker := Some i\<rparr>] (P f key) v"
    and va: "va = \<lparr>va_value = v, va_reads = tk_reads (mw_trackers w2 ! i)\<rparr>"
    and w3: "w3 = map_cell (hash (f, key)) (variants_insert va)
      (guard_leave (hash (f, key)) w2\<lparr>mw_trackers := (mw_trackers w2)[i := (mw_trackers w2 ! i)\<lparr>tk_reads := []\<rparr>]\<rparr>)"
  obtains \<sigma>' where "ids_grow \<sigma> (mw_next w) \<sigma>' (mw_next w3)" "world_ok hash P \<sigma>' w3"
    "moved (hx_tracker cx) (mw_trackers w) (mw_trackers w3)"
    "variant_ok hash P \<sigma>' (mw_next w3) (hash (f, key)) va" "variant_matches (hx_context cx) va"
proof -
  let ?H = "hx_context cx" and ?rs = "set (tk_reads (mw_trackers w2 ! i))" and ?h = "hash (f, key)"
  obtain \<sigma>' where s: "ids_grow \<sigma> (mw_next w) \<sigma>' (mw_next w2)" "world_ok hash P \<sigma>' w2" "moved (Some i) ks (mw_trackers w2)"
    "alternatives_agree P \<sigma>' (Some i) ks (mw_trackers w2) [cx\<lparr>hx_tracker := Some i\<rparr>] (P f key) v"
    using b unfolding body_right_def w1 by blast
  have i: "i < length ks" "ks ! i = tracker_new ?H" by (simp_all add: ks)
  then have entry: "i < length (mw_trackers w2)" "tk_entry (mw_trackers w2 ! i) = ?H"
    using s(3) by (auto simp: moved_def tracker_new_def)
  then have "tracker_ok \<sigma>' (mw_next w2) (mw_trackers w2 ! i)" using s(2) by (simp add: world_ok_def)
  then have rs: "reads_ok (mw_next w2) ?rs" "\<forall>r \<in> ?rs. read_matches ?H r" and H: "ctx_ok \<sigma>' (mw_next w2) ?H"
    using entry(2) by (simp_all add: tracker_ok_def)
  have right: "right_for P \<sigma>' f key v ?rs" unfolding right_for_def
  proof (intro allI impI)
    fix c assume c: "agrees \<sigma>' ?rs c"
    have "related (Some i) ks c ?H c" by (simp add: related_def i(2) tracker_new_def)
    then obtain m where "plain_body (plain_call P m) (P f key) (map vals [c]) = Some (Some v)"
      using s(4) c unfolding alternatives_agree_def by (force simp: list_all2_Cons1)
    then show "\<exists>m. plain_call P m (vals c) f key = Some (Some v)" by (intro exI [of _ "Suc m"]) simp
  qed
  have vok: "variant_ok hash P \<sigma>' (mw_next w2) ?h va"
    using rs(1) right inj by (auto simp: variant_ok_def va dest!: injD [OF inj])
  let ?ks = "(mw_trackers w2)[i := (mw_trackers w2 ! i)\<lparr>tk_reads := []\<rparr>]"
  have n3: "mw_next w3 = mw_next w2" "mw_trackers w3 = ?ks" by (simp_all add: w3)
  have "tracker_ok \<sigma>' (mw_next w2) k" if "k \<in> set ?ks" for k
  proof -
    have "tracker_ok \<sigma>' (mw_next w2) ((mw_trackers w2 ! i)\<lparr>tk_reads := []\<rparr>)"
      using H entry(2) by (simp add: tracker_ok_def reads_ok_def)
    moreover have "k = (mw_trackers w2 ! i)\<lparr>tk_reads := []\<rparr> \<or> k \<in> set (mw_trackers w2)"
      using that set_update_subset_insert by fastforce
    ultimately show ?thesis using s(2) by (auto simp: world_ok_def)
  qed
  then have "world_ok hash P \<sigma>' w3"
    unfolding w3 using world_ok_guard(2) [OF s(2), of ?h] vok
    by (intro world_ok_map_cell world_ok_trackers) (auto simp: variants_insert_set)
  moreover have "moved (hx_tracker cx) (mw_trackers w) (mw_trackers w3)"
  proof -
    have "mw_trackers w3 ! j = mw_trackers w ! j" if "j < length (mw_trackers w)" for j
      using that s(3) ks by (auto simp: n3 moved_def nth_append)
    moreover have "length (mw_trackers w) \<le> length (mw_trackers w3)" using s(3) by (simp add: n3 moved_def ks)
    ultimately show ?thesis by (simp add: moved_def)
  qed
  moreover have "variant_matches ?H va" using rs(2) by (simp add: variant_matches_def list_all_iff va)
  ultimately show ?thesis using that [of \<sigma>'] s(1) vok by (simp add: n3)
qed

lemma memo_call_right:
  assumes "inj hash"
  shows "call_right hash P (memo_call hash P n)"
proof (induction n)
  case 0
  show ?case by (simp add: call_right_def)
next
  case (Suc n)
  show ?case unfolding call_right_def
  proof (intro allI impI)
    fix \<sigma> w cx f key v w'
    assume w: "world_ok hash P \<sigma> w" "ctx_ok \<sigma> (mw_next w) (hx_context cx)" "tracked (hx_tracker cx) (mw_trackers w)"
      and run: "memo_call hash P (Suc n) cx f key w = Some (Value v w')"
    let ?h = "hash (f, key)"
    obtain cell w0 where c: "get_or_insert_cell ?h w = (cell, w0)" by fastforce
    note w0 = get_or_insert_cell_ok [OF c w(1)]
    show "\<exists>\<sigma>' rs. ids_grow \<sigma> (mw_next w) \<sigma>' (mw_next w') \<and> world_ok hash P \<sigma>' w' \<and>
        moved (hx_tracker cx) (mw_trackers w) (mw_trackers w') \<and> reads_ok (mw_next w') rs \<and>
        (\<forall>r \<in> rs. read_matches (hx_context cx) r) \<and> kept (hx_tracker cx) (mw_trackers w) rs (mw_trackers w') \<and>
        right_for P \<sigma>' f key v rs"
    proof (cases "variants_find (hx_context cx) cell")
      case (Some va)
      note va = variants_find_Some [OF Some]
      have "v = va_value va" "w' = w0\<lparr>mw_trackers := merge_into (hx_tracker cx) (va_reads va) (mw_trackers w0)\<rparr>"
        using run Some by (simp_all add: memo_get_or_init_def c variants_reuse_def variant_reuse_def)
      then show ?thesis using hit_right [OF w0(1) _ _ conjunct2 [OF va], of f key w'] w0 w(3) va by auto
    next
      case None
      let ?i = "length (mw_trackers w)" and ?ks = "mw_trackers w @ [tracker_new (hx_context cx)]"
      let ?child = "cx\<lparr>hx_tracker := Some ?i\<rparr>"
      define w1 where "w1 = guard_enter ?h (w0\<lparr>mw_trackers := ?ks\<rparr>)"
      obtain w2 where b: "run_body (memo_call hash P n) (P f key) [?child] w1 = Some (Value v w2)"
        and w': "\<And>va. va = \<lparr>va_value = v, va_reads = tk_reads (mw_trackers w2 ! ?i)\<rparr> \<Longrightarrow> w' = snd (variant_reuse cx va
          (map_cell ?h (variants_insert va)
            (guard_leave ?h w2\<lparr>mw_trackers := (mw_trackers w2)[?i := (mw_trackers w2 ! ?i)\<lparr>tk_reads := []\<rparr>]\<rparr>)))"
        using run None
        by (auto simp: memo_get_or_init_def c variants_reuse_def cx_track_def Let_def w0(4) w1_def take_reads_def variant_reuse_def
            split: if_splits option.splits run.splits)
      note child = child_ok [OF c w(1,2) w1_def]
      note miss = miss_right [OF assms w(2,3) refl refl child(2,3) run_body_right [OF Suc b child(1,4,5)]]
      define va where "va = \<lparr>va_value = v, va_reads = tk_reads (mw_trackers w2 ! ?i)\<rparr>"
      define w3 where "w3 = map_cell ?h (variants_insert va)
        (guard_leave ?h w2\<lparr>mw_trackers := (mw_trackers w2)[?i := (mw_trackers w2 ! ?i)\<lparr>tk_reads := []\<rparr>]\<rparr>)"
      have w3': "w' = w3\<lparr>mw_trackers := merge_into (hx_tracker cx) (va_reads va) (mw_trackers w3)\<rparr>"
        using w' [OF va_def] by (simp add: variant_reuse_def w3_def)
      have v: "va_value va = v" by (simp add: va_def)
      obtain \<sigma>' where m: "ids_grow \<sigma> (mw_next w) \<sigma>' (mw_next w3)" "world_ok hash P \<sigma>' w3" "moved (hx_tracker cx) (mw_trackers w) (mw_trackers w3)"
        "variant_ok hash P \<sigma>' (mw_next w3) ?h va" "variant_matches (hx_context cx) va"
        by (rule miss [OF va_def w3_def])
      have t3: "tracked (hx_tracker cx) (mw_trackers w3)" by (rule tracked_moved [OF w(3) m(3)])
      have "kept i (mw_trackers w3) rs ks \<longrightarrow> kept i (mw_trackers w) rs ks" if "tracked i (mw_trackers w)" for i rs ks
        using that m(3) by (auto simp: kept_def tracked_def moved_def)
      with hit_right [OF m(2) t3 m(4,5) w3'] m(1) v w(3) moved_trans [OF m(3)] show ?thesis by (metis ids_grow_trans)
    qed
  qed
qed

text \<open>A request before anything ran: no values, no entries, some ids issued.\<close>

definition world_new :: "64 word \<Rightarrow> ('t, 'v, 'h) memo_world" where
  "world_new counter = \<lparr>mw_next = counter, mw_trackers = [], mw_entries = Map.empty\<rparr>"

definition cx_root :: "('t, 'v) handle_cx" where
  "cx_root = \<lparr>hx_context = Map.empty, hx_tracker = None\<rparr>"

lemma world_new_ok: "world_ok hash P \<sigma> (world_new counter)"
  by (simp add: world_ok_def world_new_def)

lemma root_ok: "handles_ok \<sigma> n None [cx_root]"
  by (simp add: handles_ok_def cx_root_def ctx_ok_def)

lemma vals_empty: "vals Map.empty = Map.empty"
  by (simp add: vals_def fun_eq_iff)

text \<open>C5. Memoization does not change what a program computes: a handler that runs with the cache, reading contexts,
  deriving scopes that add or shadow values and calling memoized functions in any of them, however deep, gives the
  value it gives when every call runs its function afresh.  Two calls whose hashes are the same are the same call.\<close>

theorem memo_is_plain:
  assumes "inj hash" "run_body (memo_call hash P n) b [cx_root] (world_new counter) = Some (Value v w)"
  shows "\<exists>m. \<forall>m' \<ge> m. plain_body (plain_call P m') b [Map.empty] = Some (Some v)"
proof -
  have "body_right hash P undefined None (world_new counter) w [cx_root] b v"
    using run_body_right [OF memo_call_right [OF assms(1)] assms(2) world_new_ok root_ok] by (simp add: tracked_def)
  then obtain \<sigma> where "alternatives_agree P \<sigma> None [] (mw_trackers w) [cx_root] b v"
    by (auto simp: body_right_def world_new_def)
  moreover have "list_all2 (\<lambda>h c. related None ks A (hx_context h) c) [cx_root] [Map.empty]" for A ks
    by (simp add: related_def cx_root_def)
  ultimately have "\<exists>m. plain_body (plain_call P m) b (map vals [Map.empty]) = Some (Some v)"
    unfolding alternatives_agree_def by blast
  then obtain m where "plain_body (plain_call P m) b [Map.empty] = Some (Some v)" by (auto simp: vals_empty)
  then show ?thesis using plain_body_more by blast
qed

subsection \<open>It returns, and runs once\<close>

text \<open>The cells that are being filled, and calls that only go down in a rank.\<close>

definition owned :: "('t, 'v, 'h) memo_world \<Rightarrow> 'h \<Rightarrow> bool" where
  "owned w h \<longleftrightarrow> (\<exists>cell. mw_entries w h = Some cell \<and> mc_owned cell)"

primrec calls_below :: "('f \<Rightarrow> 'k \<Rightarrow> bool) \<Rightarrow> ('t, 'v, 'f, 'k) body \<Rightarrow> bool" where
  "calls_below R (Return v) = True"
| "calls_below R PanicNow = True"
| "calls_below R (ReadCx i t k) = (\<forall>x. calls_below R (k x))"
| "calls_below R (WithCx i vs b) = calls_below R b"
| "calls_below R (CallCx i f key k) = (R f key \<and> (\<forall>x. calls_below R (k x)))"

definition busy_above :: "('f \<times> 'k \<Rightarrow> 'h) \<Rightarrow> ('f \<Rightarrow> 'k \<Rightarrow> nat) \<Rightarrow> nat \<Rightarrow> ('t, 'v, 'h) memo_world \<Rightarrow> bool" where
  "busy_above hash rank r w \<longleftrightarrow> (\<forall>f key. owned w (hash (f, key)) \<longrightarrow> r \<le> rank f key)"

definition call_returns :: "('f \<times> 'k \<Rightarrow> 'h) \<Rightarrow> ('f \<Rightarrow> 'k \<Rightarrow> ('t, 'v, 'f, 'k) body) \<Rightarrow> ('f \<Rightarrow> 'k \<Rightarrow> nat) \<Rightarrow> nat \<Rightarrow> bool" where
  "call_returns hash P rank n \<longleftrightarrow> (\<forall>\<sigma> w cx f key v.
     world_ok hash P \<sigma> w \<longrightarrow> ctx_ok \<sigma> (mw_next w) (hx_context cx) \<longrightarrow> tracked (hx_tracker cx) (mw_trackers w) \<longrightarrow>
     busy_above hash rank (Suc (rank f key)) w \<longrightarrow> plain_call P n (vals (hx_context cx)) f key = Some (Some v) \<longrightarrow>
     memo_call hash P n cx f key w = Some Exhausted \<or>
     (\<exists>w'. memo_call hash P n cx f key w = Some (Value v w') \<and> owned w' = owned w))"

lemma owned_map_cell: "(\<And>c. mc_owned (g c) = mc_owned c) \<Longrightarrow> owned (map_cell h g w) = owned w"
  by (auto simp: owned_def fun_eq_iff map_cell_def)

lemma owned_simps [simp]:
  "owned (w\<lparr>mw_trackers := ks\<rparr>) = owned w" "owned (w\<lparr>mw_next := n\<rparr>) = owned w"
  "owned (guard_leave h w) = (owned w)(h := False)"
  by (auto simp: owned_def fun_eq_iff guard_leave_def map_cell_def)

lemma owned_variant [simp]: "owned (map_cell h (variants_insert va) w) = owned w"
  by (rule owned_map_cell) (simp add: variants_insert_def split: option.split)

lemma owned_enter: "mw_entries w h \<noteq> None \<Longrightarrow> owned (guard_enter h w) = (owned w)(h := True)"
  by (auto simp: owned_def fun_eq_iff guard_enter_def map_cell_def)

lemma owned_insert: "get_or_insert_cell h w = (cell, w0) \<Longrightarrow> owned w0 = owned w \<and> mc_owned cell = owned w h"
  by (cases "mw_entries w h") (auto simp: owned_def fun_eq_iff get_or_insert_cell_def cell_default_def split: if_splits)

lemma plain_call_unique: "plain_call P m c f key = Some r \<Longrightarrow> plain_call P m' c f key = Some r' \<Longrightarrow> r = r'"
  using plain_call_mono [of m "max m m'" P c f key r] plain_call_mono [of m' "max m m'" P c f key r'] by simp

lemma memo_call_value:
  assumes "inj hash" "world_ok hash P \<sigma> w" "ctx_ok \<sigma> (mw_next w) (hx_context cx)" "tracked (hx_tracker cx) (mw_trackers w)"
    and "memo_call hash P n cx f key w = Some (Value v w')"
  obtains \<sigma>' m where "ids_grow \<sigma> (mw_next w) \<sigma>' (mw_next w')" "world_ok hash P \<sigma>' w'"
    "moved (hx_tracker cx) (mw_trackers w) (mw_trackers w')" "plain_call P m (vals (hx_context cx)) f key = Some (Some v)"
proof -
  obtain \<sigma>' rs where s: "ids_grow \<sigma> (mw_next w) \<sigma>' (mw_next w')" "world_ok hash P \<sigma>' w'"
    "moved (hx_tracker cx) (mw_trackers w) (mw_trackers w')" "\<forall>r \<in> rs. read_matches (hx_context cx) r" "right_for P \<sigma>' f key v rs"
    using memo_call_right [OF assms(1), of P n] assms(2-5) unfolding call_right_def by blast
  have "agrees \<sigma>' rs (hx_context cx)" using s(4) agrees_iff_matches [OF ctx_ok_extends [OF s(1) assms(3)]] by blast
  with s(5) show ?thesis using that s(1-3) unfolding right_for_def by blast
qed

lemma busy_above_less: "busy_above hash rank r w \<Longrightarrow> r' \<le> r \<Longrightarrow> busy_above hash rank r' w"
  unfolding busy_above_def by (meson le_trans)

lemma busy_above_owned: "owned w' = owned w \<Longrightarrow> busy_above hash rank r w' = busy_above hash rank r w"
  by (simp add: busy_above_def)

lemma run_body_returns:
  assumes "inj hash" "call_returns hash P rank n"
  shows "world_ok hash P \<sigma> w \<Longrightarrow> handles_ok \<sigma> (mw_next w) i hs \<Longrightarrow> tracked i (mw_trackers w) \<Longrightarrow>
    calls_below (\<lambda>f key. rank f key < r) b \<Longrightarrow> busy_above hash rank r w \<Longrightarrow>
    plain_body (plain_call P n) b (map (\<lambda>h. vals (hx_context h)) hs) = Some (Some v) \<Longrightarrow>
    run_body (memo_call hash P n) b hs w = Some Exhausted \<or>
    (\<exists>w'. run_body (memo_call hash P n) b hs w = Some (Value v w') \<and> owned w' = owned w)"
proof (induction b arbitrary: hs w \<sigma>)
  case (Return x)
  then show ?case by simp
next
  case PanicNow
  then show ?case by simp
next
  case (ReadCx l t k)
  have hs: "hs \<noteq> []" using ReadCx(3) by (simp add: handles_ok_def)
  note held = held_ok [OF ReadCx(3), of l]
  define rs where "rs = [(t, rc_binding_id (hx_context (held hs l)) t)]"
  define ks where "ks = merge_into i rs (mw_trackers w)"
  have r: "try_request_context (held hs l) t (mw_trackers w) = (vals (hx_context (held hs l)) t, ks)"
    using held by (simp add: record_eq_merge ks_def rs_def vals_def)
  have "world_ok hash P \<sigma> (w\<lparr>mw_trackers := ks\<rparr>)" unfolding ks_def
    using ReadCx(2) own_read_ok held by (intro world_ok_merge) (auto simp: rs_def)
  moreover have "tracked i ks" using ReadCx(4) by (simp add: ks_def tracked_def)
  moreover have "plain_body (plain_call P n) (k (vals (hx_context (held hs l)) t)) (map (\<lambda>h. vals (hx_context h)) hs) = Some (Some v)"
    using ReadCx(7) by (simp add: held_map [OF hs])
  ultimately show ?case
    using ReadCx(1) [OF rangeI, of \<sigma> "w\<lparr>mw_trackers := ks\<rparr>" hs "vals (hx_context (held hs l)) t"] ReadCx(3,5,6) r
    by (simp add: busy_above_def)
next
  case (WithCx l vs b)
  have hs: "hs \<noteq> []" using WithCx(3) by (simp add: handles_ok_def)
  note held = held_ok [OF WithCx(3), of l]
  show ?case
  proof (cases "rc_install vs (hx_context (held hs l)) (mw_next w)")
    case None
    then show ?thesis by (simp add: cx_with_many_def)
  next
    case (Some cn)
    obtain c m where c: "cn = (c, m)" by fastforce
    define h where "h = held hs l\<lparr>hx_context := c\<rparr>"
    obtain over \<sigma>1 where o: "c = hx_context (held hs l) ++ over" "lays vs \<sigma> (mw_next w) over \<sigma>1 m"
      using rc_install_lays Some unfolding c by blast
    have e: "ids_grow \<sigma> (mw_next w) \<sigma>1 m" using o(2) by (simp add: lays_def)
    have "ctx_ok \<sigma>1 m (hx_context (held hs l))" using held e by (blast intro: ctx_ok_extends)
    then have "ctx_ok \<sigma>1 m c" using o by (auto simp: ctx_ok_def lays_def map_add_Some_iff)
    then have hok: "handles_ok \<sigma>1 m i (hs @ [h])" using handles_ok_extends [OF WithCx(3) e] held by (auto simp: handles_ok_def h_def)
    have "vals c = scope_with vs (vals (hx_context (held hs l)))" using o by (simp add: lays_def)
    then have "plain_body (plain_call P n) b (map (\<lambda>h. vals (hx_context h)) (hs @ [h])) = Some (Some v)"
      using WithCx(7) by (simp add: held_map [OF hs] h_def)
    with WithCx(1) [of \<sigma>1 "w\<lparr>mw_next := m\<rparr>" "hs @ [h]"] world_ok_next [OF WithCx(2) e] hok WithCx(4-6) Some
    show ?thesis by (simp add: cx_with_many_def c h_def busy_above_def)
  qed
next
  case (CallCx l f key k)
  have hs: "hs \<noteq> []" using CallCx(3) by (simp add: handles_ok_def)
  have held: "ctx_ok \<sigma> (mw_next w) (hx_context (held hs l))" "hx_tracker (held hs l) = i" using held_ok [OF CallCx(3), of l] by auto
  obtain x where x: "plain_call P n (vals (hx_context (held hs l))) f key = Some (Some x)"
    "plain_body (plain_call P n) (k x) (map (\<lambda>h. vals (hx_context h)) hs) = Some (Some v)"
    using CallCx(7) by (auto simp: held_map [OF hs] split: option.splits)
  have "busy_above hash rank (Suc (rank f key)) w" using CallCx(5,6) by (auto intro: busy_above_less)
  then have "memo_call hash P n (held hs l) f key w = Some Exhausted \<or>
      (\<exists>w'. memo_call hash P n (held hs l) f key w = Some (Value x w') \<and> owned w' = owned w)"
    using assms(2) CallCx(2,4) held x(1) unfolding call_returns_def by blast
  then show ?case
  proof (elim disjE exE conjE)
    fix w1 assume c: "memo_call hash P n (held hs l) f key w = Some (Value x w1)" "owned w1 = owned w"
    obtain \<sigma>1 where s: "ids_grow \<sigma> (mw_next w) \<sigma>1 (mw_next w1)" "world_ok hash P \<sigma>1 w1" "moved i (mw_trackers w) (mw_trackers w1)"
      using memo_call_value [OF assms(1) CallCx(2) held(1) _ c(1)] CallCx(4) held(2) by auto
    have "calls_below (\<lambda>f key. rank f key < r) (k x)" using CallCx(5) by simp
    from CallCx(1) [OF rangeI s(2) handles_ok_extends [OF CallCx(3) s(1)] tracked_moved [OF CallCx(4) s(3)] this _ x(2)] CallCx(6) c
    show ?thesis by (simp add: busy_above_owned [OF c(2)])
  qed simp
qed

lemma memo_call_returns:
  fixes P :: "'f \<Rightarrow> 'k \<Rightarrow> ('t, 'v, 'f, 'k) body" and hash :: "'f \<times> 'k \<Rightarrow> 'h"
  assumes "inj hash" "\<And>f key. calls_below (\<lambda>f' key'. rank f' key' < rank f key) (P f key)"
  shows "call_returns hash P rank n"
proof (induction n)
  case 0
  show ?case by (simp add: call_returns_def)
next
  case (Suc n)
  show ?case unfolding call_returns_def
  proof (intro allI impI)
    fix \<sigma> f key v and w :: "('t, 'v, 'h) memo_world" and cx :: "('t, 'v) handle_cx"
    assume w: "world_ok hash P \<sigma> w" "ctx_ok \<sigma> (mw_next w) (hx_context cx)" "tracked (hx_tracker cx) (mw_trackers w)"
      and busy: "busy_above hash rank (Suc (rank f key)) w"
      and plain: "plain_call P (Suc n) (vals (hx_context cx)) f key = Some (Some v)"
    let ?h = "hash (f, key)" and ?call = "memo_call hash P (Suc n) cx f key w"
    have "?call = Some Exhausted \<or> (\<exists>x w'. ?call = Some (Value x w') \<and> owned w' = owned w)"
    proof -
      obtain cell w0 where c: "get_or_insert_cell ?h w = (cell, w0)" by fastforce
      note w0 = get_or_insert_cell_ok [OF c w(1)] and own = owned_insert [OF c]
      have free: "\<not> owned w ?h" using busy unfolding busy_above_def by (metis Suc_n_not_le_n)
      show ?thesis
      proof (cases "variants_find (hx_context cx) cell")
        case (Some va)
        then show ?thesis using own by (simp add: memo_get_or_init_def c variants_reuse_def variant_reuse_def)
      next
        case None
        let ?i = "length (mw_trackers w)" and ?ks = "mw_trackers w @ [tracker_new (hx_context cx)]"
        let ?child = "cx\<lparr>hx_tracker := Some ?i\<rparr>"
        define w1 where "w1 = guard_enter ?h (w0\<lparr>mw_trackers := ?ks\<rparr>)"
        note child = child_ok [OF c w(1,2) w1_def]
        have own1: "owned w1 = (owned w)(?h := True)" using own by (simp add: w1_def owned_enter w0(5))
        then have "busy_above hash rank (rank f key) w1"
          using busy injD [OF assms(1)] by (fastforce simp: busy_above_def)
        moreover have "plain_body (plain_call P n) (P f key) (map (\<lambda>h. vals (hx_context h)) [?child]) = Some (Some v)" using plain by simp
        ultimately have "run_body (memo_call hash P n) (P f key) [?child] w1 = Some Exhausted \<or>
            (\<exists>w'. run_body (memo_call hash P n) (P f key) [?child] w1 = Some (Value v w') \<and> owned w' = owned w1)"
          by (intro run_body_returns [OF assms(1) Suc child(1,4,5) assms(2)])
        moreover have "(owned w)(?h := False) = owned w" using free by (simp add: fun_eq_iff)
        ultimately show ?thesis using None own free own1
          by (auto simp: memo_get_or_init_def c variants_reuse_def cx_track_def w0(4) w1_def take_reads_def variant_reuse_def Let_def)
      qed
    qed
    then show "?call = Some Exhausted \<or> (\<exists>w'. ?call = Some (Value v w') \<and> owned w' = owned w)"
    proof (elim disjE exE conjE)
      fix x w' assume r: "?call = Some (Value x w')" "owned w' = owned w"
      obtain m where "plain_call P m (vals (hx_context cx)) f key = Some (Some x)" using memo_call_value [OF assms(1) w r(1)] by blast
      from plain_call_unique [OF this plain] r show ?thesis by blast
    qed blast
  qed
qed

text \<open>C20. Memoization does not keep a program from its value, if its functions call one another without a cycle, each
  only functions and arguments of a smaller rank: where running every call afresh returns, the run with the cache
  returns the same value, without the panic for recursive calls, unless the ids of the bindings run out.\<close>

theorem memo_returns:
  fixes rank :: "'f \<Rightarrow> 'k \<Rightarrow> nat"
  assumes "inj hash" "\<And>f key. calls_below (\<lambda>f' key'. rank f' key' < rank f key) (P f key)"
    and "calls_below (\<lambda>f key. rank f key < r) b" "plain_body (plain_call P n) b [Map.empty] = Some (Some v)"
  shows "run_body (memo_call hash P n) b [cx_root] (world_new counter) = Some Exhausted \<or>
    (\<exists>w. run_body (memo_call hash P n) b [cx_root] (world_new counter) = Some (Value v w))"
proof -
  have "busy_above hash rank r (world_new counter)" by (simp add: busy_above_def owned_def world_new_def)
  moreover have "plain_body (plain_call P n) b (map (\<lambda>h. vals (hx_context h)) [cx_root]) = Some (Some v)"
    using assms(4) by (simp add: cx_root_def vals_empty)
  ultimately show ?thesis
    using run_body_returns [OF assms(1) memo_call_returns [OF assms(1,2)] world_new_ok root_ok _ assms(3)]
    by (fastforce simp: tracked_def)
qed

text \<open>A cell that is being filled is left alone.\<close>

definition keeps_owned :: "('t, 'v, 'h) memo_world \<Rightarrow> ('t, 'v, 'h) memo_world \<Rightarrow> bool" where
  "keeps_owned w w' \<longleftrightarrow> (\<forall>h cell. mw_entries w h = Some cell \<longrightarrow> mc_owned cell \<longrightarrow> mw_entries w' h = Some cell)"

lemma keeps_owned_trans: "keeps_owned w w1 \<Longrightarrow> keeps_owned w1 w2 \<Longrightarrow> keeps_owned w w2"
  by (simp add: keeps_owned_def)

lemma run_body_keeps:
  assumes "\<And>cx f key w v w'. call cx f key w = Some (Value v w') \<Longrightarrow> keeps_owned w w'"
  shows "run_body call b hs w = Some (Value v w') \<Longrightarrow> keeps_owned w w'"
proof (induction b arbitrary: hs w)
  case (Return x)
  then show ?case by (simp add: keeps_owned_def)
next
  case (ReadCx l t k)
  obtain x ks where "try_request_context (held hs l) t (mw_trackers w) = (x, ks)" by fastforce
  with ReadCx(2) have "run_body call (k x) hs (w\<lparr>mw_trackers := ks\<rparr>) = Some (Value v w')" by simp
  from ReadCx(1) [OF rangeI this] show ?case by (simp add: keeps_owned_def)
next
  case (WithCx l vs b)
  then obtain h n where "run_body call b (hs @ [h]) (w\<lparr>mw_next := n\<rparr>) = Some (Value v w')" by (auto split: option.splits)
  from WithCx(1) [OF this] show ?case by (simp add: keeps_owned_def)
next
  case (CallCx l f key k)
  then obtain x w1 where "call (held hs l) f key w = Some (Value x w1)" "run_body call (k x) hs w1 = Some (Value v w')"
    by (auto split: option.splits run.splits)
  with assms CallCx(1) [OF rangeI] show ?case by (blast intro: keeps_owned_trans)
qed simp

text \<open>What a finished call leaves in its cell: a result the caller's scope can reuse.\<close>

definition answers :: "'h \<Rightarrow> ('t, 'v) request_context \<Rightarrow> 'v \<Rightarrow> ('t, 'v, 'h) memo_world \<Rightarrow> bool" where
  "answers h c v w \<longleftrightarrow> (\<exists>cell va. mw_entries w h = Some cell \<and> variants_find c cell = Some va \<and> va_value va = v)"

lemma find_snoc: "find Q (xs @ [x]) = (case find Q xs of Some y \<Rightarrow> Some y | None \<Rightarrow> if Q x then Some x else None)"
  by (induction xs) auto

lemma find_inserted:
  "variants_find c cell = None \<Longrightarrow> variant_matches c va \<Longrightarrow> variants_find c (variants_insert va cell) = Some va"
  by (auto simp: variants_find_def variants_insert_def find_snoc split: option.splits if_splits)

lemma memo_call_keeps: "memo_call hash P n cx f key w = Some (Value v w') \<Longrightarrow> keeps_owned w w'"
proof (induction n arbitrary: cx f key w v w')
  case (Suc n)
  let ?h = "hash (f, key)"
  obtain cell w0 where c: "get_or_insert_cell ?h w = (cell, w0)" by fastforce
  have e: "mw_entries w0 ?h = Some cell" "\<And>h. h \<noteq> ?h \<Longrightarrow> mw_entries w0 h = mw_entries w h"
    "\<And>cell'. mw_entries w ?h = Some cell' \<Longrightarrow> cell' = cell"
    using c by (auto simp: get_or_insert_cell_def split: option.splits)
  show ?case
  proof (cases "variants_find (hx_context cx) cell")
    case (Some va)
    then have "mw_entries w' = mw_entries w0"
      using Suc(2) by (auto simp: memo_get_or_init_def c variants_reuse_def variant_reuse_def)
    with e show ?thesis unfolding keeps_owned_def by metis
  next
    case None
    let ?i = "length (mw_trackers w0)" and ?ks = "mw_trackers w0 @ [tracker_new (hx_context cx)]"
    define w1 where "w1 = guard_enter ?h (w0\<lparr>mw_trackers := ?ks\<rparr>)"
    have free: "\<not> mc_owned cell" using Suc(2) None by (auto simp: memo_get_or_init_def c variants_reuse_def)
    obtain w2 g where b: "run_body (memo_call hash P n) (P f key) [cx\<lparr>hx_tracker := Some ?i\<rparr>] w1 = Some (Value v w2)"
      and w': "mw_entries w' = (mw_entries w2)(?h := map_option g (mw_entries w2 ?h))"
      using Suc(2) None free
      by (auto simp: memo_get_or_init_def c variants_reuse_def cx_track_def Let_def w1_def take_reads_def variant_reuse_def
          map_cell_def guard_leave_def option.map_comp split: option.splits run.splits)
    have "keeps_owned w1 w2" by (rule run_body_keeps [OF Suc(1) b])
    moreover have "mw_entries w1 h = mw_entries w h" if "h \<noteq> ?h" for h
      using that e(2) by (simp add: w1_def guard_enter_def map_cell_def)
    ultimately show ?thesis using e(3) free w' by (auto simp: keeps_owned_def split: if_splits)
  qed
qed simp

lemma memo_call_answers:
  assumes "inj hash" "world_ok hash P \<sigma> w" "ctx_ok \<sigma> (mw_next w) (hx_context cx)" "tracked (hx_tracker cx) (mw_trackers w)"
    and run: "memo_call hash P (Suc n) cx f key w = Some (Value v w')"
  shows "answers (hash (f, key)) (hx_context cx) v w'"
proof -
  let ?h = "hash (f, key)" and ?i = "length (mw_trackers w)"
  obtain cell w0 where c: "get_or_insert_cell ?h w = (cell, w0)" by fastforce
  note w0 = get_or_insert_cell_ok [OF c assms(2)]
  show ?thesis
  proof (cases "variants_find (hx_context cx) cell")
    case (Some va)
    then show ?thesis using run w0(5) by (auto simp: answers_def memo_get_or_init_def c variants_reuse_def variant_reuse_def)
  next
    case None
    define w1 where "w1 = guard_enter ?h (w0\<lparr>mw_trackers := mw_trackers w @ [tracker_new (hx_context cx)]\<rparr>)"
    note child = child_ok [OF c assms(2,3) w1_def]
    obtain w2 where b: "run_body (memo_call hash P n) (P f key) [cx\<lparr>hx_tracker := Some ?i\<rparr>] w1 = Some (Value v w2)"
      and w': "\<And>va. va = \<lparr>va_value = v, va_reads = tk_reads (mw_trackers w2 ! ?i)\<rparr> \<Longrightarrow>
        mw_entries w' = mw_entries (map_cell ?h (variants_insert va) (guard_leave ?h w2))"
      using run None
      by (auto simp: memo_get_or_init_def c variants_reuse_def cx_track_def Let_def w0(4) w1_def take_reads_def variant_reuse_def
          map_cell_def split: if_splits option.splits run.splits)
    define va where "va = \<lparr>va_value = v, va_reads = tk_reads (mw_trackers w2 ! ?i)\<rparr>"
    have found: "variant_matches (hx_context cx) va"
      by (rule miss_right [OF assms(1,3,4) refl refl child(2,3) run_body_right [OF memo_call_right [OF assms(1)] b child(1,4,5)]
            va_def refl])
    have "mw_entries w1 ?h = Some (cell\<lparr>mc_owned := True\<rparr>)" by (simp add: w1_def guard_enter_def map_cell_def w0(5))
    moreover have "keeps_owned w1 w2" by (rule run_body_keeps [OF _ b]) (rule memo_call_keeps)
    ultimately have "mw_entries w2 ?h = Some (cell\<lparr>mc_owned := True\<rparr>)"
      by (simp add: keeps_owned_def)
    then have "mw_entries w' ?h = Some (variants_insert va (cell\<lparr>mc_owned := False\<rparr>))"
      by (simp add: w' [OF va_def] map_cell_def guard_leave_def)
    moreover have "variants_find (hx_context cx) (cell\<lparr>mc_owned := False\<rparr>) = None" using None by (cases "mc_first cell") (simp_all add: variants_find_def split: if_splits)
    ultimately show ?thesis using find_inserted [OF _ found] by (fastforce simp: answers_def va_def)
  qed
qed

lemma variants_find_cong: "(\<And>t. rc_binding_id c t = rc_binding_id c' t) \<Longrightarrow> variants_find c = variants_find c'"
proof -
  assume "\<And>t. rc_binding_id c t = rc_binding_id c' t"
  then have "read_matches c = read_matches c'" by (simp add: read_matches_def fun_eq_iff)
  then have "variant_matches c = variant_matches c'" by (intro ext) (simp add: variant_matches_def)
  then show ?thesis by (intro ext) (simp add: variants_find_def cong: option.case_cong if_cong)
qed

text \<open>No result is forgotten: what a scope finds in a cell it still finds there later.\<close>

definition remembers :: "('t, 'v, 'h) memo_world \<Rightarrow> ('t, 'v, 'h) memo_world \<Rightarrow> bool" where
  "remembers w w' \<longleftrightarrow> (\<forall>h c v. answers h c v w \<longrightarrow> answers h c v w')"

lemma remembers_refl: "remembers w w"
  by (simp add: remembers_def)

lemma remembers_trans: "remembers w w1 \<Longrightarrow> remembers w1 w2 \<Longrightarrow> remembers w w2"
  by (simp add: remembers_def)

lemma remembers_entries: "mw_entries w' = mw_entries w \<Longrightarrow> remembers w w'"
  by (simp add: remembers_def answers_def)

lemma remembers_get_or_insert: "get_or_insert_cell h w = (cell, w') \<Longrightarrow> remembers w w'"
  by (auto simp: get_or_insert_cell_def remembers_def answers_def split: option.splits)

lemma remembers_map_cell:
  assumes "\<And>c cell va. variants_find c cell = Some va \<Longrightarrow> variants_find c (g cell) = Some va"
  shows "remembers w (map_cell h g w)"
  using assms by (fastforce simp: remembers_def answers_def map_cell_def)

lemma remembers_guard: "remembers w (guard_enter h w)" "remembers w (guard_leave h w)"
proof -
  have "variants_find c (cell\<lparr>mc_owned := b\<rparr>) = variants_find c cell" for c and cell :: "('a, 'b) memo_cell" and b
    by (cases "mc_first cell") (simp_all add: variants_find_def)
  then show "remembers w (guard_enter h w)" "remembers w (guard_leave h w)"
    unfolding guard_enter_def guard_leave_def by (simp_all add: remembers_map_cell)
qed

lemma find_kept: "variants_find c cell = Some va \<Longrightarrow> variants_find c (variants_insert va' cell) = Some va"
  by (auto simp: variants_find_def variants_insert_def find_snoc split: option.splits if_splits)

text \<open>The world a run leaves, whether it returned or unwound.\<close>

fun left_in :: "('v, 'w) run option \<Rightarrow> 'w \<Rightarrow> bool" where
  "left_in (Some (Value v w)) w' \<longleftrightarrow> w' = w"
| "left_in (Some (Unwound w)) w' \<longleftrightarrow> w' = w"
| "left_in _ w' \<longleftrightarrow> False"

lemma run_body_remembers:
  assumes "\<And>cx f key w w'. left_in (call cx f key w) w' \<Longrightarrow> remembers w w'"
  shows "left_in (run_body call b hs w) w' \<Longrightarrow> remembers w w'"
proof (induction b arbitrary: hs w)
  case (ReadCx l t k)
  obtain x ks where "try_request_context (held hs l) t (mw_trackers w) = (x, ks)" by fastforce
  with ReadCx(2) have "left_in (run_body call (k x) hs (w\<lparr>mw_trackers := ks\<rparr>)) w'" by simp
  from remembers_trans [OF remembers_entries ReadCx(1) [OF rangeI this], of w] show ?case by simp
next
  case (WithCx l vs b)
  then obtain h n where "left_in (run_body call b (hs @ [h]) (w\<lparr>mw_next := n\<rparr>)) w'" by (auto split: option.splits)
  from remembers_trans [OF remembers_entries WithCx(1) [OF this], of w] show ?case by simp
next
  case (CallCx l f key k)
  show ?case
  proof (cases "call (held hs l) f key w")
    case (Some r)
    then show ?thesis
    proof (cases r)
      case (Value x w1)
      with Some CallCx(2) have "left_in (run_body call (k x) hs w1) w'" by simp
      moreover have "remembers w w1" using assms [of "held hs l" f key w w1] Some Value by simp
      ultimately show ?thesis using CallCx(1) [OF rangeI] remembers_trans by blast
    qed (use Some CallCx(2) assms [of "held hs l" f key w w'] in simp_all)
  qed (use CallCx(2) in simp)
qed (simp_all add: remembers_refl)

lemma memo_call_remembers: "left_in (memo_call hash P n cx f key w) w' \<Longrightarrow> remembers w w'"
proof (induction n arbitrary: cx f key w w')
  case (Suc n)
  let ?h = "hash (f, key)"
  obtain cell w0 where c: "get_or_insert_cell ?h w = (cell, w0)" by fastforce
  note w0 = remembers_get_or_insert [OF c]
  show ?case
  proof (cases "variants_find (hx_context cx) cell")
    case (Some va)
    then have "mw_entries w' = mw_entries w0"
      using Suc(2) by (auto simp: memo_get_or_init_def c variants_reuse_def variant_reuse_def)
    with remembers_trans [OF w0 remembers_entries] show ?thesis by blast
  next
    case None
    obtain child i ks where t: "cx_track cx (mw_trackers w0) = (child, i, ks)" by (metis prod_cases3)
    let ?w1 = "guard_enter ?h (w0\<lparr>mw_trackers := ks\<rparr>)"
    have w1: "remembers w ?w1"
      using remembers_trans [OF w0 remembers_trans [OF remembers_entries remembers_guard(1)]] by simp
    have body: "remembers w w2" if "left_in (run_body (memo_call hash P n) (P f key) [child] ?w1) w2" for w2
      using remembers_trans [OF w1 run_body_remembers [OF Suc(1) that]] .
    show ?thesis
    proof (cases "mc_owned cell")
      case True
      with None Suc(2) w0 show ?thesis by (simp add: memo_get_or_init_def c variants_reuse_def)
    next
      case False
      note m = memo_get_or_init_def c variants_reuse_def None False t
      show ?thesis
      proof (cases "run_body (memo_call hash P n) (P f key) [child] ?w1")
        case None
        with Suc(2) show ?thesis by (simp add: m)
      next
        case (Some r)
        show ?thesis
        proof (cases r)
          case (Value v w2)
          obtain rs ks' where tr: "take_reads i (mw_trackers w2) = (rs, ks')" by fastforce
          let ?va = "\<lparr>va_value = v, va_reads = rs\<rparr>"
          have "mw_entries w' = mw_entries (map_cell ?h (variants_insert ?va) (guard_leave ?h w2))"
            using Suc(2) Some Value by (simp add: m tr variant_reuse_def map_cell_def guard_leave_def Let_def)
          moreover have "remembers (guard_leave ?h w2) (map_cell ?h (variants_insert ?va) (guard_leave ?h w2))"
            by (rule remembers_map_cell) (rule find_kept)
          ultimately have "remembers (guard_leave ?h w2) w'" using remembers_trans remembers_entries by blast
          with body [of w2] Some Value remembers_guard(2) remembers_trans show ?thesis by (metis left_in.simps(1))
        next
          case (Unwound w2)
          then have "w' = guard_leave ?h w2" using Suc(2) Some by (simp add: m)
          with body [of w2] Some Unwound remembers_guard(2) remembers_trans show ?thesis by (metis left_in.simps(2))
        next
          case Exhausted
          with Some Suc(2) show ?thesis by (simp add: m)
        qed
      qed
    qed
  qed
qed simp

text \<open>The worlds that come later: any bodies run, in any contexts, to their end or to a panic.\<close>

inductive later :: "('f \<times> 'k \<Rightarrow> 'h) \<Rightarrow> ('f \<Rightarrow> 'k \<Rightarrow> ('t, 'v, 'f, 'k) body) \<Rightarrow>
    ('t, 'v, 'h) memo_world \<Rightarrow> ('t, 'v, 'h) memo_world \<Rightarrow> bool" for hash P where
  later_now: "later hash P w w"
| later_run: "later hash P w w1 \<Longrightarrow> left_in (run_body (memo_call hash P k) b hs w1) w2 \<Longrightarrow> later hash P w w2"

lemma later_remembers: "later hash P w w' \<Longrightarrow> remembers w w'"
  by (induction rule: later.induct)
    (blast intro: remembers_refl remembers_trans run_body_remembers memo_call_remembers)+

text \<open>C35. A memoized function runs once for the arguments and the scope it is called with.  Once a call has returned, whatever
  runs after it (in whatever scopes, and whether it returns or panics), a call of the same function with the same arguments
  in a scope that resolves as the first one did returns the same value and runs nothing: the cache and the ids stay as
  they are.\<close>

theorem memo_runs_once:
  assumes "inj hash" "world_ok hash P \<sigma> w" "ctx_ok \<sigma> (mw_next w) (hx_context cx)" "tracked (hx_tracker cx) (mw_trackers w)"
    and run: "memo_call hash P n cx f key w = Some (Value v w1)"
    and later: "later hash P w1 w2"
    and "\<And>t. rc_binding_id (hx_context cx') t = rc_binding_id (hx_context cx) t" "0 < m"
  shows "\<exists>w3. memo_call hash P m cx' f key w2 = Some (Value v w3) \<and> mw_entries w3 = mw_entries w2 \<and> mw_next w3 = mw_next w2"
proof -
  obtain n' m' where n: "n = Suc n'" "m = Suc m'" using run assms(8) by (cases n; cases m) auto
  have "answers (hash (f, key)) (hx_context cx) v w2"
    using later_remembers [OF later] memo_call_answers [OF assms(1-4)] run unfolding n(1) remembers_def by blast
  then obtain cell va where "mw_entries w2 (hash (f, key)) = Some cell" "variants_find (hx_context cx') cell = Some va" "va_value va = v"
    using variants_find_cong [OF assms(7)] unfolding answers_def by metis
  then show ?thesis
    by (simp add: n(2) memo_get_or_init_def get_or_insert_cell_def variants_reuse_def variant_reuse_def)
qed

subsection \<open>A concrete program\<close>

text \<open>Function 0 reads the value of type 0; function 1 calls it in its own scope and in one that shadows the value.\<close>

definition demo_functions :: "nat \<Rightarrow> nat \<Rightarrow> (nat, nat, nat, nat) body" where
  "demo_functions f key =
     (if f = 0 then ReadCx 0 0 (\<lambda>x. Return (case x of None \<Rightarrow> 0 | Some y \<Rightarrow> y + key))
      else CallCx 0 0 key (\<lambda>v. WithCx 0 [(0, v + 7)] (CallCx 1 0 key Return)))"

definition demo_handler :: "(nat, nat, nat, nat) body" where
  "demo_handler = CallCx 0 1 3 (\<lambda>a. CallCx 0 1 3 (\<lambda>b. Return (a + b)))"

lemmas demo_run = memo_call.simps demo_functions_def memo_get_or_init_def get_or_insert_cell_def cell_default_def
  variants_reuse_def variants_find_def variant_matches_def variant_reuse_def cx_track_def guard_enter_def guard_leave_def map_cell_def
  take_reads_def variants_insert_def record_eq_merge merge_into_def tracker_merge_def tracker_new_def cx_with_many_def
  rc_insert_def binding_new_def read_matches_def rc_binding_id_def held_def world_new_def cx_root_def Let_def

lemma demo_value: "\<exists>w. run_body (memo_call id demo_functions 2) demo_handler [cx_root] (world_new 1) = Some (Value 20 w)"
  unfolding demo_handler_def by (simp add: demo_run numeral_2_eq_2)

theorem memo_is_plain_witness:
  "\<exists>m. \<forall>m' \<ge> m. plain_body (plain_call demo_functions m') demo_handler [Map.empty] = Some (Some 20)"
proof -
  obtain w where "run_body (memo_call id demo_functions 2) demo_handler [cx_root] (world_new 1) = Some (Value 20 w)"
    using demo_value by blast
  then show ?thesis by (rule memo_is_plain [OF inj_on_id])
qed

lemma demo_plain: "plain_body (plain_call demo_functions 2) demo_handler [Map.empty] = Some (Some 20)"
proof -
  have f0: "plain_call demo_functions (Suc n) c 0 key = Some (Some (case c 0 of None \<Rightarrow> 0 | Some y \<Rightarrow> y + key))" for n c key
    by (simp add: demo_functions_def held_def)
  have f1: "plain_call demo_functions (Suc (Suc n)) Map.empty (Suc 0) key = Some (Some (7 + key))" for n key
    unfolding plain_call.simps(2) [of _ "Suc n"] demo_functions_def [of "Suc 0"] by (simp add: held_def scope_with_def f0 del: plain_call.simps)
  show ?thesis unfolding demo_handler_def numeral_2_eq_2 by (simp add: held_def f1 del: plain_call.simps)
qed

lemma demo_acyclic: "calls_below (\<lambda>f' key'. f' < f) (demo_functions f key)" "calls_below (\<lambda>f key. f < 2) demo_handler"
  by (simp_all add: demo_functions_def demo_handler_def)

theorem memo_returns_witness:
  "run_body (memo_call id demo_functions 2) demo_handler [cx_root] (world_new 5) = Some Exhausted \<or>
   (\<exists>w. run_body (memo_call id demo_functions 2) demo_handler [cx_root] (world_new 5) = Some (Value 20 w))"
  by (rule memo_returns [where rank = "\<lambda>f key. f", OF inj_on_id demo_acyclic(1,2) demo_plain])

text \<open>The handler calls function 0 in the root scope, then function 1, which calls it in another scope.\<close>

theorem memo_runs_once_witness:
  "\<exists>w1 w2 w3. memo_call id demo_functions 1 cx_root 0 3 (world_new 1) = Some (Value 0 w1) \<and>
     run_body (memo_call id demo_functions 2) demo_handler [cx_root] w1 = Some (Value 20 w2) \<and>
     memo_call id demo_functions 1 cx_root 0 3 w2 = Some (Value 0 w3) \<and> mw_entries w3 = mw_entries w2 \<and> mw_next w3 = mw_next w2"
proof -
  obtain w1 where r: "memo_call id demo_functions 1 cx_root 0 3 (world_new 1) = Some (Value 0 w1)"
    and h: "\<exists>w2. run_body (memo_call id demo_functions 2) demo_handler [cx_root] w1 = Some (Value 20 w2)"
    unfolding demo_handler_def by (simp add: demo_run numeral_2_eq_2)
  obtain w2 where w2: "run_body (memo_call id demo_functions 2) demo_handler [cx_root] w1 = Some (Value 20 w2)"
    using h by blast
  have "ctx_ok \<sigma> n (hx_context cx_root)" "tracked (hx_tracker cx_root) ks" for \<sigma> n ks
    by (simp_all add: ctx_ok_def cx_root_def tracked_def)
  note ok = memo_runs_once [OF inj_on_id world_new_ok this r, of w2 cx_root 1]
  have "later id demo_functions w1 w2" by (rule later_run [OF later_now, where k = 2 and b = demo_handler and hs = "[cx_root]"]) (simp add: w2)
  with ok r w2 show ?thesis by auto
qed

end
