(* ===== verification/Spec2Isabelle.thy ===== *)
theory Spec2Isabelle
  imports Prelude Iterators Route_Path Path_Params Endpoints Http_Types Http_Errors Layers Strip_Prefix
    Tables Trailing_Slash Origin Compression Builder Proxies Identity_Hash Rewrites Dispatch
    Cookie_Jars Sessions Html_Escape Html_Tokenizer View_Buffer View_Parts Hrefs
    Responses Futures Server_Events Static_Files Module_Routes Pretty_Tokens Pretty_Printer Pretty_Docs
    Trivia_Lexer Live_Types Live_Views Live_Contracts Live_Loops Live_Hoists Live_Stream
    Mail_Text Mail_Messages Contexts Memoize
begin

text \<open>
  Topcoat, a Rust web framework: its router and the core types the router rests on, as HOL
  definitions, with the theorems that make them correct.

  \<^bold>\<open>The program.\<close>  A router is built from routes, pages, layouts and layers
  (\<^verbatim>\<open>crates/topcoat-router/src/builder.rs\<close>).  The build groups the registrations by URL into
  endpoints, each with a table from methods to routes, selects the layers of every route, and
  adds the other trailing-slash form of every URL.  To handle a request the router resolves
  the client's address, installs the request context, matches the URL, picks the route for the
  method, checks the origin, runs the layers around the route, follows the rewrites a handler
  asks for, turns an error into its response and appends the headers queued on the way
  (\<^verbatim>\<open>router.rs\<close>).

  \<^bold>\<open>Theories.\<close>
  \<^item> \<open>Prelude\<close>, \<open>Iterators\<close>: strings, results, splitting and joining; the double-ended iterator
    contract as a locale.
  \<^item> \<open>Route_Path\<close>, \<open>Path_Params\<close>: \<^verbatim>\<open>path.rs\<close> and \<^verbatim>\<open>path_param.rs\<close>.  A path is the string it
    wraps; \<open>segments\<close> reads it as a list, and the lemmas relate the index loops of the parser,
    the prefix test and the URL matcher to that list.  A matched path's values come back under
    the names of its capturing segments.
  \<^item> \<open>Endpoints\<close>, \<open>Tables\<close>: \<^verbatim>\<open>methods.rs\<close>, \<^verbatim>\<open>endpoint.rs\<close>, \<^verbatim>\<open>route.rs\<close>.  The method table is
    interpreted as a map (locale \<open>method_table\<close>).
  \<^item> \<open>Http_Types\<close>, \<open>Http_Errors\<close>: header maps, requests, responses, the pending response headers
    of \<^verbatim>\<open>response/headers.rs\<close>, and \<^verbatim>\<open>error.rs\<close> with \<^verbatim>\<open>error/*.rs\<close>.
  \<^item> \<open>Layers\<close>, \<open>Strip_Prefix\<close>, \<open>Trailing_Slash\<close>, \<open>Origin\<close>, \<open>Builder\<close>: \<^verbatim>\<open>layer.rs\<close>,
    \<^verbatim>\<open>layer/strip_prefix.rs\<close>, \<^verbatim>\<open>body_limit.rs\<close>, \<^verbatim>\<open>trailing_slash.rs\<close>, \<^verbatim>\<open>origin.rs\<close>,
    \<^verbatim>\<open>builder.rs\<close> and \<^verbatim>\<open>page.rs\<close>.  A handler is a function from the context, the body and the
    pending headers to its outcome; a layer maps a handler to a handler.
  \<^item> \<open>Proxies\<close>: \<^verbatim>\<open>proxy.rs\<close>, the client address behind trusted proxies.
    A client's part of the list headers is \<open>arrives\<close>: fields of its own, and what it left in the field
    the first proxy appended to.
  \<^item> \<open>Compression\<close>: \<^verbatim>\<open>compression.rs\<close>, the setting of a router and what the compression middleware is
    asked to do; the middleware itself is an argument.
  \<^item> \<open>Rewrites\<close>, \<open>Dispatch\<close>: \<^verbatim>\<open>error/rewrite.rs\<close> and \<^verbatim>\<open>router.rs\<close>.  A followed rewrite is a step
    of the relation \<open>hop\<close>; the loop is a total function whose measure is the rewrites left.  What a
    turn's handlers see is \<open>turn_dispatch\<close>, of turns that end in a rewrite too.
  \<^item> \<open>Identity_Hash\<close>: \<^verbatim>\<open>fnv1a.rs\<close>, \<^verbatim>\<open>identity.rs\<close>, \<^verbatim>\<open>identity/key.rs\<close> and \<^verbatim>\<open>identity/site.rs\<close> of
    \<^verbatim>\<open>crates/topcoat-core/src\<close>.
  \<^item> \<open>Cookie_Jars\<close>: \<^verbatim>\<open>crates/topcoat-cookie/src\<close>.  A jar is its three operations; the adapters map
    jars to jars, and each keeps the laws of the locale \<open>cookies\<close>, so that any stack of them does
    (the relation \<open>adapted\<close>).
  \<^item> \<open>Sessions\<close>: \<^verbatim>\<open>crates/topcoat-session/src\<close>.  The session operations over a token store with
    the laws of the locale \<open>session_store\<close>, which the cookie store keeps.
  \<^item> \<open>Html_Escape\<close>, \<open>View_Buffer\<close>, \<open>View_Parts\<close>: the writer, the buffer and the attributes of
    \<^verbatim>\<open>crates/topcoat-view/src\<close>.  Parts are compiled to instructions and run by the renderer; the
    relation \<open>runs\<close> is the meaning of a block, and the two places parts go are interpretations of
    the locale \<open>sink_contract\<close>.  \<open>Html_Tokenizer\<close> is the part of the HTML standard's tokenizer that
    reads elements, attributes and comments, a reader of its own beside the writer: what a view writes
    is read back by it.

  \<^item> \<open>Hrefs\<close>: \<^verbatim>\<open>href.rs\<close>, and \<^verbatim>\<open>base_url.rs\<close> and \<^verbatim>\<open>url_form.rs\<close> of \<^verbatim>\<open>crates/topcoat-core/src\<close>.
    The loops that fill a path's parameters are related to the list of its segments, and a link is
    read back by the pattern of its own route.
  \<^item> \<open>Responses\<close>, \<open>Static_Files\<close>: \<^verbatim>\<open>response.rs\<close>, how the parts of a tuple make one response, and
    \<^verbatim>\<open>route/directory.rs\<close>, which serves the files below a directory.
  \<^item> \<open>Futures\<close>, \<open>Server_Events\<close>: \<^verbatim>\<open>content/sse\<close>.  Events are serialised to text and read back by a
    parser written from the HTML standard, with its own reading of lines; the response is a polled stream with a keep-alive timer.
  \<^item> \<open>Module_Routes\<close>: \<^verbatim>\<open>module\<close>.  The module router derives route paths from module paths.
  \<^item> \<open>Pretty_Tokens\<close>, \<open>Pretty_Printer\<close>, \<open>Pretty_Docs\<close>: \<^verbatim>\<open>crates/topcoat-core/grammar/src/pretty\<close>, the
    formatter's printer.  Its ring buffer is an interpretation of the locale \<open>stable_queue\<close>; the
    buffer's back-patched lengths are related to a reference layout that measures the document.  The relation \<open>reaches\<close> follows that layout
    to any group of a document, and a group is decided at the width that equals the space left.
    \<open>Trivia_Lexer\<close> is \<^verbatim>\<open>trivia.rs\<close>, which finds the comments of a source.
  \<^item> \<open>Live_Types\<close>, \<open>Live_Views\<close>, \<open>Live_Contracts\<close>, \<open>Live_Loops\<close>, \<open>Live_Hoists\<close>: the views that change while a
    page streams (\<^verbatim>\<open>internal/*_view.rs\<close>, \<^verbatim>\<open>yielder.rs\<close>, \<^verbatim>\<open>hoist.rs\<close>).  A view is its two polls, functions of
    its state and of the thread's slots; \<open>live_contract\<close> says what it promises of the regions on the
    page, \<open>sealed_contract\<close> and \<open>body_contract\<close> what a self-contained view and an async body do, and
    \<open>units_contract\<close> what the units of a join do.  Each view keeps the contract when its parts do;
    what a boundary does with a failed child and a hoisting view with hoisted parts is stated poll by poll.
  \<^item> \<open>Live_Stream\<close>: \<^verbatim>\<open>content/view.rs\<close>, a view as a streamed response, and the script that applies its
    swaps in the browser.
  \<^item> \<open>Mail_Text\<close>: \<^verbatim>\<open>crates/topcoat-mail/src/text.rs\<close>, the text of a mail derived from its HTML.  Its
    reader of entities is the inverse of the escapes of \<open>Html_Escape\<close>.  \<open>Mail_Messages\<close>: the rest of the
    crate.  A MIME body is a tree of parts, and the calls on the message builder are a list, so that what a
    message is made of can be read off; the transports are functions of the world outside.

  \<^item> \<open>Contexts\<close>, \<open>Memoize\<close>: \<^verbatim>\<open>context\<close> and \<^verbatim>\<open>memoize\<close> of \<^verbatim>\<open>crates/topcoat-core/src\<close>.  A memoized function is a
    tree of reads, derived scopes and calls; \<open>world_ok\<close> says that every cached result is right for all scopes that
    resolve its reads as they were resolved, and running with the cache is related to running without it.  The relation \<open>later\<close> is whatever may run between
    two calls; a result that was cached outlives it.

  \<^bold>\<open>Conventions.\<close>  A \<^verbatim>\<open>Result\<close> is a sum with the error on the left.  A panic is an outcome of
  its own where the program catches it and an error value where it ends the build.  Code of
  other crates is a parameter: the URL matcher \<^verbatim>\<open>matchit\<close> with its documented contract
  \<open>matcher_ok\<close>, percent and base64 coding, the address parsers, URI assembly, bodies.  Async
  code runs to completion, and one request is one sequential run.

  \<^bold>\<open>Bounds.\<close>  Loops are structural or have a measure, save the following.  The rewrite loop's
  measure is \<open>9\<close> less the dispatches recorded, since a chain stops at eight rewrites.  The
  escaping loop and the renderer's loop are partial functions, since a wrong table or a wrong
  buffer would make them run on; that they return is proved for the tables of the source
  (\<open>html_writer_escapes\<close>) and for every buffer the operations build (\<open>sealed_view_renders\<close>).
  The pretty printer's loops take as fuel the tokens or the comments left, and every turn takes one
  of them; \<open>pretty_is_layout\<close> shows that printing empties the buffer.
  The fuel of a memoized call bounds the depth of the calls; \<open>memo_returns\<close> says when it is enough.

  \<^bold>\<open>Not modelled.\<close>  The parts of the router that move bytes (body streaming,
  websockets, listeners, the tower adapters), the macros and
  the grammars over syntax trees of other crates, and the remaining crates beside the router: see the component list.
\<close>

end
